(* ===== verification/Prelude.thy ===== *)
theory Prelude
  imports Main "HOL-Library.Word"
begin

unbundle bit_operations_syntax

text \<open>
  Shared vocabulary of the development: the machine integers of the Rust code as words, the
  slice operations the parsers use, big-endian bytes, the collections that carry the proofs, and
  the interface of an incremental reader (a component that consumes a stream in chunks of any
  size), with the facts every such reader has.
\<close>

type_synonym u8 = "8 word"
type_synonym u16 = "16 word"
type_synonym u32 = "32 word"
type_synonym u64 = "64 word"
type_synonym bytes = "8 word list"

named_theorems wire_simps \<open>unsigned values of word operations\<close>
named_theorems reader_simps \<open>behaviour of incremental readers\<close>

subsection \<open>Rust's integer and slice operations\<close>

text \<open>The largest \<open>usize\<close> of the 64-bit targets the program is built for.\<close>

definition usize_max :: nat where
  "usize_max = 2 ^ 64 - 1"

definition saturating_add :: "nat \<Rightarrow> nat \<Rightarrow> nat" where
  "saturating_add a b = min (a + b) usize_max"

text \<open>\<open>slice.get(..n)\<close>: the first \<open>n\<close> elements, if there are that many.\<close>

definition get_to :: "'a list \<Rightarrow> nat \<Rightarrow> 'a list option" where
  "get_to xs n = (if n \<le> length xs then Some (take n xs) else None)"

fun trailing_zeros :: "nat \<Rightarrow> nat" where
  "trailing_zeros n = (if n = 0 then 64 else if odd n then 0 else Suc (trailing_zeros (n div 2)))"

declare trailing_zeros.simps [simp del]

text \<open>The bytes of an ASCII text.\<close>

definition as_bytes :: "string \<Rightarrow> bytes" where
  "as_bytes text = map of_char text"

text \<open>\<open>u64::to_be_bytes\<close> and its reading as a number.\<close>

definition to_be_bytes :: "u64 \<Rightarrow> bytes" where
  "to_be_bytes v = map (\<lambda>i. ucast (drop_bit (8 * i) v)) [7, 6, 5, 4, 3, 2, 1, 0]"

definition be_step :: "nat \<Rightarrow> u8 \<Rightarrow> nat" where
  "be_step v b = v * 256 + unat b"

subsection \<open>Unsigned values of words\<close>

lemma unat_or [wire_simps]: "unat (v OR w) = unat v OR unat w"
  by (simp add: unsigned_or_eq)

lemma unat_and [wire_simps]: "unat (v AND w) = unat v AND unat w"
  by (simp add: unsigned_and_eq)

lemma unat_push [wire_simps]:
  "unat (push_bit n (w :: 'a :: len word)) = (unat w * 2 ^ n) mod 2 ^ LENGTH('a)"
  using unsigned_push_bit_eq [of n w, where 'a = nat]
  by (simp only: take_bit_eq_mod) (simp add: push_bit_nat_def)

lemma unat_drop [wire_simps]: "unat (drop_bit n w) = unat w div 2 ^ n"
  by (simp only: unat_drop_bit_eq) (simp add: drop_bit_eq_div)

lemma unat_cast [wire_simps]: "unat (ucast (w :: 'a :: len word) :: 'b :: len word) = unat w mod 2 ^ LENGTH('b)"
  by (simp add: unsigned_ucast_eq take_bit_eq_mod)

lemma unat_lt8 [simp]: "unat (b :: u8) < 256"
  using unsigned_less [of b] by simp

lemma unat_le8 [simp]: "unat (b :: u8) \<le> 255"
  using unat_lt8 [of b] by linarith

lemma unat_lt64: "unat (v :: u64) < 18446744073709551616"
  using unsigned_less [of v] by simp

lemma unat_eq_imp: "unat (v :: 'a :: len word) = n \<Longrightarrow> v = of_nat n"
  by auto

lemma unat_of_small: "n < 2 ^ LENGTH('a :: len) \<Longrightarrow> unat (of_nat n :: 'a word) = n"
  by (simp add: unsigned_of_nat take_bit_nat_eq_self)

lemma nat_or_add: "(a :: nat) < 2 ^ n \<Longrightarrow> a OR (b * 2 ^ n) = a + b * 2 ^ n"
proof -
  assume a: "a < 2 ^ n"
  have "a AND (b * 2 ^ n) = 0"
  proof (rule bit_eqI)
    fix k
    show "bit (a AND (b * 2 ^ n)) k = bit (0 :: nat) k"
    proof (cases "k < n")
      case True
      then show ?thesis
        by (simp add: bit_and_iff bit_push_bit_iff flip: push_bit_eq_mult)
    next
      case False
      then have "\<not> bit a k"
        using a by (metis bit_take_bit_iff take_bit_nat_eq_self)
      then show ?thesis by (simp add: bit_and_iff)
    qed
  qed
  then show ?thesis by (simp add: disjunctive_add_eq_or)
qed

lemma shift_or_value:
  assumes "unat (v :: u64) < 2 ^ 56"
  shows "unat (push_bit 8 v OR ucast (b :: u8)) = be_step (unat v) b"
proof -
  have "unat v * 256 < 2 ^ 64" using assms by simp
  moreover have "unat b mod 2 ^ 64 = unat b"
    by (intro mod_less less_le_trans [OF unat_lt8]) simp
  ultimately have "unat (push_bit 8 v OR ucast b) = unat v * 2 ^ 8 OR unat b"
    by (simp add: wire_simps)
  also have "\<dots> = unat b + unat v * 2 ^ 8"
    using nat_or_add [of "unat b" 8 "unat v"] by (simp add: or.commute)
  finally show ?thesis by (simp add: be_step_def)
qed

lemma be_step_bound: "v < 2 ^ k \<Longrightarrow> be_step v b < 2 ^ (k + 8)"
proof -
  assume v: "v < 2 ^ k"
  have "be_step v b < (v + 1) * 256" by (simp add: be_step_def)
  also have "\<dots> \<le> 2 ^ k * 256" using v by (intro mult_right_mono) auto
  finally show ?thesis by (simp add: power_add)
qed

lemma foldl_be_bound: "v < 2 ^ k \<Longrightarrow> foldl be_step v bs < 2 ^ (k + 8 * length bs)"
proof (induction bs arbitrary: v k)
  case Nil
  then show ?case by simp
next
  case (Cons b bs)
  from be_step_bound [OF Cons.prems] have "be_step v b < 2 ^ (k + 8)" .
  from Cons.IH [OF this] show ?case by (simp add: algebra_simps)
qed

lemma foldl_shift_or:
  assumes "unat (v :: u64) < 2 ^ k" and "k + 8 * length bs \<le> 64"
  shows "unat (foldl (\<lambda>v (b :: u8). push_bit 8 v OR ucast b) v bs) = foldl be_step (unat v) bs"
  using assms
proof (induction bs arbitrary: v k)
  case Nil
  then show ?case by simp
next
  case (Cons b bs)
  let ?v = "push_bit 8 v OR ucast b :: u64"
  have "(2 :: nat) ^ k \<le> 2 ^ 56"
    using Cons.prems(2) by (intro power_increasing) auto
  then have v: "unat v < 2 ^ 56" using Cons.prems(1) by linarith
  have s: "unat ?v = be_step (unat v) b" by (rule shift_or_value [OF v])
  have "unat ?v < 2 ^ (k + 8)" using be_step_bound [OF Cons.prems(1)] s by simp
  then show ?case using Cons.IH [of ?v "k + 8"] Cons.prems(2) s by simp
qed

lemma length_to_be_bytes [simp]: "length (to_be_bytes v) = 8"
  by (simp add: to_be_bytes_def)

lemma be_step_byte: "be_step (unat v div 2 ^ (8 * Suc i)) (ucast (drop_bit (8 * i) (v :: u64))) = unat v div 2 ^ (8 * i)"
proof -
  let ?x = "unat v div 2 ^ (8 * i)"
  have "unat v div 2 ^ (8 * Suc i) = ?x div 256" by (simp add: power_add mult.commute flip: div_mult2_eq)
  then show ?thesis by (simp add: be_step_def wire_simps)
qed

text \<open>\<open>u64::from_be_bytes\<close> of the big-endian bytes.\<close>

lemma be_round: "foldl (\<lambda>v (b :: u8). push_bit 8 v OR ucast b) 0 (to_be_bytes v) = (v :: u64)"
proof -
  have "unat (foldl (\<lambda>v (b :: u8). push_bit 8 v OR ucast b) (0 :: u64) (to_be_bytes v)) = foldl be_step (unat (0 :: u64)) (to_be_bytes v)"
    by (rule foldl_shift_or [of _ 0]) simp_all
  also have "\<dots> = foldl be_step (unat v div 2 ^ (8 * Suc 7)) (to_be_bytes v)"
    using unat_lt64 [of v] by simp
  also have "\<dots> = unat v"
    using be_step_byte [of v 7] be_step_byte [of v 6] be_step_byte [of v 5] be_step_byte [of v 4]
      be_step_byte [of v 3] be_step_byte [of v 2] be_step_byte [of v 1] be_step_byte [of v 0]
    by (simp add: to_be_bytes_def)
  finally show ?thesis by (rule unat_eq_imp [THEN trans]) simp
qed

lemma get_to_Some [simp]: "get_to xs n = Some ys \<longleftrightarrow> n \<le> length xs \<and> ys = take n xs"
  by (auto simp: get_to_def)

lemma get_to_None [simp]: "get_to xs n = None \<longleftrightarrow> length xs < n"
  by (auto simp: get_to_def)

subsection \<open>Incremental readers\<close>

text \<open>
  The outcome of consuming input: the events emitted so far and an error or the state to go on
  from. \<open>seq_out\<close> continues unless there was an error, as the \<open>?\<close> operator in a read loop does.
\<close>

type_synonym ('e, 'x, 's) outcome = "'e list \<times> ('x + 's)"

definition seq_out :: "('e, 'x, 'a) outcome \<Rightarrow> ('a \<Rightarrow> ('e, 'x, 'b) outcome) \<Rightarrow> ('e, 'x, 'b) outcome" where
  "seq_out r k = (case r of (es, Inl x) \<Rightarrow> (es, Inl x) | (es, Inr a) \<Rightarrow> (case k a of (es', r') \<Rightarrow> (es @ es', r')))"

definition map_out :: "('a \<Rightarrow> 'b) \<Rightarrow> ('e, 'x, 'a) outcome \<Rightarrow> ('e, 'x, 'b) outcome" where
  "map_out f r = (case r of (es, Inl x) \<Rightarrow> (es, Inl x) | (es, Inr a) \<Rightarrow> (es, Inr (f a)))"

fun run_bytes :: "('a \<Rightarrow> u8 \<Rightarrow> ('e, 'x, 'a) outcome) \<Rightarrow> 'a \<Rightarrow> bytes \<Rightarrow> ('e, 'x, 'a) outcome" where
  "run_bytes step a [] = ([], Inr a)"
| "run_bytes step a (b # bs) = seq_out (step a b) (\<lambda>a'. run_bytes step a' bs)"

fun feed_chunks :: "('s \<Rightarrow> bytes \<Rightarrow> ('e, 'x, 's) outcome) \<Rightarrow> 's \<Rightarrow> bytes list \<Rightarrow> ('e, 'x, 's) outcome" where
  "feed_chunks feed s [] = ([], Inr s)"
| "feed_chunks feed s (c # cs) = seq_out (feed s c) (\<lambda>s'. feed_chunks feed s' cs)"

lemma seq_out_simps [simp]:
  "seq_out (es, Inl x) k = (es, Inl x)"
  "seq_out ([], Inr a) k = k a"
  "seq_out r (\<lambda>a. ([], Inr a)) = r"
  by (auto simp: seq_out_def split: prod.splits sum.splits)

lemma seq_out_assoc: "seq_out (seq_out r k) l = seq_out r (\<lambda>a. seq_out (k a) l)"
  by (auto simp: seq_out_def split: prod.splits sum.splits)

lemma map_out_simps [simp]:
  "map_out f (es, Inl x) = (es, Inl x)" "map_out f (es, Inr a) = (es, Inr (f a))"
  by (simp_all add: map_out_def)

lemma map_out_seq: "map_out f (seq_out r k) = seq_out r (\<lambda>a. map_out f (k a))"
  by (auto simp: seq_out_def map_out_def split: prod.splits sum.splits)

lemma seq_out_map: "seq_out (map_out f r) k = seq_out r (\<lambda>a. k (f a))"
  by (auto simp: seq_out_def map_out_def split: prod.splits sum.splits)

lemma seq_out_cong:
  "(\<And>es a. r = (es, Inr a) \<Longrightarrow> k a = l a) \<Longrightarrow> seq_out r k = seq_out r l"
  by (auto simp: seq_out_def split: prod.splits sum.splits)

lemma run_bytes_append:
  "run_bytes step a (xs @ ys) = seq_out (run_bytes step a xs) (\<lambda>a'. run_bytes step a' ys)"
  by (induction xs arbitrary: a) (simp_all add: seq_out_assoc)

text \<open>
  The contract of an incremental reader: what it does with a chunk is what an abstract automaton
  does with the chunk's bytes one after another, seen through an abstraction of its buffers.
\<close>

locale byte_reader =
  fixes step :: "'a \<Rightarrow> u8 \<Rightarrow> ('e, 'x, 'a) outcome"
    and feed :: "'s \<Rightarrow> bytes \<Rightarrow> ('e, 'x, 's) outcome"
    and abs :: "'s \<Rightarrow> 'a"
    and inv :: "'s \<Rightarrow> bool"
  assumes feed_run: "inv s \<Longrightarrow> map_out abs (feed s bs) = run_bytes step (abs s) bs"
    and feed_inv: "inv s \<Longrightarrow> feed s bs = (es, Inr s') \<Longrightarrow> inv s'"
begin

lemma chunked: "inv s \<Longrightarrow> map_out abs (feed_chunks feed s cs) = run_bytes step (abs s) (concat cs)"
proof (induction cs arbitrary: s)
  case Nil
  then show ?case by simp
next
  case (Cons c cs)
  have "map_out abs (feed_chunks feed s (c # cs)) =
      seq_out (feed s c) (\<lambda>s'. map_out abs (feed_chunks feed s' cs))"
    by (simp add: map_out_seq)
  also have "\<dots> = seq_out (feed s c) (\<lambda>s'. run_bytes step (abs s') (concat cs))"
    by (rule seq_out_cong) (blast intro: Cons.IH feed_inv [OF Cons.prems])
  also have "\<dots> = seq_out (map_out abs (feed s c)) (\<lambda>a. run_bytes step a (concat cs))"
    by (simp add: seq_out_map)
  also have "\<dots> = run_bytes step (abs s) (concat (c # cs))"
    by (simp add: feed_run [OF Cons.prems] run_bytes_append)
  finally show ?case .
qed

lemma feed_chunks_inv: "inv s \<Longrightarrow> feed_chunks feed s cs = (es, Inr s') \<Longrightarrow> inv s'"
proof (induction cs arbitrary: s es)
  case (Cons c cs)
  then show ?case
    by (auto simp: seq_out_def split: prod.splits sum.splits intro: Cons.IH feed_inv)
qed simp

lemma split_irrelevant:
  "inv s \<Longrightarrow> concat cs = concat ds \<Longrightarrow>
    map_out abs (feed_chunks feed s cs) = map_out abs (feed_chunks feed s ds)"
  by (simp add: chunked)

lemma one_chunk: "inv s \<Longrightarrow> map_out abs (feed_chunks feed s cs) = map_out abs (feed s (concat cs))"
  by (simp add: chunked feed_run)

end

end
