(* ===== verification/Varint.thy ===== *)
theory Varint
  imports Prelude
begin

unbundle bit_operations_syntax

text \<open>
  QUIC variable-length integers, \<^verbatim>\<open>rust/http3/src/varint.rs\<close>: the whole-buffer decoder, the minimal
  encoder, and \<open>Partial\<close>, the reader of an integer that arrives split across chunks. A buffer
  (\<open>impl Buf\<close>) is the list of its remaining bytes; an operation that advances it returns what is left.
\<close>

definition varint_MAX :: u64 where
  "varint_MAX = push_bit 62 1 - 1"

definition varint_size :: "u8 \<Rightarrow> nat" where
  "varint_size first = push_bit (unat (drop_bit 6 first)) 1"

definition varint_decode :: "bytes \<Rightarrow> (u64 \<times> nat) option" where
  "varint_decode input =
     (case input of
        [] \<Rightarrow> None
      | first # _ \<Rightarrow>
          (case get_to input (varint_size first) of
             None \<Rightarrow> None
           | Some bytes \<Rightarrow>
               Some (foldl (\<lambda>value byte. push_bit 8 value OR ucast byte)
                       (ucast (bytes ! 0 AND 0x3f)) (drop 1 bytes),
                     length bytes)))"

definition varint_len :: "u64 \<Rightarrow> nat" where
  "varint_len value =
     (if value < 64 then 1
      else if value < 16384 then 2
      else if value < 1073741824 then 4
      else 8)"

definition varint_put :: "u64 \<Rightarrow> bytes \<Rightarrow> bytes" where
  "varint_put value output =
     (let size = varint_len value;
          bytes = to_be_bytes value;
          bytes = bytes[8 - size := bytes ! (8 - size) OR push_bit 6 (of_nat (trailing_zeros size))]
      in output @ drop (8 - size) bytes)"

record partial =
  p_bytes :: bytes
  p_used :: nat

definition partial_default :: partial where
  "partial_default = \<lparr>p_bytes = replicate 8 0, p_used = 0\<rparr>"

function partial_read :: "partial \<Rightarrow> bytes \<Rightarrow> u64 option \<times> partial \<times> bytes" where
  "partial_read p input =
     (let used = p_used p;
          need = (if used = 0 then 1 else varint_size (p_bytes p ! 0))
      in if used = need
         then (map_option fst (varint_decode (take used (p_bytes p))), p\<lparr>p_used := 0\<rparr>, input)
         else
           let n = min (need - used) (length input)
           in if n = 0 then (None, p, input)
              else partial_read
                (p\<lparr>p_bytes := take used (p_bytes p) @ take n input @ drop (used + n) (p_bytes p),
                   p_used := used + n\<rparr>)
                (drop n input))"
  by pat_completeness auto
termination
  by (relation "measure (\<lambda>(p, input). length input)") auto

declare partial_read.simps [simp del]

definition partial_is_empty :: "partial \<Rightarrow> bool" where
  "partial_is_empty p \<longleftrightarrow> p_used p = 0"

subsection \<open>Decoding and encoding\<close>

lemma varint_size_cases: "varint_size b \<in> {1, 2, 4, 8}"
proof -
  have "unat (drop_bit 6 b) < 4"
    using unat_lt8 [of b] unfolding unat_drop by (simp add: less_mult_imp_div_less)
  then have "unat (drop_bit 6 b) \<in> {0, 1, 2, 3}" by auto
  then show ?thesis by (auto simp: varint_size_def)
qed

lemma varint_size_pos [simp]: "0 < varint_size b" and varint_size_le [simp]: "varint_size b \<le> 8"
  using varint_size_cases [of b] by auto

lemma low_six: "unat (b AND 0x3f :: u8) = unat b mod 64"
proof -
  have "(0x3f :: u8) = mask 6" by (simp add: mask_eq_exp_minus_1)
  then have "b AND 0x3f = take_bit 6 b" by (simp only: take_bit_eq_mask)
  then show ?thesis by (simp only: unsigned_take_bit_eq) (simp add: take_bit_eq_mod)
qed

lemma varint_decode_Cons:
  "varint_decode (b # bs) =
     (if varint_size b - 1 \<le> length bs
      then Some (of_nat (foldl be_step (unat b mod 64) (take (varint_size b - 1) bs)), varint_size b)
      else None)"
proof (cases "varint_size b - 1 \<le> length bs")
  case True
  let ?t = "take (varint_size b - 1) bs"
  have tk: "take (varint_size b) (b # bs) = b # ?t"
    by (cases "varint_size b") (use varint_size_pos [of b] in auto)
  have len: "length ?t = varint_size b - 1" using True by simp
  then have fits: "6 + 8 * length ?t \<le> 64" using varint_size_le [of b] by linarith
  have c: "unat (ucast (b AND 0x3f) :: u64) = unat b mod 64"
    unfolding unat_cast low_six by (rule mod_less) (rule less_le_trans [OF mod_less_divisor], auto)
  have "unat (ucast (b AND 0x3f) :: u64) < 2 ^ 6" unfolding c by simp
  then have "unat (foldl (\<lambda>v (b :: u8). push_bit 8 v OR ucast b) (ucast (b AND 0x3f) :: u64) ?t)
      = foldl be_step (unat b mod 64) ?t"
    using foldl_shift_or [OF _ fits, of "ucast (b AND 0x3f)"] c by simp
  then have "foldl (\<lambda>v (b :: u8). push_bit 8 v OR ucast b) (ucast (b AND 0x3f) :: u64) ?t
      = of_nat (foldl be_step (unat b mod 64) ?t)"
    by (rule unat_eq_imp)
  with True tk len show ?thesis
    by (cases "varint_size b") (auto simp: varint_decode_def get_to_def)
next
  case False
  then show ?thesis by (auto simp: varint_decode_def get_to_def)
qed

lemma varint_decode_Nil [simp]: "varint_decode [] = None"
  by (simp add: varint_decode_def)

lemma varint_decode_le: "varint_decode bs = Some (v, n) \<Longrightarrow> 0 < n \<and> n \<le> 8 \<and> n \<le> length bs"
  by (cases bs) (auto simp: varint_decode_Cons split: if_splits)

lemma varint_decode_append:
  "varint_decode bs = Some (v, n) \<Longrightarrow> varint_decode (bs @ cs) = Some (v, n)"
  by (cases bs) (auto simp: varint_decode_Cons split: if_splits)

lemma varint_decode_take:
  "varint_decode bs = Some (v, n) \<Longrightarrow> varint_decode (take n bs) = Some (v, n)"
proof (cases bs)
  case (Cons b cs)
  assume d: "varint_decode bs = Some (v, n)"
  then have n: "n = varint_size b" and l: "varint_size b - 1 \<le> length cs"
    by (auto simp: Cons varint_decode_Cons split: if_splits)
  have "take n bs = b # take (varint_size b - 1) cs"
    unfolding Cons n by (cases "varint_size b") (use varint_size_pos [of b] in auto)
  with d l n show ?thesis by (auto simp: Cons varint_decode_Cons min_absorb2)
qed auto

lemma be_byte: "unat (ucast (drop_bit (8 * i) (v :: u64)) :: u8) = unat v div 256 ^ i mod 256"
  unfolding unat_cast unat_drop by (simp add: power_mult)

lemma tag_bits:
  assumes "unat (b :: u8) < 64" and "k < 4"
  shows "unat (b OR push_bit 6 (of_nat k)) = unat b + k * 64"
proof -
  have k: "unat (of_nat k :: u8) = k" using assms(2) by (intro unat_of_small) simp
  have "(k * 2 ^ 6) mod 2 ^ 8 = k * 2 ^ 6" using assms(2) by (intro mod_less) simp
  then have "unat (b OR push_bit 6 (of_nat k)) = unat b OR (k * 2 ^ 6)"
    unfolding unat_or unat_push k by simp
  also have "\<dots> = unat b + k * 2 ^ 6" using assms(1) by (intro nat_or_add) simp
  finally show ?thesis by simp
qed

lemma tag_size:
  assumes "unat (b :: u8) < 64" and "k < 4"
  shows "varint_size (b OR push_bit 6 (of_nat k)) = 2 ^ k"
    and "unat (b OR push_bit 6 (of_nat k)) mod 64 = unat b"
  unfolding varint_size_def unat_drop tag_bits [OF assms] using assms(1) by simp_all

text \<open>The four lengths as an exponent: \<open>put\<close> writes the tag \<open>k\<close> with \<open>2 ^ k\<close> bytes.\<close>

definition varint_exp :: "u64 \<Rightarrow> nat" where
  "varint_exp v = (if v < 64 then 0 else if v < 16384 then 1 else if v < 1073741824 then 2 else 3)"

lemma varint_len_exp: "varint_len v = 2 ^ varint_exp v" and varint_exp_lt: "varint_exp v < 4"
  by (simp_all add: varint_len_def varint_exp_def)

lemma trailing_zeros_exp: "trailing_zeros (2 ^ k) = k"
  by (induction k) (simp_all add: trailing_zeros.simps [of "2 ^ _"] trailing_zeros.simps [of "2 * 2 ^ _"]
      trailing_zeros.simps [of "Suc 0"])

lemma varint_exp_bound:
  assumes "v \<le> varint_MAX"
  shows "unat v < 64 * 256 ^ (2 ^ varint_exp v - 1)"
proof -
  have "unat v \<le> unat varint_MAX" using assms by (simp add: word_le_nat_alt)
  moreover have "unat varint_MAX = 4611686018427387903" by (simp add: varint_MAX_def)
  ultimately show ?thesis
    by (auto simp: varint_exp_def word_less_nat_alt)
qed

abbreviation be_bytes :: "u64 \<Rightarrow> nat \<Rightarrow> bytes" where
  "be_bytes v n \<equiv> map (\<lambda>i. ucast (drop_bit (8 * i) v)) (rev [0..<n])"

lemma foldl_be_bytes: "foldl be_step a (be_bytes v n) = a * 256 ^ n + unat v mod 256 ^ n"
proof (induction n arbitrary: a)
  case 0
  then show ?case by simp
next
  case (Suc n)
  have "unat v mod 256 ^ Suc n = 256 ^ n * (unat v div 256 ^ n mod 256) + unat v mod 256 ^ n"
    using mod_mult2_eq [of "unat v" "256 ^ n" 256] by (simp add: mult.commute)
  moreover have "foldl be_step a (be_bytes v (Suc n)) =
      (a * 256 + unat v div 256 ^ n mod 256) * 256 ^ n + unat v mod 256 ^ n"
    using Suc.IH [of "a * 256 + unat v div 256 ^ n mod 256"] be_byte [of n v]
    by (simp add: be_step_def [of a])
  ultimately show ?case by (simp add: algebra_simps)
qed

lemma to_be_bytes_rev: "to_be_bytes v = be_bytes v 8"
  by (simp add: to_be_bytes_def upt_conv_Cons numeral_eq_Suc)

lemma be_bytes_drop: "n \<le> 8 \<Longrightarrow> drop (8 - n) (be_bytes v 8) = be_bytes v n"
proof -
  assume n: "n \<le> 8"
  then have "[0..<8] = [0..<n] @ [n..<8]" using upt_add_eq_append [of 0 n "8 - n"] by simp
  then have "rev [0..<8] = rev [n..<8] @ rev [0..<n]" by simp
  then show ?thesis using n by (simp add: drop_map)
qed

lemma varint_put_bytes:
  "varint_put v out =
     (let n = 2 ^ varint_exp v
      in out @ ((ucast (drop_bit (8 * (n - 1)) v) OR push_bit 6 (of_nat (varint_exp v))) # be_bytes v (n - 1)))"
proof -
  define n :: nat where "n = 2 ^ varint_exp v"
  have "varint_exp v \<in> {0, 1, 2, 3}" using varint_exp_lt [of v] by auto
  then have n: "0 < n" "n \<le> 8" by (auto simp: n_def)
  have len: "length (to_be_bytes v) = 8" by simp
  have hd: "drop (8 - n) (to_be_bytes v) = be_bytes v n"
    by (simp only: to_be_bytes_rev be_bytes_drop [OF n(2)])
  also have "\<dots> = ucast (drop_bit (8 * (n - 1)) v) # be_bytes v (n - 1)"
    using n(1) by (cases n) simp_all
  finally have tl: "drop (8 - n) (to_be_bytes v) = ucast (drop_bit (8 * (n - 1)) v) # be_bytes v (n - 1)" .
  then have nth: "to_be_bytes v ! (8 - n) = ucast (drop_bit (8 * (n - 1)) v)"
    using n by (metis len diff_less hd_drop_conv_nth list.sel(1) zero_less_numeral)
  have "drop (8 - n) ((to_be_bytes v)[8 - n := x]) = x # be_bytes v (n - 1)" for x
    using tl by (simp add: drop_update_swap)
  moreover have "trailing_zeros n = varint_exp v" by (simp add: n_def trailing_zeros_exp)
  ultimately show ?thesis
    by (simp add: varint_put_def varint_len_exp nth flip: n_def)
qed

lemma varint_put_append: "varint_put v out = out @ varint_put v []"
  by (simp add: varint_put_bytes Let_def)

lemma length_varint_put [simp]: "length (varint_put v out) = length out + varint_len v"
  by (simp add: varint_put_bytes Let_def varint_len_exp)

lemma varint_decode_put:
  assumes "v \<le> varint_MAX"
  shows "varint_decode (varint_put v [] @ rest) = Some (v, varint_len v)"
proof -
  define n :: nat where "n = 2 ^ varint_exp v"
  have n: "0 < n" by (simp add: n_def)
  have bound: "unat v < 64 * 256 ^ (n - 1)" using varint_exp_bound [OF assms] by (simp add: n_def)
  let ?b = "ucast (drop_bit (8 * (n - 1)) v) :: u8"
  have "unat v div 256 ^ (n - 1) < 64" using bound by (simp add: less_mult_imp_div_less)
  then have b: "unat ?b = unat v div 256 ^ (n - 1)" by (simp only: be_byte) simp
  with \<open>unat v div 256 ^ (n - 1) < 64\<close> have "unat ?b < 64" by simp
  note tag = tag_size [OF this varint_exp_lt [of v]]
  have "foldl be_step (unat ?b) (be_bytes v (n - 1)) = unat v"
    unfolding foldl_be_bytes b by (rule div_mult_mod_eq)
  with tag n show ?thesis
    by (simp add: varint_put_bytes Let_def varint_decode_Cons varint_len_exp flip: n_def)
qed

lemma varint_decode_bound: "varint_decode bs = Some (v, n) \<Longrightarrow> v \<le> varint_MAX \<and> varint_len v \<le> n"
proof (cases bs)
  case (Cons b cs)
  let ?t = "take (varint_size b - 1) cs"
  assume "varint_decode bs = Some (v, n)"
  then have v: "v = of_nat (foldl be_step (unat b mod 64) ?t)" and n: "n = varint_size b"
    and l: "length ?t = varint_size b - 1"
    by (auto simp: Cons varint_decode_Cons split: if_splits)
  have bd: "foldl be_step (unat b mod 64) ?t < 2 ^ (6 + 8 * (n - 1))"
    using foldl_be_bound [of "unat b mod 64" 6 ?t] l n by simp
  also have "\<dots> \<le> (2 :: nat) ^ 62"
    using varint_size_le [of b] n by (intro power_increasing) linarith+
  finally have "foldl be_step (unat b mod 64) ?t < 2 ^ 62" .
  then have u: "unat v = foldl be_step (unat b mod 64) ?t"
    unfolding v by (intro unat_of_small) simp
  have m: "unat varint_MAX = 2 ^ 62 - 1" by (simp add: varint_MAX_def)
  have "unat v \<le> unat varint_MAX" using bd varint_size_le [of b] n u m
    \<open>foldl be_step (unat b mod 64) ?t < 2 ^ 62\<close> by simp
  moreover have "varint_len v \<le> n"
    using varint_size_cases [of b] bd
    unfolding varint_len_def word_less_nat_alt u n by auto
  ultimately show ?thesis by (simp add: word_le_nat_alt)
qed auto

subsection \<open>Reading an integer that arrives in parts\<close>

text \<open>The bytes held back between two reads.\<close>

definition pend :: "partial \<Rightarrow> bytes" where
  "pend p = take (p_used p) (p_bytes p)"

definition partial_wf :: "partial \<Rightarrow> bool" where
  "partial_wf p \<longleftrightarrow> length (p_bytes p) = 8 \<and> varint_decode (pend p) = None \<and> p_used p \<le> 8"

lemma partial_default_wf [simp]: "partial_wf partial_default" and pend_default [simp]: "pend partial_default = []"
  by (simp_all add: partial_wf_def pend_def partial_default_def)

lemma length_pend: "length (p_bytes p) = 8 \<Longrightarrow> p_used p \<le> 8 \<Longrightarrow> length (pend p) = p_used p"
  by (simp add: pend_def)

lemma varint_decode_NoneI: "b # bs = cs \<Longrightarrow> length cs < varint_size b \<Longrightarrow> varint_decode cs = None"
  by (auto simp: varint_decode_Cons)

lemma partial_is_empty_pend: "partial_wf p \<Longrightarrow> partial_is_empty p \<longleftrightarrow> pend p = []"
  by (auto simp: partial_is_empty_def partial_wf_def pend_def)

lemma partial_read_need:
  assumes "length (p_bytes p) = 8" and "p_used p \<le> 8"
  shows "(if p_used p = 0 then 1 else varint_size (p_bytes p ! 0)) =
    (case pend p of [] \<Rightarrow> 1 | b # _ \<Rightarrow> varint_size b)"
  using assms by (cases "p_bytes p"; cases "p_used p") (auto simp: pend_def)

text \<open>
  What one call does, as a function of the bytes held back: it takes the next missing bytes into
  the buffer, or completes the integer.
\<close>

lemma partial_read_spec:
  assumes "length (p_bytes p) = 8" and "p_used p \<le> (case pend p of [] \<Rightarrow> 0 | b # _ \<Rightarrow> varint_size b)"
  shows "\<exists>p'. partial_wf p' \<and> partial_read p input =
     (case varint_decode (pend p @ input) of
        None \<Rightarrow> (None, p', []) | Some (v, n) \<Rightarrow> (Some v, p', drop n (pend p @ input))) \<and>
     pend p' = (case varint_decode (pend p @ input) of None \<Rightarrow> pend p @ input | Some _ \<Rightarrow> [])"
  using assms
proof (induction p input rule: partial_read.induct)
  case (1 p input)
  let ?need = "if p_used p = 0 then 1 else varint_size (p_bytes p ! 0)"
  let ?n = "min (?need - p_used p) (length input)"
  let ?p = "p\<lparr>p_bytes := take (p_used p) (p_bytes p) @ take ?n input @ drop (p_used p + ?n) (p_bytes p),
              p_used := p_used p + ?n\<rparr>"
  have used: "p_used p \<le> 8"
    using "1.prems"(2) by (auto split: list.splits intro: le_trans [OF _ varint_size_le])
  note len = length_pend [OF "1.prems"(1) used]
  note need = partial_read_need [OF "1.prems"(1) used]
  consider (full) b bs where "pend p = b # bs" "p_used p = varint_size b"
    | (stop) "p_used p \<noteq> ?need" "input = []" | (more) "p_used p \<noteq> ?need" "input \<noteq> []"
    using need len by (cases "pend p"; cases "p_used p = ?need") auto
  then show ?case
  proof cases
    case full
    then have "p_used p = ?need" using need by simp
    moreover have "\<exists>v. varint_decode (pend p) = Some (v, varint_size b)"
      using len full by (auto simp: varint_decode_Cons)
    then obtain v where d: "varint_decode (pend p) = Some (v, varint_size b)" ..
    moreover have dr: "drop (varint_size b) (pend p @ input) = input"
      using len full(2) by (simp del: append_Cons)
    moreover have "take (p_used p) (p_bytes p) = pend p" by (simp add: pend_def)
    moreover have "pend (p\<lparr>p_used := 0\<rparr>) = []" by (simp add: pend_def)
    ultimately show ?thesis
      using full(2) d varint_decode_append [OF d, of input] "1.prems"(1)
      by (intro exI [of _ "p\<lparr>p_used := 0\<rparr>"])
        (subst partial_read.simps, simp add: Let_def partial_wf_def del: append_Cons)
  next
    case stop
    then have none: "varint_decode (pend p) = None"
      using need len "1.prems"(2) by (cases "pend p") (auto simp: varint_decode_Cons)
    with stop show ?thesis
      using "1.prems"(1) used
      by (intro exI [of _ p]) (subst partial_read.simps, simp add: Let_def partial_wf_def)
  next
    case more
    have lt: "p_used p < ?need"
      using more(1) need "1.prems"(2) len by (cases "pend p") auto
    have n0: "?n \<noteq> 0" using lt more(2) by simp
    have need8: "?need \<le> 8" by simp
    have pend': "pend ?p = pend p @ take ?n input"
      using len used by (simp add: pend_def)
    have split: "pend ?p @ drop ?n input = pend p @ input" by (simp add: pend')
    have len': "length (p_bytes ?p) = 8"
      using lt need8 "1.prems"(1) used by (simp add: min_def)
    have used': "p_used ?p \<le> (case pend ?p of [] \<Rightarrow> 0 | b # _ \<Rightarrow> varint_size b)"
    proof (cases "pend p")
      case Nil
      then have "p_used p = 0" using len by simp
      then show ?thesis using Nil more(2) varint_size_pos [of "hd input"]
        by (cases input) (auto simp: pend_def Suc_le_eq)
    next
      case (Cons b bs)
      then show ?thesis unfolding pend' Cons using need lt Cons by simp
    qed
    have step: "partial_read p input = partial_read ?p (drop ?n input)"
      by (subst partial_read.simps) (simp only: Let_def more(1) n0 if_False)
    show ?thesis
      using "1.IH" [OF refl refl more(1) refl n0 len' used'] unfolding step split .
  qed
qed

lemma partial_read_wf:
  assumes "partial_wf p"
  obtains p' where "partial_wf p'"
    and "partial_read p input =
     (case varint_decode (pend p @ input) of
        None \<Rightarrow> (None, p', []) | Some (v, n) \<Rightarrow> (Some v, p', drop n (pend p @ input)))"
    and "pend p' = (case varint_decode (pend p @ input) of None \<Rightarrow> pend p @ input | Some _ \<Rightarrow> [])"
proof -
  have "p_used p \<le> (case pend p of [] \<Rightarrow> 0 | b # _ \<Rightarrow> varint_size b)"
    using assms length_pend [of p]
    by (cases "pend p") (auto simp: partial_wf_def varint_decode_Cons split: if_splits)
  with partial_read_spec [of p input] assms that show ?thesis by (auto simp: partial_wf_def)
qed

subsection \<open>Facts for the readers built on it\<close>

lemma varint_decode_prefix_None: "varint_decode (xs @ ys) = None \<Longrightarrow> varint_decode xs = None"
  using varint_decode_append [of xs _ _ ys] by (cases "varint_decode xs") auto

lemma varint_decode_snoc:
  assumes "varint_decode held = None" and "varint_decode (held @ [b]) = Some (v, n)"
  shows "n = Suc (length held)"
proof (rule ccontr)
  assume "n \<noteq> Suc (length held)"
  then have n: "n \<le> length held" using varint_decode_le [OF assms(2)] by simp
  then have "varint_decode (take n held) = Some (v, n)"
    using varint_decode_take [OF assms(2)] by simp
  then have "varint_decode held = Some (v, n)"
    using varint_decode_append [of "take n held" v n "drop n held"] by simp
  with assms(1) show False by simp
qed

subsection \<open>Properties\<close>

text \<open>
  Every value a varint can hold survives encoding and decoding, whatever follows it in the
  buffer: decoding the bytes \<open>put\<close> appends gives the value back and reports exactly the length \<open>len\<close>
  announced, which is also the number of bytes written.
\<close>

theorem varint_put_decode:
  assumes "v \<le> varint_MAX"
  shows "\<exists>enc. varint_put v out = out @ enc \<and> length enc = varint_len v \<and>
    varint_decode (enc @ rest) = Some (v, varint_len v)"
  using varint_put_append [of v out] varint_decode_put [OF assms, of rest]
  by (intro exI [of _ "varint_put v []"]) simp

theorem varint_put_decode_witness:
  "(15293 :: u64) \<le> varint_MAX \<and>
   (\<exists>enc. varint_put 15293 [7] = [7] @ enc \<and> length enc = varint_len 15293 \<and>
     varint_decode (enc @ [1, 2]) = Some (15293, varint_len 15293))"
proof -
  have h: "(15293 :: u64) \<le> varint_MAX" by (simp add: varint_MAX_def)
  show ?thesis using h varint_put_decode [OF h, of "[7]" "[1, 2]"] by blast
qed

text \<open>
  A decoded integer is in the varint range, takes at least as many bytes as its minimal encoding
  and at most eight, and only bytes of the input; a longer input decodes to the same integer.
\<close>

theorem varint_decode_sound:
  assumes "varint_decode input = Some (v, n)"
  shows "v \<le> varint_MAX \<and> varint_len v \<le> n \<and> n \<le> 8 \<and> n \<le> length input \<and>
    varint_decode (input @ tail) = Some (v, n)"
  using varint_decode_bound [OF assms] varint_decode_le [OF assms] varint_decode_append [OF assms]
  by blast

theorem varint_decode_sound_witness:
  "varint_decode [0x40, 0x25] = Some (37, 2) \<and> (37 :: u64) \<le> varint_MAX \<and> varint_len 37 \<le> 2 \<and>
   varint_decode ([0x40, 0x25] @ [9]) = Some (37, 2)"
proof -
  have h: "varint_decode [0x40, 0x25] = Some (37, 2)" by code_simp
  show ?thesis using h varint_decode_sound [OF h, of "[9]"] by blast
qed

text \<open>
  C38. The incremental reader \<open>Partial\<close> implements the whole-buffer decoder: a call on any chunk answers
  what decoding the bytes held back followed by the chunk answers. When that is complete the reader is
  empty again and leaves the rest of the chunk; otherwise it takes the whole chunk and holds it back.
\<close>

theorem partial_read_refines:
  assumes "partial_wf p" and "partial_read p input = (res, p', rest)"
  shows "partial_wf p' \<and>
    (case varint_decode (pend p @ input) of
       None \<Rightarrow> res = None \<and> rest = [] \<and> pend p' = pend p @ input
     | Some (v, n) \<Rightarrow> res = Some v \<and> rest = drop n (pend p @ input) \<and> partial_is_empty p')"
proof -
  obtain q where q: "partial_wf q"
    and rd: "partial_read p input =
     (case varint_decode (pend p @ input) of
        None \<Rightarrow> (None, q, []) | Some (v, n) \<Rightarrow> (Some v, q, drop n (pend p @ input)))"
    and pd: "pend q = (case varint_decode (pend p @ input) of None \<Rightarrow> pend p @ input | Some _ \<Rightarrow> [])"
    by (rule partial_read_wf [OF assms(1)])
  show ?thesis
  proof (cases "varint_decode (pend p @ input)")
    case None
    with assms(2) q rd pd show ?thesis by simp
  next
    case (Some x)
    with assms(2) q rd pd show ?thesis by (cases x) (simp add: partial_is_empty_pend)
  qed
qed

theorem partial_read_refines_witness:
  "partial_wf partial_default \<and> fst (partial_read partial_default [0x7b, 0xbd, 5]) = Some 15293 \<and>
   partial_is_empty (fst (snd (partial_read partial_default [0x7b, 0xbd, 5])))"
proof -
  have d: "varint_decode [0x7b, 0xbd, 5] = Some (15293, 2)" by code_simp
  obtain res p' rest where r: "partial_read partial_default [0x7b, 0xbd, 5] = (res, p', rest)"
    by (metis prod_cases3)
  show ?thesis using partial_read_refines [OF partial_default_wf r] d r by simp
qed

end
