(* ===== verification/Frame.thy ===== *)
theory Frame
  imports Varint
begin

text \<open>
  HTTP/3 frame and stream headers, \<^verbatim>\<open>rust/http3/src/frame.rs\<close>: the type spaces, the two-varint
  header written in parts, the \<open>Pair\<close> that reads two varints from chunks, and the frame \<open>Reader\<close>
  shared by request streams, control streams and capsules. A kind (\<open>trait Kind\<close>) is its wire code.
\<close>

definition FRAME_DATA :: u64 where "FRAME_DATA = 0x00"
definition FRAME_HEADERS :: u64 where "FRAME_HEADERS = 0x01"
definition FRAME_CANCEL_PUSH :: u64 where "FRAME_CANCEL_PUSH = 0x03"
definition FRAME_SETTINGS :: u64 where "FRAME_SETTINGS = 0x04"
definition FRAME_PUSH_PROMISE :: u64 where "FRAME_PUSH_PROMISE = 0x05"
definition FRAME_GOAWAY :: u64 where "FRAME_GOAWAY = 0x07"
definition FRAME_MAX_PUSH_ID :: u64 where "FRAME_MAX_PUSH_ID = 0x0d"
definition FRAME_WEBTRANSPORT_BIDI :: u64 where "FRAME_WEBTRANSPORT_BIDI = 0x41"

lemmas frame_types = FRAME_DATA_def FRAME_HEADERS_def FRAME_CANCEL_PUSH_def FRAME_SETTINGS_def
  FRAME_PUSH_PROMISE_def FRAME_GOAWAY_def FRAME_MAX_PUSH_ID_def FRAME_WEBTRANSPORT_BIDI_def

definition is_http2 :: "u64 \<Rightarrow> bool" where
  "is_http2 kind \<longleftrightarrow> kind \<in> {0x02, 0x06, 0x08, 0x09}"

definition STREAM_CONTROL :: u64 where "STREAM_CONTROL = 0x00"
definition STREAM_PUSH :: u64 where "STREAM_PUSH = 0x01"
definition STREAM_ENCODER :: u64 where "STREAM_ENCODER = 0x02"
definition STREAM_DECODER :: u64 where "STREAM_DECODER = 0x03"
definition STREAM_WEBTRANSPORT :: u64 where "STREAM_WEBTRANSPORT = 0x54"

lemmas stream_types = STREAM_CONTROL_def STREAM_PUSH_def STREAM_ENCODER_def STREAM_DECODER_def
  STREAM_WEBTRANSPORT_def

definition put_header :: "u64 \<Rightarrow> u64 \<Rightarrow> bytes \<Rightarrow> bytes" where
  "put_header kind len output = varint_put len (varint_put kind output)"

text \<open>\<open>Header\<close>: a 16-byte buffer with the end of the header and how much of it was written.\<close>

record header =
  h_bytes :: bytes
  h_end :: nat
  h_written :: nat

definition header_new :: "u64 \<Rightarrow> u64 \<Rightarrow> header" where
  "header_new kind second =
     (let laid = put_header kind second [] in
      \<lparr>h_bytes = laid @ replicate (16 - length laid) 0, h_end = length laid, h_written = 0\<rparr>)"

definition header_rest :: "header \<Rightarrow> bytes" where
  "header_rest h = drop (h_written h) (take (h_end h) (h_bytes h))"

definition header_advance :: "nat \<Rightarrow> header \<Rightarrow> header" where
  "header_advance written h = h\<lparr>h_written := h_written h + written\<rparr>"

definition header_is_written :: "header \<Rightarrow> bool" where
  "header_is_written h \<longleftrightarrow> h_written h = h_end h"

record pair =
  pair_first :: "u64 option"
  pair_varint :: partial

definition pair_default :: pair where
  "pair_default = \<lparr>pair_first = None, pair_varint = partial_default\<rparr>"

definition pair_second :: "u64 \<Rightarrow> pair \<Rightarrow> bytes \<Rightarrow> (u64 \<times> u64) option \<times> pair \<times> bytes" where
  "pair_second first p input =
     (case partial_read (pair_varint p) input of
        (None, v, rest) \<Rightarrow> (None, p\<lparr>pair_varint := v\<rparr>, rest)
      | (Some second, v, rest) \<Rightarrow> (Some (first, second), p\<lparr>pair_first := None, pair_varint := v\<rparr>, rest))"

definition pair_read :: "pair \<Rightarrow> bytes \<Rightarrow> (u64 \<times> u64) option \<times> pair \<times> bytes" where
  "pair_read p input =
     (case pair_first p of
        Some first \<Rightarrow> pair_second first p input
      | None \<Rightarrow>
          (case partial_read (pair_varint p) input of
             (None, v, rest) \<Rightarrow> (None, p\<lparr>pair_varint := v\<rparr>, rest)
           | (Some first, v, rest) \<Rightarrow>
               pair_second first (p\<lparr>pair_first := Some first, pair_varint := v\<rparr>) rest))"

definition pair_is_empty :: "pair \<Rightarrow> bool" where
  "pair_is_empty p \<longleftrightarrow> pair_first p = None \<and> partial_is_empty (pair_varint p)"

definition pair_stream_type :: "pair \<Rightarrow> bytes \<Rightarrow> (u64 \<times> u64 option) option \<times> pair \<times> bytes" where
  "pair_stream_type p input =
     (case (case pair_first p of
              Some first \<Rightarrow> (Some first, p, input)
            | None \<Rightarrow> (case partial_read (pair_varint p) input of (r, v, rest) \<Rightarrow> (r, p\<lparr>pair_varint := v\<rparr>, rest)))
      of (None, p, rest) \<Rightarrow> (None, p, rest)
       | (Some kind, p, rest) \<Rightarrow>
           if kind = STREAM_WEBTRANSPORT
           then (case pair_read (p\<lparr>pair_first := Some STREAM_WEBTRANSPORT\<rparr>) rest of
                   (r, p, rest) \<Rightarrow>
                     (map_option (\<lambda>(_, session). (STREAM_WEBTRANSPORT, Some session)) r, p, rest))
           else (Some (kind, None), p, rest))"

datatype piece = Header u64 u64 | Payload bytes

record frame_reader =
  fr_header :: pair
  fr_remaining :: u64

definition frame_reader_default :: frame_reader where
  "frame_reader_default = \<lparr>fr_header = pair_default, fr_remaining = 0\<rparr>"

definition frame_next :: "frame_reader \<Rightarrow> bytes \<Rightarrow> piece option \<times> frame_reader \<times> bytes" where
  "frame_next r input =
     (if fr_remaining r = 0
      then (case pair_read (fr_header r) input of
              (None, h, rest) \<Rightarrow> (None, r\<lparr>fr_header := h\<rparr>, rest)
            | (Some (kind, len), h, rest) \<Rightarrow>
                (Some (Header kind len), r\<lparr>fr_header := h, fr_remaining := len\<rparr>, rest))
      else if input = [] then (None, r, input)
      else let n = min (unat (fr_remaining r)) (length input)
           in (Some (Payload (take n input)), r\<lparr>fr_remaining := fr_remaining r - of_nat n\<rparr>, drop n input))"

definition frame_at_boundary :: "frame_reader \<Rightarrow> bool" where
  "frame_at_boundary r \<longleftrightarrow> fr_remaining r = 0 \<and> pair_is_empty (fr_header r)"

subsection \<open>The read loop ends\<close>

text \<open>
  Every piece uses up input or bytes held back, which bounds each loop over \<open>frame_next\<close>.
\<close>

definition pair_mass :: "pair \<Rightarrow> nat" where
  "pair_mass p = p_used (pair_varint p) + (case pair_first p of None \<Rightarrow> 0 | Some _ \<Rightarrow> 1)"

definition reader_mass :: "frame_reader \<Rightarrow> bytes \<Rightarrow> nat" where
  "reader_mass r input = length input + pair_mass (fr_header r)"

lemma partial_read_mass:
  "partial_read p input = (res, p', rest) \<Longrightarrow>
    length rest + p_used p' + (case res of None \<Rightarrow> 0 | Some _ \<Rightarrow> 1) \<le> length input + p_used p"
proof (induction p input arbitrary: res p' rest rule: partial_read.induct)
  case (1 p input)
  let ?need = "if p_used p = 0 then 1 else varint_size (p_bytes p ! 0)"
  let ?n = "min (?need - p_used p) (length input)"
  let ?p = "p\<lparr>p_bytes := take (p_used p) (p_bytes p) @ take ?n input @ drop (p_used p + ?n) (p_bytes p),
              p_used := p_used p + ?n\<rparr>"
  consider (full) "p_used p = ?need" | (stop) "p_used p \<noteq> ?need" "?n = 0"
    | (more) "p_used p \<noteq> ?need" "?n \<noteq> 0" by blast
  then show ?case
  proof cases
    case full
    moreover have "0 < ?need" by simp
    ultimately show ?thesis
      using "1.prems" by (subst (asm) partial_read.simps) (auto simp: Let_def Suc_le_eq split: option.splits)
  next
    case stop
    then show ?thesis
      using "1.prems" by (subst (asm) partial_read.simps) (simp only: Let_def if_False if_True, auto)
  next
    case more
    have "partial_read p input = partial_read ?p (drop ?n input)"
      by (subst partial_read.simps) (simp only: Let_def more if_False)
    with "1.IH" [OF refl refl more(1) refl more(2)] "1.prems" show ?thesis by fastforce
  qed
qed

lemma pair_second_mass:
  "pair_second f p input = (res, p', rest) \<Longrightarrow> pair_first p = Some f \<Longrightarrow>
    length rest + pair_mass p' + (case res of None \<Rightarrow> 0 | Some _ \<Rightarrow> 1) \<le> length input + pair_mass p"
  by (auto simp: pair_second_def pair_mass_def dest!: partial_read_mass
      split: prod.splits option.splits)

lemma pair_read_mass:
  "pair_read p input = (res, p', rest) \<Longrightarrow>
    length rest + pair_mass p' + (case res of None \<Rightarrow> 0 | Some _ \<Rightarrow> 1) \<le> length input + pair_mass p"
  unfolding pair_read_def
  by (fastforce simp: pair_mass_def dest!: partial_read_mass dest: pair_second_mass
      split: prod.splits option.splits)

lemma frame_next_mass:
  "frame_next r input = (Some piece, r', rest) \<Longrightarrow> reader_mass r' rest < reader_mass r input"
  by (auto simp: frame_next_def reader_mass_def Let_def min_def diff_less unat_gt_0 add_pos_nonneg
      dest!: pair_read_mass split: if_splits prod.splits option.splits)

text \<open>The loop \<open>while let Some(piece) = frames.next(input)\<close> of every user of the reader.\<close>

function frame_drain :: "frame_reader \<Rightarrow> bytes \<Rightarrow> piece list \<times> frame_reader \<times> bytes" where
  "frame_drain r input =
     (case frame_next r input of
        (None, r', rest) \<Rightarrow> ([], r', rest)
      | (Some piece, r', rest) \<Rightarrow> (case frame_drain r' rest of (ps, r'', rest') \<Rightarrow> (piece # ps, r'', rest')))"
  by pat_completeness auto
termination
  by (relation "measure (\<lambda>(r, input). reader_mass r input)") (auto dest: frame_next_mass [OF sym])

declare frame_drain.simps [simp del]

subsection \<open>Automata over the bytes of a stream of headers\<close>

text \<open>
  The abstract view of every reader built on \<open>Pair\<close> sees one byte at a time: the first varint of a
  header once complete, the bytes of the varint being read, and the reader's own state. While that
  state is \<open>active\<close> bytes belong to a header, which \<open>complete\<close> handles; otherwise \<open>other\<close> takes them.
\<close>

type_synonym 'st held = "u64 option \<times> bytes \<times> 'st"

definition pair_done ::
    "('st \<Rightarrow> u64 \<Rightarrow> u64 \<Rightarrow> ('e, 'x, 'st) outcome) \<Rightarrow> u64 option \<Rightarrow> 'st \<Rightarrow> u64 \<Rightarrow> ('e, 'x, 'st held) outcome" where
  "pair_done complete f st v =
     (case f of None \<Rightarrow> ([], Inr (Some v, [], st)) | Some k \<Rightarrow> map_out (\<lambda>st'. (None, [], st')) (complete st k v))"

fun pair_step ::
    "('st \<Rightarrow> bool) \<Rightarrow> ('st \<Rightarrow> u64 \<Rightarrow> u64 \<Rightarrow> ('e, 'x, 'st) outcome) \<Rightarrow> ('st \<Rightarrow> u8 \<Rightarrow> ('e, 'x, 'st) outcome) \<Rightarrow>
     'st held \<Rightarrow> u8 \<Rightarrow> ('e, 'x, 'st held) outcome" where
  "pair_step active complete other (f, held, st) b =
     (if active st
      then (case varint_decode (held @ [b]) of
              None \<Rightarrow> ([], Inr (f, held @ [b], st)) | Some (v, _) \<Rightarrow> pair_done complete f st v)
      else map_out (\<lambda>st'. (f, held, st')) (other st b))"

lemma run_held_None:
  "active st \<Longrightarrow> varint_decode (held @ bs) = None \<Longrightarrow>
    run_bytes (pair_step active complete other) (f, held, st) bs = ([], Inr (f, held @ bs, st))"
proof (induction bs arbitrary: held)
  case (Cons b bs)
  then show ?case using varint_decode_prefix_None [of "held @ [b]" bs] by simp
qed simp

lemma run_held_Some:
  assumes "active st" and "varint_decode held = None" and "varint_decode (held @ bs) = Some (v, n)"
  shows "run_bytes (pair_step active complete other) (f, held, st) bs =
    seq_out (pair_done complete f st v)
      (\<lambda>a. run_bytes (pair_step active complete other) a (drop n (held @ bs)))"
  using assms
proof (induction bs arbitrary: held)
  case (Cons b bs)
  show ?case
  proof (cases "varint_decode (held @ [b])")
    case None
    with Cons.IH [of "held @ [b]"] Cons.prems show ?thesis by simp
  next
    case (Some x)
    then obtain w m where d: "varint_decode (held @ [b]) = Some (w, m)" by (cases x) auto
    have "(w, m) = (v, n)" using varint_decode_append [OF d, of bs] Cons.prems(3) by simp
    moreover have "drop m (held @ b # bs) = bs"
      using varint_decode_snoc [OF Cons.prems(2) d] by simp
    ultimately show ?thesis using d Cons.prems(1) by simp
  qed
qed simp

lemma run_put_varint:
  assumes "active st" and "v \<le> varint_MAX"
  shows "run_bytes (pair_step active complete other) (f, [], st) (varint_put v [] @ rest) =
    seq_out (pair_done complete f st v) (\<lambda>a. run_bytes (pair_step active complete other) a rest)"
  using run_held_Some [where active = active and st = st, OF assms(1), of "[]" "varint_put v [] @ rest" v "varint_len v"]
  by (simp add: varint_decode_put [OF assms(2)])

text \<open>
  What a read of a pair means for such an automaton: a completed pair is handled and the run goes on
  over the rest, an incomplete one holds all of the input back.
\<close>

definition pair_post ::
    "('st held \<Rightarrow> bytes \<Rightarrow> ('e, 'x, 'st held) outcome) \<Rightarrow> ('st \<Rightarrow> u64 \<Rightarrow> u64 \<Rightarrow> ('e, 'x, 'st) outcome) \<Rightarrow>
     'st held \<Rightarrow> bytes \<Rightarrow> (u64 \<times> u64) option \<times> pair \<times> bytes \<Rightarrow> bool" where
  "pair_post run complete a input result \<longleftrightarrow> (case result of (res, p', rest) \<Rightarrow>
     partial_wf (pair_varint p') \<and>
     (case res of
        None \<Rightarrow> rest = [] \<and> run a input = ([], Inr (pair_first p', pend (pair_varint p'), snd (snd a)))
      | Some (k, v) \<Rightarrow> pair_first p' = None \<and> pend (pair_varint p') = [] \<and>
          run a input =
            seq_out (map_out (\<lambda>st'. (None, [], st')) (complete (snd (snd a)) k v)) (\<lambda>a'. run a' rest)))"

lemma pair_post_cong:
  "run (f, held, st) input = run (f', held', st) input' \<Longrightarrow>
    pair_post run complete (f, held, st) input r = pair_post run complete (f', held', st) input' r"
  by (cases r; cases "fst r") (auto simp: pair_post_def)

lemma pair_second_post:
  assumes "partial_wf (pair_varint p)" and "pair_first p = Some f" and "active st"
  shows "pair_post (run_bytes (pair_step active complete other)) complete
    (Some f, pend (pair_varint p), st) input (pair_second f p input)"
proof -
  obtain v where v: "partial_wf v"
    and rd: "partial_read (pair_varint p) input =
     (case varint_decode (pend (pair_varint p) @ input) of
        None \<Rightarrow> (None, v, []) | Some (x, n) \<Rightarrow> (Some x, v, drop n (pend (pair_varint p) @ input)))"
    and pd: "pend v = (case varint_decode (pend (pair_varint p) @ input) of
        None \<Rightarrow> pend (pair_varint p) @ input | Some _ \<Rightarrow> [])"
    using partial_read_wf [OF assms(1)] by blast
  have held: "varint_decode (pend (pair_varint p)) = None"
    using assms(1) by (simp add: partial_wf_def)
  show ?thesis
  proof (cases "varint_decode (pend (pair_varint p) @ input)")
    case None
    with v rd pd assms(2) run_held_None [where active = active and st = st, OF assms(3) None] show ?thesis
      by (simp add: pair_second_def pair_post_def)
  next
    case (Some x)
    then obtain w n where d: "varint_decode (pend (pair_varint p) @ input) = Some (w, n)"
      by (cases x) auto
    with v rd pd run_held_Some [where active = active and st = st, OF assms(3) held d, of _ _ "Some f"] show ?thesis
      by (simp add: pair_second_def pair_post_def pair_done_def)
  qed
qed

lemma pair_read_post:
  assumes "partial_wf (pair_varint p)" and "active st"
  shows "pair_post (run_bytes (pair_step active complete other)) complete
    (pair_first p, pend (pair_varint p), st) input (pair_read p input)"
proof (cases "pair_first p")
  case (Some f)
  with pair_second_post [OF assms(1) Some, of active st _ _ input] assms(2) show ?thesis
    by (simp add: pair_read_def)
next
  case None
  let ?run = "run_bytes (pair_step active complete other)"
  obtain v where v: "partial_wf v"
    and rd: "partial_read (pair_varint p) input =
     (case varint_decode (pend (pair_varint p) @ input) of
        None \<Rightarrow> (None, v, []) | Some (x, n) \<Rightarrow> (Some x, v, drop n (pend (pair_varint p) @ input)))"
    and pd: "pend v = (case varint_decode (pend (pair_varint p) @ input) of
        None \<Rightarrow> pend (pair_varint p) @ input | Some _ \<Rightarrow> [])"
    using partial_read_wf [OF assms(1)] by blast
  have held: "varint_decode (pend (pair_varint p)) = None"
    using assms(1) by (simp add: partial_wf_def)
  show ?thesis
  proof (cases "varint_decode (pend (pair_varint p) @ input)")
    case incomplete: None
    with None v rd pd run_held_None [where active = active and st = st, OF assms(2) incomplete] show ?thesis
      by (simp add: pair_read_def pair_post_def)
  next
    case (Some x)
    then obtain w n where d: "varint_decode (pend (pair_varint p) @ input) = Some (w, n)"
      by (cases x) auto
    let ?p = "p\<lparr>pair_first := Some w, pair_varint := v\<rparr>"
    let ?rest = "drop n (pend (pair_varint p) @ input)"
    have "pair_post ?run complete (None, pend (pair_varint p), st) input r =
        pair_post ?run complete (Some w, [], st) ?rest r" for r
      by (rule pair_post_cong)
        (use run_held_Some [where active = active and st = st, OF assms(2) held d, of complete other None] in \<open>simp add: pair_done_def\<close>)
    moreover have "pair_post ?run complete (Some w, [], st) ?rest (pair_second w ?p ?rest)"
      using pair_second_post [of ?p w active st complete other ?rest] v pd d assms(2) by simp
    ultimately show ?thesis
      using None rd d by (simp add: pair_read_def del: drop_append)
  qed
qed

subsection \<open>The frame reader as an automaton\<close>

text \<open>
  Its state is the payload still to come. The events are headers and single payload bytes, so how
  a payload was cut into pieces does not show.
\<close>

datatype frame_event = FrameHeader u64 u64 | FrameByte u8

type_synonym aframe = "u64 held"

fun piece_events :: "piece \<Rightarrow> frame_event list" where
  "piece_events (Header kind len) = [FrameHeader kind len]"
| "piece_events (Payload bs) = map FrameByte bs"

definition frame_header_event :: "u64 \<Rightarrow> u64 \<Rightarrow> u64 \<Rightarrow> (frame_event, u64, u64) outcome" where
  "frame_header_event remaining kind len = ([FrameHeader kind len], Inr len)"

definition frame_byte_event :: "u64 \<Rightarrow> u8 \<Rightarrow> (frame_event, u64, u64) outcome" where
  "frame_byte_event remaining b = ([FrameByte b], Inr (remaining - 1))"

abbreviation frame_step :: "aframe \<Rightarrow> u8 \<Rightarrow> (frame_event, u64, aframe) outcome" where
  "frame_step \<equiv> pair_step (\<lambda>remaining. remaining = 0) frame_header_event frame_byte_event"

definition frame_feed :: "frame_reader \<Rightarrow> bytes \<Rightarrow> (frame_event, u64, frame_reader) outcome" where
  "frame_feed r input = (case frame_drain r input of (ps, r', _) \<Rightarrow> (concat (map piece_events ps), Inr r'))"

definition frame_abs :: "frame_reader \<Rightarrow> aframe" where
  "frame_abs r = (pair_first (fr_header r), pend (pair_varint (fr_header r)), fr_remaining r)"

definition frame_wf :: "frame_reader \<Rightarrow> bool" where
  "frame_wf r \<longleftrightarrow> partial_wf (pair_varint (fr_header r))"

lemma frame_default_wf [simp]: "frame_wf frame_reader_default"
  and frame_abs_default [simp]: "frame_abs frame_reader_default = (None, [], 0)"
  by (simp_all add: frame_wf_def frame_abs_def frame_reader_default_def pair_default_def)

lemma frame_at_boundary_abs: "frame_wf r \<Longrightarrow> frame_at_boundary r \<longleftrightarrow> frame_abs r = (None, [], 0)"
  by (auto simp: frame_at_boundary_def frame_abs_def frame_wf_def pair_is_empty_def partial_is_empty_pend)

lemma run_payload:
  assumes "n \<le> unat remaining" and "n \<le> length bs"
  shows "run_bytes frame_step (f, held, remaining) bs =
    seq_out (map FrameByte (take n bs), Inr (f, held, remaining - of_nat n))
      (\<lambda>a. run_bytes frame_step a (drop n bs))"
  using assms
proof (induction n arbitrary: bs remaining)
  case (Suc n)
  then obtain b cs where bs: "bs = b # cs" by (cases bs) auto
  have ne: "remaining \<noteq> 0" using Suc.prems(1) by auto
  then have "unat (remaining - 1) = unat remaining - 1" by (simp add: unat_minus_one)
  then have "n \<le> unat (remaining - 1)" using Suc.prems(1) by simp
  from Suc.IH [OF this, of cs] ne Suc.prems(2) show ?case
    by (simp add: bs frame_byte_event_def seq_out_def algebra_simps split: prod.splits)
qed simp

lemma frame_next_post:
  assumes wf: "frame_wf r" and nx: "frame_next r input = (res, r', rest)"
  shows "frame_wf r'"
    and "run_bytes frame_step (frame_abs r) input =
      (case res of
         None \<Rightarrow> ([], Inr (frame_abs r'))
       | Some piece \<Rightarrow> seq_out (piece_events piece, Inr (frame_abs r')) (\<lambda>a. run_bytes frame_step a rest))"
    and "res = None \<Longrightarrow> rest = []"
proof -
  have "frame_wf r' \<and> run_bytes frame_step (frame_abs r) input =
      (case res of
         None \<Rightarrow> ([], Inr (frame_abs r'))
       | Some piece \<Rightarrow> seq_out (piece_events piece, Inr (frame_abs r')) (\<lambda>a. run_bytes frame_step a rest)) \<and>
      (res = None \<longrightarrow> rest = [])"
  proof (cases "fr_remaining r = 0")
    case True
    have "pair_post (run_bytes frame_step) frame_header_event
        (pair_first (fr_header r), pend (pair_varint (fr_header r)), 0) input (pair_read (fr_header r) input)"
      using wf by (intro pair_read_post) (simp_all add: frame_wf_def)
    with True nx show ?thesis
      by (auto simp: frame_next_def pair_post_def frame_abs_def frame_wf_def frame_header_event_def
          split: prod.splits option.splits)
  next
    case False
    let ?n = "min (unat (fr_remaining r)) (length input)"
    show ?thesis
    proof (cases "input = []")
      case True
      with False nx wf show ?thesis by (auto simp: frame_next_def)
    next
      case ne: False
      have "run_bytes frame_step (frame_abs r) input =
          seq_out (map FrameByte (take ?n input), Inr (frame_abs (r\<lparr>fr_remaining := fr_remaining r - of_nat ?n\<rparr>)))
            (\<lambda>a. run_bytes frame_step a (drop ?n input))"
        unfolding frame_abs_def by (subst run_payload [of ?n]) simp_all
      with ne False nx wf show ?thesis
        by (auto simp: frame_next_def Let_def frame_wf_def)
    qed
  qed
  then show "frame_wf r'"
    and "run_bytes frame_step (frame_abs r) input =
      (case res of
         None \<Rightarrow> ([], Inr (frame_abs r'))
       | Some piece \<Rightarrow> seq_out (piece_events piece, Inr (frame_abs r')) (\<lambda>a. run_bytes frame_step a rest))"
    and "res = None \<Longrightarrow> rest = []"
    by auto
qed

lemma frame_drain_post:
  "frame_wf r \<Longrightarrow> frame_drain r input = (ps, r', rest) \<Longrightarrow>
    frame_wf r' \<and> rest = [] \<and>
    run_bytes frame_step (frame_abs r) input = (concat (map piece_events ps), Inr (frame_abs r'))"
proof (induction r input arbitrary: ps r' rest rule: frame_drain.induct)
  case (1 r input)
  obtain res r1 rest1 where nx: "frame_next r input = (res, r1, rest1)" by (metis prod_cases3)
  note post = frame_next_post [OF "1.prems"(1) nx]
  show ?case
  proof (cases res)
    case None
    with nx post "1.prems"(2) show ?thesis by (simp add: frame_drain.simps [of r input])
  next
    case (Some piece)
    obtain ps1 where d: "frame_drain r1 rest1 = (ps1, r', rest)" and ps: "ps = piece # ps1"
      using "1.prems"(2) nx Some by (auto simp: frame_drain.simps [of r input] split: prod.splits)
    from "1.IH" [OF nx [symmetric] Some refl post(1) d]
    have "frame_wf r' \<and> rest = [] \<and>
        run_bytes frame_step (frame_abs r1) rest1 = (concat (map piece_events ps1), Inr (frame_abs r'))"
      by simp
    with post(2) Some ps show ?thesis by (simp add: seq_out_def)
  qed
qed

interpretation frames: byte_reader frame_step frame_feed frame_abs frame_wf
proof
  fix s bs
  assume "frame_wf s"
  then show "map_out frame_abs (frame_feed s bs) = run_bytes frame_step (frame_abs s) bs"
    using frame_drain_post [of s bs] by (auto simp: frame_feed_def split: prod.splits)
next
  fix s bs es s'
  assume "frame_wf s" and "frame_feed s bs = (es, Inr s')"
  then show "frame_wf s'"
    using frame_drain_post [of s bs] by (auto simp: frame_feed_def split: prod.splits)
qed

subsection \<open>Written frames are read back\<close>

lemma put_header_append: "put_header k n out = out @ varint_put k [] @ varint_put n []"
  by (simp add: put_header_def varint_put_append [of _ out] varint_put_append [of n "out @ _"])

definition frame_bytes :: "u64 \<times> bytes \<Rightarrow> bytes" where
  "frame_bytes f = (case f of (kind, payload) \<Rightarrow> put_header kind (of_nat (length payload)) [] @ payload)"

definition frame_events :: "u64 \<times> bytes \<Rightarrow> frame_event list" where
  "frame_events f = (case f of (kind, payload) \<Rightarrow>
     FrameHeader kind (of_nat (length payload)) # map FrameByte payload)"

definition frame_fits :: "u64 \<times> bytes \<Rightarrow> bool" where
  "frame_fits f \<longleftrightarrow> fst f \<le> varint_MAX \<and> length (snd f) < 2 ^ 62"

lemma unat_varint_MAX: "unat varint_MAX = 2 ^ 62 - 1"
  by (simp add: varint_MAX_def)

lemma of_nat_fits: "n < 2 ^ 62 \<Longrightarrow> (of_nat n :: u64) \<le> varint_MAX \<and> unat (of_nat n :: u64) = n"
proof -
  assume n: "n < 2 ^ 62"
  then have u: "unat (of_nat n :: u64) = n" by (intro unat_of_small) simp
  with n show ?thesis by (simp add: word_le_nat_alt unat_varint_MAX)
qed

lemma run_frame:
  assumes "frame_fits f"
  shows "run_bytes frame_step (None, [], 0) (frame_bytes f @ rest) =
    seq_out (frame_events f, Inr (None, [], 0)) (\<lambda>a. run_bytes frame_step a rest)"
proof -
  obtain k p where f: "f = (k, p)" by (cases f)
  have k: "k \<le> varint_MAX" and n: "(of_nat (length p) :: u64) \<le> varint_MAX"
    and u: "unat (of_nat (length p) :: u64) = length p"
    using assms of_nat_fits [of "length p"] by (simp_all add: frame_fits_def f)
  have "run_bytes frame_step (None, [], 0) (frame_bytes f @ rest) =
      seq_out ([FrameHeader k (of_nat (length p))], Inr (None, [], of_nat (length p)))
        (\<lambda>a. run_bytes frame_step a (p @ rest))"
    by (simp add: f frame_bytes_def put_header_append run_put_varint k n pair_done_def frame_header_event_def)
  then show ?thesis
    by (simp add: f frame_events_def run_payload [of "length p"] u seq_out_def split: prod.splits)
qed

lemma run_frames:
  "\<forall>f \<in> set fs. frame_fits f \<Longrightarrow> run_bytes frame_step (None, [], 0) (concat (map frame_bytes fs)) =
     (concat (map frame_events fs), Inr (None, [], 0))"
  by (induction fs) (simp_all add: run_frame seq_out_def)

text \<open>
  A sequence of frames written with \<open>put_header\<close> is read back from the stream cut into chunks in any
  way: the reader's pieces are, in order, each frame's header with its length and then exactly its
  payload bytes, and after the last chunk the reader stands at a frame boundary.
\<close>

theorem frames_read_back:
  assumes "\<forall>f \<in> set fs. frame_fits f" and "concat chunks = concat (map frame_bytes fs)"
  shows "\<exists>r. feed_chunks frame_feed frame_reader_default chunks = (concat (map frame_events fs), Inr r) \<and>
    frame_at_boundary r"
proof -
  have ab: "map_out frame_abs (feed_chunks frame_feed frame_reader_default chunks) =
      (concat (map frame_events fs), Inr (None, [], 0))"
    using frames.chunked [of frame_reader_default chunks] run_frames [OF assms(1)] assms(2) by simp
  then obtain r where r: "feed_chunks frame_feed frame_reader_default chunks = (concat (map frame_events fs), Inr r)"
    and a: "frame_abs r = (None, [], 0)"
    by (auto simp: map_out_def split: prod.splits sum.splits)
  have "frame_wf r" using r frames.feed_chunks_inv [of frame_reader_default] by simp
  with r a show ?thesis by (auto simp: frame_at_boundary_abs)
qed

theorem frames_read_back_witness:
  "\<exists>r. feed_chunks frame_feed frame_reader_default [[0x01], [0x02, 0xaa], [0xbb, 0x00, 0x00]] =
     ([FrameHeader 1 2, FrameByte 0xaa, FrameByte 0xbb, FrameHeader 0 0], Inr r) \<and> frame_at_boundary r"
proof -
  have b: "concat (map frame_bytes [(1, [0xaa, 0xbb]), (0, [])]) = [0x01, 0x02, 0xaa, 0xbb, 0x00, 0x00]"
    by code_simp
  have f: "\<forall>f \<in> set [(1 :: u64, [0xaa, 0xbb :: u8]), (0, [])]. frame_fits f"
    by (simp add: frame_fits_def varint_MAX_def)
  show ?thesis
    using frames_read_back [OF f, of "[[0x01], [0x02, 0xaa], [0xbb, 0x00, 0x00]]"] b
    by (simp add: frame_events_def)
qed

text \<open>
  How the bytes of a stream were cut into chunks cannot be observed: for two chunkings of the same
  bytes the reader emits the same headers and payload bytes and ends with the same type, held-back
  bytes and remaining length.
\<close>

theorem frame_chunks_irrelevant:
  assumes "frame_wf r" and "concat chunks = concat chunks'"
  shows "map_out frame_abs (feed_chunks frame_feed r chunks) = map_out frame_abs (feed_chunks frame_feed r chunks')"
  by (rule frames.split_irrelevant [OF assms])

theorem frame_chunks_irrelevant_witness:
  "map_out frame_abs (feed_chunks frame_feed frame_reader_default [[0x40, 0x00], [0x01, 5]]) =
   map_out frame_abs (feed_chunks frame_feed frame_reader_default [[0x40], [0x00, 0x01], [5]])"
  by (rule frame_chunks_irrelevant) simp_all

text \<open>
  A header buffer hands out exactly the two varints it was made from: for any sequence of partial
  writes the bytes written so far and \<open>rest\<close> make up the encoding, and the header is written exactly
  when nothing is left.
\<close>

theorem header_written_in_parts:
  assumes "kind \<le> varint_MAX" and "second \<le> varint_MAX" and "n \<le> length (put_header kind second [])"
  shows "take n (put_header kind second []) @ header_rest (header_advance n (header_new kind second)) =
      put_header kind second [] \<and>
    (header_is_written (header_advance n (header_new kind second)) \<longleftrightarrow>
      header_rest (header_advance n (header_new kind second)) = []) \<and>
    length (put_header kind second []) \<le> 16"
proof -
  have "varint_len v \<le> 8" for v by (simp add: varint_len_def)
  then have "varint_len kind + varint_len second \<le> 16" by (metis add_mono numeral_Bit0)
  then have "length (put_header kind second []) \<le> 16" by (simp add: put_header_def)
  with assms(3) show ?thesis
    by (auto simp: header_rest_def header_advance_def header_new_def Let_def header_is_written_def)
qed

theorem header_written_in_parts_witness:
  "header_rest (header_advance 1 (header_new 1 300)) = [0x41, 0x2c]"
proof -
  have p: "put_header 1 300 [] = [0x01, 0x41, 0x2c]" by code_simp
  show ?thesis
    using header_written_in_parts [of 1 300 1] p by (simp add: varint_MAX_def)
qed

end
