(* ===== verification/Codes.thy ===== *)
theory Codes
  imports Prelude
begin

text \<open>
  The error codes of HTTP/3, QPACK, HTTP datagrams and WebTransport, \<^verbatim>\<open>rust/http3/src/code.rs\<close>. A code
  (\<open>struct Code(u64)\<close>) is its number.
\<close>

type_synonym code = u64

definition H3_NO_ERROR :: code where "H3_NO_ERROR = 0x100"
definition H3_STREAM_CREATION_ERROR :: code where "H3_STREAM_CREATION_ERROR = 0x103"
definition H3_CLOSED_CRITICAL_STREAM :: code where "H3_CLOSED_CRITICAL_STREAM = 0x104"
definition H3_FRAME_UNEXPECTED :: code where "H3_FRAME_UNEXPECTED = 0x105"
definition H3_FRAME_ERROR :: code where "H3_FRAME_ERROR = 0x106"
definition H3_EXCESSIVE_LOAD :: code where "H3_EXCESSIVE_LOAD = 0x107"
definition H3_ID_ERROR :: code where "H3_ID_ERROR = 0x108"
definition H3_SETTINGS_ERROR :: code where "H3_SETTINGS_ERROR = 0x109"
definition H3_MISSING_SETTINGS :: code where "H3_MISSING_SETTINGS = 0x10a"
definition H3_REQUEST_REJECTED :: code where "H3_REQUEST_REJECTED = 0x10b"
definition H3_REQUEST_CANCELLED :: code where "H3_REQUEST_CANCELLED = 0x10c"
definition H3_REQUEST_INCOMPLETE :: code where "H3_REQUEST_INCOMPLETE = 0x10d"
definition H3_MESSAGE_ERROR :: code where "H3_MESSAGE_ERROR = 0x10e"
definition QPACK_DECOMPRESSION_FAILED :: code where "QPACK_DECOMPRESSION_FAILED = 0x200"
definition QPACK_ENCODER_STREAM_ERROR :: code where "QPACK_ENCODER_STREAM_ERROR = 0x201"
definition QPACK_DECODER_STREAM_ERROR :: code where "QPACK_DECODER_STREAM_ERROR = 0x202"
definition H3_DATAGRAM_ERROR :: code where "H3_DATAGRAM_ERROR = 0x33"
definition WT_BUFFERED_STREAM_REJECTED :: code where "WT_BUFFERED_STREAM_REJECTED = 0x3994bd84"
definition WT_SESSION_GONE :: code where "WT_SESSION_GONE = 0x170d7b68"
definition WT_CANCELLED :: code where "WT_CANCELLED = 0x52e4a40fa8db"

lemmas code_defs = H3_NO_ERROR_def H3_STREAM_CREATION_ERROR_def H3_CLOSED_CRITICAL_STREAM_def
  H3_FRAME_UNEXPECTED_def H3_FRAME_ERROR_def H3_EXCESSIVE_LOAD_def H3_ID_ERROR_def
  H3_SETTINGS_ERROR_def H3_MISSING_SETTINGS_def H3_REQUEST_REJECTED_def H3_REQUEST_CANCELLED_def
  H3_REQUEST_INCOMPLETE_def H3_MESSAGE_ERROR_def QPACK_DECOMPRESSION_FAILED_def
  QPACK_ENCODER_STREAM_ERROR_def QPACK_DECODER_STREAM_ERROR_def H3_DATAGRAM_ERROR_def
  WT_BUFFERED_STREAM_REJECTED_def WT_SESSION_GONE_def WT_CANCELLED_def

end
