(* ===== verification/Settings.thy ===== *)
theory Settings
  imports Frame Codes
begin

text \<open>
  SETTINGS, \<^verbatim>\<open>rust/http3/src/settings.rs\<close>: the profile each role sends, the control stream's first
  bytes, and the reader of a peer's SETTINGS payload, which parses it as it arrives without keeping
  it. Reading is shown to depend on the payload's bytes only, to give back what was written, and to
  refuse reserved and repeated identifiers.
\<close>

definition MAX_FIELD_SECTION_SIZE :: u64 where "MAX_FIELD_SECTION_SIZE = 0x06"
definition ENABLE_CONNECT_PROTOCOL :: u64 where "ENABLE_CONNECT_PROTOCOL = 0x08"
definition H3_DATAGRAM :: u64 where "H3_DATAGRAM = 0x33"
definition H3_DATAGRAM_DRAFT04 :: u64 where "H3_DATAGRAM_DRAFT04 = 0xffd277"
definition WT_ENABLE_DRAFT02 :: u64 where "WT_ENABLE_DRAFT02 = 0x2b603742"
definition WT_ENABLED :: u64 where "WT_ENABLED = 0x2c7cf000"
definition SETTINGS_MAX_LENGTH :: u64 where "SETTINGS_MAX_LENGTH = 8 * 1024"
definition MAX_IDS :: nat where "MAX_IDS = 64"
definition SERVER_FIELD_SECTION :: u64 where "SERVER_FIELD_SECTION = 4096"
definition CLIENT_FIELD_SECTION :: u64 where "CLIENT_FIELD_SECTION = 32 * 1024"

lemmas setting_ids = MAX_FIELD_SECTION_SIZE_def ENABLE_CONNECT_PROTOCOL_def H3_DATAGRAM_def
  H3_DATAGRAM_DRAFT04_def WT_ENABLE_DRAFT02_def WT_ENABLED_def

definition SERVER_SETTINGS :: "(u64 \<times> u64) list" where
  "SERVER_SETTINGS =
     [(MAX_FIELD_SECTION_SIZE, SERVER_FIELD_SECTION), (ENABLE_CONNECT_PROTOCOL, 1), (H3_DATAGRAM, 1),
      (WT_ENABLE_DRAFT02, 1), (WT_ENABLED, 1)]"

definition CLIENT_SETTINGS :: "(u64 \<times> u64) list" where
  "CLIENT_SETTINGS =
     [(MAX_FIELD_SECTION_SIZE, CLIENT_FIELD_SECTION), (H3_DATAGRAM, 1), (WT_ENABLED, 1)]"

definition control_stream :: "(u64 \<times> u64) list \<Rightarrow> bytes" where
  "control_stream settings =
     (let len = sum_list (map (\<lambda>(ident, value). varint_len ident + varint_len value) settings);
          bytes = varint_put STREAM_CONTROL [];
          bytes = put_header FRAME_SETTINGS (of_nat len) bytes
      in foldl (\<lambda>bytes (ident, value). varint_put value (varint_put ident bytes)) bytes settings)"

datatype dialect = Draft02 | Draft15

record peer =
  max_field_section_size :: "u64 option"
  connect_protocol :: bool
  h3_datagram :: bool
  datagrams :: bool
  draft02 :: bool
  current :: bool

definition peer_default :: peer where
  "peer_default = \<lparr>max_field_section_size = None, connect_protocol = False, h3_datagram = False,
     datagrams = False, draft02 = False, current = False\<rparr>"

definition peer_check :: "peer \<Rightarrow> bool \<Rightarrow> code + unit" where
  "peer_check p datagram_frames =
     (if h3_datagram p \<and> \<not> datagram_frames then Inl H3_SETTINGS_ERROR else Inr ())"

definition peer_webtransport :: "peer \<Rightarrow> bool \<Rightarrow> dialect option" where
  "peer_webtransport p datagram_frames =
     (if \<not> datagrams p \<or> \<not> datagram_frames then None
      else if current p then Some Draft15
      else if draft02 p then Some Draft02 else None)"

record settings_reader =
  s_pair :: pair
  s_remaining :: u64
  s_seen :: "u64 list"
  s_count :: nat
  s_peer :: peer

definition settings_new :: "u64 \<Rightarrow> code + settings_reader" where
  "settings_new len =
     (if len > SETTINGS_MAX_LENGTH then Inl H3_EXCESSIVE_LOAD
      else Inr \<lparr>s_pair = pair_default, s_remaining = len, s_seen = replicate MAX_IDS 0, s_count = 0,
                s_peer = peer_default\<rparr>)"

definition peer_apply :: "peer \<Rightarrow> u64 \<Rightarrow> u64 \<Rightarrow> code + peer" where
  "peer_apply p ident value =
     (if ident = MAX_FIELD_SECTION_SIZE then Inr (p\<lparr>max_field_section_size := Some value\<rparr>)
      else if (ident = ENABLE_CONNECT_PROTOCOL \<or> ident = H3_DATAGRAM) \<and> value > 1 then Inl H3_SETTINGS_ERROR
      else if ident = ENABLE_CONNECT_PROTOCOL then Inr (p\<lparr>connect_protocol := (value = 1)\<rparr>)
      else if ident = H3_DATAGRAM
        then let p = p\<lparr>h3_datagram := (value = 1)\<rparr> in Inr (p\<lparr>datagrams := datagrams p \<or> h3_datagram p\<rparr>)
      else if ident = H3_DATAGRAM_DRAFT04 then Inr (p\<lparr>datagrams := datagrams p \<or> value = 1\<rparr>)
      else if ident = WT_ENABLE_DRAFT02 then Inr (p\<lparr>draft02 := (value = 1)\<rparr>)
      else if ident = WT_ENABLED then Inr (p\<lparr>current := (value > 0)\<rparr>)
      else Inr p)"

definition reserved_setting :: "u64 \<Rightarrow> bool" where
  "reserved_setting ident \<longleftrightarrow> ident = 0x00 \<or> (0x02 \<le> ident \<and> ident \<le> 0x05)"

definition settings_apply :: "settings_reader \<Rightarrow> u64 \<Rightarrow> u64 \<Rightarrow> code + settings_reader" where
  "settings_apply r ident value =
     (if reserved_setting ident \<or> ident \<in> set (take (s_count r) (s_seen r)) then Inl H3_SETTINGS_ERROR
      else if s_count r = MAX_IDS then Inl H3_EXCESSIVE_LOAD
      else let r = r\<lparr>s_seen := (s_seen r)[s_count r := ident], s_count := s_count r + 1\<rparr>
           in (case peer_apply (s_peer r) ident value of
                 Inl c \<Rightarrow> Inl c | Inr p \<Rightarrow> Inr (r\<lparr>s_peer := p\<rparr>)))"

lemma settings_apply_pair: "settings_apply r ident v = Inr r' \<Longrightarrow> s_pair r' = s_pair r \<and> s_remaining r' = s_remaining r"
  by (auto simp: settings_apply_def Let_def split: if_splits sum.splits)

function settings_loop :: "settings_reader \<Rightarrow> bytes \<Rightarrow> code + (settings_reader \<times> bytes)" where
  "settings_loop r payload =
     (case pair_read (s_pair r) payload of
        (None, p, rest) \<Rightarrow> Inr (r\<lparr>s_pair := p\<rparr>, rest)
      | (Some (ident, value), p, rest) \<Rightarrow>
          (case settings_apply (r\<lparr>s_pair := p\<rparr>) ident value of
             Inl c \<Rightarrow> Inl c | Inr r' \<Rightarrow> settings_loop r' rest))"
  by pat_completeness auto
termination
  by (relation "measure (\<lambda>(r, payload). length payload + pair_mass (s_pair r))")
    (auto dest!: pair_read_mass [OF sym] settings_apply_pair)

declare settings_loop.simps [simp del]

definition settings_read :: "settings_reader \<Rightarrow> bytes \<Rightarrow> code + (peer option \<times> settings_reader)" where
  "settings_read r payload =
     (let r = r\<lparr>s_remaining := s_remaining r - of_nat (length payload)\<rparr>
      in (case settings_loop r payload of
            Inl c \<Rightarrow> Inl c
          | Inr (r, _) \<Rightarrow>
              if s_remaining r = 0
              then (if pair_is_empty (s_pair r) then Inr (Some (s_peer r), r) else Inl H3_FRAME_ERROR)
              else Inr (None, r)))"

subsection \<open>The reader as an automaton over bytes\<close>

type_synonym asettings = "u64 list \<times> peer"

definition settings_complete :: "asettings \<Rightarrow> u64 \<Rightarrow> u64 \<Rightarrow> (unit, code, asettings) outcome" where
  "settings_complete st ident value = (case st of (ids, p) \<Rightarrow>
     if reserved_setting ident \<or> ident \<in> set ids then ([], Inl H3_SETTINGS_ERROR)
     else if length ids = MAX_IDS then ([], Inl H3_EXCESSIVE_LOAD)
     else (case peer_apply p ident value of Inl c \<Rightarrow> ([], Inl c) | Inr p' \<Rightarrow> ([], Inr (ids @ [ident], p'))))"

abbreviation settings_step :: "asettings held \<Rightarrow> u8 \<Rightarrow> (unit, code, asettings held) outcome" where
  "settings_step \<equiv> pair_step (\<lambda>_. True) settings_complete (\<lambda>st _. ([], Inr st))"

definition settings_ids :: "settings_reader \<Rightarrow> u64 list" where
  "settings_ids r = take (s_count r) (s_seen r)"

definition settings_abs :: "settings_reader \<Rightarrow> asettings held" where
  "settings_abs r = (pair_first (s_pair r), pend (pair_varint (s_pair r)), settings_ids r, s_peer r)"

definition settings_wf :: "settings_reader \<Rightarrow> bool" where
  "settings_wf r \<longleftrightarrow> partial_wf (pair_varint (s_pair r)) \<and> length (s_seen r) = MAX_IDS \<and> s_count r \<le> MAX_IDS"

definition settings_feed :: "settings_reader \<Rightarrow> bytes \<Rightarrow> (unit, code, settings_reader) outcome" where
  "settings_feed r payload =
     (case settings_loop r payload of Inl c \<Rightarrow> ([], Inl c) | Inr (r', _) \<Rightarrow> ([], Inr r'))"

lemma settings_apply_complete:
  assumes "length (s_seen r) = MAX_IDS" and "s_count r \<le> MAX_IDS"
  shows "settings_complete (settings_ids r, s_peer r) ident v =
    (case settings_apply r ident v of
       Inl c \<Rightarrow> ([], Inl c) | Inr r' \<Rightarrow> ([], Inr (settings_ids r', s_peer r')))"
proof -
  have len: "length (settings_ids r) = s_count r" using assms by (simp add: settings_ids_def)
  have "take (s_count r + 1) ((s_seen r)[s_count r := ident]) = settings_ids r @ [ident]" if "s_count r \<noteq> MAX_IDS"
    using assms that by (simp add: settings_ids_def take_Suc_conv_app_nth)
  with len show ?thesis
    by (auto simp: settings_complete_def settings_apply_def settings_ids_def Let_def split: sum.splits)
qed

lemma settings_apply_wf: "settings_wf r \<Longrightarrow> settings_apply r ident v = Inr r' \<Longrightarrow> settings_wf r'"
  by (auto simp: settings_wf_def settings_apply_def Let_def split: if_splits sum.splits)

lemma settings_loop_post:
  "settings_wf r \<Longrightarrow>
    run_bytes settings_step (settings_abs r) payload =
      (case settings_loop r payload of Inl c \<Rightarrow> ([], Inl c) | Inr (r', _) \<Rightarrow> ([], Inr (settings_abs r'))) \<and>
    (\<forall>r' rest. settings_loop r payload = Inr (r', rest) \<longrightarrow>
       settings_wf r' \<and> rest = [] \<and> s_remaining r' = s_remaining r)"
proof (induction r payload rule: settings_loop.induct)
  case (1 r payload)
  obtain res p rest where rd: "pair_read (s_pair r) payload = (res, p, rest)" by (metis prod_cases3)
  have post: "pair_post (run_bytes settings_step) settings_complete (settings_abs r) payload (res, p, rest)"
    using pair_read_post [of "s_pair r" "\<lambda>_. True" "(settings_ids r, s_peer r)" settings_complete _ payload]
      "1.prems" rd by (simp add: settings_abs_def settings_wf_def)
  then have p: "partial_wf (pair_varint p)" by (simp add: pair_post_def)
  show ?case
  proof (cases res)
    case None
    with rd post "1.prems" p show ?thesis
      by (simp add: settings_loop.simps [of r payload] pair_post_def settings_abs_def settings_ids_def settings_wf_def)
  next
    case (Some kv)
    obtain ident v where kv: "kv = (ident, v)" by (cases kv)
    let ?r = "r\<lparr>s_pair := p\<rparr>"
    have wf: "settings_wf ?r" using "1.prems" p by (simp add: settings_wf_def)
    have hd: "run_bytes settings_step (settings_abs r) payload =
        seq_out (map_out (\<lambda>st. (None, [], st)) (settings_complete (settings_ids ?r, s_peer ?r) ident v))
          (\<lambda>a. run_bytes settings_step a rest)"
      and emp: "pair_first p = None" "pend (pair_varint p) = []"
      using post Some kv by (simp_all add: pair_post_def settings_abs_def settings_ids_def)
    have cm: "settings_complete (settings_ids ?r, s_peer ?r) ident v =
        (case settings_apply ?r ident v of
           Inl c \<Rightarrow> ([], Inl c) | Inr r' \<Rightarrow> ([], Inr (settings_ids r', s_peer r')))"
      using wf by (intro settings_apply_complete) (simp_all add: settings_wf_def)
    show ?thesis
    proof (cases "settings_apply ?r ident v")
      case (Inl c)
      with cm have "settings_complete (settings_ids ?r, s_peer ?r) ident v = ([], Inl c)" by simp
      with rd Some kv Inl show ?thesis
        unfolding hd by (simp add: settings_loop.simps [of r payload])
    next
      case (Inr r1)
      note ap = settings_apply_pair [OF Inr]
      have "settings_abs r1 = (None, [], settings_ids r1, s_peer r1)"
        using ap emp by (simp add: settings_abs_def)
      moreover have "settings_complete (settings_ids ?r, s_peer ?r) ident v = ([], Inr (settings_ids r1, s_peer r1))"
        using cm Inr by simp
      ultimately have "run_bytes settings_step (settings_abs r) payload =
          run_bytes settings_step (settings_abs r1) rest"
        unfolding hd by simp
      moreover have "settings_loop r payload = settings_loop r1 rest"
        using rd Some kv Inr by (simp add: settings_loop.simps [of r payload])
      moreover note "1.IH" [OF rd [symmetric] Some kv [symmetric] refl Inr settings_apply_wf [OF wf Inr]]
      ultimately show ?thesis using ap by simp
    qed
  qed
qed

interpretation settings: byte_reader settings_step settings_feed settings_abs settings_wf
proof
  fix s bs
  assume "settings_wf s"
  from settings_loop_post [OF this, of bs]
  show "map_out settings_abs (settings_feed s bs) = run_bytes settings_step (settings_abs s) bs"
    by (auto simp: settings_feed_def split: sum.splits)
next
  fix s bs es s'
  assume "settings_wf s" and "settings_feed s bs = (es, Inr s')"
  with settings_loop_post [of s bs] show "settings_wf s'"
    by (auto simp: settings_feed_def split: sum.splits prod.splits)
qed

subsection \<open>A whole frame\<close>

text \<open>
  The connection driver hands the payload over chunk by chunk and stops at the first answer.
\<close>

fun settings_chunks :: "settings_reader \<Rightarrow> bytes list \<Rightarrow> code + peer option" where
  "settings_chunks r [] = Inr None"
| "settings_chunks r (c # cs) =
     (case settings_read r c of
        Inl e \<Rightarrow> Inl e
      | Inr (Some p, _) \<Rightarrow> Inr (Some p)
      | Inr (None, r') \<Rightarrow> settings_chunks r' cs)"

definition settings_answer :: "(unit, code, asettings held) outcome \<Rightarrow> code + peer option" where
  "settings_answer out = (case out of
     (_, Inl c) \<Rightarrow> Inl c
   | (_, Inr (f, held, _, p)) \<Rightarrow> if f = None \<and> held = [] then Inr (Some p) else Inl H3_FRAME_ERROR)"

lemma settings_read_eq:
  assumes "settings_wf r" and "unat (s_remaining r) = length c + n"
  shows "case run_bytes settings_step (settings_abs r) c of
      (_, Inl e) \<Rightarrow> settings_read r c = Inl e
    | (_, Inr a) \<Rightarrow> if n = 0 then map_sum id fst (settings_read r c) = settings_answer ([], Inr a)
        else \<exists>r'. settings_read r c = Inr (None, r') \<and> settings_wf r' \<and> settings_abs r' = a \<and>
          unat (s_remaining r') = n"
proof -
  let ?r = "r\<lparr>s_remaining := s_remaining r - of_nat (length c)\<rparr>"
  have wf: "settings_wf ?r" using assms(1) by (simp add: settings_wf_def)
  have ab: "settings_abs ?r = settings_abs r" by (simp add: settings_abs_def settings_ids_def)
  have "unat (s_remaining r) < 2 ^ LENGTH(64)" by (rule unsigned_less)
  then have "length c < 2 ^ LENGTH(64)" using assms(2) by linarith
  then have "unat (of_nat (length c) :: u64) = length c" by (rule unat_of_small)
  then have rem: "unat (s_remaining ?r) = n"
    using assms(2) by (simp add: unat_sub word_le_nat_alt)
  note post = settings_loop_post [OF wf, of c]
  show ?thesis
  proof (cases "settings_loop ?r c")
    case (Inl e)
    with post ab show ?thesis by (simp add: settings_read_def)
  next
    case (Inr x)
    then obtain r' where l: "settings_loop ?r c = Inr (r', [])"
      using post by (cases x) auto
    with post have wf': "settings_wf r'" and rem': "s_remaining r' = s_remaining ?r"
      and run: "run_bytes settings_step (settings_abs r) c = ([], Inr (settings_abs r'))"
      using ab by auto
    have emp: "pair_is_empty (s_pair r') \<longleftrightarrow> pair_first (s_pair r') = None \<and> pend (pair_varint (s_pair r')) = []"
      using wf' by (simp add: settings_wf_def pair_is_empty_def partial_is_empty_pend)
    have "s_remaining r' = 0 \<longleftrightarrow> n = 0" using rem rem' by (metis unat_eq_zero)
    with l run wf' rem rem' emp show ?thesis
      by (auto simp: settings_read_def settings_answer_def settings_abs_def)
  qed
qed

lemma settings_chunks_spec:
  assumes "settings_wf r" and "unat (s_remaining r) = length (concat cs)" and "concat cs \<noteq> []"
  shows "settings_chunks r cs = settings_answer (run_bytes settings_step (settings_abs r) (concat cs))"
  using assms
proof (induction cs arbitrary: r)
  case (Cons c cs)
  have len: "unat (s_remaining r) = length c + length (concat cs)" using Cons.prems(2) by simp
  obtain es x where run: "run_bytes settings_step (settings_abs r) c = (es, x)" by (cases "run_bytes settings_step (settings_abs r) c")
  have run': "run_bytes settings_step (settings_abs r) (concat (c # cs)) =
      seq_out (es, x) (\<lambda>a. run_bytes settings_step a (concat cs))"
    by (simp add: run_bytes_append run)
  note eq = settings_read_eq [OF Cons.prems(1) len, unfolded run]
  show ?case
  proof (cases x)
    case (Inl e)
    with eq run' show ?thesis by (simp add: settings_answer_def)
  next
    case (Inr a)
    show ?thesis
    proof (cases "concat cs = []")
      case True
      with eq Inr have r: "map_sum id fst (settings_read r c) = settings_answer ([], Inr a)" by simp
      have "run_bytes settings_step (settings_abs r) (concat (c # cs)) = (es, Inr a)"
        unfolding run' Inr True by (simp add: seq_out_def)
      moreover have "settings_answer (es, Inr a) = settings_answer ([], Inr a)"
        by (simp add: settings_answer_def)
      moreover have "settings_answer ([], Inr a) \<noteq> Inr None"
        by (auto simp: settings_answer_def split: prod.splits)
      ultimately show ?thesis
        using r by (cases "settings_read r c") (auto split: option.splits)
    next
      case False
      then have "length (concat cs) \<noteq> 0" by (simp only: length_0_conv not_False_eq_True)
      with eq Inr obtain r' where r': "settings_read r c = Inr (None, r')" "settings_wf r'"
        "settings_abs r' = a" "unat (s_remaining r') = length (concat cs)" by (simp only: prod.case sum.case if_False) blast
      with Cons.IH [OF r'(2,4) False] have "settings_chunks r (c # cs) =
          settings_answer (run_bytes settings_step a (concat cs))" by simp
      also have "\<dots> = settings_answer (run_bytes settings_step (settings_abs r) (concat (c # cs)))"
        unfolding run' Inr by (simp add: settings_answer_def seq_out_def split: prod.splits)
      finally show ?thesis .
    qed
  qed
qed simp

text \<open>What a list of settings amounts to: each applied in turn, unless refused.\<close>

fun apply_settings :: "asettings \<Rightarrow> (u64 \<times> u64) list \<Rightarrow> code + peer" where
  "apply_settings st [] = Inr (snd st)"
| "apply_settings st ((ident, val) # ss) =
     (case settings_complete st ident val of (_, Inl c) \<Rightarrow> Inl c | (_, Inr st') \<Rightarrow> apply_settings st' ss)"

definition settings_payload :: "(u64 \<times> u64) list \<Rightarrow> bytes" where
  "settings_payload ss = concat (map (\<lambda>(ident, val). varint_put ident [] @ varint_put val []) ss)"

definition settings_fit :: "(u64 \<times> u64) list \<Rightarrow> bool" where
  "settings_fit ss \<longleftrightarrow> (\<forall>(ident, val) \<in> set ss. ident \<le> varint_MAX \<and> val \<le> varint_MAX)"

lemma settings_run_payload:
  "settings_fit ss \<Longrightarrow>
    settings_answer (run_bytes settings_step (None, [], st) (settings_payload ss)) =
      map_sum id Some (apply_settings st ss)"
proof (induction ss arbitrary: st)
  case Nil
  then show ?case by (cases st) (simp add: settings_payload_def settings_answer_def)
next
  case (Cons s ss)
  obtain ident val where s: "s = (ident, val)" by (cases s)
  have fit: "settings_fit ss" and i: "ident \<le> varint_MAX" and v: "val \<le> varint_MAX"
    using Cons.prems by (auto simp: settings_fit_def s)
  have run: "run_bytes settings_step (None, [], st) (settings_payload (s # ss)) =
      seq_out (map_out (\<lambda>st'. (None, [], st')) (settings_complete st ident val))
        (\<lambda>a. run_bytes settings_step a (settings_payload ss))"
    using i v by (simp add: settings_payload_def s run_put_varint pair_done_def)
  show ?case
  proof (cases "snd (settings_complete st ident val)")
    case (Inl c)
    then show ?thesis
      unfolding run by (cases "settings_complete st ident val") (simp add: s settings_answer_def)
  next
    case (Inr st')
    then have "settings_complete st ident val = ([], Inr st')"
      by (auto simp: settings_complete_def split: prod.splits if_splits sum.splits)
    then show ?thesis unfolding run using Cons.IH [OF fit, of st'] by (simp add: s)
  qed
qed

lemma length_settings_payload:
  "length (settings_payload ss) = sum_list (map (\<lambda>(ident, val). varint_len ident + varint_len val) ss)"
  by (induction ss) (auto simp: settings_payload_def)

lemma control_stream_eq:
  "control_stream ss =
     varint_put STREAM_CONTROL [] @ frame_bytes (FRAME_SETTINGS, settings_payload ss)"
proof -
  have "foldl (\<lambda>bytes (ident, val). varint_put val (varint_put ident bytes)) out ss =
      out @ settings_payload ss" for out
  proof (induction ss arbitrary: out)
    case (Cons s ss)
    obtain ident val where s: "s = (ident, val)" by (cases s)
    show ?case
      using Cons.IH varint_put_append [of ident out] varint_put_append [of val "out @ varint_put ident []"]
      by (simp add: s settings_payload_def)
  qed (simp add: settings_payload_def)
  then show ?thesis
    by (simp add: control_stream_def Let_def frame_bytes_def length_settings_payload
        put_header_append [of _ _ "varint_put STREAM_CONTROL []"] put_header_append [of _ _ "[]"])
qed

lemma settings_new_wf: "settings_new len = Inr r \<Longrightarrow>
    settings_wf r \<and> settings_abs r = (None, [], [], peer_default) \<and> s_remaining r = len"
  by (auto simp: settings_new_def settings_wf_def settings_abs_def settings_ids_def pair_default_def split: if_splits)

text \<open>The settings a payload holds: identifier and value, one after another, to its end.\<close>

function settings_pairs :: "bytes \<Rightarrow> (u64 \<times> u64) list option" where
  "settings_pairs bs =
     (if bs = [] then Some []
      else case varint_decode bs of
          None \<Rightarrow> None
        | Some (ident, n) \<Rightarrow> (case varint_decode (drop n bs) of
              None \<Rightarrow> None
            | Some (val, k) \<Rightarrow> map_option ((#) (ident, val)) (settings_pairs (drop (n + k) bs))))"
  by pat_completeness auto
termination
  by (relation "measure length") (auto dest!: varint_decode_le)

declare settings_pairs.simps [simp del]

text \<open>What a run over a payload amounts to, whether or not the payload ends between settings.\<close>

lemma settings_run_pairs:
  "settings_answer (run_bytes settings_step (None, [], st) bs) = Inr (Some p) \<longleftrightarrow>
    (\<exists>ss. settings_pairs bs = Some ss \<and> apply_settings st ss = Inr p)"
proof (induction bs arbitrary: st rule: settings_pairs.induct)
  case (1 bs)
  show ?case
  proof (cases "bs = []")
    case True
    then show ?thesis by (cases st) (simp add: settings_pairs.simps [of "[]"] settings_answer_def)
  next
    case some: False
    show ?thesis
    proof (cases "varint_decode bs")
      case None
      then have "run_bytes settings_step (None, [], st) bs = ([], Inr (None, bs, st))" using run_held_None [of "\<lambda>_. True" st "[]" bs] by simp
      then show ?thesis using some None by (cases st) (simp add: settings_pairs.simps [of bs] settings_answer_def)
    next
      case (Some x)
      obtain ident n where x: "x = (ident, n)" by (cases x)
      have run: "run_bytes settings_step (None, [], st) bs = run_bytes settings_step (Some ident, [], st) (drop n bs)"
        using run_held_Some [of "\<lambda>_. True" st "[]" bs ident n settings_complete "\<lambda>st _. ([], Inr st)" None] Some x
        by (simp add: pair_done_def)
      show ?thesis
      proof (cases "varint_decode (drop n bs)")
        case none: None
        then have "run_bytes settings_step (Some ident, [], st) (drop n bs) = ([], Inr (Some ident, drop n bs, st))"
          using run_held_None [of "\<lambda>_. True" st "[]" "drop n bs"] by simp
        then show ?thesis unfolding run using some Some x none by (cases st) (simp add: settings_pairs.simps [of bs] settings_answer_def)
      next
        case val: (Some y)
        obtain v k where y: "y = (v, k)" by (cases y)
        have run': "run_bytes settings_step (Some ident, [], st) (drop n bs) =
            seq_out (map_out (\<lambda>st'. (None, [], st')) (settings_complete st ident v)) (\<lambda>a. run_bytes settings_step a (drop (n + k) bs))"
          using run_held_Some [of "\<lambda>_. True" st "[]" "drop n bs" v k settings_complete "\<lambda>st _. ([], Inr st)" "Some ident"] val y
          by (simp add: pair_done_def add.commute)
        have pairs: "settings_pairs bs = map_option ((#) (ident, v)) (settings_pairs (drop (n + k) bs))"
          using some Some x val y by (simp add: settings_pairs.simps [of bs])
        show ?thesis
        proof (cases "snd (settings_complete st ident v)")
          case (Inl c)
          then show ?thesis unfolding run run' pairs
            by (cases "settings_complete st ident v") (auto simp: settings_answer_def)
        next
          case (Inr st')
          then have "settings_complete st ident v = ([], Inr st')"
            by (auto simp: settings_complete_def split: prod.splits if_splits sum.splits)
          then show ?thesis unfolding run run' pairs using "1.IH" [OF some Some x [symmetric] val y [symmetric], of st'] by auto
        qed
      qed
    qed
  qed
qed

lemma reserved_settings: "reserved_setting ident \<longleftrightarrow> ident \<in> {0x00, 0x02, 0x03, 0x04, 0x05}"
proof -
  have "0x02 \<le> ident \<and> ident \<le> 0x05 \<longleftrightarrow> ident \<in> {0x02, 0x03, 0x04, 0x05}"
  proof -
    have "unat ident = unat (2 :: u64) \<or> unat ident = unat (3 :: u64) \<or> unat ident = unat (4 :: u64) \<or> unat ident = unat (5 :: u64)"
      if "0x02 \<le> ident" "ident \<le> 0x05" using that by (auto simp: word_le_nat_alt)
    then show ?thesis by (auto simp: word_unat_eq_iff word_le_nat_alt)
  qed
  then show ?thesis by (auto simp: reserved_setting_def)
qed

lemma peer_apply_ok: "(\<exists>q. peer_apply p ident v = Inr q) \<longleftrightarrow> (ident \<in> {ENABLE_CONNECT_PROTOCOL, H3_DATAGRAM} \<longrightarrow> v \<le> 1)"
  by (auto simp: peer_apply_def setting_ids Let_def not_less)

lemma apply_settings_iff:
  "distinct ids \<Longrightarrow> length ids \<le> MAX_IDS \<Longrightarrow> (\<exists>q. apply_settings (ids, p) ss = Inr q) \<longleftrightarrow>
    distinct (ids @ map fst ss) \<and> length ids + length ss \<le> MAX_IDS \<and>
    (\<forall>(ident, v) \<in> set ss. \<not> reserved_setting ident \<and> (ident \<in> {ENABLE_CONNECT_PROTOCOL, H3_DATAGRAM} \<longrightarrow> v \<le> 1))"
proof (induction ss arbitrary: ids p)
  case (Cons s ss)
  obtain ident v where s: "s = (ident, v)" by (cases s)
  show ?case
  proof (cases "\<not> reserved_setting ident \<and> ident \<notin> set ids \<and> length ids < MAX_IDS \<and> (\<exists>q. peer_apply p ident v = Inr q)")
    case True
    then obtain q where q: "peer_apply p ident v = Inr q" by blast
    then have "apply_settings (ids, p) (s # ss) = apply_settings (ids @ [ident], q) ss"
      using True by (simp add: s settings_complete_def)
    moreover note Cons.IH [of "ids @ [ident]" q]
    moreover have "ident \<in> {ENABLE_CONNECT_PROTOCOL, H3_DATAGRAM} \<longrightarrow> v \<le> 1" using True peer_apply_ok by blast
    ultimately show ?thesis using True Cons.prems by (auto simp: s)
  next
    case False
    then have "\<nexists>q. apply_settings (ids, p) (s # ss) = Inr q" using Cons.prems(2)
      by (auto simp: s settings_complete_def split: sum.splits)
    moreover have "\<not> (distinct (ids @ map fst (s # ss)) \<and> length ids + length (s # ss) \<le> MAX_IDS \<and>
      (\<forall>(ident, v) \<in> set (s # ss). \<not> reserved_setting ident \<and> (ident \<in> {ENABLE_CONNECT_PROTOCOL, H3_DATAGRAM} \<longrightarrow> v \<le> 1)))"
      using False peer_apply_ok [of p ident v] by (auto simp: s)
    ultimately show ?thesis by blast
  qed
qed simp

subsection \<open>Properties\<close>

text \<open>
  Settings survive the trip to the peer: a SETTINGS payload written as \<open>control_stream\<close> writes it,
  delivered in chunks of any size, makes the reader answer exactly what applying the settings one after
  another gives, the peer's values or the code that refuses them, and never before the frame is complete.
\<close>

theorem settings_read_back:
  assumes "settings_fit ss" and "ss \<noteq> []"
    and "settings_new (of_nat (length (settings_payload ss))) = Inr r"
    and "length (settings_payload ss) < 2 ^ 62"
    and "concat chunks = settings_payload ss"
  shows "settings_chunks r chunks = map_sum id Some (apply_settings ([], peer_default) ss) \<and>
    control_stream ss = varint_put STREAM_CONTROL [] @ frame_bytes (FRAME_SETTINGS, concat chunks)"
proof -
  have "settings_payload ss \<noteq> []"
    using assms(2) by (cases ss) (auto simp: settings_payload_def varint_put_bytes Let_def)
  then have "settings_chunks r chunks =
      settings_answer (run_bytes settings_step (settings_abs r) (concat chunks))"
    using settings_new_wf [OF assms(3)] assms(4,5) of_nat_fits [OF assms(4)]
    by (intro settings_chunks_spec) simp_all
  then show ?thesis
    using settings_new_wf [OF assms(3)] settings_run_payload [OF assms(1)] assms(5) control_stream_eq
    by simp
qed

theorem settings_read_back_witness:
  "\<exists>r. settings_new 2 = Inr r \<and>
    settings_chunks r [[0x33], [0x01]] =
      Inr (Some (peer_default\<lparr>h3_datagram := True, datagrams := True\<rparr>))"
proof -
  let ?ss = "[(H3_DATAGRAM, 1)]"
  have pay: "settings_payload ?ss = [0x33, 0x01]" by code_simp
  obtain r where r: "settings_new 2 = Inr r"
    by (simp add: settings_new_def SETTINGS_MAX_LENGTH_def)
  have fit: "settings_fit ?ss" by (simp add: settings_fit_def setting_ids varint_MAX_def)
  have "settings_chunks r [[0x33], [0x01]] = map_sum id Some (apply_settings ([], peer_default) ?ss)"
    using settings_read_back [OF fit, of r "[[0x33], [0x01]]"] r pay by simp
  also have "\<dots> = Inr (Some (peer_default\<lparr>h3_datagram := True, datagrams := True\<rparr>))"
    by (simp add: settings_complete_def peer_apply_def setting_ids reserved_setting_def MAX_IDS_def peer_default_def)
  finally show ?thesis using r by blast
qed

text \<open>
  C30. The reader accepts exactly the well-formed settings. A payload of the announced length, delivered to the reader in chunks of any
  size, is accepted if and only if it is a sequence of whole settings, at most \<open>MAX_IDS\<close> of them, of which no identifier
  appears twice and none is one HTTP/2 reserves, and the two boolean settings are 0 or 1.
\<close>

theorem settings_accepted_wellformed:
  assumes "settings_new len = Inr r" and "length (concat chunks) = unat len" and "concat chunks \<noteq> []"
  shows "(\<exists>p. settings_chunks r chunks = Inr (Some p)) \<longleftrightarrow>
    (\<exists>ss. settings_pairs (concat chunks) = Some ss \<and> distinct (map fst ss) \<and> length ss \<le> 64 \<and>
      (\<forall>(ident, val) \<in> set ss. ident \<notin> {0x00, 0x02, 0x03, 0x04, 0x05} \<and> (ident \<in> {0x08, 0x33} \<longrightarrow> val \<le> 1)))"
proof -
  have "settings_chunks r chunks = settings_answer (run_bytes settings_step (settings_abs r) (concat chunks))"
    using settings_new_wf [OF assms(1)] assms(2,3) by (intro settings_chunks_spec) simp_all
  then have "settings_chunks r chunks = settings_answer (run_bytes settings_step (None, [], [], peer_default) (concat chunks))"
    using settings_new_wf [OF assms(1)] by simp
  then have "(\<exists>p. settings_chunks r chunks = Inr (Some p)) \<longleftrightarrow>
      (\<exists>ss. settings_pairs (concat chunks) = Some ss \<and> (\<exists>p. apply_settings ([], peer_default) ss = Inr p))"
    using settings_run_pairs [of "([], peer_default)" "concat chunks"] by auto
  moreover have "(\<exists>p. apply_settings ([], peer_default) ss = Inr p) \<longleftrightarrow> distinct (map fst ss) \<and> length ss \<le> 64 \<and>
      (\<forall>(ident, val) \<in> set ss. ident \<notin> {0x00, 0x02, 0x03, 0x04, 0x05} \<and> (ident \<in> {0x08, 0x33} \<longrightarrow> val \<le> 1))" for ss
    using apply_settings_iff [of "[]" peer_default ss] unfolding reserved_settings by (simp add: MAX_IDS_def setting_ids split_beta')
  ultimately show ?thesis by simp
qed

theorem settings_accepted_wellformed_witness:
  "\<exists>r. settings_new 4 = Inr r \<and> (\<exists>p. settings_chunks r [[0x33, 0x01, 0x21], [0x07]] = Inr (Some p)) \<and>
     \<not> (\<exists>p. settings_chunks r [[0x33, 0x01], [0x33, 0x01]] = Inr (Some p))"
proof -
  obtain r where r: "settings_new 4 = Inr r" by (simp add: settings_new_def SETTINGS_MAX_LENGTH_def)
  have "settings_pairs (concat [[0x33, 0x01, 0x21], [0x07]]) = Some [(0x33, 1), (0x21, 7)]"
    "settings_pairs (concat [[0x33, 0x01], [0x33, 0x01]]) = Some [(0x33, 1), (0x33, 1)]" by code_simp+
  then show ?thesis using settings_accepted_wellformed [OF r, of "[[0x33, 0x01, 0x21], [0x07]]"]
      settings_accepted_wellformed [OF r, of "[[0x33, 0x01], [0x33, 0x01]]"] r by (intro exI [of _ r]) simp
qed

text \<open>
  The two profiles this program sends agree with its own reader: a peer that applies the server's or
  the client's settings sees the field section limit that role enforces, passes the datagram check, and
  speaks the current WebTransport draft exactly when QUIC datagrams were negotiated.
\<close>

theorem own_profiles_negotiate:
  "(\<exists>p. apply_settings ([], peer_default) SERVER_SETTINGS = Inr p \<and>
      max_field_section_size p = Some SERVER_FIELD_SECTION \<and> connect_protocol p \<and>
      peer_check p True = Inr () \<and> peer_check p False = Inl H3_SETTINGS_ERROR \<and>
      peer_webtransport p True = Some Draft15 \<and> peer_webtransport p False = None) \<and>
   (\<exists>p. apply_settings ([], peer_default) CLIENT_SETTINGS = Inr p \<and>
      max_field_section_size p = Some CLIENT_FIELD_SECTION \<and> \<not> connect_protocol p \<and>
      peer_check p True = Inr () \<and>
      peer_webtransport p True = Some Draft15 \<and> peer_webtransport p False = None)"
  by (simp add: SERVER_SETTINGS_def CLIENT_SETTINGS_def settings_complete_def peer_apply_def setting_ids
      reserved_setting_def MAX_IDS_def peer_default_def peer_check_def peer_webtransport_def)

end
