(* ===== verification/Huffman.thy ===== *)
theory Huffman
  imports Prelude
begin

unbundle bit_operations_syntax

text \<open>
  The HPACK Huffman code, \<^verbatim>\<open>rust/http3/src/qpack/huffman.rs\<close>: the table of code lengths, the canonical
  code it defines, the encoder with its 64-bit accumulator and the bit-by-bit decoder. A panic of the
  decoder (an array index out of range) is the result \<open>None\<close>; it is shown never to happen.
\<close>

text \<open>Each symbol's code length, 16 per row. The last is EOS.\<close>

definition LENGTHS :: "nat list" where
  "LENGTHS = [
     13, 23, 28, 28, 28, 28, 28, 28, 28, 24, 30, 28, 28, 30, 28, 28,
     28, 28, 28, 28, 28, 28, 30, 28, 28, 28, 28, 28, 28, 28, 28, 28,
     6, 10, 10, 12, 13, 6, 8, 11, 10, 10, 8, 11, 8, 6, 6, 6,
     5, 5, 5, 6, 6, 6, 6, 6, 6, 6, 7, 8, 15, 6, 12, 10,
     13, 6, 7, 7, 7, 7, 7, 7, 7, 7, 7, 7, 7, 7, 7, 7,
     7, 7, 7, 7, 7, 7, 7, 7, 8, 7, 8, 13, 19, 13, 14, 6,
     15, 5, 6, 5, 6, 5, 6, 6, 6, 5, 7, 7, 6, 6, 6, 5,
     6, 7, 6, 5, 5, 6, 7, 7, 7, 7, 7, 15, 11, 14, 13, 28,
     20, 22, 20, 20, 22, 22, 22, 23, 22, 23, 23, 23, 23, 23, 24, 23,
     24, 24, 22, 23, 24, 23, 23, 23, 23, 21, 22, 23, 22, 23, 23, 24,
     22, 21, 20, 22, 22, 23, 23, 21, 23, 22, 22, 24, 21, 22, 23, 23,
     21, 21, 22, 21, 23, 22, 23, 23, 20, 22, 22, 22, 23, 22, 22, 23,
     26, 26, 20, 19, 22, 23, 22, 25, 26, 26, 26, 27, 27, 26, 24, 25,
     19, 21, 26, 27, 27, 26, 27, 24, 21, 21, 26, 26, 28, 27, 27, 27,
     20, 24, 20, 21, 22, 21, 21, 23, 22, 22, 25, 25, 24, 24, 26, 23,
     26, 27, 26, 26, 27, 27, 27, 27, 27, 28, 27, 27, 27, 27, 27, 26,
     30]"

definition EOS :: nat where
  "EOS = 256"

record huffman_code =
  hc_codes :: "u32 list"
  hc_first :: "u32 list"
  hc_count :: "u32 list"
  hc_start :: "nat list"
  hc_symbols :: "nat list"

definition count_lengths :: "u32 list" where
  "count_lengths =
     foldl (\<lambda>count symbol. count[LENGTHS ! symbol := count ! (LENGTHS ! symbol) + 1]) (replicate 31 0) [0..<257]"

definition first_codes :: "u32 list \<Rightarrow> u32 list \<times> nat list \<times> u32 \<times> nat" where
  "first_codes count =
     foldl (\<lambda>(first, start, code, index) len.
         (first[len := code], start[len := index], push_bit 1 (code + count ! len), index + unat (count ! len)))
       (replicate 31 0, replicate 31 0, 0, 0) [1..<31]"

fun assign_symbol ::
    "u32 list \<times> nat list \<times> u32 list \<times> nat list \<Rightarrow> nat \<Rightarrow> u32 list \<times> nat list \<times> u32 list \<times> nat list" where
  "assign_symbol (next, fill, codes, symbols) symbol =
     (let len = LENGTHS ! symbol
      in (next[len := next ! len + 1], fill[len := fill ! len + 1],
          codes[symbol := next ! len], symbols[fill ! len := symbol]))"

definition assign_codes :: "u32 list \<Rightarrow> nat list \<Rightarrow> u32 list \<times> nat list \<times> u32 list \<times> nat list" where
  "assign_codes first start =
     foldl assign_symbol (first, start, replicate 257 0, replicate 257 0) [0..<257]"

text \<open>\<open>None\<close> when the assertion on the finished code fails, which stops the build.\<close>

definition canonical :: "huffman_code option" where
  "canonical =
     (let count = count_lengths;
          (first, start, code, _) = first_codes count;
          (_, _, codes, symbols) = assign_codes first start
      in if code = push_bit 31 1 \<and> codes ! EOS = push_bit 30 1 - 1
         then Some \<lparr>hc_codes = codes, hc_first = first, hc_count = count, hc_start = start, hc_symbols = symbols\<rparr>
         else None)"

definition CODE :: huffman_code where
  "CODE = the canonical"

definition encoded_len :: "bytes \<Rightarrow> nat" where
  "encoded_len input = (sum_list (map (\<lambda>byte. LENGTHS ! unat byte) input) + 7) div 8"

fun huffman_flush :: "u64 \<Rightarrow> nat \<Rightarrow> bytes \<Rightarrow> nat \<times> bytes" where
  "huffman_flush bits pending output =
     (if pending \<ge> 8
      then huffman_flush bits (pending - 8) (output @ [ucast (drop_bit (pending - 8) bits)])
      else (pending, output))"

declare huffman_flush.simps [simp del]

fun huffman_push :: "u64 \<times> nat \<times> bytes \<Rightarrow> u8 \<Rightarrow> u64 \<times> nat \<times> bytes" where
  "huffman_push (bits, pending, output) byte =
     (let len = LENGTHS ! unat byte;
          bits = push_bit len bits OR ucast (hc_codes CODE ! unat byte);
          (pending, output) = huffman_flush bits (pending + len) output
      in (bits AND (push_bit pending 1 - 1), pending, output))"

definition huffman_encode :: "bytes \<Rightarrow> bytes \<Rightarrow> bytes" where
  "huffman_encode input output =
     (let (bits, pending, output) = foldl huffman_push (0, 0, output) input
      in if pending > 0
         then output @ [ucast (push_bit (8 - pending) bits) OR drop_bit pending 0xff]
         else output)"

text \<open>\<open>enum Invalid\<close> of the QPACK module, which the decoder reports.\<close>

datatype invalid = Qpack | Malformed | TooLarge | Unsupported

type_synonym hstate = "u32 \<times> nat \<times> bytes"

fun huffman_bit :: "hstate \<Rightarrow> u32 \<Rightarrow> (invalid + hstate) option" where
  "huffman_bit (code, len, output) b =
     (let code = push_bit 1 code OR b; len = len + 1
      in if len \<ge> length (hc_first CODE) then None
         else let index = code - hc_first CODE ! len
              in if index < hc_count CODE ! len
                 then let at = hc_start CODE ! len + unat index
                      in if at \<ge> length (hc_symbols CODE) then None
                         else let symbol = hc_symbols CODE ! at
                              in if symbol = EOS then Some (Inl Qpack)
                                 else Some (Inr (0, 0, output @ [of_nat symbol]))
                 else Some (Inr (code, len, output)))"

declare huffman_bit.simps [simp del]

fun huffman_shifts :: "hstate \<Rightarrow> u8 \<Rightarrow> nat list \<Rightarrow> (invalid + hstate) option" where
  "huffman_shifts st byte [] = Some (Inr st)"
| "huffman_shifts st byte (shift # shifts) =
     (case huffman_bit st (ucast (drop_bit shift byte AND 1)) of
        Some (Inr st') \<Rightarrow> huffman_shifts st' byte shifts
      | other \<Rightarrow> other)"

fun huffman_bytes :: "hstate \<Rightarrow> bytes \<Rightarrow> (invalid + hstate) option" where
  "huffman_bytes st [] = Some (Inr st)"
| "huffman_bytes st (byte # input) =
     (case huffman_shifts st byte [7, 6, 5, 4, 3, 2, 1, 0] of
        Some (Inr st') \<Rightarrow> huffman_bytes st' input
      | other \<Rightarrow> other)"

definition huffman_decode :: "bytes \<Rightarrow> bytes \<Rightarrow> (invalid + bytes) option" where
  "huffman_decode input output =
     (case huffman_bytes (0, 0, output) input of
        Some (Inr (code, len, output)) \<Rightarrow>
          if len > 7 \<or> code \<noteq> push_bit len 1 - 1 then Some (Inl Qpack) else Some (Inr output)
      | Some (Inl e) \<Rightarrow> Some (Inl e)
      | None \<Rightarrow> None)"

subsection \<open>The canonical code\<close>

text \<open>How many of the first \<open>n\<close> symbols have codes of length \<open>l\<close>.\<close>

definition cnt :: "nat \<Rightarrow> nat \<Rightarrow> nat" where
  "cnt n l = count_list (take n LENGTHS) l"

lemma length_LENGTHS [simp]: "length LENGTHS = 257"
  by code_simp

lemma LENGTHS_range: "s < 257 \<Longrightarrow> 5 \<le> LENGTHS ! s \<and> LENGTHS ! s \<le> 30"
proof -
  have "list_all (\<lambda>l. 5 \<le> l \<and> l \<le> 30) LENGTHS" by code_simp
  then show "s < 257 \<Longrightarrow> ?thesis" by (simp add: list_all_length)
qed

lemma cnt_0 [simp]: "cnt 0 l = 0"
  by (simp add: cnt_def)

lemma cnt_Suc: "n < 257 \<Longrightarrow> cnt (Suc n) l = cnt n l + (if LENGTHS ! n = l then 1 else 0)"
  by (simp add: cnt_def take_Suc_conv_app_nth)

lemma cnt_mono: "m \<le> n \<Longrightarrow> cnt m l \<le> cnt n l"
proof -
  assume "m \<le> n"
  then have "take n LENGTHS = take m LENGTHS @ take (n - m) (drop m LENGTHS)"
    by (metis le_add_diff_inverse take_add)
  then show ?thesis by (simp add: cnt_def)
qed

lemma cnt_less: "s < n \<Longrightarrow> n \<le> 257 \<Longrightarrow> cnt s (LENGTHS ! s) < cnt n (LENGTHS ! s)"
  using cnt_mono [of "Suc s" n "LENGTHS ! s"] cnt_Suc [of s "LENGTHS ! s"] by simp

lemma count_list_index:
  "i < count_list xs l \<Longrightarrow> \<exists>s < length xs. xs ! s = l \<and> count_list (take s xs) l = i"
proof (induction xs rule: rev_induct)
  case (snoc x xs)
  show ?case
  proof (cases "i < count_list xs l")
    case True
    with snoc.IH obtain s where "s < length xs" "xs ! s = l" "count_list (take s xs) l = i" by blast
    then show ?thesis by (intro exI [of _ s]) (simp add: nth_append)
  next
    case False
    with snoc.prems have "x = l" "i = count_list xs l" by (auto split: if_splits)
    then show ?thesis by (intro exI [of _ "length xs"]) simp
  qed
qed simp

lemma cnt_index: "i < cnt 257 l \<Longrightarrow> \<exists>s < 257. LENGTHS ! s = l \<and> cnt s l = i"
  using count_list_index [of i LENGTHS l] by (simp add: cnt_def)

abbreviation count_table :: "nat list" where
  "count_table \<equiv> [0, 0, 0, 0, 0, 10, 26, 32, 6, 0, 5, 3, 2, 6, 2, 3, 0, 0, 0, 3, 8, 13, 26, 29, 12, 4, 15, 19, 29, 0, 4]"

abbreviation first_table :: "nat list" where
  "first_table \<equiv> [0, 0, 0, 0, 0, 0, 20, 92, 248, 508, 1016, 2042,
     4090, 8184, 16380, 32764, 65534, 131068, 262136, 524272, 1048550, 2097116, 4194258, 8388568,
     16777194, 33554412, 67108832, 134217694, 268435426, 536870910, 1073741820]"

abbreviation start_table :: "nat list" where
  "start_table \<equiv> [0, 0, 0, 0, 0, 0, 10, 36, 68, 74, 74, 79,
     82, 84, 90, 92, 95, 95, 95, 95, 98, 106, 119, 145,
     174, 186, 190, 205, 224, 253, 253]"

lemma cnt_table: "l < 31 \<Longrightarrow> cnt 257 l = count_table ! l"
proof -
  assume l: "l < 31"
  have tab: "map (count_list LENGTHS) [0..<31] = count_table" by code_simp
  have "cnt 257 l = map (count_list LENGTHS) [0..<31] ! l"
    using l by (simp only: cnt_def nth_map length_upt nth_upt) simp
  then show ?thesis by (simp only: tab)
qed

abbreviation count_words :: "u32 list" where
  "count_words \<equiv> [0, 0, 0, 0, 0, 10, 26, 32, 6, 0, 5, 3, 2, 6, 2, 3, 0, 0, 0, 3, 8, 13, 26, 29, 12, 4, 15, 19, 29, 0, 4]"

abbreviation first_words :: "u32 list" where
  "first_words \<equiv> [0, 0, 0, 0, 0, 0, 20, 92, 248, 508, 1016, 2042,
     4090, 8184, 16380, 32764, 65534, 131068, 262136, 524272, 1048550, 2097116, 4194258, 8388568,
     16777194, 33554412, 67108832, 134217694, 268435426, 536870910, 1073741820]"

lemma count_lengths_eq: "count_lengths = count_words"
  by code_simp

lemma first_codes_eq: "first_codes count_words = (first_words, start_table, 2147483648, 257)"
  by code_simp

lemma unat_count_words: "map unat count_words = count_table"
  by simp

lemma unat_first_words: "map unat first_words = first_table"
  by simp

definition slot :: "nat \<Rightarrow> nat" where
  "slot s = start_table ! (LENGTHS ! s) + cnt s (LENGTHS ! s)"

lemma start_table_apart: "l < l' \<Longrightarrow> l' < 31 \<Longrightarrow> start_table ! l + count_table ! l \<le> start_table ! l'"
proof -
  assume l: "l < l'" "l' < 31"
  have "list_all (\<lambda>l. list_all (\<lambda>l'. start_table ! l + count_table ! l \<le> start_table ! l') [Suc l..<31]) [0..<31]"
    by code_simp
  with l show ?thesis unfolding list_all_iff set_upt Ball_def atLeastLessThan_iff by (meson Suc_leI le0 less_trans)
qed

lemma start_table_end: "l < 31 \<Longrightarrow> start_table ! l + count_table ! l \<le> 257"
proof -
  assume l: "l < 31"
  have "list_all (\<lambda>l. start_table ! l + count_table ! l \<le> 257) [0..<31]" by code_simp
  with l show ?thesis unfolding list_all_iff set_upt Ball_def atLeastLessThan_iff by blast
qed

lemma slot_range:
  assumes "s < 257"
  shows "slot s < start_table ! (LENGTHS ! s) + count_table ! (LENGTHS ! s)" and "slot s < 257"
proof -
  have l: "LENGTHS ! s < 31" using LENGTHS_range [OF assms] by simp
  show a: "slot s < start_table ! (LENGTHS ! s) + count_table ! (LENGTHS ! s)"
    using cnt_less [OF assms] cnt_table [OF l] by (simp only: slot_def) simp
  from this start_table_end [OF l] show "slot s < 257" by (rule less_le_trans)
qed

lemma slot_inj:
  assumes "s < 257" and "t < 257" and "s \<noteq> t"
  shows "slot s \<noteq> slot t"
  using assms
proof (induction s t rule: linorder_wlog)
  case (le s t)
  then have st: "s < t" by simp
  have l: "LENGTHS ! s < 31" "LENGTHS ! t < 31" using LENGTHS_range [OF le(2)] LENGTHS_range [OF le(3)] by simp_all
  consider "LENGTHS ! s = LENGTHS ! t" | "LENGTHS ! s < LENGTHS ! t" | "LENGTHS ! t < LENGTHS ! s" by linarith
  then show ?case
  proof cases
    case 1
    with cnt_less [OF st] le show ?thesis by (simp only: slot_def) simp
  next
    case 2
    from slot_range(1) [OF le(2)] start_table_apart [OF 2 l(2)] show ?thesis
      by (simp only: slot_def)
  next
    case 3
    from slot_range(1) [OF le(3)] start_table_apart [OF 3 l(1)] show ?thesis
      by (simp only: slot_def)
  qed
qed metis

definition assigned :: "nat \<Rightarrow> u32 list \<times> nat list \<times> u32 list \<times> nat list \<Rightarrow> bool" where
  "assigned n st \<longleftrightarrow> (case st of (nxt, fill, codes, symbols) \<Rightarrow>
     length nxt = 31 \<and> length fill = 31 \<and> length codes = 257 \<and> length symbols = 257 \<and>
     (\<forall>l < 31. nxt ! l = first_words ! l + of_nat (cnt n l) \<and> fill ! l = start_table ! l + cnt n l) \<and>
     (\<forall>s < n. codes ! s = first_words ! (LENGTHS ! s) + of_nat (cnt s (LENGTHS ! s)) \<and> symbols ! slot s = s))"

lemma assigned_step:
  assumes "assigned n st" and "n < 257"
  shows "assigned (Suc n) (assign_symbol st n)"
proof -
  obtain nxt fill codes symbols where st: "st = (nxt, fill, codes, symbols)" by (cases st)
  let ?l = "LENGTHS ! n"
  have l: "?l < 31" using LENGTHS_range [OF assms(2)] by simp
  from assms(1) have len: "length nxt = 31" "length fill = 31" "length codes = 257" "length symbols = 257"
    and tab: "\<And>l. l < 31 \<Longrightarrow> nxt ! l = first_words ! l + of_nat (cnt n l) \<and> fill ! l = start_table ! l + cnt n l"
    and old: "\<And>s. s < n \<Longrightarrow> codes ! s = first_words ! (LENGTHS ! s) + of_nat (cnt s (LENGTHS ! s)) \<and> symbols ! slot s = s"
    unfolding assigned_def st by auto
  have fill: "fill ! ?l = slot n" using tab [OF l] by (simp only: slot_def)
  have nxt: "nxt ! ?l = first_words ! ?l + of_nat (cnt n ?l)" using tab [OF l] by blast
  have tab': "nxt[?l := nxt ! ?l + 1] ! k = first_words ! k + of_nat (cnt (Suc n) k) \<and>
      fill[?l := fill ! ?l + 1] ! k = start_table ! k + cnt (Suc n) k" if "k < 31" for k
    using tab [OF that] len(1,2) that by (cases "k = ?l") (simp_all only: cnt_Suc [OF assms(2)] nth_list_update if_True if_False of_nat_add of_nat_1 add.assoc add_0_right, simp_all)
  have new: "codes[n := nxt ! ?l] ! s = first_words ! (LENGTHS ! s) + of_nat (cnt s (LENGTHS ! s)) \<and>
      symbols[fill ! ?l := n] ! slot s = s" if "s < Suc n" for s
  proof (cases "s = n")
    case True
    then show ?thesis using nxt fill len(3,4) assms(2) slot_range(2) [OF assms(2)] by (simp only: nth_list_update_eq)
  next
    case False
    then have "s < n" using that by simp
    moreover have "slot n \<noteq> slot s" using slot_inj [of n s] False \<open>s < n\<close> assms(2) by simp
    ultimately show ?thesis using old [of s] False fill by (metis nth_list_update_neq)
  qed
  show ?thesis
    unfolding st assigned_def assign_symbol.simps Let_def prod.case
    using len tab' new by (simp only: length_list_update) blast
qed

lemma assigned_upto: "n \<le> 257 \<Longrightarrow> assigned n (foldl assign_symbol (first_words, start_table, replicate 257 0, replicate 257 0) [0..<n])"
proof (induction n)
  case 0
  show ?case by (simp only: assigned_def upt_0 foldl_Nil prod.case) simp
next
  case (Suc n)
  then show ?case using assigned_step [of n] by simp
qed


lemma assigned_all: "assigned 257 (assign_codes first_words start_table)"
  unfolding assign_codes_def using assigned_upto [of 257] by (simp only: order_refl)

lemma length_first_words: "length first_words = 31"
  by simp

lemma unat_first_nth: "l < 31 \<Longrightarrow> unat (first_words ! l) = first_table ! l"
  using unat_first_words nth_map [of l first_words unat] by (simp only:) simp

lemma unat_count_nth: "l < 31 \<Longrightarrow> unat (count_words ! l) = count_table ! l"
  using unat_count_words nth_map [of l count_words unat] by (simp only:) simp

text \<open>The tables are those of a complete canonical code: each length starts where the shorter ones leave off.\<close>

lemma first_table_Suc: "l < 30 \<Longrightarrow> first_table ! Suc l = 2 * (first_table ! l + count_table ! l)"
proof -
  assume l: "l < 30"
  have "list_all (\<lambda>l. first_table ! Suc l = 2 * (first_table ! l + count_table ! l)) [0..<30]" by (simp add: upt_rec)
  with l show ?thesis unfolding list_all_iff set_upt Ball_def atLeastLessThan_iff by blast
qed

lemma first_table_bound: "l < 31 \<Longrightarrow> first_table ! l + count_table ! l \<le> 2 ^ l"
proof -
  assume l: "l < 31"
  have "list_all (\<lambda>l. first_table ! l + count_table ! l \<le> 2 ^ l) [0..<31]" by (simp add: upt_rec)
  with l show ?thesis unfolding list_all_iff set_upt Ball_def atLeastLessThan_iff by blast
qed

definition code_of :: "nat \<Rightarrow> nat" where
  "code_of s = first_table ! (LENGTHS ! s) + cnt s (LENGTHS ! s)"

lemma code_of_range:
  assumes "s < 257"
  shows "code_of s < first_table ! (LENGTHS ! s) + count_table ! (LENGTHS ! s)"
    and "first_table ! (LENGTHS ! s) \<le> code_of s"
    and "code_of s < 2 ^ (LENGTHS ! s)"
proof -
  have l: "LENGTHS ! s < 31" using LENGTHS_range [OF assms] by simp
  show a: "code_of s < first_table ! (LENGTHS ! s) + count_table ! (LENGTHS ! s)"
    using cnt_less [OF assms] cnt_table [OF l] by (simp only: code_of_def) simp
  show "first_table ! (LENGTHS ! s) \<le> code_of s" by (simp only: code_of_def)
  from a first_table_bound [OF l] show "code_of s < 2 ^ (LENGTHS ! s)" by (rule less_le_trans)
qed

lemma unat_code:
  assumes "s < 257"
  shows "unat (first_words ! (LENGTHS ! s) + of_nat (cnt s (LENGTHS ! s)) :: u32) = code_of s"
proof -
  have l: "LENGTHS ! s < 31" using LENGTHS_range [OF assms] by simp
  have b: "code_of s < 2 ^ 32"
    using code_of_range(3) [OF assms] power_increasing [of "LENGTHS ! s" 32 "2::nat"] l by linarith
  have c: "cnt s (LENGTHS ! s) < 2 ^ 32" using b by (simp only: code_of_def)
  have "unat (of_nat (cnt s (LENGTHS ! s)) :: u32) = cnt s (LENGTHS ! s)"
    using c by (simp only: unat_of_nat len_num0 len_num1 len_bit0 len_bit1) simp
  then have "unat (first_words ! (LENGTHS ! s)) + unat (of_nat (cnt s (LENGTHS ! s)) :: u32) = code_of s"
    using unat_first_nth [OF l] by (simp only: code_of_def)
  with b show ?thesis by (simp only: unat_word_ariths(1)) simp
qed


lemma EOS_length: "LENGTHS ! 256 = 30"
  by (simp add: LENGTHS_def)

lemma EOS_cnt: "cnt 256 30 = 3"
  unfolding cnt_def by code_simp

lemma canonical_eq:
  "\<exists>codes symbols. canonical = Some \<lparr>hc_codes = codes, hc_first = first_words, hc_count = count_words,
       hc_start = start_table, hc_symbols = symbols\<rparr> \<and>
     length codes = 257 \<and> length symbols = 257 \<and>
     (\<forall>s < 257. unat (codes ! s) = code_of s \<and> symbols ! slot s = s)"
proof -
  obtain nxt fill codes symbols where ac: "assign_codes first_words start_table = (nxt, fill, codes, symbols)"
    by (cases "assign_codes first_words start_table")
  note inv = assigned_all [unfolded ac assigned_def prod.case]
  then have len: "length codes = 257" "length symbols = 257" by blast+
  from inv have tab: "\<And>s. s < 257 \<Longrightarrow> codes ! s = first_words ! (LENGTHS ! s) + of_nat (cnt s (LENGTHS ! s)) \<and> symbols ! slot s = s"
    by blast
  have all: "unat (codes ! s) = code_of s \<and> symbols ! slot s = s" if "s < 257" for s
    using tab [OF that] unat_code [OF that] by (simp only: simp_thms)
  have "codes ! EOS = push_bit 30 1 - 1"
    using tab [of EOS] by (simp add: EOS_def EOS_length EOS_cnt)
  then have "canonical = Some \<lparr>hc_codes = codes, hc_first = first_words, hc_count = count_words,
       hc_start = start_table, hc_symbols = symbols\<rparr>"
    unfolding canonical_def Let_def count_lengths_eq first_codes_eq prod.case ac by simp
  with all len show ?thesis by blast
qed

lemma CODE_fields:
  shows "hc_first CODE = first_words" and "hc_count CODE = count_words" and "hc_start CODE = start_table"
    and "length (hc_symbols CODE) = 257" and "length (hc_codes CODE) = 257"
    and "s < 257 \<Longrightarrow> unat (hc_codes CODE ! s) = code_of s"
    and "s < 257 \<Longrightarrow> hc_symbols CODE ! slot s = s"
proof -
  obtain codes symbols where c: "canonical = Some \<lparr>hc_codes = codes, hc_first = first_words, hc_count = count_words,
       hc_start = start_table, hc_symbols = symbols\<rparr>" and f: "length codes = 257" "length symbols = 257"
     "\<And>s. s < 257 \<Longrightarrow> unat (codes ! s) = code_of s" "\<And>s. s < 257 \<Longrightarrow> symbols ! slot s = s"
    using canonical_eq by blast
  have C: "CODE = \<lparr>hc_codes = codes, hc_first = first_words, hc_count = count_words,
       hc_start = start_table, hc_symbols = symbols\<rparr>" unfolding CODE_def c option.sel ..
  show "hc_first CODE = first_words" "hc_count CODE = count_words" "hc_start CODE = start_table"
    "length (hc_symbols CODE) = 257" "length (hc_codes CODE) = 257"
    "s < 257 \<Longrightarrow> unat (hc_codes CODE ! s) = code_of s" "s < 257 \<Longrightarrow> hc_symbols CODE ! slot s = s"
    unfolding C by (simp_all only: huffman_code.select_convs f)
qed

subsection \<open>Bit strings\<close>

text \<open>The low \<open>n\<close> bits of a number, most significant first.\<close>

primrec nb :: "nat \<Rightarrow> nat \<Rightarrow> bool list" where
  "nb 0 x = []"
| "nb (Suc n) x = nb n (x div 2) @ [odd x]"

lemma length_nb [simp]: "length (nb n x) = n"
  by (induction n arbitrary: x) auto

lemma nb_add: "nb (m + n) x = nb m (x div 2 ^ n) @ nb n x"
  by (induction n arbitrary: x) (simp_all add: div_mult2_eq)

lemma nb_mod: "m \<le> n \<Longrightarrow> nb m (x mod 2 ^ n) = nb m x"
proof (induction m arbitrary: x n)
  case (Suc m)
  then obtain k where n: "n = Suc k" by (cases n) auto
  have "x mod 2 ^ n div 2 = x div 2 mod 2 ^ k"
    unfolding n power_Suc by (simp add: mod_mult2_eq)
  moreover have "odd (x mod 2 ^ n) = odd x"
    unfolding n by (simp add: dvd_mod_iff)
  ultimately show ?case using Suc by (simp add: n)
qed simp

lemma nb_inj: "nb n x = nb n y \<Longrightarrow> x < 2 ^ n \<Longrightarrow> y < 2 ^ n \<Longrightarrow> x = y"
proof (induction n arbitrary: x y)
  case (Suc n)
  then have "x div 2 = y div 2" by (intro Suc.IH) auto
  moreover have "odd x = odd y" using Suc.prems(1) by simp
  ultimately show ?case by (metis odd_two_times_div_two_succ even_two_times_div_two)
qed simp

lemma nb_ones: "nb n (2 ^ n - 1) = replicate n True"
proof (induction n)
  case (Suc n)
  have "(2 ^ Suc n - 1) div 2 = (2::nat) ^ n - 1" by (induction n) auto
  moreover have "odd ((2::nat) ^ Suc n - 1)" by simp
  ultimately show ?case using Suc by (simp add: replicate_append_same del: power_Suc)
qed simp

definition stream_bits :: "bytes \<Rightarrow> bool list" where
  "stream_bits bs = concat (map (\<lambda>b. nb 8 (unat b)) bs)"

lemma stream_bits_simps [simp]:
  "stream_bits [] = []" "stream_bits (b # bs) = nb 8 (unat b) @ stream_bits bs"
  "stream_bits (bs @ cs) = stream_bits bs @ stream_bits cs"
  by (simp_all add: stream_bits_def)

lemma length_stream_bits [simp]: "length (stream_bits bs) = 8 * length bs"
  by (induction bs) auto

lemma stream_bits_inj: "stream_bits bs = stream_bits cs \<Longrightarrow> bs = cs"
proof (induction bs arbitrary: cs)
  case Nil
  then have "length (stream_bits cs) = 0" by (metis list.size(3) stream_bits_simps(1))
  then show ?case by simp
next
  case (Cons b bs)
  have "length (stream_bits cs) = length (stream_bits (b # bs))" using Cons.prems by (simp only:)
  then obtain c cs' where cs: "cs = c # cs'" by (cases cs) auto
  have "nb 8 (unat b) @ stream_bits bs = nb 8 (unat c) @ stream_bits cs'"
    using Cons.prems by (simp only: cs stream_bits_simps)
  then have e: "nb 8 (unat b) = nb 8 (unat c)" "stream_bits bs = stream_bits cs'"
    by (simp_all only: append_eq_append_conv length_nb simp_thms)
  have "unat b < 2 ^ 8" "unat c < 2 ^ 8" by simp_all
  then have "unat b = unat c" using nb_inj [OF e(1)] by simp
  then show ?case using Cons.IH [OF e(2)] by (simp add: cs word_unat_eq_iff)
qed

text \<open>The code of a symbol and of a byte string, as bits.\<close>

definition code_bits :: "nat \<Rightarrow> bool list" where
  "code_bits s = nb (LENGTHS ! s) (code_of s)"

definition text_bits :: "bytes \<Rightarrow> bool list" where
  "text_bits bs = concat (map (\<lambda>b. code_bits (unat b)) bs)"

lemma text_bits_simps [simp]:
  "text_bits [] = []" "text_bits (b # bs) = code_bits (unat b) @ text_bits bs"
  "text_bits (bs @ cs) = text_bits bs @ text_bits cs"
  by (simp_all add: text_bits_def)

lemma length_text_bits: "length (text_bits bs) = sum_list (map (\<lambda>b. LENGTHS ! unat b) bs)"
  by (induction bs) (auto simp: code_bits_def)


subsection \<open>The decoder\<close>

fun hrun :: "hstate \<Rightarrow> bool list \<Rightarrow> (invalid + hstate) option" where
  "hrun st [] = Some (Inr st)"
| "hrun st (b # bs) =
     (case huffman_bit st (of_bool b) of
        Some (Inr st') \<Rightarrow> hrun st' bs
      | other \<Rightarrow> other)"

lemma hrun_append:
  "hrun st (bs @ cs) = (case hrun st bs of Some (Inr st') \<Rightarrow> hrun st' cs | other \<Rightarrow> other)"
  by (induction bs arbitrary: st) (auto split: option.splits sum.splits)

lemma shift_bit: "ucast (drop_bit i byte AND 1 :: u8) = (of_bool (odd (unat byte div 2 ^ i)) :: u32)"
proof -
  have "drop_bit i byte AND 1 = (of_bool (bit byte i) :: u8)"
    by (simp add: and_one_eq odd_iff_mod_2_eq_one bit_iff_odd_drop_bit)
  moreover have "bit byte i = odd (unat byte div 2 ^ i)"
    using bit_unsigned_iff [of byte i, where 'a = nat] by (simp add: bit_iff_odd [of "unat byte"])
  ultimately show ?thesis by simp
qed

lemma huffman_shifts_run: "huffman_shifts st byte [7, 6, 5, 4, 3, 2, 1, 0] = hrun st (nb 8 (unat byte))"
proof -
  have "nb (Suc n) x = odd (x div 2 ^ n) # nb n x" for n and x :: nat
    by (induction n arbitrary: x) (simp_all add: div_mult2_eq)
  then have "nb (Suc (Suc (Suc (Suc (Suc (Suc (Suc (Suc 0)))))))) x = map (\<lambda>i. odd (x div 2 ^ i)) [7, 6, 5, 4, 3, 2, 1, 0]" for x :: nat
    by (simp only: nb.simps(1) list.map) simp
  then have "nb 8 x = map (\<lambda>i. odd (x div 2 ^ i)) [7, 6, 5, 4, 3, 2, 1, 0]" for x :: nat
    by (simp only: numeral_nat)
  moreover have "huffman_shifts st byte is = hrun st (map (\<lambda>i. odd (unat byte div 2 ^ i)) is)" for "is"
    by (induction "is" arbitrary: st) (simp_all add: shift_bit split: option.splits sum.splits)
  ultimately show ?thesis by (simp only:)
qed

lemma huffman_bytes_run: "huffman_bytes st bs = hrun st (stream_bits bs)"
proof (induction bs arbitrary: st)
  case (Cons b bs)
  show ?case
    unfolding huffman_bytes.simps huffman_shifts_run stream_bits_simps hrun_append Cons.IH ..
qed simp

text \<open>Between two symbols of the input the decoder holds a bit string that no code has as a prefix or is.\<close>

definition open_code :: "nat \<Rightarrow> nat \<Rightarrow> bool" where
  "open_code len c \<longleftrightarrow> len \<le> 29 \<and> c < 2 ^ len \<and> first_table ! len + count_table ! len \<le> c"

lemma open_code_start: "open_code 0 0"
  by (simp add: open_code_def)

lemma slot_of_code:
  assumes "l < 31" and "first_table ! l \<le> c" and "c < first_table ! l + count_table ! l"
  shows "\<exists>s < 257. LENGTHS ! s = l \<and> code_of s = c \<and> slot s = start_table ! l + (c - first_table ! l)"
proof -
  have "c - first_table ! l < cnt 257 l" using assms cnt_table [OF assms(1)] by linarith
  then obtain s where s: "s < 257" "LENGTHS ! s = l" "cnt s l = c - first_table ! l" using cnt_index by blast
  then have "code_of s = c" "slot s = start_table ! l + (c - first_table ! l)"
    using assms(2) by (simp_all only: code_of_def slot_def le_add_diff_inverse)
  with s show ?thesis by blast
qed

text \<open>One bit either completes the code of a symbol or leaves the decoder inside a code.\<close>

lemma huffman_bit_cases:
  fixes code :: u32 and b :: bool
  assumes "open_code len (unat code)"
  defines "c \<equiv> 2 * unat code + of_bool b"
  obtains (symbol) s where "s < 257" "LENGTHS ! s = Suc len" "code_of s = c"
      "huffman_bit (code, len, out) (of_bool b) =
         (if s = EOS then Some (Inl Qpack) else Some (Inr (0, 0, out @ [of_nat s])))"
  | (inside) code' where "unat code' = c" "open_code (Suc len) c"
      "huffman_bit (code, len, out) (of_bool b) = Some (Inr (code', Suc len, out))"
proof -
  have len: "len \<le> 29" and lt: "unat code < 2 ^ len" and ge: "first_table ! len + count_table ! len \<le> unat code"
    using assms(1) by (simp_all only: open_code_def)
  have cl: "c < 2 ^ Suc len" using lt by (simp add: c_def)
  have "(2::nat) ^ Suc len \<le> 2 ^ 30" using len by (intro power_increasing) auto
  then have c30: "c < 2 ^ 30" using cl by linarith
  define code' :: u32 where "code' = push_bit 1 code OR of_bool b"
  have code': "unat code' = c"
  proof -
    have "unat (push_bit 1 code) = 2 * unat code"
      unfolding unat_push using c30 by (simp add: c_def)
    then show ?thesis
      unfolding code'_def c_def unat_or using nat_or_add [of "of_bool b" 1 "unat code"] by (cases b) (simp_all add: mult.commute or.commute)
  qed
  have l31: "Suc len < 31" using len by simp
  have F: "first_table ! Suc len \<le> c"
  proof -
    have "first_table ! Suc len = 2 * (first_table ! len + count_table ! len)"
      by (rule first_table_Suc) (use len in simp)
    also have "\<dots> \<le> 2 * unat code" by (rule mult_le_mono2 [OF ge])
    also have "\<dots> \<le> c" by (simp add: c_def)
    finally show ?thesis .
  qed
  have idx: "unat (code' - first_words ! Suc len) = c - first_table ! Suc len"
    using F code' unat_first_nth [OF l31] by (simp only: unat_sub word_le_nat_alt)
  have lt_iff: "code' - first_words ! Suc len < count_words ! Suc len \<longleftrightarrow> c < first_table ! Suc len + count_table ! Suc len"
    using F by (simp only: word_less_nat_alt idx unat_count_nth [OF l31]) linarith
  have step: "huffman_bit (code, len, out) (of_bool b) =
      (if c < first_table ! Suc len + count_table ! Suc len
       then if start_table ! Suc len + (c - first_table ! Suc len) \<ge> 257 then None
            else let symbol = hc_symbols CODE ! (start_table ! Suc len + (c - first_table ! Suc len))
                 in if symbol = EOS then Some (Inl Qpack) else Some (Inr (0, 0, out @ [of_nat symbol]))
       else Some (Inr (code', Suc len, out)))"
    unfolding huffman_bit.simps Let_def code'_def [symmetric] CODE_fields(1-4) Suc_eq_plus1 [symmetric] lt_iff idx
    using l31 by (simp only: length_first_words not_le [symmetric] if_True if_False)
  show thesis
  proof (cases "c < first_table ! Suc len + count_table ! Suc len")
    case True
    obtain s where s: "s < 257" "LENGTHS ! s = Suc len" "code_of s = c"
      "slot s = start_table ! Suc len + (c - first_table ! Suc len)"
      using slot_of_code [OF l31 F True] by blast
    have "\<not> 257 \<le> slot s" using slot_range(2) [OF s(1)] by simp
    then show thesis
      using symbol [OF s(1-3)] CODE_fields(7) [OF s(1)] True by (simp only: step s(4) [symmetric] Let_def if_True if_False simp_thms)
  next
    case False
    have "Suc len \<noteq> 30"
    proof
      assume "Suc len = 30"
      then show False using False c30 by simp
    qed
    then have "open_code (Suc len) c" using len cl False by (simp only: open_code_def) simp
    then show thesis using inside [OF code'] False by (simp only: step if_False simp_thms)
  qed
qed


lemma nb_snoc: "nb (Suc n) (2 * c + of_bool b) = nb n c @ [b]"
  by (cases b) simp_all

text \<open>What the decoder has read is the code of its output followed by the bits it holds; it never panics.\<close>

lemma hrun_sound:
  assumes "open_code len (unat code)"
  shows "hrun (code, len, out) bits = Some (Inl Qpack) \<or>
    (\<exists>code' len' t. hrun (code, len, out) bits = Some (Inr (code', len', out @ t)) \<and>
       open_code len' (unat code') \<and> nb len (unat code) @ bits = text_bits t @ nb len' (unat code'))"
  using assms
proof (induction bits arbitrary: code len out)
  case Nil
  then show ?case by (intro disjI2 exI [of _ code] exI [of _ len] exI [of _ "[]"]) simp
next
  case (Cons b bits)
  from Cons.prems show ?case
  proof (cases rule: huffman_bit_cases [where b = b and out = out])
    case (symbol s)
    show ?thesis
    proof (cases "s = EOS")
      case True
      then show ?thesis using symbol(4) by (simp only: hrun.simps if_True option.case sum.case simp_thms)
    next
      case False
      have s: "s < 256" using symbol(1) False by (simp add: EOS_def)
      then have u: "unat (of_nat s :: u8) = s" by (intro unat_of_small) simp
      have step: "hrun (code, len, out) (b # bits) = hrun (0, 0, out @ [of_nat s]) bits"
        using symbol(4) False by simp
      have cb: "nb len (unat code) @ [b] = code_bits s"
        by (simp only: code_bits_def symbol(2,3) nb_snoc)
      have o: "open_code 0 (unat (0 :: u32))" using open_code_start by (simp only: unat_0)
      show ?thesis
      proof (cases "hrun (0, 0, out @ [of_nat s]) bits = Some (Inl Qpack)")
        case True
        then show ?thesis using step by simp
      next
        case False
        then obtain code' len' t where r: "hrun (0, 0, out @ [of_nat s]) bits = Some (Inr (code', len', (out @ [of_nat s]) @ t))"
          "open_code len' (unat code')" "bits = text_bits t @ nb len' (unat code')"
          using Cons.IH [OF o, of "out @ [of_nat s]"] by (simp only: nb.simps append_Nil simp_thms) blast
        have "nb len (unat code) @ b # bits = text_bits (of_nat s # t) @ nb len' (unat code')"
          using cb r(3) u by (metis append.assoc append_Cons append_Nil text_bits_simps(2))
        then show ?thesis using r(1,2) step
          by (intro disjI2 exI [of _ code'] exI [of _ len'] exI [of _ "of_nat s # t"]) simp
      qed
    qed
  next
    case (inside code')
    have "nb (Suc len) (unat code') @ bits = nb len (unat code) @ b # bits"
      by (simp only: inside(1) nb_snoc append_assoc append_Cons append_Nil)
    moreover have "hrun (code, len, out) (b # bits) = hrun (code', Suc len, out) bits" using inside(3) by simp
    moreover have "open_code (Suc len) (unat code')" using inside(1,2) by (simp only:)
    ultimately show ?thesis using Cons.IH [of "Suc len" code' out] by (simp only:)
  qed
qed

text \<open>A proper prefix of a code is no code, so the decoder runs to the end of it.\<close>

lemma half_code:
  assumes "k < L" and "L < 31" and "first_table ! (L - k) \<le> c div 2 ^ k"
  shows "first_table ! (L - Suc k) + count_table ! (L - Suc k) \<le> c div 2 ^ Suc k"
proof -
  have eq: "L - k = Suc (L - Suc k)" and lt: "L - Suc k < 30" using assms(1,2) by simp_all
  have "2 * (first_table ! (L - Suc k) + count_table ! (L - Suc k)) \<le> c div 2 ^ k"
    using assms(3) first_table_Suc [OF lt] by (simp only: eq)
  then have "(2 * (first_table ! (L - Suc k) + count_table ! (L - Suc k))) div 2 \<le> c div 2 ^ k div 2"
    by (rule div_le_mono)
  then show ?thesis by (simp only: div_mult2_eq [symmetric] power_Suc2 nonzero_mult_div_cancel_left)
qed

lemma prefix_open:
  assumes "s < 257" and "i < LENGTHS ! s"
  shows "open_code i (code_of s div 2 ^ (LENGTHS ! s - i))"
proof -
  let ?L = "LENGTHS ! s"
  have L: "?L < 31" using LENGTHS_range [OF assms(1)] by simp
  have low: "k < ?L \<Longrightarrow> first_table ! (?L - k) \<le> code_of s div 2 ^ k" for k
  proof (induction k)
    case 0
    show ?case using code_of_range(2) [OF assms(1)] by (simp only: diff_zero power_0 div_by_1)
  next
    case (Suc k)
    then show ?case using half_code [OF _ L, of k "code_of s"] by (meson Suc_lessD add_leD1)
  qed
  have "first_table ! i + count_table ! i \<le> code_of s div 2 ^ (?L - i)"
    using half_code [OF _ L low, of "?L - Suc i"] assms(2) by (simp only: Suc_diff_Suc diff_diff_cancel less_imp_le)
  moreover have "code_of s div 2 ^ (?L - i) < 2 ^ i"
  proof -
    have "code_of s < 2 ^ i * 2 ^ (?L - i)"
      using code_of_range(3) [OF assms(1)] assms(2) by (simp only: power_add [symmetric] le_add_diff_inverse less_imp_le)
    then show ?thesis by (rule less_mult_imp_div_less)
  qed
  ultimately show ?thesis using assms(2) L by (simp only: open_code_def) simp
qed

lemma open_code_no_symbol:
  assumes "open_code l c" and "s < 257" and "LENGTHS ! s = l"
  shows "code_of s \<noteq> c"
proof
  assume c: "code_of s = c"
  have "code_of s < first_table ! l + count_table ! l" using code_of_range(1) [OF assms(2)] by (simp only: assms(3))
  moreover have "first_table ! l + count_table ! l \<le> code_of s" using assms(1) by (simp only: open_code_def c)
  ultimately show False by (meson not_le)
qed

lemma hrun_prefix:
  assumes "s < 257" and "i < LENGTHS ! s"
  shows "\<exists>code. hrun (0, 0, out) (nb i (code_of s div 2 ^ (LENGTHS ! s - i))) = Some (Inr (code, i, out)) \<and>
     unat code = code_of s div 2 ^ (LENGTHS ! s - i)"
  using assms(2)
proof (induction i)
  case 0
  have "code_of s div 2 ^ (LENGTHS ! s - 0) = 0" using code_of_range(3) [OF assms(1)] by simp
  then show ?case by (intro exI [of _ 0]) (simp only: nb.simps hrun.simps unat_0 simp_thms)
next
  case (Suc i)
  let ?c = "\<lambda>i. code_of s div 2 ^ (LENGTHS ! s - i)"
  have "?c i = ?c (Suc i) div 2"
    using Suc.prems by (simp add: div_mult2_eq [symmetric] Suc_diff_Suc flip: power_Suc2)
  then have c: "?c (Suc i) = 2 * ?c i + of_bool (odd (?c (Suc i)))" by (simp add: odd_two_times_div_two_succ)
  from Suc obtain code where r: "hrun (0, 0, out) (nb i (?c i)) = Some (Inr (code, i, out))" "unat code = ?c i" by auto
  have bits: "nb (Suc i) (?c (Suc i)) = nb i (?c i) @ [odd (?c (Suc i))]" by (subst c) (rule nb_snoc)
  have op: "open_code i (unat code)" using prefix_open [OF assms(1), of i] Suc.prems r(2) by simp
  from op show ?case
  proof (cases rule: huffman_bit_cases [where b = "odd (?c (Suc i))" and out = out])
    case (symbol t)
    have "code_of t = ?c (Suc i)" using symbol(3) r(2) c by (simp only:)
    then show ?thesis
      using open_code_no_symbol [OF prefix_open [OF assms(1) Suc.prems] symbol(1,2)] by blast
  next
    case (inside code')
    have "unat code' = ?c (Suc i)" using inside(1) r(2) c by (simp only:)
    then show ?thesis using r(1) inside(3)
      by (intro exI [of _ code']) (simp only: bits hrun_append option.case sum.case hrun.simps simp_thms)
  qed
qed


lemma code_of_inj:
  assumes "s < 257" and "t < 257" and "LENGTHS ! t = LENGTHS ! s" and "code_of t = code_of s"
  shows "t = s"
proof (rule ccontr)
  assume "t \<noteq> s"
  then have "slot t \<noteq> slot s" using slot_inj assms(1,2) by blast
  moreover have "cnt t (LENGTHS ! s) = cnt s (LENGTHS ! s)"
    using assms(4) by (simp only: code_of_def assms(3) add_left_cancel)
  ultimately show False by (simp only: slot_def assms(3))
qed

lemma hrun_symbol:
  assumes "s < 256"
  shows "hrun (0, 0, out) (code_bits s @ rest) = hrun (0, 0, out @ [of_nat s]) rest"
proof -
  have s: "s < 257" using assms by simp
  obtain i where i: "LENGTHS ! s = Suc i" using LENGTHS_range [OF s] by (cases "LENGTHS ! s") auto
  have c: "code_of s = 2 * (code_of s div 2) + of_bool (odd (code_of s))" by (simp add: odd_two_times_div_two_succ)
  have lt: "i < LENGTHS ! s" using i by simp
  have d: "code_of s div 2 ^ (LENGTHS ! s - i) = code_of s div 2" using i by simp
  obtain code where r: "hrun (0, 0, out) (nb i (code_of s div 2)) = Some (Inr (code, i, out))"
    "unat code = code_of s div 2" using hrun_prefix [OF s lt, of out] by (simp only: d) blast
  have op: "open_code i (unat code)" using prefix_open [OF s lt] by (simp only: d r(2))
  have bits: "code_bits s = nb i (code_of s div 2) @ [odd (code_of s)]" by (simp add: code_bits_def i)
  from op show ?thesis
  proof (cases rule: huffman_bit_cases [where b = "odd (code_of s)" and out = out])
    case (symbol t)
    have "t = s" using code_of_inj [OF s symbol(1)] symbol(2,3) i c r(2) by (simp only:)
    then have "huffman_bit (code, i, out) (of_bool (odd (code_of s))) = Some (Inr (0, 0, out @ [of_nat s]))"
      using symbol(4) assms by (simp add: EOS_def)
    then show ?thesis using r(1) by (simp add: bits hrun_append)
  next
    case (inside code')
    then have "open_code (LENGTHS ! s) (code_of s)" using c r(2) i by (simp only:)
    then show ?thesis using open_code_no_symbol [OF _ s refl] by blast
  qed
qed

lemma hrun_text: "hrun (0, 0, out) (text_bits t @ rest) = hrun (0, 0, out @ t) rest"
proof (induction t arbitrary: out)
  case (Cons b t)
  have "hrun (0, 0, out) (text_bits (b # t) @ rest) = hrun (0, 0, out @ [of_nat (unat b)]) (text_bits t @ rest)"
    using hrun_symbol [OF unat_lt8, of out b] by simp
  also have "\<dots> = hrun (0, 0, (out @ [b]) @ t) rest" using Cons.IH by simp
  finally show ?case by simp
qed simp

lemma code_of_EOS: "code_of 256 = 1073741823"
  by (simp add: code_of_def EOS_length EOS_cnt)

lemma hrun_padding:
  assumes "k < 8"
  shows "\<exists>code. hrun (0, 0, out) (replicate k True) = Some (Inr (code, k, out)) \<and> unat code = 2 ^ k - 1"
proof -
  have "k < LENGTHS ! 256" using assms by (simp add: EOS_length)
  moreover have "code_of 256 div 2 ^ (LENGTHS ! 256 - k) = 2 ^ k - 1"
  proof -
    consider "k = 0" | "k = 1" | "k = 2" | "k = 3" | "k = 4" | "k = 5" | "k = 6" | "k = 7" using assms by linarith
    then show ?thesis by cases (simp_all add: code_of_EOS EOS_length)
  qed
  ultimately show ?thesis using hrun_prefix [of 256 k out] nb_ones [of k] by simp
qed

lemma unat_ones: "k < 8 \<Longrightarrow> unat (push_bit k 1 - 1 :: u32) = 2 ^ k - 1"
proof -
  assume "k < 8"
  then consider "k = 0" | "k = 1" | "k = 2" | "k = 3" | "k = 4" | "k = 5" | "k = 6" | "k = 7" by linarith
  then show ?thesis by cases simp_all
qed

lemma decode_padded:
  assumes "stream_bits bs = text_bits t @ replicate k True" and "k < 8"
  shows "huffman_decode bs out = Some (Inr (out @ t))"
proof -
  obtain code where r: "hrun (0, 0, out @ t) (replicate k True) = Some (Inr (code, k, out @ t))"
    and u: "unat code = 2 ^ k - 1" using hrun_padding [OF assms(2)] by blast
  have "huffman_bytes (0, 0, out) bs = Some (Inr (code, k, out @ t))"
    by (simp only: huffman_bytes_run assms(1) hrun_text r)
  moreover have "code = push_bit k 1 - 1" using u unat_ones [OF assms(2)] by (simp only: word_unat_eq_iff)
  ultimately show ?thesis using assms(2) by (simp add: huffman_decode_def)
qed

lemma decode_sound:
  "huffman_decode bs out = Some (Inl Qpack) \<or>
   (\<exists>t k. huffman_decode bs out = Some (Inr (out @ t)) \<and> k < 8 \<and> stream_bits bs = text_bits t @ replicate k True)"
proof -
  have o: "open_code 0 (unat (0 :: u32))" using open_code_start by (simp only: unat_0)
  consider "hrun (0, 0, out) (stream_bits bs) = Some (Inl Qpack)"
    | code' len' t where "hrun (0, 0, out) (stream_bits bs) = Some (Inr (code', len', out @ t))"
        "stream_bits bs = text_bits t @ nb len' (unat code')"
    using hrun_sound [OF o, of out "stream_bits bs", unfolded nb.simps append_Nil] by blast
  then show ?thesis
  proof cases
    case 1
    then show ?thesis by (simp add: huffman_decode_def huffman_bytes_run)
  next
    case (2 code' len' t)
    show ?thesis
    proof (cases "len' > 7 \<or> code' \<noteq> push_bit len' 1 - 1")
      case True
      then show ?thesis using 2(1) by (simp add: huffman_decode_def huffman_bytes_run)
    next
      case False
      then have k: "len' < 8" and c: "code' = push_bit len' 1 - 1" by simp_all
      have "stream_bits bs = text_bits t @ replicate len' True"
        using 2(2) unat_ones [OF k] nb_ones by (simp only: c)
      with k decode_padded [OF this k] show ?thesis by blast
    qed
  qed
qed


subsection \<open>The encoder\<close>

lemma byte_bits: "nb 8 (unat (ucast (w :: u64) :: u8)) = nb 8 (unat w)"
  using nb_mod [of 8 8 "unat w"] by (simp add: unat_cast)

lemma flush_bits:
  "huffman_flush bits pending output = (pending', output') \<Longrightarrow>
     pending' < 8 \<and> (\<exists>added. output' = output @ added \<and>
       stream_bits added @ nb pending' (unat bits) = nb pending (unat bits))"
proof (induction bits pending "output" rule: huffman_flush.induct)
  case (1 bits pending "output")
  show ?case
  proof (cases "pending \<ge> 8")
    case True
    let ?b = "ucast (drop_bit (pending - 8) bits) :: u8"
    from True 1(2) have "huffman_flush bits (pending - 8) (output @ [?b]) = (pending', output')"
      by (simp add: huffman_flush.simps [of bits pending])
    from 1(1) [OF True this] obtain added where a: "pending' < 8" "output' = (output @ [?b]) @ added"
      "stream_bits added @ nb pending' (unat bits) = nb (pending - 8) (unat bits)" by blast
    have "nb 8 (unat ?b) = nb 8 (unat bits div 2 ^ (pending - 8))" by (simp only: byte_bits unat_drop)
    then have "stream_bits (?b # added) @ nb pending' (unat bits) = nb pending (unat bits)"
      using a(3) nb_add [of 8 "pending - 8" "unat bits"] True by simp
    then show ?thesis using a(1,2) by (intro conjI exI [of _ "?b # added"]) simp_all
  next
    case False
    then show ?thesis using 1(2) by (simp add: huffman_flush.simps [of bits pending])
  qed
qed

text \<open>The encoder has written, or still holds in its accumulator, the codes of what it was given.\<close>

definition encoder_state :: "bytes \<Rightarrow> bytes \<Rightarrow> u64 \<times> nat \<times> bytes \<Rightarrow> bool" where
  "encoder_state output t st \<longleftrightarrow> (case st of (bits, pending, written) \<Rightarrow>
     pending < 8 \<and> unat bits < 2 ^ pending \<and>
     (\<exists>added. written = output @ added \<and> stream_bits added @ nb pending (unat bits) = text_bits t))"

lemma push_code:
  assumes "unat (bits :: u64) < 2 ^ pending" and "pending < 8" and "s < 257"
  shows "unat (push_bit (LENGTHS ! s) bits OR ucast (hc_codes CODE ! s)) = unat bits * 2 ^ (LENGTHS ! s) + code_of s"
proof -
  let ?L = "LENGTHS ! s"
  have L: "?L \<le> 30" using LENGTHS_range [OF assms(3)] by simp
  have "unat bits * 2 ^ ?L < 2 ^ pending * 2 ^ ?L" using assms(1) by simp
  also have "\<dots> \<le> 2 ^ 64" unfolding power_add [symmetric] using L assms(2) by (intro power_increasing) auto
  finally have a: "unat (push_bit ?L bits) = unat bits * 2 ^ ?L" by (simp add: unat_push)
  have c: "code_of s < 2 ^ ?L" by (rule code_of_range(3) [OF assms(3)])
  also have "(2::nat) ^ ?L \<le> 2 ^ 64" using L by (intro power_increasing) auto
  finally have "unat (ucast (hc_codes CODE ! s) :: u64) = code_of s" by (simp add: unat_cast CODE_fields(6) [OF assms(3)])
  then show ?thesis unfolding unat_or a using nat_or_add [OF c, of "unat bits"] by (simp add: or.commute)
qed

lemma unat_mask: "unat (w AND (push_bit k 1 - 1) :: u64) = unat w mod 2 ^ k"
proof -
  have "w AND (push_bit k 1 - 1) = take_bit k w" by (simp add: take_bit_eq_mask mask_eq_exp_minus_1)
  then have "unat (w AND (push_bit k 1 - 1)) = take_bit k (unat w)" by (simp only: unsigned_take_bit_eq)
  then show ?thesis by (simp only: take_bit_eq_mod)
qed

lemma push_state:
  assumes "encoder_state output t st"
  shows "encoder_state output (t @ [byte]) (huffman_push st byte)"
proof -
  obtain bits pending written where st: "st = (bits, pending, written)" by (cases st)
  from assms obtain added where inv: "pending < 8" "unat bits < 2 ^ pending" "written = output @ added"
    "stream_bits added @ nb pending (unat bits) = text_bits t" by (auto simp: encoder_state_def st)
  let ?s = "unat byte"
  let ?L = "LENGTHS ! ?s"
  have s: "?s < 257" using less_le_trans [OF unat_lt8] by simp
  define acc where "acc = push_bit ?L bits OR ucast (hc_codes CODE ! ?s)"
  have acc: "unat acc = unat bits * 2 ^ ?L + code_of ?s" unfolding acc_def by (rule push_code [OF inv(2,1) s])
  have "nb (pending + ?L) (unat acc) = nb pending (unat bits) @ code_bits ?s"
  proof -
    have "unat acc div 2 ^ ?L = unat bits" using acc code_of_range(3) [OF s] by simp
    moreover have "nb ?L (unat acc) = code_bits ?s"
      using nb_mod [of ?L ?L "unat acc"] acc code_of_range(3) [OF s] by (simp add: code_bits_def)
    ultimately show ?thesis by (simp add: nb_add)
  qed
  then have bits': "stream_bits added @ nb (pending + ?L) (unat acc) = text_bits (t @ [byte])"
    using inv(4) by (metis append.assoc append_Nil2 text_bits_simps)
  obtain pending' written' where f: "huffman_flush acc (pending + ?L) written = (pending', written')" by (cases "huffman_flush acc (pending + ?L) written")
  from flush_bits [OF f] obtain more where g: "pending' < 8" "written' = written @ more"
    "stream_bits more @ nb pending' (unat acc) = nb (pending + ?L) (unat acc)" by blast
  have r: "huffman_push st byte = (acc AND (push_bit pending' 1 - 1), pending', written')"
    by (simp add: st Let_def acc_def [symmetric] f)
  have u: "unat (acc AND (push_bit pending' 1 - 1)) = unat acc mod 2 ^ pending'" by (rule unat_mask)
  have "stream_bits (added @ more) @ nb pending' (unat acc mod 2 ^ pending') = text_bits (t @ [byte])"
    using bits' g(3) by (simp add: nb_mod)
  then show ?thesis using g(1,2) inv(3) unfolding r encoder_state_def prod.case u by (intro conjI exI [of _ "added @ more"]) simp_all
qed

lemma push_states: "encoder_state output t st \<Longrightarrow> encoder_state output (t @ input) (foldl huffman_push st input)"
proof (induction input arbitrary: t st)
  case (Cons byte input)
  from Cons.IH [OF push_state [OF Cons.prems, of byte]] show ?case by simp
qed simp


lemma last_byte:
  assumes "pending < 8" and "pending > 0" and "unat (bits :: u64) < 2 ^ pending"
  shows "nb 8 (unat (ucast (push_bit (8 - pending) bits) OR drop_bit pending 0xff :: u8)) =
    nb pending (unat bits) @ replicate (8 - pending) True"
proof -
  define k where "k = 8 - pending"
  have k: "pending + k = 8" using assms(1) by (simp add: k_def)
  have "unat bits * 2 ^ k < 2 ^ pending * 2 ^ k" using assms(3) by simp
  then have lt: "unat bits * 2 ^ k < 256" by (simp only: power_add [symmetric] k) simp
  then have a: "unat (ucast (push_bit k bits) :: u8) = unat bits * 2 ^ k" by (simp add: unat_cast unat_push)
  have b: "unat (drop_bit pending 0xff :: u8) = 2 ^ k - 1"
  proof -
    consider "pending = 1" | "pending = 2" | "pending = 3" | "pending = 4" | "pending = 5" | "pending = 6" | "pending = 7"
      using assms(1,2) by linarith
    then show ?thesis by cases (simp_all add: k_def)
  qed
  have v: "unat (ucast (push_bit k bits) OR drop_bit pending 0xff :: u8) = 2 ^ k - 1 + unat bits * 2 ^ k"
    unfolding unat_or a b using nat_or_add [of "2 ^ k - 1" k "unat bits"] by (simp add: or.commute)
  have "nb 8 (2 ^ k - 1 + unat bits * 2 ^ k) = nb (pending + k) (2 ^ k - 1 + unat bits * 2 ^ k)" by (simp only: k)
  also have "\<dots> = nb pending (unat bits) @ nb k (2 ^ k - 1)"
  proof -
    define m :: nat where "m = 2 ^ k - 1"
    have "m < 2 ^ k" by (simp add: m_def)
    then show ?thesis
      unfolding nb_add m_def [symmetric] using nb_mod [of k k "m + unat bits * 2 ^ k"] by simp
  qed
  finally show ?thesis unfolding k_def [symmetric] v nb_ones .
qed

lemma encode_bits:
  "\<exists>added k. huffman_encode t output = output @ added \<and> k < 8 \<and> stream_bits added = text_bits t @ replicate k True"
proof -
  have "encoder_state output [] (0, 0, output)" by (simp add: encoder_state_def)
  from push_states [OF this, of t] obtain bits pending added where
    f: "foldl huffman_push (0, 0, output) t = (bits, pending, output @ added)"
    and inv: "pending < 8" "unat bits < 2 ^ pending" "stream_bits added @ nb pending (unat bits) = text_bits t"
    by (cases "foldl huffman_push (0, 0, output) t") (auto simp: encoder_state_def)
  show ?thesis
  proof (cases "pending > 0")
    case True
    let ?b = "ucast (push_bit (8 - pending) bits) OR drop_bit pending 0xff :: u8"
    have "stream_bits (added @ [?b]) = text_bits t @ replicate (8 - pending) True"
      using last_byte [OF inv(1) True inv(2)] inv(3) by (metis append.assoc append_Nil2 stream_bits_simps)
    then show ?thesis using True f by (intro exI [of _ "added @ [?b]"] exI [of _ "8 - pending"]) (simp add: huffman_encode_def)
  next
    case False
    then show ?thesis using f inv(3) by (intro exI [of _ added] exI [of _ 0]) (simp add: huffman_encode_def)
  qed
qed

lemma padded_unique:
  assumes "stream_bits bs = text_bits t @ replicate k True" and "k < 8"
    and "stream_bits cs = text_bits t @ replicate j True" and "j < 8"
  shows "bs = cs"
proof -
  have "8 * length bs = length (text_bits t) + k" "8 * length cs = length (text_bits t) + j"
    using arg_cong [OF assms(1), of length] arg_cong [OF assms(3), of length] by simp_all
  then have "k = j" using assms(2,4) by presburger
  then show ?thesis using assms(1,3) stream_bits_inj by metis
qed

lemma huffman_encode_append: "huffman_encode t out = out @ huffman_encode t []"
proof -
  obtain added k where a: "huffman_encode t out = out @ added" "k < 8" "stream_bits added = text_bits t @ replicate k True"
    using encode_bits by blast
  obtain j where "j < 8" "stream_bits (huffman_encode t []) = text_bits t @ replicate j True"
    using encode_bits [of t "[]"] by auto
  then show ?thesis using padded_unique [OF a(3,2)] a(1) by simp
qed

lemma huffman_decode_encode: "huffman_decode (huffman_encode t []) out = Some (Inr (out @ t))"
  using encode_bits [of t "[]"] decode_padded by force

lemma huffman_encode_length: "length (huffman_encode t out) = length out + encoded_len t"
proof -
  obtain added k where e: "huffman_encode t out = out @ added" "k < 8" "stream_bits added = text_bits t @ replicate k True"
    using encode_bits by blast
  have "8 * length added = sum_list (map (\<lambda>b. LENGTHS ! unat b) t) + k"
    using arg_cong [OF e(3), of length] by (simp add: length_text_bits)
  then have "length added = encoded_len t" unfolding encoded_len_def using e(2) by linarith
  then show ?thesis by (simp add: e(1))
qed

lemma huffman_decode_total: "huffman_decode bs out \<noteq> None"
  using decode_sound [of bs out] by force

text \<open>
  Decoding what the encoder wrote gives the input back, after whatever the buffer already held: the bit
  accumulator, the flushing of whole bytes and the padding with ones never lose or invent a symbol.
\<close>

theorem huffman_round_trip: "huffman_decode (huffman_encode t []) out = Some (Inr (out @ t))"
  by (rule huffman_decode_encode)

lemma decode_refuses_or_encoded:
  "huffman_decode bs out = Some (Inl Qpack) \<or> (\<exists>t. bs = huffman_encode t [] \<and> huffman_decode bs out = Some (Inr (out @ t)))"
proof -
  consider "huffman_decode bs out = Some (Inl Qpack)" | t k where "huffman_decode bs out = Some (Inr (out @ t))"
    "k < 8" "stream_bits bs = text_bits t @ replicate k True" using decode_sound [of bs out] by blast
  then show ?thesis
  proof cases
    case (2 t k)
    obtain j where "j < 8" "stream_bits (huffman_encode t []) = text_bits t @ replicate j True"
      using encode_bits [of t "[]"] by auto
    then have "bs = huffman_encode t []" using padded_unique 2(2,3) by blast
    with 2(1) show ?thesis by blast
  qed blast
qed

text \<open>
  C7. The decoder accepts exactly the encoder's outputs: on every byte string it returns, never indexing outside its
  tables; it appends a text if and only if the input is the encoding of that text, and refuses with \<open>Qpack\<close> if and only if
  the input is the encoding of none, which rules out overlong padding, an explicit EOS and truncated codes.
\<close>

theorem huffman_decode_strict:
  "(\<forall>t. huffman_decode bs out = Some (Inr (out @ t)) \<longleftrightarrow> bs = huffman_encode t []) \<and>
   (huffman_decode bs out = Some (Inl Qpack) \<longleftrightarrow> (\<forall>t. bs \<noteq> huffman_encode t []))"
proof -
  have only: "bs = huffman_encode t []" if "huffman_decode bs out = Some (Inr (out @ t))" for t
    using decode_refuses_or_encoded [of bs out]
  proof (elim disjE exE conjE)
    fix u assume "bs = huffman_encode u []" "huffman_decode bs out = Some (Inr (out @ u))"
    then show ?thesis using that by simp
  qed (simp add: that)
  have if_encoded: "huffman_decode bs out = Some (Inr (out @ t))" if "bs = huffman_encode t []" for t
    unfolding that by (rule huffman_decode_encode)
  have "huffman_decode bs out \<noteq> Some (Inl Qpack)" if "bs = huffman_encode t []" for t using if_encoded [OF that] by simp
  with only if_encoded decode_refuses_or_encoded [of bs out] show ?thesis by blast
qed

text \<open>The length \<open>encoded_len\<close> announces in the string's prefix is the number of bytes the encoder appends.\<close>

theorem huffman_encoded_len: "length (huffman_encode t out) = length out + encoded_len t"
  by (rule huffman_encode_length)

end
