(* ===== verification/Qpack.thy ===== *)
theory Qpack
  imports Codes Huffman
begin

unbundle bit_operations_syntax

text \<open>
  Static-only QPACK, \<^verbatim>\<open>rust/http3/src/qpack/mod.rs\<close> and \<^verbatim>\<open>qpack/table.rs\<close>: the static table, prefixed
  integers, string literals, field sections and the two QPACK streams. The field callback of the decoder is
  an argument that threads a state of its own and may refuse. A panic is \<open>None\<close>, as in the Huffman theory.
\<close>

subsection \<open>The static table\<close>

definition STATIC :: "(string \<times> string) list" where
  "STATIC = [
     ('':authority'', ''''),
     ('':path'', ''/''),
     (''age'', ''0''),
     (''content-disposition'', ''''),
     (''content-length'', ''0''),
     (''cookie'', ''''),
     (''date'', ''''),
     (''etag'', ''''),
     (''if-modified-since'', ''''),
     (''if-none-match'', ''''),
     (''last-modified'', ''''),
     (''link'', ''''),
     (''location'', ''''),
     (''referer'', ''''),
     (''set-cookie'', ''''),
     ('':method'', ''CONNECT''),
     ('':method'', ''DELETE''),
     ('':method'', ''GET''),
     ('':method'', ''HEAD''),
     ('':method'', ''OPTIONS''),
     ('':method'', ''POST''),
     ('':method'', ''PUT''),
     ('':scheme'', ''http''),
     ('':scheme'', ''https''),
     ('':status'', ''103''),
     ('':status'', ''200''),
     ('':status'', ''304''),
     ('':status'', ''404''),
     ('':status'', ''503''),
     (''accept'', ''*/*''),
     (''accept'', ''application/dns-message''),
     (''accept-encoding'', ''gzip, deflate, br''),
     (''accept-ranges'', ''bytes''),
     (''access-control-allow-headers'', ''cache-control''),
     (''access-control-allow-headers'', ''content-type''),
     (''access-control-allow-origin'', ''*''),
     (''cache-control'', ''max-age=0''),
     (''cache-control'', ''max-age=2592000''),
     (''cache-control'', ''max-age=604800''),
     (''cache-control'', ''no-cache''),
     (''cache-control'', ''no-store''),
     (''cache-control'', ''public, max-age=31536000''),
     (''content-encoding'', ''br''),
     (''content-encoding'', ''gzip''),
     (''content-type'', ''application/dns-message''),
     (''content-type'', ''application/javascript''),
     (''content-type'', ''application/json''),
     (''content-type'', ''application/x-www-form-urlencoded''),
     (''content-type'', ''image/gif''),
     (''content-type'', ''image/jpeg''),
     (''content-type'', ''image/png''),
     (''content-type'', ''text/css''),
     (''content-type'', ''text/html; charset=utf-8''),
     (''content-type'', ''text/plain''),
     (''content-type'', ''text/plain;charset=utf-8''),
     (''range'', ''bytes=0-''),
     (''strict-transport-security'', ''max-age=31536000''),
     (''strict-transport-security'', ''max-age=31536000; includesubdomains''),
     (''strict-transport-security'', ''max-age=31536000; includesubdomains; preload''),
     (''vary'', ''accept-encoding''),
     (''vary'', ''origin''),
     (''x-content-type-options'', ''nosniff''),
     (''x-xss-protection'', ''1; mode=block''),
     ('':status'', ''100''),
     ('':status'', ''204''),
     ('':status'', ''206''),
     ('':status'', ''302''),
     ('':status'', ''400''),
     ('':status'', ''403''),
     ('':status'', ''421''),
     ('':status'', ''425''),
     ('':status'', ''500''),
     (''accept-language'', ''''),
     (''access-control-allow-credentials'', ''FALSE''),
     (''access-control-allow-credentials'', ''TRUE''),
     (''access-control-allow-headers'', ''*''),
     (''access-control-allow-methods'', ''get''),
     (''access-control-allow-methods'', ''get, post, options''),
     (''access-control-allow-methods'', ''options''),
     (''access-control-expose-headers'', ''content-length''),
     (''access-control-request-headers'', ''content-type''),
     (''access-control-request-method'', ''get''),
     (''access-control-request-method'', ''post''),
     (''alt-svc'', ''clear''),
     (''authorization'', ''''),
     (''content-security-policy'', ''script-src 'none'; object-src 'none'; base-uri 'none'' @ [CHR 0x27]),
     (''early-data'', ''1''),
     (''expect-ct'', ''''),
     (''forwarded'', ''''),
     (''if-range'', ''''),
     (''origin'', ''''),
     (''purpose'', ''prefetch''),
     (''server'', ''''),
     (''timing-allow-origin'', ''*''),
     (''upgrade-insecure-requests'', ''1''),
     (''user-agent'', ''''),
     (''x-forwarded-for'', ''''),
     (''x-frame-options'', ''deny''),
     (''x-frame-options'', ''sameorigin'')]"

datatype static_match = Match_Field u64 | Match_Name u64 | Match_None

fun table_scan :: "bytes \<Rightarrow> bytes \<Rightarrow> u64 option \<Rightarrow> (nat \<times> string \<times> string) list \<Rightarrow> static_match" where
  "table_scan name val named [] = (case named of None \<Rightarrow> Match_None | Some index \<Rightarrow> Match_Name index)"
| "table_scan name val named ((index, entry, entry_value) # rest) =
     (if as_bytes entry = name
      then if as_bytes entry_value = val then Match_Field (of_nat index)
           else table_scan name val (case named of None \<Rightarrow> Some (of_nat index) | Some i \<Rightarrow> Some i) rest
      else table_scan name val named rest)"

definition table_find :: "bytes \<Rightarrow> bytes \<Rightarrow> static_match" where
  "table_find name val = table_scan name val None (zip [0..<length STATIC] STATIC)"

subsection \<open>Integers and strings\<close>

text \<open>A result that may also be a panic.\<close>

type_synonym 'a fallible = "(invalid + 'a) option"

definition and_then :: "'a fallible \<Rightarrow> ('a \<Rightarrow> 'b fallible) \<Rightarrow> 'b fallible" where
  "and_then r f = (case r of None \<Rightarrow> None | Some (Inl e) \<Rightarrow> Some (Inl e) | Some (Inr x) \<Rightarrow> f x)"

lemma and_then_simps [simp]:
  "and_then None f = None" "and_then (Some (Inl e)) f = Some (Inl e)" "and_then (Some (Inr x)) f = f x"
  by (simp_all add: and_then_def)

definition invalid_code :: "invalid \<Rightarrow> code" where
  "invalid_code e = (case e of
       Qpack \<Rightarrow> QPACK_DECOMPRESSION_FAILED
     | TooLarge \<Rightarrow> H3_EXCESSIVE_LOAD
     | Malformed \<Rightarrow> H3_MESSAGE_ERROR
     | Unsupported \<Rightarrow> H3_MESSAGE_ERROR)"

definition qpack_entry :: "u64 \<Rightarrow> (string \<times> string) fallible" where
  "qpack_entry index = (if unat index < length STATIC then Some (Inr (STATIC ! unat index)) else Some (Inl Qpack))"

fun integer_rest :: "nat list \<Rightarrow> u64 \<Rightarrow> bytes \<Rightarrow> (u64 \<times> bytes) fallible" where
  "integer_rest [] val rest = Some (Inl Qpack)"
| "integer_rest (shift # shifts) val [] = Some (Inl Qpack)"
| "integer_rest (shift # shifts) val (byte # tail) =
     (let val = val + push_bit shift (ucast (byte AND 0x7f))
      in if byte AND 0x80 = 0 then Some (Inr (val, tail)) else integer_rest shifts val tail)"

definition qpack_integer :: "bytes \<Rightarrow> nat \<Rightarrow> (u64 \<times> bytes) fallible" where
  "qpack_integer section bits = (case section of
       [] \<Rightarrow> Some (Inl Qpack)
     | first # rest \<Rightarrow>
         let max = push_bit bits 1 - 1; val = ucast first AND max
         in if val = max then integer_rest [0, 7, 14, 21, 28] val rest else Some (Inr (val, rest)))"

definition qpack_string :: "bytes \<Rightarrow> nat \<Rightarrow> (bytes \<times> bytes) fallible" where
  "qpack_string section bits =
     (let huffman = (case section of [] \<Rightarrow> False | first # _ \<Rightarrow> first AND push_bit bits 1 \<noteq> 0)
      in and_then (qpack_integer section bits) (\<lambda>(len, section).
           if length section < unat len then Some (Inl Qpack)
           else let raw = take (unat len) section; rest = drop (unat len) section
                in if \<not> huffman then Some (Inr (raw, rest))
                   else and_then (huffman_decode raw []) (\<lambda>buffer. Some (Inr (buffer, rest)))))"

function put_integer_rest :: "u64 \<Rightarrow> bytes \<Rightarrow> bytes" where
  "put_integer_rest rest output =
     (if rest \<ge> 0x80
      then put_integer_rest (drop_bit 7 rest) (output @ [0x80 OR ucast rest])
      else output @ [ucast rest])"
  by auto
termination
proof (relation "measure (\<lambda>(rest, _). unat rest)")
  fix rest :: u64 and out :: bytes
  assume "rest \<ge> 0x80"
  then have "unat rest \<ge> 128" by (simp add: word_le_nat_alt)
  then show "((drop_bit 7 rest, out @ [0x80 OR ucast rest]), (rest, out)) \<in> measure (\<lambda>(rest, _). unat rest)"
    by (simp add: unat_drop)
qed simp

declare put_integer_rest.simps [simp del]

definition put_integer :: "u64 \<Rightarrow> nat \<Rightarrow> u8 \<Rightarrow> bytes \<Rightarrow> bytes" where
  "put_integer val bits pattern output =
     (let max = push_bit bits 1 - 1
      in if val < max then output @ [pattern OR ucast val]
         else put_integer_rest (val - max) (output @ [pattern OR ucast max]))"

definition put_string :: "bytes \<Rightarrow> nat \<Rightarrow> u8 \<Rightarrow> bytes \<Rightarrow> bytes" where
  "put_string text bits pattern output =
     (let huffman = encoded_len text
      in if huffman < length text
         then huffman_encode text (put_integer (of_nat huffman) bits (pattern OR push_bit bits 1) output)
         else put_integer (of_nat (length text)) bits pattern output @ text)"

subsection \<open>Field sections\<close>

text \<open>One turn of the decoding loop: the field line at the start of the section and what follows it.\<close>

definition field_line :: "bytes \<Rightarrow> u8 \<Rightarrow> (bytes \<times> bytes \<times> bytes) fallible" where
  "field_line section first =
     (if first \<ge> 0xc0
      then and_then (qpack_integer section 6) (\<lambda>(index, section).
           and_then (qpack_entry index) (\<lambda>(name, val).
           Some (Inr (as_bytes name, as_bytes val, section))))
      else if 0x50 \<le> first \<and> first \<le> 0x5f \<or> 0x70 \<le> first \<and> first \<le> 0x7f
      then and_then (qpack_integer section 4) (\<lambda>(index, section).
           and_then (qpack_entry index) (\<lambda>(name, _).
           and_then (qpack_string section 7) (\<lambda>(val, section).
           Some (Inr (as_bytes name, val, section)))))
      else if 0x20 \<le> first \<and> first \<le> 0x3f
      then and_then (qpack_string section 3) (\<lambda>(name, section).
           and_then (qpack_string section 7) (\<lambda>(val, section).
           Some (Inr (name, val, section))))
      else Some (Inl Qpack))"

lemma integer_rest_shorter: "integer_rest shifts v rest = Some (Inr (w, tail)) \<Longrightarrow> length tail < length rest"
  by (induction shifts v rest rule: integer_rest.induct) (fastforce simp: Let_def split: if_splits)+

lemma qpack_integer_shorter: "qpack_integer section bits = Some (Inr (v, tail)) \<Longrightarrow> length tail < length section"
  by (auto simp: qpack_integer_def Let_def split: list.splits if_splits dest: integer_rest_shorter)

lemma and_then_Inr: "and_then r f = Some (Inr y) \<longleftrightarrow> (\<exists>x. r = Some (Inr x) \<and> f x = Some (Inr y))"
  by (cases r rule: option.exhaust) (auto simp: and_then_def split: sum.splits)

lemma qpack_string_shorter: "qpack_string section bits = Some (Inr (v, tail)) \<Longrightarrow> length tail < length section"
  by (auto simp: qpack_string_def Let_def and_then_Inr split: if_splits dest!: qpack_integer_shorter)

lemma field_line_shorter: "field_line section first = Some (Inr (n, v, tail)) \<Longrightarrow> length tail < length section"
  by (auto simp: field_line_def and_then_Inr split: if_splits dest!: qpack_string_shorter qpack_integer_shorter)

text \<open>The loop over the field lines, threading the state \<open>s\<close> of the callback \<open>field\<close>.\<close>

function decode_fields :: "('s \<Rightarrow> bytes \<Rightarrow> bytes \<Rightarrow> invalid + 's) \<Rightarrow> 's \<Rightarrow> bytes \<Rightarrow> 's fallible" where
  "decode_fields field s section = (case section of
       [] \<Rightarrow> Some (Inr s)
     | first # _ \<Rightarrow> (case field_line section first of
           None \<Rightarrow> None
         | Some (Inl e) \<Rightarrow> Some (Inl e)
         | Some (Inr (name, val, tail)) \<Rightarrow> (case field s name val of
               Inl e \<Rightarrow> Some (Inl e)
             | Inr s' \<Rightarrow> decode_fields field s' tail)))"
  by auto
termination
  by (relation "measure (\<lambda>(_, _, section). length section)") (auto dest: field_line_shorter)

declare decode_fields.simps [simp del]

definition qpack_decode :: "('s \<Rightarrow> bytes \<Rightarrow> bytes \<Rightarrow> invalid + 's) \<Rightarrow> 's \<Rightarrow> bytes \<Rightarrow> 's fallible" where
  "qpack_decode field s section = (case section of
       [] \<Rightarrow> Some (Inl Qpack)
     | insert_count # section \<Rightarrow>
         if insert_count \<noteq> 0 then Some (Inl Qpack)
         else case section of
             [] \<Rightarrow> Some (Inl Qpack)
           | base # _ \<Rightarrow>
               if base AND 0x80 \<noteq> 0 then Some (Inl Qpack)
               else and_then (qpack_integer section 7) (\<lambda>(_, section). decode_fields field s section))"

definition encode_field :: "bytes \<Rightarrow> bytes \<times> bytes \<Rightarrow> bytes" where
  "encode_field output = (\<lambda>(name, val). case table_find name val of
       Match_Field index \<Rightarrow> put_integer index 6 0xc0 output
     | Match_Name index \<Rightarrow> put_string val 7 0x00 (put_integer index 4 0x50 output)
     | Match_None \<Rightarrow> put_string val 7 0x00 (put_string name 3 0x20 output))"

definition qpack_encode :: "(bytes \<times> bytes) list \<Rightarrow> bytes \<Rightarrow> bytes" where
  "qpack_encode fs output = foldl encode_field (output @ [0, 0]) fs"

subsection \<open>The encoder and decoder streams\<close>

definition encoder_stream :: "bytes \<Rightarrow> code + unit" where
  "encoder_stream input = (if list_all (\<lambda>byte. byte = 0x20) input then Inr () else Inl QPACK_ENCODER_STREAM_ERROR)"

fun decoder_stream_read :: "bool \<Rightarrow> bytes \<Rightarrow> code + bool" where
  "decoder_stream_read continuing [] = Inr continuing"
| "decoder_stream_read continuing (byte # input) =
     (if continuing then decoder_stream_read (byte AND 0x80 \<noteq> 0) input
      else if byte AND 0xc0 = 0x40 then decoder_stream_read (byte AND 0x3f = 0x3f) input
      else Inl QPACK_DECODER_STREAM_ERROR)"


subsection \<open>Integers and strings read back\<close>

lemma shifted_less: "\<not> (r :: u64) < 0x80 \<Longrightarrow> unat (drop_bit 7 r) < unat r"
proof -
  assume "\<not> r < 0x80"
  then have "unat r \<ge> 128" by (simp add: word_less_nat_alt)
  then show ?thesis by (simp add: unat_drop)
qed

lemma put_integer_rest_append: "put_integer_rest r out = out @ put_integer_rest r []"
proof (induction "unat r" arbitrary: r out rule: less_induct)
  case less
  show ?case
  proof (cases "r \<ge> 0x80")
    case True
    then have lt: "unat (drop_bit 7 r) < unat r" by (intro shifted_less) simp
    let ?b = "0x80 OR ucast r :: u8"
    have "put_integer_rest r out = put_integer_rest (drop_bit 7 r) (out @ [?b])" for out
      using True by (simp add: put_integer_rest.simps [of r])
    then show ?thesis using less [OF lt, of "out @ [?b]"] less [OF lt, of "[?b]"] by simp
  next
    case False
    then show ?thesis by (simp add: put_integer_rest.simps [of r])
  qed
qed

lemma put_integer_append: "put_integer v bits pattern out = out @ put_integer v bits pattern []"
  unfolding put_integer_def Let_def
  using put_integer_rest_append [of _ "out @ _"] put_integer_rest_append [of _ "[_]"] by simp

lemma put_string_append: "put_string t bits pattern out = out @ put_string t bits pattern []"
proof (cases "encoded_len t < length t")
  case True
  then show ?thesis
    unfolding put_string_def Let_def if_P [OF True] huffman_encode_append [of t "put_integer _ _ _ _"]
    by (subst put_integer_append) simp
next
  case False
  then show ?thesis
    unfolding put_string_def Let_def if_not_P [OF False] by (subst put_integer_append) simp
qed

lemma seven_split: "(v :: u64) + push_bit k (r AND 0x7f) + push_bit (k + 7) (drop_bit 7 r) = v + push_bit k r"
proof -
  have "r AND 0x7f = take_bit 7 r" by (simp add: take_bit_eq_mask mask_eq_exp_minus_1)
  then have "push_bit k (r AND 0x7f) + push_bit (k + 7) (drop_bit 7 r) = push_bit k (take_bit 7 r + push_bit 7 (drop_bit 7 r))"
    by (simp only: push_bit_add push_bit_push_bit)
  also have "\<dots> = push_bit k r" using bits_ident [of 7 r] by (simp only: add.commute [of "take_bit 7 r"])
  finally show ?thesis by (simp add: add.assoc)
qed


lemma continued_byte:
  "(0x80 OR w :: u8) AND 0x80 \<noteq> 0" "(0x80 OR w :: u8) AND 0x7f = w AND 0x7f"
proof -
  have "bit ((0x80 OR w) AND 0x80) 7" by (simp add: bit_and_iff bit_or_iff bit_numeral_rec)
  then show "(0x80 OR w :: u8) AND 0x80 \<noteq> 0" by (metis bit_0_eq bot_apply bot_bool_def)
  show "(0x80 OR w :: u8) AND 0x7f = w AND 0x7f" by (simp add: bit.conj_disj_distrib2)
qed

lemma unat_low_seven: "unat ((w :: u8) AND 0x7f) = unat w mod 128" "unat ((r :: u64) AND 0x7f) = unat r mod 128"
proof -
  have "w AND 0x7f = take_bit 7 w" "r AND 0x7f = take_bit 7 r" by (simp_all add: take_bit_eq_mask mask_eq_exp_minus_1)
  then have "unat (w AND 0x7f) = take_bit 7 (unat w)" "unat (r AND 0x7f) = take_bit 7 (unat r)"
    by (simp_all only: unsigned_take_bit_eq)
  then show "unat (w AND 0x7f) = unat w mod 128" "unat (r AND 0x7f) = unat r mod 128"
    by (simp_all add: take_bit_eq_mod)
qed

lemma low_seven: "ucast ((ucast (r :: u64) :: u8) AND 0x7f) = r AND 0x7f"
proof -
  have "unat r mod 256 mod 128 = unat r mod 128" by (rule mod_mod_cancel) simp
  then show ?thesis by (simp add: word_unat_eq_iff unat_low_seven unat_cast)
qed

lemma low_byte:
  assumes "(r :: u64) < 0x80"
  shows "(ucast r :: u8) AND 0x80 = 0" and "r AND 0x7f = r"
proof -
  have r: "unat r < 128" using assms by (simp add: word_less_nat_alt)
  then show "r AND 0x7f = r" by (simp add: word_unat_eq_iff unat_low_seven)
  have "(ucast r :: u8) AND 0x7f = ucast r" using r by (simp add: word_unat_eq_iff unat_low_seven unat_cast)
  then have "(ucast r :: u8) AND 0x80 = ucast r AND (0x7f AND 0x80)" by (metis and.assoc)
  then show "(ucast r :: u8) AND 0x80 = 0" by simp
qed

lemma integer_rest_put:
  assumes "j < 5" and "unat r < 2 ^ (7 * (5 - j))"
  shows "integer_rest (map ((*) 7) [j..<5]) v (put_integer_rest r [] @ tail) = Some (Inr (v + push_bit (7 * j) r, tail))"
  using assms
proof (induction "unat r" arbitrary: r j v rule: less_induct)
  case less
  have shifts: "map ((*) 7) [j..<5] = 7 * j # map ((*) 7) [Suc j..<5]" using less.prems(1) by (simp add: upt_conv_Cons)
  show ?case
  proof (cases "r \<ge> 0x80")
    case True
    then have lt: "unat (drop_bit 7 r) < unat r" by (intro shifted_less) simp
    have "put_integer_rest r [] = (0x80 OR ucast r) # put_integer_rest (drop_bit 7 r) []"
      using True put_integer_rest_append [of "drop_bit 7 r" "[0x80 OR ucast r]"] by (simp add: put_integer_rest.simps [of r])
    then have step: "integer_rest (map ((*) 7) [j..<5]) v (put_integer_rest r [] @ tail) =
        integer_rest (map ((*) 7) [Suc j..<5]) (v + push_bit (7 * j) (r AND 0x7f)) (put_integer_rest (drop_bit 7 r) [] @ tail)"
      by (simp add: shifts continued_byte low_seven)
    have "unat r \<ge> 2 ^ 7" using True by (simp add: word_le_nat_alt)
    then have "(2::nat) ^ 7 < 2 ^ (7 * (5 - j))" using less.prems(2) by linarith
    then have "7 < 7 * (5 - j)" by (rule power_less_imp_less_exp [rotated]) simp
    then have j: "Suc j < 5" by simp
    have "7 * (5 - j) = 7 * (5 - Suc j) + 7" using j by simp
    then have "unat (drop_bit 7 r) < 2 ^ (7 * (5 - Suc j))"
      using less.prems(2) by (simp add: unat_drop power_add less_mult_imp_div_less)
    from less.hyps [OF lt j this] show ?thesis
      unfolding step using seven_split [of v "7 * j" r] by (simp add: add.commute)
  next
    case False
    then have "put_integer_rest r [] = [ucast r]" by (simp add: put_integer_rest.simps [of r])
    with False low_byte [of r] low_seven [of r] show ?thesis by (simp add: shifts)
  qed
qed


lemma unat_max: "bits \<le> 7 \<Longrightarrow> unat (push_bit bits 1 - 1 :: u64) = 2 ^ bits - 1"
proof -
  assume "bits \<le> 7"
  then consider "bits = 0" | "bits = 1" | "bits = 2" | "bits = 3" | "bits = 4" | "bits = 5" | "bits = 6" | "bits = 7" by linarith
  then show ?thesis by cases simp_all
qed

text \<open>The first byte of a prefixed integer: the pattern in the high bits, the value or all ones in the low ones.\<close>

lemma prefix_byte:
  assumes "bits \<le> 7" and "unat (pattern :: u8) = p * 2 ^ bits" and "unat (v :: u64) < 2 ^ bits"
  shows "unat (pattern OR ucast v) = p * 2 ^ bits + unat v"
    and "ucast (pattern OR ucast v) AND (push_bit bits 1 - 1) = v"
proof -
  have "(2::nat) ^ bits \<le> 2 ^ 7" using assms(1) by (intro power_increasing) auto
  then have "unat (ucast v :: u8) = unat v" using assms(3) by (simp add: unat_cast)
  then show a: "unat (pattern OR ucast v) = p * 2 ^ bits + unat v"
    unfolding unat_or assms(2) using nat_or_add [OF assms(3), of p] by (simp add: or.commute add.commute)
  have m: "ucast (pattern OR ucast v) AND (push_bit bits 1 - 1) = (take_bit bits (ucast (pattern OR ucast v)) :: u64)"
    by (simp add: take_bit_eq_mask mask_eq_exp_minus_1)
  have "unat (ucast (pattern OR ucast v) :: u64) = unat (pattern OR ucast v)"
    using less_le_trans [OF unat_lt8, of "2 ^ 64"] by (simp add: unat_cast)
  then have "unat (take_bit bits (ucast (pattern OR ucast v) :: u64)) = unat v"
    unfolding unsigned_take_bit_eq using a assms(3) by (simp add: take_bit_eq_mod)
  then show "ucast (pattern OR ucast v) AND (push_bit bits 1 - 1) = v" unfolding m by (simp add: word_unat_eq_iff)
qed

lemma put_integer_first:
  assumes "bits \<le> 7" and "unat (pattern :: u8) = p * 2 ^ bits"
  shows "\<exists>b bs. put_integer v bits pattern [] = b # bs \<and> p * 2 ^ bits \<le> unat b \<and> unat b < Suc p * 2 ^ bits"
proof (cases "v < push_bit bits 1 - 1")
  case True
  then have "unat v < 2 ^ bits" using unat_max [OF assms(1)] by (simp add: word_less_nat_alt)
  from prefix_byte(1) [OF assms this] this show ?thesis using True by (simp add: put_integer_def Let_def)
next
  case False
  let ?m = "push_bit bits 1 - 1 :: u64"
  have "unat ?m < 2 ^ bits" using unat_max [OF assms(1)] by simp
  from prefix_byte(1) [OF assms this] this show ?thesis
    using False put_integer_rest_append [of "v - ?m" "[pattern OR ucast ?m]"] by (simp add: put_integer_def Let_def)
qed

lemma integer_read_back:
  assumes "bits \<le> 7" and "unat (pattern :: u8) = p * 2 ^ bits" and "unat v < 2 ^ 35 + 2 ^ bits - 1"
  shows "qpack_integer (put_integer v bits pattern [] @ tail) bits = Some (Inr (v, tail))"
proof (cases "v < push_bit bits 1 - 1")
  case True
  then have "unat v < 2 ^ bits" using unat_max [OF assms(1)] by (simp add: word_less_nat_alt)
  from prefix_byte(2) [OF assms(1,2) this] show ?thesis
    using True less_imp_neq [OF True] by (simp add: put_integer_def Let_def qpack_integer_def)
next
  case False
  let ?m = "push_bit bits 1 - 1 :: u64"
  have m: "unat ?m < 2 ^ bits" and le: "?m \<le> v" using unat_max [OF assms(1)] False by simp_all
  have "unat (v - ?m) < 2 ^ (7 * (5 - 0))"
    using assms(3) unat_max [OF assms(1)] le by (simp add: unat_sub word_le_nat_alt)
  from integer_rest_put [OF _ this, of ?m tail]
  have "integer_rest [0, 7, 14, 21, 28] ?m (put_integer_rest (v - ?m) [] @ tail) = Some (Inr (?m + (v - ?m), tail))"
    by (simp add: upt_rec numeral_eq_Suc)
  with prefix_byte(2) [OF assms(1,2) m] False show ?thesis
    using put_integer_rest_append [of "v - ?m" "[pattern OR ucast ?m]"]
    by (simp add: put_integer_def Let_def qpack_integer_def)
qed


lemma flag_bit: "(b :: u8) AND push_bit bits 1 \<noteq> 0 \<longleftrightarrow> odd (unat b div 2 ^ bits)"
proof -
  have "b AND push_bit bits 1 \<noteq> 0 \<longleftrightarrow> bit b bits"
    by (metis and_exp_eq_0_iff_not_bit push_bit_of_1)
  also have "\<dots> \<longleftrightarrow> odd (unat b div 2 ^ bits)"
    using bit_unsigned_iff [of b bits, where 'a = nat] by (simp add: bit_iff_odd [of "unat b"])
  finally show ?thesis .
qed

lemma flag_of_first:
  assumes "q * 2 ^ bits \<le> unat (b :: u8)" and "unat b < Suc q * 2 ^ bits"
  shows "b AND push_bit bits 1 \<noteq> 0 \<longleftrightarrow> odd q"
proof -
  have "unat b div 2 ^ bits = q" using assms by (intro div_nat_eqI) (simp_all add: mult.commute)
  then show ?thesis by (simp only: flag_bit)
qed

lemma string_parts:
  assumes "bits \<le> 7" and "unat (pattern :: u8) = q * 2 ^ bits" and "length body < 2 ^ 35"
  shows "qpack_string (put_integer (of_nat (length body)) bits pattern [] @ body @ tail) bits =
    (if odd q then and_then (huffman_decode body []) (\<lambda>buffer. Some (Inr (buffer, tail))) else Some (Inr (body, tail)))"
proof -
  have u: "unat (of_nat (length body) :: u64) = length body" using assms(3) by (intro unat_of_small) simp
  then have "unat (of_nat (length body) :: u64) < 2 ^ 35 + 2 ^ bits - 1"
    unfolding u using assms(3) one_le_power [of "2 :: nat" bits] by linarith
  note int = integer_read_back [OF assms(1,2) this, of "body @ tail"]
  obtain b bs where f: "put_integer (of_nat (length body)) bits pattern [] = b # bs"
    "q * 2 ^ bits \<le> unat b" "unat b < Suc q * 2 ^ bits"
    using put_integer_first [OF assms(1,2)] by blast
  show ?thesis using int flag_of_first [OF f(2,3)] f(1) u by (simp add: qpack_string_def)
qed

lemma huffman_pattern:
  assumes "bits \<le> 7" and "unat (pattern :: u8) = q * 2 ^ Suc bits"
  shows "unat (pattern OR push_bit bits 1) = Suc (2 * q) * 2 ^ bits" and "unat pattern = (2 * q) * 2 ^ bits"
proof -
  have "unat (push_bit bits 1 :: u8) = 2 ^ bits"
  proof -
    consider "bits = 0" | "bits = 1" | "bits = 2" | "bits = 3" | "bits = 4" | "bits = 5" | "bits = 6" | "bits = 7"
      using assms(1) by linarith
    then show ?thesis by cases simp_all
  qed
  then show "unat (pattern OR push_bit bits 1) = Suc (2 * q) * 2 ^ bits"
    unfolding unat_or assms(2) using nat_or_add [of "2 ^ bits" "Suc bits" q] by (simp add: or.commute)
  show "unat pattern = (2 * q) * 2 ^ bits" using assms(2) by simp
qed

lemma put_string_cases:
  "put_string t bits pattern [] =
     (if encoded_len t < length t
      then put_integer (of_nat (length (huffman_encode t []))) bits (pattern OR push_bit bits 1) [] @ huffman_encode t []
      else put_integer (of_nat (length t)) bits pattern [] @ t)"
  unfolding put_string_def Let_def huffman_encode_append [of t "put_integer _ _ _ _"]
  by (simp add: huffman_encode_length)

lemma string_read_back:
  assumes "bits \<le> 7" and "unat (pattern :: u8) = q * 2 ^ Suc bits" and "length t < 2 ^ 35"
  shows "qpack_string (put_string t bits pattern [] @ tail) bits = Some (Inr (t, tail))"
proof (cases "encoded_len t < length t")
  case True
  then have "length (huffman_encode t []) < 2 ^ 35" using assms(3) by (simp add: huffman_encode_length)
  from string_parts [OF assms(1) huffman_pattern(1) [OF assms(1,2)] this, of tail] show ?thesis
    using True by (simp add: put_string_cases huffman_decode_encode)
next
  case False
  from string_parts [OF assms(1) huffman_pattern(2) [OF assms(1,2)] assms(3), of tail] show ?thesis
    using False by (simp add: put_string_cases)
qed

lemma put_string_first:
  assumes "bits \<le> 7" and "unat (pattern :: u8) = q * 2 ^ Suc bits"
  shows "\<exists>b bs. put_string t bits pattern [] = b # bs \<and> q * 2 ^ Suc bits \<le> unat b \<and> unat b < Suc q * 2 ^ Suc bits"
  using put_integer_first [OF assms(1) huffman_pattern(1) [OF assms], of "of_nat (length (huffman_encode t []))"]
    put_integer_first [OF assms(1) huffman_pattern(2) [OF assms], of "of_nat (length t)"]
  by (cases "encoded_len t < length t") (auto simp: put_string_cases)

subsection \<open>Field sections read back\<close>

lemma length_STATIC: "length STATIC = 99"
  by (simp add: STATIC_def)

lemma table_scan_sound:
  "\<lbrakk>\<And>i e v. (i, e, v) \<in> set rows \<Longrightarrow> i < 99 \<and> STATIC ! i = (e, v);
    \<And>k. named = Some k \<Longrightarrow> \<exists>i < 99. k = of_nat i \<and> as_bytes (fst (STATIC ! i)) = name\<rbrakk> \<Longrightarrow>
   (case table_scan name val named rows of
      Match_Field k \<Rightarrow> \<exists>i < 99. k = of_nat i \<and> as_bytes (fst (STATIC ! i)) = name \<and> as_bytes (snd (STATIC ! i)) = val
    | Match_Name k \<Rightarrow> \<exists>i < 99. k = of_nat i \<and> as_bytes (fst (STATIC ! i)) = name
    | Match_None \<Rightarrow> True)"
proof (induction rows arbitrary: named)
  case Nil
  then show ?case by (cases named) auto
next
  case (Cons row rows)
  obtain i e v where row: "row = (i, e, v)" by (cases row)
  have i: "i < 99" "STATIC ! i = (e, v)" using Cons.prems(1) [of i e v] row by auto
  have rows: "\<And>i e v. (i, e, v) \<in> set rows \<Longrightarrow> i < 99 \<and> STATIC ! i = (e, v)"
    using Cons.prems(1) by (meson list.set_intros(2))
  consider "as_bytes e = name" "as_bytes v = val" | "as_bytes e = name" "as_bytes v \<noteq> val" | "as_bytes e \<noteq> name" by blast
  then show ?case
  proof cases
    case 1
    then show ?thesis using i by (auto simp: row)
  next
    case 2
    let ?named = "case named of None \<Rightarrow> Some (of_nat i) | Some k \<Rightarrow> Some k"
    have "\<And>k. ?named = Some k \<Longrightarrow> \<exists>i < 99. k = of_nat i \<and> as_bytes (fst (STATIC ! i)) = name"
      using Cons.prems(2) i 2 by (cases named) auto
    from Cons.IH [OF rows this] 2 show ?thesis by (simp add: row)
  next
    case 3
    from Cons.IH [OF rows Cons.prems(2)] 3 show ?thesis by (simp add: row)
  qed
qed


lemma table_find_sound:
  "case table_find name val of
      Match_Field k \<Rightarrow> \<exists>i < 99. k = of_nat i \<and> as_bytes (fst (STATIC ! i)) = name \<and> as_bytes (snd (STATIC ! i)) = val
    | Match_Name k \<Rightarrow> \<exists>i < 99. k = of_nat i \<and> as_bytes (fst (STATIC ! i)) = name
    | Match_None \<Rightarrow> True"
  unfolding table_find_def
  by (rule table_scan_sound) (auto simp: set_zip length_STATIC)

lemma entry_static: "i < 99 \<Longrightarrow> qpack_entry (of_nat i) = Some (Inr (STATIC ! i))"
  using unat_of_small [of i, where 'a = 64] by (simp add: qpack_entry_def length_STATIC)

lemma index_fits: "i < 99 \<Longrightarrow> unat (of_nat i :: u64) < 2 ^ 35 + 2 ^ bits - 1"
proof -
  assume "i < 99"
  then have "unat (of_nat i :: u64) = i" by (intro unat_of_small) simp
  with \<open>i < 99\<close> one_le_power [of "2 :: nat" bits] show ?thesis by simp
qed

lemma encode_field_append: "encode_field out f = out @ encode_field [] f"
proof -
  obtain name val where f: "f = (name, val)" by (cases f)
  show ?thesis
  proof (cases "table_find name val")
    case (Match_Field index)
    then show ?thesis using put_integer_append [of index 6 "0xc0" out] by (simp add: f encode_field_def)
  next
    case (Match_Name index)
    then show ?thesis
      using put_string_append [of val 7 0 "put_integer index 4 0x50 out"]
        put_string_append [of val 7 0 "put_integer index 4 0x50 []"] put_integer_append [of index 4 "0x50" out]
      by (simp add: f encode_field_def)
  next
    case Match_None
    then show ?thesis
      using put_string_append [of val 7 0 "put_string name 3 0x20 out"]
        put_string_append [of val 7 0 "put_string name 3 0x20 []"] put_string_append [of name 3 "0x20" out]
      by (simp add: f encode_field_def)
  qed
qed

lemma field_read_back:
  assumes "length name < 2 ^ 35" and "length val < 2 ^ 35"
  shows "\<exists>b bs. encode_field [] (name, val) = b # bs \<and>
    field_line (encode_field [] (name, val) @ tail) b = Some (Inr (name, val, tail))"
proof (cases "table_find name val")
  case (Match_Field k)
  with table_find_sound [of name val] obtain i where i: "i < 99" "k = of_nat i"
    "as_bytes (fst (STATIC ! i)) = name" "as_bytes (snd (STATIC ! i)) = val" by auto
  have p: "unat (0xc0 :: u8) = 3 * 2 ^ 6" by simp
  obtain b bs where f: "put_integer k 6 0xc0 [] = b # bs" "3 * 2 ^ 6 \<le> unat b" using put_integer_first [OF _ p, of k] by auto
  have "b \<ge> 0xc0" using f(2) by (simp add: word_le_nat_alt)
  then show ?thesis
    using integer_read_back [OF _ p index_fits, of i tail] f(1) i entry_static [OF i(1)] Match_Field
    by (auto simp: encode_field_def field_line_def split: prod.splits)
next
  case (Match_Name k)
  with table_find_sound [of name val] obtain i where i: "i < 99" "k = of_nat i" "as_bytes (fst (STATIC ! i)) = name" by auto
  have p: "unat (0x50 :: u8) = 5 * 2 ^ 4" by simp
  obtain b bs where f: "put_integer k 4 0x50 [] = b # bs" "5 * 2 ^ 4 \<le> unat b" "unat b < Suc 5 * 2 ^ 4"
    using put_integer_first [OF _ p, of k] by auto
  have b: "0x50 \<le> b \<and> b \<le> 0x5f" "\<not> 0xc0 \<le> b" using f(2,3) by (simp_all add: word_le_nat_alt)
  have s: "qpack_string (put_string val 7 0 [] @ tail) 7 = Some (Inr (val, tail))"
    using string_read_back [of 7 0 0 val tail] assms(2) by simp
  have e: "encode_field [] (name, val) = put_integer k 4 0x50 [] @ put_string val 7 0 []"
    using Match_Name put_string_append [of val 7 0 "put_integer k 4 0x50 []"] by (simp add: encode_field_def)
  show ?thesis
    using integer_read_back [OF _ p index_fits, of i "put_string val 7 0 [] @ tail"] f(1) i entry_static [OF i(1)] b s
    by (auto simp: e field_line_def split: prod.splits)
next
  case Match_None
  have p: "unat (0x20 :: u8) = 2 * 2 ^ Suc 3" by simp
  obtain b bs where f: "put_string name 3 0x20 [] = b # bs" "2 * 2 ^ Suc 3 \<le> unat b" "unat b < Suc 2 * 2 ^ Suc 3"
    using put_string_first [OF _ p, of name] by auto
  have b: "0x20 \<le> b \<and> b \<le> 0x3f" "\<not> 0xc0 \<le> b" "\<not> 0x50 \<le> b" "\<not> 0x70 \<le> b" using f(2,3) by (simp_all add: word_le_nat_alt)
  have s: "qpack_string (put_string val 7 0 [] @ tail) 7 = Some (Inr (val, tail))"
    using string_read_back [of 7 0 0 val tail] assms(2) by simp
  have e: "encode_field [] (name, val) = put_string name 3 0x20 [] @ put_string val 7 0 []"
    using Match_None put_string_append [of val 7 0 "put_string name 3 0x20 []"] by (simp add: encode_field_def)
  show ?thesis
    using string_read_back [OF _ p assms(1), of "put_string val 7 0 [] @ tail"] f(1) b s
    by (simp add: e field_line_def)
qed


text \<open>The callback run over a list of fields, up to the first field it refuses.\<close>

fun apply_fields :: "('s \<Rightarrow> bytes \<Rightarrow> bytes \<Rightarrow> invalid + 's) \<Rightarrow> 's \<Rightarrow> (bytes \<times> bytes) list \<Rightarrow> invalid + 's" where
  "apply_fields field s [] = Inr s"
| "apply_fields field s ((name, val) # rest) = (case field s name val of
       Inl e \<Rightarrow> Inl e
     | Inr s' \<Rightarrow> apply_fields field s' rest)"

definition fields_fit :: "(bytes \<times> bytes) list \<Rightarrow> bool" where
  "fields_fit fs \<longleftrightarrow> list_all (\<lambda>(name, val). length name < 2 ^ 35 \<and> length val < 2 ^ 35) fs"

lemma qpack_encode_bytes: "qpack_encode fs out = out @ [0, 0] @ concat (map (encode_field []) fs)"
proof -
  have "foldl encode_field out fs = out @ concat (map (encode_field []) fs)" for out
  proof (induction fs arbitrary: out)
    case (Cons f fs)
    then show ?case using encode_field_append [of out f] by simp
  qed simp
  then show ?thesis by (simp add: qpack_encode_def)
qed

lemma decode_fields_encoded:
  "fields_fit fs \<Longrightarrow> decode_fields field s (concat (map (encode_field []) fs)) = Some (apply_fields field s fs)"
proof (induction fs arbitrary: s)
  case Nil
  show ?case by (simp add: decode_fields.simps)
next
  case (Cons f fs)
  obtain name val where f: "f = (name, val)" by (cases f)
  from Cons.prems have fit: "length name < 2 ^ 35" "length val < 2 ^ 35" "fields_fit fs"
    by (simp_all add: fields_fit_def f)
  let ?tail = "concat (map (encode_field []) fs)"
  obtain b bs where e: "encode_field [] f = b # bs" and l: "field_line (encode_field [] f @ ?tail) b = Some (Inr (name, val, ?tail))"
    using field_read_back [OF fit(1,2), of ?tail] f by auto
  have sec: "concat (map (encode_field []) (f # fs)) = b # bs @ ?tail" by (simp add: e)
  have "field_line (b # bs @ ?tail) b = Some (Inr (name, val, ?tail))" using l by (simp add: e)
  then show ?case
    unfolding sec decode_fields.simps [of field s "b # bs @ ?tail"] using Cons.IH [OF fit(3)]
    by (simp add: f split: sum.splits)
qed

lemma qpack_decode_encoded:
  "fields_fit fs \<Longrightarrow> qpack_decode field s (qpack_encode fs []) = Some (apply_fields field s fs)"
  using decode_fields_encoded [of fs field s]
  by (simp add: qpack_encode_bytes qpack_decode_def qpack_integer_def)

lemma and_then_None [simp]: "and_then r f = None \<longleftrightarrow> r = None \<or> (\<exists>x. r = Some (Inr x) \<and> f x = None)"
  by (auto simp: and_then_def split: option.splits sum.splits)

lemma integer_rest_total [simp]: "integer_rest shifts v rest \<noteq> None"
  by (induction shifts v rest rule: integer_rest.induct) (auto simp: Let_def)

lemma qpack_integer_total [simp]: "qpack_integer sec bits \<noteq> None"
  by (simp add: qpack_integer_def Let_def del: not_None_eq split: list.splits)

lemma qpack_string_total [simp]: "qpack_string sec bits \<noteq> None"
  by (simp add: qpack_string_def Let_def huffman_decode_total del: not_None_eq split: prod.splits)

lemma field_line_total [simp]: "field_line sec first \<noteq> None"
  by (simp add: field_line_def qpack_entry_def del: not_None_eq split: prod.splits)

lemma decode_fields_total [simp]: "decode_fields field s sec \<noteq> None"
proof (induction field s sec rule: decode_fields.induct)
  case (1 field s sec)
  show ?case
  proof (cases sec)
    case Nil
    then show ?thesis by (simp add: decode_fields.simps)
  next
    case (Cons b bs)
    then show ?thesis using 1 [OF Cons] field_line_total [of sec b]
      by (subst decode_fields.simps) (auto split: option.splits sum.splits)
  qed
qed

lemma qpack_decode_total [simp]: "qpack_decode field s sec \<noteq> None"
  by (simp add: qpack_decode_def del: not_None_eq split: list.splits prod.splits)


lemma and_then_Inl: "and_then r f = Some (Inl e) \<longleftrightarrow> r = Some (Inl e) \<or> (\<exists>x. r = Some (Inr x) \<and> f x = Some (Inl e))"
  by (auto simp: and_then_def split: option.splits sum.splits)

lemma qpack_integer_errors: "qpack_integer sec bits = Some (Inl e) \<Longrightarrow> e = Qpack"
proof -
  have "integer_rest shifts v rest = Some (Inl e) \<Longrightarrow> e = Qpack" for shifts v rest
    by (induction shifts v rest rule: integer_rest.induct) (auto simp: Let_def split: if_splits)
  then show "qpack_integer sec bits = Some (Inl e) \<Longrightarrow> e = Qpack"
    by (auto simp: qpack_integer_def Let_def split: list.splits if_splits)
qed

lemma huffman_decode_errors: "huffman_decode bs out = Some (Inl e) \<Longrightarrow> e = Qpack"
  using decode_sound [of bs out] by auto

lemma qpack_string_errors: "qpack_string sec bits = Some (Inl e) \<Longrightarrow> e = Qpack"
  by (auto simp: qpack_string_def Let_def and_then_Inl split: if_splits dest: qpack_integer_errors huffman_decode_errors)

lemma field_line_errors: "field_line sec first = Some (Inl e) \<Longrightarrow> e = Qpack"
  by (auto simp: field_line_def and_then_Inl qpack_entry_def split: if_splits dest: qpack_integer_errors qpack_string_errors)

lemma decode_fields_errors:
  "decode_fields field s sec = Some (Inl e) \<Longrightarrow> e = Qpack \<or> (\<exists>s' name val. field s' name val = Inl e)"
proof (induction field s sec rule: decode_fields.induct)
  case (1 field s sec)
  show ?case
  proof (cases sec)
    case Nil
    then show ?thesis using 1(2) by (simp add: decode_fields.simps)
  next
    case (Cons b bs)
    with 1(2) show ?thesis using 1(1) [OF Cons] field_line_errors [of sec b]
      by (subst (asm) decode_fields.simps) (auto split: option.splits sum.splits)
  qed
qed

lemma qpack_decode_errors:
  "qpack_decode field s sec = Some (Inl e) \<Longrightarrow> e = Qpack \<or> (\<exists>s' name val. field s' name val = Inl e)"
  by (auto simp: qpack_decode_def and_then_Inl split: list.splits if_splits
      dest!: qpack_integer_errors dest: decode_fields_errors)

lemma integer_rest_bound:
  "integer_rest (map ((*) 7) [j..<5]) v rest = Some (Inr (w, tail)) \<Longrightarrow> j \<le> 5 \<Longrightarrow>
     unat w + 2 ^ (7 * j) \<le> unat v + 2 ^ 35"
proof (induction "5 - j" arbitrary: j v rest)
  case 0
  then show ?case by simp
next
  case (Suc k)
  then have j: "j < 5" by simp
  then have shifts: "map ((*) 7) [j..<5] = 7 * j # map ((*) 7) [Suc j..<5]" by (simp add: upt_conv_Cons)
  obtain byte more where rest: "rest = byte # more" using Suc.prems(1) by (cases rest) (simp_all add: shifts)
  let ?v = "v + push_bit (7 * j) (ucast (byte AND 0x7f))"
  have "unat (push_bit (7 * j) (ucast (byte AND 0x7f) :: u64)) \<le> 127 * 2 ^ (7 * j)"
  proof -
    have "unat (ucast (byte AND 0x7f) :: u64) \<le> 127" by (simp add: unat_cast unat_low_seven mod_less_eq_dividend [THEN order_trans])
    then have "unat (ucast (byte AND 0x7f) :: u64) * 2 ^ (7 * j) \<le> 127 * 2 ^ (7 * j)" by (rule mult_le_mono1)
    then show ?thesis unfolding unat_push by (rule order_trans [OF mod_less_eq_dividend])
  qed
  then have v: "unat ?v \<le> unat v + 127 * 2 ^ (7 * j)"
    unfolding unat_word_ariths(1) by (intro order_trans [OF mod_less_eq_dividend]) simp
  have pow: "(2::nat) ^ (7 * Suc j) = 128 * 2 ^ (7 * j)" by (simp add: power_add)
  show ?case
  proof (cases "byte AND 0x80 = 0")
    case True
    then have "w = ?v" using Suc.prems(1) by (simp add: shifts rest)
    moreover have "(2::nat) ^ (7 * Suc j) \<le> 2 ^ 35" using j by (intro power_increasing) auto
    ultimately show ?thesis using v pow by simp
  next
    case False
    then have "integer_rest (map ((*) 7) [Suc j..<5]) ?v more = Some (Inr (w, tail))"
      using Suc.prems(1) by (simp add: shifts rest)
    from Suc.hyps(1) [OF _ this] have "unat w + 2 ^ (7 * Suc j) \<le> unat ?v + 2 ^ 35" using Suc.hyps(2) j by simp
    then show ?thesis using v pow by linarith
  qed
qed

lemma qpack_integer_bound:
  assumes "bits \<le> 7" and "qpack_integer sec bits = Some (Inr (v, rest))"
  shows "unat v < 2 ^ 35 + 2 ^ bits - 1"
proof -
  let ?m = "push_bit bits 1 - 1 :: u64"
  obtain b more where sec: "sec = b # more" using assms(2) by (cases sec) (simp_all add: qpack_integer_def)
  show ?thesis
  proof (cases "ucast b AND ?m = ?m")
    case True
    then have "integer_rest (map ((*) 7) [0..<5]) ?m more = Some (Inr (v, rest))"
      using assms(2) by (simp add: sec qpack_integer_def upt_rec numeral_eq_Suc)
    from integer_rest_bound [OF this] unat_max [OF assms(1)] show ?thesis by simp
  next
    case False
    then have "v = ucast b AND ?m" using assms(2) by (simp add: sec qpack_integer_def Let_def)
    then have "v = take_bit bits (ucast b)" by (simp add: take_bit_eq_mask mask_eq_exp_minus_1)
    then have "unat v = take_bit bits (unat (ucast b :: u64))" by (simp only: unsigned_take_bit_eq)
    then have "unat v < 2 ^ bits" by (simp add: take_bit_eq_mod)
    then show ?thesis by simp
  qed
qed

subsection \<open>The decoder stream\<close>

lemma decoder_stream_append:
  "decoder_stream_read c (xs @ ys) = (case decoder_stream_read c xs of Inl e \<Rightarrow> Inl e | Inr c' \<Rightarrow> decoder_stream_read c' ys)"
  by (induction c xs rule: decoder_stream_read.induct) auto

definition decoder_step :: "bool \<Rightarrow> u8 \<Rightarrow> (unit, code, bool) outcome" where
  "decoder_step c b = ([], decoder_stream_read c [b])"

definition decoder_feed :: "bool \<Rightarrow> bytes \<Rightarrow> (unit, code, bool) outcome" where
  "decoder_feed c bs = ([], decoder_stream_read c bs)"

lemma decoder_run: "run_bytes decoder_step c bs = decoder_feed c bs"
proof (induction bs arbitrary: c)
  case (Cons b bs)
  have "decoder_stream_read c (b # bs) = (case decoder_stream_read c [b] of Inl e \<Rightarrow> Inl e | Inr c' \<Rightarrow> decoder_stream_read c' bs)"
    using decoder_stream_append [of c "[b]" bs] by simp
  then show ?case
    by (cases "decoder_stream_read c [b]")
      (simp_all add: Cons.IH decoder_step_def [of c b] decoder_feed_def del: decoder_stream_read.simps)
qed (simp add: decoder_feed_def)

interpretation decoder_stream: byte_reader decoder_step decoder_feed id "\<lambda>_. True"
  by unfold_locales (simp_all add: decoder_run map_out_def decoder_feed_def split: sum.splits)

lemma decoder_stream_rest: "decoder_stream_read True (put_integer_rest r [] @ tail) = decoder_stream_read False tail"
proof (induction "unat r" arbitrary: r rule: less_induct)
  case less
  show ?case
  proof (cases "r \<ge> 0x80")
    case True
    then have lt: "unat (drop_bit 7 r) < unat r" by (intro shifted_less) simp
    have "put_integer_rest r [] = (0x80 OR ucast r) # put_integer_rest (drop_bit 7 r) []"
      using True put_integer_rest_append [of "drop_bit 7 r" "[0x80 OR ucast r]"] by (simp add: put_integer_rest.simps [of r])
    then show ?thesis using less [OF lt] by (simp add: continued_byte)
  next
    case False
    then have "put_integer_rest r [] = [ucast r]" by (simp add: put_integer_rest.simps [of r])
    with False low_byte [of r] show ?thesis by simp
  qed
qed

lemma decoder_stream_cancel: "decoder_stream_read False (put_integer v 6 0x40 [] @ tail) = decoder_stream_read False tail"
proof (cases "v < 0x3f")
  case True
  have e: "put_integer v 6 0x40 [] = [0x40 OR ucast v]" using True by (simp add: put_integer_def)
  have v: "unat v < 63" using True by (simp add: word_less_nat_alt)
  have "unat (ucast v :: u8) < 63" using v by (simp add: unat_cast)
  then obtain n where n: "n < 63" "(ucast v :: u8) = of_nat n" by (metis unat_eq_imp)
  have "list_all (\<lambda>n. (0x40 OR of_nat n :: u8) AND 0xc0 = 0x40 \<and> (0x40 OR of_nat n :: u8) AND 0x3f \<noteq> 0x3f) [0..<63]" by code_simp
  then have "(0x40 OR ucast v :: u8) AND 0xc0 = 0x40 \<and> (0x40 OR ucast v :: u8) AND 0x3f \<noteq> 0x3f"
    using n by (simp add: list_all_iff)
  then show ?thesis by (simp add: e)
next
  case False
  then have "put_integer v 6 0x40 [] = 0x7f # put_integer_rest (v - 0x3f) []"
    using put_integer_rest_append [of "v - 0x3f" "[0x7f]"] by (simp add: put_integer_def)
  then show ?thesis by (simp add: decoder_stream_rest)
qed

lemma decoder_stream_cancels:
  "decoder_stream_read False (concat (map (\<lambda>v. put_integer v 6 0x40 []) ids) @ tail) = decoder_stream_read False tail"
  by (induction ids) (simp_all add: decoder_stream_cancel)


subsection \<open>Properties\<close>

text \<open>
  C9. A field section reads back as the fields it was made from, in order and each handed to the callback
  exactly once, whatever mix of static entries, static names, plain and Huffman literals the encoder chose;
  a field the callback refuses ends the decoding with the callback's own error. Names and values are below
  32 GiB, the range of the decoder's integers.
\<close>

theorem qpack_section_round_trip:
  assumes "fields_fit fs"
  shows "qpack_decode field s (qpack_encode fs []) = Some (apply_fields field s fs)"
  by (rule qpack_decode_encoded [OF assms])

theorem qpack_section_round_trip_witness:
  "qpack_decode (\<lambda>n name val. if length val < 4 then Inr (n + length val) else Inl TooLarge) 0
     (qpack_encode [(as_bytes '':method'', as_bytes ''GET''), (as_bytes ''x'', as_bytes ''y'')] []) = Some (Inr (4 :: nat))"
  by (subst qpack_section_round_trip) (simp_all add: fields_fit_def as_bytes_def)

text \<open>
  Decoding returns on every section and for every callback: no Huffman string, index or length makes it panic,
  and it ends either with the callback's state or with an error.
\<close>

theorem qpack_decode_returns:
  "(\<exists>s'. qpack_decode field s sec = Some (Inr s')) \<or> qpack_decode field s sec = Some (Inl Qpack) \<or>
   (\<exists>e s' name val. qpack_decode field s sec = Some (Inl e) \<and> field s' name val = Inl e)"
proof (cases "qpack_decode field s sec")
  case None
  then show ?thesis by simp
next
  case (Some r)
  then show ?thesis using qpack_decode_errors [of field s sec] by (cases r) auto
qed

text \<open>
  A prefixed integer survives the round trip behind any pattern and before any tail up to the bound
  \<open>2 ^ 35 + 2 ^ bits - 2\<close>, and nothing the reader accepts is larger. The bound is attained, so the
  comment's \<open>at most 2^35\<close> is exceeded by up to 126.
\<close>

theorem qpack_integer_range:
  assumes "bits \<le> 7" and "unat (pattern :: u8) = p * 2 ^ bits"
  shows "(unat v < 2 ^ 35 + 2 ^ bits - 1 \<longleftrightarrow>
      qpack_integer (put_integer v bits pattern [] @ tail) bits = Some (Inr (v, tail))) \<and>
    (\<forall>sec w rest. qpack_integer sec bits = Some (Inr (w, rest)) \<longrightarrow> unat w < 2 ^ 35 + 2 ^ bits - 1 \<and> length rest < length sec)"
  using integer_read_back [OF assms] qpack_integer_bound [OF assms(1)] qpack_integer_shorter by blast

theorem qpack_integer_range_witness:
  "qpack_integer (put_integer (2 ^ 35 + 126) 7 0 [] @ [1]) 7 = Some (Inr (2 ^ 35 + 126, [1]))"
  using qpack_integer_range [of 7 0 0 "2 ^ 35 + 126" "[1]"] by simp

text \<open>
  The decoder stream accepts Stream Cancellations, however many, however long their identifiers and however
  the stream is cut into chunks, and nothing else: an instruction of another kind after them is
  \<open>QPACK_DECODER_STREAM_ERROR\<close>.
\<close>

theorem decoder_stream_cancellations:
  assumes "concat chunks = concat (map (\<lambda>v. put_integer v 6 0x40 []) ids) @ tail"
    and "tail = [] \<or> hd tail AND 0xc0 \<noteq> 0x40"
  shows "snd (feed_chunks decoder_feed False chunks) =
    (if tail = [] then Inr False else Inl QPACK_DECODER_STREAM_ERROR)"
proof -
  have "map_out id (feed_chunks decoder_feed False chunks) = map_out id (decoder_feed False (concat chunks))"
    by (rule decoder_stream.one_chunk) simp
  then have "feed_chunks decoder_feed False chunks = decoder_feed False (concat chunks)"
    by (simp add: map_out_def split: prod.splits sum.splits)
  then show ?thesis
    using assms(2) decoder_stream_cancels [of ids tail]
    by (cases tail) (simp_all add: decoder_feed_def assms(1))
qed

theorem decoder_stream_cancellations_witness:
  "snd (feed_chunks decoder_feed False [[0x44, 0x7f], [0x01, 0x41]]) = Inr False"
proof -
  have "concat (map (\<lambda>v. put_integer v 6 0x40 []) [4, 64, 1]) = [0x44, 0x7f, 0x01, 0x41]"
    by code_simp
  then show ?thesis
    using decoder_stream_cancellations [of "[[0x44, 0x7f], [0x01, 0x41]]" "[4, 64, 1]" "[]"] by simp
qed

end
