(* ===== verification/Decimal.thy ===== *)
theory Decimal
  imports Prelude
begin

text \<open>
  Decimal numbers in text, as Rust's integer \<open>Display\<close> and \<open>FromStr\<close> write and read them, and the check of
  \<^verbatim>\<open>std::str::from_utf8\<close>. The components that parse or print numbers share the facts here.
\<close>

definition is_ascii_digit :: "u8 \<Rightarrow> bool" where
  "is_ascii_digit b \<longleftrightarrow> 48 \<le> b \<and> b \<le> 57"

definition digits_value :: "bytes \<Rightarrow> nat" where
  "digits_value digits = foldl (\<lambda>n b. n * 10 + (unat b - 48)) 0 digits"

definition digit :: "nat \<Rightarrow> u8" where
  "digit n = of_nat (48 + n mod 10)"

fun show_decimal :: "nat \<Rightarrow> bytes" where
  "show_decimal n = (if n < 10 then [digit n] else show_decimal (n div 10) @ [digit n])"

declare show_decimal.simps [simp del]

text \<open>Zero padding to a width, as \<open>{:0width$}\<close> does.\<close>

definition pad_decimal :: "nat \<Rightarrow> nat \<Rightarrow> bytes" where
  "pad_decimal width n = replicate (width - length (show_decimal n)) (digit 0) @ show_decimal n"

lemma unat_digit: "unat (digit n) = 48 + n mod 10"
proof -
  have "48 + n mod 10 < 2 ^ 8" by (rule less_trans [of _ 58]) simp_all
  then show ?thesis unfolding digit_def by (intro unat_of_small) simp
qed

lemma is_digit: "is_ascii_digit (digit n)"
proof -
  have "n mod 10 \<le> 9" using mod_less_divisor [of 10 n] by linarith
  then show ?thesis by (simp add: is_ascii_digit_def word_le_nat_alt unat_digit)
qed

lemma digits_value_Nil [simp]: "digits_value [] = 0"
  by (simp add: digits_value_def)

lemma digits_value_snoc [simp]: "digits_value (ds @ [b]) = digits_value ds * 10 + (unat b - 48)"
  by (simp add: digits_value_def)

lemma digits_value_append: "digits_value (ds @ es) = digits_value ds * 10 ^ length es + digits_value es"
proof (induction es rule: rev_induct)
  case (snoc e es)
  then have "digits_value ((ds @ es) @ [e]) = (digits_value ds * 10 ^ length es + digits_value es) * 10 + (unat e - 48)" by (simp only: digits_value_snoc)
  then show ?case by (simp add: algebra_simps)
qed simp

lemma digits_value_zeros [simp]: "digits_value (replicate n (digit 0) @ ds) = digits_value ds"
proof -
  have "digits_value (replicate n (digit 0)) = 0"
    by (induction n) (simp_all add: digits_value_def unat_digit)
  then show ?thesis by (simp add: digits_value_append)
qed

lemma digits_value_bound: "list_all is_ascii_digit ds \<Longrightarrow> digits_value ds < 10 ^ length ds"
proof (induction ds rule: rev_induct)
  case (snoc d ds)
  have "unat d \<le> 57" using snoc.prems by (auto simp: is_ascii_digit_def word_le_nat_alt)
  moreover have "digits_value ds + 1 \<le> 10 ^ length ds" using snoc by simp
  then have "(digits_value ds + 1) * 10 \<le> 10 ^ length ds * 10" by (rule mult_right_mono) simp
  ultimately show ?case by simp
qed simp

lemma show_decimal_value [simp]: "digits_value (show_decimal n) = n"
proof (induction n rule: show_decimal.induct)
  case (1 n)
  show ?case
  proof (cases "n < 10")
    case True
    then show ?thesis using digits_value_snoc [of "[]" "digit n"] by (simp add: show_decimal.simps [of n] unat_digit)
  next
    case False
    then show ?thesis using 1 by (simp add: show_decimal.simps [of n] unat_digit)
  qed
qed

lemma show_decimal_digits: "show_decimal n \<noteq> [] \<and> list_all is_ascii_digit (show_decimal n)"
proof (induction n rule: show_decimal.induct)
  case (1 n)
  then show ?case by (cases "n < 10") (simp_all add: show_decimal.simps [of n] is_digit)
qed

lemma show_decimal_length: "n < 10 ^ Suc k \<Longrightarrow> length (show_decimal n) \<le> Suc k"
proof (induction n arbitrary: k rule: show_decimal.induct)
  case (1 n)
  show ?case
  proof (cases "n < 10")
    case True
    then show ?thesis by (simp add: show_decimal.simps [of n])
  next
    case False
    then obtain j where j: "k = Suc j" using 1(2) by (cases k) auto
    have "n div 10 < 10 ^ Suc j" using 1(2) unfolding j by (simp add: less_mult_imp_div_less mult.commute)
    then show ?thesis using 1(1) [OF False] False j by (simp add: show_decimal.simps [of n])
  qed
qed

lemma pad_decimal_length: "n < 10 ^ w \<Longrightarrow> 0 < w \<Longrightarrow> length (pad_decimal w n) = w"
  using show_decimal_length [of n "w - 1"] by (simp add: pad_decimal_def)

lemma pad_decimal_value [simp]: "digits_value (pad_decimal w n) = n"
  by (simp add: pad_decimal_def)

lemma pad_decimal_digits: "list_all is_ascii_digit (pad_decimal w n)"
  using show_decimal_digits [of n] is_digit [of 0] by (auto simp: pad_decimal_def list_all_iff)

subsection \<open>UTF-8\<close>

definition is_continuation :: "u8 \<Rightarrow> bool" where
  "is_continuation b \<longleftrightarrow> 0x80 \<le> b \<and> b \<le> 0xbf"

text \<open>The well-formed byte sequences: how many continuation bytes follow a first byte, and the range of the next one.\<close>

definition utf8_first :: "u8 \<Rightarrow> (nat \<times> u8 \<times> u8) option" where
  "utf8_first b =
     (if b < 0x80 then Some (0, 0x80, 0xbf)
      else if 0xc2 \<le> b \<and> b \<le> 0xdf then Some (1, 0x80, 0xbf)
      else if b = 0xe0 then Some (2, 0xa0, 0xbf)
      else if b = 0xed then Some (2, 0x80, 0x9f)
      else if 0xe1 \<le> b \<and> b \<le> 0xef then Some (2, 0x80, 0xbf)
      else if b = 0xf0 then Some (3, 0x90, 0xbf)
      else if 0xf1 \<le> b \<and> b \<le> 0xf3 then Some (3, 0x80, 0xbf)
      else if b = 0xf4 then Some (3, 0x80, 0x8f)
      else None)"

function from_utf8 :: "bytes \<Rightarrow> bool" where
  "from_utf8 [] = True"
| "from_utf8 (b # bs) = (case utf8_first b of
       None \<Rightarrow> False
     | Some (n, low, high) \<Rightarrow>
         n \<le> length bs \<and> (0 < n \<longrightarrow> low \<le> bs ! 0 \<and> bs ! 0 \<le> high) \<and> list_all is_continuation (take n bs) \<and> from_utf8 (drop n bs))"
  by pat_completeness auto
termination by (relation "measure length") auto

lemma from_utf8_ascii: "list_all (\<lambda>b. b < 0x80) bs \<Longrightarrow> from_utf8 bs"
  by (induction bs) (simp_all add: utf8_first_def)

lemma digits_ascii: "list_all is_ascii_digit ds \<Longrightarrow> list_all (\<lambda>b. b < 0x80) ds"
  by (auto simp: list_all_iff is_ascii_digit_def word_le_nat_alt word_less_nat_alt)

end
