(* ===== verification/Message_Fields.thy ===== *)
theory Message_Fields
  imports Decimal Qpack
begin

unbundle bit_operations_syntax

text \<open>
  HTTP messages as field sections, \<^verbatim>\<open>rust/http3/src/fields.rs\<close>: the decoders for requests, responses and
  trailers with their size and validity checks, and the encoders. The parsers of the \<^verbatim>\<open>http\<close> crate are
  parameters, collected in a record; a parsed name, value, method or URI part is represented by its text.
  The sizes are natural numbers: a sum of lengths of a section in memory stays below \<open>2 ^ 64\<close>.
\<close>

subsection \<open>The model\<close>

record http_lib =
  header_name :: "bytes \<Rightarrow> bytes option"
  header_value :: "bytes \<Rightarrow> bytes option"
  method_of :: "bytes \<Rightarrow> bytes option"
  scheme_of :: "bytes \<Rightarrow> bytes option"
  authority_of :: "bytes \<Rightarrow> bytes option"
  path_of :: "bytes \<Rightarrow> bytes option"
  status_of :: "bytes \<Rightarrow> nat option"
  status_text :: "nat \<Rightarrow> bytes"
  uri_of_parts :: "bytes \<Rightarrow> bytes \<Rightarrow> bytes \<Rightarrow> bool"

record field_state =
  fs_headers :: "(bytes \<times> bytes) list"
  fs_content_length :: "nat option"
  fs_size :: nat
  fs_regular :: bool

definition field_state_default :: field_state where
  "field_state_default = \<lparr>fs_headers = [], fs_content_length = None, fs_size = 0, fs_regular = False\<rparr>"

definition field_size :: "bytes \<Rightarrow> bytes \<Rightarrow> nat" where
  "field_size name val = length name + length val + 32"

definition fields_count :: "field_state \<Rightarrow> bytes \<Rightarrow> bytes \<Rightarrow> nat \<Rightarrow> invalid + field_state" where
  "fields_count f name val limit =
     (let f = f\<lparr>fs_size := fs_size f + field_size name val\<rparr>
      in if fs_size f > limit then Inl TooLarge else Inr f)"

definition fields_pseudo :: "field_state \<Rightarrow> invalid + unit" where
  "fields_pseudo f = (if fs_regular f then Inl Malformed else Inr ())"

definition connection_specific :: "bytes \<Rightarrow> bool" where
  "connection_specific name \<longleftrightarrow>
     name \<in> set (map as_bytes [''connection'', ''keep-alive'', ''proxy-connection'', ''transfer-encoding'', ''upgrade''])"

definition regular_field :: "http_lib \<Rightarrow> bytes \<Rightarrow> bytes \<Rightarrow> invalid + (bytes \<times> bytes)" where
  "regular_field lib name val = (case header_name lib name of
       None \<Rightarrow> Inl Malformed
     | Some name \<Rightarrow>
         if connection_specific name \<or> name = as_bytes ''te'' \<and> val \<noteq> as_bytes ''trailers'' then Inl Malformed
         else case header_value lib val of None \<Rightarrow> Inl Malformed | Some val \<Rightarrow> Inr (name, val))"

text \<open>The digits of \<open>content-length\<close>, refused when empty, not all digits or above a \<open>u64\<close>.\<close>

definition parse_length :: "bytes \<Rightarrow> nat option" where
  "parse_length digits =
     (if digits \<noteq> [] \<and> list_all is_ascii_digit digits \<and> digits_value digits < 2 ^ 64
      then Some (digits_value digits) else None)"

definition fields_regular :: "http_lib \<Rightarrow> field_state \<Rightarrow> bytes \<Rightarrow> bytes \<Rightarrow> invalid + field_state" where
  "fields_regular lib f name val = (case regular_field lib name val of
       Inl e \<Rightarrow> Inl e
     | Inr (name, val) \<Rightarrow>
         let f = f\<lparr>fs_regular := True\<rparr>
         in if name = as_bytes ''content-length''
            then case parse_length val of
                None \<Rightarrow> Inl Malformed
              | Some len \<Rightarrow>
                  let held = (case fs_content_length f of None \<Rightarrow> len | Some held \<Rightarrow> held);
                      f = f\<lparr>fs_content_length := Some held\<rparr>
                  in if held \<noteq> len then Inl Malformed
                     else Inr (f\<lparr>fs_headers := fs_headers f @ [(name, val)]\<rparr>)
            else Inr (f\<lparr>fs_headers := fs_headers f @ [(name, val)]\<rparr>))"

text \<open>Sets a pseudo-header once; a repeat or an invalid value is malformed.\<close>

definition set_once :: "'t option \<Rightarrow> 't option \<Rightarrow> invalid + 't option" where
  "set_once held val = (case (held, val) of (None, Some v) \<Rightarrow> Inr (Some v) | _ \<Rightarrow> Inl Malformed)"

record request_state =
  rs_fields :: field_state
  rs_method :: "bytes option"
  rs_scheme :: "bytes option"
  rs_authority :: "bytes option"
  rs_path :: "bytes option"
  rs_protocol :: "bool option"

definition request_state_default :: request_state where
  "request_state_default = \<lparr>rs_fields = field_state_default, rs_method = None, rs_scheme = None,
     rs_authority = None, rs_path = None, rs_protocol = None\<rparr>"

text \<open>A pseudo-header of a request: the updated state, before the check that no regular field came first.\<close>

definition request_pseudo :: "http_lib \<Rightarrow> request_state \<Rightarrow> bytes \<Rightarrow> bytes \<Rightarrow> invalid + request_state" where
  "request_pseudo lib s name val =
     (if name = as_bytes '':method'' then map_sum id (\<lambda>x. s\<lparr>rs_method := x\<rparr>) (set_once (rs_method s) (method_of lib val))
      else if name = as_bytes '':scheme'' then map_sum id (\<lambda>x. s\<lparr>rs_scheme := x\<rparr>) (set_once (rs_scheme s) (scheme_of lib val))
      else if name = as_bytes '':authority'' then map_sum id (\<lambda>x. s\<lparr>rs_authority := x\<rparr>) (set_once (rs_authority s) (authority_of lib val))
      else if name = as_bytes '':path'' then map_sum id (\<lambda>x. s\<lparr>rs_path := x\<rparr>) (set_once (rs_path s) (path_of lib val))
      else if name = as_bytes '':protocol''
      then map_sum id (\<lambda>x. s\<lparr>rs_protocol := x\<rparr>)
        (set_once (rs_protocol s) (Some (val = as_bytes ''webtransport'' \<or> val = as_bytes ''webtransport-h3'')))
      else Inl Malformed)"

definition starts_with_colon :: "bytes \<Rightarrow> bool" where
  "starts_with_colon name \<longleftrightarrow> (case name of [] \<Rightarrow> False | b # _ \<Rightarrow> b = of_char CHR '':'')"

definition request_field :: "http_lib \<Rightarrow> nat \<Rightarrow> request_state \<Rightarrow> bytes \<Rightarrow> bytes \<Rightarrow> invalid + request_state" where
  "request_field lib limit s name val = (case fields_count (rs_fields s) name val limit of
       Inl e \<Rightarrow> Inl e
     | Inr f \<Rightarrow>
         let s = s\<lparr>rs_fields := f\<rparr>
         in if starts_with_colon name
            then case request_pseudo lib s name val of
                Inl e \<Rightarrow> Inl e
              | Inr s \<Rightarrow> (case fields_pseudo (rs_fields s) of Inl e \<Rightarrow> Inl e | Inr _ \<Rightarrow> Inr s)
            else case fields_regular lib (rs_fields s) name val of
                Inl e \<Rightarrow> Inl e
              | Inr f \<Rightarrow> Inr (s\<lparr>rs_fields := f\<rparr>))"

definition request_authority :: "http_lib \<Rightarrow> bytes option \<Rightarrow> (bytes \<times> bytes) list \<Rightarrow> invalid + bytes" where
  "request_authority lib authority headers =
     (let hosts = map snd (filter (\<lambda>(name, _). name = as_bytes ''host'') headers);
          chosen = (case (authority, hosts) of
              (_, _ # _ # _) \<Rightarrow> Inl Malformed
            | (None, []) \<Rightarrow> Inl Malformed
            | (Some authority, [host]) \<Rightarrow> if authority \<noteq> host then Inl Malformed else Inr authority
            | (Some authority, []) \<Rightarrow> Inr authority
            | (None, [host]) \<Rightarrow> (case authority_of lib host of None \<Rightarrow> Inl Malformed | Some a \<Rightarrow> Inr a))
      in case chosen of
          Inl e \<Rightarrow> Inl e
        | Inr authority \<Rightarrow> if of_char CHR ''@'' \<in> set authority then Inl Malformed else Inr authority)"

record request_head =
  rq_method :: bytes
  rq_scheme :: bytes
  rq_authority :: bytes
  rq_path :: bytes
  rq_headers :: "(bytes \<times> bytes) list"
  rq_content_length :: "nat option"
  rq_size :: nat

definition connect_check :: "request_state \<Rightarrow> bytes \<Rightarrow> invalid + unit" where
  "connect_check s method =
     (if method = as_bytes ''CONNECT''
      then let extended = rs_scheme s \<noteq> None \<and> rs_path s \<noteq> None \<and> rs_authority s \<noteq> None
           in case rs_protocol s of
               Some webtransport \<Rightarrow>
                 if extended then if webtransport then Inr () else Inl Unsupported else Inl Malformed
             | None \<Rightarrow>
                 if rs_authority s \<noteq> None \<and> rs_scheme s = None \<and> rs_path s = None then Inl Unsupported
                 else Inl Malformed
      else if rs_protocol s \<noteq> None then Inl Malformed else Inr ())"

definition starts_with_slash :: "bytes \<Rightarrow> bool" where
  "starts_with_slash path \<longleftrightarrow> (case path of [] \<Rightarrow> False | b # _ \<Rightarrow> b = of_char CHR ''/'')"

definition request_finish :: "http_lib \<Rightarrow> request_state \<Rightarrow> invalid + request_head" where
  "request_finish lib s = (case rs_method s of
       None \<Rightarrow> Inl Malformed
     | Some method \<Rightarrow> (case connect_check s method of
           Inl e \<Rightarrow> Inl e
         | Inr _ \<Rightarrow> (case request_authority lib (rs_authority s) (fs_headers (rs_fields s)) of
               Inl e \<Rightarrow> Inl e
             | Inr authority \<Rightarrow> (case rs_path s of
                   None \<Rightarrow> Inl Malformed
                 | Some path \<Rightarrow>
                     if \<not> starts_with_slash path \<and> \<not> (method = as_bytes ''OPTIONS'' \<and> path = as_bytes ''*'')
                     then Inl Malformed
                     else case rs_scheme s of
                         None \<Rightarrow> Inl Malformed
                       | Some scheme \<Rightarrow>
                           if \<not> uri_of_parts lib scheme authority path then Inl Malformed
                           else Inr \<lparr>rq_method = method, rq_scheme = scheme, rq_authority = authority,
                             rq_path = path, rq_headers = fs_headers (rs_fields s),
                             rq_content_length = fs_content_length (rs_fields s), rq_size = fs_size (rs_fields s)\<rparr>))))"

definition decode_request :: "http_lib \<Rightarrow> bytes \<Rightarrow> nat \<Rightarrow> request_head fallible" where
  "decode_request lib section limit =
     and_then (qpack_decode (request_field lib limit) request_state_default section) (\<lambda>s. Some (request_finish lib s))"

record response_head =
  rp_status :: nat
  rp_headers :: "(bytes \<times> bytes) list"
  rp_content_length :: "nat option"
  rp_size :: nat

definition response_field ::
    "http_lib \<Rightarrow> nat \<Rightarrow> field_state \<times> nat option \<Rightarrow> bytes \<Rightarrow> bytes \<Rightarrow> invalid + (field_state \<times> nat option)" where
  "response_field lib limit s name val = (case fields_count (fst s) name val limit of
       Inl e \<Rightarrow> Inl e
     | Inr f \<Rightarrow>
         if name = as_bytes '':status'' \<and> val \<noteq> as_bytes ''101''
         then case set_once (snd s) (status_of lib val) of
             Inl e \<Rightarrow> Inl e
           | Inr status \<Rightarrow> (case fields_pseudo f of Inl e \<Rightarrow> Inl e | Inr _ \<Rightarrow> Inr (f, status))
         else if starts_with_colon name then Inl Malformed
         else case fields_regular lib f name val of Inl e \<Rightarrow> Inl e | Inr f \<Rightarrow> Inr (f, snd s))"

definition decode_response :: "http_lib \<Rightarrow> bytes \<Rightarrow> nat \<Rightarrow> response_head fallible" where
  "decode_response lib section limit =
     and_then (qpack_decode (response_field lib limit) (field_state_default, None) section) (\<lambda>(f, status).
       case status of
         None \<Rightarrow> Some (Inl Malformed)
       | Some status \<Rightarrow> Some (Inr \<lparr>rp_status = status, rp_headers = fs_headers f,
           rp_content_length = fs_content_length f, rp_size = fs_size f\<rparr>))"

definition check_trailers :: "http_lib \<Rightarrow> bytes \<Rightarrow> nat \<Rightarrow> unit fallible" where
  "check_trailers lib section limit =
     and_then (qpack_decode (\<lambda>f name val. case fields_count f name val limit of
           Inl e \<Rightarrow> Inl e
         | Inr f \<Rightarrow> (case regular_field lib name val of Inl e \<Rightarrow> Inl e | Inr _ \<Rightarrow> Inr f))
       field_state_default section) (\<lambda>_. Some (Inr ()))"

text \<open>
  The encoders. \<open>headers\<close> is the sequence the header map's iterator yields.
\<close>

definition encoded_fields :: "(bytes \<times> bytes) list \<Rightarrow> (bytes \<times> bytes) list \<Rightarrow> (bytes \<times> bytes) list" where
  "encoded_fields pseudo headers = pseudo @ filter (\<lambda>(name, _). \<not> connection_specific name) headers"

definition fields_encode :: "(bytes \<times> bytes) list \<Rightarrow> (bytes \<times> bytes) list \<Rightarrow> nat option \<Rightarrow> invalid + bytes" where
  "fields_encode pseudo headers limit =
     (let size = sum_list (map (\<lambda>(name, val). field_size name val) (encoded_fields pseudo headers))
      in if (case limit of None \<Rightarrow> False | Some limit \<Rightarrow> size > limit) then Inl TooLarge
         else Inr (qpack_encode (encoded_fields pseudo headers) []))"

record request_parts =
  pt_method :: bytes
  pt_scheme :: "bytes option"
  pt_authority :: "bytes option"
  pt_path :: "bytes option"
  pt_headers :: "(bytes \<times> bytes) list"

definition encode_request :: "request_parts \<Rightarrow> bytes option \<Rightarrow> nat option \<Rightarrow> invalid + bytes" where
  "encode_request request protocol limit = (case pt_scheme request of
       None \<Rightarrow> Inl Malformed
     | Some scheme \<Rightarrow> (case pt_authority request of
           None \<Rightarrow> Inl Malformed
         | Some authority \<Rightarrow>
             let path = (case pt_path request of None \<Rightarrow> as_bytes ''/'' | Some path \<Rightarrow> path);
                 pseudo = [(as_bytes '':method'', pt_method request), (as_bytes '':scheme'', scheme),
                   (as_bytes '':authority'', authority), (as_bytes '':path'', path),
                   (as_bytes '':protocol'', case protocol of None \<Rightarrow> [] | Some p \<Rightarrow> p)]
             in fields_encode (take (if protocol \<noteq> None then 5 else 4) pseudo) (pt_headers request) limit))"

definition encode_response :: "http_lib \<Rightarrow> nat \<Rightarrow> (bytes \<times> bytes) list \<Rightarrow> nat option \<Rightarrow> invalid + bytes" where
  "encode_response lib status headers limit =
     fields_encode [(as_bytes '':status'', status_text lib status)] headers limit"


subsection \<open>Reading back regular fields\<close>

lemma apply_fields_append:
  "apply_fields field s (xs @ ys) = (case apply_fields field s xs of Inl e \<Rightarrow> Inl e | Inr s' \<Rightarrow> apply_fields field s' ys)"
  by (induction field s xs rule: apply_fields.induct) (auto split: sum.splits)

text \<open>What both decoders do with a regular field: count it, then check and keep it.\<close>

definition regular_step :: "http_lib \<Rightarrow> nat \<Rightarrow> field_state \<Rightarrow> bytes \<Rightarrow> bytes \<Rightarrow> invalid + field_state" where
  "regular_step lib limit f name val = (case fields_count f name val limit of
       Inl e \<Rightarrow> Inl e
     | Inr f \<Rightarrow> fields_regular lib f name val)"

lemma request_field_regular:
  "\<not> starts_with_colon name \<Longrightarrow>
   request_field lib limit s name val = map_sum id (\<lambda>f. s\<lparr>rs_fields := f\<rparr>) (regular_step lib limit (rs_fields s) name val)"
  by (auto simp: request_field_def regular_step_def Let_def split: sum.splits)

lemma response_field_regular:
  "\<not> starts_with_colon name \<Longrightarrow>
   response_field lib limit s name val = map_sum id (\<lambda>f. (f, snd s)) (regular_step lib limit (fst s) name val)"
  by (auto simp: response_field_def regular_step_def starts_with_colon_def as_bytes_def split: sum.splits)

definition regular_names :: "(bytes \<times> bytes) list \<Rightarrow> bool" where
  "regular_names hs \<longleftrightarrow> list_all (\<lambda>(name, _). \<not> starts_with_colon name) hs"

lemma apply_request_regular:
  "regular_names hs \<Longrightarrow> apply_fields (request_field lib limit) s hs =
     map_sum id (\<lambda>f. s\<lparr>rs_fields := f\<rparr>) (apply_fields (regular_step lib limit) (rs_fields s) hs)"
proof (induction hs arbitrary: s)
  case (Cons h hs)
  obtain name val where h: "h = (name, val)" by (cases h)
  from Cons.prems have n: "\<not> starts_with_colon name" "regular_names hs" by (simp_all add: regular_names_def h)
  show ?case
    using Cons.IH [OF n(2)] by (cases "regular_step lib limit (rs_fields s) name val") (simp_all add: h request_field_regular n(1) sum.map_comp o_def)
qed simp

lemma apply_response_regular:
  "regular_names hs \<Longrightarrow> apply_fields (response_field lib limit) s hs =
     map_sum id (\<lambda>f. (f, snd s)) (apply_fields (regular_step lib limit) (fst s) hs)"
proof (induction hs arbitrary: s)
  case (Cons h hs)
  obtain name val where h: "h = (name, val)" by (cases h)
  from Cons.prems have n: "\<not> starts_with_colon name" "regular_names hs" by (simp_all add: regular_names_def h)
  show ?case
    using Cons.IH [OF n(2)] by (cases "regular_step lib limit (fst s) name val") (simp_all add: h response_field_regular n(1) sum.map_comp o_def)
qed simp

text \<open>Header fields a peer accepts, and the content length they declare.\<close>

definition header_ok :: "http_lib \<Rightarrow> bytes \<times> bytes \<Rightarrow> bool" where
  "header_ok lib = (\<lambda>(name, val). header_name lib name = Some name \<and> header_value lib val = Some val \<and>
     \<not> starts_with_colon name \<and> \<not> connection_specific name \<and> (name = as_bytes ''te'' \<longrightarrow> val = as_bytes ''trailers''))"

fun declared_length :: "nat option \<Rightarrow> (bytes \<times> bytes) list \<Rightarrow> nat option" where
  "declared_length len [] = len"
| "declared_length len ((name, val) # hs) =
     declared_length (if name = as_bytes ''content-length'' then parse_length val else len) hs"

fun lengths_agree :: "nat option \<Rightarrow> (bytes \<times> bytes) list \<Rightarrow> bool" where
  "lengths_agree len [] \<longleftrightarrow> True"
| "lengths_agree len ((name, val) # hs) \<longleftrightarrow>
     (if name = as_bytes ''content-length''
      then parse_length val \<noteq> None \<and> (len = None \<or> len = parse_length val) \<and> lengths_agree (parse_length val) hs
      else lengths_agree len hs)"

definition section_size :: "(bytes \<times> bytes) list \<Rightarrow> nat" where
  "section_size fs = sum_list (map (\<lambda>(name, val). field_size name val) fs)"

lemma section_size_simps [simp]:
  "section_size [] = 0" "section_size ((name, val) # fs) = field_size name val + section_size fs"
  "section_size (fs @ gs) = section_size fs + section_size gs"
  by (simp_all add: section_size_def)

lemma apply_regular:
  assumes "list_all (header_ok lib) hs" and "lengths_agree (fs_content_length f) hs"
    and "fs_size f + section_size hs \<le> limit"
  shows "apply_fields (regular_step lib limit) f hs = Inr \<lparr>fs_headers = fs_headers f @ hs,
     fs_content_length = declared_length (fs_content_length f) hs, fs_size = fs_size f + section_size hs,
     fs_regular = (fs_regular f \<or> hs \<noteq> [])\<rparr>"
  using assms
proof (induction hs arbitrary: f)
  case (Cons h hs)
  obtain name val where h: "h = (name, val)" by (cases h)
  let ?f = "f\<lparr>fs_headers := fs_headers f @ [h], fs_size := fs_size f + field_size name val, fs_regular := True,
     fs_content_length := (if name = as_bytes ''content-length'' then parse_length val else fs_content_length f)\<rparr>"
  have ok: "regular_field lib name val = Inr (name, val)"
    using Cons.prems(1) by (auto simp: h header_ok_def regular_field_def)
  have step: "regular_step lib limit f name val = Inr ?f"
    using Cons.prems(2,3) ok
    by (auto simp: h regular_step_def fields_count_def fields_regular_def Let_def split: option.splits)
  have "apply_fields (regular_step lib limit) f (h # hs) = apply_fields (regular_step lib limit) ?f hs"
    using step by (simp add: h)
  moreover have "lengths_agree (fs_content_length ?f) hs" using Cons.prems(2) by (simp add: h split: if_splits)
  moreover have "fs_size ?f + section_size hs \<le> limit" using Cons.prems(3) by (simp add: h)
  ultimately show ?case using Cons.IH [of ?f] Cons.prems(1) by (simp add: h)
qed simp


subsection \<open>Requests and responses read back\<close>

abbreviation kept_headers :: "(bytes \<times> bytes) list \<Rightarrow> (bytes \<times> bytes) list" where
  "kept_headers hs \<equiv> filter (\<lambda>(name, _). \<not> connection_specific name) hs"

definition request_path :: "request_parts \<Rightarrow> bytes" where
  "request_path r = (case pt_path r of None \<Rightarrow> as_bytes ''/'' | Some path \<Rightarrow> path)"

definition request_pseudos :: "request_parts \<Rightarrow> bytes option \<Rightarrow> (bytes \<times> bytes) list" where
  "request_pseudos r protocol =
     [(as_bytes '':method'', pt_method r), (as_bytes '':scheme'', the (pt_scheme r)),
      (as_bytes '':authority'', the (pt_authority r)), (as_bytes '':path'', request_path r)] @
     (case protocol of None \<Rightarrow> [] | Some p \<Rightarrow> [(as_bytes '':protocol'', p)])"

text \<open>A request as a client of this program builds it: its parts are in the form the parsers print.\<close>

definition request_ok :: "http_lib \<Rightarrow> request_parts \<Rightarrow> bytes option \<Rightarrow> bool" where
  "request_ok lib r protocol \<longleftrightarrow>
     list_all (header_ok lib) (kept_headers (pt_headers r)) \<and> lengths_agree None (kept_headers (pt_headers r)) \<and>
     method_of lib (pt_method r) = Some (pt_method r) \<and>
     pt_scheme r \<noteq> None \<and> scheme_of lib (the (pt_scheme r)) = pt_scheme r \<and>
     pt_authority r \<noteq> None \<and> authority_of lib (the (pt_authority r)) = pt_authority r \<and>
     of_char CHR ''@'' \<notin> set (the (pt_authority r)) \<and>
     list_all (\<lambda>(name, val). name = as_bytes ''host'' \<longrightarrow> Some val = pt_authority r) (pt_headers r) \<and>
     length (filter (\<lambda>(name, _). name = as_bytes ''host'') (pt_headers r)) \<le> 1 \<and>
     path_of lib (request_path r) = Some (request_path r) \<and>
     (starts_with_slash (request_path r) \<or> pt_method r = as_bytes ''OPTIONS'' \<and> request_path r = as_bytes ''*'') \<and>
     uri_of_parts lib (the (pt_scheme r)) (the (pt_authority r)) (request_path r) \<and>
     (if pt_method r = as_bytes ''CONNECT''
      then protocol = Some (as_bytes ''webtransport'') \<or> protocol = Some (as_bytes ''webtransport-h3'')
      else protocol = None)"

lemma request_okD:
  assumes "request_ok lib r protocol"
  shows "\<exists>sch. pt_scheme r = Some sch \<and> scheme_of lib sch = Some sch"
    and "\<exists>a. pt_authority r = Some a \<and> authority_of lib a = Some a"
    and "uri_of_parts lib (the (pt_scheme r)) (the (pt_authority r)) (request_path r)"
    and "starts_with_slash (request_path r) \<or> pt_method r = as_bytes ''OPTIONS'' \<and> request_path r = as_bytes ''*''"
    and "pt_method r = as_bytes ''CONNECT'' \<Longrightarrow> protocol \<noteq> None"
    and "pt_method r \<noteq> as_bytes ''CONNECT'' \<Longrightarrow> protocol = None"
  using assms unfolding request_ok_def by (force, force, blast, blast, metis option.distinct(1), metis)

lemma encode_request_fields:
  assumes "request_ok lib r protocol"
  shows "encode_request r protocol limit = fields_encode (request_pseudos r protocol) (pt_headers r) limit"
  using assms by (cases protocol) (auto simp: request_ok_def encode_request_def request_pseudos_def request_path_def Let_def)

lemma apply_pseudos:
  assumes "request_ok lib r protocol" and "section_size (request_pseudos r protocol) \<le> limit"
  shows "apply_fields (request_field lib limit) request_state_default (request_pseudos r protocol) =
    Inr \<lparr>rs_fields = field_state_default\<lparr>fs_size := section_size (request_pseudos r protocol)\<rparr>,
      rs_method = Some (pt_method r), rs_scheme = pt_scheme r, rs_authority = pt_authority r,
      rs_path = Some (request_path r), rs_protocol = map_option (\<lambda>_. True) protocol\<rparr>"
proof -
  from assms(1) obtain scheme authority where r: "pt_scheme r = Some scheme" "pt_authority r = Some authority"
    by (auto simp: request_ok_def)
  show ?thesis
  proof (cases protocol)
    case None
    then show ?thesis using assms r
      by (simp add: request_ok_def request_pseudos_def request_field_def fields_count_def fields_pseudo_def request_pseudo_def
          request_state_default_def field_state_default_def set_once_def starts_with_colon_def as_bytes_def Let_def)
  next
    case (Some p)
    then have "p = as_bytes ''webtransport'' \<or> p = as_bytes ''webtransport-h3''"
      using assms(1) by (simp add: request_ok_def split: if_splits)
    then show ?thesis using assms r Some
      by (elim disjE) (simp_all add: request_ok_def request_pseudos_def request_field_def fields_count_def fields_pseudo_def request_pseudo_def
          request_state_default_def field_state_default_def set_once_def starts_with_colon_def as_bytes_def Let_def)
  qed
qed


lemma regular_names_ok: "list_all (header_ok lib) hs \<Longrightarrow> regular_names hs"
  by (induction hs) (auto simp: regular_names_def header_ok_def)

lemma host_filter:
  "filter (\<lambda>(name, _). name = as_bytes ''host'') (kept_headers hs) = filter (\<lambda>(name, _). name = as_bytes ''host'') hs"
proof -
  have "\<not> connection_specific (as_bytes ''host'')" by (simp add: connection_specific_def as_bytes_def)
  then show ?thesis by (induction hs) auto
qed

lemma request_authority_ok:
  assumes "request_ok lib r protocol"
  shows "request_authority lib (pt_authority r) (kept_headers (pt_headers r)) = Inr (the (pt_authority r))"
proof -
  let ?hosts = "filter (\<lambda>(name, _). name = as_bytes ''host'') (pt_headers r)"
  obtain a where a: "pt_authority r = Some a" and at: "of_char CHR ''@'' \<notin> set a" and len: "length ?hosts \<le> 1"
    and all: "list_all (\<lambda>(name, val). name = as_bytes ''host'' \<longrightarrow> Some val = pt_authority r) (pt_headers r)"
    using assms by (auto simp: request_ok_def)
  consider "?hosts = []" | name where "?hosts = [(name, a)]"
  proof (cases ?hosts)
    case (Cons h rest)
    then have "rest = []" using len by (cases rest) simp_all
    have "h \<in> set ?hosts" unfolding Cons by (rule list.set_intros(1))
    then have "h \<in> set (pt_headers r)" "fst h = as_bytes ''host''" by (simp_all add: case_prod_unfold)
    then have "snd h = a" using all a by (auto simp: list_all_iff)
    then have "?hosts = [(fst h, a)]" using Cons \<open>rest = []\<close> by (simp add: prod_eq_iff)
    then show ?thesis by (rule that(2))
  qed (rule that(1))
  then show ?thesis
  proof cases
    case 1
    show ?thesis unfolding request_authority_def host_filter 1 a using at by simp
  next
    case (2 name)
    show ?thesis unfolding request_authority_def host_filter 2 a using at by simp
  qed
qed

lemma request_finish_ok:
  assumes "request_ok lib r protocol"
  shows "request_finish lib \<lparr>rs_fields = f\<lparr>fs_headers := kept_headers (pt_headers r)\<rparr>,
      rs_method = Some (pt_method r), rs_scheme = pt_scheme r, rs_authority = pt_authority r,
      rs_path = Some (request_path r), rs_protocol = map_option (\<lambda>_. True) protocol\<rparr> =
    Inr \<lparr>rq_method = pt_method r, rq_scheme = the (pt_scheme r), rq_authority = the (pt_authority r),
      rq_path = request_path r, rq_headers = kept_headers (pt_headers r),
      rq_content_length = fs_content_length f, rq_size = fs_size f\<rparr>"
proof -
  obtain sch a where r: "pt_scheme r = Some sch" "pt_authority r = Some a" using request_okD(1,2) [OF assms] by blast
  have uri: "uri_of_parts lib sch a (request_path r)" using request_okD(3) [OF assms] r by simp
  note path = request_okD(4) [OF assms]
  have con: "connect_check \<lparr>rs_fields = f, rs_method = Some (pt_method r), rs_scheme = pt_scheme r, rs_authority = pt_authority r,
      rs_path = Some (request_path r), rs_protocol = map_option (\<lambda>_. True) protocol\<rparr> (pt_method r) = Inr ()" for f
  proof (cases "pt_method r = as_bytes ''CONNECT''")
    case True
    then obtain p where p: "protocol = Some p" using request_okD(5) [OF assms] by blast
    show ?thesis unfolding connect_check_def p using True r by (simp only: request_state.simps option.map option.case Let_def if_True simp_thms option.distinct)
  next
    case False
    then have p: "protocol = None" using request_okD(6) [OF assms] by blast
    show ?thesis unfolding connect_check_def p using False by (simp only: request_state.simps option.map if_False) simp
  qed
  show ?thesis
    using request_authority_ok [OF assms] uri path con [of "f\<lparr>fs_headers := kept_headers (pt_headers r)\<rparr>"]
    by (simp add: request_finish_def r)
qed

lemma decode_encoded_request:
  assumes ok: "request_ok lib r protocol" and enc: "encode_request r protocol peer_limit = Inr sec"
    and size: "section_size (request_pseudos r protocol @ kept_headers (pt_headers r)) \<le> limit"
    and fit: "fields_fit (request_pseudos r protocol @ kept_headers (pt_headers r))"
  shows "decode_request lib sec limit = Some (Inr
     \<lparr>rq_method = pt_method r, rq_scheme = the (pt_scheme r), rq_authority = the (pt_authority r),
      rq_path = request_path r, rq_headers = kept_headers (pt_headers r),
      rq_content_length = declared_length None (kept_headers (pt_headers r)),
      rq_size = section_size (request_pseudos r protocol @ kept_headers (pt_headers r))\<rparr>)"
proof -
  let ?hs = "kept_headers (pt_headers r)" and ?ps = "request_pseudos r protocol"
  from ok have hs: "list_all (header_ok lib) ?hs" "lengths_agree None ?hs" by (simp_all add: request_ok_def)
  have sec: "sec = qpack_encode (?ps @ ?hs) []"
    using enc by (simp add: encode_request_fields [OF ok] fields_encode_def encoded_fields_def Let_def split: if_splits option.splits)
  let ?f = "field_state_default\<lparr>fs_size := section_size ?ps\<rparr>"
  have run: "apply_fields (request_field lib limit) request_state_default (?ps @ ?hs) =
     map_sum id (\<lambda>f. \<lparr>rs_fields = f, rs_method = Some (pt_method r), rs_scheme = pt_scheme r,
       rs_authority = pt_authority r, rs_path = Some (request_path r), rs_protocol = map_option (\<lambda>_. True) protocol\<rparr>)
       (apply_fields (regular_step lib limit) ?f ?hs)"
    using apply_pseudos [OF ok, of limit] size by (simp add: apply_fields_append apply_request_regular [OF regular_names_ok [OF hs(1)]])
  have "apply_fields (regular_step lib limit) ?f ?hs = Inr \<lparr>fs_headers = ?hs,
     fs_content_length = declared_length None ?hs, fs_size = section_size (?ps @ ?hs), fs_regular = (?hs \<noteq> [])\<rparr>"
    using apply_regular [of lib ?hs ?f limit] hs size by (simp add: field_state_default_def)
  with run show ?thesis
    using request_finish_ok [OF ok, of "\<lparr>fs_headers = ?hs,
     fs_content_length = declared_length None ?hs, fs_size = section_size (?ps @ ?hs), fs_regular = (?hs \<noteq> [])\<rparr>"]
    by (simp add: decode_request_def sec qpack_decode_encoded [OF fit])
qed


lemma decode_encoded_response:
  assumes hs: "list_all (header_ok lib) (kept_headers headers)" "lengths_agree None (kept_headers headers)"
    and st: "status_of lib (status_text lib status) = Some status" "status_text lib status \<noteq> as_bytes ''101''"
    and enc: "encode_response lib status headers peer_limit = Inr sec"
    and size: "section_size ((as_bytes '':status'', status_text lib status) # kept_headers headers) \<le> limit"
    and fit: "fields_fit ((as_bytes '':status'', status_text lib status) # kept_headers headers)"
  shows "decode_response lib sec limit = Some (Inr
     \<lparr>rp_status = status, rp_headers = kept_headers headers,
      rp_content_length = declared_length None (kept_headers headers),
      rp_size = section_size ((as_bytes '':status'', status_text lib status) # kept_headers headers)\<rparr>)"
proof -
  let ?hs = "kept_headers headers" and ?p = "(as_bytes '':status'', status_text lib status)"
  have sec: "sec = qpack_encode (?p # ?hs) []"
    using enc by (simp add: encode_response_def fields_encode_def encoded_fields_def Let_def split: if_splits option.splits)
  let ?f = "field_state_default\<lparr>fs_size := section_size [?p]\<rparr>"
  have p: "response_field lib limit (field_state_default, None) (as_bytes '':status'') (status_text lib status) = Inr (?f, Some status)"
    using st size by (simp add: response_field_def fields_count_def fields_pseudo_def set_once_def field_state_default_def Let_def)
  have "apply_fields (regular_step lib limit) ?f ?hs = Inr \<lparr>fs_headers = ?hs,
     fs_content_length = declared_length None ?hs, fs_size = section_size (?p # ?hs), fs_regular = (?hs \<noteq> [])\<rparr>"
    using apply_regular [of lib ?hs ?f limit] hs size by (simp add: field_state_default_def)
  then have "apply_fields (response_field lib limit) (field_state_default, None) (?p # ?hs) =
     Inr (\<lparr>fs_headers = ?hs, fs_content_length = declared_length None ?hs, fs_size = section_size (?p # ?hs),
       fs_regular = (?hs \<noteq> [])\<rparr>, Some status)"
    using p by (simp add: apply_response_regular [OF regular_names_ok [OF hs(1)]])
  then show ?thesis by (simp add: decode_response_def sec qpack_decode_encoded [OF fit])
qed

subsection \<open>What an accepted request guarantees\<close>

text \<open>A decoded section is the callback run over the field lines it holds.\<close>

text \<open>The field lines of a section, in order: what its decoder calls \<open>field\<close> with.\<close>

definition note_line :: "(bytes \<times> bytes) list \<Rightarrow> bytes \<Rightarrow> bytes \<Rightarrow> invalid + (bytes \<times> bytes) list" where
  "note_line ls name val = Inr (ls @ [(name, val)])"

definition section_lines :: "bytes \<Rightarrow> (bytes \<times> bytes) list fallible" where
  "section_lines sec = qpack_decode note_line [] sec"

lemma decode_fields_lines:
  "decode_fields field s sec = Some (Inr s') \<Longrightarrow>
    \<exists>fs. decode_fields note_line acc sec = Some (Inr (acc @ fs)) \<and> apply_fields field s fs = Inr s'"
proof (induction field s sec arbitrary: acc rule: decode_fields.induct)
  case (1 field s sec)
  show ?case
  proof (cases sec)
    case Nil
    then have "decode_fields note_line acc sec = Some (Inr (acc @ [])) \<and> apply_fields field s [] = Inr s'" using 1(2) by (simp add: decode_fields.simps)
    then show ?thesis by blast
  next
    case (Cons b bs)
    then obtain name val tail t where l: "field_line sec b = Some (Inr (name, val, tail))" "field s name val = Inr t"
      "decode_fields field t tail = Some (Inr s')"
      using 1(2) by (subst (asm) decode_fields.simps) (auto split: option.splits sum.splits)
    from 1(1) [OF Cons l(1) refl refl refl l(2) l(3), of "acc @ [(name, val)]"]
    obtain fs where fs: "decode_fields note_line (acc @ [(name, val)]) tail = Some (Inr ((acc @ [(name, val)]) @ fs))"
      and run: "apply_fields field t fs = Inr s'" by blast
    have "decode_fields note_line acc sec = decode_fields note_line (acc @ [(name, val)]) tail"
      using Cons l(1) by (subst decode_fields.simps) (simp add: note_line_def)
    then have "decode_fields note_line acc sec = Some (Inr (acc @ (name, val) # fs))" using fs by simp
    moreover have "apply_fields field s ((name, val) # fs) = Inr s'" using l(2) run by simp
    ultimately show ?thesis by blast
  qed
qed

lemma qpack_decode_lines:
  "qpack_decode field s sec = Some (Inr s') \<Longrightarrow> \<exists>fs. section_lines sec = Some (Inr fs) \<and> apply_fields field s fs = Inr s'"
  using decode_fields_lines [of field s _ s' "[]"]
  by (auto simp: section_lines_def qpack_decode_def and_then_Inr split: list.splits if_splits)

lemma apply_fields_inv:
  assumes "\<And>s name val t. P s \<Longrightarrow> field s name val = Inr t \<Longrightarrow> P t"
  shows "apply_fields field s fs = Inr t \<Longrightarrow> P s \<Longrightarrow> P t"
proof (induction fs arbitrary: s)
  case (Cons f fs)
  then show ?case using assms by (cases f) (auto split: sum.splits)
qed simp

text \<open>The header fields held so far are valid, within the limit and agree on one content length.\<close>

definition fields_inv :: "nat \<Rightarrow> field_state \<Rightarrow> bool" where
  "fields_inv limit f \<longleftrightarrow> section_size (fs_headers f) \<le> fs_size f \<and> fs_size f \<le> limit \<and>
     (\<forall>(name, val) \<in> set (fs_headers f). \<not> connection_specific name \<and>
        (name = as_bytes ''te'' \<longrightarrow> val = as_bytes ''trailers'') \<and>
        (name = as_bytes ''content-length'' \<longrightarrow> parse_length val \<noteq> None \<and> parse_length val = fs_content_length f))"

text \<open>The crate's header names and values keep the text they were parsed from.\<close>

definition keeps_text :: "http_lib \<Rightarrow> bool" where
  "keeps_text lib \<longleftrightarrow> (\<forall>t u. header_name lib t = Some u \<longrightarrow> u = t) \<and> (\<forall>t u. header_value lib t = Some u \<longrightarrow> u = t)"

lemma fields_inv_start: "fields_inv limit field_state_default"
  by (simp add: fields_inv_def field_state_default_def)

lemma fields_count_inv:
  "fields_inv limit f \<Longrightarrow> fields_count f name val limit = Inr g \<Longrightarrow>
     fields_inv limit g \<and> section_size (fs_headers g @ [(name, val)]) \<le> fs_size g"
  by (auto simp: fields_count_def fields_inv_def Let_def split: if_splits)

lemma regular_field_kept:
  assumes "keeps_text lib" and "regular_field lib name val = Inr (n, v)"
  shows "n = name" "v = val" "\<not> connection_specific name" "name = as_bytes ''te'' \<Longrightarrow> val = as_bytes ''trailers''"
  using assms by (auto simp: regular_field_def keeps_text_def split: option.splits if_splits)

lemma fields_regular_inv:
  assumes "keeps_text lib" and "fields_inv limit f" and "section_size (fs_headers f @ [(name, val)]) \<le> fs_size f"
    and "fields_regular lib f name val = Inr g"
  shows "fields_inv limit g"
proof -
  obtain n v where r: "regular_field lib name val = Inr (n, v)"
    using assms(4) by (auto simp: fields_regular_def split: sum.splits)
  note k = regular_field_kept [OF assms(1) r]
  show ?thesis
  proof (cases "name = as_bytes ''content-length''")
    case True
    with assms(4) r k obtain len where "parse_length val = Some len" "fs_content_length f = None \<or> fs_content_length f = Some len"
      "g = f\<lparr>fs_regular := True, fs_content_length := Some len, fs_headers := fs_headers f @ [(name, val)]\<rparr>"
      by (auto simp: fields_regular_def Let_def split: option.splits if_splits)
    then show ?thesis using assms(2,3) k by (auto simp: fields_inv_def)
  next
    case False
    with assms(4) r k have "g = f\<lparr>fs_regular := True, fs_headers := fs_headers f @ [(name, val)]\<rparr>"
      by (simp add: fields_regular_def)
    then show ?thesis using assms(2,3) k False by (auto simp: fields_inv_def)
  qed
qed

text \<open>Which pseudo-fields were seen, and that they come first.\<close>

definition pseudo_seen :: "request_state \<Rightarrow> bytes set" where
  "pseudo_seen s = {name. name = as_bytes '':method'' \<and> rs_method s \<noteq> None \<or> name = as_bytes '':scheme'' \<and> rs_scheme s \<noteq> None \<or>
     name = as_bytes '':authority'' \<and> rs_authority s \<noteq> None \<or> name = as_bytes '':path'' \<and> rs_path s \<noteq> None \<or>
     name = as_bytes '':protocol'' \<and> rs_protocol s \<noteq> None}"

definition pseudo_lines :: "(bytes \<times> bytes) list \<Rightarrow> (bytes \<times> bytes) list" where
  "pseudo_lines = filter (\<lambda>(name, _). starts_with_colon name)"

lemma pseudo_names_distinct:
  "distinct [as_bytes '':method'', as_bytes '':scheme'', as_bytes '':authority'', as_bytes '':path'', as_bytes '':protocol'']"
  by (simp add: as_bytes_def of_char_def)

lemma set_once_Inr: "map_sum id g (set_once held val) = Inr t \<longleftrightarrow> held = None \<and> (\<exists>x. val = Some x \<and> t = g (Some x))"
  by (auto simp: set_once_def split: option.splits)

lemma request_pseudo_seen:
  assumes "request_pseudo lib s name val = Inr t"
  shows "name \<notin> pseudo_seen s \<and> pseudo_seen t = insert name (pseudo_seen s) \<and> rs_fields t = rs_fields s"
proof -
  note names = pseudo_names_distinct
  consider "name = as_bytes '':method''" | "name = as_bytes '':scheme''" | "name = as_bytes '':authority''" | "name = as_bytes '':path''"
    | "name = as_bytes '':protocol''" using assms by (auto simp only: request_pseudo_def split: if_splits)
  then show ?thesis
  proof cases
    case 1
    then obtain x where "rs_method s = None" "t = s\<lparr>rs_method := Some x\<rparr>" using assms by (auto simp: request_pseudo_def set_once_Inr)
    then show ?thesis using 1 names by (auto simp: pseudo_seen_def)
  next
    case 2
    then obtain x where "rs_scheme s = None" "t = s\<lparr>rs_scheme := Some x\<rparr>" using assms names by (auto simp: request_pseudo_def set_once_Inr)
    then show ?thesis using 2 names by (auto simp: pseudo_seen_def)
  next
    case 3
    then obtain x where "rs_authority s = None" "t = s\<lparr>rs_authority := Some x\<rparr>" using assms names by (auto simp: request_pseudo_def set_once_Inr)
    then show ?thesis using 3 names by (auto simp: pseudo_seen_def)
  next
    case 4
    then obtain x where "rs_path s = None" "t = s\<lparr>rs_path := Some x\<rparr>" using assms names by (auto simp: request_pseudo_def set_once_Inr)
    then show ?thesis using 4 names by (auto simp: pseudo_seen_def)
  next
    case 5
    then obtain x where "rs_protocol s = None" "t = s\<lparr>rs_protocol := Some x\<rparr>" using assms names by (auto simp: request_pseudo_def set_once_Inr)
    then show ?thesis using 5 names by (auto simp: pseudo_seen_def)
  qed
qed

lemma request_field_order:
  assumes "request_field lib limit s name val = Inr t"
  shows "if starts_with_colon name
    then \<not> fs_regular (rs_fields s) \<and> \<not> fs_regular (rs_fields t) \<and> name \<notin> pseudo_seen s \<and> pseudo_seen t = insert name (pseudo_seen s)
    else fs_regular (rs_fields t) \<and> pseudo_seen t = pseudo_seen s"
proof -
  obtain f where f: "fields_count (rs_fields s) name val limit = Inr f" using assms by (auto simp: request_field_def split: sum.splits)
  have reg: "fs_regular f = fs_regular (rs_fields s)" using f by (auto simp: fields_count_def Let_def split: if_splits)
  let ?s = "s\<lparr>rs_fields := f\<rparr>"
  have seen: "pseudo_seen (s\<lparr>rs_fields := g\<rparr>) = pseudo_seen s" for g by (simp add: pseudo_seen_def)
  show ?thesis
  proof (cases "starts_with_colon name")
    case True
    then have "request_pseudo lib ?s name val = Inr t" and "\<not> fs_regular (rs_fields t)"
      using assms f by (auto simp: request_field_def fields_pseudo_def Let_def split: sum.splits if_splits)
    then show ?thesis using True reg seen request_pseudo_seen [of lib ?s name val t] by simp
  next
    case False
    then obtain g where g: "fields_regular lib f name val = Inr g" and t: "t = ?s\<lparr>rs_fields := g\<rparr>"
      using assms f by (auto simp: request_field_def Let_def split: sum.splits)
    have "fs_regular g" using g by (auto simp: fields_regular_def Let_def split: sum.splits option.splits if_splits prod.splits)
    then show ?thesis using False t seen by simp
  qed
qed

lemma apply_fields_order:
  "apply_fields (request_field lib limit) s fs = Inr t \<Longrightarrow>
    (fs_regular (rs_fields s) \<longrightarrow> pseudo_lines fs = []) \<and> (\<exists>rest. fs = pseudo_lines fs @ rest \<and> pseudo_lines rest = []) \<and>
    distinct (map fst (pseudo_lines fs)) \<and> fst ` set (pseudo_lines fs) \<inter> pseudo_seen s = {}"
proof (induction fs arbitrary: s)
  case Nil
  then show ?case by (simp add: pseudo_lines_def)
next
  case (Cons f fs)
  obtain name val where f: "f = (name, val)" by (cases f)
  then obtain m where m: "request_field lib limit s name val = Inr m" and rest: "apply_fields (request_field lib limit) m fs = Inr t"
    using Cons.prems by (auto split: sum.splits)
  note IH = Cons.IH [OF rest]
  show ?case
  proof (cases "starts_with_colon name")
    case True
    then have p: "pseudo_lines (f # fs) = f # pseudo_lines fs" by (simp add: pseudo_lines_def f)
    obtain others where "fs = pseudo_lines fs @ others" "pseudo_lines others = []" using IH by blast
    then have "f # fs = pseudo_lines (f # fs) @ others \<and> pseudo_lines others = []" unfolding p by simp
    moreover have "distinct (map fst (pseudo_lines (f # fs)))" and "fst ` set (pseudo_lines (f # fs)) \<inter> pseudo_seen s = {}"
      unfolding p using IH request_field_order [OF m] True f by auto
    ultimately show ?thesis using request_field_order [OF m] True by auto
  next
    case False
    then have "pseudo_lines (f # fs) = pseudo_lines fs" by (simp add: pseudo_lines_def f)
    moreover have "pseudo_lines fs = []" using IH request_field_order [OF m] False by simp
    ultimately show ?thesis by simp
  qed
qed

lemma request_field_inv:
  assumes "keeps_text lib" and "fields_inv limit (rs_fields s)" and "request_field lib limit s name val = Inr t"
  shows "fields_inv limit (rs_fields t)"
proof -
  obtain f where f: "fields_count (rs_fields s) name val limit = Inr f"
    using assms(3) by (auto simp: request_field_def split: sum.splits)
  note c = fields_count_inv [OF assms(2) f]
  show ?thesis
  proof (cases "starts_with_colon name")
    case True
    then obtain s' where "request_pseudo lib (s\<lparr>rs_fields := f\<rparr>) name val = Inr s'" "t = s'"
      using assms(3) f by (auto simp: request_field_def Let_def split: sum.splits)
    then have "rs_fields t = f" by (auto simp: request_pseudo_def map_sum_def split: if_splits sum.splits)
    then show ?thesis using c by simp
  next
    case False
    then obtain g where "fields_regular lib f name val = Inr g" "t = s\<lparr>rs_fields := g\<rparr>"
      using assms(3) f by (auto simp: request_field_def Let_def split: sum.splits)
    then show ?thesis using fields_regular_inv [OF assms(1) conjunct1 [OF c] conjunct2 [OF c]] by simp
  qed
qed

lemma request_finish_fields:
  assumes "request_finish lib s = Inr h"
  shows "rq_headers h = fs_headers (rs_fields s)" "rq_size h = fs_size (rs_fields s)"
    "rq_content_length h = fs_content_length (rs_fields s)"
    "request_authority lib (rs_authority s) (rq_headers h) = Inr (rq_authority h)"
    "starts_with_slash (rq_path h) \<or> rq_method h = as_bytes ''OPTIONS'' \<and> rq_path h = as_bytes ''*''"
    "connect_check s (rq_method h) = Inr ()"
  using assms by (auto simp: request_finish_def split: option.splits sum.splits if_splits)

lemma request_authority_facts:
  assumes "request_authority lib given headers = Inr a"
  shows "of_char CHR ''@'' \<notin> set a" "length (filter (\<lambda>(name, _). name = as_bytes ''host'') headers) \<le> 1"
proof -
  let ?hosts = "filter (\<lambda>(name, _). name = as_bytes ''host'') headers"
  have "(case chosen of Inl e \<Rightarrow> Inl e | Inr x \<Rightarrow> if c \<in> set x then Inl e' else Inr x) = Inr a \<Longrightarrow> c \<notin> set a"
    for chosen :: "invalid + bytes" and c e' by (cases chosen) (auto split: if_splits)
  from this [OF assms [unfolded request_authority_def Let_def]] show "of_char CHR ''@'' \<notin> set a" .
  show "length ?hosts \<le> 1"
  proof (rule ccontr)
    assume "\<not> ?thesis"
    then have "Suc (Suc 0) \<le> length ?hosts" by linarith
    then obtain x y rest where h: "?hosts = x # y # rest" unfolding Suc_le_length_iff by blast
    show False using assms unfolding request_authority_def Let_def h
      by (cases given) (simp_all only: list.map prod.case option.case list.case sum.case sum.distinct)
  qed
qed

text \<open>The authority is the one of \<open>:authority\<close>, with which a host agrees, or else the host's.\<close>

lemma request_authority_agrees:
  assumes "request_authority lib given headers = Inr a"
  shows "given = Some x \<Longrightarrow> a = x \<and> (\<forall>host. (as_bytes ''host'', host) \<in> set headers \<longrightarrow> host = a)"
    and "given = None \<Longrightarrow> \<exists>host. (as_bytes ''host'', host) \<in> set headers \<and> authority_of lib host = Some a"
proof -
  define hosts where "hosts = map snd (filter (\<lambda>(name, _). name = as_bytes ''host'') headers)"
  have host: "host \<in> set hosts \<longleftrightarrow> (as_bytes ''host'', host) \<in> set headers" for host by (force simp: hosts_def)
  define chosen where "chosen = (case (given, hosts) of
              (_, _ # _ # _) \<Rightarrow> Inl Malformed
            | (None, []) \<Rightarrow> Inl Malformed
            | (Some authority, [host]) \<Rightarrow> if authority \<noteq> host then Inl Malformed else Inr authority
            | (Some authority, []) \<Rightarrow> Inr authority
            | (None, [host]) \<Rightarrow> (case authority_of lib host of None \<Rightarrow> Inl Malformed | Some a \<Rightarrow> Inr a))"
  have "(case c of Inl e \<Rightarrow> Inl e | Inr authority \<Rightarrow> if ch \<in> set authority then Inl Malformed else Inr authority) = Inr a \<Longrightarrow> c = Inr a"
    for c :: "invalid + bytes" and ch by (cases c) (auto split: if_splits)
  from this [OF assms [unfolded request_authority_def Let_def, folded hosts_def, folded chosen_def]] have c: "chosen = Inr a" .
  show "a = x \<and> (\<forall>host. (as_bytes ''host'', host) \<in> set headers \<longrightarrow> host = a)" if "given = Some x"
    using c that unfolding chosen_def host [symmetric] by (auto split: list.splits if_splits)
  show "\<exists>host. (as_bytes ''host'', host) \<in> set headers \<and> authority_of lib host = Some a" if "given = None"
    using c that unfolding chosen_def host [symmetric] by (auto split: list.splits option.splits)
qed

text \<open>What a line does to the headers and the authority.\<close>

lemma fields_regular_headers:
  "keeps_text lib \<Longrightarrow> fields_regular lib f name val = Inr g \<Longrightarrow> fs_headers g = fs_headers f @ [(name, val)]"
  by (auto simp: fields_regular_def regular_field_def keeps_text_def Let_def split: option.splits sum.splits if_splits)

lemma request_pseudo_parts:
  "request_pseudo lib s name val = Inr t \<Longrightarrow> rs_fields t = rs_fields s \<and>
    (if name = as_bytes '':authority'' then rs_authority s = None \<and> (\<exists>a. authority_of lib val = Some a \<and> rs_authority t = Some a)
     else rs_authority t = rs_authority s)"
  by (auto simp: request_pseudo_def set_once_def as_bytes_def split: if_splits option.splits)

lemma request_field_colon:
  "request_field lib limit s name val = Inr t \<Longrightarrow> fields_count (rs_fields s) name val limit = Inr f \<Longrightarrow> starts_with_colon name \<Longrightarrow>
    request_pseudo lib (s\<lparr>rs_fields := f\<rparr>) name val = Inr t"
  by (auto simp: request_field_def Let_def split: sum.splits)

lemma request_field_header:
  "request_field lib limit s name val = Inr t \<Longrightarrow> fields_count (rs_fields s) name val limit = Inr f \<Longrightarrow> \<not> starts_with_colon name \<Longrightarrow>
    \<exists>g. fields_regular lib f name val = Inr g \<and> t = s\<lparr>rs_fields := g\<rparr>"
  unfolding request_field_def Let_def by (cases "fields_regular lib f name val") simp_all

lemma request_field_parts:
  assumes "keeps_text lib" and "request_field lib limit s name val = Inr t"
  shows "fs_headers (rs_fields t) = fs_headers (rs_fields s) @ (if starts_with_colon name then [] else [(name, val)])" (is ?headers)
    and "if name = as_bytes '':authority'' then rs_authority s = None \<and> (\<exists>a. authority_of lib val = Some a \<and> rs_authority t = Some a)
      else rs_authority t = rs_authority s" (is ?authority)
proof -
  obtain f where f: "fields_count (rs_fields s) name val limit = Inr f"
    using assms(2) by (cases "fields_count (rs_fields s) name val limit") (simp_all add: request_field_def)
  then have h: "fs_headers f = fs_headers (rs_fields s)" by (auto simp: fields_count_def Let_def split: if_splits)
  have "?headers \<and> ?authority"
  proof (cases "starts_with_colon name")
    case True
    note p = request_pseudo_parts [OF request_field_colon [OF assms(2) f True]]
    have "rs_authority (s\<lparr>rs_fields := f\<rparr>) = rs_authority s" "rs_fields (s\<lparr>rs_fields := f\<rparr>) = f" by simp_all
    note p = p [unfolded this]
    have ?headers unfolding if_P [OF True] by (simp only: p [THEN conjunct1] h append_Nil2)
    then show ?thesis using p [THEN conjunct2] by (rule conjI)
  next
    case False
    then have other: "name \<noteq> as_bytes '':authority''" by (auto simp: starts_with_colon_def as_bytes_def)
    obtain g where g: "fields_regular lib f name val = Inr g" "t = s\<lparr>rs_fields := g\<rparr>"
      using request_field_header [OF assms(2) f False] by blast
    have "fs_headers g = fs_headers (rs_fields s) @ [(name, val)]" using fields_regular_headers [OF assms(1) g(1)] by (simp only: h)
    then show ?thesis unfolding if_not_P [OF False] if_not_P [OF other] g(2) by simp
  qed
  then show ?headers ?authority by blast+
qed

lemma apply_fields_parts:
  assumes "keeps_text lib" and "apply_fields (request_field lib limit) s fs = Inr t"
  shows "fs_headers (rs_fields t) = fs_headers (rs_fields s) @ filter (\<lambda>(name, _). \<not> starts_with_colon name) fs \<and>
    (\<forall>val. (as_bytes '':authority'', val) \<in> set fs \<longrightarrow> authority_of lib val = rs_authority t \<and> rs_authority t \<noteq> None) \<and>
    ((\<forall>val. (as_bytes '':authority'', val) \<notin> set fs) \<longrightarrow> rs_authority t = rs_authority s) \<and>
    (rs_authority s \<noteq> None \<longrightarrow> rs_authority t = rs_authority s)"
  using assms(2)
proof (induction fs arbitrary: s)
  case (Cons f fs)
  obtain name val where f: "f = (name, val)" by (cases f)
  then obtain m where m: "request_field lib limit s name val = Inr m" and rest: "apply_fields (request_field lib limit) m fs = Inr t"
    using Cons.prems by (auto split: sum.splits)
  note step = request_field_parts [OF assms(1) m] and IH = Cons.IH [OF rest]
  show ?case
  proof (cases "name = as_bytes '':authority''")
    case True
    then obtain y where y: "authority_of lib val = Some y" "rs_authority m = Some y" "rs_authority s = None" using step by auto
    then have "rs_authority t = Some y" using IH by simp
    then show ?thesis using True step IH f y by auto
  next
    case False
    then show ?thesis using step IH f by auto
  qed
qed simp

lemma webtransport_connect:
  "connect_check s method = Inr () \<Longrightarrow> method = as_bytes ''CONNECT'' \<Longrightarrow> rs_protocol s = Some True"
  by (auto simp: connect_check_def Let_def split: option.splits if_splits)

subsection \<open>Properties\<close>

text \<open>
  C37. A request the client encodes is the request the server decodes: method, scheme, authority, path, the header
  fields in order without the connection-specific ones, the declared content length and the size the limit counts.
\<close>

theorem request_round_trip:
  assumes "request_ok lib r protocol" and "encode_request r protocol peer_limit = Inr sec"
    and "section_size (request_pseudos r protocol @ kept_headers (pt_headers r)) \<le> limit"
    and "fields_fit (request_pseudos r protocol @ kept_headers (pt_headers r))"
  shows "decode_request lib sec limit = Some (Inr
     \<lparr>rq_method = pt_method r, rq_scheme = the (pt_scheme r), rq_authority = the (pt_authority r),
      rq_path = request_path r, rq_headers = kept_headers (pt_headers r),
      rq_content_length = declared_length None (kept_headers (pt_headers r)),
      rq_size = section_size (request_pseudos r protocol @ kept_headers (pt_headers r))\<rparr>)"
  by (rule decode_encoded_request [OF assms])

text \<open>A library that accepts every text as it is, and a request for it.\<close>

definition plain_lib :: http_lib where
  "plain_lib = \<lparr>header_name = Some, header_value = Some, method_of = Some, scheme_of = Some, authority_of = Some,
     path_of = Some, status_of = (\<lambda>t. Some (digits_value t)), status_text = (\<lambda>n. [of_nat (n div 100) + 48, of_nat (n div 10 mod 10) + 48, of_nat (n mod 10) + 48]),
     uri_of_parts = (\<lambda>_ _ _. True)\<rparr>"

definition sample_request :: request_parts where
  "sample_request = \<lparr>pt_method = as_bytes ''POST'', pt_scheme = Some (as_bytes ''https''), pt_authority = Some (as_bytes ''a.b''),
     pt_path = None, pt_headers = [(as_bytes ''upgrade'', as_bytes ''x''), (as_bytes ''content-length'', as_bytes ''12'')]\<rparr>"

theorem request_round_trip_witness:
  "\<exists>sec h. encode_request sample_request None (Some 4096) = Inr sec \<and> decode_request plain_lib sec 4096 = Some (Inr h) \<and>
     rq_content_length h = Some 12 \<and> rq_headers h = [(as_bytes ''content-length'', as_bytes ''12'')]"
proof -
  have k: "kept_headers (pt_headers sample_request) = [(as_bytes ''content-length'', as_bytes ''12'')]"
    by (simp add: sample_request_def connection_specific_def as_bytes_def)
  have ok: "request_ok plain_lib sample_request None"
    by (simp add: request_ok_def k plain_lib_def) (simp add: sample_request_def header_ok_def request_path_def
      starts_with_slash_def starts_with_colon_def connection_specific_def as_bytes_def parse_length_def is_ascii_digit_def digits_value_def)
  have ps: "request_pseudos sample_request None = [(as_bytes '':method'', as_bytes ''POST''), (as_bytes '':scheme'', as_bytes ''https''),
      (as_bytes '':authority'', as_bytes ''a.b''), (as_bytes '':path'', as_bytes ''/'')]"
    by (simp add: request_pseudos_def sample_request_def request_path_def)
  have size: "section_size (request_pseudos sample_request None @ kept_headers (pt_headers sample_request)) \<le> 4096"
    and fit: "fields_fit (request_pseudos sample_request None @ kept_headers (pt_headers sample_request))"
    by (simp_all add: ps k field_size_def fields_fit_def as_bytes_def)
  obtain sec where enc: "encode_request sample_request None (Some 4096) = Inr sec"
    using size by (simp add: encode_request_fields [OF ok] fields_encode_def encoded_fields_def section_size_def)
  have "declared_length None (kept_headers (pt_headers sample_request)) = Some 12"
    by (simp add: k as_bytes_def parse_length_def is_ascii_digit_def digits_value_def)
  then show ?thesis using request_round_trip [OF ok enc size fit] enc by (simp add: k)
qed

text \<open>
  A response reads back the same way: status, the header fields but the connection-specific ones, the declared
  content length and the size. 101 is the one status HTTP/3 does not have.
\<close>

theorem response_round_trip:
  assumes "list_all (header_ok lib) (kept_headers headers)" and "lengths_agree None (kept_headers headers)"
    and "status_of lib (status_text lib status) = Some status" and "status_text lib status \<noteq> as_bytes ''101''"
    and "encode_response lib status headers peer_limit = Inr sec"
    and "section_size ((as_bytes '':status'', status_text lib status) # kept_headers headers) \<le> limit"
    and "fields_fit ((as_bytes '':status'', status_text lib status) # kept_headers headers)"
  shows "decode_response lib sec limit = Some (Inr
     \<lparr>rp_status = status, rp_headers = kept_headers headers,
      rp_content_length = declared_length None (kept_headers headers),
      rp_size = section_size ((as_bytes '':status'', status_text lib status) # kept_headers headers)\<rparr>)"
  by (rule decode_encoded_response [OF assms])

theorem response_round_trip_witness:
  "\<exists>sec h. encode_response plain_lib 204 [(as_bytes ''vary'', as_bytes ''origin'')] None = Inr sec \<and>
     decode_response plain_lib sec 4096 = Some (Inr h) \<and> rp_status h = 204"
proof -
  let ?hs = "[(as_bytes ''vary'', as_bytes ''origin'')]"
  have k: "kept_headers ?hs = ?hs" by (simp add: connection_specific_def as_bytes_def)
  have t: "status_text plain_lib 204 = [50, 48, 52]" by (simp add: plain_lib_def)
  obtain sec where enc: "encode_response plain_lib 204 ?hs None = Inr sec"
    by (simp add: encode_response_def fields_encode_def)
  have "decode_response plain_lib sec 4096 = Some (Inr
     \<lparr>rp_status = 204, rp_headers = kept_headers ?hs, rp_content_length = declared_length None (kept_headers ?hs),
      rp_size = section_size ((as_bytes '':status'', status_text plain_lib 204) # kept_headers ?hs)\<rparr>)"
    by (rule response_round_trip [OF _ _ _ _ enc])
      (simp_all add: k t header_ok_def plain_lib_def starts_with_colon_def connection_specific_def as_bytes_def
        digits_value_def field_size_def fields_fit_def)
  then show ?thesis using enc by simp
qed

text \<open>
  C18. Whatever a peer sends, the lines of an accepted request section are its pseudo-fields, none repeated, and then its regular
  fields, which are the headers of the head; the head is within the limit its decoder was given, carries no
  connection-specific field, no \<open>te\<close> but \<open>trailers\<close>, no two different content lengths, at most one host, no
  userinfo in its authority and a path that is absolute (or \<open>*\<close> of OPTIONS). Its authority is that of \<open>:authority\<close>, with which
  a host must agree, and without one that of the host, which must be there.
\<close>

theorem accepted_request_valid:
  assumes "keeps_text lib" and "decode_request lib sec limit = Some (Inr h)"
  shows "(\<exists>pseudo regular. section_lines sec = Some (Inr (pseudo @ regular)) \<and> list_all (\<lambda>(name, _). starts_with_colon name) pseudo \<and>
      list_all (\<lambda>(name, _). \<not> starts_with_colon name) regular \<and> distinct (map fst pseudo) \<and> rq_headers h = regular \<and>
      (if \<exists>val. (as_bytes '':authority'', val) \<in> set pseudo
       then (\<forall>val. (as_bytes '':authority'', val) \<in> set pseudo \<longrightarrow> authority_of lib val = Some (rq_authority h)) \<and>
         (\<forall>host. (as_bytes ''host'', host) \<in> set regular \<longrightarrow> host = rq_authority h)
       else \<exists>host. (as_bytes ''host'', host) \<in> set regular \<and> authority_of lib host = Some (rq_authority h))) \<and>
    section_size (rq_headers h) \<le> rq_size h \<and> rq_size h \<le> limit \<and>
    (\<forall>(name, val) \<in> set (rq_headers h). \<not> connection_specific name \<and>
       (name = as_bytes ''te'' \<longrightarrow> val = as_bytes ''trailers'') \<and>
       (name = as_bytes ''content-length'' \<longrightarrow> parse_length val \<noteq> None \<and> parse_length val = rq_content_length h)) \<and>
    length (filter (\<lambda>(name, _). name = as_bytes ''host'') (rq_headers h)) \<le> 1 \<and>
    of_char CHR ''@'' \<notin> set (rq_authority h) \<and>
    (starts_with_slash (rq_path h) \<or> rq_method h = as_bytes ''OPTIONS'' \<and> rq_path h = as_bytes ''*'')"
proof -
  obtain s where d: "qpack_decode (request_field lib limit) request_state_default sec = Some (Inr s)"
    and f: "request_finish lib s = Inr h"
    using assms(2) by (auto simp: decode_request_def and_then_Inr)
  obtain fs where fs: "section_lines sec = Some (Inr fs)" and run: "apply_fields (request_field lib limit) request_state_default fs = Inr s"
    using qpack_decode_lines [OF d] by blast
  have "fields_inv limit (rs_fields s)"
    using apply_fields_inv [where P = "\<lambda>s. fields_inv limit (rs_fields s)", OF request_field_inv [OF assms(1)] run]
      fields_inv_start by (auto simp: request_state_default_def)
  moreover obtain rest where rest: "fs = pseudo_lines fs @ rest" "pseudo_lines rest = []" "distinct (map fst (pseudo_lines fs))"
    using apply_fields_order [OF run] by blast
  note parts = apply_fields_parts [OF assms(1) run]
  have all: "section_lines sec = Some (Inr (pseudo_lines fs @ rest))" "list_all (\<lambda>(name, _). starts_with_colon name) (pseudo_lines fs)"
    "list_all (\<lambda>(name, _). \<not> starts_with_colon name) rest"
    using fs rest(1,2) by (auto simp: pseudo_lines_def list_all_iff filter_empty_conv)
  have headers: "rq_headers h = rest"
  proof -
    have "filter (\<lambda>(name, _). \<not> starts_with_colon name) (pseudo_lines fs @ rest) = rest"
      using all(2,3) by (auto simp: list_all_iff filter_empty_conv split_beta' filter_id_conv)
    then show ?thesis using parts rest(1) request_finish_fields(1) [OF f] by (simp add: request_state_default_def field_state_default_def)
  qed
  have named: "(as_bytes '':authority'', val) \<in> set fs \<longleftrightarrow> (as_bytes '':authority'', val) \<in> set (pseudo_lines fs)" for val
    by (simp add: pseudo_lines_def starts_with_colon_def as_bytes_def)
  note agrees = request_authority_agrees [OF request_finish_fields(4) [OF f], unfolded headers]
  have "if \<exists>val. (as_bytes '':authority'', val) \<in> set (pseudo_lines fs)
       then (\<forall>val. (as_bytes '':authority'', val) \<in> set (pseudo_lines fs) \<longrightarrow> authority_of lib val = Some (rq_authority h)) \<and>
         (\<forall>host. (as_bytes ''host'', host) \<in> set rest \<longrightarrow> host = rq_authority h)
       else \<exists>host. (as_bytes ''host'', host) \<in> set rest \<and> authority_of lib host = Some (rq_authority h)"
  proof (cases "rs_authority s")
    case None
    then have "(as_bytes '':authority'', val) \<notin> set (pseudo_lines fs)" for val using parts unfolding named [symmetric] by blast
    then show ?thesis using agrees(2) [OF None] by simp
  next
    case (Some x)
    have "\<exists>val. (as_bytes '':authority'', val) \<in> set fs"
    proof (rule ccontr)
      assume "\<not> ?thesis"
      then have "rs_authority s = None" using parts by (simp add: request_state_default_def)
      then show False using Some by simp
    qed
    then show ?thesis using agrees(1) [OF Some] parts Some unfolding named by auto
  qed
  then have "\<exists>pseudo regular. section_lines sec = Some (Inr (pseudo @ regular)) \<and> list_all (\<lambda>(name, _). starts_with_colon name) pseudo \<and>
      list_all (\<lambda>(name, _). \<not> starts_with_colon name) regular \<and> distinct (map fst pseudo) \<and> rq_headers h = regular \<and>
      (if \<exists>val. (as_bytes '':authority'', val) \<in> set pseudo
       then (\<forall>val. (as_bytes '':authority'', val) \<in> set pseudo \<longrightarrow> authority_of lib val = Some (rq_authority h)) \<and>
         (\<forall>host. (as_bytes ''host'', host) \<in> set regular \<longrightarrow> host = rq_authority h)
       else \<exists>host. (as_bytes ''host'', host) \<in> set regular \<and> authority_of lib host = Some (rq_authority h))"
    using all rest(3) headers by blast
  ultimately show ?thesis
    using request_finish_fields [OF f] request_authority_facts [OF request_finish_fields(4) [OF f]]
    unfolding fields_inv_def by simp
qed

theorem accepted_request_valid_witness:
  "keeps_text plain_lib \<and> (\<exists>h. decode_request plain_lib [0, 0, 0xd1, 0xd7, 0x50, 1, 0x61, 0xc1] 200 = Some (Inr h) \<and> rq_size h \<le> 200 \<and>
     of_char CHR ''@'' \<notin> set (rq_authority h))"
proof -
  have k: "keeps_text plain_lib" by (simp add: keeps_text_def plain_lib_def)
  have "case decode_request plain_lib [0, 0, 0xd1, 0xd7, 0x50, 1, 0x61, 0xc1] 200 of Some (Inr _) \<Rightarrow> True | _ \<Rightarrow> False"
    by code_simp
  then obtain h where h: "decode_request plain_lib [0, 0, 0xd1, 0xd7, 0x50, 1, 0x61, 0xc1] 200 = Some (Inr h)"
    by (auto split: option.splits sum.splits)
  from accepted_request_valid [OF k h] h k show ?thesis by blast
qed

end
