(* ===== verification/Message.thy ===== *)
theory Message
  imports Frame Message_Fields
begin

text \<open>
  A request stream's frames, \<^verbatim>\<open>rust/http3/src/message.rs\<close>: a message is a HEADERS frame, DATA frames, optional
  trailers and FIN, read from chunks of any size. The reader is an automaton over the bytes of the stream, which
  gives that chunks do not matter; the order of events, the bound on what is buffered and the accounting of the
  declared length are invariants of its calls. A session identifier (\<^verbatim>\<open>webtransport.rs\<close>) is its number.
\<close>

subsection \<open>The model\<close>

definition session_id_new :: "u64 \<Rightarrow> u64 option" where
  "session_id_new ident = (if ident mod 4 = 0 \<and> ident \<le> varint_MAX then Some ident else None)"

datatype role = Server | Client

datatype event = EHead bytes | EData bytes | ETrailers bytes

datatype phase = PhHead | PhBody | PhTrailers

text \<open>\<open>section\<close> is a vector with its capacity.\<close>

record message =
  ms_frames :: frame_reader
  ms_phase :: phase
  ms_started :: bool
  ms_kind :: u64
  ms_section :: bytes
  ms_capacity :: nat
  ms_limit :: u64
  ms_owed :: "u64 option"
  ms_response :: bool

definition message_new :: "u64 \<Rightarrow> role \<Rightarrow> message" where
  "message_new limit peer = \<lparr>ms_frames = frame_reader_default, ms_phase = PhHead, ms_started = False, ms_kind = FRAME_DATA,
     ms_section = [], ms_capacity = 0, ms_limit = limit, ms_owed = None, ms_response = (peer = Server)\<rparr>"

definition is_informational :: "nat \<Rightarrow> bool" where
  "is_informational status \<longleftrightarrow> 100 \<le> status \<and> status < 200"

definition is_success :: "nat \<Rightarrow> bool" where
  "is_success status \<longleftrightarrow> 200 \<le> status \<and> status < 300"

definition NO_CONTENT :: nat where "NO_CONTENT = 204"
definition NOT_MODIFIED :: nat where "NOT_MODIFIED = 304"

definition response_owed :: "bytes \<Rightarrow> nat \<Rightarrow> nat option \<Rightarrow> u64 option" where
  "response_owed meth status content_length =
     (if meth = as_bytes ''CONNECT'' \<and> is_success status then None
      else if meth = as_bytes ''HEAD'' \<or> status = NO_CONTENT \<or> status = NOT_MODIFIED then Some 0
      else map_option of_nat content_length)"

definition message_response ::
    "http_lib \<Rightarrow> message \<Rightarrow> bytes \<Rightarrow> bytes \<Rightarrow> ((code + response_head option) \<times> message) option" where
  "message_response lib m section meth = (case decode_response lib section (unat (ms_limit m)) of
       None \<Rightarrow> None
     | Some (Inl e) \<Rightarrow> Some (Inl (invalid_code e), m)
     | Some (Inr head) \<Rightarrow>
         if is_informational (rp_status head) then Some (Inr None, message_new (ms_limit m) Server)
         else Some (Inr (Some head), m\<lparr>ms_owed := response_owed meth (rp_status head) (rp_content_length head)\<rparr>))"

definition message_fields :: "message \<Rightarrow> bytes \<Rightarrow> event \<times> message" where
  "message_fields m section =
     (if ms_phase m = PhHead then (EHead section, m\<lparr>ms_phase := PhBody\<rparr>)
      else (ETrailers section, m\<lparr>ms_phase := PhTrailers\<rparr>))"

definition emit :: "event \<times> message \<Rightarrow> (code + event option) \<times> message" where
  "emit r = (Inr (Some (fst r)), snd r)"

definition message_header :: "message \<Rightarrow> u64 \<Rightarrow> u64 \<Rightarrow> (code + event option) \<times> message" where
  "message_header m kind len =
     (let opening = (\<not> ms_started m \<and> \<not> ms_response m); m = m\<lparr>ms_started := True, ms_kind := kind\<rparr>
      in if kind = FRAME_HEADERS \<and> ms_phase m \<noteq> PhTrailers
         then if len > ms_limit m then (Inl H3_EXCESSIVE_LOAD, m)
              else if len = 0 then emit (message_fields m [])
              else (Inr None, m)
         else if kind = FRAME_DATA \<and> ms_phase m = PhBody then (Inr None, m)
         else if kind = FRAME_WEBTRANSPORT_BIDI
         then (Inl (if \<not> opening then H3_FRAME_ERROR else if session_id_new len = None then H3_ID_ERROR else WT_CANCELLED), m)
         else if kind = FRAME_PUSH_PROMISE \<and> ms_response m then (Inl H3_ID_ERROR, m)
         else if kind \<in> {FRAME_DATA, FRAME_HEADERS, FRAME_SETTINGS, FRAME_GOAWAY, FRAME_MAX_PUSH_ID, FRAME_CANCEL_PUSH, FRAME_PUSH_PROMISE}
           \<or> is_http2 kind then (Inl H3_FRAME_UNEXPECTED, m)
         else (Inr None, m))"

definition message_data :: "message \<Rightarrow> bytes \<Rightarrow> (code + event option) \<times> message" where
  "message_data m payload = (case ms_owed m of
       None \<Rightarrow> (Inr (Some (EData payload)), m)
     | Some owed \<Rightarrow>
         if length payload \<le> unat owed
         then (Inr (Some (EData payload)), m\<lparr>ms_owed := Some (owed - of_nat (length payload))\<rparr>)
         else (Inl H3_MESSAGE_ERROR, m))"

text \<open>\<open>reserve_exact\<close> on an empty vector makes its capacity what was asked for.\<close>

definition message_section :: "message \<Rightarrow> bytes \<Rightarrow> (code + event option) \<times> message" where
  "message_section m payload =
     (let remaining = unat (fr_remaining (ms_frames m));
          m = (if ms_section m = [] then m\<lparr>ms_capacity := length payload + remaining\<rparr> else m);
          m = m\<lparr>ms_section := ms_section m @ payload\<rparr>
      in if remaining > 0 then (Inr None, m)
         else emit (message_fields (m\<lparr>ms_section := [], ms_capacity := 0\<rparr>) (ms_section m)))"

definition message_payload :: "message \<Rightarrow> bytes \<Rightarrow> (code + event option) \<times> message" where
  "message_payload m payload =
     (if ms_kind m = FRAME_DATA then message_data m payload
      else if ms_kind m = FRAME_HEADERS
      then if fr_remaining (ms_frames m) = 0 \<and> ms_section m = [] then emit (message_fields m payload)
           else message_section m payload
      else (Inr None, m))"

definition message_piece :: "message \<Rightarrow> piece \<Rightarrow> (code + event option) \<times> message" where
  "message_piece m p = (case p of Header kind len \<Rightarrow> message_header m kind len | Payload payload \<Rightarrow> message_payload m payload)"

lemma message_piece_keeps:
  "ms_frames (snd (message_piece m p)) = ms_frames m \<and> ms_limit (snd (message_piece m p)) = ms_limit m \<and>
     ms_response (snd (message_piece m p)) = ms_response m"
  by (cases p) (auto simp: message_piece_def message_header_def message_payload_def message_data_def message_section_def
      message_fields_def emit_def Let_def split: option.split)

function message_next :: "message \<Rightarrow> bytes \<Rightarrow> (code + event option) \<times> message \<times> bytes" where
  "message_next m input = (case frame_next (ms_frames m) input of
       (None, r, rest) \<Rightarrow> (Inr None, m\<lparr>ms_frames := r\<rparr>, rest)
     | (Some p, r, rest) \<Rightarrow>
         (case message_piece (m\<lparr>ms_frames := r\<rparr>) p of
            (Inr None, m') \<Rightarrow> message_next m' rest
          | (res, m') \<Rightarrow> (res, m', rest)))"
  by pat_completeness auto
termination
  by (relation "measure (\<lambda>(m, input). reader_mass (ms_frames m) input)") 
    (auto dest!: frame_next_mass [OF sym] dest: arg_cong [of _ _ "\<lambda>x. ms_frames (snd x)"] simp: message_piece_keeps)

declare message_next.simps [simp del]

definition message_finish :: "message \<Rightarrow> code + unit" where
  "message_finish m =
     (if \<not> frame_at_boundary (ms_frames m) then Inl H3_FRAME_ERROR
      else if ms_phase m = PhHead then Inl H3_REQUEST_INCOMPLETE
      else if (case ms_owed m of None \<Rightarrow> False | Some owed \<Rightarrow> owed > 0) then Inl H3_MESSAGE_ERROR
      else Inr ())"

definition message_buffered :: "message \<Rightarrow> nat" where
  "message_buffered m = ms_capacity m"

definition has_head :: "message \<Rightarrow> bool" where
  "has_head m \<longleftrightarrow> ms_phase m \<noteq> PhHead"


subsection \<open>The order of events and what is buffered\<close>

text \<open>
  Any calls of \<open>next\<close> on any input. Right after the head of a request the caller sets what is owed; a response's head it
  hands to \<open>response\<close>, which sets it, or restarts the message after an interim head. The list is the events so far.
\<close>

inductive message_reads :: "http_lib \<Rightarrow> message \<Rightarrow> event list \<Rightarrow> message \<Rightarrow> bool" for lib m\<^sub>0 where
  start: "message_reads lib m\<^sub>0 [] m\<^sub>0"
| more: "message_reads lib m\<^sub>0 es m \<Longrightarrow> message_next m input = (Inr None, m', rest) \<Longrightarrow> message_reads lib m\<^sub>0 es m'"
| event: "message_reads lib m\<^sub>0 es m \<Longrightarrow> message_next m input = (Inr (Some e), m', rest) \<Longrightarrow> message_reads lib m\<^sub>0 (es @ [e]) m'"
| owe: "message_reads lib m\<^sub>0 es m \<Longrightarrow> es \<noteq> [] \<Longrightarrow> last es = EHead s \<Longrightarrow> message_reads lib m\<^sub>0 es (m\<lparr>ms_owed := n\<rparr>)"
| respond: "message_reads lib m\<^sub>0 es m \<Longrightarrow> ms_response m \<Longrightarrow> message_next m input = (Inr (Some (EHead s)), m', rest) \<Longrightarrow>
    message_response lib m' s meth = Some (Inr head, m'') \<Longrightarrow> message_reads lib m\<^sub>0 (es @ [EHead s]) m''"

fun ordered :: "phase \<Rightarrow> event list \<Rightarrow> phase \<Rightarrow> bool" where
  "ordered p [] q \<longleftrightarrow> p = q"
| "ordered p (EHead _ # es) q \<longleftrightarrow> p = PhHead \<and> ordered PhBody es q"
| "ordered p (EData _ # es) q \<longleftrightarrow> p = PhBody \<and> ordered PhBody es q"
| "ordered p (ETrailers _ # es) q \<longleftrightarrow> p = PhBody \<and> ordered PhTrailers es q"

fun event_section :: "event \<Rightarrow> bytes" where
  "event_section (EHead s) = s"
| "event_section (ETrailers s) = s"
| "event_section (EData _) = []"

text \<open>
  What holds between calls: inside a frame the kind fits the phase, and a section being gathered is the part of its
  frame's payload that has arrived, the rest of which is still to come.
\<close>

definition message_inv :: "message \<Rightarrow> bool" where
  "message_inv m \<longleftrightarrow> frame_wf (ms_frames m) \<and>
     (fr_remaining (ms_frames m) \<noteq> 0 \<longrightarrow> pair_is_empty (fr_header (ms_frames m))) \<and>
     (fr_remaining (ms_frames m) \<noteq> 0 \<longrightarrow> ms_kind m = FRAME_DATA \<longrightarrow> ms_phase m = PhBody) \<and>
     (fr_remaining (ms_frames m) \<noteq> 0 \<longrightarrow> ms_kind m = FRAME_HEADERS \<longrightarrow> ms_phase m \<noteq> PhTrailers \<and>
        length (ms_section m) + unat (fr_remaining (ms_frames m)) \<le> unat (ms_limit m)) \<and>
     (if ms_section m = [] then ms_capacity m = 0
      else ms_kind m = FRAME_HEADERS \<and> fr_remaining (ms_frames m) \<noteq> 0 \<and>
        ms_capacity m = length (ms_section m) + unat (fr_remaining (ms_frames m)))"

lemma message_inv_owed [simp]: "message_inv (m\<lparr>ms_owed := n\<rparr>) = message_inv m"
  by (simp add: message_inv_def)

lemma message_inv_new: "message_inv (message_new limit peer)"
  by (simp add: message_inv_def message_new_def frame_reader_default_def frame_wf_def pair_default_def)

text \<open>A piece handed on by the frame reader, in terms of what was left before.\<close>

definition piece_from :: "frame_reader \<Rightarrow> piece \<Rightarrow> frame_reader \<Rightarrow> bool" where
  "piece_from r p r' \<longleftrightarrow> (case p of
       Header kind len \<Rightarrow> fr_remaining r = 0 \<and> fr_remaining r' = len
     | Payload bs \<Rightarrow> fr_remaining r \<noteq> 0 \<and> bs \<noteq> [] \<and> unat (fr_remaining r) = length bs + unat (fr_remaining r'))"

lemma frame_next_piece:
  assumes wf: "frame_wf r" and nx: "frame_next r input = (Some p, r', rest)"
    and idle: "fr_remaining r \<noteq> 0 \<Longrightarrow> pair_is_empty (fr_header r)"
  shows "piece_from r p r'" and "pair_is_empty (fr_header r')"
proof -
  have "piece_from r p r' \<and> pair_is_empty (fr_header r')"
  proof (cases "fr_remaining r = 0")
    case True
    have "pair_post (run_bytes frame_step) frame_header_event
        (pair_first (fr_header r), pend (pair_varint (fr_header r)), 0) input (pair_read (fr_header r) input)"
      using wf by (intro pair_read_post) (simp_all add: frame_wf_def)
    with True nx show ?thesis
      by (auto simp: frame_next_def pair_post_def piece_from_def pair_is_empty_def partial_is_empty_pend
          split: prod.splits option.splits)
  next
    case False
    let ?n = "min (unat (fr_remaining r)) (length input)"
    from False nx have ne: "input \<noteq> []" and p: "p = Payload (take ?n input)"
      and r: "r' = r\<lparr>fr_remaining := fr_remaining r - of_nat ?n\<rparr>"
      by (auto simp: frame_next_def Let_def split: if_splits)
    have "unat (of_nat ?n :: u64) = ?n"
      by (rule unat_of_small) (use unat_lt64 [of "fr_remaining r"] in simp)
    then have "unat (fr_remaining r - of_nat ?n) = unat (fr_remaining r) - ?n"
      by (subst unat_sub) (simp_all add: word_le_nat_alt)
    moreover have "0 < ?n" using ne False by (simp add: unat_gt_0)
    ultimately show ?thesis using False ne p r idle by (auto simp: piece_from_def)
  qed
  then show "piece_from r p r'" "pair_is_empty (fr_header r')" by auto
qed

text \<open>The headers that are accepted.\<close>

lemma message_header_accepts:
  assumes "message_header m kind len = (Inr res, m')"
  shows "kind = FRAME_HEADERS \<and> ms_phase m \<noteq> PhTrailers \<and> len = 0 \<and>
      res = Some (fst (message_fields (m\<lparr>ms_started := True, ms_kind := kind\<rparr>) [])) \<and>
      m' = snd (message_fields (m\<lparr>ms_started := True, ms_kind := kind\<rparr>) []) \<or>
    m' = m\<lparr>ms_started := True, ms_kind := kind\<rparr> \<and> res = None \<and>
      (kind = FRAME_HEADERS \<longrightarrow> ms_phase m \<noteq> PhTrailers \<and> len \<le> ms_limit m) \<and> (kind = FRAME_DATA \<longrightarrow> ms_phase m = PhBody)"
proof -
  have kinds: "FRAME_HEADERS \<noteq> FRAME_DATA" by (simp add: frame_types)
  show ?thesis
  proof (cases "kind = FRAME_HEADERS \<and> ms_phase m \<noteq> PhTrailers")
    case True
    then show ?thesis using assms kinds
      by (cases "len > ms_limit m"; cases "len = 0") (auto simp: message_header_def Let_def emit_def)
  next
    case headers: False
    show ?thesis
    proof (cases "kind = FRAME_DATA \<and> ms_phase m = PhBody")
      case True
      then show ?thesis using assms kinds by (simp add: message_header_def Let_def)
    next
      case False
      with headers have "kind \<noteq> FRAME_HEADERS \<and> kind \<noteq> FRAME_DATA \<and> m' = m\<lparr>ms_started := True, ms_kind := kind\<rparr> \<and> res = None"
        using assms by (simp add: message_header_def Let_def split: if_splits)
      then show ?thesis by blast
    qed
  qed
qed

text \<open>One piece keeps the invariant, and its event continues the order and fits the limit.\<close>

lemma message_piece_inv:
  assumes inv: "message_inv m" and wf: "frame_wf r" and p: "piece_from (ms_frames m) p r" "pair_is_empty (fr_header r)"
    and run: "message_piece (m\<lparr>ms_frames := r\<rparr>) p = (Inr res, m')"
  shows "message_inv m'"
    and "case res of None \<Rightarrow> ms_phase m' = ms_phase m
      | Some e \<Rightarrow> ordered (ms_phase m) [e] (ms_phase m') \<and> length (event_section e) \<le> unat (ms_limit m) \<and>
          ((\<exists>d. e = EData d) \<or> fr_remaining r = 0)"
proof -
  have "message_inv m' \<and> (case res of None \<Rightarrow> ms_phase m' = ms_phase m
      | Some e \<Rightarrow> ordered (ms_phase m) [e] (ms_phase m') \<and> length (event_section e) \<le> unat (ms_limit m) \<and>
          ((\<exists>d. e = EData d) \<or> fr_remaining r = 0))"
  proof (cases p)
    case (Header kind len)
    then have "fr_remaining (ms_frames m) = 0" "fr_remaining r = len" using p by (simp_all add: piece_from_def)
    moreover have idle: "ms_section m = []" "ms_capacity m = 0" using inv calculation(1) by (auto simp: message_inv_def split: if_splits)
    moreover have "message_header (m\<lparr>ms_frames := r\<rparr>) kind len = (Inr res, m')" using Header run by (simp add: message_piece_def)
    from message_header_accepts [OF this] show ?thesis
    proof (elim disjE conjE)
      assume "kind = FRAME_HEADERS" "ms_phase (m\<lparr>ms_frames := r\<rparr>) \<noteq> PhTrailers" "len = 0"
        "res = Some (fst (message_fields (m\<lparr>ms_frames := r, ms_started := True, ms_kind := kind\<rparr>) []))"
        "m' = snd (message_fields (m\<lparr>ms_frames := r, ms_started := True, ms_kind := kind\<rparr>) [])"
      then show ?thesis using calculation wf p(2)
        by (cases "ms_phase m") (simp_all add: message_fields_def message_inv_def)
    next
      assume "m' = m\<lparr>ms_frames := r, ms_started := True, ms_kind := kind\<rparr>" "res = None"
        "kind = FRAME_HEADERS \<longrightarrow> ms_phase (m\<lparr>ms_frames := r\<rparr>) \<noteq> PhTrailers \<and> len \<le> ms_limit (m\<lparr>ms_frames := r\<rparr>)"
        "kind = FRAME_DATA \<longrightarrow> ms_phase (m\<lparr>ms_frames := r\<rparr>) = PhBody"
      then show ?thesis using calculation wf p(2) by (simp add: message_inv_def word_le_nat_alt)
    qed
  next
    case (Payload bs)
    then have l: "bs \<noteq> []" "unat (fr_remaining (ms_frames m)) = length bs + unat (fr_remaining r)" "fr_remaining (ms_frames m) \<noteq> 0"
      using p by (simp_all add: piece_from_def)
    consider "ms_kind m = FRAME_DATA" | "ms_kind m = FRAME_HEADERS" | "ms_kind m \<noteq> FRAME_DATA" "ms_kind m \<noteq> FRAME_HEADERS" by blast
    then show ?thesis
    proof cases
      case 1
      with Payload inv wf p(2) run l show ?thesis
        by (auto simp: message_piece_def message_payload_def message_data_def message_inv_def frame_types split: if_splits option.splits)
    next
      case 2
      have ph: "ms_phase m = PhHead \<or> ms_phase m = PhBody" "length (ms_section m) + length bs + unat (fr_remaining r) \<le> unat (ms_limit m)"
        using inv l 2 by (cases "ms_phase m"; simp add: message_inv_def)+
      have cap: "if ms_section m = [] then ms_capacity m = 0 else ms_capacity m = length (ms_section m) + length bs + unat (fr_remaining r)"
        using inv l by (auto simp: message_inv_def split: if_splits)
      have kinds: "FRAME_HEADERS \<noteq> FRAME_DATA" by (simp add: frame_types)
      have run: "(if fr_remaining r = 0 \<and> ms_section m = [] then emit (message_fields (m\<lparr>ms_frames := r\<rparr>) bs)
           else message_section (m\<lparr>ms_frames := r\<rparr>) bs) = (Inr res, m')"
        using run 2 Payload kinds by (simp add: message_piece_def message_payload_def)
      show ?thesis
      proof (cases "fr_remaining r = 0")
        case True
        then show ?thesis using run ph cap wf p(2) l
          by (auto simp: message_section_def message_fields_def emit_def Let_def message_inv_def split: if_splits)
      next
        case False
        then have "res = None" "m' = m\<lparr>ms_frames := r, ms_section := ms_section m @ bs,
            ms_capacity := (if ms_section m = [] then length bs + unat (fr_remaining r) else ms_capacity m)\<rparr>"
          using run by (auto simp: message_section_def Let_def unsigned_eq_0_iff split: if_splits)
        then show ?thesis using False ph cap wf p(2) l 2 kinds by (auto simp: message_inv_def split: if_splits)
      qed
    next
      case 3
      with Payload inv wf p(2) run l show ?thesis
        by (auto simp: message_piece_def message_payload_def message_inv_def frame_types split: if_splits)
    qed
  qed
  then show "message_inv m'" "case res of None \<Rightarrow> ms_phase m' = ms_phase m
      | Some e \<Rightarrow> ordered (ms_phase m) [e] (ms_phase m') \<and> length (event_section e) \<le> unat (ms_limit m) \<and>
          ((\<exists>d. e = EData d) \<or> fr_remaining r = 0)" by auto
qed

lemma message_next_inv:
  assumes "message_inv m" and "message_next m input = (Inr res, m', rest)"
  shows "message_inv m' \<and> ms_limit m' = ms_limit m \<and>
    (case res of None \<Rightarrow> ms_phase m' = ms_phase m \<and> rest = []
     | Some e \<Rightarrow> ordered (ms_phase m) [e] (ms_phase m') \<and> length (event_section e) \<le> unat (ms_limit m) \<and>
         ((\<exists>d. e = EData d) \<or> frame_at_boundary (ms_frames m')))"
  using assms
proof (induction m input rule: message_next.induct)
  case (1 m input)
  obtain q r rest1 where nx: "frame_next (ms_frames m) input = (q, r, rest1)" by (metis prod_cases3)
  have wf: "frame_wf (ms_frames m)" and idle: "fr_remaining (ms_frames m) \<noteq> 0 \<Longrightarrow> pair_is_empty (fr_header (ms_frames m))"
    using 1(2) by (auto simp: message_inv_def)
  note post = frame_next_post [OF wf nx]
  show ?case
  proof (cases q)
    case None
    have "fr_remaining r = fr_remaining (ms_frames m) \<and> (fr_remaining r \<noteq> 0 \<longrightarrow> pair_is_empty (fr_header r))"
      using nx None idle by (auto simp: frame_next_def Let_def split: if_splits prod.splits option.splits)
    moreover have "m' = m\<lparr>ms_frames := r\<rparr>" "res = None" "rest = rest1"
      using 1(3) nx None by (simp_all add: message_next.simps [of m])
    ultimately show ?thesis using 1(2) post None by (auto simp: message_inv_def)
  next
    case (Some p)
    obtain x m1 where mp: "message_piece (m\<lparr>ms_frames := r\<rparr>) p = (x, m1)" by (metis prod.exhaust)
    have keep: "ms_frames m1 = r" "ms_limit m1 = ms_limit m"
      using message_piece_keeps [of "m\<lparr>ms_frames := r\<rparr>" p] mp by simp_all
    note pf = frame_next_piece [OF wf nx [unfolded Some] idle]
    obtain y where y: "x = Inr y" using 1(3) nx Some mp by (cases x) (auto simp: message_next.simps [of m])
    note piece = message_piece_inv [OF 1(2) post(1) pf mp [unfolded y]]
    show ?thesis
    proof (cases y)
      case None
      then have "message_next m1 rest1 = (Inr res, m', rest)" using 1(3) nx Some mp y by (simp add: message_next.simps [of m])
      from "1.IH" [OF nx [symmetric] Some refl mp [symmetric], of None] y None piece this keep show ?thesis by (cases res) simp_all
    next
      case (Some e)
      then have "res = Some e" "m' = m1" using 1(3) nx \<open>q = Some p\<close> mp y by (simp_all add: message_next.simps [of m])
      then show ?thesis using piece Some keep pf by (auto simp: frame_at_boundary_def)
    qed
  qed
qed

lemma ordered_append: "ordered p (es @ fs) q \<longleftrightarrow> (\<exists>r. ordered p es r \<and> ordered r fs q)"
proof (induction es arbitrary: p)
  case (Cons e es)
  then show ?case by (cases e) auto
qed simp

lemma message_next_response: "message_next m input = (x, m', rest) \<Longrightarrow> ms_response m' = ms_response m"
proof (induction m input rule: message_next.induct)
  case (1 m input)
  obtain q r rest1 where nx: "frame_next (ms_frames m) input = (q, r, rest1)" by (metis prod_cases3)
  show ?case
  proof (cases q)
    case None
    then show ?thesis using 1(2) nx by (auto simp: message_next.simps [of m])
  next
    case (Some p)
    obtain y m1 where mp: "message_piece (m\<lparr>ms_frames := r\<rparr>) p = (y, m1)" by (metis prod.exhaust)
    have keep: "ms_response m1 = ms_response m" using message_piece_keeps [of "m\<lparr>ms_frames := r\<rparr>" p] mp by simp
    show ?thesis
    proof (cases "y = Inr None")
      case True
      then have "message_next m1 rest1 = (x, m', rest)" using 1(2) nx Some mp by (simp add: message_next.simps [of m])
      with "1.IH" [OF nx [symmetric] Some refl mp [symmetric], of None] True keep show ?thesis by simp
    next
      case False
      then show ?thesis using 1(2) nx Some mp keep by (auto simp: message_next.simps [of m] split: sum.splits option.splits)
    qed
  qed
qed

lemma ordered_to_head: "ordered p es q \<Longrightarrow> q = PhHead \<Longrightarrow> es = [] \<and> p = PhHead"
  by (induction p es q rule: ordered.induct) auto

text \<open>Heads that were interim, and were read past.\<close>

definition interim_head :: "http_lib \<Rightarrow> u64 \<Rightarrow> bytes \<Rightarrow> bool" where
  "interim_head lib limit s \<longleftrightarrow> (\<exists>head. decode_response lib s (unat limit) = Some (Inr head) \<and> is_informational (rp_status head))"

lemma message_response_cases:
  assumes "message_response lib m s meth = Some (Inr head, m')"
  shows "interim_head lib (ms_limit m) s \<and> m' = message_new (ms_limit m) Server \<or> (\<exists>n. m' = m\<lparr>ms_owed := n\<rparr>)"
  using assms by (auto simp: message_response_def interim_head_def split: option.splits sum.splits if_splits)

lemma message_reads_inv:
  assumes "message_reads lib m\<^sub>0 es m" and "message_inv m\<^sub>0"
  shows "message_inv m \<and> ms_limit m = ms_limit m\<^sub>0 \<and> ms_response m = ms_response m\<^sub>0 \<and>
    (\<exists>interim es'. es = map EHead interim @ es' \<and> ordered (ms_phase m\<^sub>0) es' (ms_phase m) \<and>
      (\<forall>s \<in> set interim. ms_response m\<^sub>0 \<and> ms_phase m\<^sub>0 = PhHead \<and> interim_head lib (ms_limit m\<^sub>0) s)) \<and>
    (\<forall>e \<in> set es. length (event_section e) \<le> unat (ms_limit m\<^sub>0))"
  using assms
proof (induction rule: message_reads.induct)
  case start
  then show ?case by (auto intro: exI [of _ "[]"])
next
  case (event es m input e m' rest)
  then obtain interim es' where "es = map EHead interim @ es'" "ordered (ms_phase m\<^sub>0) es' (ms_phase m)"
    "\<forall>s \<in> set interim. ms_response m\<^sub>0 \<and> ms_phase m\<^sub>0 = PhHead \<and> interim_head lib (ms_limit m\<^sub>0) s" by blast
  then have "es @ [e] = map EHead interim @ es' @ [e]" "ordered (ms_phase m\<^sub>0) (es' @ [e]) (ms_phase m')"
    using message_next_inv [OF _ event(2)] event by (auto simp: ordered_append)
  then show ?case using message_next_inv [OF _ event(2)] message_next_response [OF event(2)] event
      \<open>\<forall>s \<in> set interim. _ s\<close> by (auto intro!: exI [of _ interim] exI [of _ "es' @ [e]"])
next
  case (more es m input m' rest)
  then show ?case using message_next_inv [OF _ more(2)] message_next_response [OF more(2)] by auto
next
  case (respond es m input s m' rest meth head m'')
  then obtain interim es' where es: "es = map EHead interim @ es'" "ordered (ms_phase m\<^sub>0) es' (ms_phase m)"
    "\<forall>s \<in> set interim. ms_response m\<^sub>0 \<and> ms_phase m\<^sub>0 = PhHead \<and> interim_head lib (ms_limit m\<^sub>0) s" by blast
  note nx = message_next_inv [OF _ respond(3)] message_next_response [OF respond(3)]
  have ph: "ms_phase m = PhHead" "ms_phase m' = PhBody" "message_inv m'" "ms_limit m' = ms_limit m\<^sub>0"
    "ms_response m' = ms_response m\<^sub>0" "length s \<le> unat (ms_limit m\<^sub>0)" using nx respond by auto
  then have none: "es' = []" "ms_phase m\<^sub>0 = PhHead" using es(2) ordered_to_head by auto
  have len: "\<forall>e \<in> set (es @ [EHead s]). length (event_section e) \<le> unat (ms_limit m\<^sub>0)" using respond ph by auto
  from message_response_cases [OF respond(4)] show ?case
  proof (elim disjE conjE exE)
    assume "interim_head lib (ms_limit m') s" "m'' = message_new (ms_limit m') Server"
    then have "message_inv m''" by (simp add: message_inv_new)
    moreover have "ms_limit m'' = ms_limit m\<^sub>0" "ms_response m''" "ms_phase m'' = PhHead" "interim_head lib (ms_limit m\<^sub>0) s"
      using ph(4) \<open>m'' = _\<close> \<open>interim_head _ _ _\<close> by (simp_all add: message_new_def)
    moreover have "ms_response m\<^sub>0" using respond(2,5,6) by simp
    ultimately show ?thesis using len es none by (simp, intro exI [of _ "interim @ [s]"] exI [of _ "[]"]) simp
  next
    fix n assume "m'' = m'\<lparr>ms_owed := n\<rparr>"
    then show ?thesis using len ph es none by (auto intro!: exI [of _ interim] exI [of _ "[EHead s]"])
  qed
qed simp_all

lemma ordered_from_head:
  "ordered PhHead es q \<longleftrightarrow> es = [] \<and> q = PhHead \<or>
     (\<exists>h ds. es = EHead h # map EData ds \<and> q = PhBody) \<or> (\<exists>h ds t. es = EHead h # map EData ds @ [ETrailers t] \<and> q = PhTrailers)"
proof -
  have t: "ordered PhTrailers es q \<longleftrightarrow> es = [] \<and> q = PhTrailers" for es
    by (cases es; cases "hd es") auto
  have b: "ordered PhBody es q \<longleftrightarrow> (\<exists>ds. es = map EData ds \<and> q = PhBody) \<or> (\<exists>ds t. es = map EData ds @ [ETrailers t] \<and> q = PhTrailers)" for es
  proof (induction es)
    case (Cons e es)
    show ?case
    proof (cases e)
      case (EData d)
      have "(\<exists>ds. e # es = map EData ds) \<longleftrightarrow> (\<exists>ds. es = map EData ds)" using EData by (auto simp: Cons_eq_map_conv)
      moreover have "(\<exists>ds t. e # es = map EData ds @ [ETrailers t]) \<longleftrightarrow> (\<exists>ds t. es = map EData ds @ [ETrailers t])"
        using EData by (auto simp: Cons_eq_append_conv Cons_eq_map_conv)
      ultimately show ?thesis using Cons EData by auto
    qed (auto simp: t Cons_eq_append_conv)
  qed auto
  show ?thesis by (cases es; cases "hd es") (auto simp: b)
qed

subsection \<open>The declared length\<close>

definition data_length :: "event \<Rightarrow> nat" where
  "data_length e = (case e of EData d \<Rightarrow> length d | _ \<Rightarrow> 0)"

definition data_total :: "event list \<Rightarrow> nat" where
  "data_total es = sum_list (map data_length es)"

lemma message_piece_owed:
  assumes "ms_owed m = Some n" and "message_piece m p = (Inr res, m')"
  shows "\<exists>k. k = (case res of None \<Rightarrow> 0 | Some e \<Rightarrow> data_length e) \<and> k \<le> unat n \<and> ms_owed m' = Some (n - of_nat k)"
  using assms
  by (cases p) (auto simp: message_piece_def message_header_def message_payload_def message_data_def message_section_def
      message_fields_def emit_def Let_def data_length_def split: if_splits)

lemma message_next_owed:
  assumes "ms_owed m = Some n" and "message_next m input = (Inr res, m', rest)"
  shows "\<exists>k. k = (case res of None \<Rightarrow> 0 | Some e \<Rightarrow> data_length e) \<and> k \<le> unat n \<and> ms_owed m' = Some (n - of_nat k)"
  using assms
proof (induction m input rule: message_next.induct)
  case (1 m input)
  obtain q r rest1 where nx: "frame_next (ms_frames m) input = (q, r, rest1)" by (metis prod_cases3)
  show ?case
  proof (cases q)
    case None
    then show ?thesis using 1(2,3) nx by (auto simp: message_next.simps [of m])
  next
    case (Some p)
    obtain x m1 where mp: "message_piece (m\<lparr>ms_frames := r\<rparr>) p = (x, m1)" by (metis prod.exhaust)
    obtain y where y: "x = Inr y" using 1(3) nx Some mp by (cases x) (auto simp: message_next.simps [of m])
    note piece = message_piece_owed [of "m\<lparr>ms_frames := r\<rparr>" n, OF _ mp [unfolded y]]
    show ?thesis
    proof (cases y)
      case None
      then have "message_next m1 rest1 = (Inr res, m', rest)" using 1(3) nx Some mp y by (simp add: message_next.simps [of m])
      with "1.IH" [OF nx [symmetric] Some refl mp [symmetric], of None] y None piece 1(2) show ?thesis by simp
    next
      case (Some e)
      then show ?thesis using 1(2,3) nx \<open>q = Some p\<close> mp y piece by (simp add: message_next.simps [of m])
    qed
  qed
qed

lemma ordered_no_head: "ordered p es q \<Longrightarrow> p \<noteq> PhHead \<Longrightarrow> EHead s \<notin> set es"
proof (induction p es q rule: ordered.induct)
qed auto

lemma message_reads_owed:
  assumes "message_reads lib m\<^sub>0 es m" and "message_inv m\<^sub>0" and "ms_phase m\<^sub>0 \<noteq> PhHead" and "ms_owed m\<^sub>0 = Some n"
  shows "data_total es \<le> unat n \<and> ms_owed m = Some (n - of_nat (data_total es))"
  using assms
proof (induction rule: message_reads.induct)
  case (event es m input e m' rest)
  then have IH: "data_total es \<le> unat n" "ms_owed m = Some (n - of_nat (data_total es))" by simp_all
  obtain k where k: "k = data_length e" "k \<le> unat (n - of_nat (data_total es))" "ms_owed m' = Some (n - of_nat (data_total es) - of_nat k)"
    using message_next_owed [OF IH(2) event(2)] by auto
  have "unat (of_nat (data_total es) :: u64) = data_total es"
    using IH(1) unat_lt64 [of n] by (intro unat_of_small) simp
  then have "unat (n - of_nat (data_total es)) = unat n - data_total es"
    using IH(1) by (subst unat_sub) (simp_all add: word_le_nat_alt)
  with IH(1) k show ?case by (simp add: data_total_def algebra_simps)
next
  case (more es m input m' rest)
  then show ?case using message_next_owed [OF _ more(2)] by fastforce
next
  case (owe es m s n')
  have "EHead s \<notin> set es" using message_reads_inv [OF owe(1) owe.prems(1)] owe.prems(2) ordered_no_head by fastforce
  then show ?case using owe(2,3) last_in_set by fastforce
next
  case (respond es m input s m' rest meth head m'')
  have "EHead s \<notin> set (es @ [EHead s])"
    using message_reads_inv [OF message_reads.event [OF respond(1,3)] respond.prems(1)] respond.prems(2) ordered_no_head by fastforce
  then show ?case by simp
qed (simp add: data_total_def)

subsection \<open>The reader as an automaton over bytes\<close>

lemma message_next_mass:
  "message_next m input = (Inr (Some e), m', rest) \<Longrightarrow> reader_mass (ms_frames m') rest < reader_mass (ms_frames m) input"
proof (induction m input rule: message_next.induct)
  case (1 m input)
  obtain q r rest1 where nx: "frame_next (ms_frames m) input = (q, r, rest1)" by (metis prod_cases3)
  obtain p where p: "q = Some p" using 1(2) nx by (cases q) (auto simp: message_next.simps [of m])
  obtain x m1 where mp: "message_piece (m\<lparr>ms_frames := r\<rparr>) p = (x, m1)" by (metis prod.exhaust)
  have keep: "ms_frames m1 = r" using message_piece_keeps [of "m\<lparr>ms_frames := r\<rparr>" p] mp by simp
  have less: "reader_mass r rest1 < reader_mass (ms_frames m) input" using nx p by (intro frame_next_mass) simp
  show ?case
  proof (cases "x = Inr None")
    case True
    then have "message_next m1 rest1 = (Inr (Some e), m', rest)" using 1(2) nx p mp by (simp add: message_next.simps [of m])
    from "1.IH" [OF nx [symmetric] p refl mp [symmetric], of None] True this keep less show ?thesis by simp
  next
    case False
    then show ?thesis using 1(2) nx p mp keep less by (auto simp: message_next.simps [of m] split: sum.splits option.splits)
  qed
qed

text \<open>
  The read loop of a stream: the head goes to \<open>on_head\<close>, which refuses it or gives the length it declares; the
  payloads are collected as the body; the events are the sections.
\<close>

fun deliver :: "(bytes \<Rightarrow> code + u64 option) \<Rightarrow> event \<Rightarrow> message \<times> bytes \<Rightarrow> (event, code, message \<times> bytes) outcome" where
  "deliver on_head (EHead s) (m, body) =
     ([EHead s], case on_head s of Inl e \<Rightarrow> Inl e | Inr owed \<Rightarrow> Inr (m\<lparr>ms_owed := owed\<rparr>, body))"
| "deliver on_head (EData d) (m, body) = ([], Inr (m, body @ d))"
| "deliver on_head (ETrailers s) (m, body) = ([ETrailers s], Inr (m, body))"

lemma seq_out_fundef [fundef_cong]:
  "r = r' \<Longrightarrow> (\<And>es a. r' = (es, Inr a) \<Longrightarrow> k a = l a) \<Longrightarrow> seq_out r k = seq_out r' l"
  by (auto intro: seq_out_cong)

lemma deliver_frames: "deliver on_head e (m, body) = (es, Inr (m', body')) \<Longrightarrow> ms_frames m' = ms_frames m"
  by (cases e) (auto split: sum.splits)

function message_feed ::
    "(bytes \<Rightarrow> code + u64 option) \<Rightarrow> message \<times> bytes \<Rightarrow> bytes \<Rightarrow> (event, code, message \<times> bytes) outcome" where
  "message_feed on_head (m, body) input = (case message_next m input of
       (Inl e, _, _) \<Rightarrow> ([], Inl e)
     | (Inr None, m', rest) \<Rightarrow> ([], Inr (m', body))
     | (Inr (Some e), m', rest) \<Rightarrow> seq_out (deliver on_head e (m', body)) (\<lambda>st. message_feed on_head st rest))"
  by pat_completeness auto
termination
  by (relation "measure (\<lambda>(on_head, (m, body), input). reader_mass (ms_frames m) input)")
    (auto dest!: message_next_mass [OF sym] dest: deliver_frames)

declare message_feed.simps [simp del]

text \<open>One piece at a time.\<close>

definition handle ::
    "(bytes \<Rightarrow> code + u64 option) \<Rightarrow> (code + event option) \<times> message \<Rightarrow> bytes \<Rightarrow> (event, code, message \<times> bytes) outcome" where
  "handle on_head r body = (case r of
       (Inl e, _) \<Rightarrow> ([], Inl e)
     | (Inr None, m) \<Rightarrow> ([], Inr (m, body))
     | (Inr (Some e), m) \<Rightarrow> deliver on_head e (m, body))"

lemma handle_simps [simp]:
  "handle on_head (Inl e, m) body = ([], Inl e)"
  "handle on_head (Inr None, m) body = ([], Inr (m, body))"
  "handle on_head (Inr (Some e'), m) body = deliver on_head e' (m, body)"
  by (simp_all add: handle_def)

lemma message_feed_piece:
  "message_feed on_head (m, body) input = (case frame_next (ms_frames m) input of
       (None, r, rest) \<Rightarrow> ([], Inr (m\<lparr>ms_frames := r\<rparr>, body))
     | (Some p, r, rest) \<Rightarrow>
         seq_out (handle on_head (message_piece (m\<lparr>ms_frames := r\<rparr>) p) body) (\<lambda>st. message_feed on_head st rest))"
proof -
  obtain q r rest where nx: "frame_next (ms_frames m) input = (q, r, rest)" by (metis prod_cases3)
  show ?thesis
  proof (cases q)
    case None
    then show ?thesis using nx by (simp add: message_feed.simps [of on_head m] message_next.simps [of m])
  next
    case (Some p)
    obtain x m1 where mp: "message_piece (m\<lparr>ms_frames := r\<rparr>) p = (x, m1)" by (metis prod.exhaust)
    show ?thesis
    proof (cases "x = Inr None")
      case True
      then show ?thesis using nx Some mp
        by (simp add: message_feed.simps [of on_head m] message_next.simps [of m] message_feed.simps [of on_head m1])
    next
      case False
      then show ?thesis using nx Some mp
        by (auto simp: message_feed.simps [of on_head m] message_next.simps [of m] split: sum.split option.split)
    qed
  qed
qed

text \<open>
  The automaton: a header's two varints, then its payload byte by byte. Only the length left of the frame reader is
  part of its state.
\<close>

definition set_left :: "u64 \<Rightarrow> message \<Rightarrow> message" where
  "set_left n m = m\<lparr>ms_frames := \<lparr>fr_header = pair_default, fr_remaining = n\<rparr>\<rparr>"

definition norm_frames :: "message \<Rightarrow> message" where
  "norm_frames m = set_left (fr_remaining (ms_frames m)) m"

definition between_frames :: "message \<times> bytes \<Rightarrow> bool" where
  "between_frames st \<longleftrightarrow> fr_remaining (ms_frames (fst st)) = 0"

definition frame_starts ::
    "(bytes \<Rightarrow> code + u64 option) \<Rightarrow> message \<times> bytes \<Rightarrow> u64 \<Rightarrow> u64 \<Rightarrow> (event, code, message \<times> bytes) outcome" where
  "frame_starts on_head st kind len = handle on_head (message_header (set_left len (fst st)) kind len) (snd st)"

definition frame_continues ::
    "(bytes \<Rightarrow> code + u64 option) \<Rightarrow> message \<times> bytes \<Rightarrow> u8 \<Rightarrow> (event, code, message \<times> bytes) outcome" where
  "frame_continues on_head st b =
     handle on_head (message_payload (set_left (fr_remaining (ms_frames (fst st)) - 1) (fst st)) [b]) (snd st)"

abbreviation message_step where
  "message_step on_head \<equiv> pair_step between_frames (frame_starts on_head) (frame_continues on_head)"

definition message_abs :: "message \<times> bytes \<Rightarrow> (message \<times> bytes) held" where
  "message_abs st = (pair_first (fr_header (ms_frames (fst st))), pend (pair_varint (fr_header (ms_frames (fst st)))),
     (norm_frames (fst st), snd st))"

lemma set_left_simps [simp]:
  "ms_frames (set_left n m) = \<lparr>fr_header = pair_default, fr_remaining = n\<rparr>" "ms_phase (set_left n m) = ms_phase m"
  "ms_kind (set_left n m) = ms_kind m" "ms_section (set_left n m) = ms_section m" "ms_owed (set_left n m) = ms_owed m"
  "ms_limit (set_left n m) = ms_limit m" "ms_capacity (set_left n m) = ms_capacity m" "ms_started (set_left n m) = ms_started m"
  "ms_response (set_left n m) = ms_response m"
  "set_left n (set_left k m) = set_left n m" "set_left n (norm_frames m) = set_left n m" "set_left n (m\<lparr>ms_frames := r\<rparr>) = set_left n m"
  "(set_left n m)\<lparr>ms_owed := x\<rparr> = set_left n (m\<lparr>ms_owed := x\<rparr>)"
  by (simp_all add: set_left_def norm_frames_def)

text \<open>What is done with a piece depends on the reader only through what is left.\<close>

lemma set_left_updates:
  "(set_left n m)\<lparr>ms_section := s, ms_capacity := c\<rparr> = set_left n (m\<lparr>ms_section := s, ms_capacity := c\<rparr>)"
  "(set_left n m)\<lparr>ms_section := s\<rparr> = set_left n (m\<lparr>ms_section := s\<rparr>)"
  "(set_left n m)\<lparr>ms_capacity := c\<rparr> = set_left n (m\<lparr>ms_capacity := c\<rparr>)"
  "(set_left n m)\<lparr>ms_phase := p\<rparr> = set_left n (m\<lparr>ms_phase := p\<rparr>)"
  "(set_left n m)\<lparr>ms_started := a, ms_kind := k\<rparr> = set_left n (m\<lparr>ms_started := a, ms_kind := k\<rparr>)"
  by (simp_all add: set_left_def)

lemma apsnd_if: "apsnd f (if c then x else y) = (if c then apsnd f x else apsnd f y)"
  by simp

lemma message_fields_left: "message_fields (set_left n m) s = apsnd (set_left n) (message_fields m s)"
  by (simp add: message_fields_def set_left_updates)

lemma emit_apsnd: "emit (apsnd f r) = apsnd f (emit r)"
  by (simp add: emit_def)

lemma message_header_left: "message_header (set_left n m) kind len = apsnd (set_left n) (message_header m kind len)"
  unfolding message_header_def Let_def set_left_updates message_fields_left emit_apsnd apsnd_if set_left_simps apsnd_conv
  by (rule refl | simp)+

lemma message_piece_norm:
  "message_piece (set_left (fr_remaining (ms_frames m)) m) p = apsnd norm_frames (message_piece m p)"
proof (cases p)
  case (Header kind len)
  then show ?thesis using message_piece_keeps [of m p]
    by (cases "message_header m kind len") (simp add: message_piece_def norm_frames_def message_header_left)
next
  case (Payload bs)
  let ?n = "fr_remaining (ms_frames m)"
  have data: "message_data (set_left ?n m) bs = apsnd (set_left ?n) (message_data m bs)"
    by (simp add: message_data_def split: option.split)
  have "message_section (set_left ?n m) bs = apsnd (set_left ?n) (message_section m bs)"
    by (simp add: message_section_def Let_def message_fields_left emit_apsnd set_left_updates)
  then have "message_payload (set_left ?n m) bs = apsnd (set_left ?n) (message_payload m bs)"
    by (simp add: message_payload_def data message_fields_left emit_apsnd)
  then show ?thesis using message_piece_keeps [of m p] Payload
    by (cases "message_payload m bs") (simp add: message_piece_def norm_frames_def)
qed

lemma handle_norm:
  "handle on_head (apsnd norm_frames r) body = map_out (\<lambda>(m, body). (norm_frames m, body)) (handle on_head r body)"
proof -
  have d: "deliver on_head e (norm_frames m, body) = map_out (\<lambda>(m, body). (norm_frames m, body)) (deliver on_head e (m, body))" for e m
    by (cases e) (auto simp: norm_frames_def split: sum.split)
  obtain x m where r: "r = (x, m)" by (cases r)
  show ?thesis
  proof (cases x)
    case (Inr y)
    then show ?thesis by (cases y) (simp_all add: r d)
  qed (simp add: r)
qed

text \<open>A payload is as good as its bytes one after another.\<close>

lemma payload_split:
  assumes left: "unat left = Suc (length cs) + unat left'" and cs: "cs \<noteq> []"
    and cap: "ms_section m = [] \<Longrightarrow> ms_capacity m = 0"
  shows "handle on_head (message_payload (set_left left' m) (b # cs)) body =
    seq_out (handle on_head (message_payload (set_left (left - 1) m) [b]) body)
      (\<lambda>(m', body'). handle on_head (message_payload (set_left left' m') cs) body')"
proof -
  have ne: "left \<noteq> 0" using left by auto
  then have u: "unat (left - 1) = length cs + unat left'" using left by (simp add: unat_minus_one)
  then have l1: "left - 1 \<noteq> 0" using cs by auto
  consider "ms_kind m = FRAME_DATA" | "ms_kind m = FRAME_HEADERS" | "ms_kind m \<noteq> FRAME_DATA" "ms_kind m \<noteq> FRAME_HEADERS" by blast
  then show ?thesis
  proof cases
    case 1
    show ?thesis
    proof (cases "ms_owed m")
      case None
      then show ?thesis using 1 by (simp add: message_payload_def message_data_def)
    next
      case (Some n)
      have "unat (n - 1) = unat n - 1" if "1 \<le> unat n" using that by (intro unat_minus_one) auto
      then show ?thesis using 1 Some by (auto simp: message_payload_def message_data_def set_left_def algebra_simps)
    qed
  next
    case 2
    then show ?thesis using u l1 cap cs
      by (cases m) (auto simp: message_payload_def message_section_def message_fields_def emit_def Let_def set_left_def
          frame_types unsigned_eq_0_iff)
  next
    case 3
    then show ?thesis by (simp add: message_payload_def set_left_def)
  qed
qed

text \<open>The capacity is that of a section only while one is gathered, which every step keeps.\<close>

definition section_idle :: "message \<Rightarrow> bool" where
  "section_idle m \<longleftrightarrow> (ms_section m = [] \<longrightarrow> ms_capacity m = 0)"

lemma handle_idle:
  assumes "section_idle m" and "handle on_head (message_payload m bs) body = (es, Inr (m', body'))" and "bs \<noteq> []"
  shows "section_idle m' \<and> ms_frames m' = ms_frames m"
  using assms
  by (auto simp: section_idle_def handle_def message_payload_def message_data_def message_section_def message_fields_def emit_def
      Let_def split: if_splits option.splits sum.splits)

lemma run_payload_bytes:
  assumes "bs \<noteq> []" and "unat (fr_remaining (ms_frames m)) = length bs + unat left'" and "section_idle m"
  shows "run_bytes (message_step on_head) (f, hs, (m, body)) bs =
    map_out (\<lambda>st. (f, hs, st)) (handle on_head (message_payload (set_left left' m) bs) body)"
  using assms
proof (induction bs arbitrary: m body)
  case (Cons b cs)
  let ?left = "fr_remaining (ms_frames m)"
  have ne: "?left \<noteq> 0" using Cons.prems(2) by auto
  then have u: "unat (?left - 1) = length cs + unat left'" using Cons.prems(2) by (simp add: unat_minus_one)
  have one: "pair_step between_frames (frame_starts on_head) (frame_continues on_head) (f, hs, (m, body)) b =
      map_out (\<lambda>st. (f, hs, st)) (handle on_head (message_payload (set_left (?left - 1) m) [b]) body)"
    using ne by (simp add: between_frames_def frame_continues_def)
  show ?case
  proof (cases "cs = []")
    case True
    then have "?left - 1 = left'" using u by (simp add: word_unat_eq_iff)
    then show ?thesis using True one by simp
  next
    case False
    have "run_bytes (message_step on_head) (f, hs, (m, body)) (b # cs) =
        seq_out (handle on_head (message_payload (set_left (?left - 1) m) [b]) body)
          (\<lambda>st. run_bytes (message_step on_head) (f, hs, st) cs)"
      by (simp add: one seq_out_map del: pair_step.simps)
    also have "\<dots> = seq_out (handle on_head (message_payload (set_left (?left - 1) m) [b]) body)
          (\<lambda>(m', body'). map_out (\<lambda>st. (f, hs, st)) (handle on_head (message_payload (set_left left' m') cs) body'))"
    proof (rule seq_out_cong)
      fix es st
      assume h: "handle on_head (message_payload (set_left (?left - 1) m) [b]) body = (es, Inr st)"
      obtain m' body' where st: "st = (m', body')" by (cases st)
      have "section_idle (set_left (?left - 1) m)" using Cons.prems(3) by (simp add: section_idle_def)
      from handle_idle [OF this h [unfolded st]] have "section_idle m'" "fr_remaining (ms_frames m') = ?left - 1" by simp_all
      with Cons.IH [of m' body'] False u show "run_bytes (message_step on_head) (f, hs, st) cs =
          (case st of (m', body') \<Rightarrow> map_out (\<lambda>st. (f, hs, st)) (handle on_head (message_payload (set_left left' m') cs) body'))"
        by (simp add: st)
    qed
    also have "\<dots> = map_out (\<lambda>st. (f, hs, st)) (handle on_head (message_payload (set_left left' m) (b # cs)) body)"
      using payload_split [of ?left cs left' m on_head b body] Cons.prems(2,3) False
      by (simp add: map_out_seq section_idle_def case_prod_unfold)
    finally show ?thesis .
  qed
qed simp

lemma handle_piece_norm:
  "handle on_head (message_piece (set_left (fr_remaining (ms_frames m)) m) p) body =
     map_out (\<lambda>(m, body). (norm_frames m, body)) (handle on_head (message_piece m p) body)"
  by (simp add: message_piece_norm handle_norm)

lemma handle_keeps:
  assumes "handle on_head (message_piece m p) body = (es, Inr (m', body'))"
  shows "ms_frames m' = ms_frames m"
    and "\<exists>res m1. message_piece m p = (Inr res, m1) \<and> (m' = m1 \<or> (\<exists>n. m' = m1\<lparr>ms_owed := n\<rparr>))"
proof -
  obtain x m1 where mp: "message_piece m p = (x, m1)" by (cases "message_piece m p")
  obtain res where x: "x = Inr res" using assms mp by (cases x) auto
  have "m' = m1 \<or> (\<exists>n. m' = m1\<lparr>ms_owed := n\<rparr>)"
  proof (cases res)
    case None
    then show ?thesis using assms mp x by simp
  next
    case (Some e)
    then have "deliver on_head e (m1, body) = (es, Inr (m', body'))" using assms mp x by simp
    then show ?thesis by (cases e) (auto split: sum.splits)
  qed
  then show "\<exists>res m1. message_piece m p = (Inr res, m1) \<and> (m' = m1 \<or> (\<exists>n. m' = m1\<lparr>ms_owed := n\<rparr>))"
    and "ms_frames m' = ms_frames m" using message_piece_keeps [of m p] mp x by auto
qed

lemma handle_abs:
  assumes "pair_first (fr_header (ms_frames m)) = f" and "pend (pair_varint (fr_header (ms_frames m))) = hs"
  shows "map_out (\<lambda>st. (f, hs, st)) (map_out (\<lambda>(m, body). (norm_frames m, body)) (handle on_head (message_piece m p) body)) =
    map_out message_abs (handle on_head (message_piece m p) body)"
proof -
  obtain es x where h: "handle on_head (message_piece m p) body = (es, x)" by (cases "handle on_head (message_piece m p) body")
  show ?thesis
  proof (cases x)
    case (Inr st)
    obtain m' body' where st: "st = (m', body')" by (cases st)
    have "ms_frames m' = ms_frames m" using handle_keeps(1) h Inr st by blast
    then show ?thesis using h Inr st assms by (simp add: message_abs_def)
  qed (simp add: h)
qed

lemma header_post:
  assumes "frame_wf (ms_frames m)" and "fr_remaining (ms_frames m) = 0"
  shows "pair_post (run_bytes (message_step on_head)) (frame_starts on_head) (message_abs (m, body)) input
      (pair_read (fr_header (ms_frames m)) input)"
proof -
  have "between_frames (norm_frames m, body)" using assms(2) by (simp add: between_frames_def norm_frames_def)
  from pair_read_post [where active = between_frames, OF _ this, of "fr_header (ms_frames m)"] assms(1) show ?thesis
    by (simp add: message_abs_def frame_wf_def)
qed

lemma message_piece_run:
  assumes inv: "message_inv m" and nx: "frame_next (ms_frames m) input = (Some p, r, rest)"
  shows "run_bytes (message_step on_head) (message_abs (m, body)) input =
    seq_out (map_out message_abs (handle on_head (message_piece (m\<lparr>ms_frames := r\<rparr>) p) body))
      (\<lambda>a. run_bytes (message_step on_head) a rest)"
proof (cases "fr_remaining (ms_frames m) = 0")
  case True
  have "pair_post (run_bytes (message_step on_head)) (frame_starts on_head) (message_abs (m, body)) input
      (pair_read (fr_header (ms_frames m)) input)"
    using inv True by (intro header_post) (simp_all add: message_inv_def)
  moreover obtain kind len where p: "p = Header kind len" and pr: "pair_read (fr_header (ms_frames m)) input = (Some (kind, len), fr_header r, rest)"
    and r: "fr_remaining r = len"
    using nx True by (auto simp: frame_next_def split: prod.splits option.splits)
  ultimately have h: "pair_first (fr_header r) = None" "pend (pair_varint (fr_header r)) = []"
    and run: "run_bytes (message_step on_head) (message_abs (m, body)) input =
      seq_out (map_out (\<lambda>st. (None, [], st)) (frame_starts on_head (norm_frames m, body) kind len)) (\<lambda>a. run_bytes (message_step on_head) a rest)"
    by (simp_all add: pair_post_def message_abs_def)
  have "frame_starts on_head (norm_frames m, body) kind len =
      map_out (\<lambda>(m, body). (norm_frames m, body)) (handle on_head (message_piece (m\<lparr>ms_frames := r\<rparr>) p) body)"
    using handle_piece_norm [of on_head "m\<lparr>ms_frames := r\<rparr>" p body] by (simp add: p r frame_starts_def message_piece_def)
  then show ?thesis using handle_abs [of "m\<lparr>ms_frames := r\<rparr>" None "[]" on_head p body] h run by simp
next
  case False
  obtain n where p: "p = Payload (take n input)" and r: "fr_header r = fr_header (ms_frames m)" and rest: "rest = drop n input"
    using False nx by (auto simp: frame_next_def Let_def split: if_splits)
  have pf: "piece_from (ms_frames m) p r" by (rule frame_next_piece(1) [OF _ nx]) (use inv in \<open>auto simp: message_inv_def\<close>)
  then have ne: "take n input \<noteq> []" and left: "unat (fr_remaining (ms_frames (norm_frames m))) = length (take n input) + unat (fr_remaining r)"
    unfolding p piece_from_def piece.case norm_frames_def set_left_simps frame_reader.simps by blast+
  have idle: "section_idle (norm_frames m)" using inv by (auto simp: message_inv_def section_idle_def norm_frames_def split: if_splits)
  have start: "message_abs (m, body) = (pair_first (fr_header r), pend (pair_varint (fr_header r)), (norm_frames m, body))"
    by (simp add: message_abs_def r)
  have run: "run_bytes (message_step on_head) (message_abs (m, body)) (take n input) =
      map_out (\<lambda>st. (pair_first (fr_header r), pend (pair_varint (fr_header r)), st))
        (handle on_head (message_piece (set_left (fr_remaining r) m) p) body)"
    unfolding start run_payload_bytes [OF ne left idle] by (simp add: message_piece_def p)
  have "run_bytes (message_step on_head) (message_abs (m, body)) (take n input @ rest) =
      seq_out (map_out message_abs (handle on_head (message_piece (m\<lparr>ms_frames := r\<rparr>) p) body)) (\<lambda>a. run_bytes (message_step on_head) a rest)"
    using handle_abs [of "m\<lparr>ms_frames := r\<rparr>" "pair_first (fr_header r)" "pend (pair_varint (fr_header r))" on_head p body]
      handle_piece_norm [of on_head "m\<lparr>ms_frames := r\<rparr>" p body] run
    by (simp add: run_bytes_append)
  then show ?thesis by (simp add: rest)
qed

lemma handle_inv:
  assumes inv: "message_inv m" and nx: "frame_next (ms_frames m) input = (Some p, r, rest)"
    and h: "handle on_head (message_piece (m\<lparr>ms_frames := r\<rparr>) p) body = (es, Inr (m', body'))"
  shows "message_inv m'"
proof -
  have wf: "frame_wf (ms_frames m)" using inv by (simp add: message_inv_def)
  obtain res m1 where m1: "message_piece (m\<lparr>ms_frames := r\<rparr>) p = (Inr res, m1)" "m' = m1 \<or> (\<exists>n. m' = m1\<lparr>ms_owed := n\<rparr>)"
    using handle_keeps(2) [OF h] by blast
  have "piece_from (ms_frames m) p r" "pair_is_empty (fr_header r)"
    by (rule frame_next_piece [OF wf nx]; use inv in \<open>auto simp: message_inv_def\<close>)+
  from message_piece_inv(1) [OF inv frame_next_post(1) [OF wf nx] this m1(1)] m1(2) show ?thesis by auto
qed

lemma message_feed_run:
  assumes "message_inv m"
  shows "map_out message_abs (message_feed on_head (m, body) input) = run_bytes (message_step on_head) (message_abs (m, body)) input \<and>
    (\<forall>es m' body'. message_feed on_head (m, body) input = (es, Inr (m', body')) \<longrightarrow> message_inv m')"
  using assms
proof (induction "reader_mass (ms_frames m) input" arbitrary: m body input rule: less_induct)
  case less
  obtain q r rest where nx: "frame_next (ms_frames m) input = (q, r, rest)" by (metis prod_cases3)
  have wf: "frame_wf (ms_frames m)" using less(2) by (simp add: message_inv_def)
  show ?case
  proof (cases q)
    case None
    have same: "message_next m input = (Inr None, m\<lparr>ms_frames := r\<rparr>, rest)" using nx None by (simp add: message_next.simps [of m])
    have feed: "message_feed on_head (m, body) input = ([], Inr (m\<lparr>ms_frames := r\<rparr>, body))"
      using same by (simp add: message_feed.simps [of on_head m])
    have "run_bytes (message_step on_head) (message_abs (m, body)) input = ([], Inr (message_abs (m\<lparr>ms_frames := r\<rparr>, body)))"
    proof (cases "fr_remaining (ms_frames m) = 0")
      case True
      from header_post [OF wf True, of on_head body input] nx None True show ?thesis
        by (auto simp: frame_next_def pair_post_def message_abs_def norm_frames_def split: prod.splits option.splits)
    next
      case False
      then show ?thesis using nx None by (auto simp: frame_next_def Let_def message_abs_def norm_frames_def split: if_splits)
    qed
    then show ?thesis using feed message_next_inv [OF less(2) same] by simp
  next
    case (Some p)
    let ?h = "handle on_head (message_piece (m\<lparr>ms_frames := r\<rparr>) p) body"
    have feed: "message_feed on_head (m, body) input = seq_out ?h (\<lambda>st. message_feed on_head st rest)"
      using message_feed_piece [of on_head m body input] nx Some by simp
    note run = message_piece_run [OF less(2) nx [unfolded Some], of on_head body]
    have IH: "map_out message_abs (message_feed on_head st rest) = run_bytes (message_step on_head) (message_abs st) rest \<and>
        (\<forall>es m' body'. message_feed on_head st rest = (es, Inr (m', body')) \<longrightarrow> message_inv m')" if "?h = (es, Inr st)" for es st
    proof -
      obtain m' body' where st: "st = (m', body')" by (cases st)
      have "message_inv m'" using handle_inv [OF less(2) nx [unfolded Some]] that st by blast
      moreover have "ms_frames m' = r" using handle_keeps(1) that st by fastforce
      ultimately show ?thesis using less(1) [of m' rest body'] frame_next_mass [OF nx [unfolded Some]] by (simp add: st)
    qed
    have "map_out message_abs (message_feed on_head (m, body) input) =
        seq_out ?h (\<lambda>st. map_out message_abs (message_feed on_head st rest))" by (simp add: feed map_out_seq)
    also have "\<dots> = seq_out ?h (\<lambda>st. run_bytes (message_step on_head) (message_abs st) rest)"
      by (rule seq_out_cong) (use IH in blast)
    finally have 1: "map_out message_abs (message_feed on_head (m, body) input) =
        run_bytes (message_step on_head) (message_abs (m, body)) input" using run by (simp add: seq_out_map)
    have "message_inv m'" if "message_feed on_head (m, body) input = (es, Inr (m', body'))" for es m' body'
    proof -
      have seq: "seq_out ?h (\<lambda>st. message_feed on_head st rest) = (es, Inr (m', body'))" using that feed by simp
      then obtain fs st where h: "?h = (fs, Inr st)" by (auto simp: seq_out_def split: prod.splits sum.splits)
      then obtain gs where "message_feed on_head st rest = (gs, Inr (m', body'))"
        using seq by (auto simp: seq_out_def split: prod.splits)
      then show ?thesis using IH [OF h] by blast
    qed
    with 1 show ?thesis by blast
  qed
qed

interpretation messages: byte_reader "message_step on_head" "message_feed on_head" message_abs "\<lambda>st. message_inv (fst st)"
  for on_head
proof
  fix st :: "message \<times> bytes" and bs
  assume "message_inv (fst st)"
  then show "map_out message_abs (message_feed on_head st bs) = run_bytes (message_step on_head) (message_abs st) bs"
    using message_feed_run [of "fst st" on_head "snd st" bs] by simp
next
  fix st :: "message \<times> bytes" and bs es st'
  assume "message_inv (fst st)" "message_feed on_head st bs = (es, Inr st')"
  then show "message_inv (fst st')" using message_feed_run [of "fst st" on_head "snd st" bs] by (cases st') simp
qed

subsection \<open>Written messages\<close>

lemma run_frame_start:
  assumes "fr_remaining (ms_frames m) = 0" and "kind \<le> varint_MAX" and "length p < 2 ^ 62"
  shows "run_bytes (message_step on_head) (None, [], (m, body)) (frame_bytes (kind, p) @ rest) =
    seq_out (handle on_head (message_header (set_left (of_nat (length p)) m) kind (of_nat (length p))) body)
      (\<lambda>st. run_bytes (message_step on_head) (None, [], st) (p @ rest))"
proof -
  have act: "between_frames (m, body)" using assms(1) by (simp add: between_frames_def)
  note put = run_put_varint [where active = between_frames, OF act]
  have "(of_nat (length p) :: u64) \<le> varint_MAX" using of_nat_fits [OF assms(3)] by simp
  then show ?thesis
    by (simp add: frame_bytes_def put_header_append put assms(2) pair_done_def frame_starts_def seq_out_map)
qed

lemma set_left_self: "m = set_left n m \<longleftrightarrow> ms_frames m = \<lparr>fr_header = pair_default, fr_remaining = n\<rparr>"
  by (cases m) (auto simp: set_left_def)

lemma run_payload_whole:
  assumes "p \<noteq> []" and "unat (fr_remaining (ms_frames m)) = length p" and "section_idle m"
  shows "run_bytes (message_step on_head) (None, [], (m, body)) (p @ rest) =
    seq_out (handle on_head (message_payload (set_left 0 m) p) body) (\<lambda>st. run_bytes (message_step on_head) (None, [], st) rest)"
  using run_payload_bytes [of p m 0 on_head None "[]" body] assms by (simp add: run_bytes_append seq_out_map)

lemma run_head:
  assumes m: "m = set_left 0 m" "ms_phase m = PhHead" "ms_section m = []" "ms_capacity m = 0"
    and s: "length s \<le> unat (ms_limit m)" "length s < 2 ^ 62"
  shows "run_bytes (message_step on_head) (None, [], (m, body)) (frame_bytes (FRAME_HEADERS, s) @ rest) =
    seq_out (deliver on_head (EHead s) (m\<lparr>ms_started := True, ms_kind := FRAME_HEADERS, ms_phase := PhBody\<rparr>, body))
      (\<lambda>st. run_bytes (message_step on_head) (None, [], st) rest)"
proof -
  let ?n = "of_nat (length s) :: u64" and ?m = "m\<lparr>ms_started := True, ms_kind := FRAME_HEADERS\<rparr>"
  have n: "unat ?n = length s" using of_nat_fits [OF s(2)] by simp
  have kind: "FRAME_HEADERS \<le> varint_MAX" "FRAME_HEADERS \<noteq> FRAME_DATA" by (simp_all add: frame_types varint_MAX_def)
  have left: "fr_remaining (ms_frames m) = 0" using m(1) by (metis set_left_simps(1) frame_reader.select_convs(2))
  have le: "\<not> ?n > ms_limit m" using s n by (simp add: word_le_nat_alt not_less)
  note start = run_frame_start [OF left kind(1) s(2), of on_head body rest]
  have zero: "set_left 0 ?m = ?m" using m(1) by (metis set_left_updates(5))
  show ?thesis
  proof (cases "s = []")
    case True
    then show ?thesis using start m(2) zero
      by (simp add: message_header_def Let_def emit_def message_fields_def set_left_updates)
  next
    case False
    then have "?n \<noteq> 0" using n by auto
    then have h: "message_header (set_left ?n m) FRAME_HEADERS ?n = (Inr None, set_left ?n ?m)"
      using m(2) le by (simp add: message_header_def Let_def set_left_updates)
    have "run_bytes (message_step on_head) (None, [], (set_left ?n ?m, body)) (s @ rest) =
        seq_out (handle on_head (message_payload ?m s) body) (\<lambda>st. run_bytes (message_step on_head) (None, [], st) rest)"
      using run_payload_whole [of s "set_left ?n ?m" on_head body rest] False n m(3,4) zero by (simp add: section_idle_def)
    also have "message_payload ?m s = (Inr (Some (EHead s)), ?m\<lparr>ms_phase := PhBody\<rparr>)"
      using kind(2) m(2,3) left by (simp add: message_payload_def emit_def message_fields_def)
    finally show ?thesis using start h by simp
  qed
qed

lemma run_data:
  assumes m: "m = set_left 0 m" "ms_phase m = PhBody" "ms_section m = []" "ms_capacity m = 0"
    and owed: "ms_owed m = None \<or> (\<exists>n. ms_owed m = Some n \<and> length d \<le> unat n)" and d: "length d < 2 ^ 62"
  shows "run_bytes (message_step on_head) (None, [], (m, body)) (frame_bytes (FRAME_DATA, d) @ rest) =
    run_bytes (message_step on_head)
      (None, [], (m\<lparr>ms_started := True, ms_kind := FRAME_DATA, ms_owed := map_option (\<lambda>n. n - of_nat (length d)) (ms_owed m)\<rparr>, body @ d)) rest"
proof -
  let ?n = "of_nat (length d) :: u64" and ?m = "m\<lparr>ms_started := True, ms_kind := FRAME_DATA\<rparr>"
  have n: "unat ?n = length d" using of_nat_fits [OF d] by simp
  have kind: "FRAME_DATA \<le> varint_MAX" "FRAME_DATA \<noteq> FRAME_HEADERS" by (simp_all add: frame_types varint_MAX_def)
  have left: "fr_remaining (ms_frames m) = 0" using m(1) by (metis set_left_simps(1) frame_reader.select_convs(2))
  have zero: "set_left 0 ?m = ?m" using m(1) by (metis set_left_updates(5))
  have h: "message_header (set_left ?n m) FRAME_DATA ?n = (Inr None, set_left ?n ?m)"
    using m(2) kind(2) by (simp add: message_header_def Let_def set_left_updates)
  note start = run_frame_start [OF left kind(1) d, of on_head body rest]
  show ?thesis
  proof (cases "d = []")
    case True
    then have "set_left ?n ?m = ?m\<lparr>ms_owed := map_option (\<lambda>n. n - of_nat (length d)) (ms_owed m)\<rparr>"
      using zero by (simp add: option.map_ident)
    with True start h show ?thesis by simp
  next
    case False
    have "run_bytes (message_step on_head) (None, [], (set_left ?n ?m, body)) (d @ rest) =
        seq_out (handle on_head (message_payload ?m d) body) (\<lambda>st. run_bytes (message_step on_head) (None, [], st) rest)"
      using run_payload_whole [of d "set_left ?n ?m" on_head body rest] False n m(3,4) zero by (simp add: section_idle_def)
    also have "message_payload ?m d = (Inr (Some (EData d)), ?m\<lparr>ms_owed := map_option (\<lambda>n. n - of_nat (length d)) (ms_owed m)\<rparr>)"
      using owed by (auto simp: message_payload_def message_data_def)
    finally show ?thesis using start h by simp
  qed
qed

lemma run_body:
  assumes "m = set_left 0 m" "ms_phase m = PhBody" "ms_section m = []" "ms_capacity m = 0"
    and "ms_owed m = None \<or> (\<exists>n. ms_owed m = Some n \<and> sum_list (map length ds) = unat n)" and "\<forall>d \<in> set ds. length d < 2 ^ 62"
  shows "\<exists>m'. run_bytes (message_step on_head) (None, [], (m, body)) (concat (map (\<lambda>d. frame_bytes (FRAME_DATA, d)) ds)) =
      ([], Inr (None, [], (m', body @ concat ds))) \<and> ms_phase m' = PhBody \<and> fr_remaining (ms_frames m') = 0 \<and> (ms_owed m' = None \<or> ms_owed m' = Some 0)"
  using assms
proof (induction ds arbitrary: m body)
  case Nil
  then have "fr_remaining (ms_frames m) = 0" by (metis set_left_simps(1) frame_reader.select_convs(2))
  with Nil show ?case by (auto simp: unsigned_eq_0_iff)
next
  case (Cons d ds)
  let ?m = "m\<lparr>ms_started := True, ms_kind := FRAME_DATA, ms_owed := map_option (\<lambda>n. n - of_nat (length d)) (ms_owed m)\<rparr>"
  have len: "length d < 2 ^ 62" using Cons.prems(6) by simp
  have "ms_owed m = None \<or> (\<exists>n. ms_owed m = Some n \<and> length d \<le> unat n)" using Cons.prems(5) by auto
  note step = run_data [OF Cons.prems(1-4) this len]
  have left: "?m = set_left 0 ?m" using Cons.prems(1) unfolding set_left_self by simp
  have "ms_owed ?m = None \<or> (\<exists>n. ms_owed ?m = Some n \<and> sum_list (map length ds) = unat n)"
  proof (cases "ms_owed m")
    case (Some n)
    have "unat (n - of_nat (length d)) = unat n - length d"
      using Some Cons.prems(5) of_nat_fits [OF len] by (subst unat_sub) (auto simp: word_le_nat_alt)
    then show ?thesis using Some Cons.prems(5) by simp
  qed simp
  then show ?case using Cons.IH [of ?m "body @ d"] left Cons.prems step by simp
qed

subsection \<open>Properties\<close>

text \<open>
  C5. Whatever arrives, in whatever chunks, the events of a request stream are a head, then payloads, then at most one set
  of trailers. On a response stream the same follows any number of interim heads, each a head of an informational
  status after which \<open>response\<close> restarted the message. Field sections and the buffer for them stay within the limit,
  \<open>has_head\<close> says whether the final head was reported, and no stream without one finishes.
\<close>

theorem message_events_ordered:
  assumes "message_reads lib (message_new limit peer) es m"
  shows "\<exists>interim es'. es = map EHead interim @ es' \<and> (peer = Client \<longrightarrow> interim = []) \<and>
    (\<forall>s \<in> set interim. \<exists>head. decode_response lib s (unat limit) = Some (Inr head) \<and> is_informational (rp_status head)) \<and>
    (es' = [] \<or> (\<exists>h ds. es' = EHead h # map EData ds) \<or> (\<exists>h ds t. es' = EHead h # map EData ds @ [ETrailers t])) \<and>
    (has_head m \<longleftrightarrow> es' \<noteq> []) \<and> message_buffered m \<le> unat limit \<and>
    (\<forall>e \<in> set es. length (event_section e) \<le> unat limit) \<and> (message_finish m = Inr () \<longrightarrow> es' \<noteq> [])"
proof -
  have new: "ms_limit (message_new limit peer) = limit" "ms_phase (message_new limit peer) = PhHead"
      "ms_response (message_new limit peer) \<longleftrightarrow> peer = Server"
    by (simp_all add: message_new_def)
  note inv = message_reads_inv [OF assms message_inv_new, unfolded new]
  then have buf: "message_buffered m \<le> unat limit" by (auto simp: message_buffered_def message_inv_def split: if_splits)
  obtain interim es' where es: "es = map EHead interim @ es'" "ordered PhHead es' (ms_phase m)"
    "\<forall>s \<in> set interim. peer = Server \<and> interim_head lib limit s" using inv by auto
  have "peer = Client \<longrightarrow> interim = []" using es(3) by (cases interim) auto
  moreover have "es' = [] \<or> (\<exists>h ds. es' = EHead h # map EData ds) \<or> (\<exists>h ds t. es' = EHead h # map EData ds @ [ETrailers t])"
    and "has_head m \<longleftrightarrow> es' \<noteq> []" "message_finish m = Inr () \<longrightarrow> es' \<noteq> []"
    using es(2) unfolding ordered_from_head by (auto simp: has_head_def message_finish_def)
  ultimately show ?thesis using es inv buf by (intro exI [of _ interim] exI [of _ es']) (simp add: interim_head_def)
qed

lemma sample_head:
  obtains m where "message_reads lib (message_new 64 Client) [EHead [1]] m" "has_head m"
proof -
  obtain x m rest where nx: "message_next (message_new 64 Client) [0x01, 0x01, 0x01] = (x, m, rest)" by (metis prod_cases3)
  have "fst (message_next (message_new 64 Client) [0x01, 0x01, 0x01]) = Inr (Some (EHead [1]))" by code_simp
  then have x: "x = Inr (Some (EHead [1]))" by (simp only: nx fst_conv)
  have "has_head (fst (snd (message_next (message_new 64 Client) [0x01, 0x01, 0x01])))" by code_simp
  then have "has_head m" by (simp only: nx fst_conv snd_conv)
  then show thesis using that message_reads.event [OF message_reads.start nx [unfolded x], of lib] by simp
qed

text \<open>A response whose interim head, of status 103, is followed by the final one, of status 200.\<close>

lemma sample_response:
  obtains m where "message_reads plain_lib (message_new 64 Server) [EHead [0, 0, 0xd8], EHead [0, 0, 0xd9]] m"
proof -
  let ?run = "\<lambda>s. message_next (message_new 64 Server) ([0x01, 0x03, 0, 0] @ s)"
  obtain m1 rest1 where 1: "?run [0xd8] = (Inr (Some (EHead [0, 0, 0xd8])), m1, rest1)"
  proof -
    have "fst (?run [0xd8]) = Inr (Some (EHead [0, 0, 0xd8]))" by code_simp
    then show thesis using that by (metis prod.collapse)
  qed
  obtain m2 rest2 where 2: "?run [0xd9] = (Inr (Some (EHead [0, 0, 0xd9])), m2, rest2)"
  proof -
    have "fst (?run [0xd9]) = Inr (Some (EHead [0, 0, 0xd9]))" by code_simp
    then show thesis using that by (metis prod.collapse)
  qed
  have limit: "ms_limit m1 = 64" "ms_limit m2 = 64"
    using message_next_inv [OF message_inv_new 1] message_next_inv [OF message_inv_new 2] by (simp_all add: message_new_def)
  have "case decode_response plain_lib [0, 0, 0xd8] 64 of Some (Inr head) \<Rightarrow> rp_status head = 103 | _ \<Rightarrow> False" by code_simp
  then have 3: "message_response plain_lib m1 [0, 0, 0xd8] [] = Some (Inr None, message_new 64 Server)"
    using limit by (auto simp: message_response_def is_informational_def split: option.splits sum.splits)
  have resp: "ms_response (message_new 64 Server)" by (simp add: message_new_def)
  note r1 = message_reads.respond [OF message_reads.start resp 1 3]
  from message_reads.event [OF r1 2] that show thesis by simp
qed

theorem message_events_ordered_witness:
  "(\<exists>m. message_reads plain_lib (message_new 64 Client) [EHead [1]] m \<and> has_head m \<and> message_buffered m \<le> 64) \<and>
   (\<exists>m. message_reads plain_lib (message_new 64 Server) [EHead [0, 0, 0xd8], EHead [0, 0, 0xd9]] m \<and> message_buffered m \<le> 64)"
proof
  obtain m where r: "message_reads plain_lib (message_new 64 Client) [EHead [1]] m" by (rule sample_head)
  with message_events_ordered [OF r] show "\<exists>m. message_reads plain_lib (message_new 64 Client) [EHead [1]] m \<and> has_head m \<and> message_buffered m \<le> 64"
    by auto
  obtain n where s: "message_reads plain_lib (message_new 64 Server) [EHead [0, 0, 0xd8], EHead [0, 0, 0xd9]] n" by (rule sample_response)
  with message_events_ordered [OF s]
  show "\<exists>m. message_reads plain_lib (message_new 64 Server) [EHead [0, 0, 0xd8], EHead [0, 0, 0xd9]] m \<and> message_buffered m \<le> 64" by auto
qed

text \<open>
  The declared length is kept: once the caller has set what the body owes, the payloads never exceed it, what is still
  owed is exactly the difference, and the stream finishes only when the body is complete.
\<close>

theorem message_body_length:
  assumes "message_reads lib (message_new limit peer) [EHead s] m\<^sub>0" and "has_head m\<^sub>0" and "message_reads lib (m\<^sub>0\<lparr>ms_owed := Some n\<rparr>) es m"
  shows "data_total es \<le> unat n \<and> ms_owed m = Some (n - of_nat (data_total es)) \<and>
    (message_finish m = Inr () \<longrightarrow> data_total es = unat n)"
proof -
  have "message_inv m\<^sub>0" "ms_phase m\<^sub>0 \<noteq> PhHead"
    using message_reads_inv [OF assms(1) message_inv_new] assms(2) by (auto simp: message_new_def has_head_def)
  then have r: "data_total es \<le> unat n" "ms_owed m = Some (n - of_nat (data_total es))"
    using message_reads_owed [OF assms(3), of n] by simp_all
  have "data_total es = unat n" if "message_finish m = Inr ()"
  proof -
    have "n - of_nat (data_total es) = 0" using that r(2) by (auto simp: message_finish_def word_neq_0_conv [symmetric] split: if_splits)
    then show ?thesis using r(1) unat_lt64 [of n] by (simp add: unat_of_small)
  qed
  with r show ?thesis by blast
qed

theorem message_body_length_witness:
  "\<exists>m. message_reads plain_lib (message_new 64 Client) [EHead [1]] m \<and> message_finish (m\<lparr>ms_owed := Some 5\<rparr>) \<noteq> Inr ()"
proof -
  obtain m where r: "message_reads plain_lib (message_new 64 Client) [EHead [1]] m" "has_head m" by (rule sample_head)
  from message_body_length [OF r message_reads.start, of 5] r show ?thesis by (auto simp: data_total_def)
qed

text \<open>
  C11. How a stream was cut into chunks does not matter: the sections, the body, the error or how the stream would finish
  are the same for any two ways of cutting the same bytes.
\<close>

theorem message_chunks_irrelevant:
  assumes "concat chunks = concat chunks'"
  shows "case feed_chunks (message_feed on_head) (message_new limit peer, []) chunks of
      (es, Inl e) \<Rightarrow> feed_chunks (message_feed on_head) (message_new limit peer, []) chunks' = (es, Inl e)
    | (es, Inr (m, body)) \<Rightarrow> \<exists>m'. feed_chunks (message_feed on_head) (message_new limit peer, []) chunks' = (es, Inr (m', body)) \<and>
        message_finish m' = message_finish m \<and> has_head m' = has_head m \<and> message_buffered m' = message_buffered m \<and>
        ms_owed m' = ms_owed m"
proof -
  let ?feed = "feed_chunks (message_feed on_head) (message_new limit peer, [])"
  have eq: "map_out message_abs (?feed chunks) = map_out message_abs (?feed chunks')"
    by (rule messages.split_irrelevant [OF _ assms]) (simp add: message_inv_new)
  have inv: "message_inv m" if "?feed cs = (es, Inr (m, body))" for cs es m body
    using messages.feed_chunks_inv [OF _ that] by (simp add: message_inv_new)
  have fin: "message_finish m' = message_finish m \<and> has_head m' = has_head m \<and> message_buffered m' = message_buffered m \<and>
      ms_owed m' = ms_owed m \<and> body' = body"
    if "message_abs (m, body) = message_abs (m', body')" "message_inv m" "message_inv m'" for m m' body body'
  proof -
    have fr: "frame_abs (ms_frames m) = frame_abs (ms_frames m')" and norm: "norm_frames m = norm_frames m'" and b: "body' = body"
      using that(1) by (auto simp: message_abs_def frame_abs_def norm_frames_def dest: arg_cong [of _ _ "\<lambda>m. fr_remaining (ms_frames m)"])
    have "ms_phase m = ms_phase m'" "ms_owed m = ms_owed m'" "ms_capacity m = ms_capacity m'"
      using arg_cong [OF norm, of ms_phase] arg_cong [OF norm, of ms_owed] arg_cong [OF norm, of ms_capacity]
      by (simp_all add: norm_frames_def)
    then show ?thesis using fr b that(2,3)
      by (simp add: message_finish_def has_head_def message_buffered_def message_inv_def frame_at_boundary_abs)
  qed
  show ?thesis
  proof (cases "?feed chunks")
    case (Pair es r)
    show ?thesis
    proof (cases r)
      case (Inl e)
      then show ?thesis using eq Pair by (auto simp: map_out_def split: prod.splits sum.splits)
    next
      case (Inr st)
      obtain m body where st: "st = (m, body)" by (cases st)
      obtain m' body' where f: "?feed chunks' = (es, Inr (m', body'))" and abs: "message_abs (m, body) = message_abs (m', body')"
        using eq Pair Inr st by (auto simp: map_out_def split: prod.splits sum.splits)
      from fin [OF abs] inv [of chunks es m body] inv [OF f] Pair Inr st
      show ?thesis by (simp add: f)
    qed
  qed
qed

theorem message_chunks_irrelevant_witness:
  "feed_chunks (message_feed (\<lambda>_. Inr None)) (message_new 64 Client, []) [[0x00], [0x02, 5, 6]] = ([], Inl H3_FRAME_UNEXPECTED)"
proof -
  have "feed_chunks (message_feed (\<lambda>_. Inr None)) (message_new 64 Client, []) [[0x00, 0x02], [5, 6]] = ([], Inl H3_FRAME_UNEXPECTED)"
    by code_simp
  then show ?thesis
    using message_chunks_irrelevant [of "[[0x00, 0x02], [5, 6]]" "[[0x00], [0x02, 5, 6]]" "\<lambda>_. Inr None" 64 Client] by simp
qed

text \<open>
  C17. A written message is read back from any chunks: its head's section, then exactly its body, and the stream finishes
  when the length the head declares, if it does, is the body's.
\<close>

theorem message_read_back:
  assumes "length s \<le> unat limit" and "length s < 2 ^ 62" and "\<forall>d \<in> set ds. length d < 2 ^ 62"
    and "on_head s = Inr owed" and "owed = None \<or> (\<exists>n. owed = Some n \<and> sum_list (map length ds) = unat n)"
    and "concat chunks = frame_bytes (FRAME_HEADERS, s) @ concat (map (\<lambda>d. frame_bytes (FRAME_DATA, d)) ds)"
  shows "\<exists>m. feed_chunks (message_feed on_head) (message_new limit peer, []) chunks = ([EHead s], Inr (m, concat ds)) \<and>
    message_finish m = Inr ()"
proof -
  let ?m = "message_new limit peer" and ?feed = "feed_chunks (message_feed on_head) (message_new limit peer, []) chunks"
  have m: "?m = set_left 0 ?m" "ms_phase ?m = PhHead" "ms_section ?m = []" "ms_capacity ?m = 0" "ms_limit ?m = limit"
    by (simp_all add: set_left_def message_new_def frame_reader_default_def)
  let ?m1 = "?m\<lparr>ms_started := True, ms_kind := FRAME_HEADERS, ms_phase := PhBody, ms_owed := owed\<rparr>"
  have abs: "message_abs (?m, []) = (None, [], (?m, []))"
    using m(1) by (simp add: message_abs_def norm_frames_def message_new_def frame_reader_default_def pair_default_def set_left_def)
  have m1: "?m1 = set_left 0 ?m1" unfolding set_left_self by (simp add: message_new_def frame_reader_default_def)
  obtain m2 where body: "run_bytes (message_step on_head) (None, [], (?m1, [])) (concat (map (\<lambda>d. frame_bytes (FRAME_DATA, d)) ds)) =
      ([], Inr (None, [], (m2, concat ds)))" and m2: "ms_phase m2 = PhBody" "fr_remaining (ms_frames m2) = 0" "ms_owed m2 = None \<or> ms_owed m2 = Some 0"
    using run_body [OF m1, of ds on_head "[]"] assms(3,5) m by (auto simp: message_new_def)
  have "run_bytes (message_step on_head) (message_abs (?m, [])) (concat chunks) = ([EHead s], Inr (None, [], (m2, concat ds)))"
    using run_head [OF m(1-4), of s on_head "[]"] assms(1,2,4,6) m(5) abs body by (simp add: seq_out_def)
  then have "map_out message_abs ?feed = ([EHead s], Inr (None, [], (m2, concat ds)))"
    by (subst messages.chunked) (simp_all add: message_inv_new)
  then obtain m' body' where f: "?feed = ([EHead s], Inr (m', body'))" and a: "message_abs (m', body') = (None, [], (m2, concat ds))"
    by (auto simp: map_out_def split: prod.splits sum.splits)
  have "message_inv m'" using messages.feed_chunks_inv [OF _ f] by (simp add: message_inv_new)
  moreover have "norm_frames m' = m2" "body' = concat ds" "pair_first (fr_header (ms_frames m')) = None" "pend (pair_varint (fr_header (ms_frames m'))) = []"
    using a by (simp_all add: message_abs_def)
  moreover from this have "ms_phase m' = PhBody" "ms_owed m' = ms_owed m2" "fr_remaining (ms_frames m') = 0" using m2 by (auto simp: norm_frames_def)
  ultimately have "message_finish m' = Inr ()" using m2(3)
    by (auto simp: message_finish_def message_inv_def frame_at_boundary_def pair_is_empty_def frame_wf_def partial_is_empty_pend)
  with f \<open>body' = concat ds\<close> show ?thesis by blast
qed

theorem message_read_back_witness:
  "\<exists>m. feed_chunks (message_feed (\<lambda>_. Inr (Some 3))) (message_new 64 Client, []) [[0x01, 0x01, 7, 0x00], [0x02, 1], [2, 0x00, 0x01, 3]] =
     ([EHead [7]], Inr (m, [1, 2, 3])) \<and> message_finish m = Inr ()"
proof -
  have "frame_bytes (FRAME_HEADERS, [7]) @ concat (map (\<lambda>d. frame_bytes (FRAME_DATA, d)) [[1, 2], [3]]) =
      [0x01, 0x01, 7, 0x00, 0x02, 1, 2, 0x00, 0x01, 3]" by code_simp
  then show ?thesis
    using message_read_back [of "[7]" 64 "[[1, 2], [3]]" "\<lambda>_. Inr (Some 3)" "Some 3" "[[0x01, 0x01, 7, 0x00], [0x02, 1], [2, 0x00, 0x01, 3]]" Client]
    by simp
qed

end
