(* ===== verification/Capsule.thy ===== *)
theory Capsule
  imports Message
begin

text \<open>
  HTTP datagrams and capsules, \<^verbatim>\<open>rust/http3/src/capsule.rs\<close>, with the session identifiers of \<^verbatim>\<open>webtransport.rs\<close>. The reader of a
  CONNECT stream's capsules is an automaton over its bytes, as the frame reader below it is; a reason is the bytes of a
  Rust string, so well-formed UTF-8.
\<close>

subsection \<open>The model\<close>

definition CLOSE :: u64 where "CLOSE = 0x2843"
definition HTTP2_ONLY :: "u64 list" where "HTTP2_ONLY = [0x190b4d3e, 0x190b4d42]"
definition MAX_REASON :: nat where "MAX_REASON = 1024"

text \<open>\<open>SessionId\<close> is its number.\<close>

definition session_from_quarter :: "u64 \<Rightarrow> u64 option" where
  "session_from_quarter quarter = (if unat quarter * 4 < 2 ^ 64 then session_id_new (quarter * 4) else None)"

definition session_quarter :: "u64 \<Rightarrow> u64" where
  "session_quarter ident = ident div 4"

record session_close =
  sc_code :: u32
  sc_reason :: bytes

record capsule_reader =
  cr_frames :: frame_reader
  cr_kind :: u64
  cr_close :: bytes

definition capsule_reader_default :: capsule_reader where
  "capsule_reader_default = \<lparr>cr_frames = frame_reader_default, cr_kind = 0, cr_close = []\<rparr>"

text \<open>\<open>u32::from_be_bytes\<close> and \<open>to_be_bytes\<close> of four bytes.\<close>

definition be32 :: "bytes \<Rightarrow> u32" where
  "be32 bs = foldl (\<lambda>v b. push_bit 8 v OR ucast b) 0 bs"

definition put_u32 :: "u32 \<Rightarrow> bytes" where
  "put_u32 v = map (\<lambda>i. ucast (drop_bit (8 * i) v)) [3, 2, 1, 0]"

definition capsule_refused :: "u64 \<Rightarrow> u64 \<Rightarrow> bool" where
  "capsule_refused kind len \<longleftrightarrow>
     kind \<in> set HTTP2_ONLY \<or> kind = CLOSE \<and> \<not> (4 \<le> unat len \<and> unat len \<le> 4 + MAX_REASON)"

definition capsule_close :: "bytes \<Rightarrow> code + session_close" where
  "capsule_close close =
     (if length close < 4 then Inl H3_MESSAGE_ERROR
      else if \<not> from_utf8 (drop 4 close) then Inl H3_MESSAGE_ERROR
      else Inr \<lparr>sc_code = be32 (take 4 close), sc_reason = drop 4 close\<rparr>)"

definition capsule_piece :: "capsule_reader \<Rightarrow> piece \<Rightarrow> (code + session_close option) \<times> capsule_reader" where
  "capsule_piece r p = (case p of
       Header kind len \<Rightarrow> if capsule_refused kind len then (Inl H3_MESSAGE_ERROR, r) else (Inr None, r\<lparr>cr_kind := kind\<rparr>)
     | Payload body \<Rightarrow>
         if cr_kind r = CLOSE
         then let r = r\<lparr>cr_close := cr_close r @ body\<rparr>
              in if fr_remaining (cr_frames r) = 0
                 then (map_sum (\<lambda>x. x) Some (capsule_close (cr_close r)), r\<lparr>cr_close := []\<rparr>)
                 else (Inr None, r)
         else (Inr None, r))"

lemma capsule_piece_frames [simp]: "cr_frames (snd (capsule_piece r p)) = cr_frames r"
  by (auto simp: capsule_piece_def Let_def split: piece.split)

function capsule_read :: "capsule_reader \<Rightarrow> bytes \<Rightarrow> (code + session_close option) \<times> capsule_reader \<times> bytes" where
  "capsule_read r input = (case frame_next (cr_frames r) input of
       (None, f, rest) \<Rightarrow> (Inr None, r\<lparr>cr_frames := f\<rparr>, rest)
     | (Some p, f, rest) \<Rightarrow>
         (case capsule_piece (r\<lparr>cr_frames := f\<rparr>) p of
            (Inr None, r') \<Rightarrow> capsule_read r' rest
          | (res, r') \<Rightarrow> (res, r', rest)))"
  by pat_completeness auto
termination
  by (relation "measure (\<lambda>(r, input). reader_mass (cr_frames r) input)")
    (auto dest!: frame_next_mass [OF sym] dest: arg_cong [of _ _ "\<lambda>x. cr_frames (snd x)"])

declare capsule_read.simps [simp del]

definition capsule_at_boundary :: "capsule_reader \<Rightarrow> bool" where
  "capsule_at_boundary r = frame_at_boundary (cr_frames r)"

text \<open>\<open>str::floor_char_boundary\<close>: the last character boundary at or below an index.\<close>

fun boundary_below :: "bytes \<Rightarrow> nat \<Rightarrow> nat" where
  "boundary_below bs 0 = 0"
| "boundary_below bs (Suc i) = (if is_continuation (bs ! Suc i) then boundary_below bs i else Suc i)"

definition floor_char_boundary :: "bytes \<Rightarrow> nat \<Rightarrow> nat" where
  "floor_char_boundary bs i = (if i \<ge> length bs then length bs else boundary_below bs i)"

definition close_capsule :: "u32 \<Rightarrow> bytes \<Rightarrow> bytes" where
  "close_capsule code reason =
     (let n = floor_char_boundary reason MAX_REASON
      in put_header CLOSE (of_nat (4 + n)) [] @ put_u32 code @ take n reason)"

definition datagram :: "bytes \<Rightarrow> code + (u64 \<times> bytes)" where
  "datagram payload = (case varint_decode payload of
       None \<Rightarrow> Inl H3_DATAGRAM_ERROR
     | Some (quarter, n) \<Rightarrow>
         (case session_from_quarter quarter of
            None \<Rightarrow> Inl H3_DATAGRAM_ERROR
          | Some session \<Rightarrow> Inr (session, drop n payload)))"

definition datagram_prefix :: "u64 \<Rightarrow> bytes" where
  "datagram_prefix ident = varint_put (session_quarter ident) []"

subsection \<open>The reader as an automaton\<close>

type_synonym acapsule = "u64 \<times> bytes \<times> u64"

fun capsule_header_event :: "acapsule \<Rightarrow> u64 \<Rightarrow> u64 \<Rightarrow> (session_close, code, acapsule) outcome" where
  "capsule_header_event (_, close, _) kind len = ([], if capsule_refused kind len then Inl H3_MESSAGE_ERROR else Inr (kind, close, len))"

fun close_event :: "code + session_close \<Rightarrow> 'a \<Rightarrow> (session_close, code, 'a) outcome" where
  "close_event (Inl e) st = ([], Inl e)"
| "close_event (Inr c) st = ([c], Inr st)"

fun capsule_byte_event :: "acapsule \<Rightarrow> u8 \<Rightarrow> (session_close, code, acapsule) outcome" where
  "capsule_byte_event (kind, close, left) b =
     (if kind \<noteq> CLOSE then ([], Inr (kind, close, left - 1))
      else if left \<noteq> 1 then ([], Inr (kind, close @ [b], left - 1))
      else close_event (capsule_close (close @ [b])) (kind, [], 0))"

abbreviation capsule_step :: "acapsule held \<Rightarrow> u8 \<Rightarrow> (session_close, code, acapsule held) outcome" where
  "capsule_step \<equiv> pair_step (\<lambda>(_, _, left). left = 0) capsule_header_event capsule_byte_event"

definition capsule_abs :: "capsule_reader \<Rightarrow> acapsule held" where
  "capsule_abs r = (case frame_abs (cr_frames r) of (f, held, left) \<Rightarrow> (f, held, (cr_kind r, cr_close r, left)))"

text \<open>A CLOSE being read is within its length; nothing else is kept.\<close>

definition capsule_inv :: "capsule_reader \<Rightarrow> bool" where
  "capsule_inv r \<longleftrightarrow> frame_wf (cr_frames r) \<and>
     (cr_kind r = CLOSE \<and> fr_remaining (cr_frames r) \<noteq> 0 \<longrightarrow> length (cr_close r) + unat (fr_remaining (cr_frames r)) \<le> 4 + MAX_REASON) \<and>
     (\<not> (cr_kind r = CLOSE \<and> fr_remaining (cr_frames r) \<noteq> 0) \<longrightarrow> cr_close r = [])"

definition after_payload :: "bytes \<Rightarrow> 'f \<times> 'h \<times> acapsule \<Rightarrow> (session_close, code, 'f \<times> 'h \<times> acapsule) outcome" where
  "after_payload body a = (case a of (f, held, kind, close, left) \<Rightarrow>
     if kind \<noteq> CLOSE then ([], Inr (f, held, kind, close, left - of_nat (length body)))
     else if length body < unat left then ([], Inr (f, held, kind, close @ body, left - of_nat (length body)))
     else close_event (capsule_close (close @ body)) (f, held, kind, [], 0))"

lemma map_close_event: "map_out f (close_event r st) = close_event r (f st)"
  by (cases r) simp_all

lemma run_capsule_payload:
  assumes "body \<noteq> []" and "length body \<le> unat left"
  shows "run_bytes capsule_step (f, held, kind, close, left) (body @ rest) =
    seq_out (after_payload body (f, held, kind, close, left)) (\<lambda>a. run_bytes capsule_step a rest)"
  using assms
proof (induction body arbitrary: close left)
  case (Cons b body)
  have ne: "left \<noteq> 0" using Cons.prems(2) by auto
  have one: "left = 1 \<longleftrightarrow> unat left = 1" by (metis unat_1 unat_eq_imp of_nat_1)
  have minus: "unat (left - 1) = unat left - 1" using ne by (simp add: unat_minus_one)
  show ?case
  proof (cases "body = []")
    case True
    then show ?thesis using ne one Cons.prems(2) by (auto simp: after_payload_def map_close_event)
  next
    case False
    then have "2 \<le> unat left" using Cons.prems(2) by (cases body) auto
    then have "left \<noteq> 1" and "length body \<le> unat (left - 1)" using one minus Cons.prems(2) by auto
    then show ?thesis using ne minus Cons.IH [OF False, of "left - 1"] by (auto simp: after_payload_def diff_diff_eq)
  qed
qed simp

fun outcome_of :: "(code + session_close option) \<times> capsule_reader \<Rightarrow> (session_close, code, acapsule held) outcome" where
  "outcome_of (Inl e, r) = ([], Inl e)"
| "outcome_of (Inr None, r) = ([], Inr (capsule_abs r))"
| "outcome_of (Inr (Some c), r) = ([c], Inr (capsule_abs r))"

lemma capsule_header_post:
  assumes inv: "capsule_inv r" and nx: "frame_next (cr_frames r) input = (res, f, rest)" and start: "fr_remaining (cr_frames r) = 0"
  shows "run_bytes capsule_step (capsule_abs r) input = (case res of
      None \<Rightarrow> ([], Inr (capsule_abs (r\<lparr>cr_frames := f\<rparr>)))
    | Some p \<Rightarrow> seq_out (outcome_of (capsule_piece (r\<lparr>cr_frames := f\<rparr>) p)) (\<lambda>a. run_bytes capsule_step a rest))"
proof -
  let ?h = "fr_header (cr_frames r)"
  have "pair_post (run_bytes capsule_step) capsule_header_event
      (pair_first ?h, pend (pair_varint ?h), cr_kind r, cr_close r, 0) input (pair_read ?h input)"
    using inv by (intro pair_read_post) (simp_all add: capsule_inv_def frame_wf_def)
  then show ?thesis using nx start
    by (auto simp: frame_next_def pair_post_def capsule_abs_def frame_abs_def capsule_piece_def
        split: prod.splits option.splits)
qed

lemma capsule_payload_post:
  assumes inv: "capsule_inv r" and nx: "frame_next (cr_frames r) input = (res, f, rest)" and left: "fr_remaining (cr_frames r) \<noteq> 0"
  shows "run_bytes capsule_step (capsule_abs r) input = (case res of
      None \<Rightarrow> ([], Inr (capsule_abs (r\<lparr>cr_frames := f\<rparr>)))
    | Some p \<Rightarrow> seq_out (outcome_of (capsule_piece (r\<lparr>cr_frames := f\<rparr>) p)) (\<lambda>a. run_bytes capsule_step a rest))"
proof (cases "input = []")
  case True
  then show ?thesis using nx left by (auto simp: frame_next_def)
next
  case False
  let ?left = "fr_remaining (cr_frames r)"
  let ?n = "min (unat ?left) (length input)"
  let ?body = "take ?n input" and ?f = "(cr_frames r)\<lparr>fr_remaining := ?left - of_nat ?n\<rparr>"
  have out: "res = Some (Payload ?body)" "f = ?f" "rest = drop ?n input" using nx left False by (auto simp: frame_next_def Let_def)
  have n: "length ?body = ?n" "?body \<noteq> []" "length ?body \<le> unat ?left" using left False by (simp_all add: unat_gt_0)
  have "unat (of_nat ?n :: u64) = ?n" by (rule unat_of_small) (use unat_lt64 [of ?left] in simp)
  moreover from this have "unat (?left - of_nat ?n) = unat ?left - ?n" by (subst unat_sub) (simp_all add: word_le_nat_alt)
  ultimately have done_: "?left - of_nat ?n = 0 \<longleftrightarrow> \<not> ?n < unat ?left" by (auto simp: unat_eq_0 [symmetric])
  obtain x y where a: "frame_abs (cr_frames r) = (x, y, ?left)" by (simp add: frame_abs_def)
  then have a': "frame_abs ?f = (x, y, ?left - of_nat ?n)" by (simp add: frame_abs_def)
  have "outcome_of (capsule_piece (r\<lparr>cr_frames := ?f\<rparr>) (Payload ?body)) = after_payload ?body (capsule_abs r)"
    using done_ a a' n(1)
    by (cases "capsule_close (cr_close r @ ?body)") (auto simp: capsule_piece_def after_payload_def capsule_abs_def Let_def)
  moreover have "run_bytes capsule_step (capsule_abs r) (?body @ drop ?n input) =
      seq_out (after_payload ?body (capsule_abs r)) (\<lambda>a. run_bytes capsule_step a (drop ?n input))"
    using run_capsule_payload [OF n(2,3)] by (simp only: capsule_abs_def a prod.case)
  ultimately show ?thesis using out by simp
qed

lemma capsule_piece_inv:
  assumes inv: "capsule_inv r" and nx: "frame_next (cr_frames r) input = (Some p, f, rest)"
    and run: "capsule_piece (r\<lparr>cr_frames := f\<rparr>) p = (Inr x, r')"
  shows "capsule_inv r'"
proof -
  have wf: "frame_wf f" using frame_next_post(1) [OF _ nx] inv by (simp add: capsule_inv_def)
  show ?thesis
  proof (cases "fr_remaining (cr_frames r) = 0")
    case True
    then obtain kind len where p: "p = Header kind len" and f: "fr_remaining f = len"
      using nx by (auto simp: frame_next_def split: prod.splits option.splits)
    then show ?thesis using run wf inv True by (auto simp: capsule_piece_def capsule_inv_def capsule_refused_def split: if_splits)
  next
    case False
    let ?left = "fr_remaining (cr_frames r)"
    let ?n = "min (unat ?left) (length input)"
    have p: "p = Payload (take ?n input)" and f: "fr_remaining f = ?left - of_nat ?n"
      using nx False by (auto simp: frame_next_def Let_def split: if_splits)
    have "unat (of_nat ?n :: u64) = ?n" by (rule unat_of_small) (use unat_lt64 [of ?left] in simp)
    then have "unat (?left - of_nat ?n) = unat ?left - ?n" by (subst unat_sub) (simp_all add: word_le_nat_alt)
    then show ?thesis using run wf inv False p f
      by (cases "capsule_close (cr_close r @ take ?n input)") (auto simp: capsule_piece_def capsule_inv_def Let_def split: if_splits)
  qed
qed

lemma capsule_read_run:
  assumes "capsule_inv r" and "capsule_read r input = (res, r', rest)"
  shows "(res = Inr None \<longrightarrow> rest = []) \<and> (\<forall>x. res = Inr x \<longrightarrow> capsule_inv r') \<and>
    run_bytes capsule_step (capsule_abs r) input = seq_out (outcome_of (res, r')) (\<lambda>a. run_bytes capsule_step a rest)"
  using assms
proof (induction r input rule: capsule_read.induct)
  case (1 r input)
  obtain p f mid where nx: "frame_next (cr_frames r) input = (p, f, mid)" by (metis prod_cases3)
  have wf: "frame_wf (cr_frames r)" using "1.prems"(1) by (simp add: capsule_inv_def)
  note post = capsule_header_post [OF "1.prems"(1) nx] capsule_payload_post [OF "1.prems"(1) nx]
  show ?case
  proof (cases p)
    case None
    have "fr_remaining f = fr_remaining (cr_frames r)" using nx None by (auto simp: frame_next_def Let_def split: if_splits prod.splits option.splits)
    then have "capsule_inv (r\<lparr>cr_frames := f\<rparr>)" using "1.prems"(1) frame_next_post(1) [OF wf nx] by (simp add: capsule_inv_def)
    moreover have "mid = []" by (rule frame_next_post(3) [OF wf nx None])
    ultimately show ?thesis using "1.prems"(2) nx None post by (cases "fr_remaining (cr_frames r) = 0") (auto simp: capsule_read.simps [of r input])
  next
    case (Some q)
    obtain out r1 where pc: "capsule_piece (r\<lparr>cr_frames := f\<rparr>) q = (out, r1)" by fastforce
    have run: "run_bytes capsule_step (capsule_abs r) input = seq_out (outcome_of (out, r1)) (\<lambda>a. run_bytes capsule_step a mid)"
      using post Some pc by (cases "fr_remaining (cr_frames r) = 0") simp_all
    have inv: "out = Inr x \<Longrightarrow> capsule_inv r1" for x using capsule_piece_inv "1.prems"(1) nx Some pc by blast
    show ?thesis
    proof (cases "out = Inr None")
      case True
      have rec: "capsule_read r1 mid = (res, r', rest)" using "1.prems"(2) nx Some pc True by (simp add: capsule_read.simps [of r input])
      show ?thesis using "1.IH" [OF nx [symmetric] Some refl pc [symmetric] True refl inv [OF True] rec] run True by auto
    next
      case False
      have "(res, r', rest) = (out, r1, mid)"
        using "1.prems"(2) nx Some pc False by (cases out; cases "projr out") (auto simp: capsule_read.simps [of r input] split: sum.splits option.splits)
      then show ?thesis using run inv False by auto
    qed
  qed
qed

lemma capsule_read_mass: "capsule_read r input = (Inr (Some c), r', rest) \<Longrightarrow> reader_mass (cr_frames r') rest < reader_mass (cr_frames r) input"
proof (induction r input rule: capsule_read.induct)
  case (1 r input)
  obtain p f mid where nx: "frame_next (cr_frames r) input = (p, f, mid)" by (metis prod_cases3)
  then obtain q where q: "p = Some q" using "1.prems" by (cases p) (auto simp: capsule_read.simps [of r input])
  obtain out r1 where pc: "capsule_piece (r\<lparr>cr_frames := f\<rparr>) q = (out, r1)" by fastforce
  have frames: "cr_frames r1 = f" using pc capsule_piece_frames [of "r\<lparr>cr_frames := f\<rparr>" q] by simp
  have less: "reader_mass f mid < reader_mass (cr_frames r) input" using nx q by (blast intro: frame_next_mass)
  show ?case
  proof (cases "out = Inr None")
    case True
    then have "capsule_read r1 mid = (Inr (Some c), r', rest)" using "1.prems" nx q pc by (simp add: capsule_read.simps [of r input])
    then show ?thesis using "1.IH" [OF nx [symmetric] q refl pc [symmetric] True refl] less frames by simp
  next
    case False
    then show ?thesis using "1.prems" nx q pc less frames by (auto simp: capsule_read.simps [of r input] split: sum.splits option.splits)
  qed
qed

text \<open>The caller's loop over the closes of a chunk.\<close>

function capsule_feed :: "capsule_reader \<Rightarrow> bytes \<Rightarrow> (session_close, code, capsule_reader) outcome" where
  "capsule_feed r input = (case capsule_read r input of
       (Inl e, _, _) \<Rightarrow> ([], Inl e)
     | (Inr None, r', _) \<Rightarrow> ([], Inr r')
     | (Inr (Some c), r', rest) \<Rightarrow> seq_out ([c], Inr r') (\<lambda>_. capsule_feed r' rest))"
  by pat_completeness auto
termination by (relation "measure (\<lambda>(r, input). reader_mass (cr_frames r) input)") (auto dest: capsule_read_mass [OF sym])

declare capsule_feed.simps [simp del]

lemma capsule_feed_run:
  "capsule_inv r \<Longrightarrow> map_out capsule_abs (capsule_feed r input) = run_bytes capsule_step (capsule_abs r) input \<and>
    (\<forall>es r'. capsule_feed r input = (es, Inr r') \<longrightarrow> capsule_inv r')"
proof (induction r input rule: capsule_feed.induct)
  case (1 r input)
  obtain res r1 rest where rd: "capsule_read r input = (res, r1, rest)" by (metis prod_cases3)
  note post = capsule_read_run [OF "1.prems" rd]
  consider e where "res = Inl e" | "res = Inr None" | c where "res = Inr (Some c)" by (cases res; cases "projr res") auto
  then show ?case
  proof cases
    case 3
    then have IH: "map_out capsule_abs (capsule_feed r1 rest) = run_bytes capsule_step (capsule_abs r1) rest \<and>
        (\<forall>es r'. capsule_feed r1 rest = (es, Inr r') \<longrightarrow> capsule_inv r')" using "1.IH" [OF rd [symmetric] 3 refl refl refl] post 3 by blast
    have feed: "capsule_feed r input = seq_out ([c], Inr r1) (\<lambda>_. capsule_feed r1 rest)" using rd 3 by (simp add: capsule_feed.simps [of r input])
    have "map_out capsule_abs (capsule_feed r input) = seq_out ([c], Inr (capsule_abs r1)) (\<lambda>a. run_bytes capsule_step a rest)"
      unfolding feed map_out_seq using IH by (simp add: seq_out_def)
    moreover have "capsule_inv r'" if "capsule_feed r input = (es, Inr r')" for es r'
      using that IH unfolding feed by (auto simp: seq_out_def split: prod.splits)
    ultimately show ?thesis using post 3 by simp
  qed (use rd post in \<open>auto simp: capsule_feed.simps [of r input]\<close>)
qed

interpretation capsules: byte_reader capsule_step capsule_feed capsule_abs capsule_inv
proof
  fix s bs
  assume "capsule_inv s"
  then show "map_out capsule_abs (capsule_feed s bs) = run_bytes capsule_step (capsule_abs s) bs" using capsule_feed_run by blast
next
  fix s bs es s'
  assume "capsule_inv s" "capsule_feed s bs = (es, Inr s')"
  then show "capsule_inv s'" using capsule_feed_run by blast
qed

subsection \<open>Closing\<close>

text \<open>A cut at a character boundary is well formed, and it is the longest well-formed prefix within the bound.\<close>

lemma from_utf8_take:
  "from_utf8 bs \<Longrightarrow> i \<le> length bs \<Longrightarrow> i = length bs \<or> \<not> is_continuation (bs ! i) \<Longrightarrow> from_utf8 (take i bs)"
proof (induction bs arbitrary: i rule: from_utf8.induct)
  case (2 b bs)
  obtain n low high where first: "utf8_first b = Some (n, low, high)" using "2.prems"(1) by (auto split: option.splits)
  have ok: "n \<le> length bs" "0 < n \<longrightarrow> low \<le> bs ! 0 \<and> bs ! 0 \<le> high" "list_all is_continuation (take n bs)" "from_utf8 (drop n bs)"
    using "2.prems"(1) first by auto
  show ?case
  proof (cases i)
    case (Suc j)
    have "n \<le> j"
    proof (rule ccontr)
      assume "\<not> n \<le> j"
      then have "j < length bs" and "take n bs ! j = bs ! j" and "j < length (take n bs)" using ok(1) by simp_all
      then have "is_continuation (bs ! j)" using ok(3) by (metis list_all_length)
      then show False using "2.prems"(3) Suc \<open>j < length bs\<close> by auto
    qed
    moreover have "from_utf8 (take (j - n) (drop n bs))"
      by (rule "2.IH" [OF first refl refl ok(4)]) (use "2.prems"(2,3) Suc \<open>n \<le> j\<close> in auto)
    ultimately show ?thesis using Suc first ok "2.prems"(2) by (simp add: min_def drop_take)
  qed simp
qed simp

lemma from_utf8_next:
  "from_utf8 bs \<Longrightarrow> i < length bs \<Longrightarrow> from_utf8 (take i bs) \<Longrightarrow> \<not> is_continuation (bs ! i)"
proof (induction bs arbitrary: i rule: from_utf8.induct)
  case (2 b bs)
  obtain n low high where first: "utf8_first b = Some (n, low, high)" using "2.prems"(1) by (auto split: option.splits)
  show ?case
  proof (cases i)
    case 0
    then show ?thesis using first by (auto simp: utf8_first_def is_continuation_def word_le_nat_alt word_less_nat_alt split: if_splits)
  next
    case (Suc j)
    then have le: "n \<le> j" and rest: "from_utf8 (drop n (take j bs))" using "2.prems"(3) first by auto
    have "\<not> is_continuation (drop n bs ! (j - n))"
      by (rule "2.IH" [OF first refl refl]) (use "2.prems"(1,2) first Suc rest le in \<open>auto simp: drop_take\<close>)
    then show ?thesis using Suc le "2.prems"(2) by simp
  qed
qed simp

lemma boundary_below: "boundary_below bs i \<le> i \<and> (boundary_below bs i = 0 \<or> \<not> is_continuation (bs ! boundary_below bs i)) \<and>
    (\<forall>j. boundary_below bs i < j \<and> j \<le> i \<longrightarrow> is_continuation (bs ! j))"
proof (induction i)
  case (Suc i)
  then show ?case by (auto simp: le_Suc_eq)
qed simp

lemma floor_char_boundary:
  assumes "from_utf8 bs"
  shows "floor_char_boundary bs n \<le> n \<or> floor_char_boundary bs n = length bs \<and> length bs \<le> n" and "floor_char_boundary bs n \<le> length bs"
    and "from_utf8 (take (floor_char_boundary bs n) bs)"
    and "j \<le> n \<Longrightarrow> j \<le> length bs \<Longrightarrow> from_utf8 (take j bs) \<Longrightarrow> j \<le> floor_char_boundary bs n"
proof -
  note b = boundary_below [of bs n]
  show "floor_char_boundary bs n \<le> n \<or> floor_char_boundary bs n = length bs \<and> length bs \<le> n" and "floor_char_boundary bs n \<le> length bs"
    using b by (auto simp: floor_char_boundary_def)
  show "from_utf8 (take (floor_char_boundary bs n) bs)"
  proof (cases "n \<ge> length bs \<or> boundary_below bs n = 0")
    case False
    then show ?thesis using from_utf8_take [OF assms, of "boundary_below bs n"] b by (simp add: floor_char_boundary_def)
  qed (use assms in \<open>auto simp: floor_char_boundary_def\<close>)
  assume j: "j \<le> n" "j \<le> length bs" "from_utf8 (take j bs)"
  show "j \<le> floor_char_boundary bs n"
  proof (rule ccontr)
    assume "\<not> j \<le> floor_char_boundary bs n"
    then have "boundary_below bs n < j" and "j < length bs" using j by (auto simp: floor_char_boundary_def split: if_splits)
    then have "is_continuation (bs ! j)" using b j(1) by blast
    then show False using from_utf8_next [OF assms \<open>j < length bs\<close> j(3)] by blast
  qed
qed

lemma be32_put: "be32 (put_u32 v) = v"
proof (rule bit_word_eqI)
  fix n
  assume "n < LENGTH(32)"
  then consider "n < 8" | "8 \<le> n" "n < 16" | "16 \<le> n" "n < 24" | "24 \<le> n" "n < 32" by fastforce
  then show "bit (be32 (put_u32 v)) n = bit v n" by cases (auto simp: be32_def put_u32_def bit_simps less_diff_conv2)
qed

lemma run_capsule_start:
  assumes "frame_fits (kind, payload)"
  shows "run_bytes capsule_step (None, [], k, close, 0) (frame_bytes (kind, payload) @ rest) =
    (if capsule_refused kind (of_nat (length payload)) then ([], Inl H3_MESSAGE_ERROR)
     else run_bytes capsule_step (None, [], kind, close, of_nat (length payload)) (payload @ rest))"
proof -
  have fits: "kind \<le> varint_MAX" "(of_nat (length payload) :: u64) \<le> varint_MAX"
    using assms of_nat_fits [of "length payload"] by (simp_all add: frame_fits_def)
  show ?thesis by (simp add: frame_bytes_def put_header_append run_put_varint fits pair_done_def)
qed

lemma run_capsule_skipped:
  assumes fits: "frame_fits (kind, payload)" and other: "kind \<noteq> CLOSE" "kind \<notin> set HTTP2_ONLY"
  shows "run_bytes capsule_step (None, [], k, close, 0) (frame_bytes (kind, payload) @ rest) =
    run_bytes capsule_step (None, [], kind, close, 0) rest"
proof -
  have u: "unat (of_nat (length payload) :: u64) = length payload" using fits of_nat_fits [of "length payload"] by (simp add: frame_fits_def)
  have "\<not> capsule_refused kind (of_nat (length payload))" using other by (simp add: capsule_refused_def)
  then show ?thesis
    using run_capsule_start [OF fits, of k close rest] run_capsule_payload [of payload "of_nat (length payload)" None "[]" kind close rest] u other
    by (cases "payload = []") (simp_all add: after_payload_def)
qed

lemma run_capsules_skipped:
  assumes "\<forall>(kind, payload) \<in> set cs. frame_fits (kind, payload) \<and> kind \<noteq> CLOSE \<and> kind \<notin> set HTTP2_ONLY"
  shows "\<exists>k'. run_bytes capsule_step (None, [], k, close, 0) (concat (map frame_bytes cs) @ rest) = run_bytes capsule_step (None, [], k', close, 0) rest"
  using assms
proof (induction cs arbitrary: k)
  case (Cons c cs)
  obtain kind payload where c: "c = (kind, payload)" by (cases c)
  have "run_bytes capsule_step (None, [], k, close, 0) (concat (map frame_bytes (c # cs)) @ rest) =
      run_bytes capsule_step (None, [], kind, close, 0) (concat (map frame_bytes cs) @ rest)"
    using run_capsule_skipped [of kind payload k close "concat (map frame_bytes cs) @ rest"] Cons.prems c by simp
  moreover have "\<exists>k'. run_bytes capsule_step (None, [], kind, close, 0) (concat (map frame_bytes cs) @ rest) =
      run_bytes capsule_step (None, [], k', close, 0) rest" by (rule Cons.IH) (use Cons.prems in simp)
  ultimately show ?case by (simp only:)
qed auto

lemma run_close:
  assumes reason: "from_utf8 reason"
  shows "run_bytes capsule_step (None, [], k, [], 0) (close_capsule code reason) =
    ([\<lparr>sc_code = code, sc_reason = take (floor_char_boundary reason MAX_REASON) reason\<rparr>], Inr (None, [], CLOSE, [], 0))"
proof -
  define n where "n = floor_char_boundary reason MAX_REASON"
  let ?body = "put_u32 code @ take n reason"
  note cut = floor_char_boundary [OF reason, of MAX_REASON, folded n_def]
  have n: "n \<le> MAX_REASON" "n \<le> length reason" using cut by auto
  have len: "length (put_u32 code) = 4" "length ?body = 4 + n" using n by (simp_all add: put_u32_def)
  have fits: "frame_fits (CLOSE, ?body)" using n len(2) by (simp add: frame_fits_def CLOSE_def varint_MAX_def MAX_REASON_def)
  have u: "unat (of_nat (4 + n) :: u64) = 4 + n" by (rule unat_of_small) (use n in \<open>simp add: MAX_REASON_def\<close>)
  have accepted: "\<not> capsule_refused CLOSE (of_nat (length ?body))" unfolding len(2)
    using u n by (simp add: capsule_refused_def CLOSE_def HTTP2_ONLY_def)
  have "close_capsule code reason = frame_bytes (CLOSE, ?body) @ []" using len(2) by (simp add: close_capsule_def n_def frame_bytes_def Let_def)
  then have "run_bytes capsule_step (None, [], k, [], 0) (close_capsule code reason) =
      run_bytes capsule_step (None, [], CLOSE, [], of_nat (length ?body)) (?body @ [])"
    using run_capsule_start [OF fits, of k "[]" "[]"] accepted by (simp only: if_False)
  also have "\<dots> = after_payload ?body (None, [], CLOSE, [], of_nat (length ?body))"
    by (subst run_capsule_payload) (use len u in \<open>auto simp: put_u32_def\<close>)
  also have "\<dots> = close_event (capsule_close ?body) (None, [], CLOSE, [], 0)" unfolding len(2) after_payload_def using u len by simp
  finally show ?thesis using len(1) cut(3) by (simp add: capsule_close_def be32_put n_def [symmetric])
qed

subsection \<open>Properties\<close>

lemma capsule_default [simp]: "capsule_inv capsule_reader_default" "capsule_abs capsule_reader_default = (None, [], 0, [], 0)"
  by (simp_all add: capsule_inv_def capsule_abs_def capsule_reader_default_def frame_reader_default_def [symmetric])
    (simp add: frame_reader_default_def)

lemma capsule_at_boundary_abs: "capsule_inv r \<Longrightarrow> capsule_at_boundary r \<longleftrightarrow> (\<exists>k c. capsule_abs r = (None, [], k, c, 0))"
  by (auto simp: capsule_at_boundary_def capsule_abs_def capsule_inv_def frame_at_boundary_abs split: prod.splits)

text \<open>
  A session's CLOSE survives the trip: after any capsules of other types, and however the stream is cut into chunks, the reader reports the
  application's code and the reason, once, and stands at a boundary. The reason it reports is the longest well-formed prefix of the
  sender's within \<open>MAX_REASON\<close> bytes.
\<close>

theorem close_read_back:
  assumes others: "\<forall>(kind, payload) \<in> set cs. frame_fits (kind, payload) \<and> kind \<noteq> CLOSE \<and> kind \<notin> set HTTP2_ONLY"
    and reason: "from_utf8 reason" and chunks: "concat chunks = concat (map frame_bytes cs) @ close_capsule code reason"
  shows "\<exists>r n. feed_chunks capsule_feed capsule_reader_default chunks = ([\<lparr>sc_code = code, sc_reason = take n reason\<rparr>], Inr r) \<and>
    capsule_at_boundary r \<and> n \<le> MAX_REASON \<and> n \<le> length reason \<and> from_utf8 (take n reason) \<and>
    (\<forall>m. m \<le> MAX_REASON \<and> m \<le> length reason \<and> from_utf8 (take m reason) \<longrightarrow> m \<le> n)"
proof -
  define n where "n = floor_char_boundary reason MAX_REASON"
  obtain k where "run_bytes capsule_step (capsule_abs capsule_reader_default) (concat chunks) = run_bytes capsule_step (None, [], k, [], 0) (close_capsule code reason)"
    using run_capsules_skipped [OF others, of 0 "[]" "close_capsule code reason"] chunks by auto
  then have "map_out capsule_abs (feed_chunks capsule_feed capsule_reader_default chunks) =
      ([\<lparr>sc_code = code, sc_reason = take n reason\<rparr>], Inr (None, [], CLOSE, [], 0))"
    using capsules.chunked [of capsule_reader_default chunks] run_close [OF reason, of k code] by (simp add: n_def)
  then obtain r where r: "feed_chunks capsule_feed capsule_reader_default chunks = ([\<lparr>sc_code = code, sc_reason = take n reason\<rparr>], Inr r)"
    and a: "capsule_abs r = (None, [], CLOSE, [], 0)" by (auto simp: map_out_def split: prod.splits sum.splits)
  have "capsule_inv r" using r capsules.feed_chunks_inv [of capsule_reader_default] by simp
  then have "capsule_at_boundary r" using a capsule_at_boundary_abs by blast
  moreover have "\<forall>m. m \<le> MAX_REASON \<and> m \<le> length reason \<and> from_utf8 (take m reason) \<longrightarrow> m \<le> n"
    using floor_char_boundary(4) [OF reason, of _ MAX_REASON, folded n_def] by blast
  moreover have "n \<le> MAX_REASON" "n \<le> length reason" "from_utf8 (take n reason)"
    using floor_char_boundary(1-3) [OF reason, of MAX_REASON, folded n_def] by auto
  ultimately show ?thesis using r by blast
qed

theorem close_read_back_witness:
  "\<exists>r n. feed_chunks capsule_feed capsule_reader_default [[0x17], [0x01, 0x2a, 0x68], [0x43, 0x06, 0, 0, 0x01], [0x02, 0x6f, 0x6b]] =
     ([\<lparr>sc_code = 0x102, sc_reason = take n [0x6f, 0x6b]\<rparr>], Inr r) \<and> capsule_at_boundary r"
proof -
  have "concat [[0x17], [0x01, 0x2a, 0x68], [0x43, 0x06, 0, 0, 0x01], [0x02, 0x6f, 0x6b]] =
      concat (map frame_bytes [(0x17, [0x2a])]) @ close_capsule 0x102 [0x6f, 0x6b]" by code_simp
  moreover have "\<forall>(kind, payload) \<in> set [(0x17 :: u64, [0x2a :: u8])]. frame_fits (kind, payload) \<and> kind \<noteq> CLOSE \<and> kind \<notin> set HTTP2_ONLY"
    by (simp add: frame_fits_def varint_MAX_def CLOSE_def HTTP2_ONLY_def)
  moreover have "from_utf8 [0x6f, 0x6b]" by (rule from_utf8_ascii) simp
  ultimately show ?thesis using close_read_back by blast
qed

text \<open>
  What the reader keeps of a CONNECT stream is bounded and depends on its bytes alone: whatever arrives, at most a whole CLOSE is
  buffered, and how the bytes were cut into chunks changes neither the closes, the error nor where the reader stands.
\<close>

theorem capsules_bounded:
  assumes "concat chunks = concat chunks'"
  shows "map_out capsule_abs (feed_chunks capsule_feed capsule_reader_default chunks) =
      map_out capsule_abs (feed_chunks capsule_feed capsule_reader_default chunks') \<and>
    (\<forall>es r. feed_chunks capsule_feed capsule_reader_default chunks = (es, Inr r) \<longrightarrow> length (cr_close r) \<le> 4 + MAX_REASON)"
proof -
  have "length (cr_close r) \<le> 4 + MAX_REASON" if "feed_chunks capsule_feed capsule_reader_default chunks = (es, Inr r)" for es r
    using capsules.feed_chunks_inv [OF capsule_default(1) that] by (cases "cr_close r = []") (auto simp: capsule_inv_def)
  then show ?thesis using capsules.split_irrelevant [OF capsule_default(1) assms] by blast
qed

theorem capsules_bounded_witness:
  "map_out capsule_abs (feed_chunks capsule_feed capsule_reader_default [[0x68, 0x43], [0x04]]) =
   map_out capsule_abs (feed_chunks capsule_feed capsule_reader_default [[0x68], [0x43, 0x04]])"
proof -
  have "concat [[0x68, 0x43], [0x04 :: u8]] = concat [[0x68], [0x43, 0x04]]" by simp
  then show ?thesis using capsules_bounded by blast
qed

text \<open>
  Datagrams go to the session that sent them: the prefix of a session's datagrams is read back as its identifier with exactly the payload
  behind it, and a datagram that is accepted at all names an identifier a CONNECT stream can have.
\<close>

theorem datagram_round_trip:
  "(session_id_new ident = Some ident \<longrightarrow> datagram (datagram_prefix ident @ payload) = Inr (ident, payload)) \<and>
   (datagram bs = Inr (session, rest) \<longrightarrow> session_id_new session = Some session \<and> (\<exists>before. bs = before @ rest))"
proof (intro conjI impI)
  assume ident: "session_id_new ident = Some ident"
  then have four: "unat ident mod 4 = 0" and le: "ident \<le> varint_MAX"
    by (auto simp: session_id_new_def unat_eq_0 [symmetric] unat_mod split: if_splits)
  have q: "unat (session_quarter ident) * 4 = unat ident" using four div_mult_mod_eq [of "unat ident" 4] by (simp add: session_quarter_def unat_div)
  then have "session_quarter ident \<le> varint_MAX" using le by (simp add: word_le_nat_alt)
  moreover have "session_quarter ident * 4 = ident" using q by (metis of_nat_mult of_nat_numeral of_nat_unat ucast_id)
  moreover have "unat (session_quarter ident) * 4 < 2 ^ 64" using q unat_lt64 [of ident] by simp
  ultimately show "datagram (datagram_prefix ident @ payload) = Inr (ident, payload)"
    using ident by (simp add: datagram_def datagram_prefix_def varint_decode_put session_from_quarter_def)
next
  assume "datagram bs = Inr (session, rest)"
  then obtain quarter n where d: "rest = drop n bs" "session_from_quarter quarter = Some session"
    by (auto simp: datagram_def split: option.splits)
  then show "session_id_new session = Some session" by (auto simp: session_from_quarter_def session_id_new_def split: if_splits)
  show "\<exists>before. bs = before @ rest" using d(1) by (metis append_take_drop_id)
qed

theorem datagram_round_trip_witness:
  "datagram (datagram_prefix 8 @ [1, 2]) = Inr (8, [1, 2]) \<and> session_id_new 8 = Some 8"
proof -
  have "session_id_new 8 = Some 8" by (simp add: session_id_new_def varint_MAX_def)
  then show ?thesis using datagram_round_trip [of 8 "[1, 2]" "datagram_prefix 8 @ [1, 2]" 8 "[1, 2]"] by simp
qed

end
