(* ===== verification/Sessions.thy ===== *)
theory Sessions
  imports Capsule
begin

text \<open>
  WebTransport sessions, \<^verbatim>\<open>rust/http3/src/webtransport.rs\<close>: the CONNECT stream of a session with the capsules read from it and its close, and the
  registry that routes a connection's streams and datagrams to its session. What the QUIC streams below answer to a poll is an argument: the
  results of \<open>poll_data\<close> in order, then pending, and those of \<open>poll_ready\<close> and \<open>poll_finish\<close>. A stream is the number it has in
  its connection, a time counts nanoseconds, and an error of the QUIC library is an opaque number.
\<close>

subsection \<open>The model: a CONNECT stream\<close>

type_synonym connection_error = nat

datatype h3_error =
    Reset code | Stopped code | Protocol code
  | Connection (local_close: bool) code bytes
  | Transport connection_error
  | TimedOut | NoWebTransport | GoingAway | Refused | SessionEnded | Closed

definition error_local :: "code \<Rightarrow> h3_error" where
  "error_local code = Connection True code []"

definition CLOSE_WAIT :: nat where "CLOSE_WAIT = 1000000000"

datatype session_phase = Opening | Open | Ended "h3_error + session_close"

definition is_ended :: "session_phase \<Rightarrow> bool" where
  "is_ended p \<longleftrightarrow> (\<exists>x. p = Ended x)"

lemma is_ended_code [code, simp]: "is_ended Opening = False" "is_ended Open = False" "is_ended (Ended x) = True"
  by (simp_all add: is_ended_def)

datatype polled = PollPending | PollData bytes | PollEnd | PollError h3_error

text \<open>\<open>cn_queued\<close> are the capsules handed to the sending half, \<open>cn_gone\<close> whether both halves were reset with \<open>WT_SESSION_GONE\<close>.\<close>

record connect =
  cn_id :: u64
  cn_failed :: "h3_error option"
  cn_capsules :: capsule_reader
  cn_input :: bytes
  cn_phase :: session_phase
  cn_deadline :: "nat option"
  cn_peer_finished :: bool
  cn_peer_closed :: bool
  cn_closed_here :: bool
  cn_queued :: "bytes list"
  cn_gone :: bool

definition connect_new :: "u64 \<Rightarrow> session_phase \<Rightarrow> connect" where
  "connect_new ident phase = \<lparr>cn_id = ident, cn_failed = None, cn_capsules = capsule_reader_default, cn_input = [], cn_phase = phase,
     cn_deadline = None, cn_peer_finished = False, cn_peer_closed = False, cn_closed_here = False, cn_queued = [], cn_gone = False\<rparr>"

definition connect_end :: "connect \<Rightarrow> h3_error + session_close \<Rightarrow> connect" where
  "connect_end c ending = (if is_ended (cn_phase c) then c else c\<lparr>cn_phase := Ended ending\<rparr>)"

text \<open>\<open>RecvHalf::abort\<close>; \<open>closed\<close> is the error the connection already ended with, if it did.\<close>

definition stream_abort :: "h3_error option \<Rightarrow> connect \<Rightarrow> code \<Rightarrow> h3_error \<times> connect" where
  "stream_abort closed c code =
     (let e = (if code \<in> {H3_FRAME_UNEXPECTED, H3_FRAME_ERROR, H3_ID_ERROR, QPACK_DECOMPRESSION_FAILED}
               then (case closed of Some e \<Rightarrow> e | None \<Rightarrow> error_local code) else Protocol code);
          e = (case cn_failed c of Some held \<Rightarrow> held | None \<Rightarrow> e)
      in (e, c\<lparr>cn_failed := Some e\<rparr>))"

definition aborted :: "h3_error \<times> connect \<Rightarrow> h3_error option \<times> connect" where
  "aborted r = (Some (fst r), snd r)"

function connect_read :: "h3_error option \<Rightarrow> connect \<Rightarrow> polled list \<Rightarrow> h3_error option \<times> connect" where
  "connect_read closed c polls =
     (if cn_peer_finished c then (None, c)
      else if cn_peer_closed c \<and> cn_input c \<noteq> [] then aborted (stream_abort closed c H3_MESSAGE_ERROR)
      else case capsule_read (cn_capsules c) (cn_input c) of
          (Inl code, r, rest) \<Rightarrow> aborted (stream_abort closed (c\<lparr>cn_capsules := r, cn_input := rest\<rparr>) code)
        | (Inr (Some close), r, rest) \<Rightarrow>
            connect_read closed (connect_end (c\<lparr>cn_capsules := r, cn_input := rest, cn_peer_closed := True\<rparr>) (Inr close)) polls
        | (Inr None, r, rest) \<Rightarrow>
            let c = c\<lparr>cn_capsules := r, cn_input := rest\<rparr>
            in (case polls of
                  [] \<Rightarrow> (None, c)
                | PollPending # _ \<Rightarrow> (None, c)
                | PollData payload # polls \<Rightarrow> connect_read closed (c\<lparr>cn_input := payload\<rparr>) polls
                | PollEnd # polls \<Rightarrow>
                    if capsule_at_boundary r
                    then connect_read closed (connect_end (c\<lparr>cn_peer_finished := True\<rparr>) (Inr \<lparr>sc_code = 0, sc_reason = []\<rparr>)) polls
                    else aborted (stream_abort closed c H3_MESSAGE_ERROR)
                | PollError e # _ \<Rightarrow> (Some e, c)))"
  by pat_completeness auto
termination
  by (relation "measures [\<lambda>(_, _, polls). length polls, \<lambda>(_, c, _). reader_mass (cr_frames (cn_capsules c)) (cn_input c)]")
    (auto simp: connect_end_def dest: capsule_read_mass [OF sym])

declare connect_read.simps [simp del]

subsection \<open>The model: the registry\<close>

definition EARLY_WAIT :: nat where "EARLY_WAIT = 5 * 1000000000"
definition MAX_EARLY :: nat where "MAX_EARLY = 64"
definition STREAM_QUEUE :: nat where "STREAM_QUEUE = 32"
definition DATAGRAM_QUEUE :: nat where "DATAGRAM_QUEUE = 256"

record active =
  ac_id :: u64
  ac_close :: "session_close option"

text \<open>
  The channels of a session are found under its identifier: what waits in them, and whether the session still receives. \<open>rg_stopped\<close> are the
  streams stopped, with their codes, \<open>rg_resets\<close> the cancelled streams the driver has yet to take and \<open>rg_connects\<close> its new CONNECT streams.
\<close>

record registry =
  rg_active :: "active option"
  rg_early :: "(nat \<times> u64 \<times> nat) list"
  rg_gone :: "u64 option"
  rg_shutdown :: "session_close option"
  rg_connects :: "u64 list"
  rg_resets :: "nat list"
  rg_ended :: bool
  rg_streams :: "u64 \<Rightarrow> nat list"
  rg_datagrams :: "u64 \<Rightarrow> bytes list"
  rg_receives :: "u64 \<Rightarrow> bool"
  rg_stopped :: "(nat \<times> code) list"

definition registry_default :: registry where
  "registry_default = \<lparr>rg_active = None, rg_early = [], rg_gone = None, rg_shutdown = None, rg_connects = [], rg_resets = [], rg_ended = False,
     rg_streams = (\<lambda>_. []), rg_datagrams = (\<lambda>_. []), rg_receives = (\<lambda>_. False), rg_stopped = []\<rparr>"

definition registry_refuse :: "registry \<Rightarrow> nat \<Rightarrow> code \<Rightarrow> registry" where
  "registry_refuse rg stream code = rg\<lparr>rg_stopped := rg_stopped rg @ [(stream, code)]\<rparr>"

text \<open>\<open>RecvStream::stop\<close>, given whether the session's phase has ended.\<close>

definition stop_code :: "bool \<Rightarrow> code \<Rightarrow> code" where
  "stop_code over code = (if over then WT_SESSION_GONE else code)"

definition is_active :: "registry \<Rightarrow> u64 \<Rightarrow> bool" where
  "is_active rg session = (case rg_active rg of None \<Rightarrow> False | Some a \<Rightarrow> ac_id a = session)"

definition is_gone :: "registry \<Rightarrow> u64 \<Rightarrow> bool" where
  "is_gone rg session = (case rg_gone rg of None \<Rightarrow> False | Some gone \<Rightarrow> session \<le> gone)"

definition registry_stream :: "registry \<Rightarrow> bool \<Rightarrow> nat \<Rightarrow> u64 \<Rightarrow> nat \<Rightarrow> registry" where
  "registry_stream rg over now session stream =
     (if is_active rg session
      then if \<not> rg_receives rg session then registry_refuse rg stream (stop_code over WT_SESSION_GONE)
           else if length (rg_streams rg session) \<ge> STREAM_QUEUE then registry_refuse rg stream (stop_code over WT_BUFFERED_STREAM_REJECTED)
           else rg\<lparr>rg_streams := (rg_streams rg)(session := rg_streams rg session @ [stream])\<rparr>
      else if is_gone rg session then registry_refuse rg stream WT_SESSION_GONE
      else if length (rg_early rg) < MAX_EARLY then rg\<lparr>rg_early := rg_early rg @ [(now + EARLY_WAIT, session, stream)]\<rparr>
      else registry_refuse rg stream WT_BUFFERED_STREAM_REJECTED)"

definition registry_datagram :: "registry \<Rightarrow> u64 \<Rightarrow> bytes \<Rightarrow> registry" where
  "registry_datagram rg session payload =
     (if is_active rg session \<and> rg_receives rg session \<and> length (rg_datagrams rg session) < DATAGRAM_QUEUE
      then rg\<lparr>rg_datagrams := (rg_datagrams rg)(session := rg_datagrams rg session @ [payload])\<rparr> else rg)"

fun expire_early :: "registry \<Rightarrow> nat \<Rightarrow> (nat \<times> u64 \<times> nat) list \<Rightarrow> registry" where
  "expire_early rg now [] = rg\<lparr>rg_early := []\<rparr>"
| "expire_early rg now ((deadline, session, stream) # early) =
     (if deadline \<le> now then expire_early (registry_refuse rg stream WT_BUFFERED_STREAM_REJECTED) now early
      else rg\<lparr>rg_early := (deadline, session, stream) # early\<rparr>)"

definition registry_expire :: "registry \<Rightarrow> nat \<Rightarrow> registry" where
  "registry_expire rg now = expire_early rg now (rg_early rg)"

definition registry_deadline :: "registry \<Rightarrow> nat option" where
  "registry_deadline rg = (case rg_early rg of [] \<Rightarrow> None | (deadline, _) # _ \<Rightarrow> Some deadline)"

definition get_or_insert :: "'a option \<Rightarrow> 'a \<Rightarrow> 'a option" where
  "get_or_insert x v = (case x of None \<Rightarrow> Some v | Some held \<Rightarrow> Some held)"

definition registry_shutdown :: "registry \<Rightarrow> u32 \<Rightarrow> bytes \<Rightarrow> registry" where
  "registry_shutdown rg code reason =
     (let close = \<lparr>sc_code = code, sc_reason = reason\<rparr>
      in rg\<lparr>rg_active := map_option (\<lambda>a. a\<lparr>ac_close := get_or_insert (ac_close a) close\<rparr>) (rg_active rg), rg_shutdown := Some close\<rparr>)"

definition registry_take :: "registry \<Rightarrow> (u64 list \<times> nat list) \<times> registry" where
  "registry_take rg = ((rg_connects rg, rg_resets rg), rg\<lparr>rg_connects := [], rg_resets := []\<rparr>)"

definition registry_end :: "registry \<Rightarrow> (u64 list \<times> nat list) \<times> registry" where
  "registry_end rg = registry_take (rg\<lparr>rg_active := None, rg_ended := True, rg_early := []\<rparr>)"

text \<open>Whether a cancelled stream is abandoned at once.\<close>

definition registry_defer :: "registry \<Rightarrow> nat \<Rightarrow> bool \<times> registry" where
  "registry_defer rg reset = (if rg_ended rg then (True, rg) else (False, rg\<lparr>rg_resets := rg_resets rg @ [reset]\<rparr>))"

definition registry_vacant :: "registry \<Rightarrow> bool" where
  "registry_vacant rg \<longleftrightarrow> rg_active rg = None \<and> \<not> rg_ended rg"

fun route_early :: "registry \<Rightarrow> bool \<Rightarrow> nat \<Rightarrow> u64 \<Rightarrow> (nat \<times> u64 \<times> nat) list \<Rightarrow> registry" where
  "route_early rg over now ident [] = rg"
| "route_early rg over now ident ((deadline, session, stream) # early) =
     (if session = ident then route_early (registry_stream rg over now session stream) over now ident early
      else route_early (rg\<lparr>rg_early := rg_early rg @ [(deadline, session, stream)]\<rparr>) over now ident early)"

definition registry_register :: "registry \<Rightarrow> bool \<Rightarrow> nat \<Rightarrow> u64 \<Rightarrow> registry" where
  "registry_register rg over now ident =
     (let rg' = rg\<lparr>rg_active := Some \<lparr>ac_id = ident, ac_close = rg_shutdown rg\<rparr>, rg_connects := rg_connects rg @ [ident], rg_early := [],
          rg_streams := (rg_streams rg)(ident := []), rg_datagrams := (rg_datagrams rg)(ident := []), rg_receives := (rg_receives rg)(ident := True)\<rparr>
      in route_early rg' over now ident (rg_early rg))"

definition registry_request_close :: "registry \<Rightarrow> u64 \<Rightarrow> u32 \<Rightarrow> bytes \<Rightarrow> registry" where
  "registry_request_close rg ident code reason =
     (if is_active rg ident
      then rg\<lparr>rg_active := map_option (\<lambda>a. a\<lparr>ac_close := get_or_insert (ac_close a) \<lparr>sc_code = code, sc_reason = reason\<rparr>\<rparr>) (rg_active rg)\<rparr>
      else rg)"

definition registry_requested_close :: "registry \<Rightarrow> u64 \<Rightarrow> session_close option" where
  "registry_requested_close rg ident = (if is_active rg ident then Option.bind (rg_active rg) ac_close else None)"

definition registry_unregister :: "registry \<Rightarrow> u64 \<Rightarrow> registry" where
  "registry_unregister rg ident =
     rg\<lparr>rg_active := (if is_active rg ident then None else rg_active rg),
        rg_gone := Some (case rg_gone rg of None \<Rightarrow> ident | Some gone \<Rightarrow> max gone ident)\<rparr>"

subsection \<open>The model: sessions\<close>

definition connect_close :: "connect \<Rightarrow> nat \<Rightarrow> registry \<Rightarrow> nat option \<times> connect \<times> registry" where
  "connect_close c now rg =
     (case (if is_ended (cn_phase c) then Some c
            else map_option (\<lambda>close. (connect_end (c\<lparr>cn_queued := cn_queued c @ [close_capsule (sc_code close) (sc_reason close)]\<rparr>) (Inr close))
                \<lparr>cn_closed_here := True\<rparr>) (registry_requested_close rg (cn_id c))) of
        None \<Rightarrow> (None, c, rg)
      | Some c \<Rightarrow> (Some (now + CLOSE_WAIT), c\<lparr>cn_deadline := Some (now + CLOSE_WAIT)\<rparr>, registry_unregister rg (cn_id c)))"

datatype 'a poll = Pending | Is 'a

record poll_env =
  en_closed :: "h3_error option"
  en_polls :: "polled list"
  en_ready :: "(h3_error + unit) poll"
  en_finished :: bool

definition connect_opened :: "connect \<Rightarrow> connect" where
  "connect_opened c = (if cn_phase c = Opening then c\<lparr>cn_phase := Open\<rparr> else c)"

definition connect_poll :: "connect \<Rightarrow> nat \<Rightarrow> poll_env \<Rightarrow> registry \<Rightarrow> bool \<times> connect \<times> registry" where
  "connect_poll c now env rg =
     (case (case connect_read (en_closed env) c (en_polls env) of
              (None, c) \<Rightarrow>
                if cn_deadline c = None
                then (case en_ready env of Is (Inr _) \<Rightarrow> (None, connect_opened c) | Is (Inl e) \<Rightarrow> (Some e, c) | Pending \<Rightarrow> (None, c))
                else (None, c)
            | (Some e, c) \<Rightarrow> (Some e, c)) of
        (Some e, c) \<Rightarrow> (True, connect_end c (Inl e), registry_unregister rg (cn_id c))
      | (None, c) \<Rightarrow>
          (case (case cn_deadline c of Some deadline \<Rightarrow> (Some deadline, c, rg) | None \<Rightarrow> connect_close c now rg) of
             (None, c, rg) \<Rightarrow> (False, c, rg)
           | (Some deadline, c, rg) \<Rightarrow>
               if \<not> (en_finished env \<and> cn_peer_finished c) \<and> now < deadline then (False, c, rg)
               else (True, c\<lparr>cn_gone := True\<rparr>, registry_unregister rg (cn_id c))))"

text \<open>\<open>Session::register\<close>: the new CONNECT stream, unless the identifier, the budget or another session refuses it.\<close>

definition session_register :: "registry \<Rightarrow> bool \<Rightarrow> nat \<Rightarrow> u64 \<Rightarrow> bool \<Rightarrow> session_phase \<Rightarrow> (h3_error + connect) \<times> registry" where
  "session_register rg over now stream charged opened =
     (case session_id_new stream of
        None \<Rightarrow> (Inl Refused, rg)
      | Some ident \<Rightarrow>
          if charged \<and> registry_vacant rg then (Inr (connect_new ident opened), registry_register rg over now ident) else (Inl Refused, rg))"

definition accept_uni :: "registry \<Rightarrow> u64 \<Rightarrow> nat option \<times> registry" where
  "accept_uni rg ident = (case rg_streams rg ident of
       [] \<Rightarrow> (None, rg)
     | stream # rest \<Rightarrow> (Some stream, rg\<lparr>rg_streams := (rg_streams rg)(ident := rest)\<rparr>))"

definition session_drop :: "registry \<Rightarrow> bool \<Rightarrow> u64 \<Rightarrow> registry" where
  "session_drop rg over ident =
     (let rg = registry_request_close rg ident 0 [];
          rg = rg\<lparr>rg_receives := (rg_receives rg)(ident := False)\<rparr>;
          stopped = map (\<lambda>stream. (stream, stop_code over WT_SESSION_GONE)) (rg_streams rg ident)
      in rg\<lparr>rg_streams := (rg_streams rg)(ident := []), rg_stopped := rg_stopped rg @ stopped\<rparr>)"

subsection \<open>A session ends once\<close>

lemma connect_end_simps [simp]:
  "cn_id (connect_end c x) = cn_id c" "cn_failed (connect_end c x) = cn_failed c" "cn_capsules (connect_end c x) = cn_capsules c"
  "cn_input (connect_end c x) = cn_input c" "cn_deadline (connect_end c x) = cn_deadline c"
  "cn_peer_finished (connect_end c x) = cn_peer_finished c" "cn_peer_closed (connect_end c x) = cn_peer_closed c"
  "cn_closed_here (connect_end c x) = cn_closed_here c" "cn_queued (connect_end c x) = cn_queued c"
  "cn_phase (connect_end c x) = (if is_ended (cn_phase c) then cn_phase c else Ended x)"
  by (simp_all add: connect_end_def)

definition keeps_ending :: "connect \<Rightarrow> connect \<Rightarrow> bool" where
  "keeps_ending c c' \<longleftrightarrow> cn_id c' = cn_id c \<and> cn_deadline c' = cn_deadline c \<and> cn_queued c' = cn_queued c \<and> cn_closed_here c' = cn_closed_here c \<and>
     (is_ended (cn_phase c) \<longrightarrow> cn_phase c' = cn_phase c) \<and> ((cn_peer_finished c \<longrightarrow> is_ended (cn_phase c)) \<longrightarrow> cn_peer_finished c' \<longrightarrow> is_ended (cn_phase c'))"

lemma keeps_ending_refl: "keeps_ending c c"
  by (simp add: keeps_ending_def)

lemma keeps_ending_trans: "keeps_ending c d \<Longrightarrow> keeps_ending d e \<Longrightarrow> keeps_ending c e"
  by (auto simp: keeps_ending_def)

lemma keeps_ending_input: "keeps_ending c (c\<lparr>cn_capsules := r, cn_input := x\<rparr>)" "keeps_ending c (c\<lparr>cn_failed := f\<rparr>)"
    "keeps_ending c (connect_end (c\<lparr>cn_peer_closed := True\<rparr>) e)" "keeps_ending c (connect_end (c\<lparr>cn_peer_finished := True\<rparr>) e)"
  by (simp_all add: keeps_ending_def)

lemma aborted_keeps: "aborted (stream_abort closed c code) = (x, c') \<Longrightarrow> keeps_ending c c'"
  by (auto simp: aborted_def stream_abort_def Let_def keeps_ending_def)

lemma connect_read_keeps: "connect_read closed c polls = (x, c') \<Longrightarrow> keeps_ending c c'"
proof (induction closed c polls rule: connect_read.induct)
  case (1 closed c polls)
  obtain res r rest where rd: "capsule_read (cn_capsules c) (cn_input c) = (res, r, rest)" by (metis prod_cases3)
  let ?c = "c\<lparr>cn_capsules := r, cn_input := rest\<rparr>"
  note run = "1.prems" [unfolded connect_read.simps [of closed c polls]]
  note step = keeps_ending_trans [OF keeps_ending_input(1) [of c rest r]]
  consider (finished) "cn_peer_finished c" | (past) "\<not> cn_peer_finished c" "cn_peer_closed c" "cn_input c \<noteq> []"
    | (going) "\<not> cn_peer_finished c" "\<not> (cn_peer_closed c \<and> cn_input c \<noteq> [])" by blast
  then show ?case
  proof cases
    case finished
    then show ?thesis using run keeps_ending_refl by simp
  next
    case past
    then show ?thesis using run aborted_keeps by simp
  next
    case going
    note IH = "1.IH" [OF going rd [symmetric]]
    consider e where "res = Inl e" | close where "res = Inr (Some close)" | "res = Inr None" by (cases res; cases "projr res") auto
    then show ?thesis
    proof cases
      case 1
      then have "aborted (stream_abort closed ?c e) = (x, c')" using run going rd by simp
      then show ?thesis using step aborted_keeps by blast
    next
      case 2
      then have "connect_read closed (connect_end (c\<lparr>cn_capsules := r, cn_input := rest, cn_peer_closed := True\<rparr>) (Inr close)) polls = (x, c')"
        using run going rd by simp
      then have "keeps_ending (connect_end (?c\<lparr>cn_peer_closed := True\<rparr>) (Inr close)) c'" using IH(3) [OF 2 refl refl] by simp
      then show ?thesis using step keeps_ending_trans keeps_ending_input(3) by blast
    next
      case 3
      show ?thesis
      proof (cases polls)
        case Nil
        then show ?thesis using run going rd 3 keeps_ending_input(1) [of c rest r] by auto
      next
        case (Cons p ps)
        show ?thesis
        proof (cases p)
          case PollPending
          then show ?thesis using run going rd 3 Cons keeps_ending_input(1) [of c rest r] by auto
        next
          case (PollData payload)
          then have "connect_read closed (?c\<lparr>cn_input := payload\<rparr>) ps = (x, c')" using run going rd 3 Cons by simp
          then have "keeps_ending (?c\<lparr>cn_input := payload\<rparr>) c'" using IH(1) [OF 3 refl refl refl Cons PollData] by blast
          then show ?thesis by (simp add: keeps_ending_def)
        next
          case PollEnd
          show ?thesis
          proof (cases "capsule_at_boundary r")
            case True
            then have "connect_read closed (connect_end (?c\<lparr>cn_peer_finished := True\<rparr>) (Inr \<lparr>sc_code = 0, sc_reason = []\<rparr>)) ps = (x, c')"
              using run going rd 3 Cons PollEnd by simp
            then have "keeps_ending (connect_end (?c\<lparr>cn_peer_finished := True\<rparr>) (Inr \<lparr>sc_code = 0, sc_reason = []\<rparr>)) c'"
              using IH(2) [OF 3 refl refl refl Cons PollEnd True] by blast
            then show ?thesis using step keeps_ending_trans keeps_ending_input(4) by blast
          next
            case False
            then show ?thesis using run going rd 3 Cons PollEnd step aborted_keeps by simp
          qed
        next
          case (PollError e)
          then show ?thesis using run going rd 3 Cons keeps_ending_input(1) [of c rest r] by auto
        qed
      qed
    qed
  qed
qed

text \<open>The state of a session's CONNECT stream between two polls.\<close>

definition connect_inv :: "u64 \<Rightarrow> connect \<Rightarrow> bool" where
  "connect_inv ident c \<longleftrightarrow> cn_id c = ident \<and> (cn_deadline c \<noteq> None \<longleftrightarrow> is_ended (cn_phase c)) \<and> (cn_peer_finished c \<longrightarrow> is_ended (cn_phase c)) \<and>
     (if cn_closed_here c
      then \<exists>close. cn_phase c = Ended (Inr close) \<and> cn_queued c = [close_capsule (sc_code close) (sc_reason close)]
      else cn_queued c = [])"

text \<open>As long as it is not done, it is polled at any times, whatever the streams answer and happens to the registry in between.\<close>

inductive connect_polls :: "connect \<Rightarrow> connect \<Rightarrow> bool" where
  start: "connect_polls c c"
| poll: "connect_polls c d \<Longrightarrow> connect_poll d now env rg = (False, e, rg') \<Longrightarrow> connect_polls c e"

lemma unregistered: "\<not> is_active (registry_unregister rg ident) ident \<and> is_gone (registry_unregister rg ident) ident"
  by (auto simp: registry_unregister_def is_active_def is_gone_def split: option.splits)

lemma waited:
  fixes now deadline :: nat
  assumes "(if \<not> (fine \<and> cn_peer_finished d) \<and> now < deadline then (False, d, rg)
      else (True, d\<lparr>cn_gone := True\<rparr>, registry_unregister rg (cn_id d))) = (fin, c', rg')" and "cn_id d = ident"
  shows "fin \<longleftrightarrow> (fine \<and> cn_peer_finished d) \<or> deadline \<le> now" and "c' = (if fin then d\<lparr>cn_gone := True\<rparr> else d)"
    and "rg' = (if fin then registry_unregister rg ident else rg)"
  using assms by (auto simp: not_less split: if_splits)

lemma connect_close_starts:
  assumes ident: "cn_id c = ident" and idle: "\<not> cn_closed_here c" "cn_queued c = []" "cn_peer_finished c \<longrightarrow> is_ended (cn_phase c)"
    and asked: "is_ended (cn_phase c) \<or> registry_requested_close rg ident \<noteq> None"
  shows "\<exists>d. connect_close c now rg = (Some (now + CLOSE_WAIT), d, registry_unregister rg ident) \<and>
    connect_inv ident d \<and> is_ended (cn_phase d) \<and> cn_deadline d = Some (now + CLOSE_WAIT)"
proof (cases "is_ended (cn_phase c)")
  case True
  then show ?thesis using ident idle by (simp add: connect_close_def connect_inv_def)
next
  case False
  then obtain close where "registry_requested_close rg ident = Some close" using asked by blast
  then show ?thesis using False ident idle by (simp add: connect_close_def connect_inv_def)
qed

text \<open>What one poll does, by whether the stream failed and whether the session has been or is now ended.\<close>

lemma connect_poll_cases:
  assumes run: "connect_poll c now env rg = (fin, c', rg')" and inv: "connect_inv ident c"
  obtains (failed) d e where "keeps_ending c d" "fin" "c' = connect_end d (Inl e)" "rg' = registry_unregister rg ident"
  | (running) d where "keeps_ending c d" "\<not> is_ended (cn_phase d)" "\<not> fin" "cn_deadline d = None" "c' = d" "rg' = rg"
  | (closing) d rg\<^sub>1 deadline where "is_ended (cn_phase d)" "cn_deadline d = Some deadline" "connect_inv ident d"
      "is_ended (cn_phase c) \<longrightarrow> cn_phase d = cn_phase c"
      "deadline = (case cn_deadline c of None \<Rightarrow> now + CLOSE_WAIT | Some deadline \<Rightarrow> deadline)"
      "fin \<longleftrightarrow> (en_finished env \<and> cn_peer_finished d) \<or> deadline \<le> now"
      "c' = (if fin then d\<lparr>cn_gone := True\<rparr> else d)" "rg' = (if fin then registry_unregister rg\<^sub>1 ident else rg\<^sub>1)"
proof -
  obtain x d where rd: "connect_read (en_closed env) c (en_polls env) = (x, d)" by fastforce
  note keep = connect_read_keeps [OF rd]
  have ident: "cn_id d = ident" "cn_deadline d = cn_deadline c" using keep inv by (auto simp: keeps_ending_def connect_inv_def)
  define opened where "opened = (if cn_deadline d = None \<and> (\<exists>u. en_ready env = Is (Inr u)) then connect_opened d else d)"
  have keep': "keeps_ending c opened"
    using keep by (auto simp: opened_def connect_opened_def keeps_ending_def)
  show ?thesis
  proof (cases "(\<exists>e. x = Some e) \<or> x = None \<and> cn_deadline d = None \<and> (\<exists>e. en_ready env = Is (Inl e))")
    case True
    then obtain e where "(fin, c', rg') = (True, connect_end d (Inl e), registry_unregister rg ident)"
      using run rd ident by (auto simp: connect_poll_def)
    then show ?thesis using failed [OF keep, of e] by simp
  next
    case False
    then have none: "x = None" by (cases x) auto
    have go: "connect_poll c now env rg =
        (case (case cn_deadline opened of Some deadline \<Rightarrow> (Some deadline, opened, rg) | None \<Rightarrow> connect_close opened now rg) of
           (None, c, rg) \<Rightarrow> (False, c, rg)
         | (Some deadline, c, rg) \<Rightarrow>
             if \<not> (en_finished env \<and> cn_peer_finished c) \<and> now < deadline then (False, c, rg)
             else (True, c\<lparr>cn_gone := True\<rparr>, registry_unregister rg (cn_id c)))"
      using rd none False unfolding connect_poll_def opened_def by (auto split: poll.splits sum.splits)
    show ?thesis
    proof (cases "cn_deadline c")
      case (Some deadline)
      have inv': "connect_inv ident opened" using keep' inv Some by (auto simp: keeps_ending_def connect_inv_def)
      have o: "is_ended (cn_phase opened)" "cn_deadline opened = Some deadline" "is_ended (cn_phase c) \<longrightarrow> cn_phase opened = cn_phase c" "cn_id opened = ident"
        using keep' inv Some by (auto simp: keeps_ending_def connect_inv_def)
      note w = waited [of "en_finished env" opened now deadline rg fin c' rg' ident, OF run [unfolded go o(2) option.case prod.case] o(4)]
      show ?thesis by (rule closing [OF o(1,2) inv' o(3) _ w]) (simp add: Some)
    next
      case None
      have inv': "cn_id opened = ident" "cn_deadline opened = None" "\<not> cn_closed_here opened" "cn_queued opened = []"
        "cn_peer_finished opened \<longrightarrow> is_ended (cn_phase opened)" "\<not> is_ended (cn_phase c)"
        using keep' inv None by (auto simp: keeps_ending_def connect_inv_def split: if_splits)
      show ?thesis
      proof (cases "is_ended (cn_phase opened) \<or> registry_requested_close rg ident \<noteq> None")
        case False
        then have "(fin, c', rg') = (False, opened, rg)" using run go inv' by (auto simp: connect_close_def)
        then show ?thesis using running [OF keep'] False inv' by simp
      next
        case True
        obtain d' where d': "connect_close opened now rg = (Some (now + CLOSE_WAIT), d', registry_unregister rg ident)"
          and i: "connect_inv ident d'" "is_ended (cn_phase d')" "cn_deadline d' = Some (now + CLOSE_WAIT)"
          using connect_close_starts [OF inv'(1,3-5) True] by blast
        have ident: "cn_id d' = ident" using i(1) by (simp add: connect_inv_def)
        note w = waited [of "en_finished env" d' now "now + CLOSE_WAIT" "registry_unregister rg ident" fin c' rg' ident,
            OF run [unfolded go inv'(2) option.case d' prod.case] ident]
        show ?thesis by (rule closing [OF i(2,3,1) _ _ w]) (simp_all add: None inv'(6))
      qed
    qed
  qed
qed

lemma connect_poll_inv: "connect_poll c now env rg = (False, c', rg') \<Longrightarrow> connect_inv ident c \<Longrightarrow> connect_inv ident c'"
proof (erule (1) connect_poll_cases)
  fix d
  assume "keeps_ending c d" "\<not> is_ended (cn_phase d)" "cn_deadline d = None" "c' = d" and inv: "connect_inv ident c"
  then show "connect_inv ident c'" by (auto simp: keeps_ending_def connect_inv_def split: if_splits)
qed simp_all

lemma connect_polls_inv: "connect_polls c d \<Longrightarrow> connect_inv ident c \<Longrightarrow> connect_inv ident d"
  by (induction rule: connect_polls.induct) (auto intro: connect_poll_inv)

text \<open>
  C16. A session has one ending. Once a poll has ended it, by the peer's CLOSE, a bare FIN, this side's close or an error, no later poll changes how it ended.
  This side sends at most one CLOSE, exactly the one the session ended with. The poll that is done leaves the session ended, unregistered and gone for
  routing; the wait for the peer's FIN starts with the ending, lasts at most \<open>CLOSE_WAIT\<close>, and a poll at its deadline is done.
\<close>

theorem session_ends_once:
  assumes polls: "connect_polls (connect_new ident opened) c" and new: "\<not> is_ended opened" and run: "connect_poll c now env rg = (fin, c', rg')"
  shows "(\<forall>x. cn_phase c = Ended x \<longrightarrow> cn_phase c' = Ended x) \<and>
    (cn_queued c' = [] \<or> (\<exists>close. cn_phase c' = Ended (Inr close) \<and> cn_queued c' = [close_capsule (sc_code close) (sc_reason close)])) \<and>
    (fin \<longrightarrow> is_ended (cn_phase c') \<and> \<not> is_active rg' ident \<and> is_gone rg' ident) \<and>
    (\<forall>deadline. cn_deadline c = Some deadline \<and> deadline \<le> now \<longrightarrow> fin) \<and>
    (\<not> fin \<and> is_ended (cn_phase c') \<longrightarrow> cn_deadline c' = Some (case cn_deadline c of None \<Rightarrow> now + CLOSE_WAIT | Some deadline \<Rightarrow> deadline))"
proof -
  have inv: "connect_inv ident c" by (rule connect_polls_inv [OF polls]) (use new in \<open>simp add: connect_inv_def connect_new_def\<close>)
  from run inv show ?thesis
  proof (cases rule: connect_poll_cases)
    case (failed d e)
    then show ?thesis using inv unregistered by (auto simp: keeps_ending_def connect_inv_def split: if_splits)
  next
    case (running d)
    then show ?thesis using inv by (auto simp: keeps_ending_def connect_inv_def split: if_splits)
  next
    case (closing d rg\<^sub>1 deadline)
    then have sent: "cn_queued c' = [] \<or> (\<exists>close. cn_phase c' = Ended (Inr close) \<and> cn_queued c' = [close_capsule (sc_code close) (sc_reason close)])"
      by (auto simp: connect_inv_def split: if_splits)
    moreover have "\<forall>x. cn_phase c = Ended x \<longrightarrow> cn_phase c' = Ended x" using closing by simp
    ultimately show ?thesis using closing unregistered by auto
  qed
qed

definition sample_env :: poll_env where
  "sample_env = \<lparr>en_closed = None, en_polls = [PollError TimedOut], en_ready = Pending, en_finished = True\<rparr>"

theorem session_ends_once_witness:
  "fst (connect_poll (connect_new 4 Open) 5 sample_env registry_default) \<and>
   is_ended (cn_phase (fst (snd (connect_poll (connect_new 4 Open) 5 sample_env registry_default))))"
proof -
  obtain fin c' rg' where run: "connect_poll (connect_new 4 Open) 5 sample_env registry_default = (fin, c', rg')" by (metis prod_cases3)
  have "capsule_read capsule_reader_default [] = (Inr None, capsule_reader_default, [])" by code_simp
  then have "fst (connect_poll (connect_new 4 Open) 5 sample_env registry_default)"
    by (simp add: connect_poll_def sample_env_def connect_new_def connect_read.simps)
  then show ?thesis using session_ends_once [OF connect_polls.start _ run] run by simp
qed

subsection \<open>A close reaches the peer\<close>









end
