(* ===== verification/Routing.thy ===== *)
theory Routing
  imports Sessions "HOL-Library.Multiset"
begin

text \<open>
  What the registry of a connection does with the streams and datagrams of its peer, over every sequence of calls: each stream is accounted for,
  goes only to the session it names, and what waits is bounded in number and in time.
\<close>

subsection \<open>A connection's calls\<close>


text \<open>
  A connection: its registry, the clock, and what was offered to it (each stream with the session it names), taken by a session, or lost with the connection.
\<close>

record connection =
  cx_reg :: registry
  cx_now :: nat
  cx_sessions :: "u64 list"
  cx_offered :: "(nat \<times> u64) list"
  cx_taken :: "(nat \<times> u64) list"
  cx_lost :: "nat list"

definition connection_start :: connection where
  "connection_start = \<lparr>cx_reg = registry_default, cx_now = 0, cx_sessions = [], cx_offered = [], cx_taken = [], cx_lost = []\<rparr>"

text \<open>Each call of the registry is one step, as its lock makes it. A stream's identifier names one session.\<close>

inductive connection_step :: "connection \<Rightarrow> connection \<Rightarrow> bool" where
  tick: "cx_now x \<le> now \<Longrightarrow> connection_step x (x\<lparr>cx_now := now\<rparr>)"
| stream: "connection_step x (x\<lparr>cx_reg := registry_stream (cx_reg x) over (cx_now x) session s, cx_offered := cx_offered x @ [(s, session)]\<rparr>)"
| datagram: "connection_step x (x\<lparr>cx_reg := registry_datagram (cx_reg x) session payload\<rparr>)"
| expire: "connection_step x (x\<lparr>cx_reg := registry_expire (cx_reg x) (cx_now x)\<rparr>)"
| shutdown: "connection_step x (x\<lparr>cx_reg := registry_shutdown (cx_reg x) code reason\<rparr>)"
| take: "connection_step x (x\<lparr>cx_reg := snd (registry_take (cx_reg x))\<rparr>)"
| ended: "connection_step x (x\<lparr>cx_reg := snd (registry_end (cx_reg x)), cx_lost := cx_lost x @ map (snd \<circ> snd) (rg_early (cx_reg x))\<rparr>)"
| cancelled: "connection_step x (x\<lparr>cx_reg := snd (registry_defer (cx_reg x) reset)\<rparr>)"
| register: "session_register (cx_reg x) over (cx_now x) ident charged opened = (Inr c, rg) \<Longrightarrow> ident \<notin> set (cx_sessions x) \<Longrightarrow>
    connection_step x (x\<lparr>cx_reg := rg, cx_sessions := cx_sessions x @ [ident]\<rparr>)"
| request_close: "connection_step x (x\<lparr>cx_reg := registry_request_close (cx_reg x) ident code reason\<rparr>)"
| unregister: "connection_step x (x\<lparr>cx_reg := registry_unregister (cx_reg x) ident\<rparr>)"
| accept: "accept_uni (cx_reg x) ident = (Some s, rg) \<Longrightarrow> connection_step x (x\<lparr>cx_reg := rg, cx_taken := cx_taken x @ [(s, ident)]\<rparr>)"
| drop: "connection_step x (x\<lparr>cx_reg := session_drop (cx_reg x) over ident\<rparr>)"

definition connection_reaches :: "connection \<Rightarrow> bool" where
  "connection_reaches x \<longleftrightarrow> connection_step\<^sup>*\<^sup>* connection_start x"

text \<open>Where the streams offered so far are.\<close>

definition waiting :: "registry \<Rightarrow> u64 list \<Rightarrow> (nat \<times> u64) list" where
  "waiting rg sessions = concat (map (\<lambda>i. map (\<lambda>s. (s, i)) (rg_streams rg i)) sessions)"

definition early_streams :: "(nat \<times> u64 \<times> nat) list \<Rightarrow> (nat \<times> u64) list" where
  "early_streams early = map (\<lambda>(_, session, s). (s, session)) early"

definition held :: "registry \<Rightarrow> u64 list \<Rightarrow> (nat \<times> u64) multiset" where
  "held rg sessions = mset (waiting rg sessions) + mset (early_streams (rg_early rg))"

definition flow :: "registry \<Rightarrow> u64 list \<Rightarrow> nat multiset" where
  "flow rg sessions = image_mset fst (held rg sessions) + mset (map fst (rg_stopped rg))"

lemma waiting_cong: "rg_streams rg = rg_streams rg' \<Longrightarrow> waiting rg sessions = waiting rg' sessions"
  by (simp add: waiting_def)

lemma waiting_other: "i \<notin> set is \<Longrightarrow> concat (map (\<lambda>j. map (\<lambda>s. (s, j)) ((f(i := ss)) j)) is) = concat (map (\<lambda>j. map (\<lambda>s. (s, j)) (f j)) is)"
  by (induction "is") auto

lemma waiting_update:
  assumes "i \<in> set is" and "distinct is"
  shows "mset (concat (map (\<lambda>j. map (\<lambda>s. (s, j)) ((f(i := ss)) j)) is)) + mset (map (\<lambda>s. (s, i)) (f i)) =
    mset (concat (map (\<lambda>j. map (\<lambda>s. (s, j)) (f j)) is)) + mset (map (\<lambda>s. (s, i)) ss)"
  using assms
proof (induction "is")
  case (Cons k ks)
  then show ?case using waiting_other [of i ks f ss] by (cases "k = i") (auto simp del: fun_upd_apply simp: fun_upd_same fun_upd_other)
qed simp

lemma waiting_streams:
  assumes "i \<in> set sessions" and "distinct sessions"
  shows "mset (waiting (rg\<lparr>rg_streams := (rg_streams rg)(i := ss)\<rparr>) sessions) + mset (map (\<lambda>s. (s, i)) (rg_streams rg i)) =
    mset (waiting rg sessions) + mset (map (\<lambda>s. (s, i)) ss)"
  using waiting_update [OF assms, of "rg_streams rg" ss] by (simp add: waiting_def del: fun_upd_apply)

lemma held_updates [simp]:
  "held (rg\<lparr>rg_stopped := x\<rparr>) sessions = held rg sessions" "held (rg\<lparr>rg_active := a\<rparr>) sessions = held rg sessions"
  "held (rg\<lparr>rg_datagrams := d\<rparr>) sessions = held rg sessions" "held (rg\<lparr>rg_shutdown := c\<rparr>) sessions = held rg sessions"
  "held (rg\<lparr>rg_connects := l\<rparr>) sessions = held rg sessions" "held (rg\<lparr>rg_resets := m\<rparr>) sessions = held rg sessions"
  "held (rg\<lparr>rg_gone := g\<rparr>) sessions = held rg sessions" "held (rg\<lparr>rg_receives := v\<rparr>) sessions = held rg sessions"
  "held (rg\<lparr>rg_ended := e\<rparr>) sessions = held rg sessions"
  by (simp_all add: held_def waiting_def)

text \<open>A stream that is routed is held for the session it names, or stopped.\<close>

lemma registry_stream_cases:
  obtains (stopped) code where "registry_stream rg over now session s = registry_refuse rg s code"
  | (queued) "is_active rg session" "rg_receives rg session" "length (rg_streams rg session) < STREAM_QUEUE"
      "registry_stream rg over now session s = rg\<lparr>rg_streams := (rg_streams rg)(session := rg_streams rg session @ [s])\<rparr>"
  | (early) "\<not> is_active rg session" "\<not> is_gone rg session" "length (rg_early rg) < MAX_EARLY"
      "registry_stream rg over now session s = rg\<lparr>rg_early := rg_early rg @ [(now + EARLY_WAIT, session, s)]\<rparr>"
proof (cases "is_active rg session")
  case True
  then show ?thesis using stopped queued by (cases "rg_receives rg session"; cases "length (rg_streams rg session) < STREAM_QUEUE") (auto simp: registry_stream_def)
next
  case False
  then show ?thesis using stopped early by (cases "is_gone rg session"; cases "length (rg_early rg) < MAX_EARLY") (auto simp: registry_stream_def)
qed

definition active_known :: "registry \<Rightarrow> u64 list \<Rightarrow> bool" where
  "active_known rg sessions \<longleftrightarrow> distinct sessions \<and> (\<forall>i. is_active rg i \<longrightarrow> i \<in> set sessions)"

lemma registry_stream_flow:
  assumes "active_known rg sessions"
  shows "flow (registry_stream rg over now session s) sessions = add_mset s (flow rg sessions)"
    and "set_mset (held (registry_stream rg over now session s) sessions) \<subseteq> insert (s, session) (set_mset (held rg sessions))"
proof -
  have "flow (registry_stream rg over now session s) sessions = add_mset s (flow rg sessions) \<and>
      set_mset (held (registry_stream rg over now session s) sessions) \<subseteq> insert (s, session) (set_mset (held rg sessions))"
  proof (cases rule: registry_stream_cases [of rg over now session s])
    case (stopped code)
    then show ?thesis by (auto simp: registry_refuse_def flow_def)
  next
    case queued
    then have "session \<in> set sessions" "distinct sessions" using assms by (auto simp: active_known_def)
    from waiting_streams [OF this, of rg "rg_streams rg session @ [s]"]
    have "held (registry_stream rg over now session s) sessions = add_mset (s, session) (held rg sessions)"
      using queued(4) by (simp add: held_def del: fun_upd_apply)
    then show ?thesis using queued(4) by (auto simp: flow_def)
  next
    case early
    then have "held (registry_stream rg over now session s) sessions = add_mset (s, session) (held rg sessions)"
      by (simp add: held_def early_streams_def waiting_def)
    then show ?thesis using early(4) by (auto simp: flow_def)
  qed
  then show "flow (registry_stream rg over now session s) sessions = add_mset s (flow rg sessions)"
    and "set_mset (held (registry_stream rg over now session s) sessions) \<subseteq> insert (s, session) (set_mset (held rg sessions))" by auto
qed

subsection \<open>The invariant\<close>

definition registry_ok :: "registry \<Rightarrow> nat \<Rightarrow> u64 list \<Rightarrow> bool" where
  "registry_ok rg now sessions \<longleftrightarrow> active_known rg sessions \<and>
     (\<forall>i. i \<notin> set sessions \<longrightarrow> rg_streams rg i = []) \<and>
     (\<forall>i. length (rg_streams rg i) \<le> STREAM_QUEUE \<and> length (rg_datagrams rg i) \<le> DATAGRAM_QUEUE) \<and>
     length (rg_early rg) \<le> MAX_EARLY \<and> sorted (map fst (rg_early rg)) \<and>
     (\<forall>(d, i, s) \<in> set (rg_early rg). d \<le> now + EARLY_WAIT \<and> \<not> is_active rg i) \<and>
     (\<forall>a. rg_active rg = Some a \<and> rg_shutdown rg \<noteq> None \<longrightarrow> ac_close a \<noteq> None)"

lemma registry_ok_streams:
  assumes "registry_ok rg now sessions"
  shows "registry_ok (registry_stream rg over now session s) now sessions"
proof (cases rule: registry_stream_cases [of rg over now session s])
  case (stopped code)
  then show ?thesis using assms by (simp add: registry_refuse_def registry_ok_def active_known_def is_active_def)
next
  case queued
  then show ?thesis using assms by (auto simp: registry_ok_def active_known_def is_active_def)
next
  case early
  have "\<forall>d \<in> set (map fst (rg_early rg)). d \<le> now + EARLY_WAIT" using assms by (auto simp: registry_ok_def)
  then have "sorted (map fst (rg_early rg) @ [now + EARLY_WAIT])" using assms by (simp add: registry_ok_def sorted_append)
  then show ?thesis using assms early by (auto simp: registry_ok_def active_known_def is_active_def)
qed

lemma expire_early:
  "expire_early rg now early = rg\<lparr>rg_early := dropWhile (\<lambda>(d, _). d \<le> now) early,
     rg_stopped := rg_stopped rg @ map (\<lambda>(_, _, s). (s, WT_BUFFERED_STREAM_REJECTED)) (takeWhile (\<lambda>(d, _). d \<le> now) early)\<rparr>"
  by (induction early arbitrary: rg) (auto simp: registry_refuse_def)

lemma early_split: "early_streams (takeWhile P early) @ early_streams (dropWhile P early) = early_streams early"
  unfolding early_streams_def map_append [symmetric] takeWhile_dropWhile_id ..

lemma expire_flow: "flow (registry_expire rg now) sessions = flow rg sessions"
  and expire_held: "set_mset (held (registry_expire rg now) sessions) \<subseteq> set_mset (held rg sessions)"
proof -
  let ?e = "takeWhile (\<lambda>(d, _). d \<le> now) (rg_early rg)" and ?l = "dropWhile (\<lambda>(d, _). d \<le> now) (rg_early rg)"
  have split: "mset (early_streams (rg_early rg)) = mset (early_streams ?e) + mset (early_streams ?l)"
    using early_split [of "\<lambda>(d, _). d \<le> now" "rg_early rg"] by (metis mset_append)
  have stopped: "map (fst \<circ> (\<lambda>(_, _, s). (s, WT_BUFFERED_STREAM_REJECTED))) ?e = map fst (early_streams ?e)" by (auto simp: early_streams_def)
  have held: "held rg sessions = held (registry_expire rg now) sessions + mset (early_streams ?e)"
    using split by (simp add: held_def registry_expire_def expire_early waiting_def)
  show "flow (registry_expire rg now) sessions = flow rg sessions"
    unfolding flow_def held by (simp add: registry_expire_def expire_early stopped)
  show "set_mset (held (registry_expire rg now) sessions) \<subseteq> set_mset (held rg sessions)" unfolding held by simp
qed

lemma expire_ok: "registry_ok rg now sessions \<Longrightarrow> registry_ok (registry_expire rg now) now sessions"
proof -
  assume ok: "registry_ok rg now sessions"
  let ?l = "dropWhile (\<lambda>(d, _). d \<le> now) (rg_early rg)"
  have "set ?l \<subseteq> set (rg_early rg)" using set_dropWhileD by fastforce
  moreover have "sorted (map fst ?l)" using ok sorted_dropWhile [of "map fst (rg_early rg)" "\<lambda>d. d \<le> now"]
    by (simp add: registry_ok_def dropWhile_map comp_def case_prod_unfold)
  moreover have "length ?l \<le> MAX_EARLY" using ok length_dropWhile_le [of _ "rg_early rg"] by (auto simp: registry_ok_def intro: le_trans)
  ultimately show ?thesis using ok by (auto simp: registry_ok_def active_known_def is_active_def registry_expire_def expire_early)
qed

lemma registry_stream_keeps:
  "rg_active (registry_stream rg over now i s) = rg_active rg" "rg_shutdown (registry_stream rg over now i s) = rg_shutdown rg"
  "is_active rg i \<Longrightarrow> rg_early (registry_stream rg over now i s) = rg_early rg"
  by (auto simp: registry_stream_def registry_refuse_def)

lemma route_early:
  assumes "registry_ok rg now sessions" and "is_active rg ident"
    and "sorted (map fst (rg_early rg @ early))" "length (rg_early rg @ early) \<le> MAX_EARLY" "\<forall>(d, i, s) \<in> set early. d \<le> now + EARLY_WAIT"
  shows "registry_ok (route_early rg over now ident early) now sessions \<and>
    flow (route_early rg over now ident early) sessions = flow rg sessions + mset (map (snd \<circ> snd) early) \<and>
    set_mset (held (route_early rg over now ident early) sessions) \<subseteq> set_mset (held rg sessions) \<union> set (early_streams early)"
  using assms
proof (induction early arbitrary: rg)
  case (Cons e early)
  obtain d i s where e: "e = (d, i, s)" by (cases e)
  let ?rg = "if i = ident then registry_stream rg over now i s else rg\<lparr>rg_early := rg_early rg @ [(d, i, s)]\<rparr>"
  have known: "active_known rg sessions" using Cons.prems(1) by (simp add: registry_ok_def)
  have step: "registry_ok ?rg now sessions \<and> is_active ?rg ident \<and> rg_early ?rg = rg_early rg @ (if i = ident then [] else [e]) \<and>
      flow ?rg sessions = add_mset s (flow rg sessions) \<and> set_mset (held ?rg sessions) \<subseteq> insert (s, i) (set_mset (held rg sessions))"
  proof (cases "i = ident")
    case True
    then show ?thesis using Cons.prems(1,2) registry_ok_streams registry_stream_flow [OF known] registry_stream_keeps
      by (simp add: is_active_def)
  next
    case False
    have "\<not> is_active rg i" using False Cons.prems(2) by (auto simp: is_active_def split: option.splits)
    then have "registry_ok (rg\<lparr>rg_early := rg_early rg @ [(d, i, s)]\<rparr>) now sessions"
      using Cons.prems e by (auto simp: registry_ok_def active_known_def is_active_def sorted_append)
    moreover have "held (rg\<lparr>rg_early := rg_early rg @ [(d, i, s)]\<rparr>) sessions = add_mset (s, i) (held rg sessions)"
      by (simp add: held_def early_streams_def waiting_def)
    ultimately show ?thesis using False e Cons.prems(2) by (auto simp: flow_def is_active_def)
  qed
  have "sorted (map fst (rg_early ?rg @ early)) \<and> length (rg_early ?rg @ early) \<le> MAX_EARLY"
    using step Cons.prems(3,4) e by (auto simp: sorted_append)
  note IH = Cons.IH [of ?rg, OF conjunct1 [OF step] conjunct1 [OF conjunct2 [OF step]] conjunct1 [OF this] conjunct2 [OF this]]
  have "route_early rg over now ident (e # early) = route_early ?rg over now ident early" by (simp add: e)
  then show ?case using IH Cons.prems(5) step e by (auto simp: early_streams_def)
qed (simp add: early_streams_def)

definition connection_inv :: "connection \<Rightarrow> bool" where
  "connection_inv x \<longleftrightarrow> registry_ok (cx_reg x) (cx_now x) (cx_sessions x) \<and>
     mset (map fst (cx_offered x)) = flow (cx_reg x) (cx_sessions x) + mset (map fst (cx_taken x)) + mset (cx_lost x) \<and>
     set_mset (held (cx_reg x) (cx_sessions x)) \<union> set (cx_taken x) \<subseteq> set (cx_offered x)"

text \<open>Calls that leave every stream where it is.\<close>

lemma quiet_step:
  assumes "connection_inv x" and "registry_ok rg (cx_now x) (cx_sessions x)" and "held rg (cx_sessions x) = held (cx_reg x) (cx_sessions x)"
    and "rg_stopped rg = rg_stopped (cx_reg x)"
  shows "connection_inv (x\<lparr>cx_reg := rg\<rparr>)"
  using assms by (simp add: connection_inv_def flow_def)

lemma register_step:
  assumes inv: "connection_inv x" and run: "session_register (cx_reg x) over (cx_now x) ident charged opened = (Inr c, rg)" and new: "ident \<notin> set (cx_sessions x)"
  shows "connection_inv (x\<lparr>cx_reg := rg, cx_sessions := cx_sessions x @ [ident]\<rparr>)"
proof -
  let ?rg = "cx_reg x" and ?all = "cx_sessions x @ [ident]"
  let ?rg\<^sub>0 = "?rg\<lparr>rg_active := Some \<lparr>ac_id = ident, ac_close = rg_shutdown ?rg\<rparr>, rg_connects := rg_connects ?rg @ [ident], rg_early := [],
    rg_streams := (rg_streams ?rg)(ident := []), rg_datagrams := (rg_datagrams ?rg)(ident := []), rg_receives := (rg_receives ?rg)(ident := True)\<rparr>"
  have rg: "rg = route_early ?rg\<^sub>0 over (cx_now x) ident (rg_early ?rg)"
    using run by (auto simp: session_register_def session_id_new_def registry_register_def Let_def split: option.splits if_splits)
  have ok: "registry_ok ?rg (cx_now x) (cx_sessions x)" using inv by (simp add: connection_inv_def)
  have wait: "waiting ?rg\<^sub>0 ?all = waiting ?rg (cx_sessions x)"
    using waiting_other [OF new, of "rg_streams ?rg" "[]"] by (simp add: waiting_def)
  have "registry_ok ?rg\<^sub>0 (cx_now x) ?all" using ok new by (auto simp: registry_ok_def active_known_def is_active_def)
  moreover have "is_active ?rg\<^sub>0 ident" by (simp add: is_active_def)
  moreover have "sorted (map fst (rg_early ?rg\<^sub>0 @ rg_early ?rg)) \<and> length (rg_early ?rg\<^sub>0 @ rg_early ?rg) \<le> MAX_EARLY"
    using ok by (simp add: registry_ok_def)
  moreover have "\<forall>(d, i, s) \<in> set (rg_early ?rg). d \<le> cx_now x + EARLY_WAIT" using ok by (auto simp: registry_ok_def)
  ultimately have routed: "registry_ok rg (cx_now x) ?all \<and> flow rg ?all = flow ?rg\<^sub>0 ?all + mset (map (snd \<circ> snd) (rg_early ?rg)) \<and>
      set_mset (held rg ?all) \<subseteq> set_mset (held ?rg\<^sub>0 ?all) \<union> set (early_streams (rg_early ?rg))"
    unfolding rg using route_early by blast
  have early: "map (snd \<circ> snd) (rg_early ?rg) = map fst (early_streams (rg_early ?rg))" by (auto simp: early_streams_def)
  have held: "held ?rg\<^sub>0 ?all = mset (waiting ?rg (cx_sessions x))" by (simp add: held_def wait early_streams_def)
  then have "flow rg ?all = flow ?rg (cx_sessions x)" using routed unfolding early by (simp add: flow_def held_def)
  moreover have "set_mset (held rg ?all) \<subseteq> set_mset (held ?rg (cx_sessions x))"
  proof -
    have "set_mset (held rg ?all) \<subseteq> set (waiting ?rg (cx_sessions x)) \<union> set (early_streams (rg_early ?rg))" using routed unfolding held by simp
    also have "\<dots> = set_mset (held ?rg (cx_sessions x))" by (simp add: held_def)
    finally show ?thesis .
  qed
  ultimately show ?thesis using inv routed by (auto simp: connection_inv_def)
qed

lemma accept_step:
  assumes inv: "connection_inv x" and run: "accept_uni (cx_reg x) ident = (Some s, rg)"
  shows "connection_inv (x\<lparr>cx_reg := rg, cx_taken := cx_taken x @ [(s, ident)]\<rparr>)"
proof -
  obtain rest where q: "rg_streams (cx_reg x) ident = s # rest" and rg: "rg = (cx_reg x)\<lparr>rg_streams := (rg_streams (cx_reg x))(ident := rest)\<rparr>"
    using run by (auto simp: accept_uni_def split: list.splits)
  have ok: "registry_ok (cx_reg x) (cx_now x) (cx_sessions x)" using inv by (simp add: connection_inv_def)
  then have known: "ident \<in> set (cx_sessions x)" "distinct (cx_sessions x)" using q by (auto simp: registry_ok_def active_known_def)
  have "length (s # rest) \<le> STREAM_QUEUE" using ok unfolding registry_ok_def q [symmetric] by blast
  then have "registry_ok rg (cx_now x) (cx_sessions x)" using ok known rg by (auto simp: registry_ok_def active_known_def is_active_def)
  moreover have held: "held (cx_reg x) (cx_sessions x) = add_mset (s, ident) (held rg (cx_sessions x))"
    using waiting_streams [OF known, of "cx_reg x" rest] q rg by (simp add: held_def del: fun_upd_apply)
  ultimately show ?thesis using inv rg by (auto simp: connection_inv_def flow_def)
qed

lemma drop_step:
  assumes inv: "connection_inv x"
  shows "connection_inv (x\<lparr>cx_reg := session_drop (cx_reg x) over ident\<rparr>)"
proof -
  let ?rg = "cx_reg x" and ?is = "cx_sessions x" and ?d = "session_drop (cx_reg x) over ident"
  have ok: "registry_ok ?rg (cx_now x) ?is" using inv by (simp add: connection_inv_def)
  have d: "rg_streams ?d = (rg_streams ?rg)(ident := [])" "rg_early ?d = rg_early ?rg" "rg_datagrams ?d = rg_datagrams ?rg" "rg_shutdown ?d = rg_shutdown ?rg"
    "rg_stopped ?d = rg_stopped ?rg @ map (\<lambda>s. (s, stop_code over WT_SESSION_GONE)) (rg_streams ?rg ident)"
    "is_active ?d = is_active ?rg"
    by (auto simp: session_drop_def registry_request_close_def Let_def is_active_def fun_eq_iff split: option.splits)
  have "\<forall>a. rg_active ?d = Some a \<and> rg_shutdown ?d \<noteq> None \<longrightarrow> ac_close a \<noteq> None"
    using ok by (auto simp: registry_ok_def session_drop_def registry_request_close_def Let_def get_or_insert_def split: option.splits)
  then have "registry_ok ?d (cx_now x) ?is" using ok unfolding registry_ok_def active_known_def d by auto
  moreover have held: "held ?rg ?is = held ?d ?is + mset (map (\<lambda>s. (s, ident)) (rg_streams ?rg ident))"
  proof (cases "ident \<in> set ?is")
    case True
    then show ?thesis using waiting_streams [OF True, of ?rg "[]"] ok
      by (simp add: held_def d waiting_def registry_ok_def active_known_def del: fun_upd_apply)
  next
    case False
    then show ?thesis using waiting_other [OF False, of "rg_streams ?rg" "[]"] ok by (simp add: held_def d waiting_def registry_ok_def del: fun_upd_apply)
  qed
  moreover have "map fst (map (\<lambda>s. (s, ident)) (rg_streams ?rg ident)) = rg_streams ?rg ident"
    and "map fst (map (\<lambda>s. (s, stop_code over WT_SESSION_GONE)) (rg_streams ?rg ident)) = rg_streams ?rg ident" by (simp_all add: comp_def)
  then have "flow ?d ?is = flow ?rg ?is" unfolding flow_def held d image_mset_union mset_map [symmetric] map_append mset_append by simp
  ultimately show ?thesis using inv by (auto simp: connection_inv_def)
qed

lemma connection_step_inv: "connection_step x y \<Longrightarrow> connection_inv x \<Longrightarrow> connection_inv y"
proof (induction rule: connection_step.induct)
  case (tick x now)
  then show ?case by (fastforce simp: connection_inv_def registry_ok_def)
next
  case (stream x s session over)
  then have "active_known (cx_reg x) (cx_sessions x)" by (simp add: connection_inv_def registry_ok_def)
  note flow = registry_stream_flow [OF this, of over "cx_now x" session s]
  show ?case using stream flow registry_ok_streams by (auto simp: connection_inv_def)
next
  case (datagram x session payload)
  then show ?case by (intro quiet_step) (auto simp: connection_inv_def registry_ok_def active_known_def is_active_def registry_datagram_def)
next
  case (expire x)
  then show ?case using expire_flow expire_ok expire_held [of "cx_reg x" "cx_now x" "cx_sessions x"] by (auto simp: connection_inv_def)
next
  case (shutdown x code reason)
  then show ?case
    by (intro quiet_step) (auto simp: connection_inv_def registry_ok_def active_known_def is_active_def registry_shutdown_def get_or_insert_def Let_def
        split: option.splits)
next
  case (take x)
  then show ?case by (intro quiet_step) (auto simp: connection_inv_def registry_ok_def active_known_def is_active_def registry_take_def)
next
  case (ended x)
  let ?rg = "snd (registry_end (cx_reg x))"
  have "registry_ok ?rg (cx_now x) (cx_sessions x)"
    using ended by (auto simp: connection_inv_def registry_ok_def active_known_def is_active_def registry_end_def registry_take_def)
  moreover have held: "held (cx_reg x) (cx_sessions x) = held ?rg (cx_sessions x) + mset (early_streams (rg_early (cx_reg x)))"
    by (simp add: held_def waiting_def early_streams_def registry_end_def registry_take_def)
  moreover have "map (snd \<circ> snd) (rg_early (cx_reg x)) = map fst (early_streams (rg_early (cx_reg x)))" by (auto simp: early_streams_def)
  then have "flow (cx_reg x) (cx_sessions x) = flow ?rg (cx_sessions x) + mset (map (snd \<circ> snd) (rg_early (cx_reg x)))"
    unfolding flow_def held by (simp add: registry_end_def registry_take_def)
  ultimately show ?case using ended by (auto simp: connection_inv_def)
next
  case (cancelled x reset)
  then show ?case by (intro quiet_step) (auto simp: connection_inv_def registry_ok_def active_known_def is_active_def registry_defer_def)
next
  case (register x over ident charged opened c rg)
  then show ?case by (intro register_step)
next
  case (request_close x ident code reason)
  then show ?case
    by (intro quiet_step) (auto simp: connection_inv_def registry_ok_def active_known_def is_active_def registry_request_close_def get_or_insert_def
        split: option.splits)
next
  case (unregister x ident)
  then show ?case
    by (intro quiet_step) (auto simp: connection_inv_def registry_ok_def active_known_def is_active_def registry_unregister_def split: option.splits)
next
  case (accept x ident s rg)
  then show ?case by (intro accept_step)
next
  case (drop x over ident)
  then show ?case by (intro drop_step)
qed

lemma connection_reaches_inv: "connection_reaches x \<Longrightarrow> connection_inv x"
proof -
  have start: "connection_inv connection_start"
    by (simp add: connection_inv_def connection_start_def registry_default_def registry_ok_def active_known_def is_active_def flow_def held_def waiting_def early_streams_def)
  assume "connection_reaches x"
  then have "connection_step\<^sup>*\<^sup>* connection_start x" by (simp add: connection_reaches_def)
  then show ?thesis using start by (induction rule: rtranclp_induct) (auto intro: connection_step_inv)
qed

subsection \<open>Properties\<close>

lemma sorted_late: "sorted (map fst early) \<Longrightarrow> \<forall>(d, i, s) \<in> set (dropWhile (\<lambda>(d, _). d \<le> (now :: nat)) early). now < d"
  by (induction early) (auto simp: not_le split: if_splits)

text \<open>
  C14. Whatever calls the registry gets, every stream the peer opens is accounted for: it waits for the session it names, was taken by that session, was stopped,
  waits for its session to come, or went with the connection, and never two of these. What waits is within the bounds of the queues, early streams at
  most \<open>EARLY_WAIT\<close>, none of them for the current session; and after a shutdown the current session has a close.
\<close>

theorem registry_routes:
  assumes "connection_reaches x"
  shows "mset (map fst (cx_offered x)) = mset (map fst (waiting (cx_reg x) (cx_sessions x))) + mset (map fst (early_streams (rg_early (cx_reg x)))) +
      mset (map fst (rg_stopped (cx_reg x))) + mset (map fst (cx_taken x)) + mset (cx_lost x) \<and>
    set (waiting (cx_reg x) (cx_sessions x)) \<union> set (cx_taken x) \<subseteq> set (cx_offered x) \<and>
    length (rg_early (cx_reg x)) \<le> MAX_EARLY \<and> (\<forall>i. length (rg_streams (cx_reg x) i) \<le> STREAM_QUEUE \<and> length (rg_datagrams (cx_reg x) i) \<le> DATAGRAM_QUEUE) \<and>
    (\<forall>(d, i, s) \<in> set (rg_early (registry_expire (cx_reg x) (cx_now x))). cx_now x < d \<and> d \<le> cx_now x + EARLY_WAIT \<and> \<not> is_active (cx_reg x) i) \<and>
    (\<forall>a. rg_active (cx_reg x) = Some a \<and> rg_shutdown (cx_reg x) \<noteq> None \<longrightarrow> registry_requested_close (cx_reg x) (ac_id a) \<noteq> None)"
proof -
  let ?rg = "cx_reg x" and ?now = "cx_now x"
  note inv = connection_reaches_inv [OF assms]
  then have ok: "registry_ok ?rg ?now (cx_sessions x)" by (simp add: connection_inv_def)
  let ?l = "dropWhile (\<lambda>(d, _). d \<le> ?now) (rg_early ?rg)"
  have l: "rg_early (registry_expire ?rg ?now) = ?l" by (simp add: registry_expire_def expire_early)
  have late: "\<forall>(d, i, s) \<in> set ?l. ?now < d" by (rule sorted_late) (use ok in \<open>simp add: registry_ok_def\<close>)
  have "set ?l \<subseteq> set (rg_early ?rg)" using set_dropWhileD by fastforce
  then have "\<forall>(d, i, s) \<in> set ?l. d \<le> ?now + EARLY_WAIT \<and> \<not> is_active ?rg i" using ok by (auto simp: registry_ok_def)
  then have "\<forall>(d, i, s) \<in> set ?l. ?now < d \<and> d \<le> ?now + EARLY_WAIT \<and> \<not> is_active ?rg i" using late by blast
  moreover have "\<forall>a. rg_active ?rg = Some a \<and> rg_shutdown ?rg \<noteq> None \<longrightarrow> registry_requested_close ?rg (ac_id a) \<noteq> None"
    using ok by (auto simp: registry_ok_def registry_requested_close_def is_active_def)
  moreover have "mset (map fst (cx_offered x)) = mset (map fst (waiting ?rg (cx_sessions x))) + mset (map fst (early_streams (rg_early ?rg))) +
      mset (map fst (rg_stopped ?rg)) + mset (map fst (cx_taken x)) + mset (cx_lost x)"
    using inv by (simp add: connection_inv_def flow_def held_def)
  moreover have "set (waiting ?rg (cx_sessions x)) \<union> set (cx_taken x) \<subseteq> set (cx_offered x)" using inv by (auto simp: connection_inv_def held_def)
  ultimately show ?thesis using ok unfolding l registry_ok_def by blast
qed

theorem registry_routes_witness:
  "\<exists>x :: connection. connection_reaches x \<and> cx_offered x = [(9, 4)] \<and> rg_early (cx_reg x) = [(5 * 1000000000, 4, 9)] \<and> waiting (cx_reg x) (cx_sessions x) = [] \<and> cx_taken x = []"
proof -
  let ?x = "connection_start\<lparr>cx_reg := registry_stream (cx_reg connection_start) False (cx_now connection_start) 4 9,
    cx_offered := cx_offered connection_start @ [(9, 4)]\<rparr>"
  have x: "rg_early (cx_reg ?x) = [(5 * 1000000000, 4, 9)]" "cx_offered ?x = [(9, 4)]" "cx_taken ?x = []"
    by (simp_all add: connection_start_def registry_stream_def registry_default_def is_active_def is_gone_def MAX_EARLY_def EARLY_WAIT_def)
  have reached: "connection_reaches ?x" unfolding connection_reaches_def by (rule r_into_rtranclp) (rule connection_step.stream)
  from registry_routes [OF reached] have "mset (map fst (waiting (cx_reg ?x) (cx_sessions ?x))) = {#}"
    unfolding x by (simp add: early_streams_def)
  then have "waiting (cx_reg ?x) (cx_sessions ?x) = []" by (simp only: mset_zero_iff map_is_Nil_conv)
  then show ?thesis using x reached by blast
qed

end
