(* ===== verification/Control.thy ===== *)
theory Control
  imports Settings Sessions
begin

text \<open>
  The control streams of a connection, \<^verbatim>\<open>rust/http3/src/driver.rs\<close>: the reader of the peer's one, the types of the peer's unidirectional streams, and what a
  server's driver writes on its own when it goes away, with the requests it then admits. The callback of the reader, \<open>Shared::control\<close>, is the check it makes.
\<close>

subsection \<open>The model: the peer's streams\<close>

definition role_peer :: "role \<Rightarrow> role" where
  "role_peer r = (case r of Server \<Rightarrow> Client | Client \<Rightarrow> Server)"

text \<open>\<open>is_multiple_of(4)\<close>: the identifier of a client's bidirectional stream.\<close>

definition multiple_of_4 :: "u64 \<Rightarrow> bool" where
  "multiple_of_4 ident \<longleftrightarrow> ident mod 4 = 0"

datatype control_event = CtSettings peer | CtGoaway

record control_reader =
  ct_frames :: frame_reader
  ct_settings :: "settings_reader option"
  ct_started :: bool
  ct_kind :: u64
  ct_value :: partial
  ct_goaway :: "u64 option"

definition control_reader_default :: control_reader where
  "control_reader_default = \<lparr>ct_frames = frame_reader_default, ct_settings = None, ct_started = False, ct_kind = FRAME_DATA,
     ct_value = partial_default, ct_goaway = None\<rparr>"

text \<open>\<open>Shared::control\<close>: settings must agree with the transport parameters, here whether the peer takes datagrams.\<close>

definition shared_control :: "bool \<Rightarrow> control_event \<Rightarrow> code + unit" where
  "shared_control datagram_frames e = (case e of CtSettings p \<Rightarrow> peer_check p datagram_frames | CtGoaway \<Rightarrow> Inr ())"

definition control_header :: "control_reader \<Rightarrow> u64 \<Rightarrow> u64 \<Rightarrow> role \<Rightarrow> code + control_reader" where
  "control_header r kind len peer =
     (let r = r\<lparr>ct_kind := kind\<rparr>
      in if kind = FRAME_MAX_PUSH_ID \<and> peer = Server then Inl H3_FRAME_UNEXPECTED
         else if kind = FRAME_CANCEL_PUSH \<and> peer = Server then Inl H3_ID_ERROR
         else if kind \<in> {FRAME_GOAWAY, FRAME_MAX_PUSH_ID, FRAME_CANCEL_PUSH} \<and> \<not> (1 \<le> unat len \<and> unat len \<le> 8) then Inl H3_FRAME_ERROR
         else if kind \<in> {FRAME_SETTINGS, FRAME_DATA, FRAME_HEADERS, FRAME_PUSH_PROMISE} then Inl H3_FRAME_UNEXPECTED
         else if kind = FRAME_WEBTRANSPORT_BIDI then Inl H3_FRAME_ERROR
         else if is_http2 kind then Inl H3_FRAME_UNEXPECTED
         else Inr r)"

definition control_value :: "control_reader \<Rightarrow> bytes \<Rightarrow> role \<Rightarrow> code + (u64 option \<times> control_reader)" where
  "control_value r payload peer =
     (if ct_kind r \<notin> {FRAME_GOAWAY, FRAME_MAX_PUSH_ID, FRAME_CANCEL_PUSH} then Inr (None, r)
      else case partial_read (ct_value r) payload of
          (val, p, rest) \<Rightarrow>
            let r = r\<lparr>ct_value := p\<rparr>
            in if rest \<noteq> [] \<or> (val \<noteq> None) \<noteq> (fr_remaining (ct_frames r) = 0) then Inl H3_FRAME_ERROR
               else (case (if ct_kind r = FRAME_GOAWAY \<and> peer = Server then val else None) of
                   None \<Rightarrow> Inr (None, r)
                 | Some ident \<Rightarrow>
                     if \<not> multiple_of_4 ident \<or> (case ct_goaway r of None \<Rightarrow> False | Some previous \<Rightarrow> ident > previous) then Inl H3_ID_ERROR
                     else Inr (Some ident, r\<lparr>ct_goaway := Some ident\<rparr>)))"

definition control_emit :: "(control_event \<Rightarrow> code + unit) \<Rightarrow> control_event \<Rightarrow> control_reader \<Rightarrow> (control_event, code, control_reader) outcome" where
  "control_emit event e r = (case event e of Inl c \<Rightarrow> ([], Inl c) | Inr _ \<Rightarrow> ([e], Inr r))"

definition control_piece :: "(control_event \<Rightarrow> code + unit) \<Rightarrow> role \<Rightarrow> control_reader \<Rightarrow> piece \<Rightarrow> (control_event, code, control_reader) outcome" where
  "control_piece event peer r p = (case p of
       Header kind len \<Rightarrow>
         if \<not> ct_started r
         then if kind \<noteq> FRAME_SETTINGS then ([], Inl H3_MISSING_SETTINGS)
              else let r = r\<lparr>ct_started := True\<rparr>
                   in (case settings_new len of
                         Inl c \<Rightarrow> ([], Inl c)
                       | Inr s \<Rightarrow> (case settings_read s [] of
                             Inl c \<Rightarrow> ([], Inl c)
                           | Inr (Some q, _) \<Rightarrow> control_emit event (CtSettings q) r
                           | Inr (None, s) \<Rightarrow> ([], Inr (r\<lparr>ct_settings := Some s\<rparr>))))
         else (case control_header r kind len peer of Inl c \<Rightarrow> ([], Inl c) | Inr r \<Rightarrow> ([], Inr r))
     | Payload payload \<Rightarrow>
         (case ct_settings r of
            Some s \<Rightarrow> (case settings_read s payload of
                Inl c \<Rightarrow> ([], Inl c)
              | Inr (Some q, _) \<Rightarrow> control_emit event (CtSettings q) (r\<lparr>ct_settings := None\<rparr>)
              | Inr (None, s) \<Rightarrow> ([], Inr (r\<lparr>ct_settings := Some s\<rparr>)))
          | None \<Rightarrow> (case control_value r payload peer of
                Inl c \<Rightarrow> ([], Inl c)
              | Inr (Some _, r) \<Rightarrow> control_emit event CtGoaway r
              | Inr (None, r) \<Rightarrow> ([], Inr r))))"

lemma control_value_frames: "control_value r payload peer = Inr (x, r') \<Longrightarrow> ct_frames r' = ct_frames r"
  by (auto simp: control_value_def Let_def split: if_splits prod.splits option.splits)

lemma control_header_frames: "control_header r kind len peer = Inr r' \<Longrightarrow> ct_frames r' = ct_frames r"
  by (auto simp: control_header_def Let_def split: if_splits)

lemma control_piece_frames: "control_piece event peer r p = (es, Inr r') \<Longrightarrow> ct_frames r' = ct_frames r"
  by (cases p) (auto simp: control_piece_def control_emit_def Let_def dest: control_value_frames control_header_frames
      split: if_splits sum.splits option.splits)

function control_read :: "(control_event \<Rightarrow> code + unit) \<Rightarrow> role \<Rightarrow> control_reader \<Rightarrow> bytes \<Rightarrow> (control_event, code, control_reader) outcome" where
  "control_read event peer r input = (case frame_next (ct_frames r) input of
       (None, f, rest) \<Rightarrow> ([], Inr (r\<lparr>ct_frames := f\<rparr>))
     | (Some p, f, rest) \<Rightarrow> seq_out (control_piece event peer (r\<lparr>ct_frames := f\<rparr>) p) (\<lambda>r. control_read event peer r rest))"
  by pat_completeness auto
termination
  by (relation "measure (\<lambda>(_, _, r, input). reader_mass (ct_frames r) input)")
    (auto dest!: frame_next_mass [OF sym] control_piece_frames)

declare control_read.simps [simp del]

datatype stream_kind = StreamControl | StreamEncoder | StreamDecoder | StreamSession u64

text \<open>\<open>critical\<close> tells which of the three critical streams the peer has opened.\<close>

definition classify :: "u64 \<Rightarrow> u64 option \<Rightarrow> role \<Rightarrow> bool list \<Rightarrow> code + (stream_kind option \<times> bool list)" where
  "classify kind session role critical = (case session of
       Some session \<Rightarrow> (case session_id_new session of None \<Rightarrow> Inl H3_ID_ERROR | Some ident \<Rightarrow> Inr (Some (StreamSession ident), critical))
     | None \<Rightarrow>
         if kind = STREAM_PUSH then Inl (if role = Client then H3_ID_ERROR else H3_STREAM_CREATION_ERROR)
         else (case (if kind = STREAM_CONTROL then Some (0, StreamControl) else if kind = STREAM_ENCODER then Some (1, StreamEncoder)
                 else if kind = STREAM_DECODER then Some (2, StreamDecoder) else None) of
              None \<Rightarrow> Inr (None, critical)
            | Some (i, opened) \<Rightarrow>
                if critical ! i then Inl H3_STREAM_CREATION_ERROR else Inr (Some opened, critical[i := True])))"

subsection \<open>The model: a server going away\<close>


text \<open>\<open>dr_pending\<close> is all that was queued for the control stream, the part already written included.\<close>

record driver =
  dr_registry :: registry
  dr_pending :: bytes
  dr_next_request :: u64
  dr_goaway :: "u64 option"
  dr_drain :: "nat option"
  dr_ended :: bool







text \<open>When a server's connection closes, given its live streams and how long a closed session lingers.\<close>

definition close_at :: "driver \<Rightarrow> role \<Rightarrow> nat \<Rightarrow> nat option \<Rightarrow> nat \<Rightarrow> nat option" where
  "close_at d r live linger now =
     (if r = Client \<or> live > 0 then dr_drain d
      else let ready = map_option (\<lambda>_. case linger of None \<Rightarrow> now | Some t \<Rightarrow> t) (dr_goaway d)
           in (case (dr_drain d, ready) of (Some x, Some y) \<Rightarrow> Some (min x y) | (Some x, None) \<Rightarrow> Some x | (None, y) \<Rightarrow> y))"


subsection \<open>The order of what a control stream says\<close>

text \<open>Whether the peer's settings are still to come.\<close>

definition awaiting :: "control_reader \<Rightarrow> bool" where
  "awaiting r \<longleftrightarrow> \<not> ct_started r \<or> ct_settings r \<noteq> None"

definition control_inv :: "role \<Rightarrow> control_reader \<Rightarrow> bool" where
  "control_inv peer r \<longleftrightarrow> (\<not> ct_started r \<longrightarrow> fr_remaining (ct_frames r) = 0 \<and> ct_settings r = None) \<and> (awaiting r \<longrightarrow> ct_goaway r = None) \<and>
     (\<forall>g. ct_goaway r = Some g \<longrightarrow> multiple_of_4 g \<and> peer = Server)"

definition speaks :: "bool \<Rightarrow> control_event list \<Rightarrow> bool \<Rightarrow> bool" where
  "speaks aw es aw' \<longleftrightarrow> (if aw then es = [] \<and> aw' \<or> (\<exists>q n. es = CtSettings q # replicate n CtGoaway) \<and> \<not> aw'
     else (\<exists>n. es = replicate n CtGoaway) \<and> \<not> aw')"

lemma speaks_append: "speaks a es b \<Longrightarrow> speaks b fs c \<Longrightarrow> speaks a (es @ fs) c"
  by (auto simp: speaks_def replicate_add [symmetric] split: if_splits)

lemma control_value_goaway:
  assumes "control_value r payload peer = Inr (x, r')"
  shows "ct_started r' = ct_started r \<and> ct_settings r' = ct_settings r \<and> ct_frames r' = ct_frames r \<and>
    (case x of None \<Rightarrow> ct_goaway r' = ct_goaway r
     | Some g \<Rightarrow> ct_goaway r' = Some g \<and> multiple_of_4 g \<and> peer = Server \<and> (\<forall>h. ct_goaway r = Some h \<longrightarrow> g \<le> h))"
  using assms by (auto simp: control_value_def Let_def not_less split: if_splits prod.splits option.splits)

text \<open>What a piece does to a reader: \<open>says\<close> is what holds of its events and, unless it fails, of the reader it leaves.\<close>

definition says :: "role \<Rightarrow> control_reader \<Rightarrow> (control_event, code, control_reader) outcome \<Rightarrow> bool" where
  "says peer r out \<longleftrightarrow> (CtGoaway \<in> set (fst out) \<longrightarrow> peer = Server) \<and> (\<exists>aw. speaks (awaiting r) (fst out) aw \<and>
     (\<forall>r'. snd out = Inr r' \<longrightarrow> awaiting r' = aw \<and> control_inv peer r' \<and> (\<forall>h. ct_goaway r = Some h \<longrightarrow> (\<exists>g \<le> h. ct_goaway r' = Some g))))"

lemma says_Inl: "says peer r ([], Inl c)"
  by (auto simp: says_def speaks_def intro: exI [of _ "awaiting r"])

lemma says_Nil: "awaiting r' = awaiting r \<Longrightarrow> control_inv peer r' \<Longrightarrow> ct_goaway r' = ct_goaway r \<Longrightarrow> says peer r ([], Inr r')"
  by (auto simp: says_def speaks_def intro: exI [of _ "awaiting r"])

lemma says_settings: "awaiting r \<Longrightarrow> \<not> awaiting r' \<Longrightarrow> control_inv peer r' \<Longrightarrow> ct_goaway r = None \<Longrightarrow> says peer r (control_emit event (CtSettings q) r')"
  by (auto simp: says_def speaks_def control_emit_def split: sum.splits intro: exI [of _ "awaiting r"] exI [of _ 0])

lemma control_piece_says:
  assumes inv: "control_inv peer r" and nx: "frame_next (ct_frames r) input = (Some p, f, rest)"
  shows "says peer r (control_piece event peer (r\<lparr>ct_frames := f\<rparr>) p)"
proof (cases p)
  case (Header kind len)
  show ?thesis
  proof (cases "ct_started r")
    case False
    then have aw: "awaiting r" "ct_goaway r = None" using inv by (auto simp: awaiting_def control_inv_def)
    show ?thesis
    proof (cases "settings_new len")
      case (Inr s)
      have "says peer r (case settings_read s [] of Inl c \<Rightarrow> ([], Inl c)
          | Inr (Some q, _) \<Rightarrow> control_emit event (CtSettings q) (r\<lparr>ct_frames := f, ct_started := True\<rparr>)
          | Inr (None, s) \<Rightarrow> ([], Inr (r\<lparr>ct_frames := f, ct_started := True, ct_settings := Some s\<rparr>)))"
        using aw False inv by (auto intro!: says_Inl says_Nil says_settings simp: awaiting_def control_inv_def split: sum.splits option.splits)
      then show ?thesis using False Header Inr by (cases "kind = FRAME_SETTINGS") (auto simp: control_piece_def Let_def intro: says_Inl)
    qed (use False Header in \<open>auto simp: control_piece_def Let_def intro: says_Inl\<close>)
  next
    case True
    then show ?thesis using Header inv
      by (auto simp: control_piece_def control_header_def Let_def awaiting_def control_inv_def intro!: says_Inl says_Nil split: sum.splits if_splits)
  qed
next
  case (Payload payload)
  have started: "ct_started r" using inv nx Payload by (auto simp: control_inv_def frame_next_def split: prod.splits option.splits if_splits)
  show ?thesis
  proof (cases "ct_settings r")
    case (Some s)
    then have aw: "awaiting r" "ct_goaway r = None" using inv by (auto simp: awaiting_def control_inv_def)
    then show ?thesis using Payload Some inv started
      by (auto simp: control_piece_def awaiting_def control_inv_def intro!: says_Inl says_Nil says_settings split: sum.splits option.splits)
  next
    case None
    show ?thesis
    proof (cases "control_value (r\<lparr>ct_frames := f\<rparr>) payload peer")
      case (Inl c)
      then show ?thesis using Payload None by (simp add: control_piece_def says_Inl)
    next
      case (Inr y)
      obtain x r' where y: "y = (x, r')" by (cases y)
      note v = control_value_goaway [OF Inr [unfolded y]]
      have aw: "\<not> awaiting r" "\<not> awaiting r'" using v started None by (simp_all add: awaiting_def)
      show ?thesis
      proof (cases x)
        case no: None
        then show ?thesis using Payload None Inr y v aw inv started by (auto simp: control_piece_def control_inv_def awaiting_def intro!: says_Nil)
      next
        case (Some g)
        then have "control_piece event peer (r\<lparr>ct_frames := f\<rparr>) p = control_emit event CtGoaway r'" using Payload None Inr y by (simp add: control_piece_def)
        moreover have "control_inv peer r'" using v Some started aw by (auto simp: control_inv_def)
        ultimately show ?thesis using v Some aw
          by (auto simp: says_def speaks_def control_emit_def split: sum.splits intro: exI [of _ 0] exI [of _ "Suc 0"])
      qed
    qed
  qed
qed

lemma says_seq:
  assumes first: "says peer r out" and next_: "\<And>r'. snd out = Inr r' \<Longrightarrow> control_inv peer r' \<Longrightarrow> says peer r' (k r')"
  shows "says peer r (seq_out out k)"
proof -
  obtain es x where out: "out = (es, x)" by (cases out)
  show ?thesis
  proof (cases x)
    case (Inl c)
    then show ?thesis using first out by (auto simp: says_def seq_out_def)
  next
    case (Inr r')
    obtain fs y where k: "k r' = (fs, y)" by (cases "k r'")
    have r': "speaks (awaiting r) es (awaiting r')" "control_inv peer r'" "\<forall>h. ct_goaway r = Some h \<longrightarrow> (\<exists>g \<le> h. ct_goaway r' = Some g)"
      "CtGoaway \<in> set es \<longrightarrow> peer = Server" using first out Inr by (auto simp: says_def)
    have rest: "says peer r' (fs, y)" using next_ [of r'] out Inr r'(2) k by simp
    then obtain aw where aw: "speaks (awaiting r') fs aw" "\<forall>r''. y = Inr r'' \<longrightarrow> awaiting r'' = aw \<and> control_inv peer r'' \<and>
        (\<forall>h. ct_goaway r' = Some h \<longrightarrow> (\<exists>g \<le> h. ct_goaway r'' = Some g))" by (auto simp: says_def)
    have "seq_out out k = (es @ fs, y)" using out Inr k by (simp add: seq_out_def)
    moreover have "speaks (awaiting r) (es @ fs) aw" by (rule speaks_append [OF r'(1) aw(1)])
    moreover have "CtGoaway \<in> set fs \<longrightarrow> peer = Server" using rest by (simp add: says_def)
    moreover have "\<exists>g \<le> h. ct_goaway r'' = Some g" if y: "y = Inr r''" and h: "ct_goaway r = Some h" for r'' h
    proof -
      obtain g where "g \<le> h" "ct_goaway r' = Some g" using r'(3) h by blast
      moreover from this obtain g' where "g' \<le> g" "ct_goaway r'' = Some g'" using aw(2) y by blast
      ultimately show ?thesis by (blast intro: order_trans)
    qed
    ultimately show ?thesis using aw(2) r'(4) by (auto simp: says_def)
  qed
qed

lemma control_read_says: "control_inv peer r \<Longrightarrow> says peer r (control_read event peer r input)"
proof (induction event peer r input rule: control_read.induct)
  case (1 event peer r input)
  obtain p f rest where nx: "frame_next (ct_frames r) input = (p, f, rest)" by (metis prod_cases3)
  show ?case
  proof (cases p)
    case None
    have "fr_remaining f = fr_remaining (ct_frames r)" using nx None by (auto simp: frame_next_def Let_def split: if_splits prod.splits option.splits)
    then show ?thesis using nx None 1(2) by (auto simp: control_read.simps [of event peer r] control_inv_def awaiting_def intro!: says_Nil)
  next
    case (Some q)
    have "says peer r (seq_out (control_piece event peer (r\<lparr>ct_frames := f\<rparr>) q) (\<lambda>r. control_read event peer r rest))"
    proof (rule says_seq)
      show "says peer r (control_piece event peer (r\<lparr>ct_frames := f\<rparr>) q)" using control_piece_says [OF 1(2)] nx Some by blast
      fix r'
      assume "snd (control_piece event peer (r\<lparr>ct_frames := f\<rparr>) q) = Inr r'" and "control_inv peer r'"
      then show "says peer r' (control_read event peer r' rest)" using 1(1) [OF nx [symmetric] Some refl, of "fst (control_piece event peer (r\<lparr>ct_frames := f\<rparr>) q)" r']
        by (metis prod.collapse)
    qed
    then show ?thesis using nx Some by (simp add: control_read.simps [of event peer r])
  qed
qed

lemma control_feed_says: "control_inv peer r \<Longrightarrow> says peer r (feed_chunks (control_read event peer) r chunks)"
proof (induction chunks arbitrary: r)
  case Nil
  then show ?case by (auto intro: says_Nil)
next
  case (Cons c cs)
  then show ?case by (auto intro!: says_seq control_read_says)
qed

text \<open>
  C29. A control stream speaks in order, whatever the peer sends and however it arrives: first its settings, once, then nothing but GOAWAYs, and those only from a
  server. The identifiers of the GOAWAYs accepted so far are those of client request streams and never grow.
\<close>

theorem control_in_order:
  assumes "feed_chunks (control_read event peer) control_reader_default chunks = (es, out)"
  shows "(es = [] \<or> (\<exists>q n. es = CtSettings q # replicate n CtGoaway \<and> (0 < n \<longrightarrow> peer = Server))) \<and>
    (\<forall>r. out = Inr r \<longrightarrow> (es = [] \<longleftrightarrow> awaiting r) \<and> (\<forall>g. ct_goaway r = Some g \<longrightarrow> multiple_of_4 g \<and> peer = Server) \<and>
      (\<forall>more fs r' h. feed_chunks (control_read event peer) r more = (fs, Inr r') \<and> ct_goaway r = Some h \<longrightarrow> (\<exists>g \<le> h. ct_goaway r' = Some g)))"
proof -
  have "control_inv peer control_reader_default"
    by (simp add: control_inv_def control_reader_default_def awaiting_def frame_reader_default_def)
  from control_feed_says [OF this, of event chunks]
  have says: "says peer control_reader_default (es, out)" using assms by simp
  have aw: "awaiting control_reader_default" by (simp add: awaiting_def control_reader_default_def)
  have "es = [] \<or> (\<exists>q n. es = CtSettings q # replicate n CtGoaway \<and> (0 < n \<longrightarrow> peer = Server))"
    using says aw by (auto simp: says_def speaks_def)
  moreover have "(es = [] \<longleftrightarrow> awaiting r) \<and> control_inv peer r" if "out = Inr r" for r
    using says aw that by (auto simp: says_def speaks_def)
  moreover have "\<exists>g \<le> h. ct_goaway r' = Some g"
    if "control_inv peer r" "feed_chunks (control_read event peer) r more = (fs, Inr r')" "ct_goaway r = Some h" for r more fs r' h
    using control_feed_says [OF that(1), of event more] that(2,3) by (auto simp: says_def)
  moreover have "multiple_of_4 g \<and> peer = Server" if "control_inv peer r" "ct_goaway r = Some g" for r g
    using that by (simp add: control_inv_def)
  ultimately show ?thesis by blast
qed

theorem control_in_order_witness:
  "\<exists>es r. feed_chunks (control_read (shared_control True) Server) control_reader_default [[0x04, 0x00], [0x07, 0x01, 0x08]] = (es, Inr r) \<and>
     es = [CtSettings peer_default, CtGoaway] \<and> \<not> awaiting r"
proof -
  let ?run = "feed_chunks (control_read (shared_control True) Server) control_reader_default [[0x04, 0x00], [0x07, 0x01, 0x08]]"
  have "fst ?run = [CtSettings peer_default, CtGoaway] \<and> (case snd ?run of Inl _ \<Rightarrow> False | Inr _ \<Rightarrow> True)" by code_simp
  then obtain r where r: "?run = ([CtSettings peer_default, CtGoaway], Inr r)" by (cases ?run) (auto split: sum.splits)
  from control_in_order [OF r] r show ?thesis by blast
qed

subsection \<open>Frames at a boundary\<close>










subsection \<open>A server going away\<close>










end
