(* ===== verification/Budget.thy ===== *)
theory Budget
  imports Prelude "HOL-Library.Multiset"
begin

text \<open>
  The buffer budget, \<^verbatim>\<open>rust/server/src/limits/budget.rs\<close>, with the latch of \<^verbatim>\<open>rust/server/src/log.rs\<close> it logs
  through. The counters are 64-bit words, as the atomics are; each definition below is one atomic access or
  a sequence of them in program order. A step relation interleaves the accesses of any number of threads.
\<close>

subsection \<open>The model\<close>

record budget =
  b_limit :: u64
  b_used :: u64
  b_reserved :: u64
  b_released :: u64
  b_refused_floors :: u64
  b_held_back :: bool

datatype pressure = Normal | Retry | HoldBack

record usage =
  us_limit :: u64
  us_used :: u64

record lease =
  l_bytes :: u64
  l_reserved :: bool

definition budget_new :: "u64 \<Rightarrow> budget" where
  "budget_new limit = \<lparr>b_limit = limit, b_used = 0, b_reserved = 0, b_released = 0, b_refused_floors = 0, b_held_back = False\<rparr>"

text \<open>\<open>charge\<close>: \<open>None\<close> is the value false, the addition overflowing or passing the limit.\<close>

definition charge :: "budget \<Rightarrow> u64 \<Rightarrow> budget option" where
  "charge b n =
     (if unat (b_used b) + unat n < 2 ^ 64 \<and> b_used b + n \<le> b_limit b then Some (b\<lparr>b_used := b_used b + n\<rparr>) else None)"

definition give_back :: "budget \<Rightarrow> u64 \<Rightarrow> budget" where
  "give_back b n = b\<lparr>b_used := b_used b - n\<rparr>"

definition budget_lease :: "budget \<Rightarrow> u64 \<Rightarrow> lease option \<times> budget" where
  "budget_lease b n = (case charge b n of
       None \<Rightarrow> (None, b)
     | Some b \<Rightarrow> (Some \<lparr>l_bytes = n, l_reserved = False\<rparr>, b))"

definition budget_floor :: "budget \<Rightarrow> u64 \<Rightarrow> lease option \<times> budget" where
  "budget_floor b n = (case budget_lease b n of
       (None, b) \<Rightarrow> (None, b\<lparr>b_refused_floors := b_refused_floors b + 1\<rparr>)
     | floor \<Rightarrow> floor)"

definition count_reserved :: "budget \<Rightarrow> u64 \<Rightarrow> budget" where
  "count_reserved b n = b\<lparr>b_reserved := b_reserved b + n\<rparr>"

definition count_released :: "budget \<Rightarrow> u64 \<Rightarrow> budget" where
  "count_released b n = b\<lparr>b_released := b_released b + n\<rparr>"

text \<open>\<open>reserve\<close> makes up to three accesses: it counts the bytes, charges them, and counts them back when the charge is refused.\<close>

definition reserve_charge :: "budget \<Rightarrow> u64 \<Rightarrow> lease option \<times> budget" where
  "reserve_charge b n = (case charge b n of
       None \<Rightarrow> (None, b)
     | Some b \<Rightarrow> (Some \<lparr>l_bytes = n, l_reserved = True\<rparr>, b))"

definition budget_reserve :: "budget \<Rightarrow> u64 \<Rightarrow> lease option \<times> budget" where
  "budget_reserve b n = (case reserve_charge (count_reserved b n) n of
       (None, b) \<Rightarrow> (None, count_released b n)
     | charged \<Rightarrow> charged)"

text \<open>What \<open>unreserved\<close> makes of the three values it loads.\<close>

definition unreserved_of :: "u64 \<Rightarrow> u64 \<Rightarrow> u64 \<Rightarrow> u64 \<Rightarrow> u64 \<times> u64" where
  "unreserved_of limit released used reserved =
     (let reserved = min (reserved - released) used in (limit - reserved, used - reserved))"

definition unreserved :: "budget \<Rightarrow> u64 \<times> u64" where
  "unreserved b = unreserved_of (b_limit b) (b_released b) (b_used b) (b_reserved b)"

definition latch_update :: "bool \<Rightarrow> bool \<Rightarrow> bool \<Rightarrow> bool option \<times> bool" where
  "latch_update on start end' =
     (let changed = (if on then end' else start)
      in if changed then (Some (\<not> on), \<not> on) else (None, on))"

definition pressure_of :: "u64 \<Rightarrow> u64 \<Rightarrow> pressure" where
  "pressure_of limit used =
     (if used \<ge> limit div 4 * 3 then HoldBack else if used \<ge> limit div 4 then Retry else Normal)"

text \<open>The pressure level and the change of the latch that is logged.\<close>

definition budget_pressure :: "budget \<Rightarrow> pressure \<times> bool option \<times> budget" where
  "budget_pressure b =
     (let (limit, used) = unreserved b;
          (logged, on) = latch_update (b_held_back b) (used \<ge> limit div 4 * 3) (used < limit div 8 * 5)
      in (pressure_of limit used, logged, b\<lparr>b_held_back := on\<rparr>))"

definition client_windows :: "budget \<Rightarrow> u64" where
  "client_windows b = fst (unreserved b) div 2"

definition budget_usage :: "budget \<Rightarrow> usage" where
  "budget_usage b = \<lparr>us_limit = b_limit b, us_used = b_used b\<rparr>"

text \<open>\<open>drop\<close>: the bytes are given back, then a reserved lease counts them as released.\<close>

definition lease_release :: "budget \<Rightarrow> lease \<Rightarrow> budget" where
  "lease_release b l = give_back b (l_bytes l)"

definition lease_count :: "budget \<Rightarrow> lease \<Rightarrow> budget" where
  "lease_count b l = (if l_reserved l then count_released b (l_bytes l) else b)"

definition lease_drop :: "budget \<Rightarrow> lease \<Rightarrow> budget" where
  "lease_drop b l = lease_count (lease_release b l) l"

text \<open>\<open>keep\<close> ends the lease but for \<open>n\<close> bytes, which stay charged.\<close>

definition lease_keep :: "budget \<Rightarrow> lease \<Rightarrow> u64 \<Rightarrow> budget" where
  "lease_keep b l n = lease_drop b (l\<lparr>l_bytes := l_bytes l - n\<rparr>)"

text \<open>The trait the forks of the QUIC and the HTTP/2 library charge the same budget through.\<close>

definition try_charge :: "budget \<Rightarrow> u64 \<Rightarrow> bool \<times> budget" where
  "try_charge b n = (case charge b n of None \<Rightarrow> (False, b) | Some b \<Rightarrow> (True, b))"

definition refund :: "budget \<Rightarrow> u64 \<Rightarrow> budget" where
  "refund b n = give_back b n"

subsection \<open>Interleaved operations\<close>

text \<open>
  The shared counters with what the threads hold: the live leases, the bytes charged without one (by the libraries, or kept of a
  lease), the reservations counted but not yet charged or refused but not yet counted back, and the reserved leases given back but not yet
  counted as released. The totals are the reserved, released and refused counters without their wrap-around. Every step runs an
  operation of the budget, and where one touches several counters the steps are its parts, in its order.
\<close>

record machine =
  m_budget :: budget
  m_leases :: "lease multiset"
  m_kept :: nat
  m_starting :: "u64 multiset"
  m_refused :: "u64 multiset"
  m_dropping :: "lease multiset"
  m_reserved_total :: nat
  m_released_total :: nat
  m_floors_total :: nat

definition machine_new :: "u64 \<Rightarrow> machine" where
  "machine_new limit = \<lparr>m_budget = budget_new limit, m_leases = {#}, m_kept = 0, m_starting = {#}, m_refused = {#}, m_dropping = {#},
     m_reserved_total = 0, m_released_total = 0, m_floors_total = 0\<rparr>"

inductive budget_step :: "machine \<Rightarrow> machine \<Rightarrow> bool" where
  leased: "budget_lease (m_budget m) n = (Some l, b) \<Longrightarrow>
    budget_step m (m\<lparr>m_budget := b, m_leases := add_mset l (m_leases m)\<rparr>)"
| floored: "budget_floor (m_budget m) n = (Some l, b) \<Longrightarrow>
    budget_step m (m\<lparr>m_budget := b, m_leases := add_mset l (m_leases m)\<rparr>)"
| floor_refused: "budget_floor (m_budget m) n = (None, b) \<Longrightarrow>
    budget_step m (m\<lparr>m_budget := b, m_floors_total := m_floors_total m + 1\<rparr>)"
| dropped: "l \<in># m_leases m \<Longrightarrow> \<not> l_reserved l \<Longrightarrow>
    budget_step m (m\<lparr>m_budget := lease_drop (m_budget m) l, m_leases := m_leases m - {#l#}\<rparr>)"
| kept: "l \<in># m_leases m \<Longrightarrow> \<not> l_reserved l \<Longrightarrow> k \<le> l_bytes l \<Longrightarrow>
    budget_step m (m\<lparr>m_budget := lease_keep (m_budget m) l k, m_leases := m_leases m - {#l#}, m_kept := m_kept m + unat k\<rparr>)"
| charged: "try_charge (m_budget m) n = (True, b) \<Longrightarrow>
    budget_step m (m\<lparr>m_budget := b, m_kept := m_kept m + unat n\<rparr>)"
| refunded: "unat n \<le> m_kept m \<Longrightarrow>
    budget_step m (m\<lparr>m_budget := refund (m_budget m) n, m_kept := m_kept m - unat n\<rparr>)"
| reserve_counted:
    "budget_step m (m\<lparr>m_budget := count_reserved (m_budget m) n, m_starting := add_mset n (m_starting m),
       m_reserved_total := m_reserved_total m + unat n\<rparr>)"
| reserve_charged: "n \<in># m_starting m \<Longrightarrow> reserve_charge (m_budget m) n = (Some l, b) \<Longrightarrow>
    budget_step m (m\<lparr>m_budget := b, m_starting := m_starting m - {#n#}, m_leases := add_mset l (m_leases m)\<rparr>)"
| reserve_refused: "n \<in># m_starting m \<Longrightarrow> reserve_charge (m_budget m) n = (None, b) \<Longrightarrow>
    budget_step m (m\<lparr>m_budget := b, m_starting := m_starting m - {#n#}, m_refused := add_mset n (m_refused m)\<rparr>)"
| refusal_counted: "n \<in># m_refused m \<Longrightarrow>
    budget_step m (m\<lparr>m_budget := count_released (m_budget m) n, m_refused := m_refused m - {#n#},
       m_released_total := m_released_total m + unat n\<rparr>)"
| released: "l \<in># m_leases m \<Longrightarrow> l_reserved l \<Longrightarrow>
    budget_step m (m\<lparr>m_budget := lease_release (m_budget m) l, m_leases := m_leases m - {#l#}, m_dropping := add_mset l (m_dropping m)\<rparr>)"
| release_counted: "l \<in># m_dropping m \<Longrightarrow>
    budget_step m (m\<lparr>m_budget := lease_count (m_budget m) l, m_dropping := m_dropping m - {#l#},
       m_released_total := m_released_total m + unat (l_bytes l)\<rparr>)"

abbreviation budget_steps :: "machine \<Rightarrow> machine \<Rightarrow> bool" where
  "budget_steps \<equiv> budget_step\<^sup>*\<^sup>*"

definition bytes_total :: "u64 multiset \<Rightarrow> nat" where
  "bytes_total ms = (\<Sum>n \<in># ms. unat n)"

text \<open>The bytes of the leases, reserved or not.\<close>

definition lease_bytes :: "bool \<Rightarrow> lease multiset \<Rightarrow> nat" where
  "lease_bytes reserved ls = (\<Sum>l \<in># ls. if l_reserved l = reserved then unat (l_bytes l) else 0)"

lemma bytes_total_simps [simp]:
  "bytes_total {#} = 0" "bytes_total (add_mset n ms) = unat n + bytes_total ms"
  by (simp_all add: bytes_total_def)

lemma lease_bytes_simps [simp]:
  "lease_bytes r {#} = 0" "lease_bytes r (add_mset l ls) = (if l_reserved l = r then unat (l_bytes l) else 0) + lease_bytes r ls"
  by (simp_all add: lease_bytes_def)

lemma bytes_total_remove: "n \<in># ms \<Longrightarrow> bytes_total ms = unat n + bytes_total (ms - {#n#})"
  by (metis insert_DiffM bytes_total_simps(2))

lemma lease_bytes_remove:
  "l \<in># ls \<Longrightarrow> lease_bytes r ls = (if l_reserved l = r then unat (l_bytes l) else 0) + lease_bytes r (ls - {#l#})"
  by (metis insert_DiffM lease_bytes_simps(2))

lemma lease_bytes_all: "(\<Sum>l \<in># ls. unat (l_bytes l)) = lease_bytes False ls + lease_bytes True ls"
  by (induction ls) auto

definition machine_inv :: "machine \<Rightarrow> bool" where
  "machine_inv m \<longleftrightarrow>
     unat (b_used (m_budget m)) = lease_bytes False (m_leases m) + lease_bytes True (m_leases m) + m_kept m \<and>
     b_used (m_budget m) \<le> b_limit (m_budget m) \<and>
     b_reserved (m_budget m) = of_nat (m_reserved_total m) \<and>
     b_released (m_budget m) = of_nat (m_released_total m) \<and>
     b_refused_floors (m_budget m) = of_nat (m_floors_total m) \<and>
     (\<forall>l \<in># m_dropping m. l_reserved l) \<and>
     m_reserved_total m = m_released_total m + lease_bytes True (m_leases m) + bytes_total (m_starting m) + bytes_total (m_refused m) +
       lease_bytes True (m_dropping m)"

lemma charge_used:
  "charge b n = Some b' \<Longrightarrow> unat (b_used b') = unat (b_used b) + unat n \<and> b_used b' \<le> b_limit b' \<and>
     b_limit b' = b_limit b \<and> b_reserved b' = b_reserved b \<and> b_released b' = b_released b \<and> b_refused_floors b' = b_refused_floors b"
  by (auto simp: charge_def unat_word_ariths(1) split: if_splits)

lemma give_back_used:
  assumes "unat n \<le> unat (b_used b)" and "b_used b \<le> b_limit b"
  shows "unat (b_used (give_back b n)) = unat (b_used b) - unat n" "b_used (give_back b n) \<le> b_limit (give_back b n)"
    "b_limit (give_back b n) = b_limit b" "b_reserved (give_back b n) = b_reserved b" "b_released (give_back b n) = b_released b"
    "b_refused_floors (give_back b n) = b_refused_floors b"
proof -
  have le: "n \<le> b_used b" using assms(1) by (simp add: word_le_nat_alt)
  then show u: "unat (b_used (give_back b n)) = unat (b_used b) - unat n" by (simp add: give_back_def unat_sub)
  then show "b_used (give_back b n) \<le> b_limit (give_back b n)"
    using assms(2) by (simp add: give_back_def word_le_nat_alt)
qed (simp_all add: give_back_def)

text \<open>Giving back part of what is held keeps the invariant.\<close>

lemma give_back_inv:
  assumes "machine_inv m" and "unat n + rest = lease_bytes False (m_leases m) + lease_bytes True (m_leases m) + m_kept m"
    and "lease_bytes False (m_leases m') + lease_bytes True (m_leases m') + m_kept m' = rest"
    and "m_budget m' = give_back (m_budget m) n" and "m_reserved_total m' = m_reserved_total m" and "m_released_total m' = m_released_total m"
    and "m_floors_total m' = m_floors_total m" and "\<forall>l \<in># m_dropping m'. l_reserved l" and "m_starting m' = m_starting m" and "m_refused m' = m_refused m"
    and "lease_bytes True (m_leases m') + lease_bytes True (m_dropping m') = lease_bytes True (m_leases m) + lease_bytes True (m_dropping m)"
  shows "machine_inv m'"
proof -
  have "unat n \<le> unat (b_used (m_budget m))" "b_used (m_budget m) \<le> b_limit (m_budget m)" using assms(1,2) by (simp_all add: machine_inv_def)
  from give_back_used [OF this] assms show ?thesis by (simp add: machine_inv_def)
qed

text \<open>So does charging what is then held.\<close>

lemma charge_inv:
  assumes "machine_inv m" and "charge (m_budget m) n = Some (m_budget m')"
    and "lease_bytes False (m_leases m') + lease_bytes True (m_leases m') + m_kept m' =
      unat n + lease_bytes False (m_leases m) + lease_bytes True (m_leases m) + m_kept m"
    and "m_reserved_total m' = m_reserved_total m" and "m_released_total m' = m_released_total m" and "m_floors_total m' = m_floors_total m"
    and "m_dropping m' = m_dropping m" and "m_refused m' = m_refused m"
    and "lease_bytes True (m_leases m') + bytes_total (m_starting m') = lease_bytes True (m_leases m) + bytes_total (m_starting m)"
  shows "machine_inv m'"
proof -
  have "m_reserved_total m' = m_released_total m' + lease_bytes True (m_leases m') + bytes_total (m_starting m') + bytes_total (m_refused m') +
      lease_bytes True (m_dropping m')" using assms by (simp add: machine_inv_def)
  moreover have "unat (b_used (m_budget m')) = lease_bytes False (m_leases m') + lease_bytes True (m_leases m') + m_kept m'"
    using charge_used [OF assms(2)] assms(1,3) by (simp add: machine_inv_def)
  moreover have "b_reserved (m_budget m') = of_nat (m_reserved_total m')"
    using charge_used [OF assms(2)] assms(1,4) by (auto simp: machine_inv_def)
  ultimately show ?thesis using charge_used [OF assms(2)] assms(1,5-7) unfolding machine_inv_def by metis
qed

lemmas operation_defs = budget_lease_def budget_floor_def reserve_charge_def try_charge_def refund_def
  lease_drop_def lease_release_def lease_count_def lease_keep_def

lemma machine_inv_step: "budget_step m m' \<Longrightarrow> machine_inv m \<Longrightarrow> machine_inv m'"
proof (induction rule: budget_step.induct)
  case (leased m n l b)
  then show ?case by (intro charge_inv [OF leased(2)]) (auto simp: operation_defs split: option.splits)
next
  case (floored m n l b)
  then show ?case by (intro charge_inv [OF floored(2)]) (auto simp: operation_defs split: option.splits)
next
  case (floor_refused m n b)
  then show ?case by (auto simp: operation_defs machine_inv_def split: option.splits)
next
  case (dropped l m)
  then show ?case using lease_bytes_remove [OF dropped(1)]
    by (intro give_back_inv [OF dropped(3), of "l_bytes l"]) (auto simp: operation_defs machine_inv_def)
next
  case (kept l m k)
  have "unat (l_bytes l - k) = unat (l_bytes l) - unat k" "unat k \<le> unat (l_bytes l)"
    using kept(3) by (simp_all add: unat_sub word_le_nat_alt)
  then show ?case using kept lease_bytes_remove [OF kept(1)]
    by (intro give_back_inv [OF kept(4), of "l_bytes l - k"]) (auto simp: operation_defs machine_inv_def)
next
  case (charged m n b)
  then show ?case by (intro charge_inv [OF charged(2)]) (auto simp: operation_defs split: option.splits)
next
  case (refunded n m)
  then show ?case by (intro give_back_inv [OF refunded(2), of n]) (auto simp: operation_defs machine_inv_def)
next
  case (reserve_counted m n)
  then show ?case by (simp add: machine_inv_def count_reserved_def)
next
  case (reserve_charged n m l b)
  then show ?case using bytes_total_remove [OF reserve_charged(1)]
    by (intro charge_inv [OF reserve_charged(3)]) (auto simp: operation_defs split: option.splits)
next
  case (reserve_refused n m b)
  then show ?case using bytes_total_remove [OF reserve_refused(1)] by (auto simp: machine_inv_def operation_defs split: option.splits)
next
  case (refusal_counted n m)
  then show ?case using bytes_total_remove [OF refusal_counted(1)] by (simp add: machine_inv_def count_released_def)
next
  case (released l m)
  then show ?case using lease_bytes_remove [OF released(1)]
    by (intro give_back_inv [OF released(3), of "l_bytes l"]) (auto simp: operation_defs machine_inv_def)
next
  case (release_counted l m)
  moreover have "l_reserved l" using release_counted by (auto simp: machine_inv_def)
  ultimately show ?case using lease_bytes_remove [OF release_counted(1), of True]
    by (auto simp: machine_inv_def operation_defs count_released_def dest: in_diffD)
qed

lemma machine_inv_steps: "budget_steps m m' \<Longrightarrow> machine_inv m \<Longrightarrow> machine_inv m'"
  by (induction rule: rtranclp_induct) (auto intro: machine_inv_step)

lemma machine_inv_new: "machine_inv (machine_new limit)"
  by (simp add: machine_inv_def machine_new_def budget_new_def)

lemma totals_grow: "budget_steps m m' \<Longrightarrow> m_reserved_total m \<le> m_reserved_total m' \<and> m_released_total m \<le> m_released_total m' \<and>
    b_limit (m_budget m') = b_limit (m_budget m)"
proof (induction rule: rtranclp_induct)
  case (step m' m'')
  from step(2) have "m_reserved_total m' \<le> m_reserved_total m'' \<and> m_released_total m' \<le> m_released_total m'' \<and>
      b_limit (m_budget m'') = b_limit (m_budget m')"
    by (cases rule: budget_step.cases)
      (auto simp: operation_defs charge_def give_back_def count_reserved_def count_released_def split: if_splits option.splits)
  with step(3) show ?case by auto
qed simp

text \<open>The operations of several accesses, run without another thread in between, are sequences of these steps.\<close>

lemma budget_reserve_steps:
  assumes "budget_reserve (m_budget m) n = (r, b)"
  shows "\<exists>m'. budget_steps m m' \<and> m_budget m' = b \<and> m_kept m' = m_kept m \<and>
    m_leases m' = (case r of None \<Rightarrow> m_leases m | Some l \<Rightarrow> add_mset l (m_leases m)) \<and> m_floors_total m' = m_floors_total m"
proof -
  let ?m = "m\<lparr>m_budget := count_reserved (m_budget m) n, m_starting := add_mset n (m_starting m),
    m_reserved_total := m_reserved_total m + unat n\<rparr>"
  obtain r' b' where c: "reserve_charge (m_budget ?m) n = (r', b')" by fastforce
  have s: "budget_step m ?m" by (rule budget_step.reserve_counted)
  show ?thesis
  proof (cases r')
    case None
    let ?m2 = "?m\<lparr>m_budget := b', m_starting := m_starting ?m - {#n#}, m_refused := add_mset n (m_refused ?m)\<rparr>"
    let ?m3 = "?m2\<lparr>m_budget := count_released (m_budget ?m2) n, m_refused := m_refused ?m2 - {#n#},
       m_released_total := m_released_total ?m2 + unat n\<rparr>"
    have "budget_step ?m ?m2" using None c by (intro budget_step.reserve_refused) simp_all
    moreover have "budget_step ?m2 ?m3" by (intro budget_step.refusal_counted) simp
    ultimately have "budget_steps m ?m3" using s by (meson converse_rtranclp_into_rtranclp rtranclp.rtrancl_refl)
    then show ?thesis using assms None c by (intro exI [of _ ?m3]) (auto simp: budget_reserve_def)
  next
    case (Some l)
    let ?m2 = "?m\<lparr>m_budget := b', m_starting := m_starting ?m - {#n#}, m_leases := add_mset l (m_leases ?m)\<rparr>"
    have "budget_step ?m ?m2" using Some c by (intro budget_step.reserve_charged) simp_all
    then have "budget_steps m ?m2" using s by (meson converse_rtranclp_into_rtranclp rtranclp.rtrancl_refl)
    then show ?thesis using assms Some c by (intro exI [of _ ?m2]) (auto simp: budget_reserve_def)
  qed
qed

lemma lease_drop_steps:
  assumes "l \<in># m_leases m"
  shows "\<exists>m'. budget_steps m m' \<and> m_budget m' = lease_drop (m_budget m) l \<and> m_leases m' = m_leases m - {#l#} \<and> m_kept m' = m_kept m"
proof (cases "l_reserved l")
  case True
  let ?m = "m\<lparr>m_budget := lease_release (m_budget m) l, m_leases := m_leases m - {#l#}, m_dropping := add_mset l (m_dropping m)\<rparr>"
  let ?m2 = "?m\<lparr>m_budget := lease_count (m_budget ?m) l, m_dropping := m_dropping ?m - {#l#},
       m_released_total := m_released_total ?m + unat (l_bytes l)\<rparr>"
  have "budget_step m ?m" using assms True by (intro budget_step.released) simp
  moreover have "budget_step ?m ?m2" by (intro budget_step.release_counted) simp
  ultimately have "budget_steps m ?m2" by (meson converse_rtranclp_into_rtranclp rtranclp.rtrancl_refl)
  then show ?thesis by (intro exI [of _ ?m2]) (simp add: lease_drop_def)
next
  case False
  from r_into_rtranclp [of budget_step, OF budget_step.dropped [OF assms False]] show ?thesis
    by (intro exI [of _ "m\<lparr>m_budget := lease_drop (m_budget m) l, m_leases := m_leases m - {#l#}\<rparr>"]) simp
qed

subsection \<open>Properties\<close>

text \<open>
  C22. However the threads' leases, floors, reservations, drops and kept bytes and the libraries' charges and refunds interleave, the bytes in use are
  exactly those of the live leases and those charged without one, they never pass the limit, and every refused floor is counted.
\<close>

theorem budget_accounting:
  assumes "budget_steps (machine_new limit) m"
  shows "unat (b_used (m_budget m)) = (\<Sum>l \<in># m_leases m. unat (l_bytes l)) + m_kept m \<and>
    (\<Sum>l \<in># m_leases m. unat (l_bytes l)) + m_kept m \<le> unat limit \<and> b_limit (m_budget m) = limit \<and>
    b_refused_floors (m_budget m) = of_nat (m_floors_total m)"
  using machine_inv_steps [OF assms machine_inv_new] totals_grow [OF assms]
  by (auto simp: machine_inv_def word_le_nat_alt machine_new_def budget_new_def lease_bytes_all)

theorem budget_accounting_witness:
  "\<exists>m :: machine. budget_steps (machine_new 1000) m \<and> m_leases m = {#\<lparr>l_bytes = 600, l_reserved = True\<rparr>#} \<and> m_kept m = 100 \<and>
     m_floors_total m = 1 \<and> unat (b_used (m_budget m)) = 700"
proof -
  let ?l = "\<lparr>l_bytes = 600, l_reserved = True\<rparr>" and ?k = "\<lparr>l_bytes = 250, l_reserved = False\<rparr>"
  let ?b = "(budget_new 1000)\<lparr>b_used := 600, b_reserved := 600\<rparr>"
  have "budget_reserve (budget_new 1000) 600 = (Some ?l, ?b)"
    by (simp add: budget_reserve_def reserve_charge_def charge_def count_reserved_def budget_new_def)
  from budget_reserve_steps [of "machine_new 1000" 600, unfolded machine_new_def machine.simps, OF this]
  obtain m where m: "budget_steps (machine_new 1000) m" "m_budget m = ?b" "m_leases m = {#?l#}" "m_kept m = 0" "m_floors_total m = 0" by (auto simp: machine_new_def)
  let ?m1 = "m\<lparr>m_budget := ?b\<lparr>b_refused_floors := 1\<rparr>, m_floors_total := m_floors_total m + 1\<rparr>"
  let ?m2 = "?m1\<lparr>m_budget := ?b\<lparr>b_refused_floors := 1, b_used := 850\<rparr>, m_leases := {#?k, ?l#}\<rparr>"
  let ?m3 = "?m2\<lparr>m_budget := lease_keep (m_budget ?m2) ?k 100, m_leases := {#?l#}, m_kept := 100\<rparr>"
  have "budget_floor (m_budget m) 500 = (None, m_budget ?m1)" by (simp add: m(2) operation_defs charge_def budget_new_def)
  from budget_step.floor_refused [OF this] have 1: "budget_step m ?m1" by simp
  have "budget_lease (m_budget ?m1) 250 = (Some ?k, m_budget ?m2)" by (simp add: operation_defs charge_def budget_new_def)
  from budget_step.leased [OF this] have 2: "budget_step ?m1 ?m2" by (simp add: m(3) add_mset_commute)
  from budget_step.kept [of ?k ?m2 100] have 3: "budget_step ?m2 ?m3" by (simp add: m(4))
  from m(1) 1 2 3 have run: "budget_steps (machine_new 1000) ?m3" by (meson rtranclp.rtrancl_into_rtrancl)
  from budget_accounting [OF run] have "unat (b_used (m_budget ?m3)) = 700" by simp
  with run m(5) show ?thesis by (intro exI [of _ ?m3]) simp
qed

text \<open>
  \<open>unreserved\<close> loads the released bytes, then the used ones, then the reserved ones, while other threads go on. Its
  estimate of the bytes used past the reservations is never above those in use when it read \<open>used\<close>, and with no
  reservation under way it is exact. Less than \<open>2 ^ 64\<close> bytes are reserved between the first and the last load.
\<close>

theorem unreserved_never_overestimates:
  assumes "budget_steps (machine_new limit) m1" and "budget_steps m1 m2" and "budget_steps m2 m3"
    and "m_reserved_total m3 - m_released_total m1 < 2 ^ 64"
  shows "unat (snd (unreserved_of limit (b_released (m_budget m1)) (b_used (m_budget m2)) (b_reserved (m_budget m3))))
      \<le> (lease_bytes False (m_leases m2) + m_kept m2) \<and>
    (m_starting m2 = {#} \<and> m_refused m2 = {#} \<and> m_dropping m2 = {#} \<longrightarrow>
      unreserved (m_budget m2) = (limit - of_nat (lease_bytes True (m_leases m2)), of_nat ((lease_bytes False (m_leases m2) + m_kept m2))))"
proof -
  have inv: "machine_inv m1" "machine_inv m2" "machine_inv m3"
    using machine_inv_steps machine_inv_new assms(1-3) by blast+
  have lim: "b_limit (m_budget m2) = limit" using totals_grow [OF assms(1)] totals_grow [OF assms(2)]
    by (simp add: machine_new_def budget_new_def)
  let ?u = "b_used (m_budget m2)" and ?r3 = "m_reserved_total m3" and ?l1 = "m_released_total m1"
  have grow: "m_reserved_total m2 \<le> ?r3" "?l1 \<le> m_released_total m2" using totals_grow assms(2,3) by blast+
  have u: "unat ?u = (lease_bytes False (m_leases m2) + m_kept m2) + lease_bytes True (m_leases m2)" using inv(2) by (simp add: machine_inv_def)
  have r2: "m_reserved_total m2 = m_released_total m2 + lease_bytes True (m_leases m2) + bytes_total (m_starting m2) + bytes_total (m_refused m2) + lease_bytes True (m_dropping m2)"
    using inv(2) by (simp add: machine_inv_def)
  have le: "?l1 \<le> ?r3" using grow r2 by linarith
  have "b_reserved (m_budget m3) - b_released (m_budget m1) = of_nat (?r3 - ?l1)"
    using inv(1,3) le by (simp add: machine_inv_def of_nat_diff)
  then have est: "unat (b_reserved (m_budget m3) - b_released (m_budget m1)) = ?r3 - ?l1"
    using unat_of_small [of "?r3 - ?l1", where 'a = 64] assms(4) by simp
  have minu: "unat (min v w) = min (unat v) (unat w)" for v w :: u64 by (simp add: min_def word_le_nat_alt)
  have sub: "unat (?u - min v ?u) = unat ?u - min (unat v) (unat ?u)" for v
    by (subst unat_sub) (simp_all add: minu)
  have "unat (?u - min (b_reserved (m_budget m3) - b_released (m_budget m1)) ?u) \<le> (lease_bytes False (m_leases m2) + m_kept m2)"
    unfolding sub est using u r2 grow by linarith
  moreover have "unreserved (m_budget m2) = (limit - of_nat (lease_bytes True (m_leases m2)), of_nat ((lease_bytes False (m_leases m2) + m_kept m2)))"
    if q: "m_starting m2 = {#}" "m_refused m2 = {#} \<and> m_dropping m2 = {#}"
  proof -
    have d: "b_reserved (m_budget m2) - b_released (m_budget m2) = of_nat (lease_bytes True (m_leases m2))"
      using inv(2) q by (simp add: machine_inv_def)
    have uw: "?u = of_nat ((lease_bytes False (m_leases m2) + m_kept m2)) + of_nat (lease_bytes True (m_leases m2))"
      using unat_eq_imp [OF u] by (simp add: of_nat_add)
    have "unat (of_nat (lease_bytes True (m_leases m2)) :: u64) = lease_bytes True (m_leases m2)"
      using u unat_lt64 [of ?u] by (intro unat_of_small) simp
    then have "of_nat (lease_bytes True (m_leases m2)) \<le> ?u" using u by (simp add: word_le_nat_alt)
    then show ?thesis by (simp add: unreserved_def unreserved_of_def Let_def lim d min_absorb1) (simp add: uw)
  qed
  ultimately show ?thesis by (simp add: unreserved_of_def Let_def)
qed


theorem unreserved_never_overestimates_witness:
  "unat (snd (unreserved_of 1000 0 200 600)) \<le> 200"
proof -
  let ?b = "(budget_new 1000)\<lparr>b_used := 200\<rparr>"
  let ?m1 = "(machine_new 1000)\<lparr>m_budget := ?b, m_kept := 200\<rparr>"
  let ?m2 = "?m1\<lparr>m_budget := count_reserved ?b 600, m_starting := {#600#}, m_reserved_total := 600\<rparr>"
  have "budget_step (machine_new 1000) ?m1"
    using budget_step.charged [of "machine_new 1000" 200 ?b] by (simp add: machine_new_def try_charge_def charge_def budget_new_def)
  then have s1: "budget_steps (machine_new 1000) ?m1" by (rule r_into_rtranclp)
  have "budget_step ?m1 ?m2" using budget_step.reserve_counted [of ?m1 600] by (simp add: machine_new_def)
  then have s2: "budget_steps ?m1 ?m2" by (rule r_into_rtranclp)
  from unreserved_never_overestimates [OF s1 rtranclp.rtrancl_refl s2] show ?thesis
    by (simp add: machine_new_def budget_new_def count_reserved_def)
qed


text \<open>
  Counting one reserved byte too many lowers the bytes used and the limit alike, and where the limit's quarters round
  down that can raise the level instead of lowering it.
\<close>

lemma pressure_overcounted: "pressure_of 4000 2999 = Retry \<and> pressure_of (4000 - 1) (2999 - 1) = HoldBack"
  by (simp add: pressure_of_def)

end
