(* ===== verification/Quota.thy ===== *)
theory Quota
  imports Prelude Budget "HOL-Library.Multiset"
begin

text \<open>
  Quotas, \<^verbatim>\<open>rust/server/src/limits/quota.rs\<close>, over the client keys of \<^verbatim>\<open>rust/server/src/peer.rs\<close>. A quota is its
  configuration and the state its mutex guards; an operation returns the new state. Weights are natural numbers:
  what is held stays within the total, a \<open>usize\<close>. The truncation of an IPv6 address to a prefix belongs to
  the \<^verbatim>\<open>ipnet\<close> crate and is a parameter.
\<close>

subsection \<open>Client keys\<close>

type_synonym ipv4 = u32
type_synonym ipv6 = "128 word"

datatype client_key = KeyV4 ipv4 | KeyV6 ipv6 nat | KeyHolder string | KeyPrincipal string | KeyLease u64

datatype client_keys = Exempt | KeysV4 ipv4 | KeysV6 ipv6 | KeysAuth string string | KeysLease u64 client_keys

definition keys_charged :: "client_keys \<Rightarrow> client_keys" where
  "keys_charged ks = (case ks of KeysLease _ creator \<Rightarrow> creator | ks \<Rightarrow> ks)"

definition keys_iter :: "(ipv6 \<Rightarrow> nat \<Rightarrow> ipv6) \<Rightarrow> client_keys \<Rightarrow> client_key list" where
  "keys_iter trunc ks = (case ks of
       Exempt \<Rightarrow> []
     | KeysV4 ip \<Rightarrow> [KeyV4 ip]
     | KeysV6 ip \<Rightarrow> map (\<lambda>bits. KeyV6 (trunc ip bits) bits) [64, 56, 48]
     | KeysAuth holder owner \<Rightarrow> [KeyHolder holder, KeyPrincipal owner]
     | KeysLease ident _ \<Rightarrow> [KeyLease ident])"

definition keys_narrowest :: "(ipv6 \<Rightarrow> nat \<Rightarrow> ipv6) \<Rightarrow> client_keys \<Rightarrow> client_key option" where
  "keys_narrowest trunc ks = (case keys_iter trunc ks of [] \<Rightarrow> None | k # _ \<Rightarrow> Some k)"

definition saturating_mul :: "nat \<Rightarrow> nat \<Rightarrow> nat" where
  "saturating_mul a b = min (a * b) usize_max"

fun doubled :: "nat \<Rightarrow> 'a list \<Rightarrow> ('a \<times> nat) list" where
  "doubled share [] = []"
| "doubled share (k # ks) = (k, share) # doubled (saturating_mul share 2) ks"

definition keys_shares :: "(ipv6 \<Rightarrow> nat \<Rightarrow> ipv6) \<Rightarrow> client_keys \<Rightarrow> nat \<Rightarrow> (client_key \<times> nat) list" where
  "keys_shares trunc ks narrowest = doubled narrowest (keys_iter trunc ks)"

subsection \<open>The quota\<close>

datatype quota_total = Fixed nat | ClientWindows

record quota_config =
  qc_total :: quota_total
  qc_share :: nat
  qc_exempt :: "client_key option"

record quota_state =
  q_used :: nat
  q_peak :: nat
  q_held :: "client_key \<Rightarrow> nat option"
  q_refused_total :: nat
  q_refused_client :: nat

datatype full = Client | Total

datatype refusal = InvalidId | OwnerMismatch | RefusalIdle | RefusalRevoked | ClientLimit | ServerCapacity | WrongProtocol

definition refusal_of :: "full \<Rightarrow> refusal" where
  "refusal_of full = (case full of Client \<Rightarrow> ClientLimit | Total \<Rightarrow> ServerCapacity)"

record quota_usage =
  qu_active :: nat
  qu_peak :: nat
  qu_refused_total :: nat
  qu_refused_client :: nat

definition quota_state_default :: quota_state where
  "quota_state_default = \<lparr>q_used = 0, q_peak = 0, q_held = Map.empty, q_refused_total = 0, q_refused_client = 0\<rparr>"

definition quota_new :: "nat \<Rightarrow> nat \<Rightarrow> quota_config \<times> quota_state" where
  "quota_new bound share = (\<lparr>qc_total = Fixed bound, qc_share = share, qc_exempt = None\<rparr>, quota_state_default)"

definition quota_client_windows :: "nat \<Rightarrow> client_key option \<Rightarrow> quota_config \<times> quota_state" where
  "quota_client_windows share exempt =
     (\<lparr>qc_total = ClientWindows, qc_share = share, qc_exempt = exempt\<rparr>, quota_state_default)"

text \<open>The budget a quota of window credit draws on, and the truncation of addresses, are the context of each call.\<close>

record quota_context =
  x_trunc :: "ipv6 \<Rightarrow> nat \<Rightarrow> ipv6"
  x_budget :: budget

definition quota_limit :: "quota_context \<Rightarrow> quota_config \<Rightarrow> nat" where
  "quota_limit x c = (case qc_total c of Fixed bound \<Rightarrow> bound | ClientWindows \<Rightarrow> unat (client_windows (x_budget x)))"

definition quota_shares :: "(ipv6 \<Rightarrow> nat \<Rightarrow> ipv6) \<Rightarrow> quota_config \<Rightarrow> client_keys \<Rightarrow> (client_key \<times> nat) list" where
  "quota_shares trunc c ks = filter (\<lambda>(key, _). Some key \<noteq> qc_exempt c) (keys_shares trunc ks (qc_share c))"

definition quota_keys :: "(ipv6 \<Rightarrow> nat \<Rightarrow> ipv6) \<Rightarrow> quota_config \<Rightarrow> client_keys \<Rightarrow> client_key list" where
  "quota_keys trunc c ks = map fst (quota_shares trunc c ks)"

definition held_of :: "quota_state \<Rightarrow> client_key \<Rightarrow> nat" where
  "held_of q key = (case q_held q key of None \<Rightarrow> 0 | Some n \<Rightarrow> n)"

definition over_share :: "quota_context \<Rightarrow> quota_config \<Rightarrow> quota_state \<Rightarrow> client_keys \<Rightarrow> nat \<Rightarrow> bool" where
  "over_share x c q ks weight \<longleftrightarrow>
     list_ex (\<lambda>(key, share). saturating_add (held_of q key) weight > share) (quota_shares (x_trunc x) c ks)"

definition hold_keys :: "client_key list \<Rightarrow> nat \<Rightarrow> (client_key \<Rightarrow> nat option) \<Rightarrow> client_key \<Rightarrow> nat option" where
  "hold_keys keys weight held =
     foldl (\<lambda>held key. held(key \<mapsto> (case held key of None \<Rightarrow> 0 | Some n \<Rightarrow> n) + weight)) held keys"

definition quota_take :: "quota_context \<Rightarrow> quota_config \<Rightarrow> quota_state \<Rightarrow> client_keys \<Rightarrow> nat \<Rightarrow> quota_state" where
  "quota_take x c q ks weight =
     (let used = q_used q + weight
      in q\<lparr>q_used := used, q_peak := max (q_peak q) used, q_held := hold_keys (quota_keys (x_trunc x) c ks) weight (q_held q)\<rparr>)"

record hold =
  h_keys :: client_keys
  h_weight :: nat
  h_linked :: bool

text \<open>\<open>acquire_within\<close> with no outer quota, which is \<open>acquire\<close>.\<close>

definition quota_acquire ::
    "quota_context \<Rightarrow> quota_config \<Rightarrow> quota_state \<Rightarrow> client_keys \<Rightarrow> nat \<Rightarrow> (full + hold) \<times> quota_state" where
  "quota_acquire x c q ks weight =
     (if over_share x c q ks weight then (Inl Client, q\<lparr>q_refused_client := q_refused_client q + 1\<rparr>)
      else if saturating_add (q_used q) weight > quota_limit x c
      then (Inl Total, q\<lparr>q_refused_total := q_refused_total q + 1\<rparr>)
      else (Inr \<lparr>h_keys = ks, h_weight = weight, h_linked = False\<rparr>, quota_take x c q ks weight))"

definition release_key :: "nat \<Rightarrow> (client_key \<Rightarrow> nat option) \<Rightarrow> client_key \<Rightarrow> client_key \<Rightarrow> nat option" where
  "release_key weight held key = (case held key of
       None \<Rightarrow> held
     | Some n \<Rightarrow> if n - weight = 0 then held(key := None) else held(key \<mapsto> n - weight))"

text \<open>
  \<open>drop\<close> of a hold: the new state and whether the waiters of \<open>idle\<close> are notified. The hold it links is dropped after it.
\<close>

definition quota_drop ::
    "quota_context \<Rightarrow> quota_config \<Rightarrow> quota_state \<Rightarrow> hold \<Rightarrow> quota_state \<times> bool" where
  "quota_drop x c q h =
     (let used = q_used q - h_weight h
      in (q\<lparr>q_used := used,
            q_held := foldl (release_key (h_weight h)) (q_held q) (quota_keys (x_trunc x) c (h_keys h))\<rparr>, used = 0))"

text \<open>
  \<open>acquire_within\<close> an outer quota: this client share, then the outer total, then this total. The outer hold is
  dropped again when this total refuses.
\<close>

definition quota_acquire_within ::
    "quota_context \<Rightarrow> quota_config \<Rightarrow> quota_state \<Rightarrow> quota_config \<Rightarrow> quota_state \<Rightarrow> client_keys \<Rightarrow> nat \<Rightarrow>
     (full + hold) \<times> quota_state \<times> quota_state" where
  "quota_acquire_within x c q oc oq ks weight =
     (if over_share x c q ks weight then (Inl Client, q\<lparr>q_refused_client := q_refused_client q + 1\<rparr>, oq)
      else case quota_acquire x oc oq Exempt weight of
          (Inl e, oq) \<Rightarrow> (Inl e, q, oq)
        | (Inr outer, oq) \<Rightarrow>
            if saturating_add (q_used q) weight > quota_limit x c
            then (Inl Total, q\<lparr>q_refused_total := q_refused_total q + 1\<rparr>, fst (quota_drop x oc oq outer))
            else (Inr \<lparr>h_keys = ks, h_weight = weight, h_linked = True\<rparr>, quota_take x c q ks weight, oq))"

definition quota_holds_any :: "quota_context \<Rightarrow> quota_config \<Rightarrow> quota_state \<Rightarrow> client_keys \<Rightarrow> bool" where
  "quota_holds_any x c q ks \<longleftrightarrow> list_ex (\<lambda>key. q_held q key \<noteq> None) (quota_keys (x_trunc x) c ks)"

definition quota_usage_of :: "quota_state \<Rightarrow> quota_usage" where
  "quota_usage_of q = \<lparr>qu_active = q_used q, qu_peak = q_peak q, qu_refused_total = q_refused_total q,
     qu_refused_client = q_refused_client q\<rparr>"


subsection \<open>What a quota holds\<close>

text \<open>A key always stands at the same place of the keys it is listed in, so its share is its own.\<close>

definition key_share :: "nat \<Rightarrow> client_key \<Rightarrow> nat" where
  "key_share share key = (case key of
       KeyV6 _ bits \<Rightarrow> if bits = 56 then saturating_mul share 2
         else if bits = 48 then saturating_mul (saturating_mul share 2) 2 else share
     | KeyPrincipal _ \<Rightarrow> saturating_mul share 2
     | _ \<Rightarrow> share)"

lemma keys_shares_eq: "keys_shares trunc ks share = map (\<lambda>k. (k, key_share share k)) (keys_iter trunc ks)"
  by (cases ks) (simp_all add: keys_shares_def keys_iter_def key_share_def)

lemma quota_shares_eq: "quota_shares trunc c ks = map (\<lambda>k. (k, key_share (qc_share c) k)) (quota_keys trunc c ks)"
  by (simp add: quota_keys_def quota_shares_def keys_shares_eq filter_map o_def)

lemma distinct_keys: "distinct (quota_keys trunc c ks)"
proof -
  have "distinct (keys_iter trunc ks)" by (cases ks) (simp_all add: keys_iter_def)
  then show ?thesis by (simp add: quota_keys_def quota_shares_def keys_shares_eq filter_map o_def)
qed

lemma quota_keys_Exempt [simp]: "quota_keys trunc c Exempt = []"
  by (simp add: quota_keys_def quota_shares_def keys_shares_eq keys_iter_def)

definition count_at :: "(client_key \<Rightarrow> nat option) \<Rightarrow> client_key \<Rightarrow> nat" where
  "count_at held key = (case held key of None \<Rightarrow> 0 | Some n \<Rightarrow> n)"

lemma held_of_count: "held_of q key = count_at (q_held q) key"
  by (simp add: held_of_def count_at_def)

lemma count_hold_keys:
  "distinct keys \<Longrightarrow> count_at (hold_keys keys w held) k = count_at held k + (if k \<in> set keys then w else 0)"
proof (induction keys arbitrary: held)
  case (Cons key keys)
  then show ?case by (auto simp: hold_keys_def count_at_def split: option.splits)
qed (simp add: hold_keys_def)

lemma hold_keys_some:
  "0 < w \<Longrightarrow> held k \<noteq> Some 0 \<Longrightarrow> hold_keys keys w held k \<noteq> Some 0"
proof (induction keys arbitrary: held)
  case (Cons key keys)
  then show ?case by (auto simp: hold_keys_def split: option.splits)
qed (simp add: hold_keys_def)

lemma count_release_keys:
  "distinct keys \<Longrightarrow> count_at (foldl (release_key w) held keys) k = count_at held k - (if k \<in> set keys then w else 0)"
proof (induction keys arbitrary: held)
  case (Cons key keys)
  have "count_at (release_key w held key) k = count_at held k - (if k = key then w else 0)"
    by (auto simp: release_key_def count_at_def split: option.splits)
  then show ?case using Cons by (auto simp: Cons.IH)
qed simp

lemma release_keys_some: "held k \<noteq> Some 0 \<Longrightarrow> foldl (release_key w) held keys k \<noteq> Some 0"
proof (induction keys arbitrary: held)
  case (Cons key keys)
  then have "release_key w held key k \<noteq> Some 0" by (auto simp: release_key_def split: option.splits)
  then show ?case using Cons.IH by simp
qed simp

text \<open>The holds not yet dropped account for all a quota counts, and no bound is passed.\<close>

definition weights :: "hold multiset \<Rightarrow> nat" where
  "weights H = (\<Sum>h \<in># H. h_weight h)"

definition key_weights :: "(ipv6 \<Rightarrow> nat \<Rightarrow> ipv6) \<Rightarrow> quota_config \<Rightarrow> hold multiset \<Rightarrow> client_key \<Rightarrow> nat" where
  "key_weights trunc c H k = (\<Sum>h \<in># H. if k \<in> set (quota_keys trunc c (h_keys h)) then h_weight h else 0)"

lemma weights_simps [simp]:
  "weights {#} = 0" "weights (add_mset h H) = h_weight h + weights H"
  by (simp_all add: weights_def)

lemma key_weights_simps [simp]:
  "key_weights trunc c {#} k = 0"
  "key_weights trunc c (add_mset h H) k = (if k \<in> set (quota_keys trunc c (h_keys h)) then h_weight h else 0) + key_weights trunc c H k"
  by (simp_all add: key_weights_def)

lemma weights_remove:
  assumes "h \<in># H"
  shows "weights H = h_weight h + weights (H - {#h#})"
    and "key_weights trunc c H k = (if k \<in> set (quota_keys trunc c (h_keys h)) then h_weight h else 0) + key_weights trunc c (H - {#h#}) k"
  using assms by (metis insert_DiffM weights_simps(2), metis insert_DiffM key_weights_simps(2))

definition quota_inv :: "(ipv6 \<Rightarrow> nat \<Rightarrow> ipv6) \<Rightarrow> quota_config \<Rightarrow> quota_state \<Rightarrow> hold multiset \<Rightarrow> bool" where
  "quota_inv trunc c q H \<longleftrightarrow>
     q_used q = weights H \<and> q_used q \<le> q_peak q \<and>
     (\<forall>k. held_of q k = key_weights trunc c H k) \<and>
     (\<forall>k. key_share (qc_share c) k < usize_max \<longrightarrow> held_of q k \<le> key_share (qc_share c) k) \<and>
     (\<forall>n. qc_total c = Fixed n \<longrightarrow> n < usize_max \<longrightarrow> q_peak q \<le> n) \<and>
     (\<forall>k. q_held q k = Some 0 \<longrightarrow> (\<exists>h \<in># H. h_weight h = 0 \<and> k \<in> set (quota_keys trunc c (h_keys h))))"

lemma quota_inv_start: "quota_inv trunc c quota_state_default {#}"
  by (simp add: quota_inv_def quota_state_default_def held_of_def)

lemma quota_inv_counters:
  "quota_inv trunc c (q\<lparr>q_refused_client := n\<rparr>) H = quota_inv trunc c q H"
  "quota_inv trunc c (q\<lparr>q_refused_total := n\<rparr>) H = quota_inv trunc c q H"
  by (simp_all add: quota_inv_def held_of_def)

lemma not_over_share:
  assumes "\<not> over_share x c q ks w" and "k \<in> set (quota_keys (x_trunc x) c ks)" and "key_share (qc_share c) k < usize_max"
  shows "held_of q k + w \<le> key_share (qc_share c) k"
  using assms by (fastforce simp: over_share_def quota_shares_eq list_ex_iff saturating_add_def)

lemma hold_keys_zero:
  "hold_keys keys w held k = Some 0 \<Longrightarrow> held k = Some 0 \<or> (w = 0 \<and> k \<in> set keys)"
proof (induction keys arbitrary: held)
  case (Cons key keys)
  then show ?case by (fastforce simp: hold_keys_def split: option.splits if_splits)
qed (simp add: hold_keys_def)

lemma release_keys_zero:
  "foldl (release_key w) held keys k = Some 0 \<Longrightarrow> held k = Some 0 \<and> k \<notin> set keys"
proof (induction keys arbitrary: held)
  case (Cons key keys)
  then have "release_key w held key k = Some 0 \<and> k \<notin> set keys" by simp
  then show ?case by (auto simp: release_key_def split: option.splits if_splits)
qed simp

lemma quota_take_inv:
  assumes inv: "quota_inv (x_trunc x) c q H" and share: "\<not> over_share x c q ks w"
    and room: "\<not> saturating_add (q_used q) w > quota_limit x c" and h: "h_keys h = ks" "h_weight h = w"
  shows "quota_inv (x_trunc x) c (quota_take x c q ks w) (add_mset h H)"
proof -
  let ?q = "quota_take x c q ks w" and ?t = "x_trunc x"
  have held: "held_of ?q k = held_of q k + (if k \<in> set (quota_keys ?t c ks) then w else 0)" for k
    by (simp add: held_of_count quota_take_def Let_def count_hold_keys distinct_keys)
  have "held_of ?q k = key_weights ?t c (add_mset h H) k" for k
    using inv held [of k] h by (simp add: quota_inv_def)
  moreover have "held_of ?q k \<le> key_share (qc_share c) k" if "key_share (qc_share c) k < usize_max" for k
    using held [of k] not_over_share [OF share _ that] inv that by (auto simp: quota_inv_def)
  moreover have "q_peak ?q \<le> n" if "qc_total c = Fixed n" "n < usize_max" for n
    using inv room that by (auto simp: quota_inv_def quota_take_def Let_def quota_limit_def saturating_add_def)
  moreover have "\<exists>h' \<in># add_mset h H. h_weight h' = 0 \<and> k \<in> set (quota_keys ?t c (h_keys h'))" if "q_held ?q k = Some 0" for k
    using inv hold_keys_zero [of "quota_keys ?t c ks" w "q_held q" k] that h
    by (auto simp: quota_inv_def quota_take_def Let_def)
  ultimately show ?thesis using inv h by (simp add: quota_inv_def quota_take_def Let_def)
qed

lemma quota_acquire_inv:
  assumes "quota_inv (x_trunc x) c q H" and "quota_acquire x c q ks w = (r, q')"
  shows "quota_inv (x_trunc x) c q' (case r of Inl _ \<Rightarrow> H | Inr h \<Rightarrow> add_mset h H)"
  using assms quota_take_inv [OF assms(1), of ks w]
  by (auto simp: quota_acquire_def quota_inv_counters split: if_splits)

lemma quota_drop_inv:
  assumes inv: "quota_inv (x_trunc x) c q H" and h: "h \<in># H"
  shows "quota_inv (x_trunc x) c (fst (quota_drop x c q h)) (H - {#h#})"
proof -
  let ?q = "fst (quota_drop x c q h)" and ?t = "x_trunc x"
  note w = weights_remove [OF h]
  have held: "held_of ?q k = held_of q k - (if k \<in> set (quota_keys ?t c (h_keys h)) then h_weight h else 0)" for k
    by (simp add: held_of_count quota_drop_def Let_def count_release_keys distinct_keys)
  have "held_of ?q k = key_weights ?t c (H - {#h#}) k" for k
    using inv held [of k] w(2) [of ?t c k] by (simp add: quota_inv_def)
  moreover have "held_of ?q k \<le> key_share (qc_share c) k" if "key_share (qc_share c) k < usize_max" for k
    using inv held [of k] that by (fastforce simp: quota_inv_def intro: le_trans [OF diff_le_self])
  moreover have "\<exists>h' \<in># H - {#h#}. h_weight h' = 0 \<and> k \<in> set (quota_keys ?t c (h_keys h'))" if z: "q_held ?q k = Some 0" for k
  proof -
    from z have k: "q_held q k = Some 0" "k \<notin> set (quota_keys ?t c (h_keys h))"
      using release_keys_zero [of "h_weight h" "q_held q" _ k] by (auto simp: quota_drop_def Let_def)
    then obtain h' where "h' \<in># H" "h_weight h' = 0" "k \<in> set (quota_keys ?t c (h_keys h'))"
      using inv by (auto simp: quota_inv_def)
    with k(2) show ?thesis by (metis insert_DiffM insert_noteq_member h)
  qed
  ultimately show ?thesis using inv w(1) by (simp add: quota_inv_def quota_drop_def Let_def)
qed


lemma quota_within_inv:
  assumes inv: "quota_inv (x_trunc x) c q H" "quota_inv (x_trunc x) oc oq J"
    and run: "quota_acquire_within x c q oc oq ks w = (r, q', oq')"
  shows "(case r of
       Inl _ \<Rightarrow> quota_inv (x_trunc x) c q' H \<and> quota_inv (x_trunc x) oc oq' J
     | Inr h \<Rightarrow> h_linked h \<and> quota_inv (x_trunc x) c q' (add_mset h H) \<and>
         quota_inv (x_trunc x) oc oq' (add_mset \<lparr>h_keys = Exempt, h_weight = h_weight h, h_linked = False\<rparr> J))"
proof (cases "over_share x c q ks w")
  case True
  then show ?thesis using run inv by (auto simp: quota_acquire_within_def quota_inv_counters)
next
  case False
  obtain ro oq1 where o: "quota_acquire x oc oq Exempt w = (ro, oq1)" by (cases "quota_acquire x oc oq Exempt w")
  note outer = quota_acquire_inv [OF inv(2) o]
  show ?thesis
  proof (cases ro)
    case (Inl e)
    then show ?thesis using run inv outer False o by (auto simp: quota_acquire_within_def)
  next
    case (Inr ho)
    have ho: "ho = \<lparr>h_keys = Exempt, h_weight = w, h_linked = False\<rparr>" using o Inr by (auto simp: quota_acquire_def split: if_splits)
    show ?thesis
    proof (cases "saturating_add (q_used q) w > quota_limit x c")
      case True
      have "quota_inv (x_trunc x) oc (fst (quota_drop x oc oq1 ho)) (add_mset ho J - {#ho#})"
        using outer Inr by (intro quota_drop_inv) simp_all
      then show ?thesis using run inv False o Inr True by (auto simp: quota_acquire_within_def quota_inv_counters)
    next
      case room: False
      then show ?thesis
        using run False o Inr outer ho quota_take_inv [OF inv(1) False room]
        by (auto simp: quota_acquire_within_def)
    qed
  qed
qed

subsection \<open>Pools\<close>

text \<open>
  The contract a client of a quota relies on: holds come from \<open>grab\<close>, go back by \<open>give\<close>, and the invariant relates the
  pool to the holds not yet given back. A refusal changes nothing the holds account for.
\<close>

fun take_loop :: "('q \<Rightarrow> ('e + 'h) \<times> 'q) \<Rightarrow> nat \<Rightarrow> 'h list \<Rightarrow> 'q \<Rightarrow> 'e option \<times> 'h list \<times> 'q" where
  "take_loop grab 0 got q = (None, got, q)"
| "take_loop grab (Suc n) got q = (case grab q of
       (Inl e, q) \<Rightarrow> (Some e, got, q)
     | (Inr h, q) \<Rightarrow> take_loop grab n (got @ [h]) q)"

locale pool =
  fixes grab :: "'q \<Rightarrow> ('e + 'h) \<times> 'q"
    and give :: "'q \<Rightarrow> 'h \<Rightarrow> 'q"
    and inv :: "'q \<Rightarrow> 'h multiset \<Rightarrow> bool"
  assumes take_ok: "inv q H \<Longrightarrow> grab q = (Inr h, q') \<Longrightarrow> inv q' (add_mset h H)"
    and take_refused: "inv q H \<Longrightarrow> grab q = (Inl e, q') \<Longrightarrow> inv q' H"
    and give_ok: "inv q H \<Longrightarrow> h \<in># H \<Longrightarrow> inv (give q h) (H - {#h#})"
begin

lemma take_loop_inv:
  "inv q H \<Longrightarrow> take_loop grab n got q = (r, got', q') \<Longrightarrow>
     \<exists>new. got' = got @ new \<and> inv q' (H + mset new) \<and> (r = None \<longrightarrow> length new = n)"
proof (induction n arbitrary: got q H)
  case 0
  then show ?case by (intro exI [of _ "[]"]) simp
next
  case (Suc n)
  obtain t q1 where t: "grab q = (t, q1)" by (cases "grab q")
  show ?case
  proof (cases t)
    case (Inl e)
    then show ?thesis using Suc.prems t take_refused [OF Suc.prems(1)] by (intro exI [of _ "[]"]) auto
  next
    case (Inr h)
    then have i: "inv q1 (add_mset h H)" using take_ok [OF Suc.prems(1)] t by simp
    have "take_loop grab n (got @ [h]) q1 = (r, got', q')" using Suc.prems(2) t Inr by simp
    from Suc.IH [OF i this] obtain new where "got' = (got @ [h]) @ new" "inv q' (add_mset h H + mset new)"
      "r = None \<longrightarrow> length new = n" by blast
    then show ?thesis by (intro exI [of _ "h # new"]) simp
  qed
qed

lemma give_all: "inv q (H + mset hs) \<Longrightarrow> inv (foldl give q hs) H"
proof (induction hs arbitrary: q)
  case (Cons h hs)
  then have "inv (give q h) (H + mset (h # hs) - {#h#})" by (intro give_ok) simp_all
  then show ?case using Cons.IH by simp
qed simp

end

end
