(* ===== verification/Quotas.thy ===== *)
theory Quotas
  imports Quota
begin

text \<open>
  The server's quotas, \<^verbatim>\<open>rust/server/src/limits/mod.rs\<close>: connections, handshakes, operations, sessions and window
  credit, each a quota of its own. A hold remembers its quota; one of a session taken within the operations also
  links an exempt hold there. Only the log lines are left out.
\<close>

subsection \<open>The model\<close>

definition WINDOWS_PER_CLIENT :: nat where
  "WINDOWS_PER_CLIENT = 8"

definition RECEIVE_WINDOW :: nat where
  "RECEIVE_WINDOW = 48 * 2 ^ 20"

definition RECEIVE_WINDOW_FLOOR :: nat where
  "RECEIVE_WINDOW_FLOOR = 64 * 2 ^ 10"

definition CONNECTION_CREDIT :: nat where
  "CONNECTION_CREDIT = RECEIVE_WINDOW - RECEIVE_WINDOW_FLOOR"

record limits =
  lm_operations :: nat
  lm_operations_per_client :: nat
  lm_sessions :: nat
  lm_sessions_per_client :: nat
  lm_connections :: nat
  lm_connections_per_client :: nat

datatype quota_kind = Connections | Handshakes | Operations | Sessions | Credit

type_synonym quota = "quota_config \<times> quota_state"

record quotas =
  qs_limits :: limits
  qs_connections :: quota
  qs_handshakes :: quota
  qs_operations :: quota
  qs_sessions :: quota
  qs_credit :: quota

definition quotas_new :: "limits \<Rightarrow> client_key option \<Rightarrow> quotas" where
  "quotas_new l operator = \<lparr>qs_limits = l,
     qs_connections = quota_new (lm_connections l) (lm_connections_per_client l),
     qs_handshakes = quota_new usize_max usize_max,
     qs_operations = quota_new (lm_operations l) (lm_operations_per_client l),
     qs_sessions = quota_new (lm_sessions l) (lm_sessions_per_client l),
     qs_credit = quota_client_windows (WINDOWS_PER_CLIENT * CONNECTION_CREDIT) operator\<rparr>"

fun quota_at :: "quotas \<Rightarrow> quota_kind \<Rightarrow> quota" where
  "quota_at qs Connections = qs_connections qs"
| "quota_at qs Handshakes = qs_handshakes qs"
| "quota_at qs Operations = qs_operations qs"
| "quota_at qs Sessions = qs_sessions qs"
| "quota_at qs Credit = qs_credit qs"

fun put_state :: "quotas \<Rightarrow> quota_kind \<Rightarrow> quota_state \<Rightarrow> quotas" where
  "put_state qs Connections q = qs\<lparr>qs_connections := (fst (qs_connections qs), q)\<rparr>"
| "put_state qs Handshakes q = qs\<lparr>qs_handshakes := (fst (qs_handshakes qs), q)\<rparr>"
| "put_state qs Operations q = qs\<lparr>qs_operations := (fst (qs_operations qs), q)\<rparr>"
| "put_state qs Sessions q = qs\<lparr>qs_sessions := (fst (qs_sessions qs), q)\<rparr>"
| "put_state qs Credit q = qs\<lparr>qs_credit := (fst (qs_credit qs), q)\<rparr>"

text \<open>A hold with the quota it is of.\<close>

record qhold =
  qh_kind :: quota_kind
  qh_hold :: hold

definition acquire_from ::
    "quota_context \<Rightarrow> quota_kind \<Rightarrow> client_keys \<Rightarrow> nat \<Rightarrow> quotas \<Rightarrow> (full + qhold) \<times> quotas" where
  "acquire_from x kind ks weight qs =
     (let (c, q) = quota_at qs kind;
          (r, q) = quota_acquire x c q ks weight
      in (map_sum id (\<lambda>h. \<lparr>qh_kind = kind, qh_hold = h\<rparr>) r, put_state qs kind q))"

definition quotas_connection :: "quota_context \<Rightarrow> client_keys \<Rightarrow> quotas \<Rightarrow> qhold option \<times> quotas" where
  "quotas_connection x ks qs = (case acquire_from x Connections ks 1 qs of
       (Inr hold, qs) \<Rightarrow> (Some hold, qs)
     | (Inl _, qs) \<Rightarrow> (None, qs))"

definition quotas_handshake :: "quota_context \<Rightarrow> client_keys \<Rightarrow> quotas \<Rightarrow> qhold option \<times> quotas" where
  "quotas_handshake x ks qs = (case acquire_from x Handshakes ks 1 qs of
       (Inr hold, qs) \<Rightarrow> (Some hold, qs)
     | (Inl _, qs) \<Rightarrow> (None, qs))"

definition quotas_handshaking :: "quota_context \<Rightarrow> client_keys \<Rightarrow> quotas \<Rightarrow> bool" where
  "quotas_handshaking x ks qs = quota_holds_any x (fst (qs_handshakes qs)) (snd (qs_handshakes qs)) ks"

definition connections_crowded :: "quotas \<Rightarrow> bool" where
  "connections_crowded qs \<longleftrightarrow> qu_active (quota_usage_of (snd (qs_connections qs))) \<ge> lm_connections (qs_limits qs) div 4"

definition quotas_operation :: "quota_context \<Rightarrow> client_keys \<Rightarrow> quotas \<Rightarrow> (full + qhold) \<times> quotas" where
  "quotas_operation x ks qs = acquire_from x Operations ks 1 qs"

definition quotas_session :: "quota_context \<Rightarrow> client_keys \<Rightarrow> quotas \<Rightarrow> (full + qhold) \<times> quotas" where
  "quotas_session x ks qs =
     (let (c, q) = qs_sessions qs; (oc, oq) = qs_operations qs;
          (r, q, oq) = quota_acquire_within x c q oc oq ks 1
      in (map_sum id (\<lambda>h. \<lparr>qh_kind = Sessions, qh_hold = h\<rparr>) r, put_state (put_state qs Sessions q) Operations oq))"

definition session_beside_handler :: "quota_context \<Rightarrow> client_keys \<Rightarrow> quotas \<Rightarrow> (full + qhold) \<times> quotas" where
  "session_beside_handler x ks qs = acquire_from x Sessions ks 1 qs"

definition quotas_credit :: "quota_context \<Rightarrow> client_keys \<Rightarrow> nat \<Rightarrow> quotas \<Rightarrow> qhold option \<times> quotas" where
  "quotas_credit x ks bytes qs = (case acquire_from x Credit ks bytes qs of
       (Inr hold, qs) \<Rightarrow> (Some hold, qs)
     | (Inl _, qs) \<Rightarrow> (None, qs))"

definition quotas_load :: "quotas \<Rightarrow> nat \<times> nat" where
  "quotas_load qs = (qu_active (quota_usage_of (snd (qs_operations qs))), lm_operations (qs_limits qs))"

definition quotas_connections :: "quotas \<Rightarrow> nat" where
  "quotas_connections qs = qu_active (quota_usage_of (snd (qs_connections qs)))"

text \<open>Dropping a hold releases its quota and then the operations it links.\<close>

definition linked_hold :: "hold \<Rightarrow> hold" where
  "linked_hold h = \<lparr>h_keys = Exempt, h_weight = h_weight h, h_linked = False\<rparr>"

definition drop_from :: "quota_context \<Rightarrow> quota_kind \<Rightarrow> hold \<Rightarrow> quotas \<Rightarrow> quotas" where
  "drop_from x kind h qs = (let (c, q) = quota_at qs kind in put_state qs kind (fst (quota_drop x c q h)))"

definition quotas_drop :: "quota_context \<Rightarrow> quotas \<Rightarrow> qhold \<Rightarrow> quotas" where
  "quotas_drop x qs qh =
     (let h = qh_hold qh; qs = drop_from x (qh_kind qh) h qs
      in if h_linked h then drop_from x Operations (linked_hold h) qs else qs)"

subsection \<open>All quotas at once\<close>

lemma put_state_at [simp]:
  "quota_at (put_state qs k q) k' = (if k = k' then (fst (quota_at qs k), q) else quota_at qs k')"
  "qs_limits (put_state qs k q) = qs_limits qs"
  by (cases k; cases k'; simp)+

declare put_state.simps [simp del]

lemma quota_at_fields: "qs_sessions qs = quota_at qs Sessions" "qs_operations qs = quota_at qs Operations"
  by simp_all

lemma quota_at_new: "snd (quota_at (quotas_new l operator) kind) = quota_state_default"
  by (cases kind) (simp_all add: quotas_new_def quota_new_def quota_client_windows_def)

declare quota_at.simps [simp del]

text \<open>The holds of one quota among all that are not yet dropped, with the ones that sessions link.\<close>

definition holds_of :: "quota_kind \<Rightarrow> qhold multiset \<Rightarrow> hold multiset" where
  "holds_of kind G = image_mset qh_hold (filter_mset (\<lambda>qh. qh_kind qh = kind) G) +
     (if kind = Operations then image_mset (\<lambda>qh. linked_hold (qh_hold qh)) (filter_mset (\<lambda>qh. h_linked (qh_hold qh)) G) else {#})"

lemma holds_of_add [simp]:
  "holds_of kind {#} = {#}"
  "holds_of kind (add_mset qh G) =
     (if qh_kind qh = kind then {#qh_hold qh#} else {#}) +
     (if kind = Operations \<and> h_linked (qh_hold qh) then {#linked_hold (qh_hold qh)#} else {#}) + holds_of kind G"
  by (simp_all add: holds_of_def)

definition quotas_inv :: "(ipv6 \<Rightarrow> nat \<Rightarrow> ipv6) \<Rightarrow> quotas \<Rightarrow> qhold multiset \<Rightarrow> bool" where
  "quotas_inv trunc qs G \<longleftrightarrow>
     (\<forall>kind. quota_inv trunc (fst (quota_at qs kind)) (snd (quota_at qs kind)) (holds_of kind G)) \<and>
     (\<forall>qh \<in># G. h_linked (qh_hold qh) \<longrightarrow> qh_kind qh = Sessions)"

lemma quotas_inv_new: "quotas_inv trunc (quotas_new l operator) {#}"
  by (simp add: quotas_inv_def quota_inv_start quota_at_new)

lemma acquire_from_inv:
  assumes inv: "quotas_inv (x_trunc x) qs G" and run: "acquire_from x kind ks w qs = (r, qs')"
  shows "quotas_inv (x_trunc x) qs' (case r of Inl _ \<Rightarrow> G | Inr qh \<Rightarrow> add_mset qh G)"
proof -
  obtain c q where cq: "quota_at qs kind = (c, q)" by (cases "quota_at qs kind")
  obtain r1 q1 where a: "quota_acquire x c q ks w = (r1, q1)" by (cases "quota_acquire x c q ks w")
  have qi: "quota_inv (x_trunc x) c q (holds_of kind G)" using inv cq by (auto simp: quotas_inv_def dest: spec [of _ kind])
  note step = quota_acquire_inv [OF qi a]
  have nl: "\<not> h_linked h" if "r1 = Inr h" for h using a that by (auto simp: quota_acquire_def split: if_splits)
  have r: "r = map_sum id (\<lambda>h. \<lparr>qh_kind = kind, qh_hold = h\<rparr>) r1" "qs' = put_state qs kind q1"
    using run cq a by (simp_all add: acquire_from_def)
  show ?thesis
    using inv step nl cq by (cases r1) (auto simp: r quotas_inv_def)
qed

lemma session_inv:
  assumes inv: "quotas_inv (x_trunc x) qs G" and run: "quotas_session x ks qs = (r, qs')"
  shows "quotas_inv (x_trunc x) qs' (case r of Inl _ \<Rightarrow> G | Inr qh \<Rightarrow> add_mset qh G)"
proof -
  obtain c q where cq: "quota_at qs Sessions = (c, q)" by (cases "quota_at qs Sessions")
  obtain oc oq where o: "quota_at qs Operations = (oc, oq)" by (cases "quota_at qs Operations")
  obtain r1 q1 oq1 where a: "quota_acquire_within x c q oc oq ks 1 = (r1, q1, oq1)" by (metis prod_cases3)
  have qi: "quota_inv (x_trunc x) c q (holds_of Sessions G)" "quota_inv (x_trunc x) oc oq (holds_of Operations G)"
    using inv cq o by (auto simp: quotas_inv_def dest: spec [of _ Sessions] spec [of _ Operations])
  note step = quota_within_inv [OF qi a]
  have r: "r = map_sum id (\<lambda>h. \<lparr>qh_kind = Sessions, qh_hold = h\<rparr>) r1" "qs' = put_state (put_state qs Sessions q1) Operations oq1"
    using run cq o a by (simp_all add: quotas_session_def quota_at_fields)
  show ?thesis
    using inv step cq o by (cases r1) (auto simp: r quotas_inv_def linked_hold_def)
qed


lemma drop_from_at:
  "quota_at (drop_from x kind h qs) k = (if k = kind
     then (fst (quota_at qs kind), fst (quota_drop x (fst (quota_at qs kind)) (snd (quota_at qs kind)) h)) else quota_at qs k)"
  by (simp add: drop_from_def case_prod_unfold Let_def)

lemma quotas_drop_inv:
  assumes inv: "quotas_inv (x_trunc x) qs G" and g: "qh \<in># G"
  shows "quotas_inv (x_trunc x) (quotas_drop x qs qh) (G - {#qh#})"
proof -
  let ?h = "qh_hold qh" and ?k = "qh_kind qh" and ?t = "x_trunc x"
  let ?R = "G - {#qh#}"
  have G: "G = add_mset qh ?R" using g by simp
  have part: "holds_of kind G = (if ?k = kind then {#?h#} else {#}) +
     (if kind = Operations \<and> h_linked ?h then {#linked_hold ?h#} else {#}) + holds_of kind ?R" for kind
    by (subst G) simp
  have link: "h_linked ?h \<Longrightarrow> ?k = Sessions" using inv g by (auto simp: quotas_inv_def)
  have qi: "quota_inv ?t (fst (quota_at qs kind)) (snd (quota_at qs kind)) (holds_of kind G)" for kind
    using inv by (simp add: quotas_inv_def)
  have own: "quota_inv ?t (fst (quota_at qs ?k)) (fst (quota_drop x (fst (quota_at qs ?k)) (snd (quota_at qs ?k)) ?h)) (holds_of ?k G - {#?h#})"
    using part [of ?k] by (intro quota_drop_inv qi) simp
  have outer: "quota_inv ?t (fst (quota_at qs Operations))
      (fst (quota_drop x (fst (quota_at qs Operations)) (snd (quota_at qs Operations)) (linked_hold ?h)))
      (holds_of Operations G - {#linked_hold ?h#})" if "h_linked ?h"
    using part [of Operations] that link by (intro quota_drop_inv qi) simp
  have "quota_inv ?t (fst (quota_at (quotas_drop x qs qh) kind)) (snd (quota_at (quotas_drop x qs qh) kind)) (holds_of kind ?R)" for kind
  proof (cases "h_linked ?h")
    case True
    then have k: "?k = Sessions" by (rule link)
    have "holds_of Sessions G - {#?h#} = holds_of Sessions ?R" "holds_of Operations G - {#linked_hold ?h#} = holds_of Operations ?R"
      "kind \<noteq> Sessions \<Longrightarrow> kind \<noteq> Operations \<Longrightarrow> holds_of kind G = holds_of kind ?R"
      using part [of Sessions] part [of Operations] part [of kind] k True by simp_all
    then show ?thesis using own outer [OF True] qi [of kind] True k
      by (auto simp: quotas_drop_def Let_def drop_from_at)
  next
    case False
    have "holds_of ?k G - {#?h#} = holds_of ?k ?R" "kind \<noteq> ?k \<Longrightarrow> holds_of kind G = holds_of kind ?R"
      using part [of ?k] part [of kind] False by simp_all
    then show ?thesis using own qi [of kind] False by (auto simp: quotas_drop_def Let_def drop_from_at)
  qed
  moreover have "\<forall>qh' \<in># ?R. h_linked (qh_hold qh') \<longrightarrow> qh_kind qh' = Sessions"
    using inv by (auto simp: quotas_inv_def dest: in_diffD)
  ultimately show ?thesis by (simp add: quotas_inv_def)
qed

text \<open>The operations, sessions and sessions beside a handler are pools in the sense of the contract.\<close>

lemma acquire_from_pool: "pool (acquire_from x kind ks w) (quotas_drop x) (quotas_inv (x_trunc x))"
proof
  fix q H h q'
  assume "quotas_inv (x_trunc x) q H" "acquire_from x kind ks w q = (Inr h, q')"
  from acquire_from_inv [OF this] show "quotas_inv (x_trunc x) q' (add_mset h H)" by simp
next
  fix q H e q'
  assume "quotas_inv (x_trunc x) q H" "acquire_from x kind ks w q = (Inl e, q')"
  from acquire_from_inv [OF this] show "quotas_inv (x_trunc x) q' H" by simp
qed (rule quotas_drop_inv)

interpretation operation_pool: pool "quotas_operation x ks" "quotas_drop x" "quotas_inv (x_trunc x)" for x ks
  using acquire_from_pool [of x Operations ks 1] by (simp add: quotas_operation_def [abs_def])

interpretation session_beside_pool: pool "session_beside_handler x ks" "quotas_drop x" "quotas_inv (x_trunc x)" for x ks
  using acquire_from_pool [of x Sessions ks 1] by (simp add: session_beside_handler_def [abs_def])

interpretation session_pool: pool "quotas_session x ks" "quotas_drop x" "quotas_inv (x_trunc x)" for x ks
proof
  fix q H h q'
  assume "quotas_inv (x_trunc x) q H" "quotas_session x ks q = (Inr h, q')"
  from session_inv [OF this] show "quotas_inv (x_trunc x) q' (add_mset h H)" by simp
next
  fix q H e q'
  assume "quotas_inv (x_trunc x) q H" "quotas_session x ks q = (Inl e, q')"
  from session_inv [OF this] show "quotas_inv (x_trunc x) q' H" by simp
qed (rule quotas_drop_inv)

end
