(* ===== verification/Credit.thy ===== *)
theory Credit
  imports Quotas
begin

text \<open>
  The windows of a QUIC connection, \<^verbatim>\<open>rust/server/src/transport/quic/budget.rs\<close> with \<open>Funding\<close> of \<^verbatim>\<open>rust/server/src/transport/window.rs\<close>: the credit a
  funded upload reserves of the memory budget, what QUIC draws of it, and the send window. The requests of a connection run in one task, so its calls are whole steps; other
  connections charge the budget between them, also between the two halves of a refund. The hold on the client's share is of any type.
\<close>

subsection \<open>The model: the receive window\<close>

definition FUNDING_RETRY :: nat where "FUNDING_RETRY = 100 * 1000000"

datatype funding = Unfunded "nat option" | Funded

text \<open>\<open>admitted\<close> tells whether the exchange is admitted and \<open>raised\<close> what raising the window answers; \<open>None\<close> is returned where it is not asked.\<close>

definition fund :: "funding \<Rightarrow> bool \<Rightarrow> pressure \<Rightarrow> nat \<Rightarrow> bool \<Rightarrow> nat \<Rightarrow> funding option" where
  "fund f admitted pressure now raised later = (case f of
       Funded \<Rightarrow> None
     | Unfunded retry \<Rightarrow>
         if \<not> admitted \<or> pressure = HoldBack \<or> (case retry of Some at \<Rightarrow> now < at | None \<Rightarrow> False) then None
         else Some (if raised then Funded else Unfunded (Some (later + FUNDING_RETRY))))"

record 'h credit_held =
  cb_credit :: "(lease \<times> 'h) option"
  cb_undrawn :: nat
  cb_overdraft :: nat
  cb_readers :: nat

definition credit_held_default :: "'h credit_held" where
  "credit_held_default = \<lparr>cb_credit = None, cb_undrawn = 0, cb_overdraft = 0, cb_readers = 0\<rparr>"

text \<open>\<open>share\<close> is what the client's quota answers, asked only without a credit.\<close>

definition credit_reserve :: "budget \<Rightarrow> 'h credit_held \<Rightarrow> 'h option \<Rightarrow> bool \<times> 'h credit_held \<times> budget" where
  "credit_reserve b h share = (case (cb_credit h, share) of
       (Some _, _) \<Rightarrow> (True, h, b)
     | (None, None) \<Rightarrow> (False, h, b)
     | (None, Some share) \<Rightarrow> (case budget_lease b (of_nat CONNECTION_CREDIT) of
           (None, b) \<Rightarrow> (False, h, b)
         | (Some credit, b) \<Rightarrow> (True, h\<lparr>cb_undrawn := cb_undrawn h + CONNECTION_CREDIT, cb_credit := Some (credit, share)\<rparr>, b)))"

definition credit_reserved :: "'h credit_held \<Rightarrow> bool" where
  "credit_reserved h \<longleftrightarrow> cb_credit h \<noteq> None"

definition credit_reading :: "budget \<Rightarrow> 'h credit_held \<Rightarrow> bool \<Rightarrow> bool \<times> 'h credit_held \<times> budget" where
  "credit_reading b h reading =
     (if reading then (False, h\<lparr>cb_readers := cb_readers h + 1\<rparr>, b)
      else let h = h\<lparr>cb_readers := cb_readers h - 1\<rparr>
           in if cb_readers h > 0 then (False, h, b)
              else (case cb_credit h of
                  None \<Rightarrow> (False, h, b)
                | Some (credit, _) \<Rightarrow>
                    let drawn = CONNECTION_CREDIT - cb_undrawn h
                    in (True, h\<lparr>cb_credit := None, cb_overdraft := cb_overdraft h + drawn, cb_undrawn := 0\<rparr>, lease_keep b credit (of_nat drawn))))"

definition credit_charge :: "budget \<Rightarrow> 'h credit_held \<Rightarrow> nat \<Rightarrow> bool \<times> 'h credit_held \<times> budget" where
  "credit_charge b h n =
     (let credit = min (cb_undrawn h) n; h' = h\<lparr>cb_undrawn := cb_undrawn h - credit, cb_overdraft := cb_overdraft h + (n - credit)\<rparr>
      in if credit < n then (case charge b (of_nat (n - credit)) of None \<Rightarrow> (False, h, b) | Some b \<Rightarrow> (True, h', b)) else (True, h', b))"

text \<open>The first half of a refund: what the shared budget is then given back.\<close>

definition credit_refund :: "'h credit_held \<Rightarrow> nat \<Rightarrow> nat \<times> 'h credit_held" where
  "credit_refund h n =
     (let overdraft = min (cb_overdraft h) n
      in (overdraft, h\<lparr>cb_overdraft := cb_overdraft h - overdraft, cb_undrawn := cb_undrawn h + (n - overdraft)\<rparr>))"

text \<open>\<open>QuicWindow\<close>: the window QUIC was last told.\<close>

definition window_fund :: "nat \<Rightarrow> bool \<Rightarrow> nat" where
  "window_fund window reserved = (if reserved then RECEIVE_WINDOW else window)"

definition window_read :: "nat \<Rightarrow> bool \<Rightarrow> bool \<Rightarrow> nat" where
  "window_read window returned reserved =
     (if returned then if reserved then RECEIVE_WINDOW else RECEIVE_WINDOW_FLOOR else window)"

subsection \<open>The model: the send window\<close>

definition MIN_SEND_WINDOW :: nat where "MIN_SEND_WINDOW = 2 * 2 ^ 20"
definition MAX_SEND_WINDOW :: nat where "MAX_SEND_WINDOW = 16 * 2 ^ 20"
definition SEND_WINDOW_STEP :: nat where "SEND_WINDOW_STEP = 256 * 2 ^ 10"
definition SEND_WINDOW_SHRINK_DELAY :: nat where "SEND_WINDOW_SHRINK_DELAY = 1000000000"

text \<open>\<open>sw_told\<close> is the window QUIC was last told.\<close>

record send_window =
  sw_limit :: nat
  sw_last :: "(nat \<times> nat) option"
  sw_low_since :: "nat option"
  sw_told :: nat

definition send_window_default :: send_window where
  "send_window_default = \<lparr>sw_limit = MIN_SEND_WINDOW, sw_last = None, sw_low_since = None, sw_told = MIN_SEND_WINDOW\<rparr>"

definition u128_mul :: "nat \<Rightarrow> nat \<Rightarrow> nat" where
  "u128_mul a b = min (a * b) (2 ^ 128 - 1)"

definition desired :: "nat \<Rightarrow> nat \<Rightarrow> nat \<Rightarrow> nat" where
  "desired sent rtt elapsed =
     (if elapsed = 0 then MIN_SEND_WINDOW
      else let demand = u128_mul (u128_mul sent rtt) 2 div elapsed in max MIN_SEND_WINDOW (min demand MAX_SEND_WINDOW))"

definition send_widen :: "send_window \<Rightarrow> nat \<Rightarrow> pressure \<Rightarrow> bool \<times> send_window" where
  "send_widen w target pressure =
     (let granted = min target MAX_SEND_WINDOW - sw_limit w; widened = (granted \<ge> SEND_WINDOW_STEP \<and> pressure \<noteq> HoldBack)
      in (widened, if widened then w\<lparr>sw_limit := sw_limit w + granted\<rparr> else w))"

definition send_grow :: "send_window \<Rightarrow> nat \<Rightarrow> pressure \<Rightarrow> send_window" where
  "send_grow w target pressure = (case send_widen w target pressure of (widened, w) \<Rightarrow> if widened then w\<lparr>sw_told := sw_limit w\<rparr> else w)"

definition send_release :: "send_window \<Rightarrow> send_window" where
  "send_release w =
     (let w = w\<lparr>sw_last := None, sw_low_since := None\<rparr>
      in if sw_limit w \<noteq> MIN_SEND_WINDOW then w\<lparr>sw_limit := MIN_SEND_WINDOW, sw_told := MIN_SEND_WINDOW\<rparr> else w)"

text \<open>\<open>path\<close> are the bytes sent on the first path and its round trip time, if QUIC knows it.\<close>

definition send_tune :: "send_window \<Rightarrow> bool \<Rightarrow> nat \<Rightarrow> (nat \<times> nat) option \<Rightarrow> nat \<Rightarrow> pressure \<Rightarrow> send_window" where
  "send_tune w busy all_sent path now pressure =
     (if \<not> busy then send_release w
      else case path of
          None \<Rightarrow> w\<lparr>sw_last := None, sw_low_since := None\<rparr>
        | Some (sent, rtt) \<Rightarrow>
            if \<not> all_sent \<le> sent then w\<lparr>sw_last := None, sw_low_since := None\<rparr>
            else (let w' = (case sw_last w of
                      None \<Rightarrow> w
                    | Some (last', previous) \<Rightarrow>
                        let target = desired (sent - previous) rtt (now - last')
                        in if target = MIN_SEND_WINDOW \<and> sw_limit w \<noteq> MIN_SEND_WINDOW
                           then let since = (case sw_low_since w of Some since \<Rightarrow> since | None \<Rightarrow> now); w = w\<lparr>sw_low_since := Some since\<rparr>
                                in if now - since \<ge> SEND_WINDOW_SHRINK_DELAY then send_release w else w
                           else send_grow (w\<lparr>sw_low_since := None\<rparr>) target pressure)
                  in w'\<lparr>sw_last := Some (now, sent)\<rparr>))"

subsection \<open>Credit is accounted for\<close>

text \<open>
  A connection beside others: what QUIC holds of the connection's bytes, what is still to be given back of a refund, what others hold of the budget, and the receive
  window. An upload is counted as a reader before it asks for the credit; QUIC refunds no more than it holds.
\<close>

record 'h credit_machine =
  cm_budget :: budget
  cm_held :: "'h credit_held"
  cm_charged :: nat
  cm_returning :: nat
  cm_others :: nat
  cm_window :: nat

definition credit_start :: "budget \<Rightarrow> 'h credit_machine" where
  "credit_start b = \<lparr>cm_budget = b, cm_held = credit_held_default, cm_charged = 0, cm_returning = 0, cm_others = unat (b_used b), cm_window = RECEIVE_WINDOW_FLOOR\<rparr>"

inductive credit_step :: "'h credit_machine \<Rightarrow> 'h credit_machine \<Rightarrow> bool" where
  reserve: "cb_readers (cm_held m) > 0 \<Longrightarrow> credit_reserve (cm_budget m) (cm_held m) share = (reserved, h, b) \<Longrightarrow>
    credit_step m (m\<lparr>cm_budget := b, cm_held := h, cm_window := window_fund (cm_window m) reserved\<rparr>)"
| started: "credit_reading (cm_budget m) (cm_held m) True = (returned, h, b) \<Longrightarrow>
    credit_step m (m\<lparr>cm_budget := b, cm_held := h, cm_window := window_read (cm_window m) returned (credit_reserved h)\<rparr>)"
| stopped: "cb_readers (cm_held m) > 0 \<Longrightarrow> credit_reading (cm_budget m) (cm_held m) False = (returned, h, b) \<Longrightarrow>
    credit_step m (m\<lparr>cm_budget := b, cm_held := h, cm_window := window_read (cm_window m) returned (credit_reserved h)\<rparr>)"
| charged: "n < 2 ^ 64 \<Longrightarrow> credit_charge (cm_budget m) (cm_held m) n = (ok, h, b) \<Longrightarrow>
    credit_step m (m\<lparr>cm_budget := b, cm_held := h, cm_charged := cm_charged m + (if ok then n else 0)\<rparr>)"
| refunded: "n \<le> cm_charged m \<Longrightarrow> credit_refund (cm_held m) n = (owed, h) \<Longrightarrow>
    credit_step m (m\<lparr>cm_held := h, cm_charged := cm_charged m - n, cm_returning := cm_returning m + owed\<rparr>)"
| returned: "owed \<le> cm_returning m \<Longrightarrow>
    credit_step m (m\<lparr>cm_budget := give_back (cm_budget m) (of_nat owed), cm_returning := cm_returning m - owed\<rparr>)"
| others_charge: "charge (cm_budget m) n = Some b \<Longrightarrow> credit_step m (m\<lparr>cm_budget := b, cm_others := cm_others m + unat n\<rparr>)"
| others_return: "unat n \<le> cm_others m \<Longrightarrow> credit_step m (m\<lparr>cm_budget := give_back (cm_budget m) n, cm_others := cm_others m - unat n\<rparr>)"

definition credit_total :: "'h credit_held \<Rightarrow> nat" where
  "credit_total h = cb_overdraft h + (if cb_credit h = None then 0 else CONNECTION_CREDIT)"

definition credit_inv :: "'h credit_machine \<Rightarrow> bool" where
  "credit_inv m \<longleftrightarrow>
     unat (b_used (cm_budget m)) = cm_others m + cm_returning m + credit_total (cm_held m) \<and> b_used (cm_budget m) \<le> b_limit (cm_budget m) \<and>
     credit_total (cm_held m) = cm_charged m + cb_undrawn (cm_held m) \<and>
     (case cb_credit (cm_held m) of
        None \<Rightarrow> cb_undrawn (cm_held m) = 0 \<and> cm_window m = RECEIVE_WINDOW_FLOOR
      | Some (l, _) \<Rightarrow> l = \<lparr>l_bytes = of_nat CONNECTION_CREDIT, l_reserved = False\<rparr> \<and> cb_undrawn (cm_held m) \<le> CONNECTION_CREDIT \<and>
          cb_readers (cm_held m) > 0 \<and> cm_window m = RECEIVE_WINDOW)"

lemma credit_fits: "CONNECTION_CREDIT < 2 ^ 64" "n \<le> CONNECTION_CREDIT \<Longrightarrow> unat (of_nat n :: u64) = n"
  by (auto simp: CONNECTION_CREDIT_def RECEIVE_WINDOW_def RECEIVE_WINDOW_FLOOR_def intro!: unat_of_small)

lemma give_back_nat:
  assumes "n \<le> unat (b_used b)" and "b_used b \<le> b_limit b"
  shows "unat (b_used (give_back b (of_nat n))) = unat (b_used b) - n" "b_used (give_back b (of_nat n)) \<le> b_limit (give_back b (of_nat n))"
proof -
  have "n < 2 ^ 64" using assms(1) unat_lt64 [of "b_used b"] by simp
  then have "unat (of_nat n :: u64) = n" by (intro unat_of_small) simp
  then show "unat (b_used (give_back b (of_nat n))) = unat (b_used b) - n" "b_used (give_back b (of_nat n)) \<le> b_limit (give_back b (of_nat n))"
    using give_back_used [of "of_nat n" b] assms by simp_all
qed

lemma credit_keep:
  assumes "drawn \<le> CONNECTION_CREDIT" and "CONNECTION_CREDIT \<le> unat (b_used b)" and "b_used b \<le> b_limit b"
  shows "unat (b_used (lease_keep b \<lparr>l_bytes = of_nat CONNECTION_CREDIT, l_reserved = False\<rparr> (of_nat drawn))) = unat (b_used b) - (CONNECTION_CREDIT - drawn)"
    "b_used (lease_keep b \<lparr>l_bytes = of_nat CONNECTION_CREDIT, l_reserved = False\<rparr> (of_nat drawn)) \<le>
      b_limit (lease_keep b \<lparr>l_bytes = of_nat CONNECTION_CREDIT, l_reserved = False\<rparr> (of_nat drawn))"
proof -
  have "(of_nat CONNECTION_CREDIT :: u64) - of_nat drawn = of_nat (CONNECTION_CREDIT - drawn)" using assms(1) by (simp add: of_nat_diff)
  then have "lease_keep b \<lparr>l_bytes = of_nat CONNECTION_CREDIT, l_reserved = False\<rparr> (of_nat drawn) = give_back b (of_nat (CONNECTION_CREDIT - drawn))"
    by (simp add: lease_keep_def lease_drop_def lease_release_def lease_count_def)
  then show "unat (b_used (lease_keep b \<lparr>l_bytes = of_nat CONNECTION_CREDIT, l_reserved = False\<rparr> (of_nat drawn))) = unat (b_used b) - (CONNECTION_CREDIT - drawn)"
    "b_used (lease_keep b \<lparr>l_bytes = of_nat CONNECTION_CREDIT, l_reserved = False\<rparr> (of_nat drawn)) \<le>
      b_limit (lease_keep b \<lparr>l_bytes = of_nat CONNECTION_CREDIT, l_reserved = False\<rparr> (of_nat drawn))"
    using give_back_nat [of "CONNECTION_CREDIT - drawn" b] assms by simp_all
qed

lemma credit_inv_step: "credit_step m m' \<Longrightarrow> credit_inv m \<Longrightarrow> credit_inv m'"
proof (induction rule: credit_step.induct)
  case (reserve m share reserved h b)
  show ?case
  proof (cases "cb_credit (cm_held m) = None \<and> share \<noteq> None \<and> charge (cm_budget m) (of_nat CONNECTION_CREDIT) \<noteq> None")
    case True
    then obtain x b' where x: "share = Some x" "charge (cm_budget m) (of_nat CONNECTION_CREDIT) = Some b'" by auto
    then have new: "reserved" "b = b'" "h = (cm_held m)\<lparr>cb_undrawn := cb_undrawn (cm_held m) + CONNECTION_CREDIT,
        cb_credit := Some (\<lparr>l_bytes = of_nat CONNECTION_CREDIT, l_reserved = False\<rparr>, x)\<rparr>"
      using reserve(2) True by (auto simp: credit_reserve_def budget_lease_def)
    then show ?thesis using True reserve(1,3) charge_used [OF x(2)] credit_fits(2) [of CONNECTION_CREDIT]
      by (auto simp: credit_inv_def credit_total_def window_fund_def)
  next
    case False
    then have "h = cm_held m" "b = cm_budget m" "reserved \<longleftrightarrow> cb_credit (cm_held m) \<noteq> None"
      using reserve(2) by (auto simp: credit_reserve_def budget_lease_def split: option.splits)
    then show ?thesis using reserve(3) by (auto simp: credit_inv_def window_fund_def split: option.splits)
  qed
next
  case (started m returned h b)
  then show ?case by (auto simp: credit_inv_def credit_reading_def credit_total_def window_read_def split: option.splits)
next
  case (stopped m returned h b)
  let ?h = "cm_held m"
  show ?case
  proof (cases "cb_readers ?h = 1 \<and> cb_credit ?h \<noteq> None")
    case True
    then obtain l x where l: "cb_credit ?h = Some (l, x)" by auto
    with stopped(3) have inv: "l = \<lparr>l_bytes = of_nat CONNECTION_CREDIT, l_reserved = False\<rparr>" "cb_undrawn ?h \<le> CONNECTION_CREDIT"
      "unat (b_used (cm_budget m)) = cm_others m + cm_returning m + (cb_overdraft ?h + CONNECTION_CREDIT)" "b_used (cm_budget m) \<le> b_limit (cm_budget m)"
      "cb_overdraft ?h + CONNECTION_CREDIT = cm_charged m + cb_undrawn ?h" by (simp_all add: credit_inv_def credit_total_def)
    let ?drawn = "CONNECTION_CREDIT - cb_undrawn ?h"
    have new: "returned" "h = ?h\<lparr>cb_readers := 0, cb_credit := None, cb_overdraft := cb_overdraft ?h + ?drawn, cb_undrawn := 0\<rparr>" "b = lease_keep (cm_budget m) l (of_nat ?drawn)"
      using stopped(2) True l by (auto simp: credit_reading_def Let_def)
    have "?drawn \<le> CONNECTION_CREDIT" "CONNECTION_CREDIT \<le> unat (b_used (cm_budget m))" using inv by simp_all
    from credit_keep [OF this inv(4)] show ?thesis using inv new by (simp add: credit_inv_def credit_total_def window_read_def credit_reserved_def)
  next
    case False
    then have "\<not> returned" "h = ?h\<lparr>cb_readers := cb_readers ?h - 1\<rparr>" "b = cm_budget m" "cb_credit ?h \<noteq> None \<longrightarrow> cb_readers ?h > 1"
      using stopped(1,2) by (auto simp: credit_reading_def Let_def split: if_splits option.splits)
    then show ?thesis using stopped(3) by (auto simp: credit_inv_def credit_total_def window_read_def split: option.splits)
  qed
next
  case (charged n m ok h b)
  let ?h = "cm_held m" and ?credit = "min (cb_undrawn (cm_held m)) n"
  show ?case
  proof (cases "\<not> ok \<or> n \<le> cb_undrawn ?h")
    case True
    then have new: "b = cm_budget m" "h = (if ok then ?h\<lparr>cb_undrawn := cb_undrawn ?h - n\<rparr> else ?h)"
      using charged(2) by (auto simp: credit_charge_def Let_def split: if_splits option.splits)
    show ?thesis
    proof (cases ok)
      case True
      then have "n \<le> cb_undrawn ?h" using \<open>\<not> ok \<or> n \<le> cb_undrawn ?h\<close> by simp
      then show ?thesis using charged(3) new True by (auto simp: credit_inv_def credit_total_def split: option.splits)
    next
      case False
      then show ?thesis using charged(3) new by simp
    qed
  next
    case False
    then have low: "cb_undrawn ?h < n" "ok" by simp_all
    have new: "charge (cm_budget m) (of_nat (n - cb_undrawn ?h)) = Some b" "h = ?h\<lparr>cb_undrawn := 0, cb_overdraft := cb_overdraft ?h + (n - cb_undrawn ?h)\<rparr>"
      using charged(2) low by (auto simp: credit_charge_def Let_def split: if_splits option.splits)
    have "unat (of_nat (n - cb_undrawn ?h) :: u64) = n - cb_undrawn ?h" using charged(1) by (intro unat_of_small) simp
    then show ?thesis using charged(3) charge_used [OF new(1)] new(2) low by (auto simp: credit_inv_def credit_total_def split: option.splits)
  qed
next
  case (refunded n m owed h)
  let ?h = "cm_held m"
  have new: "owed = min (cb_overdraft ?h) n" "h = ?h\<lparr>cb_overdraft := cb_overdraft ?h - owed, cb_undrawn := cb_undrawn ?h + (n - owed)\<rparr>"
    using refunded(2) by (auto simp: credit_refund_def Let_def)
  show ?case
  proof (cases "cb_credit ?h")
    case None
    then have "owed = n" using new refunded(1,3) by (simp add: credit_inv_def credit_total_def)
    then show ?thesis using None new refunded(1,3) by (simp add: credit_inv_def credit_total_def)
  next
    case (Some c)
    then show ?thesis using new refunded(1,3) by (cases c) (auto simp: credit_inv_def credit_total_def min_def)
  qed
next
  case (returned owed m)
  then show ?case using give_back_nat [of owed "cm_budget m"] by (cases "cb_credit (cm_held m)") (auto simp: credit_inv_def)
next
  case (others_charge m n b)
  then show ?case using charge_used [OF others_charge(1)] by (cases "cb_credit (cm_held m)") (auto simp: credit_inv_def)
next
  case (others_return n m)
  then show ?case using give_back_used [of n "cm_budget m"] by (cases "cb_credit (cm_held m)") (auto simp: credit_inv_def)
qed

text \<open>
  C24. A connection's credit is accounted for, whatever uploads, QUIC and other connections do: the budget counts exactly what others hold, what is being given back and what the
  connection holds, within its limit; what QUIC was charged and has not refunded, with what is left of the credit, is what the connection holds. The raised receive window is
  offered exactly while the credit is held, which it is only while an upload reads; without a reader and with all refunded the connection holds nothing.
\<close>

theorem credit_accounting:
  assumes "credit_step\<^sup>*\<^sup>* (credit_start b) m" and "b_used b \<le> b_limit b"
  shows "unat (b_used (cm_budget m)) = cm_others m + cm_returning m + credit_total (cm_held m) \<and> b_used (cm_budget m) \<le> b_limit (cm_budget m) \<and>
    credit_total (cm_held m) = cm_charged m + cb_undrawn (cm_held m) \<and> cb_undrawn (cm_held m) \<le> CONNECTION_CREDIT \<and>
    cm_window m = (if credit_reserved (cm_held m) then RECEIVE_WINDOW else RECEIVE_WINDOW_FLOOR) \<and> (credit_reserved (cm_held m) \<longrightarrow> cb_readers (cm_held m) > 0) \<and>
    (cb_readers (cm_held m) = 0 \<and> cm_charged m = 0 \<longrightarrow> credit_total (cm_held m) = 0)"
proof -
  have "credit_inv m" using assms(1)
  proof (induction rule: rtranclp_induct)
    case base
    then show ?case using assms(2) by (simp add: credit_inv_def credit_start_def credit_held_default_def credit_total_def)
  next
    case (step m m')
    then show ?case using credit_inv_step by blast
  qed
  then show ?thesis by (auto simp: credit_inv_def credit_reserved_def split: option.splits)
qed

theorem credit_accounting_witness:
  "\<exists>m :: nat credit_machine. credit_step\<^sup>*\<^sup>* (credit_start (budget_new (2 ^ 30))) m \<and> credit_reserved (cm_held m) \<and> cm_window m = RECEIVE_WINDOW"
proof -
  let ?b = "budget_new (2 ^ 30)"
  let ?m0 = "credit_start ?b :: nat credit_machine"
  obtain returned h b where r: "credit_reading (cm_budget ?m0) (cm_held ?m0) True = (returned, h, b)" by (metis prod_cases3)
  let ?m1 = "?m0\<lparr>cm_budget := b, cm_held := h, cm_window := window_read (cm_window ?m0) returned (credit_reserved h)\<rparr>"
  have s1: "credit_step ?m0 ?m1" by (rule credit_step.started [OF r])
  have m1: "b = ?b" "cb_readers h = 1" "cb_credit h = None" using r by (auto simp: credit_reading_def credit_start_def credit_held_default_def)
  obtain reserved h' b' where v: "credit_reserve (cm_budget ?m1) (cm_held ?m1) (Some (0 :: nat)) = (reserved, h', b')" by (metis prod_cases3)
  let ?m2 = "?m1\<lparr>cm_budget := b', cm_held := h', cm_window := window_fund (cm_window ?m1) reserved\<rparr>"
  have "credit_step ?m1 ?m2" by (rule credit_step.reserve [OF _ v]) (simp add: m1)
  with s1 have steps: "credit_step\<^sup>*\<^sup>* ?m0 ?m2" by (simp add: rtranclp.rtrancl_into_rtrancl)
  have "charge ?b (of_nat CONNECTION_CREDIT) \<noteq> None"
    by (simp add: charge_def budget_new_def CONNECTION_CREDIT_def RECEIVE_WINDOW_def RECEIVE_WINDOW_FLOOR_def)
  then have "credit_reserved (cm_held ?m2)" using v m1 by (auto simp: credit_reserve_def budget_lease_def credit_reserved_def split: option.splits)
  then show ?thesis using credit_accounting [OF steps] steps by (auto simp: budget_new_def)
qed

subsection \<open>The send window\<close>

lemma desired_bounds: "MIN_SEND_WINDOW \<le> desired sent rtt elapsed \<and> desired sent rtt elapsed \<le> MAX_SEND_WINDOW"
  by (simp add: desired_def Let_def MIN_SEND_WINDOW_def MAX_SEND_WINDOW_def)

lemma send_grow_cases:
  "send_grow w target pressure = w \<or>
   pressure \<noteq> HoldBack \<and> send_grow w target pressure = w\<lparr>sw_limit := min target MAX_SEND_WINDOW, sw_told := min target MAX_SEND_WINDOW\<rparr> \<and>
     sw_limit w + SEND_WINDOW_STEP \<le> min target MAX_SEND_WINDOW"
  by (auto simp: send_grow_def send_widen_def Let_def SEND_WINDOW_STEP_def)

text \<open>One call of \<open>tune\<close> keeps the window, returns to the least, or widens it.\<close>

lemma send_tune_cases:
  "sw_limit (send_tune w busy all_sent path now pressure) = sw_limit w \<and> sw_told (send_tune w busy all_sent path now pressure) = sw_told w \<or>
   sw_limit (send_tune w busy all_sent path now pressure) = MIN_SEND_WINDOW \<and> sw_told (send_tune w busy all_sent path now pressure) = MIN_SEND_WINDOW \<or>
   busy \<and> pressure \<noteq> HoldBack \<and> sw_told (send_tune w busy all_sent path now pressure) = sw_limit (send_tune w busy all_sent path now pressure) \<and>
     sw_limit w + SEND_WINDOW_STEP \<le> sw_limit (send_tune w busy all_sent path now pressure) \<and> sw_limit (send_tune w busy all_sent path now pressure) \<le> MAX_SEND_WINDOW"
proof (cases "\<exists>sent rtt last' previous. busy \<and> path = Some (sent, rtt) \<and> all_sent \<le> sent \<and> sw_last w = Some (last', previous)")
  case True
  then obtain sent rtt last' previous where x: "busy" "path = Some (sent, rtt)" "all_sent \<le> sent" "sw_last w = Some (last', previous)" by blast
  let ?target = "desired (sent - previous) rtt (now - last')"
  show ?thesis
  proof (cases "?target = MIN_SEND_WINDOW \<and> sw_limit w \<noteq> MIN_SEND_WINDOW")
    case True
    then show ?thesis using x by (simp add: send_tune_def send_release_def Let_def)
  next
    case False
    then have "send_tune w busy all_sent path now pressure = (send_grow (w\<lparr>sw_low_since := None\<rparr>) ?target pressure)\<lparr>sw_last := Some (now, sent)\<rparr>"
      using x unfolding send_tune_def Let_def by auto
    then show ?thesis using send_grow_cases [of "w\<lparr>sw_low_since := None\<rparr>" ?target pressure] x(1) by auto
  qed
next
  case False
  then show ?thesis by (auto simp: send_tune_def send_release_def Let_def split: option.splits)
qed

text \<open>
  The send window stays between its least and its greatest, QUIC is told every change, and it grows only by whole steps, for a busy connection and while the budget does
  not hold growth back.
\<close>

theorem send_window_within:
  fixes calls :: "(bool \<times> nat \<times> (nat \<times> nat) option \<times> nat \<times> pressure) list"
  assumes "w = foldl (\<lambda>w (busy, all_sent, path, now, pressure). send_tune w busy all_sent path now pressure) send_window_default calls"
  shows "MIN_SEND_WINDOW \<le> sw_limit w \<and> sw_limit w \<le> MAX_SEND_WINDOW \<and> sw_told w = sw_limit w \<and>
    (sw_limit w < sw_limit (send_tune w busy all_sent path now pressure) \<longrightarrow>
      busy \<and> pressure \<noteq> HoldBack \<and> sw_limit w + SEND_WINDOW_STEP \<le> sw_limit (send_tune w busy all_sent path now pressure))"
proof -
  have least: "MIN_SEND_WINDOW \<le> MAX_SEND_WINDOW" by (simp add: MIN_SEND_WINDOW_def MAX_SEND_WINDOW_def)
  have "MIN_SEND_WINDOW \<le> sw_limit w \<and> sw_limit w \<le> MAX_SEND_WINDOW \<and> sw_told w = sw_limit w" unfolding assms
  proof (induction calls rule: rev_induct)
    case Nil
    then show ?case using least by (simp add: send_window_default_def)
  next
    case (snoc x calls)
    let ?w = "foldl (\<lambda>w (busy, all_sent, path, now, pressure). send_tune w busy all_sent path now pressure) send_window_default calls"
    obtain busy all_sent path now pressure where x: "x = (busy, all_sent, path, now, pressure)" by (cases x)
    show ?case using send_tune_cases [of ?w busy all_sent path now pressure] snoc least by (auto simp: x)
  qed
  then show ?thesis using send_tune_cases [of w busy all_sent path now pressure] by auto
qed

theorem send_window_within_witness:
  "sw_limit (foldl (\<lambda>w (busy, all_sent, path, now, pressure). send_tune w busy all_sent path now pressure) send_window_default [(True, 5, Some (5, 7), 9, Normal)]) \<le> MAX_SEND_WINDOW"
  using send_window_within [OF refl] by blast

end
