(* ===== verification/Shard.thy ===== *)
theory Shard
  imports Prelude
begin

text \<open>
  QUIC endpoints that share one address, \<^verbatim>\<open>rust/server/src/transport/quic/shard.rs\<close>: which endpoint a datagram belongs to, and the routing of a received batch. What a
  \<open>RecvMeta\<close> holds beside its two lengths is of any type. The counts of connections are those one call finds; \<open>clock\<close> gives the time at which a segment is looked at. The
  sockets, and the filter the kernel runs, are not modelled.
\<close>

subsection \<open>The model\<close>

definition QUEUE_DATAGRAMS :: nat where "QUEUE_DATAGRAMS = 1024"
definition FIRST_FLIGHTS :: nat where "FIRST_FLIGHTS = 64"
definition LONG_HEADER :: u8 where "LONG_HEADER = 0x80"
definition RANDOM_CID_BYTES :: nat where "RANDOM_CID_BYTES = 8"
definition CID_BYTES :: nat where "CID_BYTES = 1 + RANDOM_CID_BYTES"
definition HANDSHAKE_BOUND :: nat where "HANDSHAKE_BOUND = 10 * 1000000000"


record 'm recv_meta =
  rm_from :: 'm
  rm_len :: nat
  rm_stride :: nat

record 'm forwarded =
  fw_meta :: "'m recv_meta"
  fw_datagram :: bytes

record 'm router =
  ro_queues :: "'m forwarded list list"
  ro_connections :: "nat list"
  ro_steering :: bool
  ro_max_datagram :: nat

definition router_new :: "nat \<Rightarrow> nat \<Rightarrow> bool \<Rightarrow> 'm router" where
  "router_new shards max_datagram steering =
     \<lparr>ro_queues = replicate shards [], ro_connections = replicate shards 0, ro_steering = steering, ro_max_datagram = max_datagram\<rparr>"


definition occupant_drop :: "'m router \<Rightarrow> nat \<Rightarrow> 'm router" where
  "occupant_drop r index = r\<lparr>ro_connections := (ro_connections r)[index := ro_connections r ! index - 1]\<rparr>"

datatype named = Endpoint nat | Client bytes | Nothing

definition named :: "bytes \<Rightarrow> named" where
  "named d =
     (if length d \<ge> 2 \<and> d ! 0 AND LONG_HEADER = 0 then Endpoint (unat (d ! 1))
      else if length d \<ge> 6 then
        (case get_to (drop 6 d) (unat (d ! 5)) of
           Some ident \<Rightarrow>
             if length ident = CID_BYTES then Endpoint (unat (ident ! 0))
             else if 8 \<le> length ident \<and> length ident \<le> 20 then Client ident else Nothing
         | None \<Rightarrow> Nothing)
      else Nothing)"

type_synonym first_flights = "(bytes \<times> nat \<times> nat) list"

text \<open>The flights are in the order of their times, so those too old are a prefix, which \<open>partition_point\<close> finds.\<close>

definition flights_endpoint :: "first_flights \<Rightarrow> bytes \<Rightarrow> nat \<Rightarrow> nat \<Rightarrow> nat \<times> first_flights" where
  "flights_endpoint fl ident now steer =
     (let fl = dropWhile (\<lambda>(_, _, at). now - at > HANDSHAKE_BOUND) fl
      in case find (\<lambda>(known, _, _). known = ident) fl of
          Some (_, to, _) \<Rightarrow> (to, fl)
        | None \<Rightarrow> (steer, (if length fl = FIRST_FLIGHTS then tl fl else fl) @ [(ident, steer, now)]))"

definition router_steer :: "'m router \<Rightarrow> nat \<Rightarrow> nat" where
  "router_steer r shard =
     foldl (\<lambda>least index. if ro_connections r ! index < ro_connections r ! least then index else least) shard [0..<length (ro_connections r)]"

definition router_destination :: "'m router \<Rightarrow> nat \<Rightarrow> first_flights \<Rightarrow> nat \<Rightarrow> bytes \<Rightarrow> nat option \<times> first_flights" where
  "router_destination r shard fl now d =
     (let (to, fl) = (case named d of
            Endpoint to \<Rightarrow> (to, fl)
          | Client ident \<Rightarrow> if ro_steering r then flights_endpoint fl ident now (router_steer r shard) else (shard, fl)
          | Nothing \<Rightarrow> (shard, fl))
      in (if to \<noteq> shard \<and> to < length (ro_queues r) then Some to else None, fl))"

definition router_forward :: "'m router \<Rightarrow> nat \<Rightarrow> bytes \<Rightarrow> 'm recv_meta \<Rightarrow> 'm router" where
  "router_forward r to d meta =
     (if length d > ro_max_datagram r then r
      else if length (ro_queues r ! to) < QUEUE_DATAGRAMS
      then r\<lparr>ro_queues := (ro_queues r)[to := ro_queues r ! to @ [\<lparr>fw_meta = meta\<lparr>rm_len := length d, rm_stride := length d\<rparr>, fw_datagram = d\<rparr>]]\<rparr>
      else r)"

definition copy_within :: "'a list \<Rightarrow> nat \<Rightarrow> nat \<Rightarrow> nat \<Rightarrow> 'a list" where
  "copy_within xs src until dest = take dest xs @ take (until - src) (drop src xs) @ drop (dest + (until - src)) xs"

definition segment_starts :: "nat \<Rightarrow> nat \<Rightarrow> nat list" where
  "segment_starts len stride = map ((*) stride) [0..<(len + stride - 1) div stride]"

type_synonym 'm routing = "'m router \<times> first_flights \<times> bytes \<times> nat"

definition route_segment :: "nat \<Rightarrow> (nat \<Rightarrow> nat) \<Rightarrow> 'm recv_meta \<Rightarrow> nat \<Rightarrow> nat \<Rightarrow> 'm routing \<Rightarrow> nat \<Rightarrow> 'm routing" where
  "route_segment shard clock meta len stride st start =
     (case st of (r, fl, buf, kept) \<Rightarrow>
        let until = min len (start + stride); d = take (until - start) (drop start buf)
        in case router_destination r shard fl (clock start) d of
            (Some to, fl) \<Rightarrow> (router_forward r to d meta, fl, buf, kept)
          | (None, fl) \<Rightarrow> (r, fl, if start \<noteq> kept then copy_within buf start until kept else buf, kept + (until - start)))"

definition router_route :: "'m router \<Rightarrow> nat \<Rightarrow> first_flights \<Rightarrow> (nat \<Rightarrow> nat) \<Rightarrow> bytes \<Rightarrow> 'm recv_meta \<Rightarrow> 'm router \<times> first_flights \<times> bytes \<times> 'm recv_meta" where
  "router_route r shard fl clock buf meta =
     (let len = min (rm_len meta) (length buf); stride = max (rm_stride meta) 1
      in case foldl (route_segment shard clock meta len stride) (r, fl, buf, 0) (segment_starts len stride) of
          (r, fl, buf, kept) \<Rightarrow> (r, fl, buf, meta\<lparr>rm_len := kept\<rparr>))"

subsection \<open>Routing in place\<close>

text \<open>What routing means: the batch is cut into datagrams, each of which goes to its endpoint or stays, in the order received.\<close>

fun cut :: "nat \<Rightarrow> nat \<Rightarrow> bytes \<Rightarrow> (nat \<times> bytes) list" where
  "cut start stride xs = (if xs = [] \<or> stride = 0 then [] else (start, take stride xs) # cut (start + stride) stride (drop stride xs))"

declare cut.simps [simp del]

definition route_datagram :: "nat \<Rightarrow> (nat \<Rightarrow> nat) \<Rightarrow> 'm recv_meta \<Rightarrow> 'm router \<times> first_flights \<times> bytes \<Rightarrow> nat \<times> bytes \<Rightarrow> 'm router \<times> first_flights \<times> bytes" where
  "route_datagram shard clock meta st x =
     (case st of (r, fl, stay) \<Rightarrow> case router_destination r shard fl (clock (fst x)) (snd x) of
        (Some to, fl) \<Rightarrow> (router_forward r to (snd x) meta, fl, stay)
      | (None, fl) \<Rightarrow> (r, fl, stay @ snd x))"

lemma cut_concat: "stride > 0 \<Longrightarrow> concat (map snd (cut start stride xs)) = xs"
  by (induction start stride xs rule: cut.induct) (subst cut.simps, auto)

lemma copy_down:
  assumes "kept \<le> start" and "start \<le> until" and "until \<le> length buf" and m: "m = (if start \<noteq> kept then copy_within buf start until kept else buf)"
  shows "length m = length buf" "take (kept + (until - start)) m = take kept buf @ take (until - start) (drop start buf)"
    "k \<ge> kept + (until - start) \<Longrightarrow> drop k m = drop k buf"
proof -
  have "kept + (until - start) \<le> length buf" using assms(1-3) by simp
  then show "length m = length buf" "take (kept + (until - start)) m = take kept buf @ take (until - start) (drop start buf)"
    using assms take_add [of kept "until - start" buf] by (auto simp: copy_within_def)
  show "k \<ge> kept + (until - start) \<Longrightarrow> drop k m = drop k buf" using assms by (auto simp: copy_within_def)
qed

text \<open>The invariant of the loop: the datagrams that stay fill the front, and nothing from \<open>start\<close> on has been overwritten.\<close>

lemma route_loop:
  fixes r :: "'m router"
  assumes "stride > 0" and "len \<le> length buf" and "length stay \<le> start" and "take (length stay) buf = stay"
    and "xs = drop start (take len buf)" and "foldl (route_datagram shard clock meta) (r, fl, stay) (cut start stride xs) = (r', fl', stay')"
  shows "\<exists>buf'. foldl (route_segment shard clock meta len stride) (r, fl, buf, length stay) (map fst (cut start stride xs)) = (r', fl', buf', length stay') \<and>
    take (length stay') buf' = stay' \<and> length buf' = length buf \<and> drop len buf' = drop len buf"
  using assms
proof (induction start stride xs arbitrary: r fl buf stay rule: cut.induct)
  case (1 start stride xs)
  note IH = 1(1) and stride = 1(2) and len = 1(3) and kept = 1(4,5) and xs = 1(6) and run = 1(7)
  show ?case
  proof (cases "xs = []")
    case True
    then show ?thesis using kept run by (simp add: cut.simps)
  next
    case False
    then have some: "\<not> (xs = [] \<or> stride = 0)" using stride by simp
    define until where "until = min len (start + stride)"
    have start: "start < len" using False xs by auto
    have until: "start \<le> until" "until \<le> length buf" "until \<le> len" "until - start \<le> stride" using start len by (simp_all add: until_def)
    have seg: "take (until - start) (drop start buf) = take stride xs" 
    proof -
      have "until - start = min stride (len - start)" using start by (auto simp: until_def)
      then show ?thesis by (simp add: xs drop_take)
    qed
    have size: "length (take stride xs) = until - start" using start len by (simp add: xs until_def)
    have cuts: "cut start stride xs = (start, take stride xs) # cut (start + stride) stride (drop stride xs)" using some by (subst cut.simps) simp
    have rest: "drop stride xs = drop (start + stride) (take len buf)" by (simp add: xs add.commute)
    obtain dest fl1 where dest: "router_destination r shard fl (clock start) (take stride xs) = (dest, fl1)" by fastforce
    show ?thesis
    proof (cases dest)
      case (Some to)
      have step: "route_datagram shard clock meta (r, fl, stay) (start, take stride xs) = (router_forward r to (take stride xs) meta, fl1, stay)"
        by (simp add: route_datagram_def dest Some)
      have "foldl (route_datagram shard clock meta) (router_forward r to (take stride xs) meta, fl1, stay) (cut (start + stride) stride (drop stride xs)) = (r', fl', stay')"
        using run step by (simp add: cuts)
      from IH [OF some stride len _ kept(2) rest this] have loop: "\<exists>buf'. foldl (route_segment shard clock meta len stride) (router_forward r to (take stride xs) meta, fl1, buf, length stay)
          (map fst (cut (start + stride) stride (drop stride xs))) = (r', fl', buf', length stay') \<and> take (length stay') buf' = stay' \<and> length buf' = length buf \<and> drop len buf' = drop len buf"
        using kept(1) by simp
      have "route_segment shard clock meta len stride (r, fl, buf, length stay) start = (router_forward r to (take stride xs) meta, fl1, buf, length stay)"
        by (simp add: route_segment_def Let_def until_def [symmetric] seg dest Some)
      with loop show ?thesis by (simp add: cuts)
    next
      case None
      have step: "route_datagram shard clock meta (r, fl, stay) (start, take stride xs) = (r, fl1, stay @ take stride xs)"
        by (simp add: route_datagram_def dest None)
      define m where "m = (if start \<noteq> length stay then copy_within buf start until (length stay) else buf)"
      note moved = copy_down [OF kept(1) until(1,2) m_def]
      let ?stay = "stay @ take stride xs"
      have stay: "length stay + (until - start) = length ?stay" by (simp only: length_append size)
      have front: "take (length ?stay) m = ?stay" using moved(2) by (simp only: stay seg kept(2))
      have behind: "drop stride xs = drop (start + stride) (take len m)" using moved(3) [of "start + stride"] kept(1) until(4) by (simp add: rest drop_take)
      have tail: "drop len m = drop len buf" using moved(3) [of len] kept(1) until by simp
      have short: "length ?stay \<le> start + stride" using kept(1) until(4) stay by linarith
      have "foldl (route_datagram shard clock meta) (r, fl1, ?stay) (cut (start + stride) stride (drop stride xs)) = (r', fl', stay')"
        using run step by (simp add: cuts)
      from IH [OF some stride _ short front behind this] have loop: "\<exists>buf'. foldl (route_segment shard clock meta len stride) (r, fl1, m, length ?stay)
          (map fst (cut (start + stride) stride (drop stride xs))) = (r', fl', buf', length stay') \<and> take (length stay') buf' = stay' \<and> length buf' = length m \<and> drop len buf' = drop len m"
        using len moved(1) by (simp del: length_append)
      have "route_segment shard clock meta len stride (r, fl, buf, length stay) start = (r, fl1, m, length ?stay)"
        by (simp add: route_segment_def Let_def until_def [symmetric] seg dest None m_def [symmetric] stay del: length_append)
      with loop show ?thesis by (simp add: cuts moved(1) tail del: length_append)
    qed
  qed
qed

lemma ceil_step: "0 < s \<Longrightarrow> 0 < n \<Longrightarrow> (n + s - 1) div s = Suc ((n - s + s - 1) div s)" for n s :: nat
proof -
  assume x: "0 < s" "0 < n"
  then have "(n + s - 1) div s = Suc ((n - 1) div s)" using div_add_self2 [of s "n - 1"] by (simp add: add.commute)
  moreover have "(n - 1) div s = (n - s + s - 1) div s" using x by (cases "s \<le> n") simp_all
  ultimately show ?thesis by simp
qed

lemma cut_starts: "stride > 0 \<Longrightarrow> map fst (cut start stride xs) = map (\<lambda>i. start + stride * i) [0..<(length xs + stride - 1) div stride]"
proof (induction start stride xs rule: cut.induct)
  case (1 start stride xs)
  show ?case
  proof (cases "xs = []")
    case True
    then show ?thesis using 1(2) by (simp add: cut.simps)
  next
    case False
    let ?n = "(length (drop stride xs) + stride - 1) div stride"
    have count: "(length xs + stride - 1) div stride = Suc ?n" using ceil_step [of stride "length xs"] 1(2) False by (cases xs) simp_all
    have upt: "[0..<Suc n] = 0 # map Suc [0..<n]" for n by (simp add: upt_conv_Cons map_Suc_upt del: upt_Suc)
    have "map fst (cut start stride xs) = start # map (\<lambda>i. start + stride + stride * i) [0..<?n]"
      using False 1(2) 1(1) [OF _ 1(2)] by (simp add: cut.simps [of start stride xs])
    then show ?thesis unfolding count upt list.map map_map comp_def mult_Suc_right mult_0_right add.assoc add_0_right .
  qed
qed

lemma forward_bounded:
  assumes "\<forall>q\<in>set (ro_queues r). length q \<le> QUEUE_DATAGRAMS"
  shows "\<forall>q\<in>set (ro_queues (router_forward r to d meta)). length q \<le> QUEUE_DATAGRAMS"
proof (cases "ro_max_datagram r < length d \<or> \<not> length (ro_queues r ! to) < QUEUE_DATAGRAMS")
  case True
  then show ?thesis using assms by (auto simp: router_forward_def)
next
  case False
  then show ?thesis using assms set_update_subset_insert [of "ro_queues r" to] by (fastforce simp: router_forward_def)
qed

lemma route_datagrams_bounded:
  "\<forall>q\<in>set (ro_queues r). length q \<le> QUEUE_DATAGRAMS \<Longrightarrow> foldl (route_datagram shard clock meta) (r, fl, stay) ds = (r', fl', stay') \<Longrightarrow>
    \<forall>q\<in>set (ro_queues r'). length q \<le> QUEUE_DATAGRAMS"
proof (induction ds arbitrary: r fl stay)
  case (Cons d ds)
  obtain r1 fl1 stay1 where d: "route_datagram shard clock meta (r, fl, stay) d = (r1, fl1, stay1)" by (metis prod_cases3)
  have "r1 = r \<or> (\<exists>to. r1 = router_forward r to (snd d) meta)" using d by (auto simp: route_datagram_def split: prod.splits option.splits)
  then have "\<forall>q\<in>set (ro_queues r1). length q \<le> QUEUE_DATAGRAMS" using Cons(2) forward_bounded by metis
  then show ?case using Cons(1) [of r1 fl1 stay1] Cons(3) by (simp add: d)
qed simp

text \<open>
  C12. Routing a batch in place is routing its datagrams one by one: the batch is exactly its datagrams, what stays is moved together at the front of the buffer in the order received
  and is all that the new length covers, every other datagram is forwarded as it was received, and nothing beyond the batch is touched. No queue outgrows its bound.
\<close>

theorem route_in_place:
  fixes r :: "'m router"
  assumes "router_route r shard fl clock buf meta = (r', fl', buf', meta')" and "batch = take (rm_len meta) buf" and "stride = max (rm_stride meta) 1"
  shows "concat (map snd (cut 0 stride batch)) = batch \<and> meta' = meta\<lparr>rm_len := rm_len meta'\<rparr> \<and>
    foldl (route_datagram shard clock meta) (r, fl, []) (cut 0 stride batch) = (r', fl', take (rm_len meta') buf') \<and> rm_len meta' \<le> length buf' \<and>
    length buf' = length buf \<and> drop (length batch) buf' = drop (length batch) buf \<and>
    ((\<forall>q\<in>set (ro_queues r). length q \<le> QUEUE_DATAGRAMS) \<longrightarrow> (\<forall>q\<in>set (ro_queues r'). length q \<le> QUEUE_DATAGRAMS))"
proof -
  define len where "len = min (rm_len meta) (length buf)"
  have stride: "stride > 0" by (simp add: assms(3))
  have batch: "batch = take len buf" "length batch = len" by (simp_all add: assms(2) len_def min_def)
  obtain r1 fl1 stay where run: "foldl (route_datagram shard clock meta) (r, fl, []) (cut 0 stride batch) = (r1, fl1, stay)" by (metis prod_cases3)
  obtain buf1 where loop: "foldl (route_segment shard clock meta len stride) (r, fl, buf, 0) (map fst (cut 0 stride batch)) = (r1, fl1, buf1, length stay)"
      "take (length stay) buf1 = stay" "length buf1 = length buf" "drop len buf1 = drop len buf"
    using route_loop [OF stride, of len buf "[]" 0 batch shard clock meta r fl r1 fl1 stay] run batch by (auto simp: len_def)
  have starts: "map fst (cut 0 stride batch) = segment_starts len stride" using cut_starts [OF stride, of 0 batch] by (simp add: segment_starts_def batch(2))
  have "router_route r shard fl clock buf meta = (r1, fl1, buf1, meta\<lparr>rm_len := length stay\<rparr>)"
    unfolding router_route_def Let_def len_def [symmetric] assms(3) [symmetric] starts [symmetric] loop(1) by simp
  moreover have "length stay \<le> length buf1" using loop(2) by (metis length_take min.cobounded1 min.commute)
  ultimately show ?thesis using assms(1) cut_concat [OF stride, of 0 batch] run loop batch(2) route_datagrams_bounded [OF _ run] by auto
qed

theorem route_in_place_witness:
  "\<exists>buf'. router_route (router_new 2 1472 True) 0 [] (\<lambda>_. 0) [0x40, 1, 7, 0x40, 0, 8] \<lparr>rm_from = (), rm_len = 6, rm_stride = 3\<rparr> =
      (\<lparr>ro_queues = [[], [\<lparr>fw_meta = \<lparr>rm_from = (), rm_len = 3, rm_stride = 3\<rparr>, fw_datagram = [0x40, 1, 7]\<rparr>]], ro_connections = [0, 0], ro_steering = True, ro_max_datagram = 1472\<rparr>,
       [], buf', \<lparr>rm_from = (), rm_len = 3, rm_stride = 3\<rparr>) \<and> take 3 buf' = [0x40, 0, 8] \<and> length buf' = 6"
proof -
  let ?r = "router_new 2 1472 True :: unit router" and ?buf = "[0x40, 1, 7, 0x40, 0, 8] :: bytes" and ?meta = "\<lparr>rm_from = (), rm_len = 6, rm_stride = 3\<rparr>"
  obtain r' fl' buf' meta' where run: "router_route ?r 0 [] (\<lambda>_. 0) ?buf ?meta = (r', fl', buf', meta')" by (metis prod_cases4)
  have cuts: "cut 0 3 ?buf = [(0, [0x40, 1, 7]), (3, [0x40, 0, 8])]" by (simp add: cut.simps)
  have one: "router_destination ?r 0 [] 0 [0x40, 1, 7] = (Some 1, [])" by (simp add: router_destination_def named_def LONG_HEADER_def router_new_def)
  have two: "router_destination r 0 [] 0 [0x40, 0, 8] = (None, [])" for r :: "unit router" by (simp add: router_destination_def named_def LONG_HEADER_def)
  let ?r1 = "router_forward ?r 1 [0x40, 1, 7] ?meta"
  have steps: "route_datagram 0 (\<lambda>_. 0) ?meta (?r, [], []) (0, [0x40, 1, 7]) = (?r1, [], [])" "route_datagram 0 (\<lambda>_. 0) ?meta (?r1, [], []) (3, [0x40, 0, 8]) = (?r1, [], [0x40, 0, 8])"
    by (simp_all add: route_datagram_def one two)
  have whole: "?buf = take (rm_len ?meta) ?buf" "3 = max (rm_stride ?meta) 1" by simp_all
  note all = route_in_place [OF run whole]
  have "foldl (route_datagram 0 (\<lambda>_. 0) ?meta) (?r, [], []) (cut 0 3 ?buf) = (r', fl', take (rm_len meta') buf')" using all by blast
  then have "(?r1, [], [0x40, 0, 8]) = (r', fl', take (rm_len meta') buf')" unfolding cuts foldl.simps steps .
  moreover have "length buf' = 6" "rm_len meta' \<le> length buf'" "meta' = ?meta\<lparr>rm_len := rm_len meta'\<rparr>" using all by simp_all
  moreover have "rm_len meta' = length (take (rm_len meta') buf')" using calculation(3) by simp
  then have len: "rm_len meta' = 3" using calculation(1) by (metis (no_types, lifting) Pair_inject length_Cons list.size(3) numeral_3_eq_3)
  ultimately have "rm_len meta' = 3" "r' = ?r1" "fl' = []" "take 3 buf' = [0x40, 0, 8]" "length buf' = 6" "meta' = \<lparr>rm_from = (), rm_len = 3, rm_stride = 3\<rparr>" unfolding len by auto
  then show ?thesis using run by (auto simp: router_forward_def router_new_def QUEUE_DATAGRAMS_def numeral_2_eq_2)
qed

subsection \<open>Connections keep their endpoint\<close>














end
