(* ===== verification/Admission.thy ===== *)
theory Admission
  imports Quotas
begin

text \<open>
  Leases, \<^verbatim>\<open>rust/server/src/admission.rs\<close>: admission a client takes once and its requests then present. A lease keeps
  holds of the quotas for its grant; a slot is one admitted request, within the grant or past it. Vectors of holds
  that go out of scope or are truncated release their holds. The digest of a token is a parameter, and the
  sign-in a lease carries along plays no part in admission.
\<close>

subsection \<open>The model\<close>

record grant =
  g_measurements :: nat
  g_sessions :: nat

definition grant_default :: grant where
  "grant_default = \<lparr>g_measurements = 0, g_sessions = 0\<rparr>"

record alease =
  al_id :: nat
  al_digest :: bytes
  al_keys :: client_keys
  al_origin :: "bytes option"
  al_grant :: grant
  al_used :: grant
  al_measurements :: "qhold list"
  al_sessions :: "qhold list"
  al_live :: nat
  al_unused_since :: "nat option"
  al_ended :: bool

text \<open>A slot refers to its lease by its place in the list of all leases.\<close>

record slot =
  sl_lease :: nat
  sl_session :: bool
  sl_granted :: bool
  sl_past :: "qhold option"

definition lease_new :: "nat \<Rightarrow> bytes \<Rightarrow> client_keys \<Rightarrow> bytes option \<Rightarrow> alease" where
  "lease_new ident digest ks origin = \<lparr>al_id = ident, al_digest = digest, al_keys = ks, al_origin = origin,
     al_grant = grant_default, al_used = grant_default, al_measurements = [], al_sessions = [], al_live = 0,
     al_unused_since = None, al_ended = False\<rparr>"

definition wanted :: "alease \<Rightarrow> grant \<Rightarrow> nat \<times> nat" where
  "wanted l g = (max (g_measurements g) (g_measurements (al_used l)), max (g_sessions g) (g_sessions (al_used l)))"

definition lease_fit :: "quota_context \<Rightarrow> quotas \<Rightarrow> alease \<Rightarrow> alease \<times> quotas" where
  "lease_fit x qs l =
     (let (measurements, sessions) = wanted l (al_grant l)
      in (l\<lparr>al_measurements := take measurements (al_measurements l), al_sessions := take sessions (al_sessions l)\<rparr>,
          foldl (quotas_drop x) qs (drop measurements (al_measurements l) @ drop sessions (al_sessions l))))"

definition lease_resize :: "quota_context \<Rightarrow> quotas \<Rightarrow> alease \<Rightarrow> grant \<Rightarrow> (refusal + unit) \<times> alease \<times> quotas" where
  "lease_resize x qs l g =
     (if al_ended l then (Inr (), l, qs)
      else let (measurements, sessions) = wanted l g
           in case take_loop (session_beside_handler x (al_keys l)) (sessions - length (al_sessions l)) [] qs of
               (Some e, raised, qs) \<Rightarrow> (Inl (refusal_of e), l, foldl (quotas_drop x) qs raised)
             | (None, raised, qs) \<Rightarrow>
                 (case take_loop (quotas_operation x (al_keys l)) (measurements - length (al_measurements l)) [] qs of
                    (Some e, extra, qs) \<Rightarrow> (Inl (refusal_of e), l, foldl (quotas_drop x) qs (extra @ raised))
                  | (None, extra, qs) \<Rightarrow>
                      let l = l\<lparr>al_sessions := al_sessions l @ raised, al_measurements := al_measurements l @ extra, al_grant := g\<rparr>
                      in (Inr (), lease_fit x qs l)))"

definition lease_admit ::
    "quota_context \<Rightarrow> quotas \<Rightarrow> nat \<Rightarrow> alease \<Rightarrow> bool \<Rightarrow> (full + slot) \<times> alease \<times> quotas" where
  "lease_admit x qs place l session =
     (let granted = (g_measurements (al_used l) < g_measurements (al_grant l) \<and>
            (\<not> session \<or> g_sessions (al_used l) < g_sessions (al_grant l)));
          admitted = (\<lambda>past l. (\<lparr>sl_lease = place, sl_session = session, sl_granted = granted, sl_past = past\<rparr>,
            l\<lparr>al_live := al_live l + 1, al_unused_since := None\<rparr>))
      in if granted
         then let used = \<lparr>g_measurements = g_measurements (al_used l) + 1,
                   g_sessions = g_sessions (al_used l) + (if session then 1 else 0)\<rparr>;
                  (s, l) = admitted None (l\<lparr>al_used := used\<rparr>)
              in (Inr s, l, qs)
         else case (if session then quotas_session x (al_keys l) qs else quotas_operation x (al_keys l) qs) of
             (Inl e, qs) \<Rightarrow> (Inl e, l, qs)
           | (Inr past, qs) \<Rightarrow> (let (s, l) = admitted (Some past) l in (Inr s, l, qs)))"

text \<open>The end of a slot: its share of the grant first, then the hold past it.\<close>

definition slot_drop :: "quota_context \<Rightarrow> quotas \<Rightarrow> alease \<Rightarrow> slot \<Rightarrow> alease \<times> quotas" where
  "slot_drop x qs l s =
     (let (l, qs) =
          (if sl_granted s
           then let used = \<lparr>g_measurements = g_measurements (al_used l) - 1,
                     g_sessions = g_sessions (al_used l) - (if sl_session s then 1 else 0)\<rparr>
                in lease_fit x qs (l\<lparr>al_used := used\<rparr>)
           else (l, qs));
          l = l\<lparr>al_live := al_live l - 1\<rparr>
      in (l, case sl_past s of None \<Rightarrow> qs | Some past \<Rightarrow> quotas_drop x qs past))"

definition UNUSED_BOUND :: nat where
  "UNUSED_BOUND = 30 * 1000"

datatype unused = Unused | Until nat | Changed

text \<open>One turn of the loop of \<open>unused\<close> at a time in milliseconds.\<close>

definition lease_unused :: "nat \<Rightarrow> alease \<Rightarrow> unused \<times> alease" where
  "lease_unused now l =
     (if al_live l > 0 then (Changed, l)
      else let since = (case al_unused_since l of None \<Rightarrow> now | Some since \<Rightarrow> since);
               l = l\<lparr>al_unused_since := Some since\<rparr>
           in (if now - since \<ge> UNUSED_BOUND then Unused else Until (since + UNUSED_BOUND), l))"

text \<open>The leases by digest, as places in the list of all leases ever made, and the counter of their identifiers.\<close>

record leases =
  ls_table :: "bytes \<Rightarrow> nat option"
  ls_all :: "alease list"
  ls_ids :: nat

definition leases_create ::
    "quota_context \<Rightarrow> (bytes \<Rightarrow> bytes) \<Rightarrow> leases \<Rightarrow> quotas \<Rightarrow> client_keys \<Rightarrow> bytes option \<Rightarrow> grant \<Rightarrow> bytes \<Rightarrow>
     (refusal + nat) \<times> leases \<times> quotas" where
  "leases_create x digest ls qs ks origin g token =
     (let l = lease_new (ls_ids ls) (digest token) ks origin; ls = ls\<lparr>ls_ids := ls_ids ls + 1\<rparr>
      in case lease_resize x qs l g of
          (Inl e, l, qs) \<Rightarrow> (Inl e, ls, qs)
        | (Inr _, l, qs) \<Rightarrow>
            (Inr (length (ls_all ls)),
             ls\<lparr>ls_all := ls_all ls @ [l], ls_table := (ls_table ls)(al_digest l \<mapsto> length (ls_all ls))\<rparr>, qs))"

definition leases_find :: "(bytes \<Rightarrow> bytes) \<Rightarrow> leases \<Rightarrow> bytes \<Rightarrow> bytes option \<Rightarrow> nat option" where
  "leases_find digest ls token origin = (case ls_table ls (digest token) of
       None \<Rightarrow> None
     | Some place \<Rightarrow> if origin = None \<or> origin = al_origin (ls_all ls ! place) then Some place else None)"

definition leases_end :: "quota_context \<Rightarrow> leases \<Rightarrow> quotas \<Rightarrow> nat \<Rightarrow> leases \<times> quotas" where
  "leases_end x ls qs place =
     (let l = ls_all ls ! place;
          (l', qs) = lease_fit x qs (l\<lparr>al_ended := True, al_grant := grant_default\<rparr>)
      in (ls\<lparr>ls_table := (ls_table ls)(al_digest l := None), ls_all := (ls_all ls)[place := l']\<rparr>, qs))"


subsection \<open>The holds of a lease\<close>

definition lease_holds :: "alease \<Rightarrow> qhold multiset" where
  "lease_holds l = mset (al_measurements l) + mset (al_sessions l)"

text \<open>A lease keeps exactly the holds its grant and its slots in use want.\<close>

definition lease_inv :: "alease \<Rightarrow> bool" where
  "lease_inv l \<longleftrightarrow> (length (al_measurements l), length (al_sessions l)) = wanted l (al_grant l) \<and>
     g_sessions (al_used l) \<le> g_measurements (al_used l) \<and> g_measurements (al_used l) \<le> al_live l \<and>
     (al_ended l \<longrightarrow> al_grant l = grant_default)"

lemma lease_fit_holds:
  assumes "quotas_inv (x_trunc x) qs (lease_holds l + R)" and "lease_fit x qs l = (l', qs')"
  shows "quotas_inv (x_trunc x) qs' (lease_holds l' + R)"
proof -
  obtain m s where w: "wanted l (al_grant l) = (m, s)" by (cases "wanted l (al_grant l)")
  have parts: "mset (take m xs) + mset (drop m xs) = mset xs" for m and xs :: "qhold list"
    by (metis append_take_drop_id mset_append)
  have "lease_holds l + R = (mset (take m (al_measurements l)) + mset (take s (al_sessions l)) + R) +
      mset (drop m (al_measurements l) @ drop s (al_sessions l))"
    unfolding lease_holds_def by (subst parts [of m, symmetric], subst parts [of s "al_sessions l", symmetric]) (simp add: ac_simps)
  with assms(1) have "quotas_inv (x_trunc x) (foldl (quotas_drop x) qs (drop m (al_measurements l) @ drop s (al_sessions l)))
      (mset (take m (al_measurements l)) + mset (take s (al_sessions l)) + R)"
    by (intro operation_pool.give_all) simp
  then show ?thesis using assms(2) w by (auto simp: lease_fit_def lease_holds_def)
qed

lemma lease_fit_fields:
  assumes "lease_fit x qs l = (l', qs')"
  shows "al_grant l' = al_grant l" "al_used l' = al_used l" "al_live l' = al_live l" "al_ended l' = al_ended l"
    "al_keys l' = al_keys l" "al_digest l' = al_digest l" "al_origin l' = al_origin l" "al_id l' = al_id l"
    "al_unused_since l' = al_unused_since l"
    "length (al_measurements l') = min (fst (wanted l (al_grant l))) (length (al_measurements l))"
    "length (al_sessions l') = min (snd (wanted l (al_grant l))) (length (al_sessions l))"
  using assms by (auto simp: lease_fit_def min.commute split: prod.splits)

lemma lease_resize_inv:
  assumes q: "quotas_inv (x_trunc x) qs (lease_holds l + R)" and i: "lease_inv l"
    and run: "lease_resize x qs l g = (r, l', qs')"
  shows "quotas_inv (x_trunc x) qs' (lease_holds l' + R)" and "lease_inv l'"
    and "\<And>e. r = Inl e \<Longrightarrow> l' = l"
    and "al_used l' = al_used l \<and> al_live l' = al_live l \<and> al_ended l' = al_ended l \<and> al_keys l' = al_keys l \<and>
      (al_ended l \<or> r \<noteq> Inr () \<or> al_grant l' = g)"
proof -
  have "quotas_inv (x_trunc x) qs' (lease_holds l' + R) \<and> lease_inv l' \<and> (\<forall>e. r = Inl e \<longrightarrow> l' = l) \<and>
      (al_used l' = al_used l \<and> al_live l' = al_live l \<and> al_ended l' = al_ended l \<and> al_keys l' = al_keys l \<and>
      (al_ended l \<or> r \<noteq> Inr () \<or> al_grant l' = g))"
  proof (cases "al_ended l")
    case True
    then show ?thesis using q i run by (simp add: lease_resize_def)
  next
    case False
    obtain m s where w: "wanted l g = (m, s)" by (cases "wanted l g")
    obtain e1 raised q1 where t1: "take_loop (session_beside_handler x (al_keys l)) (s - length (al_sessions l)) [] qs = (e1, raised, q1)"
      by (metis prod_cases3)
    have q1: "quotas_inv (x_trunc x) q1 (lease_holds l + R + mset raised)" and n1: "e1 = None \<longrightarrow> length raised = s - length (al_sessions l)"
      using session_beside_pool.take_loop_inv [OF q t1] by auto
    show ?thesis
    proof (cases e1)
      case (Some e)
      have "quotas_inv (x_trunc x) (foldl (quotas_drop x) q1 raised) (lease_holds l + R)" using operation_pool.give_all [OF q1] .
      then show ?thesis using run False w t1 Some i by (auto simp: lease_resize_def)
    next
      case None
      obtain e2 extra q2 where t2: "take_loop (quotas_operation x (al_keys l)) (m - length (al_measurements l)) [] q1 = (e2, extra, q2)"
        by (metis prod_cases3)
      have q2: "quotas_inv (x_trunc x) q2 (lease_holds l + R + mset (extra @ raised))"
        and n2: "e2 = None \<longrightarrow> length extra = m - length (al_measurements l)"
        using operation_pool.take_loop_inv [OF q1 t2] by (auto simp: ac_simps)
      show ?thesis
      proof (cases e2)
        case (Some e)
        have "quotas_inv (x_trunc x) (foldl (quotas_drop x) q2 (extra @ raised)) (lease_holds l + R)"
          by (rule operation_pool.give_all [OF q2])
        then show ?thesis using run False w t1 None t2 Some i by (auto simp: lease_resize_def)
      next
        case none: None
        let ?l = "l\<lparr>al_sessions := al_sessions l @ raised, al_measurements := al_measurements l @ extra, al_grant := g\<rparr>"
        have fit: "lease_fit x q2 ?l = (l', qs')" and r: "r = Inr ()" using run False w t1 None t2 none by (simp_all add: lease_resize_def)
        have "quotas_inv (x_trunc x) q2 (lease_holds ?l + R)" using q2 by (simp add: lease_holds_def ac_simps)
        note h = lease_fit_holds [OF this fit]
        have "wanted ?l (al_grant ?l) = (m, s)" using w by (simp add: wanted_def)
        moreover have "length (al_measurements ?l) \<ge> m" "length (al_sessions ?l) \<ge> s" using n1 n2 None none by simp_all
        ultimately have "lease_inv l'" using lease_fit_fields [OF fit] i False by (auto simp: lease_inv_def wanted_def)
        with h r lease_fit_fields [OF fit] show ?thesis by simp
      qed
    qed
  qed
  then show "quotas_inv (x_trunc x) qs' (lease_holds l' + R)" and "lease_inv l'" and "\<And>e. r = Inl e \<Longrightarrow> l' = l"
    and "al_used l' = al_used l \<and> al_live l' = al_live l \<and> al_ended l' = al_ended l \<and> al_keys l' = al_keys l \<and>
      (al_ended l \<or> r \<noteq> Inr () \<or> al_grant l' = g)" by blast+
qed

definition past_holds :: "slot \<Rightarrow> qhold multiset" where
  "past_holds s = (case sl_past s of None \<Rightarrow> {#} | Some h \<Rightarrow> {#h#})"

lemma lease_admit_inv:
  assumes q: "quotas_inv (x_trunc x) qs (lease_holds l + R)" and i: "lease_inv l"
    and run: "lease_admit x qs place l session = (r, l', qs')"
  shows "case r of
      Inl _ \<Rightarrow> l' = l \<and> quotas_inv (x_trunc x) qs' (lease_holds l + R)
    | Inr s \<Rightarrow> lease_inv l' \<and> lease_holds l' = lease_holds l \<and> al_live l' = Suc (al_live l) \<and> al_ended l' = al_ended l \<and>
        sl_lease s = place \<and> (sl_granted s \<longleftrightarrow> sl_past s = None) \<and>
        g_measurements (al_used l') = g_measurements (al_used l) + of_bool (sl_granted s) \<and>
        g_sessions (al_used l') = g_sessions (al_used l) + of_bool (sl_granted s \<and> sl_session s) \<and>
        quotas_inv (x_trunc x) qs' (lease_holds l + R + past_holds s)"
proof -
  let ?granted = "g_measurements (al_used l) < g_measurements (al_grant l) \<and>
            (\<not> session \<or> g_sessions (al_used l) < g_sessions (al_grant l))"
  show ?thesis
  proof (cases ?granted)
    case True
    then show ?thesis
      using run q i by (auto simp: lease_admit_def Let_def lease_inv_def wanted_def lease_holds_def past_holds_def max_def grant_default_def split: if_splits)
  next
    case False
    obtain t q1 where t: "(if session then quotas_session x (al_keys l) qs else quotas_operation x (al_keys l) qs) = (t, q1)"
      by (metis prod.exhaust)
    have "quotas_inv (x_trunc x) q1 (case t of Inl _ \<Rightarrow> lease_holds l + R | Inr h \<Rightarrow> add_mset h (lease_holds l + R))"
      using t q session_inv [of x qs _ "al_keys l" t q1] acquire_from_inv [of x qs _ Operations "al_keys l" 1 t q1]
      by (cases session) (simp_all add: quotas_operation_def)
    then show ?thesis
      using run False t i by (cases t) (auto simp: lease_admit_def Let_def past_holds_def lease_inv_def wanted_def lease_holds_def)
  qed
qed


lemma slot_drop_inv:
  assumes q: "quotas_inv (x_trunc x) qs (lease_holds l + R + past_holds s)" and i: "lease_inv l"
    and live: "0 < al_live l" "g_measurements (al_used l) + of_bool (\<not> sl_granted s) \<le> al_live l"
    and used: "sl_granted s \<Longrightarrow> 0 < g_measurements (al_used l)"
      "sl_granted s \<Longrightarrow> sl_session s \<Longrightarrow> 0 < g_sessions (al_used l)"
      "sl_granted s \<Longrightarrow> \<not> sl_session s \<Longrightarrow> g_sessions (al_used l) < g_measurements (al_used l)"
    and run: "slot_drop x qs l s = (l', qs')"
  shows "quotas_inv (x_trunc x) qs' (lease_holds l' + R)" and "lease_inv l'"
    and "al_live l' = al_live l - 1" and "al_ended l' = al_ended l"
    and "g_measurements (al_used l') = g_measurements (al_used l) - of_bool (sl_granted s)"
    and "g_sessions (al_used l') = g_sessions (al_used l) - of_bool (sl_granted s \<and> sl_session s)"
proof -
  obtain l1 q1 where mid: "(if sl_granted s
           then lease_fit x qs (l\<lparr>al_used := \<lparr>g_measurements = g_measurements (al_used l) - 1,
                     g_sessions = g_sessions (al_used l) - (if sl_session s then 1 else 0)\<rparr>\<rparr>)
           else (l, qs)) = (l1, q1)" by (metis prod.exhaust)
  have r: "l' = l1\<lparr>al_live := al_live l1 - 1\<rparr>" "qs' = (case sl_past s of None \<Rightarrow> q1 | Some past \<Rightarrow> quotas_drop x q1 past)"
    using run mid by (cases "sl_granted s"; auto simp: slot_drop_def Let_def)+
  have "quotas_inv (x_trunc x) q1 (lease_holds l1 + R + past_holds s) \<and> lease_inv l' \<and> al_live l1 = al_live l \<and>
    al_ended l1 = al_ended l \<and> g_measurements (al_used l1) = g_measurements (al_used l) - of_bool (sl_granted s) \<and>
    g_sessions (al_used l1) = g_sessions (al_used l) - of_bool (sl_granted s \<and> sl_session s)"
  proof (cases "sl_granted s")
    case True
    let ?l = "l\<lparr>al_used := \<lparr>g_measurements = g_measurements (al_used l) - 1,
                     g_sessions = g_sessions (al_used l) - (if sl_session s then 1 else 0)\<rparr>\<rparr>"
    have fit: "lease_fit x qs ?l = (l1, q1)" using mid True by simp
    have "quotas_inv (x_trunc x) qs (lease_holds ?l + (R + past_holds s))" using q by (simp add: lease_holds_def ac_simps)
    from lease_fit_holds [OF this fit] have h: "quotas_inv (x_trunc x) q1 (lease_holds l1 + R + past_holds s)" by (simp add: ac_simps)
    note f = lease_fit_fields [OF fit]
    have "lease_inv l'" using i f used True live by (auto simp: r lease_inv_def wanted_def max_def)
    with h f True show ?thesis by simp
  next
    case False
    then show ?thesis using mid q i live by (auto simp: r lease_inv_def wanted_def)
  qed
  moreover from this have "quotas_inv (x_trunc x) qs' (lease_holds l' + R)"
  proof (cases "sl_past s")
    case None
    with calculation show ?thesis by (simp add: r past_holds_def lease_holds_def)
  next
    case (Some h)
    have "quotas_inv (x_trunc x) q1 (add_mset h (lease_holds l1 + R))" using calculation Some by (simp add: past_holds_def)
    from quotas_drop_inv [OF this, of h] show ?thesis by (simp add: r Some lease_holds_def)
  qed
  ultimately show "quotas_inv (x_trunc x) qs' (lease_holds l' + R)" "lease_inv l'" "al_live l' = al_live l - 1"
    "al_ended l' = al_ended l" "g_measurements (al_used l') = g_measurements (al_used l) - of_bool (sl_granted s)"
    "g_sessions (al_used l') = g_sessions (al_used l) - of_bool (sl_granted s \<and> sl_session s)"
    by (auto simp: r)
qed

subsection \<open>The server's admission as a state machine\<close>

text \<open>
  All leases with the slots and other holds that are live. The steps are the calls of request handlers, in any order
  and for any arguments; each runs under the lease's and the quotas' locks.
\<close>

record world =
  w_leases :: leases
  w_quotas :: quotas
  w_slots :: "slot multiset"
  w_other :: "qhold multiset"

definition world_new :: "limits \<Rightarrow> client_key option \<Rightarrow> world" where
  "world_new l operator = \<lparr>w_leases = \<lparr>ls_table = Map.empty, ls_all = [], ls_ids = 0\<rparr>, w_quotas = quotas_new l operator,
     w_slots = {#}, w_other = {#}\<rparr>"

abbreviation lease_at :: "world \<Rightarrow> nat \<Rightarrow> alease" where
  "lease_at w i \<equiv> ls_all (w_leases w) ! i"

abbreviation put_lease :: "world \<Rightarrow> nat \<Rightarrow> alease \<Rightarrow> leases" where
  "put_lease w i l \<equiv> (w_leases w)\<lparr>ls_all := (ls_all (w_leases w))[i := l]\<rparr>"

inductive admission_step :: "(ipv6 \<Rightarrow> nat \<Rightarrow> ipv6) \<Rightarrow> world \<Rightarrow> world \<Rightarrow> bool" for trunc where
  create: "x_trunc x = trunc \<Longrightarrow> leases_create x digest (w_leases w) (w_quotas w) ks origin g token = (r, ls, qs) \<Longrightarrow>
    admission_step trunc w (w\<lparr>w_leases := ls, w_quotas := qs\<rparr>)"
| resize: "x_trunc x = trunc \<Longrightarrow> i < length (ls_all (w_leases w)) \<Longrightarrow> lease_resize x (w_quotas w) (lease_at w i) g = (r, l, qs) \<Longrightarrow>
    admission_step trunc w (w\<lparr>w_leases := put_lease w i l, w_quotas := qs\<rparr>)"
| admit: "x_trunc x = trunc \<Longrightarrow> i < length (ls_all (w_leases w)) \<Longrightarrow>
    lease_admit x (w_quotas w) i (lease_at w i) session = (Inr s, l, qs) \<Longrightarrow>
    admission_step trunc w (w\<lparr>w_leases := put_lease w i l, w_quotas := qs, w_slots := add_mset s (w_slots w)\<rparr>)"
| refuse: "x_trunc x = trunc \<Longrightarrow> i < length (ls_all (w_leases w)) \<Longrightarrow>
    lease_admit x (w_quotas w) i (lease_at w i) session = (Inl e, l, qs) \<Longrightarrow>
    admission_step trunc w (w\<lparr>w_leases := put_lease w i l, w_quotas := qs\<rparr>)"
| release: "x_trunc x = trunc \<Longrightarrow> s \<in># w_slots w \<Longrightarrow> slot_drop x (w_quotas w) (lease_at w (sl_lease s)) s = (l, qs) \<Longrightarrow>
    admission_step trunc w (w\<lparr>w_leases := put_lease w (sl_lease s) l, w_quotas := qs, w_slots := w_slots w - {#s#}\<rparr>)"
| expire: "x_trunc x = trunc \<Longrightarrow> i < length (ls_all (w_leases w)) \<Longrightarrow> leases_end x (w_leases w) (w_quotas w) i = (ls, qs) \<Longrightarrow>
    admission_step trunc w (w\<lparr>w_leases := ls, w_quotas := qs\<rparr>)"
| watch: "i < length (ls_all (w_leases w)) \<Longrightarrow> lease_unused now (lease_at w i) = (u, l) \<Longrightarrow>
    admission_step trunc w (w\<lparr>w_leases := put_lease w i l\<rparr>)"
| other: "x_trunc x = trunc \<Longrightarrow> acquire_from x kind ks n (w_quotas w) = (Inr h, qs) \<Longrightarrow>
    admission_step trunc w (w\<lparr>w_quotas := qs, w_other := add_mset h (w_other w)\<rparr>)"
| other_refused: "x_trunc x = trunc \<Longrightarrow> acquire_from x kind ks n (w_quotas w) = (Inl e, qs) \<Longrightarrow>
    admission_step trunc w (w\<lparr>w_quotas := qs\<rparr>)"
| session: "x_trunc x = trunc \<Longrightarrow> quotas_session x ks (w_quotas w) = (Inr h, qs) \<Longrightarrow>
    admission_step trunc w (w\<lparr>w_quotas := qs, w_other := add_mset h (w_other w)\<rparr>)"
| session_refused: "x_trunc x = trunc \<Longrightarrow> quotas_session x ks (w_quotas w) = (Inl e, qs) \<Longrightarrow>
    admission_step trunc w (w\<lparr>w_quotas := qs\<rparr>)"
| other_dropped: "x_trunc x = trunc \<Longrightarrow> h \<in># w_other w \<Longrightarrow>
    admission_step trunc w (w\<lparr>w_quotas := quotas_drop x (w_quotas w) h, w_other := w_other w - {#h#}\<rparr>)"

definition slots_of :: "world \<Rightarrow> nat \<Rightarrow> slot multiset" where
  "slots_of w i = filter_mset (\<lambda>s. sl_lease s = i) (w_slots w)"

definition world_holds :: "world \<Rightarrow> qhold multiset" where
  "world_holds w = sum_list (map lease_holds (ls_all (w_leases w))) + (\<Sum>s \<in># w_slots w. past_holds s) + w_other w"

text \<open>What the lease counts of its slots is what they are.\<close>

definition counts_slots :: "alease \<Rightarrow> slot multiset \<Rightarrow> bool" where
  "counts_slots l S \<longleftrightarrow> al_live l = size S \<and>
     g_measurements (al_used l) = size (filter_mset sl_granted S) \<and>
     g_sessions (al_used l) = size (filter_mset (\<lambda>s. sl_granted s \<and> sl_session s) S)"

definition world_inv :: "(ipv6 \<Rightarrow> nat \<Rightarrow> ipv6) \<Rightarrow> world \<Rightarrow> bool" where
  "world_inv trunc w \<longleftrightarrow> quotas_inv trunc (w_quotas w) (world_holds w) \<and>
     (\<forall>i < length (ls_all (w_leases w)). lease_inv (lease_at w i) \<and> counts_slots (lease_at w i) (slots_of w i)) \<and>
     (\<forall>s \<in># w_slots w. sl_lease s < length (ls_all (w_leases w)) \<and> (sl_granted s \<longrightarrow> sl_past s = None))"

lemma holds_update:
  assumes "i < length ls"
  obtains R where "sum_list (map lease_holds ls) = lease_holds (ls ! i) + R"
    "\<And>l. sum_list (map lease_holds (ls[i := l])) = lease_holds l + R"
proof
  let ?R = "sum_list (map lease_holds (take i ls)) + sum_list (map lease_holds (drop (Suc i) ls))"
  have "ls = take i ls @ ls ! i # drop (Suc i) ls" using assms by (rule id_take_nth_drop)
  then have "sum_list (map lease_holds ls) = sum_list (map lease_holds (take i ls @ ls ! i # drop (Suc i) ls))" by (rule arg_cong)
  then show "sum_list (map lease_holds ls) = lease_holds (ls ! i) + ?R" by (simp add: ac_simps)
  show "sum_list (map lease_holds (ls[i := l])) = lease_holds l + ?R" for l
    by (simp add: upd_conv_take_nth_drop [OF assms] ac_simps)
qed


text \<open>A step that replaces one lease and changes only its slots.\<close>

lemma put_lease_inv:
  assumes inv: "world_inv trunc w" and i: "i < length (ls_all (w_leases w))"
    and ls: "ls_all (w_leases w') = (ls_all (w_leases w))[i := l]" and l: "lease_inv l"
    and here: "counts_slots l (slots_of w' i)" and there: "\<And>j. j \<noteq> i \<Longrightarrow> slots_of w' j = slots_of w j"
    and slots: "\<And>s. s \<in># w_slots w' \<Longrightarrow> s \<in># w_slots w \<or> sl_lease s = i \<and> (sl_granted s \<longrightarrow> sl_past s = None)"
    and q: "quotas_inv trunc (w_quotas w') (world_holds w')"
  shows "world_inv trunc w'"
proof -
  have "lease_inv (lease_at w' j) \<and> counts_slots (lease_at w' j) (slots_of w' j)" if "j < length (ls_all (w_leases w'))" for j
    using that inv i l here there [of j] by (cases "j = i") (simp_all add: world_inv_def ls)
  moreover have "sl_lease s < length (ls_all (w_leases w')) \<and> (sl_granted s \<longrightarrow> sl_past s = None)" if "s \<in># w_slots w'" for s
    using slots [OF that] inv i by (auto simp: world_inv_def ls)
  ultimately show ?thesis using q by (simp add: world_inv_def)
qed

lemma world_invD:
  assumes "world_inv trunc w" and "i < length (ls_all (w_leases w))"
  shows "lease_inv (lease_at w i)" "counts_slots (lease_at w i) (slots_of w i)"
  using assms by (simp_all add: world_inv_def)

lemma create_inv:
  assumes inv: "world_inv (x_trunc x) w"
    and run: "leases_create x digest (w_leases w) (w_quotas w) ks origin g token = (r, ls, qs)"
  shows "world_inv (x_trunc x) (w\<lparr>w_leases := ls, w_quotas := qs\<rparr>)"
proof -
  let ?n = "length (ls_all (w_leases w))"
  let ?l = "lease_new (ls_ids (w_leases w)) (digest token) ks origin"
  obtain rr l' qs' where rz: "lease_resize x (w_quotas w) ?l g = (rr, l', qs')" by (metis prod_cases3)
  have new: "lease_holds ?l = {#}" "lease_inv ?l" "al_used ?l = grant_default" "al_live ?l = 0"
    by (simp_all add: lease_holds_def lease_inv_def lease_new_def wanted_def grant_default_def)
  have q: "quotas_inv (x_trunc x) (w_quotas w) (lease_holds ?l + world_holds w)" using inv new(1) by (simp add: world_inv_def)
  note res = lease_resize_inv [OF q new(2) rz]
  have empty: "slots_of w ?n = {#}" using inv by (force simp: slots_of_def world_inv_def filter_mset_eq_mempty_iff)
  show ?thesis
  proof (cases rr)
    case (Inl e)
    then have "l' = ?l" using res(3) by simp
    then have "quotas_inv (x_trunc x) qs (world_holds w)" and "ls = (w_leases w)\<lparr>ls_ids := ls_ids (w_leases w) + 1\<rparr>"
      using res(1) run rz Inl new(1) by (auto simp: leases_create_def Let_def)
    then show ?thesis using inv by (simp add: world_inv_def world_holds_def slots_of_def)
  next
    case (Inr u)
    then have ls: "ls_all ls = ls_all (w_leases w) @ [l']" "qs = qs'" using run rz by (auto simp: leases_create_def Let_def)
    have h: "world_holds (w\<lparr>w_leases := ls, w_quotas := qs\<rparr>) = lease_holds l' + world_holds w"
      by (simp add: world_holds_def ls ac_simps)
    have c: "counts_slots l' {#}" using res(4) new by (simp add: counts_slots_def grant_default_def)
    have "lease_inv (ls_all ls ! j) \<and> counts_slots (ls_all ls ! j) (slots_of w j)" if "j < Suc ?n" for j
      using that inv res(2) c empty by (cases "j = ?n") (simp_all add: ls nth_append world_inv_def)
    then show ?thesis using res(1) inv h ls by (auto simp: world_inv_def slots_of_def)
  qed
qed

lemma counts_add:
  assumes "counts_slots l S" and "al_live l' = Suc (al_live l)"
    and "g_measurements (al_used l') = g_measurements (al_used l) + of_bool (sl_granted s)"
    and "g_sessions (al_used l') = g_sessions (al_used l) + of_bool (sl_granted s \<and> sl_session s)"
  shows "counts_slots l' (add_mset s S)"
  using assms by (simp add: counts_slots_def)

lemma counts_remove:
  assumes "counts_slots l (add_mset s S)" and "al_live l' = al_live l - 1"
    and "g_measurements (al_used l') = g_measurements (al_used l) - of_bool (sl_granted s)"
    and "g_sessions (al_used l') = g_sessions (al_used l) - of_bool (sl_granted s \<and> sl_session s)"
  shows "counts_slots l' S"
  using assms by (auto simp: counts_slots_def)

lemma release_inv:
  assumes inv: "world_inv (x_trunc x) w" and s: "s \<in># w_slots w"
    and run: "slot_drop x (w_quotas w) (lease_at w (sl_lease s)) s = (l, qs)"
  shows "world_inv (x_trunc x) (w\<lparr>w_leases := put_lease w (sl_lease s) l, w_quotas := qs, w_slots := w_slots w - {#s#}\<rparr>)"
    (is "world_inv _ ?w")
proof -
  let ?i = "sl_lease s" and ?S = "filter_mset (\<lambda>t. sl_lease t = sl_lease s) (w_slots w - {#s#})"
  have i: "?i < length (ls_all (w_leases w))" using inv s by (simp add: world_inv_def)
  note D = world_invD [OF inv i]
  have slots: "slots_of w ?i = add_mset s ?S" using s by (simp add: slots_of_def)
  have c: "counts_slots (lease_at w ?i) (add_mset s ?S)" using D(2) slots by simp
  have sz: "size (filter_mset (\<lambda>s. sl_granted s \<and> sl_session s) ?S) \<le> size (filter_mset sl_granted ?S)"
    "size (filter_mset sl_granted ?S) \<le> size ?S"
    by (metis filter_filter_mset size_filter_mset_lesseq) (rule size_filter_mset_lesseq)
  obtain R where R: "sum_list (map lease_holds (ls_all (w_leases w))) = lease_holds (lease_at w ?i) + R"
    "\<And>l. sum_list (map lease_holds ((ls_all (w_leases w))[?i := l])) = lease_holds l + R"
    using holds_update [OF i] by blast
  let ?P = "(\<Sum>t \<in># w_slots w - {#s#}. past_holds t)"
  have past: "(\<Sum>t \<in># w_slots w. past_holds t) = past_holds s + ?P" using s by (metis image_mset_add_mset insert_DiffM sum_mset.add_mset)
  have "world_holds w = lease_holds (lease_at w ?i) + (R + ?P + w_other w) + past_holds s"
    by (simp add: world_holds_def R(1) past ac_simps)
  then have q: "quotas_inv (x_trunc x) (w_quotas w) (lease_holds (lease_at w ?i) + (R + ?P + w_other w) + past_holds s)"
    using inv by (simp add: world_inv_def)
  have pre: "0 < al_live (lease_at w ?i)" "g_measurements (al_used (lease_at w ?i)) + of_bool (\<not> sl_granted s) \<le> al_live (lease_at w ?i)"
    "sl_granted s \<Longrightarrow> 0 < g_measurements (al_used (lease_at w ?i))"
    "sl_granted s \<Longrightarrow> sl_session s \<Longrightarrow> 0 < g_sessions (al_used (lease_at w ?i))"
    "sl_granted s \<Longrightarrow> \<not> sl_session s \<Longrightarrow> g_sessions (al_used (lease_at w ?i)) < g_measurements (al_used (lease_at w ?i))"
    using c sz by (auto simp: counts_slots_def)
  note d = slot_drop_inv [OF q D(1) pre run]
  show ?thesis
  proof (rule put_lease_inv [OF inv i, of ?w l])
    show "counts_slots l (slots_of ?w ?i)" using counts_remove [OF c d(3,5,6)] by (simp add: slots_of_def)
    show "slots_of ?w j = slots_of w j" if "j \<noteq> ?i" for j
      using that s by (simp add: slots_of_def)
    show "quotas_inv (x_trunc x) (w_quotas ?w) (world_holds ?w)" using d(1) by (simp add: world_holds_def R(2) ac_simps)
  qed (use d(2) in_diffD in \<open>auto dest: in_diffD\<close>)
qed


lemma resize_inv:
  assumes inv: "world_inv (x_trunc x) w" and i: "i < length (ls_all (w_leases w))"
    and run: "lease_resize x (w_quotas w) (lease_at w i) g = (r, l, qs)"
  shows "world_inv (x_trunc x) (w\<lparr>w_leases := put_lease w i l, w_quotas := qs\<rparr>)"
    (is "world_inv _ ?w")
proof -
  obtain R where R: "sum_list (map lease_holds (ls_all (w_leases w))) = lease_holds (lease_at w i) + R"
    "\<And>l. sum_list (map lease_holds ((ls_all (w_leases w))[i := l])) = lease_holds l + R"
    using holds_update [OF i] by blast
  let ?P = "(\<Sum>t \<in># w_slots w. past_holds t) + w_other w"
  have q: "quotas_inv (x_trunc x) (w_quotas w) (lease_holds (lease_at w i) + (R + ?P))"
    using inv by (simp add: world_inv_def world_holds_def R(1) ac_simps)
  note D = world_invD [OF inv i] and d = lease_resize_inv [OF q world_invD(1) [OF inv i] run]
  show ?thesis
  proof (rule put_lease_inv [OF inv i, of ?w l])
    show "counts_slots l (slots_of ?w i)" using D(2) d(4) by (simp add: slots_of_def counts_slots_def)
    show "quotas_inv (x_trunc x) (w_quotas ?w) (world_holds ?w)" using d(1) by (simp add: world_holds_def R(2) ac_simps)
  qed (use d(2) in \<open>simp_all add: slots_of_def\<close>)
qed

lemma admit_inv:
  assumes inv: "world_inv (x_trunc x) w" and i: "i < length (ls_all (w_leases w))"
    and run: "lease_admit x (w_quotas w) i (lease_at w i) session = (r, l, qs)"
  shows "world_inv (x_trunc x) (w\<lparr>w_leases := put_lease w i l, w_quotas := qs,
     w_slots := (case r of Inl _ \<Rightarrow> w_slots w | Inr s \<Rightarrow> add_mset s (w_slots w))\<rparr>)"
    (is "world_inv _ ?w")
proof -
  obtain R where R: "sum_list (map lease_holds (ls_all (w_leases w))) = lease_holds (lease_at w i) + R"
    "\<And>l. sum_list (map lease_holds ((ls_all (w_leases w))[i := l])) = lease_holds l + R"
    using holds_update [OF i] by blast
  let ?P = "(\<Sum>t \<in># w_slots w. past_holds t) + w_other w"
  have q: "quotas_inv (x_trunc x) (w_quotas w) (lease_holds (lease_at w i) + (R + ?P))"
    using inv by (simp add: world_inv_def world_holds_def R(1) ac_simps)
  note D = world_invD [OF inv i] and d = lease_admit_inv [OF q world_invD(1) [OF inv i] run]
  show ?thesis
  proof (cases r)
    case (Inl e)
    then show ?thesis
      using inv d i by (auto simp: world_inv_def world_holds_def slots_of_def R ac_simps)
  next
    case (Inr s)
    note d = d [unfolded Inr sum.case]
    show ?thesis
    proof (rule put_lease_inv [OF inv i, of ?w l])
      show "counts_slots l (slots_of ?w i)" using counts_add [OF D(2), of l s] d by (simp add: slots_of_def Inr)
      show "quotas_inv (x_trunc x) (w_quotas ?w) (world_holds ?w)" using d by (simp add: world_holds_def R(2) Inr ac_simps)
    qed (use d in \<open>auto simp: slots_of_def Inr\<close>)
  qed
qed

lemma expire_inv:
  assumes inv: "world_inv (x_trunc x) w" and i: "i < length (ls_all (w_leases w))"
    and run: "leases_end x (w_leases w) (w_quotas w) i = (ls, qs)"
  shows "world_inv (x_trunc x) (w\<lparr>w_leases := ls, w_quotas := qs\<rparr>)"
    (is "world_inv _ ?w")
proof -
  obtain R where R: "sum_list (map lease_holds (ls_all (w_leases w))) = lease_holds (lease_at w i) + R"
    "\<And>l. sum_list (map lease_holds ((ls_all (w_leases w))[i := l])) = lease_holds l + R"
    using holds_update [OF i] by blast
  let ?P = "(\<Sum>t \<in># w_slots w. past_holds t) + w_other w"
  let ?l = "(lease_at w i)\<lparr>al_ended := True, al_grant := grant_default\<rparr>"
  obtain l' q1 where fit: "lease_fit x (w_quotas w) ?l = (l', q1)" by (cases "lease_fit x (w_quotas w) ?l")
  have e: "ls_all ls = (ls_all (w_leases w))[i := l']" "qs = q1" using run fit by (auto simp: leases_end_def Let_def)
  have q: "quotas_inv (x_trunc x) (w_quotas w) (lease_holds ?l + (R + ?P))"
    using inv by (simp add: world_inv_def world_holds_def R(1) lease_holds_def ac_simps)
  note D = world_invD [OF inv i] and f = lease_fit_fields [OF fit]
  have l: "lease_inv l'" using D(1) f by (auto simp: lease_inv_def wanted_def grant_default_def)
  show ?thesis
  proof (rule put_lease_inv [OF inv i, of ?w l'])
    show "counts_slots l' (slots_of ?w i)" using D(2) f by (simp add: slots_of_def counts_slots_def)
    show "quotas_inv (x_trunc x) (w_quotas ?w) (world_holds ?w)"
      using lease_fit_holds [OF q fit] by (simp add: world_holds_def R(2) e ac_simps)
  qed (use l in \<open>simp_all add: slots_of_def e\<close>)
qed

lemma watch_inv:
  assumes inv: "world_inv trunc w" and i: "i < length (ls_all (w_leases w))" and run: "lease_unused now (lease_at w i) = (u, l)"
  shows "world_inv trunc (w\<lparr>w_leases := put_lease w i l\<rparr>)" (is "world_inv _ ?w")
proof -
  have l: "lease_holds l = lease_holds (lease_at w i)" "lease_inv l = lease_inv (lease_at w i)"
    "counts_slots l S = counts_slots (lease_at w i) S" for S
    using run by (auto simp: lease_unused_def Let_def lease_holds_def lease_inv_def wanted_def counts_slots_def split: if_splits)
  obtain R where R: "sum_list (map lease_holds (ls_all (w_leases w))) = lease_holds (lease_at w i) + R"
    "\<And>l. sum_list (map lease_holds ((ls_all (w_leases w))[i := l])) = lease_holds l + R"
    using holds_update [OF i] by blast
  show ?thesis
    by (rule put_lease_inv [OF inv i, of ?w l])
      (use world_invD [OF inv i] inv in \<open>simp_all add: l slots_of_def world_inv_def world_holds_def R\<close>)
qed

lemma quotas_step_inv:
  assumes "world_inv trunc w" and "quotas_inv trunc qs (case r of Inl _ \<Rightarrow> world_holds w | Inr h \<Rightarrow> add_mset h (world_holds w))"
  shows "world_inv trunc (w\<lparr>w_quotas := qs, w_other := (case r of Inl _ \<Rightarrow> w_other w | Inr h \<Rightarrow> add_mset h (w_other w))\<rparr>)"
  using assms by (cases r) (simp_all add: world_inv_def world_holds_def slots_of_def)

lemma admission_step_inv:
  assumes step: "admission_step trunc w w'" and inv: "world_inv trunc w"
  shows "world_inv trunc w'"
  using step
proof (cases rule: admission_step.cases)
  case (admit x i session s l qs)
  then show ?thesis using admit_inv [of x w i session "Inr s" l qs] inv by simp
next
  case (refuse x i session e l qs)
  then show ?thesis using admit_inv [of x w i session "Inl e" l qs] inv by simp
next
  case (other x kind ks n h qs)
  then show ?thesis
    using acquire_from_inv [of x "w_quotas w" "world_holds w" kind ks n "Inr h" qs] quotas_step_inv [OF inv, of qs "Inr h"] inv
    by (simp add: world_inv_def)
next
  case (other_refused x kind ks n e qs)
  then show ?thesis
    using acquire_from_inv [of x "w_quotas w" "world_holds w" kind ks n "Inl e" qs] quotas_step_inv [OF inv, of qs "Inl e"] inv
    by (simp add: world_inv_def)
next
  case (session x ks h qs)
  then show ?thesis
    using session_inv [of x "w_quotas w" "world_holds w" ks "Inr h" qs] quotas_step_inv [OF inv, of qs "Inr h"] inv
    by (simp add: world_inv_def)
next
  case (session_refused x ks e qs)
  then show ?thesis
    using session_inv [of x "w_quotas w" "world_holds w" ks "Inl e" qs] quotas_step_inv [OF inv, of qs "Inl e"] inv
    by (simp add: world_inv_def)
next
  case (other_dropped x h)
  have "h \<in># world_holds w" "world_holds w - {#h#} = world_holds (w\<lparr>w_other := w_other w - {#h#}\<rparr>)"
    using other_dropped(3) by (simp_all add: world_holds_def)
  then show ?thesis
    using other_dropped quotas_drop_inv [of x "w_quotas w" "world_holds w" h] inv by (simp add: world_inv_def world_holds_def slots_of_def)
next
  case (create x digest ks origin g token r ls qs)
  then show ?thesis using create_inv [of x w digest ks origin g token r ls qs] inv by simp
next
  case (resize x i g r l qs)
  then show ?thesis using resize_inv [of x w i g r l qs] inv by simp
next
  case (release x s l qs)
  then show ?thesis using release_inv [of x w s l qs] inv by simp
next
  case (expire x i ls qs)
  then show ?thesis using expire_inv [of x w i ls qs] inv by simp
next
  case (watch i now u l)
  then show ?thesis using watch_inv [OF inv, of i now u l] by simp
qed

lemma world_inv_new: "world_inv trunc (world_new l operator)"
  by (simp add: world_inv_def world_new_def world_holds_def quotas_inv_new)

lemma world_inv_reachable: "(admission_step trunc)\<^sup>*\<^sup>* (world_new l operator) w \<Longrightarrow> world_inv trunc w"
  by (induction rule: rtranclp_induct) (auto intro: world_inv_new admission_step_inv)


subsection \<open>Properties\<close>

text \<open>
  C3. Whatever requests create, resize, present and end leases, in any order and with any refusals in between, each quota
  counts exactly the holds that are live, in total and for every client key; no fixed total and no client's share is
  ever exceeded, and every lease keeps just the holds its grant and its slots in use want.
\<close>

theorem admission_never_overcommits:
  assumes "(admission_step trunc)\<^sup>*\<^sup>* (world_new limits operator) w"
  shows "(\<forall>kind c q. quota_at (w_quotas w) kind = (c, q) \<longrightarrow>
      q_used q = weights (holds_of kind (world_holds w)) \<and>
      (\<forall>key. held_of q key = key_weights trunc c (holds_of kind (world_holds w)) key) \<and>
      (\<forall>n. qc_total c = Fixed n \<and> n < usize_max \<longrightarrow> q_used q \<le> n) \<and>
      (\<forall>key. key_share (qc_share c) key < usize_max \<longrightarrow> held_of q key \<le> key_share (qc_share c) key)) \<and>
    (\<forall>i < length (ls_all (w_leases w)). lease_inv (lease_at w i) \<and> counts_slots (lease_at w i) (slots_of w i))"
proof -
  have inv: "world_inv trunc w" by (rule world_inv_reachable [OF assms])
  have "q_used q = weights (holds_of kind (world_holds w)) \<and>
      (\<forall>key. held_of q key = key_weights trunc c (holds_of kind (world_holds w)) key) \<and>
      (\<forall>n. qc_total c = Fixed n \<and> n < usize_max \<longrightarrow> q_used q \<le> n) \<and>
      (\<forall>key. key_share (qc_share c) key < usize_max \<longrightarrow> held_of q key \<le> key_share (qc_share c) key)"
    if "quota_at (w_quotas w) kind = (c, q)" for kind c q
  proof -
    have "quota_inv trunc c q (holds_of kind (world_holds w))"
      using inv that by (auto simp: world_inv_def quotas_inv_def dest: spec [of _ kind])
    then show ?thesis unfolding quota_inv_def by (meson le_trans)
  qed
  with inv show ?thesis unfolding world_inv_def by blast
qed

definition sample_context :: quota_context where
  "sample_context = \<lparr>x_trunc = (\<lambda>ip _. ip), x_budget = budget_new 0\<rparr>"

definition sample_limits :: limits where
  "sample_limits = \<lparr>lm_operations = 4, lm_operations_per_client = 2, lm_sessions = 4, lm_sessions_per_client = 2,
     lm_connections = 4, lm_connections_per_client = 2\<rparr>"

lemma operation_fresh:
  "\<exists>h qs'. quotas_operation sample_context (KeysV4 a) (quotas_new sample_limits operator) = (Inr h, qs')"
proof -
  let ?c = "\<lparr>qc_total = Fixed 4, qc_share = 2, qc_exempt = None\<rparr>"
  have "quota_keys (x_trunc sample_context) ?c (KeysV4 a) = [KeyV4 a]"
    by (simp add: quota_keys_def quota_shares_def keys_shares_eq keys_iter_def)
  then have "\<not> over_share sample_context ?c quota_state_default (KeysV4 a) 1"
    by (simp add: over_share_def quota_shares_eq held_of_def quota_state_default_def key_share_def saturating_add_def usize_max_def)
  moreover have "\<not> saturating_add (q_used quota_state_default) 1 > quota_limit sample_context ?c"
    by (simp add: quota_limit_def quota_state_default_def saturating_add_def)
  moreover have "quota_at (quotas_new sample_limits operator) Operations = (?c, quota_state_default)"
    by (simp add: quota_at.simps quotas_new_def quota_new_def sample_limits_def)
  ultimately show ?thesis by (simp add: quotas_operation_def acquire_from_def quota_acquire_def)
qed

text \<open>A lease of one measurement, and the same lease ended.\<close>

lemma sample_lease:
  obtains w where "(admission_step (\<lambda>ip _. ip))\<^sup>*\<^sup>* (world_new sample_limits None) w" "length (ls_all (w_leases w)) = 1"
    "g_measurements (al_grant (lease_at w 0)) = 1" "w_slots w = {#}" "w_other w = {#}"
proof -
  let ?w = "world_new sample_limits None" and ?g = "\<lparr>g_measurements = 1, g_sessions = 0\<rparr>"
  let ?l = "lease_new 0 [1] (KeysV4 7) None"
  obtain r ls qs where r: "leases_create sample_context id (w_leases ?w) (w_quotas ?w) (KeysV4 7) None ?g [1] = (r, ls, qs)"
    by (metis prod_cases3)
  obtain h q1 where op: "quotas_operation sample_context (KeysV4 7) (quotas_new sample_limits None) = (Inr h, q1)"
    using operation_fresh by blast
  have w: "wanted ?l ?g = (1, 0)" "al_keys ?l = KeysV4 7" "al_measurements ?l = []" "al_sessions ?l = []" "\<not> al_ended ?l"
    by (simp_all add: wanted_def lease_new_def grant_default_def)
  obtain l qs' where rz: "lease_resize sample_context (quotas_new sample_limits None) ?l ?g = (Inr (), l, qs')" "al_grant l = ?g"
    using op w by (auto simp: lease_resize_def Let_def lease_fit_def wanted_def)
  then have ls: "length (ls_all ls) = 1" "g_measurements (al_grant (ls_all ls ! 0)) = 1"
    using r by (auto simp: leases_create_def world_new_def Let_def)
  have "admission_step (\<lambda>ip _. ip) ?w (?w\<lparr>w_leases := ls, w_quotas := qs\<rparr>)"
    using r by (intro admission_step.create [of sample_context]) (simp_all add: sample_context_def)
  from that [OF r_into_rtranclp [of "admission_step _", OF this]] ls show thesis by (simp add: world_new_def)
qed

theorem admission_never_overcommits_witness:
  "\<exists>w. (admission_step (\<lambda>ip _. ip))\<^sup>*\<^sup>* (world_new sample_limits None) w \<and> length (ls_all (w_leases w)) = 1 \<and> lease_inv (lease_at w 0) \<and> length (al_measurements (lease_at w 0)) \<ge> 1"
proof -
  obtain w where w: "(admission_step (\<lambda>ip _. ip))\<^sup>*\<^sup>* (world_new sample_limits None) w" "length (ls_all (w_leases w)) = 1"
    "g_measurements (al_grant (lease_at w 0)) = 1" using sample_lease by blast
  have "lease_inv (lease_at w 0)" using admission_never_overcommits [OF w(1)] w(2) by simp
  then have "length (al_measurements (lease_at w 0)) \<ge> 1" using w(3) by (simp add: lease_inv_def wanted_def)
  with \<open>lease_inv (lease_at w 0)\<close> w(1,2) show ?thesis by blast
qed

lemma no_holds: "(\<And>l. l \<in> set ls \<Longrightarrow> lease_holds l = {#}) \<Longrightarrow> sum_list (map lease_holds ls) = {#}"
  by (induction ls) simp_all

text \<open>
  Nothing leaks: once every lease has ended, no slot is live and the other holds are dropped, every quota is back at
  zero with no client key left in its map, whichever path led there.
\<close>

theorem admission_no_leak:
  assumes "(admission_step trunc)\<^sup>*\<^sup>* (world_new limits operator) w"
    and "\<forall>l \<in> set (ls_all (w_leases w)). al_ended l" and "w_slots w = {#}" and "w_other w = {#}"
  shows "q_used (snd (quota_at (w_quotas w) kind)) = 0 \<and> q_held (snd (quota_at (w_quotas w) kind)) = Map.empty"
proof -
  have inv: "world_inv trunc w" by (rule world_inv_reachable [OF assms(1)])
  have "lease_holds (lease_at w i) = {#}" if i: "i < length (ls_all (w_leases w))" for i
  proof -
    have "al_ended (lease_at w i)" using assms(2) i by simp
    with world_invD [OF inv i] assms(3) show ?thesis
      by (auto simp: lease_inv_def wanted_def counts_slots_def slots_of_def grant_default_def lease_holds_def)
  qed
  then have "sum_list (map lease_holds (ls_all (w_leases w))) = {#}"
    by (intro no_holds) (auto simp: in_set_conv_nth)
  then have "world_holds w = {#}" by (simp add: world_holds_def assms(3,4))
  then have qi: "quota_inv trunc (fst (quota_at (w_quotas w) kind)) (snd (quota_at (w_quotas w) kind)) {#}"
    using inv by (simp add: world_inv_def quotas_inv_def)
  have "q_held (snd (quota_at (w_quotas w) kind)) key = None" for key
  proof (cases "q_held (snd (quota_at (w_quotas w) kind)) key")
    case (Some n)
    then have "n = 0" using qi by (auto simp: quota_inv_def held_of_def dest: spec [of _ key])
    then show ?thesis using qi Some by (auto simp: quota_inv_def)
  qed
  then show ?thesis using qi by (auto simp: quota_inv_def)
qed

theorem admission_no_leak_witness:
  "\<exists>w :: world. length (ls_all (w_leases w)) = 1 \<and> q_used (snd (quota_at (w_quotas w) Operations)) = 0"
proof -
  obtain w where w: "(admission_step (\<lambda>ip _. ip))\<^sup>*\<^sup>* (world_new sample_limits None) w" "length (ls_all (w_leases w)) = 1"
    "w_slots w = {#}" "w_other w = {#}" using sample_lease by blast
  obtain ls qs where e: "leases_end sample_context (w_leases w) (w_quotas w) 0 = (ls, qs)" by (metis prod.exhaust)
  let ?w = "w\<lparr>w_leases := ls, w_quotas := qs\<rparr>"
  have "admission_step (\<lambda>ip _. ip) w ?w" using e w(2) by (intro admission_step.expire [of sample_context]) (simp_all add: sample_context_def)
  then have r: "(admission_step (\<lambda>ip _. ip))\<^sup>*\<^sup>* (world_new sample_limits None) ?w" using w(1) by (rule rtranclp.rtrancl_into_rtrancl [rotated])
  have len: "length (ls_all ls) = 1" and all: "\<forall>l \<in> set (ls_all (w_leases ?w)). al_ended l"
    using e w(2) by (auto simp: leases_end_def lease_fit_def Let_def length_Suc_conv split: prod.splits)
  have none: "w_slots ?w = {#}" "w_other ?w = {#}" using w(3,4) by simp_all
  from admission_no_leak [OF r all none, of Operations] len
  have "length (ls_all (w_leases ?w)) = 1 \<and> q_used (snd (quota_at (w_quotas ?w) Operations)) = 0" by simp
  then show ?thesis by (rule exI)
qed

text \<open>No operation of a lease changes how a quota is set up.\<close>

lemma acquire_from_config: "fst (quota_at (snd (acquire_from x kind ks n qs)) k) = fst (quota_at qs k)"
  by (simp add: acquire_from_def case_prod_unfold Let_def)

lemma quotas_drop_config: "fst (quota_at (quotas_drop x qs h) k) = fst (quota_at qs k)"
  by (simp add: quotas_drop_def Let_def drop_from_at)

lemma drops_config: "fst (quota_at (foldl (quotas_drop x) qs hs) k) = fst (quota_at qs k)"
  by (induction hs arbitrary: qs) (simp_all add: quotas_drop_config)

lemma take_loop_config:
  assumes "\<And>q. fst (quota_at (snd (grab q)) k) = fst (quota_at q k)" and "take_loop grab n hs qs = (e, hs', qs')"
  shows "fst (quota_at qs' k) = fst (quota_at qs k)"
  using assms(2)
proof (induction n arbitrary: hs qs)
  case (Suc n)
  obtain r q where g: "grab qs = (r, q)" by (cases "grab qs")
  with Suc assms(1) [of qs] show ?case by (cases r) auto
qed simp

lemma lease_resize_config:
  assumes run: "lease_resize x qs l g = (Inl e, l', qs')"
  shows "fst (quota_at qs' kind) = fst (quota_at qs kind)"
proof -
  obtain m s where w: "wanted l g = (m, s)" by (cases "wanted l g")
  obtain e1 raised q1 where t1: "take_loop (session_beside_handler x (al_keys l)) (s - length (al_sessions l)) [] qs = (e1, raised, q1)"
    by (metis prod_cases3)
  obtain e2 extra q2 where t2: "take_loop (quotas_operation x (al_keys l)) (m - length (al_measurements l)) [] q1 = (e2, extra, q2)"
    by (metis prod_cases3)
  have "fst (quota_at q1 kind) = fst (quota_at qs kind)"
    by (rule take_loop_config [OF _ t1]) (simp add: session_beside_handler_def acquire_from_config)
  moreover have "fst (quota_at q2 kind) = fst (quota_at q1 kind)"
    by (rule take_loop_config [OF _ t2]) (simp add: quotas_operation_def acquire_from_config)
  ultimately show ?thesis
    using run w t1 t2 by (cases e1; cases e2) (auto simp: lease_resize_def drops_config Let_def split: if_splits)
qed

text \<open>
  C27. A refused resize changes nothing but the refusal counters: the lease is as it was, and every quota holds the same in
  total and for every key, although some of the wanted holds had been taken before one was refused.
\<close>

theorem resize_all_or_nothing:
  assumes "quotas_inv (x_trunc x) qs (lease_holds l + rest)" and "lease_inv l"
    and "lease_resize x qs l g = (Inl e, l', qs')"
  shows "l' = l \<and> q_used (snd (quota_at qs' kind)) = q_used (snd (quota_at qs kind)) \<and>
    held_of (snd (quota_at qs' kind)) key = held_of (snd (quota_at qs kind)) key"
proof -
  note r = lease_resize_inv [OF assms]
  have l: "l' = l" using r(3) by blast
  have "quota_inv (x_trunc x) (fst (quota_at qs kind)) (snd (quota_at qs kind)) (holds_of kind (lease_holds l + rest))"
    "quota_inv (x_trunc x) (fst (quota_at qs' kind)) (snd (quota_at qs' kind)) (holds_of kind (lease_holds l + rest))"
    using assms(1) r(1) l by (simp_all add: quotas_inv_def)
  then show ?thesis using l lease_resize_config [OF assms(3), of kind] by (simp add: quota_inv_def)
qed

theorem resize_all_or_nothing_witness:
  "\<exists>qs'. lease_resize sample_context (quotas_new (sample_limits\<lparr>lm_operations := 0\<rparr>) None)
       (lease_new 0 [] Exempt None) \<lparr>g_measurements = 1, g_sessions = 1\<rparr> =
         (Inl ServerCapacity, lease_new 0 [] Exempt None, qs') \<and>
     q_used (snd (quota_at qs' Sessions)) = 0"
proof -
  let ?qs = "quotas_new (sample_limits\<lparr>lm_operations := 0\<rparr>) None" and ?l = "lease_new 0 [] Exempt None"
  let ?g = "\<lparr>g_measurements = 1, g_sessions = 1\<rparr>"
  have at: "quota_at ?qs Sessions = (\<lparr>qc_total = Fixed 4, qc_share = 2, qc_exempt = None\<rparr>, quota_state_default)"
    "quota_at ?qs Operations = (\<lparr>qc_total = Fixed 0, qc_share = 2, qc_exempt = None\<rparr>, quota_state_default)"
    by (simp_all add: quota_at.simps quotas_new_def quota_new_def sample_limits_def)
  obtain h q1 where s: "session_beside_handler sample_context Exempt ?qs = (Inr h, q1)" "quota_at q1 Operations = quota_at ?qs Operations"
    using at(1) by (simp add: session_beside_handler_def acquire_from_def quota_acquire_def over_share_def quota_shares_eq
        quota_limit_def saturating_add_def quota_state_default_def)
  obtain q2 where o: "quotas_operation sample_context Exempt q1 = (Inl Total, q2)"
    using at(2) s(2) by (simp add: quotas_operation_def acquire_from_def quota_acquire_def over_share_def quota_shares_eq
        quota_limit_def saturating_add_def quota_state_default_def usize_max_def)
  have "wanted ?l ?g = (1, 1)" "al_keys ?l = Exempt" "al_measurements ?l = []" "al_sessions ?l = []" "\<not> al_ended ?l"
    by (simp_all add: wanted_def lease_new_def grant_default_def)
  then obtain qs' where r: "lease_resize sample_context ?qs ?l ?g = (Inl ServerCapacity, ?l, qs')"
    using s(1) o by (simp add: lease_resize_def refusal_of_def)
  have "quotas_inv (x_trunc sample_context) ?qs (lease_holds ?l + {#})" "lease_inv ?l"
    by (simp_all add: lease_holds_def lease_inv_def lease_new_def wanted_def grant_default_def quotas_inv_new)
  from resize_all_or_nothing [OF this r, of Sessions] r at(1) show ?thesis
    by (simp add: quota_state_default_def)
qed

end
