(* ===== verification/Hash_Table.thy ===== *)
theory Hash_Table
  imports Main "HOL-Library.AList"
begin

text \<open>
  Rust's \<^verbatim>\<open>HashMap\<close> as an association list with distinct keys, in the order an iteration would visit it. A \<open>get\<close> is
  \<open>map_of\<close>, an \<open>insert\<close> or the write through a \<open>get_mut\<close> is \<open>AList.update\<close>, a \<open>remove\<close> is \<open>AList.delete\<close>, a \<open>retain\<close> is \<open>filter\<close>.
  The lemmas count entries, which is what the stores bound.
\<close>

named_theorems table_simps \<open>lookups and counts in tables\<close>

definition table_wf :: "('k \<times> 'v) list \<Rightarrow> bool" where
  "table_wf t \<longleftrightarrow> distinct (map fst t)"

text \<open>How many entries satisfy a predicate.\<close>

definition count_where :: "('k \<Rightarrow> 'v \<Rightarrow> bool) \<Rightarrow> ('k \<times> 'v) list \<Rightarrow> nat" where
  "count_where P t = length (filter (\<lambda>(k, v). P k v) t)"

lemma table_wf_Nil [simp]: "table_wf []"
  by (simp add: table_wf_def)

lemma table_wf_update [simp, intro]: "table_wf t \<Longrightarrow> table_wf (AList.update k v t)"
  by (simp add: table_wf_def distinct_update)

lemma table_wf_delete [simp, intro]: "table_wf t \<Longrightarrow> table_wf (AList.delete k t)"
  by (simp add: table_wf_def distinct_delete)

lemma table_wf_filter [simp, intro]: "table_wf t \<Longrightarrow> table_wf (filter P t)"
  by (simp add: table_wf_def distinct_map_filter)

lemma table_wf_map [simp]: "table_wf (map (\<lambda>(k, v). (k, f k v)) t) = table_wf t"
  by (simp add: table_wf_def case_prod_unfold o_def)

lemma lookup_update [table_simps]: "map_of (AList.update k v t) k' = (if k' = k then Some v else map_of t k')"
  by (simp add: update_conv')

lemma lookup_delete [table_simps]: "map_of (AList.delete k t) k' = (if k' = k then None else map_of t k')"
  by (simp add: delete_conv')

lemma lookup_filter [table_simps]:
  assumes "table_wf t"
  shows "map_of (filter P t) k = (case map_of t k of None \<Rightarrow> None | Some v \<Rightarrow> if P (k, v) then Some v else None)"
  using assms
proof (induction t)
  case (Cons x t)
  obtain j w where x: "x = (j, w)" by (cases x)
  have "map_of (filter P t) j = None" if "table_wf (x # t)"
    using that by (auto simp: x table_wf_def map_of_eq_None_iff)
  with Cons show ?case by (auto simp: x table_wf_def split: option.splits)
qed simp

lemma lookup_map [table_simps]: "map_of (map (\<lambda>(k, v). (k, f k v)) t) k = map_option (f k) (map_of t k)"
  by (induction t) auto

lemma in_table: "table_wf t \<Longrightarrow> (k, v) \<in> set t \<longleftrightarrow> map_of t k = Some v"
  by (auto simp: table_wf_def)

lemma in_update: "table_wf t \<Longrightarrow> (k', v') \<in> set (AList.update k v t) \<longleftrightarrow> (if k' = k then v' = v else (k', v') \<in> set t)"
  by (auto simp: in_table table_simps)

lemma in_delete: "table_wf t \<Longrightarrow> (k', v') \<in> set (AList.delete k t) \<longleftrightarrow> k' \<noteq> k \<and> (k', v') \<in> set t"
  by (auto simp: in_table table_simps)

lemma update_fresh: "k \<notin> fst ` set t \<Longrightarrow> AList.update k v t = t @ [(k, v)]"
  by (induction t) auto

lemma delete_split: "table_wf (es\<^sub>1 @ (k, v) # es\<^sub>2) \<Longrightarrow> AList.delete k (es\<^sub>1 @ (k, v) # es\<^sub>2) = es\<^sub>1 @ es\<^sub>2"
  by (induction es\<^sub>1) (auto simp: table_wf_def delete_id)

subsection \<open>Counting\<close>

lemma count_where_simps [simp]:
  "count_where P [] = 0"
  "count_where P ((k, v) # t) = (if P k v then 1 else 0) + count_where P t"
  by (simp_all add: count_where_def)

lemma count_where_True: "count_where (\<lambda>_ _. True) t = length t"
  by (simp add: count_where_def)

lemma count_where_le: "count_where P t \<le> length t"
  by (simp add: count_where_def)

lemma count_update_new: "map_of t k = None \<Longrightarrow> count_where P (AList.update k v t) = count_where P t + (if P k v then 1 else 0)"
  by (induction t) auto

lemma count_update_old:
  "table_wf t \<Longrightarrow> map_of t k = Some w \<Longrightarrow>
    count_where P (AList.update k v t) + (if P k w then 1 else 0) = count_where P t + (if P k v then 1 else 0)"
proof (induction t)
  case (Cons x t)
  then show ?case by (cases x) (auto simp: table_wf_def split: if_splits)
qed simp

lemma count_update_le: "table_wf t \<Longrightarrow> count_where P (AList.update k v t) \<le> count_where P t + (if P k v then 1 else 0)"
proof (cases "map_of t k")
  case None
  then show ?thesis by (simp add: count_update_new)
next
  case (Some w)
  assume "table_wf t"
  from count_update_old [OF this Some, of P v] show ?thesis by linarith
qed

lemma length_update: "table_wf t \<Longrightarrow> length (AList.update k v t) = (if map_of t k = None then Suc (length t) else length t)"
proof (cases "map_of t k")
  case None
  then show ?thesis using count_update_new [OF None, of "\<lambda>_ _. True" v] unfolding count_where_True by simp
next
  case (Some w)
  assume "table_wf t"
  from count_update_old [OF this Some, of "\<lambda>_ _. True" v] Some show ?thesis unfolding count_where_True by simp
qed

lemma count_delete:
  "table_wf t \<Longrightarrow> count_where P t = count_where P (AList.delete k t) + (case map_of t k of Some v \<Rightarrow> if P k v then 1 else 0 | None \<Rightarrow> 0)"
proof (induction t)
  case (Cons x t)
  obtain j w where x: "x = (j, w)" by (cases x)
  have wf: "table_wf t" using Cons.prems by (simp add: x table_wf_def)
  show ?case
  proof (cases "j = k")
    case True
    then have "AList.delete k t = t" using Cons.prems by (simp add: x table_wf_def)
    with True show ?thesis by (simp add: x)
  next
    case False
    with Cons.IH [OF wf] show ?thesis by (simp add: x)
  qed
qed simp

lemma count_filter_le: "count_where P (filter Q t) \<le> count_where P t"
  by (induction t) auto

lemma length_filter_le_table: "length (filter Q t) \<le> length t"
  by simp

lemma count_where_mono: "(\<And>k v. (k, v) \<in> set t \<Longrightarrow> P k v \<Longrightarrow> Q k v) \<Longrightarrow> count_where P t \<le> count_where Q t"
proof (induction t)
  case (Cons x t)
  have "count_where P t \<le> count_where Q t" by (rule Cons.IH) (use Cons.prems in auto)
  then show ?case using Cons.prems by (cases x) auto
qed simp

lemma count_where_cong: "(\<And>k v. (k, v) \<in> set t \<Longrightarrow> P k v = Q k v) \<Longrightarrow> count_where P t = count_where Q t"
  by (intro antisym count_where_mono) auto

lemma count_map: "count_where P (map (\<lambda>(k, v). (k, f k v)) t) = count_where (\<lambda>k v. P k (f k v)) t"
  by (induction t) auto

lemma count_where_filter: "count_where P (filter (\<lambda>(k, v). Q k v) t) = count_where (\<lambda>k v. Q k v \<and> P k v) t"
  by (induction t) auto

subsection \<open>The first of the smallest\<close>

text \<open>\<open>min_by_key\<close> of an iterator.\<close>

definition min_by_key :: "('a \<Rightarrow> nat) \<Rightarrow> 'a list \<Rightarrow> 'a option" where
  "min_by_key f xs = (case xs of [] \<Rightarrow> None | x # xs \<Rightarrow> Some (foldl (\<lambda>m y. if f y < f m then y else m) x xs))"

lemma min_by_key_None [simp]: "min_by_key f xs = None \<longleftrightarrow> xs = []"
  by (cases xs) (simp_all add: min_by_key_def)

lemma foldl_min: "foldl (\<lambda>m y. if f y < f m then y else m) x xs \<in> set (x # xs) \<and>
    (\<forall>y \<in> set (x # xs). (f (foldl (\<lambda>m y. if f y < f m then y else m) x xs) :: nat) \<le> f y)"
proof (induction xs arbitrary: x)
  case (Cons y ys)
  from Cons.IH [of "if f y < f x then y else x"] show ?case by (auto split: if_splits)
qed simp

lemma min_by_key_Some: "min_by_key f xs = Some m \<Longrightarrow> m \<in> set xs \<and> (\<forall>x \<in> set xs. f m \<le> f x)"
  using foldl_min [of f "hd xs" "tl xs"] by (cases xs) (auto simp: min_by_key_def)

end
