(* ===== verification/Rate.thy ===== *)
theory Rate
  imports Quota Hash_Table
begin

text \<open>
  The budget of sign-in attempts, \<^verbatim>\<open>rust/server/src/auth/rate.rs\<close>: attempts per client key in a window of a minute, in a
  table of bounded size, and ceilings that all clients share. Instants are milliseconds; each operation gets the
  instants it reads. The log lines are left out, the instant that spaces them is kept.
\<close>

subsection \<open>The model\<close>

definition WINDOW :: nat where "WINDOW = 60 * 1000"
definition MAX_KEYS :: nat where "MAX_KEYS = 2048"

record attempts =
  at_keys :: "(client_key \<times> nat list) list"
  at_logged :: "nat option"

definition attempts_new :: attempts where
  "attempts_new = \<lparr>at_keys = [], at_logged = None\<rparr>"

definition rate_expire :: "nat \<Rightarrow> nat list \<Rightarrow> nat list" where
  "rate_expire now ts = dropWhile (\<lambda>time. now - time \<ge> WINDOW) ts"

definition engage :: "nat option \<Rightarrow> nat \<Rightarrow> nat option" where
  "engage logged now = (case logged of
       Some at \<Rightarrow> if now - at < WINDOW then Some at else Some now
     | None \<Rightarrow> Some now)"

record ceiling =
  ce_limit :: nat
  ce_times :: "nat list"
  ce_logged :: "nat option"

definition ceiling_new :: "nat \<Rightarrow> ceiling" where
  "ceiling_new limit = \<lparr>ce_limit = limit, ce_times = [], ce_logged = None\<rparr>"

definition ceiling_note :: "nat \<Rightarrow> ceiling \<Rightarrow> ceiling" where
  "ceiling_note now c = c\<lparr>ce_times := rate_expire now (ce_times c) @ [now]\<rparr>"

definition ceiling_engaged :: "nat \<Rightarrow> ceiling \<Rightarrow> bool \<times> ceiling" where
  "ceiling_engaged now c =
     (let ts = rate_expire now (ce_times c); engaged = (length ts \<ge> ce_limit c)
      in (engaged, c\<lparr>ce_times := ts, ce_logged := (if engaged then engage (ce_logged c) now else ce_logged c)\<rparr>))"

definition share_full :: "(ipv6 \<Rightarrow> nat \<Rightarrow> ipv6) \<Rightarrow> client_keys \<Rightarrow> nat \<Rightarrow> (client_key \<Rightarrow> nat) \<Rightarrow> bool" where
  "share_full trunc ks limit held \<longleftrightarrow> list_ex (\<lambda>(key, share). held key \<ge> share) (keys_shares trunc ks limit)"

text \<open>The \<open>retain\<close> of a table about to be full, and the loop that checks each key, which stops at the first refusal.\<close>

definition attempts_retain :: "nat \<Rightarrow> attempts \<Rightarrow> attempts" where
  "attempts_retain now tb =
     tb\<lparr>at_keys := filter (\<lambda>(_, ts). ts \<noteq> []) (map (\<lambda>(key, ts). (key, rate_expire now ts)) (at_keys tb))\<rparr>"

fun attempts_check :: "bool \<Rightarrow> nat \<Rightarrow> (client_key \<times> nat) list \<Rightarrow> attempts \<Rightarrow> bool \<times> attempts" where
  "attempts_check known now [] tb = (True, tb)"
| "attempts_check known now ((key, share) # keys) tb =
     (let full = (length (at_keys tb) \<ge> MAX_KEYS)
      in case map_of (at_keys tb) key of
          Some ts \<Rightarrow>
            let ts = rate_expire now ts; tb = tb\<lparr>at_keys := AList.update key ts (at_keys tb)\<rparr>
            in if length ts \<ge> share then (False, tb) else attempts_check known now keys tb
        | None \<Rightarrow>
            if full \<and> known then attempts_check known now keys tb
            else if full then (False, tb\<lparr>at_logged := engage (at_logged tb) now\<rparr>)
            else attempts_check known now keys (tb\<lparr>at_keys := AList.update key [] (at_keys tb)\<rparr>))"

fun attempts_push :: "nat \<Rightarrow> client_key list \<Rightarrow> attempts \<Rightarrow> attempts" where
  "attempts_push now [] tb = tb"
| "attempts_push now (key # keys) tb =
     attempts_push now keys (case map_of (at_keys tb) key of
         Some ts \<Rightarrow> tb\<lparr>at_keys := AList.update key (ts @ [now]) (at_keys tb)\<rparr>
       | None \<Rightarrow> tb)"

definition attempts_allow ::
    "(ipv6 \<Rightarrow> nat \<Rightarrow> ipv6) \<Rightarrow> nat \<Rightarrow> attempts \<Rightarrow> client_keys \<Rightarrow> bool \<Rightarrow> ceiling option \<Rightarrow> nat \<Rightarrow> nat \<Rightarrow>
     bool \<times> attempts \<times> ceiling option" where
  "attempts_allow trunc limit tb ks known ceil now now' =
     (let keys = keys_shares trunc ks limit;
          tb = (if length (at_keys tb) + length keys > MAX_KEYS then attempts_retain now tb else tb)
      in case attempts_check known now keys tb of
          (False, tb) \<Rightarrow> (False, tb, ceil)
        | (True, tb) \<Rightarrow>
            (case map_option (ceiling_engaged now') ceil of
               Some (True, c) \<Rightarrow> (False, tb, Some c)
             | Some (False, c) \<Rightarrow> (True, attempts_push now (map fst keys) tb, Some c)
             | None \<Rightarrow> (True, attempts_push now (map fst keys) tb, None)))"

subsection \<open>What the table remembers\<close>

definition times_of :: "attempts \<Rightarrow> client_key \<Rightarrow> nat list" where
  "times_of tb key = (case map_of (at_keys tb) key of None \<Rightarrow> [] | Some ts \<Rightarrow> ts)"

definition table_ok :: "attempts \<Rightarrow> bool" where
  "table_ok tb \<longleftrightarrow> table_wf (at_keys tb) \<and> length (at_keys tb) \<le> MAX_KEYS"

text \<open>A table that may have forgotten expired attempts, and nothing else.\<close>

definition forgets :: "nat \<Rightarrow> attempts \<Rightarrow> attempts \<Rightarrow> bool" where
  "forgets now tb tb' \<longleftrightarrow> (\<forall>key. times_of tb' key = times_of tb key \<or> times_of tb' key = rate_expire now (times_of tb key))"

lemma rate_expire_idem [simp]: "rate_expire now (rate_expire now ts) = rate_expire now ts"
  by (simp add: rate_expire_def dropWhile_idem)

lemma rate_expire_Nil [simp]: "rate_expire now [] = []"
  by (simp add: rate_expire_def)

lemma rate_expire_split: "\<exists>old. ts = old @ rate_expire now ts \<and> (\<forall>time \<in> set old. now - time \<ge> WINDOW)"
  using takeWhile_dropWhile_id [of "\<lambda>time. now - time \<ge> WINDOW" ts]
  by (metis rate_expire_def set_takeWhileD)

lemma forgets_trans: "forgets now a b \<Longrightarrow> forgets now b c \<Longrightarrow> forgets now a c"
  unfolding forgets_def by (metis rate_expire_idem)

lemma times_of_update: "times_of (tb\<lparr>at_keys := AList.update key ts (at_keys tb)\<rparr>) key' = (if key' = key then ts else times_of tb key')"
  by (simp add: times_of_def table_simps)

lemma retain_forgets:
  assumes "table_ok tb"
  shows "table_ok (attempts_retain now tb)" and "forgets now tb (attempts_retain now tb)"
proof -
  let ?m = "map (\<lambda>(key, ts). (key, rate_expire now ts)) (at_keys tb)"
  have wf: "table_wf ?m" using assms by (simp add: table_ok_def)
  have "length (at_keys (attempts_retain now tb)) \<le> length (at_keys tb)" by (simp add: attempts_retain_def filter_map)
  moreover have "table_wf (at_keys (attempts_retain now tb))" using wf by (simp add: attempts_retain_def)
  ultimately show "table_ok (attempts_retain now tb)" using assms by (simp add: table_ok_def)
  have "times_of (attempts_retain now tb) key = rate_expire now (times_of tb key)" for key
    using lookup_filter [OF wf, of "\<lambda>(_, ts). ts \<noteq> []" key]
    by (auto simp: times_of_def attempts_retain_def lookup_map split: option.splits)
  then show "forgets now tb (attempts_retain now tb)" by (simp add: forgets_def)
qed

lemma check_forgets:
  assumes "attempts_check known now keys tb = (ok, tb')" and "table_ok tb" and "distinct (map fst keys)" and "\<forall>(key, share) \<in> set keys. 0 < share"
  shows "table_ok tb' \<and> forgets now tb tb' \<and> (\<forall>key. key \<notin> fst ` set keys \<longrightarrow> times_of tb' key = times_of tb key) \<and>
    (ok \<longrightarrow> (\<forall>(key, share) \<in> set keys. length (times_of tb' key) < share))"
  using assms
proof (induction known now keys tb rule: attempts_check.induct)
  case (1 known now tb)
  then show ?case by (simp add: forgets_def)
next
  case (2 known now key share keys tb)
  have rest: "distinct (map fst keys)" "\<forall>(key, share) \<in> set keys. 0 < share" "key \<notin> fst ` set keys" "0 < share"
    using 2(6,7) by auto
  show ?case
  proof (cases "map_of (at_keys tb) key")
    case (Some ts)
    let ?ts = "rate_expire now ts" and ?tb = "tb\<lparr>at_keys := AList.update key (rate_expire now ts) (at_keys tb)\<rparr>"
    have ok: "table_ok ?tb" using 2(5) Some by (simp add: table_ok_def length_update)
    have old: "times_of tb key = ts" using Some by (simp add: times_of_def)
    have f: "forgets now tb ?tb" unfolding forgets_def using old by (simp add: times_of_update)
    show ?thesis
    proof (cases "length ?ts \<ge> share")
      case True
      then have "ok = False" "tb' = ?tb" using 2(4) Some by (simp_all add: Let_def)
      then show ?thesis using ok f by (auto simp: times_of_update)
    next
      case False
      then have run: "attempts_check known now keys ?tb = (ok, tb')" using 2(4) Some by (simp add: Let_def)
      from 2(3) [OF refl Some refl refl False run ok rest(1,2)] show ?thesis
        using f rest(3) False by (auto simp: times_of_update intro: forgets_trans)
    qed
  next
    case None
    have old: "times_of tb key = []" using None by (simp add: times_of_def)
    show ?thesis
    proof (cases "length (at_keys tb) \<ge> MAX_KEYS")
      case True
      show ?thesis
      proof (cases known)
        case yes: True
        then have run: "attempts_check known now keys tb = (ok, tb')" using 2(4) None True by (simp add: Let_def)
        have "length (at_keys tb) \<ge> MAX_KEYS \<and> known" using True yes by simp
        from 2(1) [OF refl None this run 2(5) rest(1,2)] show ?thesis using rest(3,4) old by auto
      next
        case False
        then have "ok = False" "tb' = tb\<lparr>at_logged := engage (at_logged tb) now\<rparr>" using 2(4) None True by (simp_all add: Let_def)
        then show ?thesis using 2(5) by (simp add: table_ok_def forgets_def times_of_def)
      qed
    next
      case False
      let ?tb = "tb\<lparr>at_keys := AList.update key [] (at_keys tb)\<rparr>"
      have run: "attempts_check known now keys ?tb = (ok, tb')" using 2(4) None False by (simp add: Let_def)
      have ok: "table_ok ?tb" using 2(5) None False by (simp add: table_ok_def length_update)
      have f: "forgets now tb ?tb" unfolding forgets_def using old by (simp add: times_of_update)
      have "\<not> (length (at_keys tb) \<ge> MAX_KEYS \<and> known)" using False by simp
      from 2(2) [OF refl None this False run ok rest(1,2)] show ?thesis
        using f rest(3,4) old by (auto simp: times_of_update intro: forgets_trans)
    qed
  qed
qed

lemma push_times:
  assumes "table_ok tb" and "distinct keys"
  shows "table_ok (attempts_push now keys tb) \<and>
    (\<forall>key. (map_of (at_keys (attempts_push now keys tb)) key = None) = (map_of (at_keys tb) key = None) \<and>
      times_of (attempts_push now keys tb) key =
        times_of tb key @ (if key \<in> set keys \<and> map_of (at_keys tb) key \<noteq> None then [now] else []))"
  using assms
proof (induction now keys tb rule: attempts_push.induct)
  case (2 now key keys tb)
  show ?case
  proof (cases "map_of (at_keys tb) key")
    case None
    with 2 show ?thesis by (auto simp: times_of_def)
  next
    case (Some ts)
    let ?tb = "tb\<lparr>at_keys := AList.update key (ts @ [now]) (at_keys tb)\<rparr>"
    have ok: "table_ok ?tb" using 2(2) Some by (simp add: table_ok_def length_update)
    have old: "times_of tb key = ts" using Some by (simp add: times_of_def)
    have "table_ok (attempts_push now keys ?tb) \<and>
      (\<forall>key'. (map_of (at_keys (attempts_push now keys ?tb)) key' = None) = (map_of (at_keys ?tb) key' = None) \<and>
        times_of (attempts_push now keys ?tb) key' =
          times_of ?tb key' @ (if key' \<in> set keys \<and> map_of (at_keys ?tb) key' \<noteq> None then [now] else []))"
      using 2(1) Some ok 2(3) by simp
    then show ?thesis using Some old 2(3) by (auto simp: times_of_update lookup_update)
  qed
qed simp

lemma length_put: "length (AList.update k v t) = (if map_of t k = None then Suc (length t) else length t)"
  by (induction t) auto

lemma push_length: "length (at_keys (attempts_push now keys tb)) = length (at_keys tb)"
  by (induction now keys tb rule: attempts_push.induct) (auto simp: length_put split: option.splits)

text \<open>After the check of an attempt it may make, a client's key is in the table, unless the client is known and the table is full.\<close>

definition table_grows :: "attempts \<Rightarrow> attempts \<Rightarrow> bool" where
  "table_grows tb tb' \<longleftrightarrow> length (at_keys tb) \<le> length (at_keys tb') \<and> (\<forall>key. map_of (at_keys tb) key \<noteq> None \<longrightarrow> map_of (at_keys tb') key \<noteq> None)"

lemma grows_put: "table_grows tb (tb\<lparr>at_keys := AList.update k v (at_keys tb)\<rparr>)"
  by (simp add: table_grows_def length_put lookup_update)

lemma grows_trans: "table_grows a b \<Longrightarrow> table_grows b c \<Longrightarrow> table_grows a c"
  by (auto simp: table_grows_def)

lemma check_grows: "attempts_check known now keys tb = (ok, tb') \<Longrightarrow> table_grows tb tb'"
proof (induction keys arbitrary: tb)
  case (Cons e keys)
  obtain k share where e: "e = (k, share)" by fastforce
  have engaged: "table_grows tb (tb\<lparr>at_logged := l\<rparr>)" for l by (simp add: table_grows_def)
  consider "tb' = tb\<lparr>at_logged := engage (at_logged tb) now\<rparr>" | "attempts_check known now keys tb = (ok, tb')"
    | v where "tb' = tb\<lparr>at_keys := AList.update k v (at_keys tb)\<rparr>"
    | v where "attempts_check known now keys (tb\<lparr>at_keys := AList.update k v (at_keys tb)\<rparr>) = (ok, tb')"
    using Cons.prems unfolding e attempts_check.simps Let_def by (auto split: option.split_asm if_split_asm)
  then show ?case
  proof cases
    case 4
    from grows_trans [OF grows_put Cons.IH [OF 4]] show ?thesis .
  qed (use engaged grows_put Cons.IH in simp_all)
qed (simp add: table_grows_def)

lemma check_counts:
  assumes "attempts_check known now keys tb = (True, tb')" and "key \<in> fst ` set keys"
  shows "map_of (at_keys tb') key \<noteq> None \<or> known \<and> MAX_KEYS \<le> length (at_keys tb')"
  using assms
proof (induction known now keys tb rule: attempts_check.induct)
  case (2 known now k share keys tb)
  show ?case
  proof (cases "key \<in> fst ` set keys")
    case True
    then show ?thesis using 2 by (auto simp: Let_def split: option.splits if_splits)
  next
    case False
    then have k: "key = k" using 2(5) by auto
    obtain tb0 where tb0: "attempts_check known now keys tb0 = (True, tb')" "map_of (at_keys tb0) k \<noteq> None \<or> known \<and> MAX_KEYS \<le> length (at_keys tb0)"
    proof (cases "map_of (at_keys tb) k")
      case None
      then show thesis using that [of tb] that [of "tb\<lparr>at_keys := AList.update k [] (at_keys tb)\<rparr>"] 2(4)
        by (auto simp: Let_def lookup_update split: if_splits)
    next
      case (Some ts)
      then show thesis using that [of "tb\<lparr>at_keys := AList.update k (rate_expire now ts) (at_keys tb)\<rparr>"] 2(4)
        by (auto simp: Let_def lookup_update split: if_splits)
    qed
    from check_grows [OF tb0(1)] tb0(2) show ?thesis unfolding k table_grows_def by (meson le_trans)
  qed
qed simp

subsection \<open>Attempts over time\<close>

text \<open>
  Calls of \<open>allow\<close> at instants that do not go back, with the log of the attempts allowed, for each key of the client. An
  attempt is marked when the client is known and the table is full, without that key.
\<close>

type_synonym rate_world = "attempts \<times> (client_key \<times> nat \<times> bool) list \<times> nat"

inductive attempts_step :: "(ipv6 \<Rightarrow> nat \<Rightarrow> ipv6) \<Rightarrow> nat \<Rightarrow> rate_world \<Rightarrow> rate_world \<Rightarrow> bool" for trunc limit where
  allow: "t \<le> now \<Longrightarrow> attempts_allow trunc limit tb ks known ceil now now' = (ok, tb', ceil') \<Longrightarrow>
    attempts_step trunc limit (tb, log, t)
      (tb', log @ (if ok then map (\<lambda>key. (key, now, known \<and> MAX_KEYS \<le> length (at_keys tb') \<and> map_of (at_keys tb') key = None)) (keys_iter trunc ks) else []), now)"

definition logged :: "client_key \<Rightarrow> (client_key \<times> nat \<times> bool) list \<Rightarrow> nat list" where
  "logged key log = map (fst \<circ> snd) (filter (\<lambda>(k, _, free). k = key \<and> \<not> free) log)"

lemma logged_append: "logged key (log @ log') = logged key log @ logged key log'"
  by (simp add: logged_def)

lemma logged_new: "distinct keys \<Longrightarrow> logged key (map (\<lambda>key. (key, now, free key)) keys) = (if key \<in> set keys \<and> \<not> free key then [now] else [])"
  by (induction keys) (auto simp: logged_def)

definition rate_inv :: "nat \<Rightarrow> rate_world \<Rightarrow> bool" where
  "rate_inv limit w = (case w of (tb, log, t) \<Rightarrow> table_ok tb \<and>
     (\<forall>key. length (times_of tb key) \<le> key_share limit key \<and>
       (\<exists>old. logged key log = old @ times_of tb key \<and> (\<forall>time \<in> set old. t - time \<ge> WINDOW))))"

lemma rate_inv_forgets:
  assumes "rate_inv limit (tb, log, t)" and "forgets now tb tb'" and "table_ok tb'" and "t \<le> now"
  shows "rate_inv limit (tb', log, now)"
proof -
  have "length (times_of tb' key) \<le> key_share limit key \<and>
       (\<exists>old. logged key log = old @ times_of tb' key \<and> (\<forall>time \<in> set old. now - time \<ge> WINDOW))" for key
  proof -
    obtain old where old: "logged key log = old @ times_of tb key" "\<forall>time \<in> set old. t - time \<ge> WINDOW"
      and len: "length (times_of tb key) \<le> key_share limit key" using assms(1) by (auto simp: rate_inv_def)
    obtain gone where gone: "times_of tb key = gone @ rate_expire now (times_of tb key)" "\<forall>time \<in> set gone. now - time \<ge> WINDOW"
      using rate_expire_split by blast
    have o: "\<forall>time \<in> set old. now - time \<ge> WINDOW" using old(2) assms(4) by (meson diff_le_mono le_trans)
    from assms(2) consider "times_of tb' key = times_of tb key" | "times_of tb' key = rate_expire now (times_of tb key)"
      by (auto simp: forgets_def)
    then show ?thesis
    proof cases
      case 1
      then show ?thesis using old(1) o len by auto
    next
      case 2
      have "logged key log = (old @ gone) @ times_of tb' key" using old(1) gone(1) 2 by (metis append.assoc)
      moreover have "length (times_of tb' key) \<le> key_share limit key"
        using len gone(1) 2 by (metis le_trans length_append le_add2)
      ultimately show ?thesis using o gone(2) by (metis Un_iff set_append)
    qed
  qed
  then show ?thesis using assms(3) by (simp add: rate_inv_def)
qed

lemma distinct_iter: "distinct (keys_iter trunc ks)"
  by (cases ks) (simp_all add: keys_iter_def)

lemma key_share_pos: "0 < limit \<Longrightarrow> 0 < key_share limit key"
  by (cases key) (auto simp: key_share_def saturating_mul_def usize_max_def)

lemma attempts_step_inv:
  assumes "attempts_step trunc limit w w'" and "rate_inv limit w" and "0 < limit"
  shows "rate_inv limit w'"
  using assms(1)
proof cases
  case (allow t now tb ks known ceil now' ok tb' ceil' log)
  let ?keys = "keys_shares trunc ks limit"
  let ?tb0 = "if length (at_keys tb) + length ?keys > MAX_KEYS then attempts_retain now tb else tb"
  have inv: "rate_inv limit (tb, log, t)" using assms(2) allow(1) by simp
  have tok: "table_ok tb" using inv by (simp add: rate_inv_def)
  have keys: "?keys = map (\<lambda>k. (k, key_share limit k)) (keys_iter trunc ks)" by (rule keys_shares_eq)
  have fst: "map fst ?keys = keys_iter trunc ks" by (simp add: keys o_def)
  have f0: "table_ok ?tb0" "forgets now tb ?tb0" using retain_forgets [OF tok, of now] tok by (auto simp: forgets_def)
  obtain ok1 tb1 where c: "attempts_check known now ?keys ?tb0 = (ok1, tb1)" by (metis prod.exhaust)
  have check: "table_ok tb1" "forgets now ?tb0 tb1" "ok1 \<Longrightarrow> \<forall>(key, share) \<in> set ?keys. length (times_of tb1 key) < share"
    using check_forgets [OF c f0(1)] distinct_iter [of trunc ks] fst key_share_pos [OF assms(3)] by (auto simp: keys)
  have inv1: "rate_inv limit (tb1, log, now)"
    by (rule rate_inv_forgets [OF inv forgets_trans [OF f0(2) check(2)] check(1) allow(3)])
  show ?thesis
  proof (cases ok)
    case False
    then have "tb' = tb1" using allow(4) c by (auto simp: attempts_allow_def Let_def split: bool.splits option.splits prod.splits)
    then show ?thesis using inv1 False allow(2) by simp
  next
    case True
    then have tb': "tb' = attempts_push now (keys_iter trunc ks) tb1" and "ok1"
      using allow(4) c fst by (auto simp: attempts_allow_def Let_def split: bool.splits option.splits prod.splits)
    note push = push_times [OF check(1) distinct_iter, of now trunc ks]
    let ?free = "\<lambda>key. known \<and> MAX_KEYS \<le> length (at_keys tb') \<and> map_of (at_keys tb') key = None"
    let ?new = "map (\<lambda>key. (key, now, ?free key)) (keys_iter trunc ks)"
    have counted: "\<not> ?free key \<longleftrightarrow> map_of (at_keys tb') key \<noteq> None" if "key \<in> set (keys_iter trunc ks)" for key
      using check_counts [of known now ?keys ?tb0 tb1 key] c \<open>ok1\<close> that push push_length [of now "keys_iter trunc ks" tb1]
      by (auto simp: tb' fst [symmetric])
    have "length (times_of tb' key) \<le> key_share limit key \<and>
        (\<exists>old. logged key (log @ ?new) = old @ times_of tb' key \<and> (\<forall>time \<in> set old. now - time \<ge> WINDOW))" for key
    proof -
      have new: "logged key ?new = (if key \<in> set (keys_iter trunc ks) \<and> \<not> ?free key then [now] else [])"
        using distinct_iter by (rule logged_new)
      have now': "times_of tb' key = times_of tb1 key @ (if key \<in> set (keys_iter trunc ks) \<and> \<not> ?free key then [now] else [])"
        using push counted [of key] by (auto simp: tb')
      have "length (times_of tb1 key) < key_share limit key" if "key \<in> set (keys_iter trunc ks)"
        using check(3) [OF \<open>ok1\<close>] that by (auto simp: keys)
      then have "length (times_of tb' key) \<le> key_share limit key"
        using now' inv1 by (auto simp: rate_inv_def)
      moreover obtain old where "logged key log = old @ times_of tb1 key" "\<forall>time \<in> set old. now - time \<ge> WINDOW"
        using inv1 by (auto simp: rate_inv_def)
      then have "\<exists>old. logged key (log @ ?new) = old @ times_of tb' key \<and> (\<forall>time \<in> set old. now - time \<ge> WINDOW)"
        unfolding logged_append new now' by (intro exI [of _ old]) simp
      ultimately show ?thesis by blast
    qed
    then show ?thesis using allow(2) True push tb' by (simp add: rate_inv_def)
  qed
qed

lemma rate_inv_reachable:
  assumes "(attempts_step trunc limit)\<^sup>*\<^sup>* (attempts_new, [], 0) w" and "0 < limit"
  shows "rate_inv limit w"
  using assms
proof (induction rule: rtranclp_induct)
  case base
  then show ?case by (simp add: rate_inv_def attempts_new_def table_ok_def times_of_def logged_def)
next
  case (step w w')
  then show ?case by (auto intro: attempts_step_inv)
qed

text \<open>
  C13. Within a minute no client key is allowed more attempts than its share, at any time and whatever other clients do, save the
  attempts of a known client made while the table is full and does not hold that key, which are not counted; and the table of
  keys stays within its bound.
\<close>

theorem attempts_limited:
  assumes "(attempts_step trunc limit)\<^sup>*\<^sup>* (attempts_new, [], 0) (tb, log, now)" and "0 < limit"
  shows "length (at_keys tb) \<le> MAX_KEYS \<and>
    length (filter (\<lambda>(k, time, free). k = key \<and> \<not> free \<and> now - time < WINDOW) log) \<le> key_share limit key"
proof -
  have inv: "rate_inv limit (tb, log, now)" by (rule rate_inv_reachable [OF assms])
  then obtain old where old: "logged key log = old @ times_of tb key" "\<forall>time \<in> set old. now - time \<ge> WINDOW"
    and len: "length (times_of tb key) \<le> key_share limit key" and ok: "table_ok tb" by (auto simp: rate_inv_def)
  have "length (filter (\<lambda>(k, time, free). k = key \<and> \<not> free \<and> now - time < WINDOW) log) = length (filter (\<lambda>time. now - time < WINDOW) (logged key log))"
    by (induction log) (auto simp: logged_def)
  also have "\<dots> = length (filter (\<lambda>time. now - time < WINDOW) (times_of tb key))"
    using old by (simp add: filter_empty_conv not_less)
  also have "\<dots> \<le> key_share limit key" using len by (rule order_trans [OF length_filter_le])
  finally show ?thesis using ok by (simp add: table_ok_def)
qed

theorem attempts_limited_witness:
  "\<exists>tb log. (attempts_step (\<lambda>ip _. ip) 1)\<^sup>*\<^sup>* (attempts_new, [], 0) (tb, log, 20) \<and> log = [(KeyV4 7, 9, False)] \<and>
     fst (attempts_allow (\<lambda>ip _. ip) 1 tb (KeysV4 7) False None 20 20) = False \<and>
     length (filter (\<lambda>(k, time, free). k = KeyV4 7 \<and> \<not> free \<and> 20 - time < WINDOW) log) \<le> key_share 1 (KeyV4 7)"
proof -
  let ?tb = "\<lparr>at_keys = [(KeyV4 7, [9])], at_logged = None\<rparr>" and ?step = "attempts_step (\<lambda>ip _. ip) 1"
  have 1: "attempts_allow (\<lambda>ip _. ip) 1 attempts_new (KeysV4 7) False None 9 9 = (True, ?tb, None)"
    by (simp add: attempts_allow_def keys_shares_def keys_iter_def attempts_new_def MAX_KEYS_def Let_def)
  have 2: "attempts_allow (\<lambda>ip _. ip) 1 ?tb (KeysV4 7) False None 20 20 = (False, ?tb, None)"
    by (simp add: attempts_allow_def keys_shares_def keys_iter_def rate_expire_def WINDOW_def MAX_KEYS_def Let_def)
  have "?step (attempts_new, [], 0) (?tb, [(KeyV4 7, 9, False)], 9)" using attempts_step.allow [OF _ 1, of 0 "[]"] by (simp add: keys_iter_def)
  moreover have "?step (?tb, [(KeyV4 7, 9, False)], 9) (?tb, [(KeyV4 7, 9, False)], 20)" using attempts_step.allow [OF _ 2, of 9 "[(KeyV4 7, 9, False)]"] by simp
  ultimately have r: "?step\<^sup>*\<^sup>* (attempts_new, [], 0) (?tb, [(KeyV4 7, 9, False)], 20)"
    by (meson converse_rtranclp_into_rtranclp rtranclp.rtrancl_refl)
  from attempts_limited [OF r, of "KeyV4 7"] r 2 show ?thesis by (intro exI [of _ ?tb] exI [of _ "[(KeyV4 7, 9, False)]"]) auto
qed

end
