(* ===== verification/Auth_Store.thy ===== *)
theory Auth_Store
  imports Rate "HOL-Library.Product_Lexorder" "HOL-Library.List_Lexorder"
begin

text \<open>
  The store of logins and grants, \<^verbatim>\<open>rust/server/src/auth/store.rs\<close>, with the approvals of \<^verbatim>\<open>auth/approval.rs\<close> it keeps.
  An operation takes the store's lock and maps the state to the new one. The instants an operation reads and the random
  texts it draws are arguments. SHA-256, base64 and the answer of a cancellation token are parameters; a token is
  named by the order of its creation, and the calls of \<open>cancel\<close> are recorded.
\<close>

subsection \<open>The model\<close>

record auth_lib =
  sha256 :: "bytes \<Rightarrow> bytes"
  b64_encode :: "bytes \<Rightarrow> bytes"
  b64_decode :: "nat \<Rightarrow> bytes \<Rightarrow> bytes option"

definition LOGIN_LIFETIME :: nat where "LOGIN_LIFETIME = 8 * 3600 * 1000"
definition MAX_LOGINS :: nat where "MAX_LOGINS = 1024"
definition MAX_PRINCIPAL_LOGINS :: nat where "MAX_PRINCIPAL_LOGINS = 8"
definition MAX_LOGIN_GRANTS :: nat where "MAX_LOGIN_GRANTS = 8"

type_synonym digest = bytes

datatype cancel_token = Root nat | Child cancel_token nat

record login =
  lo_id :: bytes
  lo_principal :: string
  lo_name :: bytes
  lo_provider :: bytes
  lo_csrf :: bytes
  lo_sequence :: nat
  lo_deadline :: nat
  lo_expires :: nat
  lo_revoked :: cancel_token

record auth_grant =
  gr_login :: digest
  gr_id :: bytes
  gr_browser :: "bytes option"
  gr_sequence :: nat
  gr_revoked :: cancel_token

datatype holder = HolderLogin bytes | HolderGrant bytes

datatype via = Cookie | Bearer "bytes option"

record auth_lease =
  ll_holder :: holder
  ll_principal :: string
  ll_login :: digest
  ll_via :: via
  ll_revoked :: cancel_token
  ll_expires :: nat

datatype grant_refusal = NoLogin | GrantsFull

record issued =
  is_login :: digest
  is_grant :: digest
  is_token :: "bytes option"
  is_replay_until :: nat

datatype stage = StageOpen | StageClaimed digest | StageApproved digest | StageIssued issued

record approval =
  ap_browser :: "bytes option"
  ap_clients :: "client_key list"
  ap_stage :: stage
  ap_deadline :: nat

record challenge =
  ch_text :: bytes
  ch_code :: bytes

record auth_state =
  st_logins :: "(digest \<times> login) list"
  st_grants :: "(digest \<times> auth_grant) list"
  st_approvals :: "(challenge \<times> approval) list"
  st_sequence :: nat
  st_tokens :: nat
  st_cancelled :: "cancel_token list"

definition auth_state_default :: auth_state where
  "auth_state_default = \<lparr>st_logins = [], st_grants = [], st_approvals = [], st_sequence = 0, st_tokens = 0, st_cancelled = []\<rparr>"

definition approval_login :: "approval \<Rightarrow> digest option" where
  "approval_login a = (case ap_stage a of
       StageOpen \<Rightarrow> None
     | StageClaimed login \<Rightarrow> Some login
     | StageApproved login \<Rightarrow> Some login
     | StageIssued i \<Rightarrow> Some (is_login i))"

definition approval_issued :: "approval \<Rightarrow> bool" where
  "approval_issued a \<longleftrightarrow> (case ap_stage a of StageIssued _ \<Rightarrow> True | _ \<Rightarrow> False)"

definition approval_became :: "digest \<Rightarrow> approval \<Rightarrow> bool" where
  "approval_became grant a \<longleftrightarrow> (case ap_stage a of StageIssued i \<Rightarrow> is_grant i = grant | _ \<Rightarrow> False)"

definition forget_token :: "nat \<Rightarrow> approval \<Rightarrow> approval" where
  "forget_token now a = (case ap_stage a of
       StageIssued i \<Rightarrow> if now \<ge> is_replay_until i then a\<lparr>ap_stage := StageIssued (i\<lparr>is_token := None\<rparr>)\<rparr> else a
     | _ \<Rightarrow> a)"

definition state_login :: "auth_state \<Rightarrow> digest \<Rightarrow> nat \<Rightarrow> login option" where
  "state_login s key now = (case map_of (st_logins s) key of
       None \<Rightarrow> None
     | Some login \<Rightarrow> if now < lo_deadline login then Some login else None)"

definition state_held :: "auth_state \<Rightarrow> string \<Rightarrow> digest list" where
  "state_held s who = map snd (sort (map (\<lambda>(key, login). (lo_sequence login, key))
     (filter (\<lambda>(_, login). lo_principal login = who) (st_logins s))))"

definition state_end :: "auth_state \<Rightarrow> digest \<Rightarrow> auth_state" where
  "state_end s key = s\<lparr>
     st_logins := AList.delete key (st_logins s),
     st_cancelled := (case map_of (st_logins s) key of None \<Rightarrow> st_cancelled s | Some login \<Rightarrow> lo_revoked login # st_cancelled s),
     st_grants := filter (\<lambda>(_, grant). gr_login grant \<noteq> key) (st_grants s),
     st_approvals := filter (\<lambda>(_, a). case approval_login a of None \<Rightarrow> True | Some login \<Rightarrow> login \<noteq> key) (st_approvals s)\<rparr>"

definition state_sweep :: "auth_state \<Rightarrow> nat \<Rightarrow> auth_state" where
  "state_sweep s now =
     (let expired = map fst (filter (\<lambda>(_, login). now \<ge> lo_deadline login) (st_logins s));
          s = foldl state_end s expired
      in s\<lparr>st_approvals := filter (\<lambda>(_, a). now < ap_deadline a) (map (\<lambda>(c, a). (c, forget_token now a)) (st_approvals s))\<rparr>)"

definition grants_of :: "auth_state \<Rightarrow> digest \<Rightarrow> nat" where
  "grants_of s login = length (filter (\<lambda>grant. gr_login grant = login) (map snd (st_grants s)))"

record identity =
  id_principal :: string
  id_name :: bytes
  id_provider :: bytes

record new_login =
  nl_key :: digest
  nl_token :: bytes
  nl_csrf :: bytes
  nl_expires :: nat

definition store_sign_in ::
    "auth_lib \<Rightarrow> auth_state \<Rightarrow> identity \<Rightarrow> bytes \<Rightarrow> bytes \<Rightarrow> bytes \<Rightarrow> nat \<Rightarrow> nat \<Rightarrow> new_login option \<times> auth_state" where
  "store_sign_in lib s who token csrf ident now wall =
     (let key = sha256 lib token;
          s = state_sweep s now;
          held = state_held s (id_principal who);
          s = (if length held \<ge> MAX_PRINCIPAL_LOGINS then state_end s (held ! 0) else s)
      in if length (st_logins s) \<ge> MAX_LOGINS then (None, s)
         else let expires = wall + LOGIN_LIFETIME;
                  login = \<lparr>lo_id = ident, lo_principal = id_principal who, lo_name = id_name who, lo_provider = id_provider who,
                    lo_csrf = csrf, lo_sequence = st_sequence s + 1, lo_deadline = now + LOGIN_LIFETIME, lo_expires = expires,
                    lo_revoked = Root (st_tokens s)\<rparr>
              in (Some \<lparr>nl_key = key, nl_token = token, nl_csrf = csrf, nl_expires = expires\<rparr>,
                  s\<lparr>st_sequence := st_sequence s + 1, st_tokens := st_tokens s + 1, st_logins := AList.update key login (st_logins s)\<rparr>))"

definition store_sign_out :: "auth_state \<Rightarrow> digest \<Rightarrow> bool \<Rightarrow> nat \<Rightarrow> bool \<times> auth_state" where
  "store_sign_out s key every now = (case state_login s key now of
       None \<Rightarrow> (False, s)
     | Some login \<Rightarrow> (True, foldl state_end s (if every then state_held s (lo_principal login) else [key])))"

definition login_lease :: "login \<Rightarrow> digest \<Rightarrow> holder \<Rightarrow> via \<Rightarrow> cancel_token \<Rightarrow> auth_lease" where
  "login_lease login key holder via revoked = \<lparr>ll_holder = holder, ll_principal = lo_principal login, ll_login = key,
     ll_via = via, ll_revoked = revoked, ll_expires = lo_deadline login\<rparr>"

definition store_cookie :: "auth_lib \<Rightarrow> auth_state \<Rightarrow> bytes \<Rightarrow> nat \<Rightarrow> auth_lease option \<times> auth_state" where
  "store_cookie lib s token now =
     (let key = sha256 lib token
      in case map_of (st_logins s) key of
          Some login \<Rightarrow>
            if now < lo_deadline login then (Some (login_lease login key (HolderLogin (lo_id login)) Cookie (lo_revoked login)), s)
            else (None, state_end s key)
        | None \<Rightarrow> (None, s))"

definition store_bearer ::
    "auth_lib \<Rightarrow> (cancel_token list \<Rightarrow> cancel_token \<Rightarrow> bool) \<Rightarrow> auth_state \<Rightarrow> bytes \<Rightarrow> nat \<Rightarrow> auth_lease option" where
  "store_bearer lib is_cancelled s token now =
     (if length token \<noteq> 43 then None
      else case b64_decode lib 32 token of
          None \<Rightarrow> None
        | Some raw \<Rightarrow>
            if length raw \<noteq> 32 then None
            else case map_of (st_grants s) (sha256 lib token) of
                None \<Rightarrow> None
              | Some grant \<Rightarrow>
                  if is_cancelled (st_cancelled s) (gr_revoked grant) then None
                  else case state_login s (gr_login grant) now of
                      None \<Rightarrow> None
                    | Some login \<Rightarrow>
                        Some (login_lease login (gr_login grant) (HolderGrant (gr_id grant)) (Bearer (gr_browser grant)) (gr_revoked grant)))"

text \<open>\<open>State::grant\<close>: the token and its identifier were drawn before.\<close>

definition state_grant ::
    "auth_lib \<Rightarrow> auth_state \<Rightarrow> digest \<Rightarrow> bytes option \<Rightarrow> bytes \<Rightarrow> bytes \<Rightarrow> nat \<Rightarrow> (grant_refusal + bytes) \<times> auth_state" where
  "state_grant lib s login browser token ident now = (case state_login s login now of
       None \<Rightarrow> (Inl NoLogin, s)
     | Some l \<Rightarrow>
         let revoked = Child (lo_revoked l) (st_tokens s); s = s\<lparr>st_tokens := st_tokens s + 1\<rparr>;
             held = filter (\<lambda>(_, grant). gr_login grant = login) (st_grants s);
             native = filter (\<lambda>(_, grant). gr_browser grant = None) held;
             oldest = map_option fst (min_by_key (\<lambda>(_, grant). gr_sequence grant) native);
             insert = (\<lambda>s. (Inr token, s\<lparr>st_sequence := st_sequence s + 1,
               st_grants := AList.update (sha256 lib token)
                 \<lparr>gr_login = login, gr_id = ident, gr_browser = browser, gr_sequence = st_sequence s + 1, gr_revoked = revoked\<rparr> (st_grants s)\<rparr>))
         in if length held \<ge> MAX_LOGIN_GRANTS
            then (case (if browser = None then oldest else None) of
                    None \<Rightarrow> (Inl GrantsFull, s)
                  | Some key \<Rightarrow> insert (s\<lparr>
                      st_grants := AList.delete key (st_grants s),
                      st_cancelled := (case map_of (st_grants s) key of None \<Rightarrow> st_cancelled s | Some g \<Rightarrow> gr_revoked g # st_cancelled s),
                      st_approvals := filter (\<lambda>(_, a). \<not> approval_became key a) (st_approvals s)\<rparr>))
            else insert s)"

definition store_csrf :: "auth_state \<Rightarrow> digest \<Rightarrow> bytes \<Rightarrow> nat \<Rightarrow> bool" where
  "store_csrf s key proof now = (case state_login s key now of None \<Rightarrow> False | Some login \<Rightarrow> lo_csrf login = proof)"

record login_view =
  lv_name :: bytes
  lv_provider :: bytes
  lv_expires :: nat
  lv_csrf :: bytes

definition store_view :: "auth_state \<Rightarrow> digest \<Rightarrow> nat \<Rightarrow> login_view option" where
  "store_view s key now = map_option (\<lambda>login. \<lparr>lv_name = lo_name login, lv_provider = lo_provider login,
     lv_expires = lo_expires login, lv_csrf = lo_csrf login\<rparr>) (state_login s key now)"

subsection \<open>The invariant of the store\<close>

definition MAX_APPROVALS :: nat where "MAX_APPROVALS = 256"
definition MAX_LOGIN_APPROVALS :: nat where "MAX_LOGIN_APPROVALS = 8"

definition pending_count :: "(approval \<Rightarrow> bool) \<Rightarrow> (challenge \<times> approval) list \<Rightarrow> nat" where
  "pending_count held t = count_where (\<lambda>_ a. \<not> approval_issued a \<and> held a) t"

definition logins_ok :: "(digest \<times> login) list \<Rightarrow> bool" where
  "logins_ok ls \<longleftrightarrow> table_wf ls \<and> length ls \<le> MAX_LOGINS \<and>
     (\<forall>who. count_where (\<lambda>_ l. lo_principal l = who) ls \<le> MAX_PRINCIPAL_LOGINS)"

definition grants_ok :: "(digest \<times> login) list \<Rightarrow> (digest \<times> auth_grant) list \<Rightarrow> bool" where
  "grants_ok ls gs \<longleftrightarrow> table_wf gs \<and> (\<forall>key. count_where (\<lambda>_ g. gr_login g = key) gs \<le> MAX_LOGIN_GRANTS) \<and>
     (\<forall>key g. map_of gs key = Some g \<longrightarrow> map_of ls (gr_login g) \<noteq> None)"

text \<open>An issued approval belongs to a grant of its login for the same browser.\<close>

definition approval_ok :: "auth_lib \<Rightarrow> (digest \<times> auth_grant) list \<Rightarrow> approval \<Rightarrow> bool" where
  "approval_ok lib gs a \<longleftrightarrow>
     (\<forall>i. ap_stage a = StageIssued i \<longrightarrow>
        (\<exists>g. map_of gs (is_grant i) = Some g \<and> gr_login g = is_login i \<and> gr_browser g = ap_browser a) \<and>
        (\<forall>token. is_token i = Some token \<longrightarrow> is_grant i = sha256 lib token))"

definition approvals_ok ::
    "auth_lib \<Rightarrow> (digest \<times> auth_grant) list \<Rightarrow> (challenge \<times> approval) list \<Rightarrow> bool" where
  "approvals_ok lib gs as \<longleftrightarrow> table_wf as \<and> (\<forall>c a. map_of as c = Some a \<longrightarrow> approval_ok lib gs a) \<and>
     pending_count (\<lambda>_. True) as \<le> MAX_APPROVALS \<and>
     (\<forall>key. pending_count (\<lambda>a. approval_login a = Some key) as \<le> MAX_LOGIN_APPROVALS)"

definition store_inv :: "auth_lib \<Rightarrow> auth_state \<Rightarrow> bool" where
  "store_inv lib s \<longleftrightarrow> logins_ok (st_logins s) \<and> grants_ok (st_logins s) (st_grants s) \<and>
     approvals_ok lib (st_grants s) (st_approvals s)"

lemma store_inv_default: "store_inv lib auth_state_default"
  by (simp add: store_inv_def auth_state_default_def logins_ok_def grants_ok_def approvals_ok_def pending_count_def)

lemma pending_filter: "pending_count held (filter P t) \<le> pending_count held t"
  by (simp add: pending_count_def count_filter_le)

lemma approvals_ok_filter:
  assumes "approvals_ok lib gs as" and "\<And>c a. map_of as c = Some a \<Longrightarrow> P (c, a) \<Longrightarrow> approval_ok lib gs a \<Longrightarrow> approval_ok lib gs' a"
  shows "approvals_ok lib gs' (filter P as)"
proof -
  have wf: "table_wf as" using assms(1) by (simp add: approvals_ok_def)
  have "approval_ok lib gs' a" if "map_of (filter P as) c = Some a" for c a
    using that assms by (auto simp: lookup_filter [OF wf] approvals_ok_def split: option.splits if_splits)
  then show ?thesis
    using assms(1) by (auto simp: approvals_ok_def intro: le_trans [OF pending_filter])
qed

lemma grants_ok_filter:
  assumes "grants_ok ls gs" and "\<And>key g. map_of gs key = Some g \<Longrightarrow> P (key, g) \<Longrightarrow> map_of ls (gr_login g) \<noteq> None \<Longrightarrow> map_of ls' (gr_login g) \<noteq> None"
  shows "grants_ok ls' (filter P gs)"
proof -
  have wf: "table_wf gs" using assms(1) by (simp add: grants_ok_def)
  have "map_of ls' (gr_login g) \<noteq> None" if "map_of (filter P gs) key = Some g" for key g
    using that assms by (auto simp: lookup_filter [OF wf] grants_ok_def split: option.splits if_splits)
  then show ?thesis
    using assms(1) by (auto simp: grants_ok_def intro: le_trans [OF count_filter_le])
qed

lemma state_end_inv: "store_inv lib s \<Longrightarrow> store_inv lib (state_end s key)"
proof -
  assume inv: "store_inv lib s"
  let ?ls = "AList.delete key (st_logins s)" and ?gs = "filter (\<lambda>(_, grant). gr_login grant \<noteq> key) (st_grants s)"
  have lok: "logins_ok (st_logins s)" and gok: "grants_ok (st_logins s) (st_grants s)"
    and aok: "approvals_ok lib (st_grants s) (st_approvals s)" using inv by (simp_all add: store_inv_def)
  have wf: "table_wf (st_logins s)" "table_wf (st_grants s)" using lok gok by (simp_all add: logins_ok_def grants_ok_def)
  have less: "count_where P ?ls \<le> count_where P (st_logins s)" for P
    using count_delete [OF wf(1), of P key] by linarith
  have "logins_ok ?ls"
    using lok wf length_delete_le [of key "st_logins s"] by (auto simp: logins_ok_def intro: le_trans [OF less])
  moreover have "grants_ok ?ls ?gs"
    using gok by (rule grants_ok_filter) (simp add: lookup_delete)
  moreover have "approvals_ok lib ?gs (filter (\<lambda>(_, a). case approval_login a of None \<Rightarrow> True | Some login \<Rightarrow> login \<noteq> key) (st_approvals s))"
    using aok
  proof (rule approvals_ok_filter)
    fix c a
    assume keep: "case (c, a) of (_, a) \<Rightarrow> case approval_login a of None \<Rightarrow> True | Some login \<Rightarrow> login \<noteq> key"
      and ok: "approval_ok lib (st_grants s) a"
    have "(\<exists>g. map_of ?gs (is_grant i) = Some g \<and> gr_login g = is_login i \<and> gr_browser g = ap_browser a) \<and>
        (\<forall>token. is_token i = Some token \<longrightarrow> is_grant i = sha256 lib token)" if i: "ap_stage a = StageIssued i" for i
    proof -
      have "is_login i \<noteq> key" using keep i by (simp add: approval_login_def)
      then show ?thesis using ok i by (auto simp: approval_ok_def lookup_filter [OF wf(2)])
    qed
    then show "approval_ok lib ?gs a" by (simp add: approval_ok_def)
  qed
  ultimately show ?thesis by (simp add: store_inv_def state_end_def)
qed

lemma foldl_end_inv: "store_inv lib s \<Longrightarrow> store_inv lib (foldl state_end s keys)"
  by (induction keys arbitrary: s) (simp_all add: state_end_inv)

lemma forget_token_simps [simp]:
  "approval_login (forget_token now a) = approval_login a" "approval_issued (forget_token now a) = approval_issued a"
  "ap_browser (forget_token now a) = ap_browser a" "ap_deadline (forget_token now a) = ap_deadline a"
  "ap_clients (forget_token now a) = ap_clients a"
  by (auto simp: forget_token_def approval_login_def approval_issued_def split: stage.split)

lemma forget_token_ok: "approval_ok lib gs a \<Longrightarrow> approval_ok lib gs (forget_token now a)"
  by (auto simp: approval_ok_def forget_token_def approval_login_def split: stage.splits if_splits)

lemma state_sweep_inv: "store_inv lib s \<Longrightarrow> store_inv lib (state_sweep s now)"
proof -
  assume "store_inv lib s"
  let ?s = "foldl state_end s (map fst (filter (\<lambda>(_, login). now \<ge> lo_deadline login) (st_logins s)))"
  let ?as = "map (\<lambda>(c, a). (c, forget_token now a)) (st_approvals ?s)"
  have inv: "store_inv lib ?s" using \<open>store_inv lib s\<close> by (rule foldl_end_inv)
  then have "approvals_ok lib (st_grants ?s) ?as"
    by (auto simp: store_inv_def approvals_ok_def lookup_map forget_token_ok pending_count_def count_map)
  then have "approvals_ok lib (st_grants ?s) (filter (\<lambda>(_, a). now < ap_deadline a) ?as)"
    by (rule approvals_ok_filter)
  then show ?thesis using inv by (simp add: store_inv_def state_sweep_def Let_def)
qed

lemma state_sweep_logins:
  assumes "table_wf (st_logins s)"
  shows "map_of (st_logins (state_sweep s now)) key = state_login s key now"
proof -
  have "map_of (st_logins (foldl state_end s keys)) key = (if key \<in> set keys then None else map_of (st_logins s) key)" for keys
    by (induction keys arbitrary: s) (simp_all add: state_end_def lookup_delete)
  moreover have "key \<in> set (map fst (filter (\<lambda>(_, login). now \<ge> lo_deadline login) (st_logins s))) \<longleftrightarrow>
      (\<exists>l. map_of (st_logins s) key = Some l \<and> now \<ge> lo_deadline l)"
    using in_table [OF assms, of key] by force
  ultimately show ?thesis by (auto simp: state_sweep_def Let_def state_login_def split: option.splits)
qed

lemma length_held: "length (state_held s who) = count_where (\<lambda>_ l. lo_principal l = who) (st_logins s)"
  by (simp add: state_held_def count_where_def)

lemma in_held: "key \<in> set (state_held s who) \<longleftrightarrow> (\<exists>l. (key, l) \<in> set (st_logins s) \<and> lo_principal l = who)"
  by (force simp: state_held_def)

lemma logins_ok_update:
  assumes "logins_ok ls" and "length ls < MAX_LOGINS" and "count_where (\<lambda>_ l. lo_principal l = lo_principal login) ls < MAX_PRINCIPAL_LOGINS"
  shows "logins_ok (AList.update key login ls)"
proof -
  have wf: "table_wf ls" using assms(1) by (simp add: logins_ok_def)
  have "count_where (\<lambda>_ l. lo_principal l = who) (AList.update key login ls) \<le> MAX_PRINCIPAL_LOGINS" for who
    using count_update_le [OF wf, of "\<lambda>_ l. lo_principal l = who" key login] assms(1,3)
    by (cases "lo_principal login = who") (auto simp: logins_ok_def intro: le_trans)
  then show ?thesis using assms(1,2) by (auto simp: logins_ok_def length_update)
qed

lemma approval_ok_more:
  "approval_ok lib gs a \<Longrightarrow> (\<And>key g. map_of gs key = Some g \<Longrightarrow> map_of gs' key = Some g) \<Longrightarrow> approval_ok lib gs' a"
  unfolding approval_ok_def by meson

lemma approvals_ok_more:
  assumes "approvals_ok lib gs as" and "\<And>key g. map_of gs key = Some g \<Longrightarrow> map_of gs' key = Some g"
  shows "approvals_ok lib gs' as"
  using assms(1) approval_ok_more [OF _ assms(2), of lib] unfolding approvals_ok_def by blast

lemma store_sign_in_inv:
  assumes inv: "store_inv lib s" and run: "store_sign_in lib s who token csrf ident now wall = (r, s')"
  shows "store_inv lib s'"
proof -
  let ?s = "state_sweep s now"
  let ?held = "state_held ?s (id_principal who)"
  let ?t = "if length ?held \<ge> MAX_PRINCIPAL_LOGINS then state_end ?s (?held ! 0) else ?s"
  have inv1: "store_inv lib ?s" using inv by (rule state_sweep_inv)
  then have inv2: "store_inv lib ?t" by (simp add: state_end_inv)
  have wf: "table_wf (st_logins ?s)" using inv1 by (simp add: store_inv_def logins_ok_def)
  have room: "count_where (\<lambda>_ l. lo_principal l = id_principal who) (st_logins ?t) < MAX_PRINCIPAL_LOGINS"
  proof (cases "length ?held \<ge> MAX_PRINCIPAL_LOGINS")
    case True
    then have "0 < length ?held" by (simp only: MAX_PRINCIPAL_LOGINS_def)
    then have "?held ! 0 \<in> set ?held" by (rule nth_mem)
    then obtain l where "map_of (st_logins ?s) (?held ! 0) = Some l" "lo_principal l = id_principal who"
      using in_held wf by (metis in_table)
    then have "count_where (\<lambda>_ l. lo_principal l = id_principal who) (st_logins ?s) =
        count_where (\<lambda>_ l. lo_principal l = id_principal who) (AList.delete (?held ! 0) (st_logins ?s)) + 1"
      using count_delete [OF wf, of "\<lambda>_ l. lo_principal l = id_principal who" "?held ! 0"] by simp
    moreover have "count_where (\<lambda>_ l. lo_principal l = id_principal who) (st_logins ?s) \<le> MAX_PRINCIPAL_LOGINS"
      using inv1 by (simp add: store_inv_def logins_ok_def)
    ultimately show ?thesis using True by (simp add: state_end_def)
  next
    case False
    then show ?thesis by (simp add: length_held)
  qed
  show ?thesis
  proof (cases "length (st_logins ?t) \<ge> MAX_LOGINS")
    case True
    then show ?thesis using run inv2 by (simp add: store_sign_in_def Let_def)
  next
    case False
    define login where "login = \<lparr>lo_id = ident, lo_principal = id_principal who, lo_name = id_name who, lo_provider = id_provider who,
                    lo_csrf = csrf, lo_sequence = st_sequence ?t + 1, lo_deadline = now + LOGIN_LIFETIME, lo_expires = wall + LOGIN_LIFETIME,
                    lo_revoked = Root (st_tokens ?t)\<rparr>"
    have s': "s' = ?t\<lparr>st_sequence := st_sequence ?t + 1, st_tokens := st_tokens ?t + 1,
        st_logins := AList.update (sha256 lib token) login (st_logins ?t)\<rparr>"
      using run False by (simp add: store_sign_in_def Let_def login_def)
    have "logins_ok (AList.update (sha256 lib token) login (st_logins ?t))"
      using inv2 False room by (intro logins_ok_update) (simp_all add: store_inv_def login_def)
    moreover have "grants_ok (AList.update (sha256 lib token) login (st_logins ?t)) (st_grants ?t)"
      using inv2 by (auto simp: store_inv_def grants_ok_def lookup_update)
    ultimately show ?thesis using inv2 by (simp add: s' store_inv_def)
  qed
qed

lemma store_sign_out_inv: "store_inv lib s \<Longrightarrow> store_sign_out s key every now = (r, s') \<Longrightarrow> store_inv lib s'"
  by (auto simp: store_sign_out_def foldl_end_inv state_end_inv split: option.splits)

lemma store_cookie_inv: "store_inv lib s \<Longrightarrow> store_cookie lib s token now = (r, s') \<Longrightarrow> store_inv lib s'"
  by (auto simp: store_cookie_def Let_def state_end_inv split: option.splits if_splits)

lemma grants_ok_update:
  assumes "grants_ok ls gs" and "count_where (\<lambda>_ g. gr_login g = gr_login new) gs < MAX_LOGIN_GRANTS" and "map_of ls (gr_login new) \<noteq> None"
  shows "grants_ok ls (AList.update key new gs)"
proof -
  have wf: "table_wf gs" using assms(1) by (simp add: grants_ok_def)
  have "count_where (\<lambda>_ g. gr_login g = k) (AList.update key new gs) \<le> MAX_LOGIN_GRANTS" for k
    using count_update_le [OF wf, of "\<lambda>_ g. gr_login g = k" key new] assms(1,2)
    by (cases "gr_login new = k") (auto simp: grants_ok_def intro: le_trans)
  then show ?thesis using assms(1,3) by (auto simp: grants_ok_def lookup_update)
qed

text \<open>A grant whose token is new: what it evicts and what it adds.\<close>

lemma state_grant_inv:
  assumes inv: "store_inv lib s" and run: "state_grant lib s login browser token ident now = (r, s')"
    and fresh: "map_of (st_grants s) (sha256 lib token) = None"
  shows "store_inv lib s'" and "st_logins s' = st_logins s"
    and "r = Inr x \<Longrightarrow> x = token \<and> (\<exists>g. map_of (st_grants s') (sha256 lib token) = Some g \<and> gr_login g = login \<and> gr_browser g = browser)"
    and "r = Inl e \<Longrightarrow> st_grants s' = st_grants s \<and> st_approvals s' = st_approvals s"
    and "\<exists>P. st_approvals s' = filter P (st_approvals s) \<and> (\<forall>c a. \<not> approval_issued a \<longrightarrow> P (c, a))"
proof -
  have gok: "grants_ok (st_logins s) (st_grants s)" and aok: "approvals_ok lib (st_grants s) (st_approvals s)"
    and lok: "logins_ok (st_logins s)" using inv by (simp_all add: store_inv_def)
  have wf: "table_wf (st_grants s)" using gok by (simp add: grants_ok_def)
  let ?held = "filter (\<lambda>(_, grant). gr_login grant = login) (st_grants s)"
  have "store_inv lib s' \<and> st_logins s' = st_logins s \<and>
     (r = Inr x \<longrightarrow> x = token \<and> (\<exists>g. map_of (st_grants s') (sha256 lib token) = Some g \<and> gr_login g = login \<and> gr_browser g = browser)) \<and>
     (r = Inl e \<longrightarrow> st_grants s' = st_grants s \<and> st_approvals s' = st_approvals s) \<and>
     (\<exists>P. st_approvals s' = filter P (st_approvals s) \<and> (\<forall>c a. \<not> approval_issued a \<longrightarrow> P (c, a)))"
  proof (cases "state_login s login now")
    case None
    then show ?thesis using run inv by (auto simp: state_grant_def intro: exI [of _ "\<lambda>_. True"])
  next
    case (Some l)
    have here: "map_of (st_logins s) login \<noteq> None" using Some by (auto simp: state_login_def split: option.splits)
    define new where "new = \<lparr>gr_login = login, gr_id = ident, gr_browser = browser, gr_sequence = st_sequence s + 1,
      gr_revoked = Child (lo_revoked l) (st_tokens s)\<rparr>"
    have put: "store_inv lib s'" if "st_logins s' = st_logins s" "grants_ok (st_logins s) gs" "approvals_ok lib gs (st_approvals s')"
        "count_where (\<lambda>_ g. gr_login g = login) gs < MAX_LOGIN_GRANTS" "map_of gs (sha256 lib token) = None"
        "st_grants s' = AList.update (sha256 lib token) new gs" for gs
    proof -
      have "grants_ok (st_logins s) (st_grants s')"
        unfolding that(6) using that(2,4) here by (intro grants_ok_update) (simp_all add: new_def)
      moreover have "approvals_ok lib (st_grants s') (st_approvals s')"
        using that(3) by (rule approvals_ok_more) (use that(5) in \<open>auto simp: that(6) lookup_update\<close>)
      ultimately show ?thesis using lok that(1) by (simp add: store_inv_def)
    qed
    have added: "map_of (AList.update (sha256 lib token) new gs) (sha256 lib token) = Some new \<and> gr_login new = login \<and> gr_browser new = browser" for gs
      by (simp add: lookup_update new_def)
    show ?thesis
    proof (cases "length ?held \<ge> MAX_LOGIN_GRANTS")
      case False
      then have s': "r = Inr token" "s' = s\<lparr>st_tokens := st_tokens s + 1, st_sequence := st_sequence s + 1,
          st_grants := AList.update (sha256 lib token) new (st_grants s)\<rparr>"
        using run Some by (simp_all add: state_grant_def Let_def new_def)
      have "store_inv lib s'"
        using put [of "st_grants s"] gok aok False fresh by (simp add: s' count_where_def)
      then show ?thesis using s' added by (auto intro: exI [of _ "\<lambda>_. True"])
    next
      case True
      let ?native = "filter (\<lambda>(_, grant). gr_browser grant = None) ?held"
      let ?oldest = "map_option fst (min_by_key (\<lambda>(_, grant). gr_sequence grant) ?native)"
      show ?thesis
      proof (cases "if browser = None then ?oldest else None")
        case None
        then have "r = Inl GrantsFull" "s' = s\<lparr>st_tokens := st_tokens s + 1\<rparr>"
          using run Some True by (cases "browser = None"; simp add: state_grant_def Let_def del: min_by_key_None)+
        then show ?thesis using inv by (auto simp: store_inv_def intro: exI [of _ "\<lambda>_. True"])
      next
        case old: (Some key)
        then obtain g where "min_by_key (\<lambda>(_, grant). gr_sequence grant) ?native = Some (key, g)"
          by (auto split: if_splits)
        then have "(key, g) \<in> set (st_grants s)" "gr_login g = login"
          using min_by_key_Some [of _ ?native "(key, g)"] by auto
        then have g: "map_of (st_grants s) key = Some g" "gr_login g = login" using in_table [OF wf] by auto
        let ?gs = "AList.delete key (st_grants s)"
        let ?as = "filter (\<lambda>(_, a). \<not> approval_became key a) (st_approvals s)"
        have s': "r = Inr token" "st_logins s' = st_logins s" "st_approvals s' = ?as" "st_grants s' = AList.update (sha256 lib token) new ?gs"
          using run Some True old by (auto simp: state_grant_def Let_def new_def split: if_splits)
        have cnt: "count_where (\<lambda>_ g. gr_login g = login) ?gs < MAX_LOGIN_GRANTS"
          using count_delete [OF wf, of "\<lambda>_ g. gr_login g = login" key] g gok by (auto simp: grants_ok_def dest: spec [of _ login])
        have "count_where P ?gs \<le> count_where P (st_grants s)" for P using count_delete [OF wf, of P key] by linarith
        then have "grants_ok (st_logins s) ?gs"
          using gok by (auto simp: grants_ok_def lookup_delete intro: le_trans split: if_splits)
        moreover have "approvals_ok lib ?gs ?as"
          using aok by (rule approvals_ok_filter) (auto simp: approval_ok_def approval_became_def lookup_delete)
        ultimately have "store_inv lib s'" using put [of ?gs] cnt fresh s' by (simp add: lookup_delete)
        moreover have "\<forall>c a. \<not> approval_issued a \<longrightarrow> (case (c, a) of (_, a) \<Rightarrow> \<not> approval_became key a)"
          by (auto simp: approval_became_def approval_issued_def split: stage.splits)
        ultimately show ?thesis using s' added by auto
      qed
    qed
  qed
  then show "store_inv lib s'" and "st_logins s' = st_logins s"
    and "r = Inr x \<Longrightarrow> x = token \<and> (\<exists>g. map_of (st_grants s') (sha256 lib token) = Some g \<and> gr_login g = login \<and> gr_browser g = browser)"
    and "r = Inl e \<Longrightarrow> st_grants s' = st_grants s \<and> st_approvals s' = st_approvals s"
    and "\<exists>P. st_approvals s' = filter P (st_approvals s) \<and> (\<forall>c a. \<not> approval_issued a \<longrightarrow> P (c, a))" by blast+
qed

end
