(* ===== verification/Approvals.thy ===== *)
theory Approvals
  imports Auth_Store
begin

unbundle bit_operations_syntax

text \<open>
  Sign-in approvals, \<^verbatim>\<open>rust/server/src/auth/approval.rs\<close> and \<^verbatim>\<open>rust/proto/src/approval.rs\<close>: a terminal or browser asks
  with a challenge, a signed-in operator approves it, and the verifier of the challenge earns a grant. A handler is its
  sections under the store's lock, one after another; the sections are the steps of the state machine, so that other requests
  may run between them and a lease may have ended meanwhile. What a handler reads of its request (the challenge, the
  session cookie, the origin, the client's keys) are arguments, its answer is a value, pages are named by their kind.
\<close>

subsection \<open>Challenges\<close>

definition ALPHABET :: bytes where
  "ALPHABET = as_bytes ''ABCDEFGHIJKLMNOPQRSTUVWXYZ234567''"

definition approval_challenge :: "auth_lib \<Rightarrow> bytes \<Rightarrow> bytes" where
  "approval_challenge lib verifier = b64_encode lib (sha256 lib verifier)"

definition verification_code :: "auth_lib \<Rightarrow> bytes \<Rightarrow> bytes option" where
  "verification_code lib text =
     (if length text > 64 then None
      else case b64_decode lib 32 text of
          None \<Rightarrow> None
        | Some raw \<Rightarrow>
            if length raw \<noteq> 32 then None
            else let bits = foldl (\<lambda>bits byte. push_bit 8 bits OR ucast byte) (0 :: u64) (take 5 raw)
                 in Some (map (\<lambda>group. ALPHABET ! unat (drop_bit (5 * group) bits AND 31)) (rev [0..<8])))"

definition challenge_parse :: "auth_lib \<Rightarrow> bytes \<Rightarrow> challenge option" where
  "challenge_parse lib text = map_option (\<lambda>code. \<lparr>ch_text = text, ch_code = code\<rparr>) (verification_code lib text)"

definition challenge_of :: "auth_lib \<Rightarrow> bytes \<Rightarrow> challenge option" where
  "challenge_of lib verifier = challenge_parse lib (approval_challenge lib verifier)"

subsection \<open>Approvals of the store\<close>

definition APPROVAL_LIFETIME :: nat where "APPROVAL_LIFETIME = 2 * 60 * 1000"
definition REPLAY :: nat where "REPLAY = 30 * 1000"
definition MAX_CLIENT_APPROVALS :: nat where "MAX_CLIENT_APPROVALS = 8"
definition MAX_VERIFIER :: nat where "MAX_VERIFIER = 128"
definition MIN_BROWSER_VERIFIER :: nat where "MIN_BROWSER_VERIFIER = 32"

record room =
  ro_login :: bool
  ro_shared :: bool

definition approval_room :: "(ipv6 \<Rightarrow> nat \<Rightarrow> ipv6) \<Rightarrow> auth_state \<Rightarrow> digest option \<Rightarrow> client_keys \<Rightarrow> room" where
  "approval_room trunc s login ks =
     (let count = (\<lambda>held. length (filter held (filter (\<lambda>a. \<not> approval_issued a) (map snd (st_approvals s)))));
          held = count (\<lambda>a. approval_login a = login);
          client = (\<lambda>key. count (\<lambda>a. key \<in> set (ap_clients a)));
          total = (count (\<lambda>_. True) < MAX_APPROVALS \<and> (login \<noteq> None \<or> held < MAX_APPROVALS div 2))
      in \<lparr>ro_login = held < MAX_LOGIN_APPROVALS, ro_shared = (total \<and> \<not> share_full trunc ks MAX_CLIENT_APPROVALS client)\<rparr>)"

definition state_pending :: "auth_state \<Rightarrow> challenge \<Rightarrow> nat \<Rightarrow> approval option" where
  "state_pending s c now = (case map_of (st_approvals s) c of
       None \<Rightarrow> None
     | Some a \<Rightarrow> if now < ap_deadline a then Some a else None)"

definition state_open ::
    "(ipv6 \<Rightarrow> nat \<Rightarrow> ipv6) \<Rightarrow> auth_state \<Rightarrow> challenge \<Rightarrow> bytes option \<Rightarrow> client_keys \<Rightarrow> digest option \<Rightarrow> nat \<Rightarrow> auth_state" where
  "state_open trunc s c browser ks login now =
     s\<lparr>st_approvals := AList.update c
        \<lparr>ap_browser = browser, ap_clients = keys_iter trunc ks,
         ap_stage = (case login of None \<Rightarrow> StageOpen | Some login \<Rightarrow> StageClaimed login), ap_deadline = now + APPROVAL_LIFETIME\<rparr>
        (st_approvals s)\<rparr>"

definition set_stage :: "auth_state \<Rightarrow> challenge \<Rightarrow> stage \<Rightarrow> auth_state" where
  "set_stage s c stage = (case map_of (st_approvals s) c of
       None \<Rightarrow> s
     | Some a \<Rightarrow> s\<lparr>st_approvals := AList.update c (a\<lparr>ap_stage := stage\<rparr>) (st_approvals s)\<rparr>)"

subsection \<open>The handlers\<close>

datatype answer =
    RefusedLink
  | RefusedBusy
  | RedirectBrowser challenge bytes
  | RedirectSignIn challenge
  | Continuing challenge
  | Capacity
  | ApprovalPage challenge bytes "bytes option"
  | Approved bool
  | Forbidden
  | Pending
  | Gone
  | TooMany
  | Token bytes nat

text \<open>Where a section leaves the rest of its handler: an answer, or the approval page to render.\<close>

datatype page = Answer answer | Render

definition signed_in :: "auth_lib \<Rightarrow> auth_state \<Rightarrow> bool \<Rightarrow> bytes option \<Rightarrow> nat \<Rightarrow> auth_lease option \<times> auth_state" where
  "signed_in lib s authorization session now =
     (if authorization then (None, s)
      else case session of None \<Rightarrow> (None, s) | Some token \<Rightarrow> store_cookie lib s token now)"

definition approval_page :: "auth_state \<Rightarrow> digest \<Rightarrow> challenge \<Rightarrow> bytes option \<Rightarrow> nat \<Rightarrow> answer" where
  "approval_page s login c origin now = (case store_view s login now of
       None \<Rightarrow> RefusedLink
     | Some view \<Rightarrow> ApprovalPage c (lv_csrf view) origin)"

text \<open>The sections of \<open>cli_page\<close> and \<open>browser_page\<close>; the instants are those of \<open>pending\<close>, \<open>sweep\<close> and \<open>open\<close>.\<close>

definition cli_section ::
    "(ipv6 \<Rightarrow> nat \<Rightarrow> ipv6) \<Rightarrow> auth_state \<Rightarrow> challenge \<Rightarrow> digest option \<Rightarrow> client_keys option \<Rightarrow> nat \<Rightarrow> nat \<Rightarrow> nat \<Rightarrow> page \<times> auth_state" where
  "cli_section trunc s c lease keys t\<^sub>1 t\<^sub>2 t\<^sub>3 =
     (let found = state_pending s c t\<^sub>1
      in case (case found of Some a \<Rightarrow> ap_browser a | None \<Rightarrow> None) of
          Some origin \<Rightarrow> (Answer (RedirectBrowser c origin), s)
        | None \<Rightarrow>
            (case lease of
               None \<Rightarrow> (Answer (RedirectSignIn c), s)
             | Some login \<Rightarrow>
                 (case keys of
                    None \<Rightarrow> (Answer RefusedBusy, s)
                  | Some ks \<Rightarrow>
                      (case found of
                         Some a \<Rightarrow> if approval_issued a \<or> approval_login a \<noteq> Some login then (Answer RefusedLink, s) else (Render, s)
                       | None \<Rightarrow>
                           let s = state_sweep s t\<^sub>2; room = approval_room trunc s (Some login) ks
                           in if \<not> (ro_login room \<and> ro_shared room) then (Answer RefusedBusy, s)
                              else (Render, state_open trunc s c None ks (Some login) t\<^sub>3)))))"

definition cli_page ::
    "auth_lib \<Rightarrow> (ipv6 \<Rightarrow> nat \<Rightarrow> ipv6) \<Rightarrow> auth_state \<Rightarrow> bytes \<Rightarrow> bool \<Rightarrow> bytes option \<Rightarrow> client_keys option \<Rightarrow>
     nat \<Rightarrow> nat \<Rightarrow> nat \<Rightarrow> nat \<Rightarrow> nat \<Rightarrow> answer \<times> auth_state" where
  "cli_page lib trunc s text authorization session keys t\<^sub>0 t\<^sub>1 t\<^sub>2 t\<^sub>3 t\<^sub>4 = (case challenge_parse lib text of
       None \<Rightarrow> (RefusedLink, s)
     | Some c \<Rightarrow>
         let (lease, s) = signed_in lib s authorization session t\<^sub>0;
             login = map_option ll_login lease
         in (case cli_section trunc s c login keys t\<^sub>1 t\<^sub>2 t\<^sub>3 of
               (Answer a, s) \<Rightarrow> (a, s)
             | (Render, s) \<Rightarrow> (case login of None \<Rightarrow> RefusedLink | Some login \<Rightarrow> approval_page s login c None t\<^sub>4, s)))"

definition browser_section ::
    "(ipv6 \<Rightarrow> nat \<Rightarrow> ipv6) \<Rightarrow> auth_state \<Rightarrow> challenge \<Rightarrow> bytes \<Rightarrow> digest option \<Rightarrow> client_keys \<Rightarrow> bool \<Rightarrow> nat \<Rightarrow> nat \<Rightarrow> nat \<Rightarrow> page \<times> auth_state" where
  "browser_section trunc s c origin lease ks cross_site t\<^sub>1 t\<^sub>2 t\<^sub>3 =
     (let opened = (if state_pending s c t\<^sub>1 = None
            then let s = state_sweep s t\<^sub>2
                 in if ro_shared (approval_room trunc s lease ks) then (True, state_open trunc s c (Some origin) ks None t\<^sub>3) else (False, s)
            else (True, s));
          s = snd opened;
          room = map_option (\<lambda>login. ro_login (approval_room trunc s (Some login) ks)) lease
      in if \<not> fst opened then (Answer RefusedBusy, s)
         else case map_of (st_approvals s) c of
             None \<Rightarrow> (Answer RefusedLink, s)
           | Some a \<Rightarrow>
               if ap_browser a \<noteq> Some origin \<or> approval_issued a then (Answer RefusedLink, s)
               else case lease of
                   None \<Rightarrow> (Answer (if cross_site then Continuing c else RedirectSignIn c), s)
                 | Some login \<Rightarrow>
                     let render = (\<lambda>s. (if grants_of s login \<ge> MAX_LOGIN_GRANTS then Answer Capacity else Render, s))
                     in (case ap_stage a of
                           StageOpen \<Rightarrow> if room = Some True then render (set_stage s c (StageClaimed login)) else (Answer RefusedBusy, s)
                         | StageClaimed l \<Rightarrow> if l \<noteq> login then (Answer RefusedLink, s) else render s
                         | StageApproved l \<Rightarrow> if l \<noteq> login then (Answer RefusedLink, s) else render s
                         | StageIssued _ \<Rightarrow> (Answer RefusedLink, s)))"

text \<open>\<open>allow\<close> is the client's budget of browser approvals, asked only for a challenge not known yet.\<close>

definition browser_page ::
    "auth_lib \<Rightarrow> (ipv6 \<Rightarrow> nat \<Rightarrow> ipv6) \<Rightarrow> auth_state \<Rightarrow> bytes option \<Rightarrow> bytes option \<Rightarrow> bool \<Rightarrow> bytes option \<Rightarrow> client_keys option \<Rightarrow>
     (client_keys \<Rightarrow> bool) \<Rightarrow> bool \<Rightarrow> nat \<Rightarrow> nat \<Rightarrow> nat \<Rightarrow> nat \<Rightarrow> nat \<Rightarrow> nat \<Rightarrow> answer \<times> auth_state" where
  "browser_page lib trunc s text origin authorization session keys allow cross_site t\<^sub>k t\<^sub>0 t\<^sub>1 t\<^sub>2 t\<^sub>3 t\<^sub>4 =
     (case (case text of None \<Rightarrow> None | Some text \<Rightarrow> challenge_parse lib text, origin) of
        (Some c, Some origin) \<Rightarrow>
          let known = (state_pending s c t\<^sub>k \<noteq> None);
              keys = (case keys of None \<Rightarrow> None | Some ks \<Rightarrow> if known \<or> allow ks then Some ks else None)
          in (case keys of
                None \<Rightarrow> (RefusedBusy, s)
              | Some ks \<Rightarrow>
                  let (lease, s) = signed_in lib s authorization session t\<^sub>0;
                      login = map_option ll_login lease
                  in (case browser_section trunc s c origin login ks cross_site t\<^sub>1 t\<^sub>2 t\<^sub>3 of
                        (Answer a, s) \<Rightarrow> (a, s)
                      | (Render, s) \<Rightarrow> (case login of None \<Rightarrow> RefusedLink | Some login \<Rightarrow> approval_page s login c (Some origin) t\<^sub>4, s)))
      | _ \<Rightarrow> (RefusedLink, s))"

definition approve_section :: "auth_state \<Rightarrow> challenge \<Rightarrow> digest \<Rightarrow> bool \<Rightarrow> nat \<Rightarrow> answer \<times> auth_state" where
  "approve_section s c login browser now =
     (let full = (browser \<and> grants_of s login \<ge> MAX_LOGIN_GRANTS)
      in case map_of (st_approvals s) c of
          None \<Rightarrow> (Forbidden, s)
        | Some a \<Rightarrow>
            if \<not> (now < ap_deadline a \<and> approval_login a = Some login \<and> (ap_browser a \<noteq> None) = browser \<and> \<not> approval_issued a)
            then (Forbidden, s)
            else if full then (Capacity, s)
            else (Approved browser, set_stage s c (StageApproved login)))"

text \<open>
  The handler \<open>approve\<close> up to its lock: the form is its \<open>csrf\<close> and \<open>challenge\<close> fields; it is refused, or goes on with the
  login and the challenge.
\<close>

definition approve_check :: "auth_lib \<Rightarrow> auth_state \<Rightarrow> auth_lease option \<Rightarrow> (bytes \<times> bytes) option \<Rightarrow> nat \<Rightarrow> answer + digest \<times> challenge" where
  "approve_check lib s lease form now = (case (lease, form) of
       (Some lease, Some (csrf, text)) \<Rightarrow>
         if \<not> store_csrf s (ll_login lease) csrf now then Inl Forbidden
         else (case challenge_parse lib text of
                 None \<Rightarrow> Inl Forbidden
               | Some c \<Rightarrow> Inr (ll_login lease, c))
     | _ \<Rightarrow> Inl Forbidden)"

definition approve ::
    "auth_lib \<Rightarrow> auth_state \<Rightarrow> auth_lease option \<Rightarrow> (bytes \<times> bytes) option \<Rightarrow> bool \<Rightarrow> nat \<Rightarrow> nat \<Rightarrow> answer \<times> auth_state" where
  "approve lib s lease form browser t\<^sub>0 now = (case approve_check lib s lease form t\<^sub>0 of
       Inl a \<Rightarrow> (a, s)
     | Inr (login, c) \<Rightarrow> approve_section s c login browser now)"

text \<open>\<open>issue\<close>; the instants are those of \<open>now\<close>, \<open>pending\<close>, \<open>login\<close> and the check of the login in \<open>grant\<close>.\<close>

definition issue_section ::
    "auth_lib \<Rightarrow> auth_state \<Rightarrow> challenge \<Rightarrow> bytes option \<Rightarrow> bytes \<Rightarrow> bytes \<Rightarrow> nat \<Rightarrow> nat \<Rightarrow> nat \<Rightarrow> nat \<Rightarrow> answer \<times> auth_state" where
  "issue_section lib s c origin token ident now t\<^sub>1 t\<^sub>2 t\<^sub>3 =
     (let s = state_sweep s now
      in case (case state_pending s c t\<^sub>1 of None \<Rightarrow> None | Some a \<Rightarrow> if ap_browser a = origin then Some a else None) of
          None \<Rightarrow> (Pending, s)
        | Some a \<Rightarrow>
            (case approval_login a of
               None \<Rightarrow> (Pending, s)
             | Some login \<Rightarrow>
                 (case state_login s login t\<^sub>2 of
                    None \<Rightarrow> (Pending, s)
                  | Some l \<Rightarrow>
                      (case ap_stage a of
                         StageIssued i \<Rightarrow> (case is_token i of Some token \<Rightarrow> (Token token (lo_expires l), s) | None \<Rightarrow> (Gone, s))
                       | StageApproved _ \<Rightarrow>
                           (case state_grant lib s login origin token ident t\<^sub>3 of
                              (Inl GrantsFull, s) \<Rightarrow> (TooMany, s)
                            | (Inl NoLogin, s) \<Rightarrow> (Pending, s)
                            | (Inr token, s) \<Rightarrow>
                                (Token token (lo_expires l),
                                 case map_of (st_approvals s) c of
                                   None \<Rightarrow> s
                                 | Some a \<Rightarrow> s\<lparr>st_approvals := AList.update c
                                     (a\<lparr>ap_deadline := max (ap_deadline a) (now + REPLAY),
                                        ap_stage := StageIssued \<lparr>is_login = login, is_grant = sha256 lib token, is_token = Some token,
                                          is_replay_until = now + REPLAY\<rparr>\<rparr>) (st_approvals s)\<rparr>))
                       | _ \<Rightarrow> (if origin \<noteq> None \<and> grants_of s login \<ge> MAX_LOGIN_GRANTS then TooMany else Pending, s)))))"

definition issue_grant ::
    "auth_lib \<Rightarrow> auth_state \<Rightarrow> bytes \<Rightarrow> bytes option \<Rightarrow> bytes \<Rightarrow> bytes \<Rightarrow> nat \<Rightarrow> nat \<Rightarrow> nat \<Rightarrow> nat \<Rightarrow> answer \<times> auth_state" where
  "issue_grant lib s verifier origin token ident now t\<^sub>1 t\<^sub>2 t\<^sub>3 = (case challenge_of lib verifier of
       None \<Rightarrow> (Pending, s)
     | Some c \<Rightarrow> issue_section lib s c origin token ident now t\<^sub>1 t\<^sub>2 t\<^sub>3)"

text \<open>\<open>token\<close>: the exchange's verifier, when the body held one, and the request's origin.\<close>

definition token_exchange ::
    "auth_lib \<Rightarrow> auth_state \<Rightarrow> bytes option \<Rightarrow> bytes option \<Rightarrow> bool \<Rightarrow> bytes \<Rightarrow> bytes \<Rightarrow> nat \<Rightarrow> nat \<Rightarrow> nat \<Rightarrow> nat \<Rightarrow> answer \<times> auth_state" where
  "token_exchange lib s verifier origin browser token ident now t\<^sub>1 t\<^sub>2 t\<^sub>3 =
     (let origin = (if browser then origin else None); shortest = (if browser then MIN_BROWSER_VERIFIER else 0)
      in if browser \<and> origin = None then (Forbidden, s)
         else case verifier of
             None \<Rightarrow> (if browser then Forbidden else Pending, s)
           | Some verifier \<Rightarrow>
               if shortest \<le> length verifier \<and> length verifier \<le> MAX_VERIFIER
               then issue_grant lib s verifier origin token ident now t\<^sub>1 t\<^sub>2 t\<^sub>3
               else (if browser then Forbidden else Pending, s))"

subsection \<open>The state machine\<close>

text \<open>
  What requests did that matters to approvals, newest first: a login was made with a CSRF token, an approval was asked for by
  a terminal (\<open>None\<close>) or for an origin, a form with a CSRF token got past the check of \<open>approve\<close>, and a challenge was approved.
\<close>

datatype auth_event =
    SignedIn digest bytes
  | Asked challenge "bytes option"
  | Submitted challenge digest bytes
  | ApprovedBy challenge digest

text \<open>Who approved a challenge and who asked for it, last; \<open>drawn\<close> is the CSRF token a login was made with.\<close>

fun approver :: "challenge \<Rightarrow> auth_event list \<Rightarrow> digest option" where
  "approver c [] = None"
| "approver c (Asked d _ # log) = (if d = c then None else approver c log)"
| "approver c (ApprovedBy d login # log) = (if d = c then Some login else approver c log)"
| "approver c (_ # log) = approver c log"

fun asked :: "challenge \<Rightarrow> auth_event list \<Rightarrow> bytes option option" where
  "asked c [] = None"
| "asked c (Asked d origin # log) = (if d = c then Some origin else asked c log)"
| "asked c (_ # log) = asked c log"

fun drawn :: "digest \<Rightarrow> auth_event list \<Rightarrow> bytes option" where
  "drawn key [] = None"
| "drawn key (SignedIn d csrf # log) = (if d = key then Some csrf else drawn key log)"
| "drawn key (_ # log) = drawn key log"

text \<open>
  The sections of all requests in any order. New tokens are drawn at random and are new; a section's later instants
  are not earlier. \<open>submit\<close> and \<open>approve\<close> are the two sections of the handler \<open>approve\<close>: what the form holds is logged when
  the first lets the request pass, and the second runs for such a request at any later time.
\<close>

inductive auth_step :: "auth_lib \<Rightarrow> (ipv6 \<Rightarrow> nat \<Rightarrow> ipv6) \<Rightarrow> auth_state \<times> auth_event list \<Rightarrow> auth_state \<times> auth_event list \<Rightarrow> bool"
  for lib trunc where
  sign_in: "map_of (st_logins s) (sha256 lib token) = None \<Longrightarrow> store_sign_in lib s who token csrf ident now wall = (r, s') \<Longrightarrow>
    auth_step lib trunc (s, log) (s', case r of None \<Rightarrow> log | Some new \<Rightarrow> SignedIn (nl_key new) (nl_csrf new) # log)"
| sign_out: "store_sign_out s key every now = (ok, s') \<Longrightarrow> auth_step lib trunc (s, log) (s', log)"
| cookie: "store_cookie lib s token now = (lease, s') \<Longrightarrow> auth_step lib trunc (s, log) (s', log)"
| grant: "map_of (st_grants s) (sha256 lib token) = None \<Longrightarrow> state_grant lib s login browser token ident now = (g, s') \<Longrightarrow>
    auth_step lib trunc (s, log) (s', log)"
| cli: "t\<^sub>1 \<le> t\<^sub>2 \<Longrightarrow> cli_section trunc s c lease keys t\<^sub>1 t\<^sub>2 t\<^sub>3 = (p, s') \<Longrightarrow>
    auth_step lib trunc (s, log) (s', if state_pending s c t\<^sub>1 = None \<and> lease \<noteq> None \<and> keys \<noteq> None then Asked c None # log else log)"
| browser: "t\<^sub>1 \<le> t\<^sub>2 \<Longrightarrow> browser_section trunc s c origin lease ks cross t\<^sub>1 t\<^sub>2 t\<^sub>3 = (p, s') \<Longrightarrow>
    auth_step lib trunc (s, log) (s', if state_pending s c t\<^sub>1 = None then Asked c (Some origin) # log else log)"
| submit: "approve_check lib s lease (Some (csrf, field)) now = Inr (login, c) \<Longrightarrow>
    auth_step lib trunc (s, log) (s, Submitted c login csrf # log)"
| approve: "Submitted c login csrf \<in> set log \<Longrightarrow> approve_section s c login browser now = (a, s') \<Longrightarrow>
    auth_step lib trunc (s, log) (s', if a = Approved browser then ApprovedBy c login # log else log)"
| issue: "map_of (st_grants s) (sha256 lib token) = None \<Longrightarrow>
    issue_section lib s c origin token ident now t\<^sub>1 t\<^sub>2 t\<^sub>3 = (a, s') \<Longrightarrow> auth_step lib trunc (s, log) (s', log)"

text \<open>A run of the whole handler is these two sections, one after the other.\<close>

lemma approve_steps:
  assumes "approve lib s lease form browser t\<^sub>0 now = (Approved browser, s')"
  obtains c login csrf where "(auth_step lib trunc)\<^sup>*\<^sup>* (s, log) (s', ApprovedBy c login # Submitted c login csrf # log)"
    "approve_check lib s lease form t\<^sub>0 = Inr (login, c)"
proof -
  obtain login c where check: "approve_check lib s lease form t\<^sub>0 = Inr (login, c)" and run: "approve_section s c login browser now = (Approved browser, s')"
    using assms by (auto simp: approve_def approve_check_def split: sum.splits option.splits prod.splits if_splits)
  then obtain csrf field where "form = Some (csrf, field)" by (auto simp: approve_check_def split: option.splits)
  then have "auth_step lib trunc (s, log) (s, Submitted c login csrf # log)" using check by (auto intro: auth_step.submit)
  moreover have "auth_step lib trunc (s, Submitted c login csrf # log) (s', ApprovedBy c login # Submitted c login csrf # log)"
    using auth_step.approve [OF _ run, of csrf "Submitted c login csrf # log" lib trunc] by simp
  ultimately have "(auth_step lib trunc)\<^sup>*\<^sup>* (s, log) (s', ApprovedBy c login # Submitted c login csrf # log)"
    by (meson converse_rtranclp_into_rtranclp rtranclp.rtrancl_refl)
  with check show thesis using that by blast
qed

text \<open>The login an approval was approved by.\<close>

definition stage_owner :: "approval \<Rightarrow> digest option" where
  "stage_owner a = (case ap_stage a of StageApproved login \<Rightarrow> Some login | StageIssued i \<Rightarrow> Some (is_login i) | _ \<Rightarrow> None)"

definition owned_ok :: "(challenge \<times> approval) list \<Rightarrow> auth_event list \<Rightarrow> bool" where
  "owned_ok as log \<longleftrightarrow> (\<forall>c a. map_of as c = Some a \<longrightarrow> asked c log = Some (ap_browser a) \<and>
     (\<forall>login. stage_owner a = Some login \<longrightarrow> approver c log = Some login))"

text \<open>Each approval follows a form of its login, and each form that passed held the CSRF token its login was made with.\<close>

fun log_ok :: "auth_event list \<Rightarrow> bool" where
  "log_ok [] \<longleftrightarrow> True"
| "log_ok (Submitted c login csrf # log) \<longleftrightarrow> drawn login log = Some csrf \<and> log_ok log"
| "log_ok (ApprovedBy c login # log) \<longleftrightarrow> (\<exists>csrf. Submitted c login csrf \<in> set log) \<and> log_ok log"
| "log_ok (_ # log) \<longleftrightarrow> log_ok log"

definition csrf_ok :: "(digest \<times> login) list \<Rightarrow> auth_event list \<Rightarrow> bool" where
  "csrf_ok ls log \<longleftrightarrow> log_ok log \<and> (\<forall>key l. map_of ls key = Some l \<longrightarrow> drawn key log = Some (lo_csrf l))"

lemma log_ok_append: "log_ok (xs @ ys) \<Longrightarrow> log_ok ys"
  by (induction xs rule: log_ok.induct) auto

lemma log_ok_submitted:
  assumes "log_ok log" and "Submitted c login csrf \<in> set log"
  obtains between before where "log = between @ Submitted c login csrf # before" "drawn login before = Some csrf"
proof -
  obtain between before where "log = between @ Submitted c login csrf # before" using split_list [OF assms(2)] by blast
  then show thesis using that assms(1) log_ok_append by fastforce
qed

lemma approver_split: "approver c log = Some login \<Longrightarrow>
    \<exists>since before. log = since @ ApprovedBy c login # before \<and> (\<forall>origin. Asked c origin \<notin> set since)"
proof (induction log)
  case (Cons e log)
  show ?case
  proof (cases "e = ApprovedBy c login")
    case True
    then show ?thesis by (intro exI [of _ "[]"] exI [of _ log]) simp
  next
    case False
    then have e: "approver c log = Some login" "\<forall>origin. e \<noteq> Asked c origin"
      using Cons.prems by (cases e; auto split: if_splits)+
    then obtain since before where "log = since @ ApprovedBy c login # before" "\<forall>origin. Asked c origin \<notin> set since" using Cons.IH by blast
    then show ?thesis using e(2) by (intro exI [of _ "e # since"] exI [of _ before]) auto
  qed
qed simp

lemma approver_proved:
  assumes "log_ok log" and "approver c log = Some login"
  shows "\<exists>since between before csrf. log = since @ ApprovedBy c login # between @ Submitted c login csrf # before \<and>
    (\<forall>origin. Asked c origin \<notin> set since) \<and> drawn login before = Some csrf"
proof -
  obtain since rest where s: "log = since @ ApprovedBy c login # rest" "\<forall>origin. Asked c origin \<notin> set since"
    using approver_split [OF assms(2)] by blast
  then have ok: "log_ok (ApprovedBy c login # rest)" using assms(1) log_ok_append by blast
  then obtain csrf where "Submitted c login csrf \<in> set rest" by auto
  then obtain between before where "rest = between @ Submitted c login csrf # before" "drawn login before = Some csrf"
    using log_ok_submitted [of rest] ok by (metis log_ok.simps(3))
  with s show ?thesis by blast
qed

text \<open>Approvals may go, and forget their token, without anything else about them changing.\<close>

definition shrinks :: "(challenge \<times> approval) list \<Rightarrow> (challenge \<times> approval) list \<Rightarrow> bool" where
  "shrinks as as' \<longleftrightarrow> (\<forall>c a'. map_of as' c = Some a' \<longrightarrow> (\<exists>a. map_of as c = Some a \<and> stage_owner a' = stage_owner a \<and>
     approval_login a' = approval_login a \<and> approval_issued a' = approval_issued a \<and> ap_browser a' = ap_browser a))"

lemma shrinks_refl [simp]: "shrinks as as"
  by (auto simp: shrinks_def)

lemma shrinks_trans: "shrinks as bs \<Longrightarrow> shrinks bs cs \<Longrightarrow> shrinks as cs"
  unfolding shrinks_def by metis

lemma shrinks_filter: "table_wf as \<Longrightarrow> shrinks as (filter P as)"
  by (auto simp: shrinks_def lookup_filter split: option.splits if_splits)

lemma shrinks_owned: "shrinks as as' \<Longrightarrow> owned_ok as log \<Longrightarrow> owned_ok as' log"
  unfolding shrinks_def owned_ok_def by metis

lemma store_inv_wf: "store_inv lib s \<Longrightarrow> table_wf (st_logins s) \<and> table_wf (st_grants s) \<and> table_wf (st_approvals s)"
  by (simp add: store_inv_def logins_ok_def grants_ok_def approvals_ok_def)

lemma state_end_shrinks: "store_inv lib s \<Longrightarrow> shrinks (st_approvals s) (st_approvals (state_end s key))"
  by (simp add: state_end_def shrinks_filter store_inv_wf)

lemma foldl_end_shrinks: "store_inv lib s \<Longrightarrow> shrinks (st_approvals s) (st_approvals (foldl state_end s keys))"
proof (induction keys arbitrary: s)
  case (Cons k keys)
  from Cons.IH [OF state_end_inv [OF Cons.prems, of k]] state_end_shrinks [OF Cons.prems] show ?case
    by (auto intro: shrinks_trans)
qed simp

lemma state_sweep_shrinks: "store_inv lib s \<Longrightarrow> shrinks (st_approvals s) (st_approvals (state_sweep s now))"
proof -
  assume inv: "store_inv lib s"
  let ?keys = "map fst (filter (\<lambda>(_, login). now \<ge> lo_deadline login) (st_logins s))"
  let ?s = "foldl state_end s ?keys"
  have wf: "table_wf (st_approvals ?s)" using foldl_end_inv [OF inv] store_inv_wf by blast
  have "stage_owner (forget_token now a) = stage_owner a" for a
    by (auto simp: stage_owner_def forget_token_def split: stage.splits)
  then have "shrinks (st_approvals ?s) (map (\<lambda>(c, a). (c, forget_token now a)) (st_approvals ?s))"
    by (auto simp: shrinks_def lookup_map)
  moreover have "shrinks (map (\<lambda>(c, a). (c, forget_token now a)) (st_approvals ?s))
      (filter (\<lambda>(_, a). now < ap_deadline a) (map (\<lambda>(c, a). (c, forget_token now a)) (st_approvals ?s)))"
    using wf by (intro shrinks_filter) simp
  ultimately show ?thesis using foldl_end_shrinks [OF inv, of ?keys] by (auto simp: state_sweep_def Let_def intro: shrinks_trans)
qed

text \<open>Logins may end, and tokens be cancelled, without a login being made.\<close>

definition only_ends :: "auth_state \<Rightarrow> auth_state \<Rightarrow> bool" where
  "only_ends s s' \<longleftrightarrow> map_of (st_logins s') \<subseteq>\<^sub>m map_of (st_logins s) \<and> set (st_cancelled s) \<subseteq> set (st_cancelled s')"

lemma only_ends_refl [simp]: "only_ends s s"
  by (simp add: only_ends_def)

lemma only_ends_trans: "only_ends s t \<Longrightarrow> only_ends t u \<Longrightarrow> only_ends s u"
  unfolding only_ends_def by (blast intro: map_le_trans)

lemma only_ends_same: "st_logins s' = st_logins s \<Longrightarrow> set (st_cancelled s) \<subseteq> set (st_cancelled s') \<Longrightarrow> only_ends s s'"
  by (simp add: only_ends_def)

lemma only_ends_end: "only_ends s (state_end s key)"
  by (auto simp: only_ends_def state_end_def map_le_def lookup_delete split: option.splits if_splits)

lemma only_ends_foldl: "only_ends s (foldl state_end s keys)"
  by (induction keys arbitrary: s) (auto intro: only_ends_trans only_ends_end)

lemma only_ends_sweep: "only_ends s (state_sweep s now)"
  unfolding state_sweep_def Let_def by (rule only_ends_trans [OF only_ends_foldl only_ends_same]) auto

lemma only_ends_grant: "state_grant lib s login browser token ident now = (r, s') \<Longrightarrow> only_ends s s'"
  by (rule only_ends_same) (auto simp: state_grant_def Let_def split: option.splits if_splits)

lemma sign_in_ends:
  assumes "store_sign_in lib s who token csrf ident now wall = (r, s')"
  shows "\<exists>t. only_ends s t \<and> st_approvals s' = st_approvals t \<and> st_cancelled s' = st_cancelled t \<and>
    (case r of None \<Rightarrow> st_logins s' = st_logins t
      | Some new \<Rightarrow> \<exists>l. st_logins s' = AList.update (nl_key new) l (st_logins t) \<and> lo_csrf l = nl_csrf new)"
proof -
  let ?sw = "state_sweep s now" and ?held = "state_held (state_sweep s now) (id_principal who)"
  let ?t = "if length ?held \<ge> MAX_PRINCIPAL_LOGINS then state_end ?sw (?held ! 0) else ?sw"
  have "only_ends s ?t" using only_ends_sweep only_ends_trans [OF only_ends_sweep only_ends_end] by simp
  then show ?thesis using assms unfolding store_sign_in_def Let_def
    by (intro exI [of _ ?t] conjI) (auto split: if_splits, (rule exI, rule conjI, rule refl, simp)+)
qed

lemma only_ends_stage: "only_ends s (set_stage s c stage)"
  by (auto intro: only_ends_same simp: set_stage_def split: option.split)

lemma only_ends_open: "only_ends s (state_open trunc s c browser ks login now)"
  by (rule only_ends_same) (simp_all add: state_open_def)

lemma only_ends_cli: "cli_section trunc s c lease keys t\<^sub>1 t\<^sub>2 t\<^sub>3 = (p, s') \<Longrightarrow> only_ends s s'"
  using only_ends_trans [OF only_ends_sweep only_ends_open]
  by (auto simp: cli_section_def Let_def intro: only_ends_sweep split: option.splits if_splits)

lemma only_ends_browser: "browser_section trunc s c origin lease ks cross t\<^sub>1 t\<^sub>2 t\<^sub>3 = (p, s') \<Longrightarrow> only_ends s s'"
proof -
  assume run: "browser_section trunc s c origin lease ks cross t\<^sub>1 t\<^sub>2 t\<^sub>3 = (p, s')"
  define s1 where "s1 = snd (if state_pending s c t\<^sub>1 = None
            then let s = state_sweep s t\<^sub>2
                 in if ro_shared (approval_room trunc s lease ks) then (True, state_open trunc s c (Some origin) ks None t\<^sub>3) else (False, s)
            else (True, s))"
  have "only_ends s s1"
    using only_ends_trans [OF only_ends_sweep only_ends_open] by (auto simp: s1_def Let_def intro: only_ends_sweep)
  moreover have "s' = s1 \<or> (\<exists>login. s' = set_stage s1 c (StageClaimed login))"
    using run unfolding browser_section_def Let_def s1_def [unfolded Let_def, symmetric]
    by (auto split: option.splits if_splits stage.splits)
  ultimately show ?thesis using only_ends_stage by (auto intro: only_ends_trans)
qed

lemma only_ends_approve: "approve_section s c login browser now = (a, s') \<Longrightarrow> only_ends s s'"
  by (auto simp: approve_section_def Let_def intro: only_ends_stage split: option.splits if_splits)

lemma only_ends_issue: "issue_section lib s c origin token ident now t\<^sub>1 t\<^sub>2 t\<^sub>3 = (a, s') \<Longrightarrow> only_ends s s'"
proof -
  assume run: "issue_section lib s c origin token ident now t\<^sub>1 t\<^sub>2 t\<^sub>3 = (a, s')"
  let ?s = "state_sweep s now"
  consider "s' = ?s" | login r s2 where "state_grant lib ?s login origin token ident t\<^sub>3 = (r, s2)"
      "st_logins s' = st_logins s2" "st_cancelled s' = st_cancelled s2"
    using run by (auto simp: issue_section_def Let_def split: option.splits if_splits stage.splits prod.splits sum.splits grant_refusal.splits)
  then show ?thesis
  proof cases
    case 2
    have "only_ends s s2" using only_ends_grant [OF 2(1)] only_ends_sweep by (auto intro: only_ends_trans)
    then show ?thesis using 2(2,3) by (simp add: only_ends_def)
  qed (simp add: only_ends_sweep)
qed

text \<open>A login there after a step was there before, or was made by it; a cancelled token stays cancelled.\<close>

lemma auth_step_logins:
  assumes "auth_step lib trunc w w'"
  shows "\<exists>new. snd w' = new @ snd w \<and> set (st_cancelled (fst w)) \<subseteq> set (st_cancelled (fst w')) \<and>
    (\<forall>key l. map_of (st_logins (fst w')) key = Some l \<longrightarrow> map_of (st_logins (fst w)) key = Some l \<or> SignedIn key (lo_csrf l) \<in> set new)"
proof -
  have ends: "set (st_cancelled s) \<subseteq> set (st_cancelled s') \<and>
      (\<forall>key l. map_of (st_logins s') key = Some l \<longrightarrow> map_of (st_logins s) key = Some l)" if "only_ends s s'" for s s'
    using that by (auto simp: only_ends_def map_le_def dom_def)
  from assms show ?thesis
  proof (cases rule: auth_step.cases)
    case (sign_in s token who csrf ident now wall r s' log)
    obtain t where t: "only_ends s t" "st_cancelled s' = st_cancelled t" "case r of None \<Rightarrow> st_logins s' = st_logins t
        | Some new \<Rightarrow> \<exists>l. st_logins s' = AList.update (nl_key new) l (st_logins t) \<and> lo_csrf l = nl_csrf new"
      using sign_in_ends [OF sign_in(4)] by blast
    show ?thesis
    proof (cases r)
      case None
      then have "only_ends s s'" using t by (simp add: only_ends_def)
      then show ?thesis using ends [of s s'] sign_in None by simp
    next
      case (Some new)
      then show ?thesis using t sign_in(1,2)
        by (intro exI [of _ "[SignedIn (nl_key new) (nl_csrf new)]"])
          (auto simp: only_ends_def map_le_def dom_def lookup_update split: if_splits)
    qed
  next
    case (sign_out s key every now ok s' log)
    have "only_ends s s'" using sign_out(3) by (auto simp: store_sign_out_def intro: only_ends_foldl only_ends_end split: option.splits)
    then show ?thesis using ends [of s s'] sign_out by simp
  next
    case (cookie s token now lease s' log)
    have "only_ends s s'" using cookie(3) by (auto simp: store_cookie_def Let_def intro: only_ends_end split: option.splits if_splits)
    then show ?thesis using ends [of s s'] cookie by simp
  next
    case (grant s token login browser ident now g s' log)
    then show ?thesis using ends [OF only_ends_grant [OF grant(4)]] by auto
  next
    case (cli t\<^sub>1 t\<^sub>2 s c lease keys t\<^sub>3 p s' log)
    then show ?thesis using ends [OF only_ends_cli [OF cli(4)]] by auto
  next
    case (browser t\<^sub>1 t\<^sub>2 s c origin lease ks cross t\<^sub>3 p s' log)
    then show ?thesis using ends [OF only_ends_browser [OF browser(4)]] by auto
  next
    case (submit s lease csrf field now login c log)
    then show ?thesis using ends [of s s] by auto
  next
    case (approve c login csrf log s browser now a s')
    then show ?thesis using ends [OF only_ends_approve [OF approve(4)]] by auto
  next
    case (issue s token c origin ident now t\<^sub>1 t\<^sub>2 t\<^sub>3 a s' log)
    then show ?thesis using ends [OF only_ends_issue [OF issue(4)]] by auto
  qed
qed

lemma auth_run_logins:
  assumes "(auth_step lib trunc)\<^sup>*\<^sup>* w w'"
  shows "\<exists>new. snd w' = new @ snd w \<and> set (st_cancelled (fst w)) \<subseteq> set (st_cancelled (fst w')) \<and>
    (\<forall>key l. map_of (st_logins (fst w')) key = Some l \<longrightarrow> map_of (st_logins (fst w)) key = Some l \<or> (\<exists>csrf. SignedIn key csrf \<in> set new))"
  using assms
proof (induction rule: rtranclp_induct)
  case (step v w')
  obtain xs ys where "snd v = xs @ snd w" "snd w' = ys @ snd v"
    "set (st_cancelled (fst w)) \<subseteq> set (st_cancelled (fst v))" "set (st_cancelled (fst v)) \<subseteq> set (st_cancelled (fst w'))"
    "\<forall>key l. map_of (st_logins (fst v)) key = Some l \<longrightarrow> map_of (st_logins (fst w)) key = Some l \<or> (\<exists>csrf. SignedIn key csrf \<in> set xs)"
    "\<forall>key l. map_of (st_logins (fst w')) key = Some l \<longrightarrow> map_of (st_logins (fst v)) key = Some l \<or> SignedIn key (lo_csrf l) \<in> set ys"
    using step.IH auth_step_logins [OF step.hyps(2)] by blast
  then show ?case by (intro exI [of _ "ys @ xs"]) (auto, blast+)
qed simp

text \<open>After a sweep no approval is past its deadline.\<close>

lemma state_sweep_deadline:
  assumes "store_inv lib s" and "map_of (st_approvals (state_sweep s now)) c = Some a"
  shows "now < ap_deadline a \<and> (\<exists>b. map_of (st_approvals s) c = Some b \<and> ap_deadline b = ap_deadline a)"
proof -
  let ?keys = "map fst (filter (\<lambda>(_, login). now \<ge> lo_deadline login) (st_logins s))"
  let ?s = "foldl state_end s ?keys"
  have wf: "table_wf (st_approvals ?s)" using foldl_end_inv [OF assms(1)] store_inv_wf by blast
  obtain b where b: "map_of (st_approvals ?s) c = Some b" "a = forget_token now b" "now < ap_deadline b"
    using assms(2) wf by (auto simp: state_sweep_def Let_def lookup_filter lookup_map split: option.splits if_splits)
  have "map_of (st_approvals (foldl state_end s keys)) c = Some b \<Longrightarrow> map_of (st_approvals s) c = Some b" for keys
    using assms(1)
  proof (induction keys arbitrary: s)
    case (Cons k keys)
    have "map_of (st_approvals (state_end s k)) c = Some b" using Cons.IH [of "state_end s k"] Cons.prems state_end_inv by simp
    then show ?case using Cons.prems(2) by (auto simp: state_end_def lookup_filter store_inv_wf split: option.splits if_splits)
  qed simp
  with b show ?thesis by auto
qed

lemma state_grants_sweep: "map_of (st_grants s) key = None \<Longrightarrow> store_inv lib s \<Longrightarrow> map_of (st_grants (state_sweep s now)) key = None"
proof -
  have "store_inv lib s \<Longrightarrow> map_of (st_grants s) key = None \<Longrightarrow> map_of (st_grants (foldl state_end s keys)) key = None" for keys
  proof (induction keys arbitrary: s)
    case (Cons k keys)
    have "map_of (st_grants (state_end s k)) key = None" using Cons.prems by (auto simp: state_end_def lookup_filter store_inv_wf)
    then show ?case using Cons.IH state_end_inv [OF Cons.prems(1), of k] by simp
  qed simp
  then show "map_of (st_grants s) key = None \<Longrightarrow> store_inv lib s \<Longrightarrow> ?thesis" by (simp add: state_sweep_def Let_def)
qed

subsection \<open>Every step keeps the invariant\<close>

lemma room_counts:
  "length (filter held (filter (\<lambda>a. \<not> approval_issued a) (map snd as))) = pending_count held as"
  by (induction as) (auto simp: pending_count_def)

lemma approvals_ok_put:
  assumes ok: "approvals_ok lib gs as" and new: "approval_ok lib gs new"
    and whole: "\<not> approval_issued new \<Longrightarrow> (\<exists>a. map_of as c = Some a \<and> \<not> approval_issued a) \<or> pending_count (\<lambda>_. True) as < MAX_APPROVALS"
    and one: "\<And>key. \<not> approval_issued new \<Longrightarrow> approval_login new = Some key \<Longrightarrow>
      (\<exists>a. map_of as c = Some a \<and> \<not> approval_issued a \<and> approval_login a = Some key) \<or>
      pending_count (\<lambda>a. approval_login a = Some key) as < MAX_LOGIN_APPROVALS"
  shows "approvals_ok lib gs (AList.update c new as)"
proof -
  have wf: "table_wf as" using ok by (simp add: approvals_ok_def)
  have count: "count_where P (AList.update c new as) \<le> N"
    if "count_where P as \<le> N" "P c new \<Longrightarrow> (\<exists>a. map_of as c = Some a \<and> P c a) \<or> count_where P as < N" for P and N :: nat
  proof (cases "P c new")
    case True
    with that(2) consider a where "map_of as c = Some a" "P c a" | "count_where P as < N" by blast
    then show ?thesis
    proof cases
      case 1
      then show ?thesis using count_update_old [OF wf 1(1), of P new] that(1) True by simp
    next
      case 2
      then show ?thesis using count_update_le [OF wf, of P c new] True by simp
    qed
  next
    case False
    then show ?thesis using count_update_le [OF wf, of P c new] that(1) by simp
  qed
  have 1: "pending_count (\<lambda>_. True) (AList.update c new as) \<le> MAX_APPROVALS"
    unfolding pending_count_def by (rule count) (use ok whole in \<open>auto simp: approvals_ok_def pending_count_def\<close>)
  have 2: "pending_count (\<lambda>a. approval_login a = Some key) (AList.update c new as) \<le> MAX_LOGIN_APPROVALS" for key
    unfolding pending_count_def by (rule count) (use ok one [of key] in \<open>auto simp: approvals_ok_def pending_count_def\<close>)
  have 3: "approval_ok lib gs a" if "map_of (AList.update c new as) d = Some a" for d a
    using that ok new by (auto simp: lookup_update approvals_ok_def split: if_splits)
  show ?thesis using wf 1 2 3 by (simp add: approvals_ok_def)
qed

lemma owned_put:
  assumes "owned_ok as log" and "stage_owner new = None" and "asked c log = Some (ap_browser new)"
  shows "owned_ok (AList.update c new as) log"
  using assms by (auto simp: owned_ok_def lookup_update)

lemma csrf_ok_le: "csrf_ok ls log \<Longrightarrow> map_of ls' \<subseteq>\<^sub>m map_of ls \<Longrightarrow> csrf_ok ls' log"
  by (auto simp: csrf_ok_def map_le_def dom_def)

lemma csrf_ok_asked [simp]: "csrf_ok ls (Asked c origin # log) \<longleftrightarrow> csrf_ok ls log"
  by (simp add: csrf_ok_def)

definition auth_inv :: "auth_lib \<Rightarrow> auth_state \<times> auth_event list \<Rightarrow> bool" where
  "auth_inv lib w \<longleftrightarrow> store_inv lib (fst w) \<and> owned_ok (st_approvals (fst w)) (snd w) \<and> csrf_ok (st_logins (fst w)) (snd w)"

lemma auth_inv_shrinks:
  "auth_inv lib (s, log) \<Longrightarrow> store_inv lib s' \<Longrightarrow> shrinks (st_approvals s) (st_approvals s') \<Longrightarrow> only_ends s s' \<Longrightarrow> auth_inv lib (s', log)"
  by (auto simp: auth_inv_def only_ends_def intro: shrinks_owned csrf_ok_le)

text \<open>A challenge that has no pending approval before a sweep has none after it.\<close>

lemma not_pending_swept:
  assumes "store_inv lib s" and "state_pending s c t\<^sub>1 = None" and "t\<^sub>1 \<le> t\<^sub>2"
  shows "map_of (st_approvals (state_sweep s t\<^sub>2)) c = None"
proof (rule ccontr)
  assume "map_of (st_approvals (state_sweep s t\<^sub>2)) c \<noteq> None"
  then obtain a where a: "map_of (st_approvals (state_sweep s t\<^sub>2)) c = Some a" by auto
  then obtain b where "map_of (st_approvals s) c = Some b" "ap_deadline b = ap_deadline a" "t\<^sub>2 < ap_deadline a"
    using state_sweep_deadline [OF assms(1)] by blast
  with assms(2,3) show False by (simp add: state_pending_def split: if_splits)
qed

lemma owned_asked: "owned_ok as log \<Longrightarrow> map_of as c = None \<Longrightarrow> owned_ok as (Asked c origin # log)"
  by (fastforce simp: owned_ok_def)

lemma owned_open:
  "owned_ok as log \<Longrightarrow> stage_owner new = None \<Longrightarrow> ap_browser new = origin \<Longrightarrow> owned_ok (AList.update c new as) (Asked c origin # log)"
  by (fastforce simp: owned_ok_def lookup_update)

lemma state_open_inv:
  assumes inv: "auth_inv lib (s, log)" and none: "map_of (st_approvals s) c = None"
    and room: "pending_count (\<lambda>_. True) (st_approvals s) < MAX_APPROVALS"
    and login: "\<And>key. login = Some key \<Longrightarrow> pending_count (\<lambda>a. approval_login a = Some key) (st_approvals s) < MAX_LOGIN_APPROVALS"
  shows "auth_inv lib (state_open trunc s c browser ks login now, Asked c browser # log)"
proof -
  define new where "new = \<lparr>ap_browser = browser, ap_clients = keys_iter trunc ks,
     ap_stage = (case login of None \<Rightarrow> StageOpen | Some login \<Rightarrow> StageClaimed login), ap_deadline = now + APPROVAL_LIFETIME\<rparr>"
  have n: "\<not> approval_issued new" "approval_login new = login" "stage_owner new = None" "approval_ok lib gs new" for gs
    by (cases login; simp add: new_def approval_issued_def approval_login_def stage_owner_def approval_ok_def)+
  have s: "st_approvals (state_open trunc s c browser ks login now) = AList.update c new (st_approvals s)"
    "st_logins (state_open trunc s c browser ks login now) = st_logins s" "st_grants (state_open trunc s c browser ks login now) = st_grants s"
    by (simp_all add: state_open_def new_def)
  have "approvals_ok lib (st_grants s) (AList.update c new (st_approvals s))"
    using inv n room login by (intro approvals_ok_put) (auto simp: auth_inv_def store_inv_def)
  moreover have "owned_ok (AList.update c new (st_approvals s)) (Asked c browser # log)"
    using inv n(3) by (intro owned_open) (auto simp: auth_inv_def new_def)
  ultimately show ?thesis using inv s by (simp add: auth_inv_def store_inv_def)
qed

lemma set_stage_inv:
  assumes inv: "auth_inv lib (s, log)" and a: "map_of (st_approvals s) c = Some a" "\<not> approval_issued a"
    and stage: "approval_login (a\<lparr>ap_stage := stage\<rparr>) = Some key" "\<not> approval_issued (a\<lparr>ap_stage := stage\<rparr>)"
    and room: "approval_login a = Some key \<or> pending_count (\<lambda>a. approval_login a = Some key) (st_approvals s) < MAX_LOGIN_APPROVALS"
    and log: "owned_ok (AList.update c (a\<lparr>ap_stage := stage\<rparr>) (st_approvals s)) log'" "csrf_ok (st_logins s) log'"
  shows "auth_inv lib (set_stage s c stage, log')"
proof -
  have "approval_ok lib (st_grants s) (a\<lparr>ap_stage := stage\<rparr>)" using stage(2) by (cases stage) (simp_all add: approval_ok_def approval_issued_def)
  then have "approvals_ok lib (st_grants s) (AList.update c (a\<lparr>ap_stage := stage\<rparr>) (st_approvals s))"
    using inv a stage room by (intro approvals_ok_put) (auto simp: auth_inv_def store_inv_def)
  then show ?thesis using inv a log by (simp add: set_stage_def auth_inv_def store_inv_def)
qed

lemma sweep_inv: "auth_inv lib (s, log) \<Longrightarrow> auth_inv lib (state_sweep s now, log)"
  using auth_inv_shrinks [OF _ _ _ only_ends_sweep] state_sweep_inv state_sweep_shrinks by (fastforce simp: auth_inv_def)

lemma sweep_asked:
  assumes "auth_inv lib (s, log)" and "state_pending s c t\<^sub>1 = None" and "t\<^sub>1 \<le> t\<^sub>2"
  shows "auth_inv lib (state_sweep s t\<^sub>2, Asked c origin # log)"
proof -
  have "auth_inv lib (state_sweep s t\<^sub>2, log)" using assms(1) by (rule sweep_inv)
  moreover have "map_of (st_approvals (state_sweep s t\<^sub>2)) c = None"
    using assms by (intro not_pending_swept [where lib = lib]) (simp_all add: auth_inv_def)
  ultimately show ?thesis by (auto simp: auth_inv_def intro: owned_asked)
qed

lemma room_total: "ro_shared (approval_room trunc s login ks) \<Longrightarrow> pending_count (\<lambda>_. True) (st_approvals s) < MAX_APPROVALS"
  unfolding approval_room_def room_counts Let_def by simp

lemma room_login: "ro_login (approval_room trunc s (Some key) ks) \<longleftrightarrow>
    pending_count (\<lambda>a. approval_login a = Some key) (st_approvals s) < MAX_LOGIN_APPROVALS"
  unfolding approval_room_def room_counts Let_def by simp

lemma browser_section_inv:
  assumes inv: "auth_inv lib (s, log)" and run: "browser_section trunc s c origin lease ks cross t\<^sub>1 t\<^sub>2 t\<^sub>3 = (p, s')" and le: "t\<^sub>1 \<le> t\<^sub>2"
  shows "auth_inv lib (s', if state_pending s c t\<^sub>1 = None then Asked c (Some origin) # log else log)" (is "auth_inv lib (s', ?log)")
proof -
  define opened where "opened = (if state_pending s c t\<^sub>1 = None
            then let s = state_sweep s t\<^sub>2
                 in if ro_shared (approval_room trunc s lease ks) then (True, state_open trunc s c (Some origin) ks None t\<^sub>3) else (False, s)
            else (True, s))"
  define s1 where "s1 = snd opened"
  have inv1: "auth_inv lib (s1, ?log)"
  proof (cases "state_pending s c t\<^sub>1 = None")
    case True
    have "map_of (st_approvals (state_sweep s t\<^sub>2)) c = None"
      using inv True le by (intro not_pending_swept [where lib = lib]) (simp_all add: auth_inv_def)
    then have "auth_inv lib (state_open trunc (state_sweep s t\<^sub>2) c (Some origin) ks None t\<^sub>3, Asked c (Some origin) # log)"
      if "ro_shared (approval_room trunc (state_sweep s t\<^sub>2) lease ks)"
      using sweep_inv [OF inv] room_total [OF that] by (intro state_open_inv) simp_all
    then show ?thesis using True sweep_asked [OF inv True le] by (simp add: s1_def opened_def Let_def)
  next
    case False
    then show ?thesis using inv by (auto simp: s1_def opened_def)
  qed
  show ?thesis
  proof (cases "fst opened")
    case False
    then have "s' = s1" using run unfolding browser_section_def Let_def opened_def [symmetric, unfolded Let_def] s1_def by simp
    then show ?thesis using inv1 by simp
  next
    case True
    define room where "room = map_option (\<lambda>login. ro_login (approval_room trunc s1 (Some login) ks)) lease"
    have run1: "(case map_of (st_approvals s1) c of
             None \<Rightarrow> (Answer RefusedLink, s1)
           | Some a \<Rightarrow>
               if ap_browser a \<noteq> Some origin \<or> approval_issued a then (Answer RefusedLink, s1)
               else case lease of
                   None \<Rightarrow> (Answer (if cross then Continuing c else RedirectSignIn c), s1)
                 | Some login \<Rightarrow>
                     (case ap_stage a of
                           StageOpen \<Rightarrow> if room = Some True
                             then (if grants_of (set_stage s1 c (StageClaimed login)) login \<ge> MAX_LOGIN_GRANTS then Answer Capacity else Render, set_stage s1 c (StageClaimed login))
                             else (Answer RefusedBusy, s1)
                         | StageClaimed l \<Rightarrow> if l \<noteq> login then (Answer RefusedLink, s1) else (if grants_of s1 login \<ge> MAX_LOGIN_GRANTS then Answer Capacity else Render, s1)
                         | StageApproved l \<Rightarrow> if l \<noteq> login then (Answer RefusedLink, s1) else (if grants_of s1 login \<ge> MAX_LOGIN_GRANTS then Answer Capacity else Render, s1)
                         | StageIssued _ \<Rightarrow> (Answer RefusedLink, s1))) = (p, s')"
      using run True unfolding browser_section_def Let_def opened_def [symmetric, unfolded Let_def] s1_def [symmetric] room_def by simp
    then consider "s' = s1"
      | a login where "map_of (st_approvals s1) c = Some a" "\<not> approval_issued a" "lease = Some login" "ap_stage a = StageOpen" "room = Some True"
          "s' = set_stage s1 c (StageClaimed login)"
      by (auto split: option.splits if_splits stage.splits)
    then show ?thesis
    proof cases
      case 1
      then show ?thesis using inv1 by simp
    next
      case 2
      have "pending_count (\<lambda>a. approval_login a = Some login) (st_approvals s1) < MAX_LOGIN_APPROVALS"
        using 2(3,5) by (simp add: room_def room_login)
      moreover have "owned_ok (AList.update c (a\<lparr>ap_stage := StageClaimed login\<rparr>) (st_approvals s1)) ?log"
        using inv1 2(1) by (intro owned_put) (simp_all add: auth_inv_def stage_owner_def owned_ok_def)
      moreover have "csrf_ok (st_logins s1) ?log" using inv1 by (simp add: auth_inv_def)
      ultimately show ?thesis
        unfolding 2(6) using inv1 2(1,2) by (intro set_stage_inv [where key = login]) (simp_all add: approval_login_def approval_issued_def)
    qed
  qed
qed

lemma cli_section_inv:
  assumes inv: "auth_inv lib (s, log)" and run: "cli_section trunc s c lease keys t\<^sub>1 t\<^sub>2 t\<^sub>3 = (p, s')" and le: "t\<^sub>1 \<le> t\<^sub>2"
  shows "auth_inv lib (s', if state_pending s c t\<^sub>1 = None \<and> lease \<noteq> None \<and> keys \<noteq> None then Asked c None # log else log)"
proof (cases "state_pending s c t\<^sub>1 = None \<and> lease \<noteq> None \<and> keys \<noteq> None")
  case False
  then have "s' = s" using run by (auto simp: cli_section_def Let_def split: option.splits if_splits)
  then show ?thesis using inv False by auto
next
  case True
  then obtain login ks where l: "lease = Some login" "keys = Some ks" by auto
  let ?s = "state_sweep s t\<^sub>2" and ?room = "approval_room trunc (state_sweep s t\<^sub>2) (Some login) ks"
  have none: "map_of (st_approvals ?s) c = None" using inv True le by (intro not_pending_swept [where lib = lib]) (simp_all add: auth_inv_def)
  have "auth_inv lib (state_open trunc ?s c None ks (Some login) t\<^sub>3, Asked c None # log)" if "ro_login ?room" "ro_shared ?room"
    using sweep_inv [OF inv] none room_total [OF that(2)] that(1) by (intro state_open_inv) (simp_all add: room_login)
  moreover have "s' = (if ro_login ?room \<and> ro_shared ?room then state_open trunc ?s c None ks (Some login) t\<^sub>3 else ?s)"
    using run True l by (auto simp: cli_section_def Let_def split: if_splits)
  ultimately show ?thesis using True sweep_asked [OF inv _ le, of c None] by simp
qed

lemma approve_section_inv:
  assumes inv: "auth_inv lib (s, log)" and run: "approve_section s c login browser now = (a, s')" and form: "Submitted c login csrf \<in> set log"
  shows "auth_inv lib (s', if a = Approved browser then ApprovedBy c login # log else log)"
proof (cases "a = Approved browser")
  case False
  then have "s' = s" using run by (auto simp: approve_section_def Let_def split: option.splits if_splits)
  then show ?thesis using inv False by simp
next
  case True
  then obtain b where b: "map_of (st_approvals s) c = Some b" "approval_login b = Some login" "\<not> approval_issued b"
    "s' = set_stage s c (StageApproved login)"
    using run by (auto simp: approve_section_def Let_def split: option.splits if_splits)
  have "owned_ok (AList.update c (b\<lparr>ap_stage := StageApproved login\<rparr>) (st_approvals s)) (ApprovedBy c login # log)"
    using inv b(1) by (auto simp: auth_inv_def owned_ok_def lookup_update stage_owner_def)
  moreover have "csrf_ok (st_logins s) (ApprovedBy c login # log)" using inv form by (auto simp: auth_inv_def csrf_ok_def)
  ultimately show ?thesis
    unfolding b(4) using inv b(1-3) True
    by (simp add: set_stage_inv [where key = login] approval_login_def approval_issued_def)
qed

lemma issue_section_inv:
  assumes inv: "auth_inv lib (s, log)" and run: "issue_section lib s c origin token ident now t\<^sub>1 t\<^sub>2 t\<^sub>3 = (ans, s')"
    and fresh: "map_of (st_grants s) (sha256 lib token) = None"
  shows "auth_inv lib (s', log) \<and> (\<forall>tok e. ans = Token tok e \<longrightarrow>
    (\<exists>login g. approver c log = Some login \<and> asked c log = Some origin \<and>
      map_of (st_grants s') (sha256 lib tok) = Some g \<and> gr_login g = login \<and> gr_browser g = origin \<and>
      (tok = token \<longrightarrow> (\<exists>a. map_of (st_approvals s') c = Some a \<and> ap_browser a = origin \<and> now + REPLAY \<le> ap_deadline a \<and>
        ap_stage a = StageIssued \<lparr>is_login = login, is_grant = sha256 lib token, is_token = Some token, is_replay_until = now + REPLAY\<rparr>))))"
proof -
  let ?s = "state_sweep s now"
  have inv1: "auth_inv lib (?s, log)" using inv by (rule sweep_inv)
  have store: "store_inv lib ?s" and own: "owned_ok (st_approvals ?s) log" and cs: "csrf_ok (st_logins ?s) log" using inv1 by (simp_all add: auth_inv_def)
  have fresh1: "map_of (st_grants ?s) (sha256 lib token) = None"
    using fresh inv by (intro state_grants_sweep [where lib = lib]) (simp_all add: auth_inv_def)
  have stays: ?thesis if "s' = ?s" "\<forall>tok e. ans \<noteq> Token tok e" using that inv1 by simp
  consider (none) "s' = ?s" "ans \<in> {Pending, TooMany}"
    | (some) a login l where "state_pending ?s c t\<^sub>1 = Some a" "ap_browser a = origin" "approval_login a = Some login"
        "state_login ?s login t\<^sub>2 = Some l" "(\<exists>i. ap_stage a = StageIssued i) \<or> (\<exists>k. ap_stage a = StageApproved k)"
  proof (cases "case state_pending ?s c t\<^sub>1 of None \<Rightarrow> None | Some a \<Rightarrow> if ap_browser a = origin then Some a else None")
    case None
    then show thesis using run none by (simp add: issue_section_def Let_def)
  next
    case (Some a)
    then have p: "state_pending ?s c t\<^sub>1 = Some a" "ap_browser a = origin" by (auto split: option.splits if_splits)
    show thesis
    proof (cases "approval_login a")
      case none': None
      then show thesis using run none Some by (simp add: issue_section_def Let_def)
    next
      case login: (Some login)
      show thesis
      proof (cases "state_login ?s login t\<^sub>2")
        case none': None
        then show thesis using run none Some login by (simp add: issue_section_def Let_def)
      next
        case l: (Some l)
        show thesis
        proof (cases "ap_stage a")
          case StageOpen
          then show thesis using login by (simp add: approval_login_def)
        next
          case (StageClaimed k)
          then show thesis using run none Some login l by (simp add: issue_section_def Let_def split: if_splits)
        next
          case (StageApproved k)
          then show thesis using some p login l by blast
        next
          case (StageIssued i)
          then show thesis using some p login l by blast
        qed
      qed
    qed
  qed
  then show ?thesis
  proof cases
    case none
    then show ?thesis using stays by auto
  next
    case (some a login l)
    note p = some(1-4) and st = some(5)
    have a: "map_of (st_approvals ?s) c = Some a" using p(1) by (auto simp: state_pending_def split: option.splits if_splits)
    have "stage_owner a = Some login" using st p(3) by (auto simp: stage_owner_def approval_login_def)
    then have ap: "approver c log = Some login" "asked c log = Some origin" using own a p(2) by (auto simp: owned_ok_def)
    from st show ?thesis
    proof
      assume "\<exists>i. ap_stage a = StageIssued i"
      then obtain i where i: "ap_stage a = StageIssued i" ..
      then have l: "is_login i = login" using p(3) by (simp add: approval_login_def)
      have s': "s' = ?s" "ans = (case is_token i of Some token \<Rightarrow> Token token (lo_expires l) | None \<Rightarrow> Gone)"
        using run p i by (simp_all add: issue_section_def Let_def split: option.splits)
      have "approval_ok lib (st_grants ?s) a" using store a by (auto simp: store_inv_def approvals_ok_def)
      then obtain g where "map_of (st_grants ?s) (is_grant i) = Some g" "gr_login g = login" "gr_browser g = origin"
        "\<forall>token. is_token i = Some token \<longrightarrow> is_grant i = sha256 lib token"
        using i l p(2) by (auto simp: approval_ok_def)
      then show ?thesis using s' inv1 ap fresh1 by (auto split: option.splits)
    next
      assume "\<exists>k. ap_stage a = StageApproved k"
      then obtain k where k: "ap_stage a = StageApproved k" ..
      obtain r s2 where gr: "state_grant lib ?s login origin token ident t\<^sub>3 = (r, s2)" by (metis prod.exhaust)
      note G = state_grant_inv [OF store gr fresh1]
      show ?thesis
      proof (cases r)
        case (Inl e)
        then have "s' = s2 \<and> (\<forall>tok e. ans \<noteq> Token tok e)"
          using run p k gr by (cases e) (auto simp: issue_section_def Let_def)
        moreover have "st_approvals s2 = st_approvals ?s" using G(4) Inl by blast
        ultimately show ?thesis using G(1) own csrf_ok_le [OF cs] only_ends_grant [OF gr] by (simp add: auth_inv_def only_ends_def)
      next
        case (Inr tok)
        obtain g where g: "tok = token" "map_of (st_grants s2) (sha256 lib token) = Some g" "gr_login g = login" "gr_browser g = origin"
          using G(3) Inr by blast
        obtain P where P: "st_approvals s2 = filter P (st_approvals ?s)" "\<forall>c a. \<not> approval_issued a \<longrightarrow> P (c, a)" using G(5) by blast
        have wf: "table_wf (st_approvals ?s)" using store store_inv_wf by blast
        have a2: "map_of (st_approvals s2) c = Some a" using a P k wf by (simp add: lookup_filter approval_issued_def)
        define new where "new = a\<lparr>ap_deadline := max (ap_deadline a) (now + REPLAY),
            ap_stage := StageIssued \<lparr>is_login = login, is_grant = sha256 lib token, is_token = Some token, is_replay_until = now + REPLAY\<rparr>\<rparr>"
        have s': "ans = Token token (lo_expires l)" "s' = s2\<lparr>st_approvals := AList.update c new (st_approvals s2)\<rparr>"
          using run p k gr Inr g(1) a2 by (simp_all add: issue_section_def Let_def new_def)
        have "approval_ok lib (st_grants s2) new" using g p(2) by (simp add: approval_ok_def new_def)
        then have "approvals_ok lib (st_grants s2) (AList.update c new (st_approvals s2))"
          using G(1) by (intro approvals_ok_put) (simp_all add: store_inv_def new_def approval_issued_def)
        moreover have "owned_ok (st_approvals s2) log" unfolding P(1) by (rule shrinks_owned [OF shrinks_filter [OF wf] own])
        then have "owned_ok (AList.update c new (st_approvals s2)) log" using ap p(2)
          by (simp add: owned_ok_def lookup_update new_def stage_owner_def)
        moreover have "map_of (AList.update c new (st_approvals s2)) c = Some new" "ap_browser new = origin" "now + REPLAY \<le> ap_deadline new"
          "ap_stage new = StageIssued \<lparr>is_login = login, is_grant = sha256 lib token, is_token = Some token, is_replay_until = now + REPLAY\<rparr>"
          using p(2) by (simp_all add: new_def lookup_update)
        moreover have "csrf_ok (st_logins s2) log" using csrf_ok_le [OF cs] only_ends_grant [OF gr] by (simp add: only_ends_def)
        ultimately show ?thesis using G(1) s' ap g by (auto simp: auth_inv_def store_inv_def)
      qed
    qed
  qed
qed

lemma auth_step_inv:
  assumes "auth_step lib trunc w w'" and "auth_inv lib w"
  shows "auth_inv lib w'"
  using assms
proof (cases rule: auth_step.cases)
  case (sign_in s token who csrf ident now wall r s' log)
  have inv: "store_inv lib s" using sign_in assms(2) by (simp add: auth_inv_def)
  have "shrinks (st_approvals s) (st_approvals s')"
    using sign_in(4) state_sweep_shrinks [OF inv, of now] state_end_shrinks [OF state_sweep_inv [OF inv, of now]]
    by (auto simp: store_sign_in_def Let_def intro: shrinks_trans split: if_splits)
  then have "owned_ok (st_approvals s') log" using sign_in(1) assms(2) by (auto simp: auth_inv_def intro: shrinks_owned)
  moreover have "csrf_ok (st_logins s') (case r of None \<Rightarrow> log | Some new \<Rightarrow> SignedIn (nl_key new) (nl_csrf new) # log)"
    using sign_in_ends [OF sign_in(4)] sign_in(1) assms(2)
    by (cases r) (fastforce simp: auth_inv_def csrf_ok_def only_ends_def map_le_def dom_def lookup_update split: if_splits)+
  ultimately show ?thesis using sign_in store_sign_in_inv [OF inv sign_in(4)] by (cases r) (auto simp: auth_inv_def owned_ok_def)
next
  case (sign_out s key every now ok s' log)
  have inv: "store_inv lib s" using sign_out assms(2) by (simp add: auth_inv_def)
  have "shrinks (st_approvals s) (st_approvals s')"
    using sign_out(3) foldl_end_shrinks [OF inv] state_end_shrinks [OF inv] by (auto simp: store_sign_out_def split: option.splits)
  moreover have "only_ends s s'" using sign_out(3) by (auto simp: store_sign_out_def intro: only_ends_foldl only_ends_end split: option.splits)
  ultimately show ?thesis using sign_out assms(2) store_sign_out_inv [OF inv sign_out(3)] by (auto intro: auth_inv_shrinks)
next
  case (cookie s token now lease s' log)
  have inv: "store_inv lib s" using cookie assms(2) by (simp add: auth_inv_def)
  have "shrinks (st_approvals s) (st_approvals s')"
    using cookie(3) state_end_shrinks [OF inv] by (auto simp: store_cookie_def Let_def split: option.splits if_splits)
  moreover have "only_ends s s'" using cookie(3) by (auto simp: store_cookie_def Let_def intro: only_ends_end split: option.splits if_splits)
  ultimately show ?thesis using cookie assms(2) store_cookie_inv [OF inv cookie(3)] by (auto intro: auth_inv_shrinks)
next
  case (grant s token login browser ident now g s' log)
  have inv: "store_inv lib s" using grant assms(2) by (simp add: auth_inv_def)
  note G = state_grant_inv [OF inv grant(4,3)]
  obtain P where "st_approvals s' = filter P (st_approvals s)" using G(5) by blast
  then have "shrinks (st_approvals s) (st_approvals s')" using inv by (simp add: shrinks_filter store_inv_wf)
  then show ?thesis using grant assms(2) G(1) only_ends_grant [OF grant(4)] by (auto intro: auth_inv_shrinks)
next
  case (submit s lease csrf field now login c log)
  have "store_csrf s login csrf now" using submit(3) by (auto simp: approve_check_def split: option.splits if_splits)
  then show ?thesis using submit assms(2)
    by (auto simp: auth_inv_def owned_ok_def csrf_ok_def store_csrf_def state_login_def split: option.splits if_splits)
next
  case (cli t\<^sub>1 t\<^sub>2 s c lease keys t\<^sub>3 p s' log)
  then show ?thesis using assms(2) cli_section_inv [of lib s log trunc c lease keys t\<^sub>1 t\<^sub>2 t\<^sub>3 p s'] by simp
next
  case (browser t\<^sub>1 t\<^sub>2 s c origin lease ks cross t\<^sub>3 p s' log)
  then show ?thesis using assms(2) browser_section_inv [of lib s log trunc c origin lease ks cross t\<^sub>1 t\<^sub>2 t\<^sub>3 p s'] by simp
next
  case (approve c login csrf log s browser now a s')
  then show ?thesis using assms(2) approve_section_inv [of lib s log c login browser now a s' csrf] by simp
next
  case (issue s token c origin ident now t\<^sub>1 t\<^sub>2 t\<^sub>3 a s' log)
  then show ?thesis using assms(2) issue_section_inv [of lib s log c origin token ident now t\<^sub>1 t\<^sub>2 t\<^sub>3 a s'] by simp
qed

lemma auth_inv_reachable: "(auth_step lib trunc)\<^sup>*\<^sup>* (auth_state_default, []) w \<Longrightarrow> auth_inv lib w"
proof (induction rule: rtranclp_induct)
  case base
  then show ?case by (simp add: auth_inv_def store_inv_default owned_ok_def csrf_ok_def) (simp add: auth_state_default_def)
next
  case (step w w')
  then show ?case by (blast intro: auth_step_inv)
qed

text \<open>An approval of a live login outlasts a sweep before its deadline.\<close>

lemma foldl_end_keeps:
  assumes "store_inv lib s" and "map_of (st_approvals s) c = Some a" and "\<forall>key. approval_login a = Some key \<longrightarrow> key \<notin> set keys"
  shows "map_of (st_approvals (foldl state_end s keys)) c = Some a"
  using assms
proof (induction keys arbitrary: s)
  case (Cons k keys)
  have "map_of (st_approvals (state_end s k)) c = Some a"
    using Cons.prems store_inv_wf [OF Cons.prems(1)] by (auto simp: state_end_def lookup_filter split: option.split)
  then show ?case using Cons.IH [OF state_end_inv [OF Cons.prems(1), of k]] Cons.prems(3) by simp
qed simp

lemma state_sweep_keeps:
  assumes inv: "store_inv lib s" and a: "map_of (st_approvals s) c = Some a" "now < ap_deadline a" "approval_login a = Some login"
    and l: "map_of (st_logins s) login = Some l" "now < lo_deadline l"
  shows "map_of (st_approvals (state_sweep s now)) c = Some (forget_token now a)"
proof -
  let ?keys = "map fst (filter (\<lambda>(_, login). now \<ge> lo_deadline login) (st_logins s))"
  have wf: "table_wf (st_logins s)" using inv store_inv_wf by blast
  have "login \<notin> set ?keys" using l in_table [OF wf, of login] by fastforce
  then have "map_of (st_approvals (foldl state_end s ?keys)) c = Some a"
    using a by (intro foldl_end_keeps [OF inv]) simp_all
  moreover have "table_wf (st_approvals (foldl state_end s ?keys))" using foldl_end_inv [OF inv] store_inv_wf by blast
  ultimately show ?thesis using a(2) by (simp add: state_sweep_def Let_def lookup_filter lookup_map)
qed

subsection \<open>Properties\<close>

text \<open>
  C15. Whatever requests sign in, sign out, ask, approve and exchange, in any order of their sections, the store stays within
  its bounds: logins in all and of one principal, grants of one login, pending approvals in all and of one login; every
  grant belongs to a login that has not ended, and every issued approval to a grant that is still there.
\<close>

theorem auth_store_bounded:
  assumes "(auth_step lib trunc)\<^sup>*\<^sup>* (auth_state_default, []) (s, log)"
  shows "length (st_logins s) \<le> MAX_LOGINS \<and> length (state_held s who) \<le> MAX_PRINCIPAL_LOGINS \<and> grants_of s key \<le> MAX_LOGIN_GRANTS \<and>
    length (filter (\<lambda>a. \<not> approval_issued a) (map snd (st_approvals s))) \<le> MAX_APPROVALS \<and>
    length (filter (\<lambda>a. \<not> approval_issued a \<and> approval_login a = Some key) (map snd (st_approvals s))) \<le> MAX_LOGIN_APPROVALS \<and>
    (\<forall>d g. map_of (st_grants s) d = Some g \<longrightarrow> map_of (st_logins s) (gr_login g) \<noteq> None) \<and>
    (\<forall>c a i. map_of (st_approvals s) c = Some a \<longrightarrow> ap_stage a = StageIssued i \<longrightarrow> map_of (st_grants s) (is_grant i) \<noteq> None)"
proof -
  have inv: "store_inv lib s" using auth_inv_reachable [OF assms] by (simp add: auth_inv_def)
  have count: "length (filter Q (map snd t)) = count_where (\<lambda>_ v. Q v) t" for Q :: "'v \<Rightarrow> bool" and t :: "('k \<times> 'v) list"
    by (induction t) auto
  have "\<forall>c a i. map_of (st_approvals s) c = Some a \<longrightarrow> ap_stage a = StageIssued i \<longrightarrow> map_of (st_grants s) (is_grant i) \<noteq> None"
    using inv by (fastforce simp: store_inv_def approvals_ok_def approval_ok_def)
  then show ?thesis
    using inv unfolding length_held grants_of_def count
    by (simp add: store_inv_def logins_ok_def grants_ok_def approvals_ok_def pending_count_def)
qed

definition plain_auth :: auth_lib where
  "plain_auth = \<lparr>sha256 = id, b64_encode = id, b64_decode = (\<lambda>n text. if length text = n then Some text else None)\<rparr>"

definition sample_identity :: identity where
  "sample_identity = \<lparr>id_principal = ''local-operator'', id_name = [], id_provider = []\<rparr>"

lemma sample_sign_in:
  obtains s where "auth_step plain_auth trunc (auth_state_default, []) (s, [SignedIn [7] [9]])"
    "st_logins s = [([7], \<lparr>lo_id = [1], lo_principal = ''local-operator'', lo_name = [], lo_provider = [], lo_csrf = [9], lo_sequence = 1,
       lo_deadline = LOGIN_LIFETIME, lo_expires = LOGIN_LIFETIME, lo_revoked = Root 0\<rparr>)]"
    "st_grants s = []" "st_approvals s = []" "st_tokens s = 1" "st_sequence s = 1" "st_cancelled s = []"
proof -
  obtain r s where run: "store_sign_in plain_auth auth_state_default sample_identity [7] [9] [1] 0 0 = (r, s)" by (metis prod.exhaust)
  have r: "r = Some \<lparr>nl_key = [7], nl_token = [7], nl_csrf = [9], nl_expires = LOGIN_LIFETIME\<rparr>"
    using run by (auto simp: store_sign_in_def state_sweep_def state_held_def auth_state_default_def sample_identity_def
        plain_auth_def Let_def MAX_PRINCIPAL_LOGINS_def MAX_LOGINS_def)
  have "auth_step plain_auth trunc (auth_state_default, []) (s, [SignedIn [7] [9]])"
    using auth_step.sign_in [OF _ run, of trunc "[]"] r by (simp add: auth_state_default_def)
  moreover have "s = \<lparr>st_logins = [([7], \<lparr>lo_id = [1], lo_principal = ''local-operator'', lo_name = [], lo_provider = [], lo_csrf = [9], lo_sequence = 1,
       lo_deadline = LOGIN_LIFETIME, lo_expires = LOGIN_LIFETIME, lo_revoked = Root 0\<rparr>)],
     st_grants = [], st_approvals = [], st_sequence = 1, st_tokens = 1, st_cancelled = []\<rparr>"
    using run by (simp add: store_sign_in_def state_sweep_def state_held_def auth_state_default_def sample_identity_def
        plain_auth_def Let_def MAX_PRINCIPAL_LOGINS_def MAX_LOGINS_def)
  ultimately show thesis using that by simp
qed

theorem auth_store_bounded_witness:
  "\<exists>s log. (auth_step plain_auth (\<lambda>ip _. ip))\<^sup>*\<^sup>* (auth_state_default, []) (s, log) \<and> length (st_logins s) = 1 \<and>
     length (state_held s ''local-operator'') \<le> 8 \<and> grants_of s [7] \<le> MAX_LOGIN_GRANTS"
proof -
  obtain s where step: "auth_step plain_auth (\<lambda>ip _. ip) (auth_state_default, []) (s, [SignedIn [7] [9]])" and "length (st_logins s) = 1"
    by (rule sample_sign_in [of "\<lambda>ip _. ip"]) simp
  note r = r_into_rtranclp [of "auth_step plain_auth (\<lambda>ip _. ip)", OF step]
  show ?thesis using r \<open>length (st_logins s) = 1\<close> auth_store_bounded [OF r, of "''local-operator''" "[7]"]
    by (intro exI [of _ s] exI [of _ "[SignedIn [7] [9]]"]) (simp add: MAX_PRINCIPAL_LOGINS_def)
qed

text \<open>
  C1. A token is handed out only for a verifier whose challenge a login approved since the challenge was last asked for,
  after that login had submitted, for this challenge, the very CSRF token it was made with; the token's grant belongs to that
  login, and it serves the origin the approval was last asked for, which is that of the exchange (none for a terminal).
\<close>

theorem token_needs_approval:
  assumes "(auth_step lib trunc)\<^sup>*\<^sup>* (auth_state_default, []) (s, log)" and "map_of (st_grants s) (sha256 lib token) = None"
    and "token_exchange lib s verifier origin browser token ident now t\<^sub>1 t\<^sub>2 t\<^sub>3 = (Token tok e, s')"
  shows "\<exists>v c login g since between before csrf. verifier = Some v \<and> challenge_of lib v = Some c \<and>
    log = since @ ApprovedBy c login # between @ Submitted c login csrf # before \<and>
    (\<forall>origin. Asked c origin \<notin> set since) \<and> drawn login before = Some csrf \<and>
    map_of (st_grants s') (sha256 lib tok) = Some g \<and> gr_login g = login \<and>
    asked c log = Some (gr_browser g) \<and> gr_browser g = (if browser then origin else None)"
proof -
  have inv: "auth_inv lib (s, log)" by (rule auth_inv_reachable [OF assms(1)])
  obtain v where v: "verifier = Some v" "issue_grant lib s v (if browser then origin else None) token ident now t\<^sub>1 t\<^sub>2 t\<^sub>3 = (Token tok e, s')"
    using assms(3) by (auto simp: token_exchange_def Let_def split: option.splits if_splits)
  then obtain c where c: "challenge_of lib v = Some c" "issue_section lib s c (if browser then origin else None) token ident now t\<^sub>1 t\<^sub>2 t\<^sub>3 = (Token tok e, s')"
    by (auto simp: issue_grant_def split: option.splits)
  obtain login g where g: "approver c log = Some login" "asked c log = Some (if browser then origin else None)"
    "map_of (st_grants s') (sha256 lib tok) = Some g" "gr_login g = login" "gr_browser g = (if browser then origin else None)"
    using issue_section_inv [OF inv c(2) assms(2)] by blast
  have "log_ok log" using inv by (simp add: auth_inv_def csrf_ok_def)
  with approver_proved [OF _ g(1)] obtain since between before csrf where
    "log = since @ ApprovedBy c login # between @ Submitted c login csrf # before" "\<forall>origin. Asked c origin \<notin> set since" "drawn login before = Some csrf"
    by blast
  with v(1) c(1) g show ?thesis by (intro exI conjI) auto
qed

text \<open>A browser's challenge for the origin \<open>[79]\<close>, approved by the login of the sample.\<close>

lemma sample_approved:
  obtains s log c where "(auth_step plain_auth trunc)\<^sup>*\<^sup>* (auth_state_default, []) (s, log)" "challenge_of plain_auth (replicate 32 0) = Some c"
    "log = [ApprovedBy c [7], Submitted c [7] [9], Asked c (Some [79]), SignedIn [7] [9]]"
    "st_approvals s = [(c, \<lparr>ap_browser = Some [79], ap_clients = [], ap_stage = StageApproved [7], ap_deadline = 1 + APPROVAL_LIFETIME\<rparr>)]"
    "st_logins s = [([7], \<lparr>lo_id = [1], lo_principal = ''local-operator'', lo_name = [], lo_provider = [], lo_csrf = [9], lo_sequence = 1,
       lo_deadline = LOGIN_LIFETIME, lo_expires = LOGIN_LIFETIME, lo_revoked = Root 0\<rparr>)]" "st_grants s = []"
proof -
  obtain s where step: "auth_step plain_auth trunc (auth_state_default, []) (s, [SignedIn [7] [9]])"
    and s: "st_logins s = [([7], \<lparr>lo_id = [1], lo_principal = ''local-operator'', lo_name = [], lo_provider = [], lo_csrf = [9], lo_sequence = 1,
       lo_deadline = LOGIN_LIFETIME, lo_expires = LOGIN_LIFETIME, lo_revoked = Root 0\<rparr>)]"
      "st_grants s = []" "st_approvals s = []" by (rule sample_sign_in [of trunc]) blast
  have "challenge_of plain_auth (replicate 32 0) \<noteq> None"
    by (simp add: challenge_of_def challenge_parse_def verification_code_def approval_challenge_def plain_auth_def Let_def)
  then obtain c where c: "challenge_of plain_auth (replicate 32 0) = Some c" by auto
  then have parse: "challenge_parse plain_auth (replicate 32 0) = Some c"
    by (simp add: challenge_of_def approval_challenge_def plain_auth_def)
  let ?a = "\<lparr>ap_browser = Some [79], ap_clients = [], ap_stage = StageClaimed [7], ap_deadline = 1 + APPROVAL_LIFETIME\<rparr>"
  let ?s1 = "s\<lparr>st_approvals := [(c, ?a)]\<rparr>" and ?s2 = "s\<lparr>st_approvals := [(c, ?a\<lparr>ap_stage := StageApproved [7]\<rparr>)]\<rparr>"
  have sw: "state_sweep s (Suc 0) = s" by (simp add: state_sweep_def s LOGIN_LIFETIME_def)
  have "browser_section trunc s c [79] (Some [7]) Exempt False 1 1 1 = (Render, ?s1)"
    by (simp add: browser_section_def state_pending_def s sw Let_def approval_room_def share_full_def keys_shares_def keys_iter_def
        approval_login_def approval_issued_def set_stage_def grants_of_def MAX_APPROVALS_def MAX_LOGIN_APPROVALS_def MAX_LOGIN_GRANTS_def state_open_def)
  from auth_step.browser [OF _ this, of plain_auth "[SignedIn [7] [9]]"]
  have 1: "auth_step plain_auth trunc (s, [SignedIn [7] [9]]) (?s1, [Asked c (Some [79]), SignedIn [7] [9]])"
    by (simp add: state_pending_def s)
  define lease where "lease = login_lease (snd (hd (st_logins s))) [7] (HolderLogin [1]) Cookie (Root 0)"
  have "approve_check plain_auth ?s1 (Some lease) (Some ([9], replicate 32 0)) 2 = Inr ([7], c)"
    unfolding approve_check_def by (simp add: parse store_csrf_def state_login_def s LOGIN_LIFETIME_def lease_def login_lease_def)
  from auth_step.submit [OF this, of trunc "[Asked c (Some [79]), SignedIn [7] [9]]"]
  have 2: "auth_step plain_auth trunc (?s1, [Asked c (Some [79]), SignedIn [7] [9]]) (?s1, [Submitted c [7] [9], Asked c (Some [79]), SignedIn [7] [9]])" .
  have "approve_section ?s1 c [7] True 2 = (Approved True, ?s2)"
    by (simp add: approve_section_def set_stage_def approval_login_def approval_issued_def APPROVAL_LIFETIME_def grants_of_def s MAX_LOGIN_GRANTS_def)
  from auth_step.approve [OF _ this, of "[9]" "[Submitted c [7] [9], Asked c (Some [79]), SignedIn [7] [9]]" plain_auth trunc]
  have 3: "auth_step plain_auth trunc (?s1, [Submitted c [7] [9], Asked c (Some [79]), SignedIn [7] [9]])
    (?s2, [ApprovedBy c [7], Submitted c [7] [9], Asked c (Some [79]), SignedIn [7] [9]])" by simp
  have "(auth_step plain_auth trunc)\<^sup>*\<^sup>* (auth_state_default, []) (?s2, [ApprovedBy c [7], Submitted c [7] [9], Asked c (Some [79]), SignedIn [7] [9]])"
    using step 1 2 3 by (meson converse_rtranclp_into_rtranclp rtranclp.rtrancl_refl)
  then show thesis using c s by (intro that [of ?s2 _ c]) simp_all
qed

theorem token_needs_approval_witness:
  "\<exists>s log s' c. (auth_step plain_auth (\<lambda>ip _. ip))\<^sup>*\<^sup>* (auth_state_default, []) (s, log) \<and>
     token_exchange plain_auth s (Some (replicate 32 0)) (Some [79]) True [5] [6] 3 3 3 3 = (Token [5] LOGIN_LIFETIME, s') \<and>
     Submitted c [7] [9] \<in> set log \<and> asked c log = Some (Some [79]) \<and> map_of (st_grants s') [5] \<noteq> None"
proof -
  obtain s log c where r: "(auth_step plain_auth (\<lambda>ip _. ip))\<^sup>*\<^sup>* (auth_state_default, []) (s, log)" and c: "challenge_of plain_auth (replicate 32 0) = Some c"
    and log: "log = [ApprovedBy c [7], Submitted c [7] [9], Asked c (Some [79]), SignedIn [7] [9]]"
    and s: "st_approvals s = [(c, \<lparr>ap_browser = Some [79], ap_clients = [], ap_stage = StageApproved [7], ap_deadline = 1 + APPROVAL_LIFETIME\<rparr>)]"
      "st_logins s = [([7], \<lparr>lo_id = [1], lo_principal = ''local-operator'', lo_name = [], lo_provider = [], lo_csrf = [9], lo_sequence = 1,
         lo_deadline = LOGIN_LIFETIME, lo_expires = LOGIN_LIFETIME, lo_revoked = Root 0\<rparr>)]" "st_grants s = []"
    by (rule sample_approved)
  have sw: "state_sweep s 3 = s" using s by (simp add: state_sweep_def forget_token_def LOGIN_LIFETIME_def APPROVAL_LIFETIME_def)
  obtain s' where x: "token_exchange plain_auth s (Some (replicate 32 0)) (Some [79]) True [5] [6] 3 3 3 3 = (Token [5] LOGIN_LIFETIME, s')"
    by (simp add: token_exchange_def issue_grant_def c issue_section_def sw s state_pending_def approval_login_def state_login_def state_grant_def
        Let_def LOGIN_LIFETIME_def APPROVAL_LIFETIME_def MAX_VERIFIER_def MIN_BROWSER_VERIFIER_def MAX_LOGIN_GRANTS_def)
  have "map_of (st_grants s) (sha256 plain_auth [5]) = None" by (simp add: s)
  from token_needs_approval [OF r this x] have "map_of (st_grants s') [5] \<noteq> None" by (auto simp: plain_auth_def)
  with r x log show ?thesis by (intro exI [of _ s] exI [of _ log] exI [of _ s'] exI [of _ c]) simp
qed

lemma foldl_end_gone: "map_of (st_logins s) key = None \<or> key \<in> set keys \<Longrightarrow> map_of (st_logins (foldl state_end s keys)) key = None"
proof (induction keys arbitrary: s)
  case (Cons k keys)
  then have "map_of (st_logins (state_end s k)) key = None \<or> key \<in> set keys" by (auto simp: state_end_def lookup_delete)
  then show ?case using Cons.IH by simp
qed simp

lemma foldl_end_cancels:
  "map_of (st_logins s) key = Some l \<Longrightarrow> key \<in> set keys \<Longrightarrow> lo_revoked l \<in> set (st_cancelled (foldl state_end s keys))"
proof (induction keys arbitrary: s)
  case (Cons k keys)
  show ?case
  proof (cases "k = key")
    case True
    then have "lo_revoked l \<in> set (st_cancelled (state_end s k))" using Cons.prems(1) by (simp add: state_end_def)
    then show ?thesis using only_ends_foldl [of "state_end s k" keys] by (auto simp: only_ends_def)
  next
    case False
    then show ?thesis using Cons.prems Cons.IH [of "state_end s k"] by (simp add: state_end_def lookup_delete)
  qed
qed simp

text \<open>
  C28. Signing out ends a login for good, and with \<open>every\<close> all the logins of its principal: in every state any requests
  lead to from there, as long as no sign-in draws the same session token again, no session cookie and no bearer token is
  accepted for it, and the token its lanes watch stays cancelled.
\<close>

theorem sign_out_revokes:
  assumes "(auth_step lib trunc)\<^sup>*\<^sup>* (auth_state_default, []) (s, log)" and "store_sign_out s key every now = (True, s')"
    and "(auth_step lib trunc)\<^sup>*\<^sup>* (s', log) (s'', later @ log)"
    and "k = key \<or> every \<and> (\<exists>l l'. map_of (st_logins s) key = Some l \<and> map_of (st_logins s) k = Some l' \<and> lo_principal l' = lo_principal l)"
    and "\<forall>csrf. SignedIn k csrf \<notin> set later"
  shows "(\<forall>token t lease. fst (store_cookie lib s'' token t) = Some lease \<longrightarrow> ll_login lease \<noteq> k) \<and>
    (\<forall>is_cancelled token t lease. store_bearer lib is_cancelled s'' token t = Some lease \<longrightarrow> ll_login lease \<noteq> k) \<and>
    (\<exists>l. map_of (st_logins s) k = Some l \<and> lo_revoked l \<in> set (st_cancelled s''))"
proof -
  obtain l where l: "state_login s key now = Some l" using assms(2) by (auto simp: store_sign_out_def split: option.splits)
  define keys where keys: "keys = (if every then state_held s (lo_principal l) else [key])"
  have s': "s' = foldl state_end s keys" using assms(2) l by (simp add: store_sign_out_def keys)
  have key: "map_of (st_logins s) key = Some l" using l by (auto simp: state_login_def split: option.splits if_splits)
  obtain l' where l': "map_of (st_logins s) k = Some l'" "k = key \<or> every \<and> lo_principal l' = lo_principal l"
    using assms(4) key by auto
  then have k: "k \<in> set keys" using key map_of_SomeD [OF l'(1)] unfolding keys by (cases every) (auto simp: in_held)
  have ended: "map_of (st_logins s') k = None" unfolding s' by (rule foldl_end_gone) (simp add: k)
  obtain new where new: "later @ log = new @ log" "set (st_cancelled s') \<subseteq> set (st_cancelled s'')"
    "\<forall>key l. map_of (st_logins s'') key = Some l \<longrightarrow> map_of (st_logins s') key = Some l \<or> (\<exists>csrf. SignedIn key csrf \<in> set new)"
    using auth_run_logins [OF assms(3)] unfolding fst_conv snd_conv by (elim exE conjE)
  have "new = later" using new(1) by simp
  then have gone: "map_of (st_logins s'') k = None" using new(3) [rule_format, of k] ended assms(5) by (cases "map_of (st_logins s'') k") simp_all
  have "fst (store_cookie lib s'' token t) \<noteq> Some lease \<or> ll_login lease \<noteq> k" for token t lease
    using gone by (auto simp: store_cookie_def Let_def login_lease_def split: option.splits)
  moreover have "store_bearer lib is_cancelled s'' token t = Some lease \<Longrightarrow> ll_login lease \<noteq> k" for is_cancelled token t lease
    using gone by (auto simp: store_bearer_def state_login_def login_lease_def split: option.splits if_splits)
  moreover have "lo_revoked l' \<in> set (st_cancelled s'')" using foldl_end_cancels [OF l'(1) k] s' new(2) by blast
  ultimately show ?thesis using l'(1) by blast
qed

theorem sign_out_revokes_witness:
  "\<exists>s log s' s'' later. (auth_step plain_auth (\<lambda>ip _. ip))\<^sup>*\<^sup>* (auth_state_default, []) (s, log) \<and>
     fst (store_cookie plain_auth s [7] 5) \<noteq> None \<and> store_sign_out s [7] True 5 = (True, s') \<and>
     (auth_step plain_auth (\<lambda>ip _. ip))\<^sup>*\<^sup>* (s', log) (s'', later @ log) \<and> later = [SignedIn [8] [9]] \<and>
     fst (store_cookie plain_auth s'' [8] 6) \<noteq> None \<and> fst (store_cookie plain_auth s'' [7] 6) = None \<and> Root 0 \<in> set (st_cancelled s'')"
proof -
  obtain s where step: "auth_step plain_auth (\<lambda>ip _. ip) (auth_state_default, []) (s, [SignedIn [7] [9]])"
    and ls: "st_logins s = [([7], \<lparr>lo_id = [1], lo_principal = ''local-operator'', lo_name = [], lo_provider = [], lo_csrf = [9], lo_sequence = 1,
       lo_deadline = LOGIN_LIFETIME, lo_expires = LOGIN_LIFETIME, lo_revoked = Root 0\<rparr>)]" "st_grants s = []" "st_approvals s = []"
    by (rule sample_sign_in [of "\<lambda>ip _. ip"]) blast
  obtain s' where out: "store_sign_out s [7] True 5 = (True, s')" "st_logins s' = []" "st_grants s' = []" "st_approvals s' = []"
    by (simp add: store_sign_out_def state_login_def state_held_def state_end_def ls LOGIN_LIFETIME_def)
  obtain r s'' where run: "store_sign_in plain_auth s' sample_identity [8] [9] [1] 6 0 = (r, s'')" by (metis prod.exhaust)
  have r: "r = Some \<lparr>nl_key = [8], nl_token = [8], nl_csrf = [9], nl_expires = LOGIN_LIFETIME\<rparr>" and now: "fst (store_cookie plain_auth s'' [8] 6) \<noteq> None"
    using run out by (auto simp: store_sign_in_def state_sweep_def state_held_def sample_identity_def store_cookie_def
        plain_auth_def Let_def MAX_PRINCIPAL_LOGINS_def MAX_LOGINS_def LOGIN_LIFETIME_def)
  have 2: "(auth_step plain_auth (\<lambda>ip _. ip))\<^sup>*\<^sup>* (s', [SignedIn [7] [9]]) (s'', [SignedIn [8] [9]] @ [SignedIn [7] [9]])"
    using auth_step.sign_in [OF _ run, of "\<lambda>ip _. ip" "[SignedIn [7] [9]]"] r out by (simp add: r_into_rtranclp)
  note R = sign_out_revokes [OF r_into_rtranclp [of "auth_step plain_auth (\<lambda>ip _. ip)", OF step] out(1) 2, of "[7]"]
  have "fst (store_cookie plain_auth s'' [7] 6) = None"
  proof (rule ccontr)
    assume "fst (store_cookie plain_auth s'' [7] 6) \<noteq> None"
    then obtain lease where lease: "fst (store_cookie plain_auth s'' [7] 6) = Some lease" by auto
    then have "ll_login lease = [7]" by (auto simp: store_cookie_def plain_auth_def login_lease_def Let_def split: option.splits if_splits)
    with R lease show False by auto
  qed
  moreover have "Root 0 \<in> set (st_cancelled s'')" using R ls by simp
  moreover have "fst (store_cookie plain_auth s [7] 5) \<noteq> None" by (simp add: store_cookie_def plain_auth_def ls LOGIN_LIFETIME_def)
  ultimately show ?thesis using out(1) 2 now r_into_rtranclp [of "auth_step plain_auth (\<lambda>ip _. ip)", OF step] by blast
qed

text \<open>
  An exchange whose answer was lost can be asked again: for as long as the replay lasts and the login lives, the same
  verifier gets the same token, whatever new credentials were drawn.
\<close>

theorem exchange_replays:
  assumes "(auth_step lib trunc)\<^sup>*\<^sup>* (auth_state_default, []) (s, log)" and "map_of (st_grants s) (sha256 lib token) = None"
    and "issue_section lib s c origin token ident now t\<^sub>1 t\<^sub>2 t\<^sub>3 = (Token token e, s')"
    and "map_of (st_grants s') (sha256 lib token) = Some g" and "map_of (st_logins s') (gr_login g) = Some l"
    and "now' < now + REPLAY" "t\<^sub>1' < now + REPLAY" "now' < lo_deadline l" "t\<^sub>2' < lo_deadline l"
  shows "fst (issue_section lib s' c origin token' ident' now' t\<^sub>1' t\<^sub>2' t\<^sub>3') = Token token (lo_expires l)"
proof -
  have inv: "auth_inv lib (s, log)" by (rule auth_inv_reachable [OF assms(1)])
  note I = issue_section_inv [OF inv assms(3,2)]
  then have inv': "store_inv lib s'" by (simp add: auth_inv_def)
  obtain a where a: "map_of (st_approvals s') c = Some a" "ap_browser a = origin" "now + REPLAY \<le> ap_deadline a"
    "ap_stage a = StageIssued \<lparr>is_login = gr_login g, is_grant = sha256 lib token, is_token = Some token, is_replay_until = now + REPLAY\<rparr>"
    using I assms(4) by auto
  let ?s = "state_sweep s' now'"
  have login: "approval_login a = Some (gr_login g)" using a(4) by (simp add: approval_login_def)
  have keep: "forget_token now' a = a" using a(4) assms(6) by (simp add: forget_token_def)
  have "map_of (st_approvals ?s) c = Some a"
    using state_sweep_keeps [OF inv' a(1) _ login assms(5)] a(3) assms(6,8) keep by simp
  then have "state_pending ?s c t\<^sub>1' = Some a" using a(3) assms(7) by (simp add: state_pending_def)
  moreover have "table_wf (st_logins s')" using inv' store_inv_wf by blast
  then have "state_login ?s (gr_login g) t\<^sub>2' = Some l"
    using assms(5,8,9) by (simp add: state_login_def state_sweep_logins)
  ultimately show ?thesis using a login by (simp add: issue_section_def Let_def)
qed

theorem exchange_replays_witness:
  "\<exists>s s'. fst (issue_section plain_auth s s' (Some [79]) [5] [6] 3 3 3 3) = Token [5] LOGIN_LIFETIME \<and>
     fst (issue_section plain_auth (snd (issue_section plain_auth s s' (Some [79]) [5] [6] 3 3 3 3)) s' (Some [79]) [8] [6] 9 9 9 9) = Token [5] LOGIN_LIFETIME"
proof -
  obtain s log c where r: "(auth_step plain_auth (\<lambda>ip _. ip))\<^sup>*\<^sup>* (auth_state_default, []) (s, log)" and c: "challenge_of plain_auth (replicate 32 0) = Some c"
    and s: "st_approvals s = [(c, \<lparr>ap_browser = Some [79], ap_clients = [], ap_stage = StageApproved [7], ap_deadline = 1 + APPROVAL_LIFETIME\<rparr>)]"
      "st_logins s = [([7], \<lparr>lo_id = [1], lo_principal = ''local-operator'', lo_name = [], lo_provider = [], lo_csrf = [9], lo_sequence = 1,
         lo_deadline = LOGIN_LIFETIME, lo_expires = LOGIN_LIFETIME, lo_revoked = Root 0\<rparr>)]" "st_grants s = []"
    by (rule sample_approved)
  have sw: "state_sweep s 3 = s" using s by (simp add: state_sweep_def forget_token_def LOGIN_LIFETIME_def APPROVAL_LIFETIME_def)
  obtain s' g where x: "issue_section plain_auth s c (Some [79]) [5] [6] 3 3 3 3 = (Token [5] LOGIN_LIFETIME, s')"
    and g: "map_of (st_grants s') (sha256 plain_auth [5]) = Some g" "gr_login g = [7]" "st_logins s' = st_logins s"
    by (simp add: issue_section_def sw s state_pending_def approval_login_def state_login_def state_grant_def plain_auth_def
        Let_def LOGIN_LIFETIME_def APPROVAL_LIFETIME_def MAX_LOGIN_GRANTS_def)
  have "map_of (st_grants s) (sha256 plain_auth [5]) = None" by (simp add: s)
  note exchange_replays [OF r this x g(1)]
  then have "fst (issue_section plain_auth s' c (Some [79]) [8] [6] 9 9 9 9) = Token [5] LOGIN_LIFETIME"
    using g(2,3) s(2) by (simp add: REPLAY_def LOGIN_LIFETIME_def)
  then show ?thesis using x by (intro exI [of _ s] exI [of _ c]) simp
qed

end
