(* ===== verification/Bus.thy ===== *)
theory Bus
  imports Decimal
begin

text \<open>
  The messages of the latency bus, \<^verbatim>\<open>rust/proto/src/bus.rs\<close> with the decimal fields of \<^verbatim>\<open>rust/proto/src/text.rs\<close>, and the reflector of
  \<^verbatim>\<open>rust/server/src/engine/mod.rs\<close>. A text is its bytes.
\<close>

subsection \<open>The model\<close>

text \<open>\<open>decimal\<close> for the integer type of the largest value \<open>bound\<close>.\<close>

definition decimal :: "nat \<Rightarrow> bytes \<Rightarrow> nat \<Rightarrow> nat option" where
  "decimal bound field digits =
     (if field \<noteq> [] \<and> length field \<le> digits \<and> list_all is_ascii_digit field \<and> digits_value field \<le> bound
      then Some (digits_value field) else None)"

record ping =
  pi_id :: u32

record pong =
  po_id :: u32
  po_handling_nanos :: u64

definition PING_MAX_BYTES :: nat where "PING_MAX_BYTES = 15"

text \<open>\<open>write\<close> into a buffer of \<open>MAX_BYTES\<close>, of which it gives the part written.\<close>

definition ping_write :: "ping \<Rightarrow> bytes \<Rightarrow> bytes" where
  "ping_write p buffer =
     (let ident = show_decimal (unat (pi_id p));
          buffer = as_bytes ''PING,'' @ ident @ drop (5 + length ident) buffer
      in take (5 + length ident) buffer)"

definition ping_encode :: "ping \<Rightarrow> bytes" where
  "ping_encode p = ping_write p (replicate PING_MAX_BYTES 0)"

definition strip_prefix :: "bytes \<Rightarrow> bytes \<Rightarrow> bytes option" where
  "strip_prefix prefix text = (if take (length prefix) text = prefix then Some (drop (length prefix) text) else None)"

fun split_once :: "u8 \<Rightarrow> bytes \<Rightarrow> (bytes \<times> bytes) option" where
  "split_once c [] = None"
| "split_once c (b # bs) = (if b = c then Some ([], bs) else map_option (\<lambda>(xs, ys). (b # xs, ys)) (split_once c bs))"

definition ping_decode :: "bytes \<Rightarrow> ping option" where
  "ping_decode message =
     (if \<not> from_utf8 message then None
      else case strip_prefix (as_bytes ''PING,'') message of
          None \<Rightarrow> None
        | Some ident \<Rightarrow> map_option (\<lambda>n. \<lparr>pi_id = of_nat n\<rparr>) (decimal (2 ^ 32 - 1) ident 10))"

definition ping_next :: "ping \<Rightarrow> ping" where
  "ping_next p = \<lparr>pi_id = pi_id p + 1\<rparr>"

definition ping_reply :: "ping \<Rightarrow> u64 \<Rightarrow> pong" where
  "ping_reply p nanos = \<lparr>po_id = pi_id p, po_handling_nanos = nanos\<rparr>"

definition pong_encode :: "pong \<Rightarrow> bytes" where
  "pong_encode p = as_bytes ''PONG,'' @ show_decimal (unat (po_id p)) @ as_bytes '','' @ show_decimal (unat (po_handling_nanos p))"

definition pong_decode :: "bytes \<Rightarrow> pong option" where
  "pong_decode message =
     (if \<not> from_utf8 message then None
      else case strip_prefix (as_bytes ''PONG,'') message of
          None \<Rightarrow> None
        | Some rest \<Rightarrow>
            (case split_once 0x2c rest of
               None \<Rightarrow> None
             | Some (ident, nanos) \<Rightarrow>
                 (case (decimal (2 ^ 32 - 1) ident 10, decimal (2 ^ 64 - 1) nanos 20) of
                    (Some ident, Some nanos) \<Rightarrow> Some \<lparr>po_id = of_nat ident, po_handling_nanos = of_nat nanos\<rparr>
                  | _ \<Rightarrow> None)))"

text \<open>\<open>reflect\<close>, with the time since the message was received.\<close>

definition reflect :: "bytes \<Rightarrow> nat \<Rightarrow> bytes option" where
  "reflect message elapsed = (case ping_decode message of
       None \<Rightarrow> None
     | Some ping \<Rightarrow> Some (pong_encode (ping_reply ping (of_nat (min elapsed (2 ^ 64 - 1))))))"

subsection \<open>Messages are read as they were written\<close>

lemma as_bytes_PING: "as_bytes ''PING,'' = [0x50, 0x49, 0x4e, 0x47, 0x2c]" and as_bytes_PONG: "as_bytes ''PONG,'' = [0x50, 0x4f, 0x4e, 0x47, 0x2c]"
    and as_bytes_comma: "as_bytes '','' = [0x2c]"
  by (code_simp, code_simp, code_simp)

lemma decimal_show: "n \<le> bound \<Longrightarrow> n < 10 ^ digits \<Longrightarrow> 0 < digits \<Longrightarrow> decimal bound (show_decimal n) digits = Some n"
  using show_decimal_digits [of n] show_decimal_length [of n "digits - 1"] by (simp add: decimal_def)

lemma ping_write_eq: "ping_write p buffer = as_bytes ''PING,'' @ show_decimal (unat (pi_id p))"
proof -
  have "length (as_bytes ''PING,'') = 5" by (simp add: as_bytes_PING)
  then show ?thesis by (simp add: ping_write_def Let_def)
qed

lemma split_once_digits: "list_all is_ascii_digit ds \<Longrightarrow> split_once 0x2c (ds @ 0x2c # rest) = Some (ds, rest)"
  by (induction ds) (auto simp: is_ascii_digit_def word_le_nat_alt)

lemma unat32: "unat (v :: u32) \<le> 4294967295"
  using unsigned_less [of v, where 'a = nat] by simp

lemma ping_decode_iff:
  "ping_decode message = Some p \<longleftrightarrow> (\<exists>ds. message = as_bytes ''PING,'' @ ds \<and> ds \<noteq> [] \<and> length ds \<le> 10 \<and> list_all is_ascii_digit ds \<and>
     digits_value ds = unat (pi_id p))"
proof
  assume "ping_decode message = Some p"
  then obtain ds where d: "strip_prefix (as_bytes ''PING,'') message = Some ds" "decimal (2 ^ 32 - 1) ds 10 = Some (digits_value ds)" "p = \<lparr>pi_id = of_nat (digits_value ds)\<rparr>"
    by (auto simp: ping_decode_def decimal_def split: option.splits if_splits)
  then have "digits_value ds \<le> 2 ^ 32 - 1" "ds \<noteq> []" "length ds \<le> 10" "list_all is_ascii_digit ds" by (auto simp: decimal_def split: if_splits)
  moreover from this(1) have "unat (of_nat (digits_value ds) :: u32) = digits_value ds" by (intro unat_of_small) simp
  moreover have "message = as_bytes ''PING,'' @ ds" using d(1) by (auto simp: strip_prefix_def split: if_splits) (metis append_take_drop_id)
  ultimately show "\<exists>ds. message = as_bytes ''PING,'' @ ds \<and> ds \<noteq> [] \<and> length ds \<le> 10 \<and> list_all is_ascii_digit ds \<and> digits_value ds = unat (pi_id p)"
    using d(3) by auto
next
  assume "\<exists>ds. message = as_bytes ''PING,'' @ ds \<and> ds \<noteq> [] \<and> length ds \<le> 10 \<and> list_all is_ascii_digit ds \<and> digits_value ds = unat (pi_id p)"
  then obtain ds where ds: "message = as_bytes ''PING,'' @ ds" "ds \<noteq> []" "length ds \<le> 10" "list_all is_ascii_digit ds" "digits_value ds = unat (pi_id p)" by blast
  have "from_utf8 message" unfolding ds(1) using digits_ascii [OF ds(4)] by (intro from_utf8_ascii) (simp add: as_bytes_PING)
  moreover have "decimal (2 ^ 32 - 1) ds 10 = Some (unat (pi_id p))" using ds unat32 [of "pi_id p"] by (simp add: decimal_def)
  ultimately show "ping_decode message = Some p" using ds(1) by (simp add: ping_decode_def strip_prefix_def)
qed

lemma pong_decode_encode: "pong_decode (pong_encode p) = Some p"
proof -
  let ?i = "show_decimal (unat (po_id p))" and ?n = "show_decimal (unat (po_handling_nanos p))"
  have d: "list_all is_ascii_digit ?i" "list_all is_ascii_digit ?n" using show_decimal_digits by blast+
  have "from_utf8 (pong_encode p)" unfolding pong_encode_def using d [THEN digits_ascii] by (intro from_utf8_ascii) (simp add: as_bytes_PONG as_bytes_comma)
  moreover have "strip_prefix (as_bytes ''PONG,'') (pong_encode p) = Some (?i @ 0x2c # ?n)" by (simp add: strip_prefix_def pong_encode_def as_bytes_comma)
  moreover have "decimal (2 ^ 32 - 1) ?i 10 = Some (unat (po_id p))" using unat32 [of "po_id p"] by (intro decimal_show) simp_all
  moreover have "decimal (2 ^ 64 - 1) ?n 20 = Some (unat (po_handling_nanos p))" using unat_lt64 [of "po_handling_nanos p"] by (intro decimal_show) simp_all
  ultimately show ?thesis using split_once_digits [OF d(1), of ?n] by (simp add: pong_decode_def)
qed

text \<open>
  A probe is read exactly when it is \<open>PING,\<close> and one to ten digits of a 32-bit number. Every probe and every reply is read as it was
  written, a probe fits its buffer, and the reflector answers a probe with a reply of its id and the handling time.
\<close>

theorem bus_messages_exact:
  "(ping_decode message = Some p \<longleftrightarrow> (\<exists>ds. message = as_bytes ''PING,'' @ ds \<and> ds \<noteq> [] \<and> length ds \<le> 10 \<and> list_all is_ascii_digit ds \<and>
      digits_value ds = unat (pi_id p))) \<and>
   ping_decode (ping_encode p) = Some p \<and> length (ping_encode p) \<le> PING_MAX_BYTES \<and> pong_decode (pong_encode q) = Some q \<and>
   map_option pong_decode (reflect (ping_encode p) elapsed) = Some (Some \<lparr>po_id = pi_id p, po_handling_nanos = of_nat (min elapsed (2 ^ 64 - 1))\<rparr>)"
proof -
  have e: "ping_encode p = as_bytes ''PING,'' @ show_decimal (unat (pi_id p))" by (simp add: ping_encode_def ping_write_eq PING_MAX_BYTES_def)
  have len: "length (show_decimal (unat (pi_id p))) \<le> Suc 9" using unat32 [of "pi_id p"] by (intro show_decimal_length) simp
  have d: "ping_decode (ping_encode p) = Some p" unfolding e ping_decode_iff using show_decimal_digits len by auto
  have "length (ping_encode p) \<le> PING_MAX_BYTES" unfolding e using len by (simp add: as_bytes_PING PING_MAX_BYTES_def)
  moreover have "reflect (ping_encode p) elapsed = Some (pong_encode \<lparr>po_id = pi_id p, po_handling_nanos = of_nat (min elapsed (2 ^ 64 - 1))\<rparr>)"
    using d by (simp add: reflect_def ping_reply_def)
  ultimately show ?thesis using ping_decode_iff [of message p] d by (simp add: pong_decode_encode)
qed

end
