(* ===== verification/Origins.thy ===== *)
theory Origins
  imports Bus Quota
begin

text \<open>
  HTTP(S) origins, \<^verbatim>\<open>rust/proto/src/origin.rs\<close>, with the IP addresses of the standard library: its parser, its \<open>Display\<close> and
  \<open>to_canonical\<close>. A text is its bytes. A parser of the library answers what it read and what is left.
\<close>

subsection \<open>Texts\<close>

text \<open>\<open>split_once\<close> at a text.\<close>

fun split_text :: "bytes \<Rightarrow> bytes \<Rightarrow> (bytes \<times> bytes) option" where
  "split_text pat [] = None"
| "split_text pat (b # bs) = (if take (length pat) (b # bs) = pat then Some ([], drop (length pat) (b # bs))
     else map_option (\<lambda>(before, after). (b # before, after)) (split_text pat bs))"

text \<open>\<open>split\<close> at every occurrence of a byte.\<close>

fun split_on :: "u8 \<Rightarrow> bytes \<Rightarrow> bytes list" where
  "split_on sep [] = [[]]"
| "split_on sep (b # bs) = (if b = sep then [] # split_on sep bs else case split_on sep bs of [] \<Rightarrow> [[b]] | part # parts \<Rightarrow> (b # part) # parts)"

definition strip_suffix :: "u8 \<Rightarrow> bytes \<Rightarrow> bytes option" where
  "strip_suffix b bs = (if bs \<noteq> [] \<and> last bs = b then Some (butlast bs) else None)"

definition ascii_lower :: "u8 \<Rightarrow> u8" where
  "ascii_lower b = (if 0x41 \<le> b \<and> b \<le> 0x5a then b + 32 else b)"

definition eq_ignore_case :: "bytes \<Rightarrow> bytes \<Rightarrow> bool" where
  "eq_ignore_case x y \<longleftrightarrow> map ascii_lower x = map ascii_lower y"

definition is_alphanumeric :: "u8 \<Rightarrow> bool" where
  "is_alphanumeric b \<longleftrightarrow> is_ascii_digit b \<or> 0x41 \<le> b \<and> b \<le> 0x5a \<or> 0x61 \<le> b \<and> b \<le> 0x7a"

definition is_hexdigit :: "u8 \<Rightarrow> bool" where
  "is_hexdigit b \<longleftrightarrow> is_ascii_digit b \<or> 0x41 \<le> b \<and> b \<le> 0x46 \<or> 0x61 \<le> b \<and> b \<le> 0x66"

subsection \<open>IP addresses\<close>

datatype ip_addr = V4 ipv4 | V6 ipv6

definition digit_value :: "u8 \<Rightarrow> nat" where
  "digit_value b = (if is_ascii_digit b then unat b - 48 else if 0x61 \<le> b then unat b - 87 else unat b - 55)"

definition radix_value :: "nat \<Rightarrow> bytes \<Rightarrow> nat" where
  "radix_value radix ds = foldl (\<lambda>n b. n * radix + digit_value b) 0 ds"

text \<open>\<open>read_number\<close>: all the digits there are, at most \<open>width\<close> if given, for a number below \<open>bound\<close>.\<close>

definition read_number :: "bool \<Rightarrow> nat option \<Rightarrow> bool \<Rightarrow> nat \<Rightarrow> bytes \<Rightarrow> (nat \<times> bytes) option" where
  "read_number hex width zeros bound bs =
     (let is = (if hex then is_hexdigit else is_ascii_digit); ds = takeWhile is bs; n = radix_value (if hex then 16 else 10) ds
      in if ds = [] \<or> (\<exists>w \<in> set_option width. w < length ds) \<or> (\<not> zeros \<and> hd ds = 0x30 \<and> 1 < length ds) \<or> bound \<le> n then None
         else Some (n, dropWhile is bs))"

definition read_given :: "u8 \<Rightarrow> bytes \<Rightarrow> bytes option" where
  "read_given b bs = (case bs of [] \<Rightarrow> None | c # rest \<Rightarrow> if c = b then Some rest else None)"

definition read_separator :: "u8 \<Rightarrow> nat \<Rightarrow> (bytes \<Rightarrow> ('a \<times> bytes) option) \<Rightarrow> bytes \<Rightarrow> ('a \<times> bytes) option" where
  "read_separator sep i inner bs = (if 0 < i then Option.bind (read_given sep bs) inner else inner bs)"

fun read_octets :: "nat \<Rightarrow> nat \<Rightarrow> bytes \<Rightarrow> (nat list \<times> bytes) option" where
  "read_octets 0 i bs = Some ([], bs)"
| "read_octets (Suc n) i bs = (case read_separator 0x2e i (read_number False (Some 3) False 256) bs of
       None \<Rightarrow> None
     | Some (octet, rest) \<Rightarrow> map_option (\<lambda>(octets, rest). (octet # octets, rest)) (read_octets n (Suc i) rest))"

definition read_ipv4 :: "bytes \<Rightarrow> (nat list \<times> bytes) option" where
  "read_ipv4 bs = read_octets 4 0 bs"

fun read_groups :: "nat \<Rightarrow> nat \<Rightarrow> bytes \<Rightarrow> nat list \<times> bool \<times> bytes" where
  "read_groups 0 i bs = ([], False, bs)"
| "read_groups (Suc n) i bs = (case (if 0 < n then read_separator 0x3a i read_ipv4 bs else None) of
       Some (octets, rest) \<Rightarrow> ([octets ! 0 * 256 + octets ! 1, octets ! 2 * 256 + octets ! 3], True, rest)
     | None \<Rightarrow> (case read_separator 0x3a i (read_number True (Some 4) True 65536) bs of
           None \<Rightarrow> ([], False, bs)
         | Some (g, rest) \<Rightarrow> (case read_groups n (Suc i) rest of (gs, v4, rest) \<Rightarrow> (g # gs, v4, rest))))"

definition read_ipv6 :: "bytes \<Rightarrow> (nat list \<times> bytes) option" where
  "read_ipv6 bs = (case read_groups 8 0 bs of
       (head, v4, rest) \<Rightarrow>
         if length head = 8 then Some (head, rest)
         else if v4 then None
         else (case Option.bind (read_given 0x3a rest) (read_given 0x3a) of
             None \<Rightarrow> None
           | Some rest \<Rightarrow> (case read_groups (8 - (length head + 1)) 0 rest of
               (tail, _, rest) \<Rightarrow> Some (head @ replicate (8 - length head - length tail) 0 @ tail, rest))))"

definition ipv4_of :: "nat list \<Rightarrow> ipv4" where
  "ipv4_of octets = foldl (\<lambda>n b. n * 256 + of_nat b) 0 octets"

definition ipv6_of :: "nat list \<Rightarrow> ipv6" where
  "ipv6_of groups = foldl (\<lambda>n b. n * 65536 + of_nat b) 0 groups"

text \<open>\<open>parse\<close> takes the whole text.\<close>

definition whole :: "('a \<times> bytes) option \<Rightarrow> 'a option" where
  "whole r = (case r of Some (val, []) \<Rightarrow> Some val | _ \<Rightarrow> None)"

definition parse_ipv4 :: "bytes \<Rightarrow> ipv4 option" where
  "parse_ipv4 bs = (if length bs > 15 then None else map_option ipv4_of (whole (read_ipv4 bs)))"

definition parse_ipv6 :: "bytes \<Rightarrow> ipv6 option" where
  "parse_ipv6 bs = map_option ipv6_of (whole (read_ipv6 bs))"

definition octets_of :: "ipv4 \<Rightarrow> nat list" where
  "octets_of ip = map (\<lambda>i. unat (drop_bit (8 * i) ip AND 0xff)) [3, 2, 1, 0]"

definition groups_of :: "ipv6 \<Rightarrow> nat list" where
  "groups_of ip = map (\<lambda>i. unat (drop_bit (16 * i) ip AND 0xffff)) [7, 6, 5, 4, 3, 2, 1, 0]"

fun join :: "bytes \<Rightarrow> bytes list \<Rightarrow> bytes" where
  "join sep [] = []"
| "join sep [x] = x"
| "join sep (x # y # xs) = x @ sep @ join sep (y # xs)"

definition hex_digit :: "nat \<Rightarrow> u8" where
  "hex_digit n = (if n < 10 then of_nat (48 + n) else of_nat (87 + n))"

fun show_hex :: "nat \<Rightarrow> bytes" where
  "show_hex n = (if n < 16 then [hex_digit n] else show_hex (n div 16) @ [hex_digit (n mod 16)])"

declare show_hex.simps [simp del]

definition show_ipv4 :: "ipv4 \<Rightarrow> bytes" where
  "show_ipv4 ip = join [0x2e] (map show_decimal (octets_of ip))"

text \<open>The first longest run of zeros: its start and length.\<close>

fun longest_zeros :: "nat \<Rightarrow> nat \<times> nat \<Rightarrow> nat \<times> nat \<Rightarrow> nat list \<Rightarrow> nat \<times> nat" where
  "longest_zeros i longest current [] = longest"
| "longest_zeros i longest current (g # gs) =
     (if g = 0
      then let current = (if snd current = 0 then i else fst current, snd current + 1)
           in longest_zeros (Suc i) (if snd longest < snd current then current else longest) current gs
      else longest_zeros (Suc i) longest (0, 0) gs)"

definition to_mapped :: "ipv6 \<Rightarrow> ipv4 option" where
  "to_mapped ip = (if drop_bit 32 ip = 0xffff then Some (ucast ip) else None)"

definition show_ipv6 :: "ipv6 \<Rightarrow> bytes" where
  "show_ipv6 ip = (case to_mapped ip of
       Some v4 \<Rightarrow> as_bytes ''::ffff:'' @ show_ipv4 v4
     | None \<Rightarrow>
         let groups = groups_of ip; (start, len) = longest_zeros 0 (0, 0) (0, 0) groups; shown = (\<lambda>gs. join [0x3a] (map show_hex gs))
         in if 1 < len then shown (take start groups) @ as_bytes ''::'' @ shown (drop (start + len) groups) else shown groups)"

definition to_canonical :: "ip_addr \<Rightarrow> ip_addr" where
  "to_canonical ip = (case ip of V4 _ \<Rightarrow> ip | V6 v6 \<Rightarrow> (case to_mapped v6 of Some v4 \<Rightarrow> V4 v4 | None \<Rightarrow> ip))"

subsection \<open>Origins\<close>

definition MAX_ORIGIN_BYTES :: nat where "MAX_ORIGIN_BYTES = 2048"

datatype scheme = Http | Https

definition scheme_row :: "scheme \<Rightarrow> string \<times> nat" where
  "scheme_row s = (case s of Http \<Rightarrow> (''http'', 80) | Https \<Rightarrow> (''https'', 443))"

definition scheme_name :: "scheme \<Rightarrow> bytes" where "scheme_name s = as_bytes (fst (scheme_row s))"
definition default_port :: "scheme \<Rightarrow> nat" where "default_port s = snd (scheme_row s)"

datatype host = Name bytes | Ip ip_addr

record origin =
  og_scheme :: scheme
  og_host :: host
  og_port :: nat

definition label_byte :: "u8 \<Rightarrow> bool" where
  "label_byte b \<longleftrightarrow> is_alphanumeric b \<or> b = 0x2d \<or> b = 0x5f"

definition is_numeric :: "bytes \<Rightarrow> bool" where
  "is_numeric label \<longleftrightarrow> list_all is_ascii_digit label \<or>
     (take 2 label \<in> {as_bytes ''0x'', as_bytes ''0X''} \<and> list_all is_hexdigit (drop 2 label))"

definition host_parse :: "bytes \<Rightarrow> host option" where
  "host_parse text =
     (let name = (case strip_suffix 0x2e text of Some name \<Rightarrow> name | None \<Rightarrow> text); labels = split_on 0x2e name
      in if \<not> list_all (\<lambda>label. label \<noteq> [] \<and> list_all label_byte label) labels then None
         else if is_numeric (last labels) then map_option (\<lambda>ip. Ip (V4 ip)) (parse_ipv4 text)
         else Some (Name (map ascii_lower text)))"

definition host_show :: "host \<Rightarrow> bytes" where
  "host_show h = (case h of Name name \<Rightarrow> name | Ip (V4 ip) \<Rightarrow> show_ipv4 ip | Ip (V6 ip) \<Rightarrow> [0x5b] @ show_ipv6 ip @ [0x5d])"

definition port_parse :: "scheme \<Rightarrow> bytes \<Rightarrow> nat option" where
  "port_parse s port =
     (if port = [] \<or> port = [0x3a] then Some (default_port s)
      else if hd port \<noteq> 0x3a then None
      else (case decimal 65535 (tl port) usize_max of Some n \<Rightarrow> if n = 0 then None else Some n | None \<Rightarrow> None))"

definition refused_byte :: "u8 \<Rightarrow> bool" where
  "refused_byte b \<longleftrightarrow> b \<le> 0x20 \<or> 0x7f \<le> b \<or> b = 0x23 \<or> b = 0x5c"

definition ends_authority :: "u8 \<Rightarrow> bool" where
  "ends_authority b \<longleftrightarrow> b = 0x2f \<or> b = 0x3f \<or> b = 0x23"

definition authority_parse :: "bytes \<Rightarrow> (host \<times> bytes) option" where
  "authority_parse authority =
     (if authority \<noteq> [] \<and> hd authority = 0x5b
      then (case split_once 0x5d (tl authority) of
              None \<Rightarrow> None
            | Some (ip, port) \<Rightarrow> map_option (\<lambda>ip. (Ip (V6 ip), port)) (parse_ipv6 ip))
      else map_option (\<lambda>host. (host, dropWhile (\<lambda>b. b \<noteq> 0x3a) authority)) (host_parse (takeWhile (\<lambda>b. b \<noteq> 0x3a) authority)))"

definition origin_split :: "bytes \<Rightarrow> (origin \<times> bytes) option" where
  "origin_split url = (case split_text (as_bytes ''://'') url of
       None \<Rightarrow> None
     | Some (scheme, rest) \<Rightarrow>
         (case List.find (\<lambda>known. eq_ignore_case (scheme_name known) scheme) [Http, Https] of
            None \<Rightarrow> None
          | Some scheme \<Rightarrow>
              let authority = takeWhile (\<lambda>b. \<not> ends_authority b) rest; rest = dropWhile (\<lambda>b. \<not> ends_authority b) rest
              in (case authority_parse authority of
                    None \<Rightarrow> None
                  | Some (host, port) \<Rightarrow> (case port_parse scheme port of
                        None \<Rightarrow> None
                      | Some port \<Rightarrow>
                          if length rest > MAX_ORIGIN_BYTES \<or> list_ex refused_byte rest then None
                          else Some (\<lparr>og_scheme = scheme, og_host = host, og_port = port\<rparr>, rest)))))"

definition origin_parse :: "bytes \<Rightarrow> origin option" where
  "origin_parse text = (case origin_split text of
       Some (o', rest) \<Rightarrow> if rest = [] \<and> length text \<le> MAX_ORIGIN_BYTES then Some o' else None
     | None \<Rightarrow> None)"

definition origin_show :: "origin \<Rightarrow> bytes" where
  "origin_show o' = scheme_name (og_scheme o') @ as_bytes ''://'' @ host_show (og_host o') @
     (if og_port o' = default_port (og_scheme o') then [] else [0x3a] @ show_decimal (og_port o'))"

subsection \<open>Numbers read back\<close>

lemma while_split: "list_all P ds \<Longrightarrow> (rest = [] \<or> \<not> P (hd rest)) \<Longrightarrow> takeWhile P (ds @ rest) = ds \<and> dropWhile P (ds @ rest) = rest"
proof (induction ds)
  case Nil
  then show ?case by (cases rest) auto
qed auto

lemma radix_decimal: "list_all is_ascii_digit ds \<Longrightarrow> radix_value 10 ds = digits_value ds"
  unfolding radix_value_def digits_value_def by (rule foldl_cong) (auto simp: list_all_iff digit_value_def)

lemma digit_zero: "digit n = 0x30 \<longleftrightarrow> n mod 10 = 0"
proof -
  have "digit n = 0x30 \<longleftrightarrow> unat (digit n) = unat (0x30 :: u8)" by (simp only: word_unat_eq_iff)
  then show ?thesis by (simp add: unat_digit)
qed

lemma show_decimal_head: "0 < n \<Longrightarrow> hd (show_decimal n) \<noteq> 0x30"
proof (induction n rule: show_decimal.induct)
  case (1 n)
  show ?case
  proof (cases "n < 10")
    case True
    then show ?thesis using 1(2) by (simp add: show_decimal.simps [of n] digit_zero)
  next
    case False
    then show ?thesis using 1 show_decimal_digits [of "n div 10"] by (simp add: show_decimal.simps [of n])
  qed
qed

lemma read_octet:
  assumes "n < 256" and "rest = [] \<or> \<not> is_ascii_digit (hd rest)"
  shows "read_number False (Some 3) False 256 (show_decimal n @ rest) = Some (n, rest)"
proof -
  have d: "show_decimal n \<noteq> []" "list_all is_ascii_digit (show_decimal n)" using show_decimal_digits by blast+
  have len: "length (show_decimal n) \<le> 3" using show_decimal_length [of n 2] assms(1) by simp
  have "\<not> (hd (show_decimal n) = 0x30 \<and> 1 < length (show_decimal n))"
    using show_decimal_head [of n] by (cases "n = 0") (auto simp: show_decimal.simps [of 0])
  then show ?thesis using while_split [OF d(2) assms(2)] d len assms(1) by (auto simp: read_number_def Let_def radix_decimal)
qed

lemma unat_hex_digit: "n < 16 \<Longrightarrow> unat (hex_digit n) = (if n < 10 then 48 + n else 87 + n)"
  using unat_of_small [of "48 + n", where 'a = 8] unat_of_small [of "87 + n", where 'a = 8] by (simp add: hex_digit_def)

lemma hex_digit_ok: "n < 16 \<Longrightarrow> is_hexdigit (hex_digit n) \<and> digit_value (hex_digit n) = n"
  by (simp add: is_hexdigit_def is_ascii_digit_def digit_value_def word_le_nat_alt unat_hex_digit)

lemma radix_snoc: "radix_value r (ds @ [b]) = radix_value r ds * r + digit_value b"
  by (simp add: radix_value_def)

lemma show_hex_ok: "show_hex n \<noteq> [] \<and> list_all is_hexdigit (show_hex n) \<and> radix_value 16 (show_hex n) = n"
proof (induction n rule: show_hex.induct)
  case (1 n)
  show ?case
  proof (cases "n < 16")
    case True
    then show ?thesis using hex_digit_ok [of n] by (simp add: show_hex.simps [of n] radix_value_def)
  next
    case False
    then show ?thesis using 1 hex_digit_ok [of "n mod 16"] by (simp add: show_hex.simps [of n] radix_snoc)
  qed
qed

lemma show_hex_length: "n < 16 ^ Suc k \<Longrightarrow> length (show_hex n) \<le> Suc k"
proof (induction n arbitrary: k rule: show_hex.induct)
  case (1 n)
  show ?case
  proof (cases "n < 16")
    case True
    then show ?thesis by (simp add: show_hex.simps [of n])
  next
    case False
    then obtain j where j: "k = Suc j" using 1(2) by (cases k) auto
    have "n div 16 < 16 ^ Suc j" using 1(2) unfolding j by (simp add: less_mult_imp_div_less mult.commute)
    then show ?thesis using 1(1) [OF False] False j by (simp add: show_hex.simps [of n])
  qed
qed

lemma read_hex:
  assumes "n < 65536" and "rest = [] \<or> \<not> is_hexdigit (hd rest)"
  shows "read_number True (Some 4) True 65536 (show_hex n @ rest) = Some (n, rest)"
  using while_split [of is_hexdigit "show_hex n" rest] show_hex_ok [of n] show_hex_length [of n 3] assms by (auto simp: read_number_def Let_def)

subsection \<open>Addresses read back\<close>

text \<open>The digits of a number to a base, the highest first.\<close>

lemma digits_of_base: "foldl (\<lambda>m i. m * B + n div B ^ i mod B) acc (rev [0..<k]) = acc * B ^ k + n mod B ^ k" for B :: nat
proof (induction k arbitrary: acc)
  case (Suc k)
  have "n mod (B ^ k * B) = B ^ k * (n div B ^ k mod B) + n mod B ^ k" by (rule mod_mult2_eq)
  then show ?case using Suc by (simp add: algebra_simps)
qed simp

lemma of_nat_foldl: "foldl (\<lambda>n b. n * of_nat B + of_nat b) (of_nat acc) xs = (of_nat (foldl (\<lambda>n b. n * B + b) acc xs) :: 'a :: len word)"
  by (induction xs arbitrary: acc) (simp_all flip: of_nat_mult of_nat_add)

lemma low_bits: "unat (drop_bit (k * i) ip AND mask k) = unat ip div (2 ^ k) ^ i mod 2 ^ k"
proof -
  have "unat (drop_bit (k * i) ip AND mask k) = take_bit k (unat (drop_bit (k * i) ip))"
    by (simp only: take_bit_eq_mask [symmetric] unsigned_take_bit_eq)
  then show ?thesis by (simp only: unat_drop take_bit_eq_mod power_mult)
qed

lemma foldl_zeros: "foldl (\<lambda>n b. n * B + b) 0 (replicate k 0 @ xs) = foldl (\<lambda>n b. n * B + b) 0 xs" for B :: nat
  by (induction k) simp_all

lemma octets_unat: "octets_of ip = map (\<lambda>i. unat ip div 256 ^ i mod 256) (rev [0..<4])"
proof -
  have "unat (drop_bit (8 * i) ip AND 0xff) = unat ip div 256 ^ i mod 256" for i
    using low_bits [of 8 i ip] by (simp add: mask_eq_exp_minus_1)
  then show ?thesis by (simp add: octets_of_def upt_rec)
qed

lemma groups_unat: "groups_of ip = map (\<lambda>i. unat ip div 65536 ^ i mod 65536) (rev [0..<8])"
proof -
  have "unat (drop_bit (16 * i) ip AND 0xffff) = unat ip div 65536 ^ i mod 65536" for i
    using low_bits [of 16 i ip] by (simp add: mask_eq_exp_minus_1)
  then show ?thesis by (simp add: groups_of_def upt_rec)
qed

lemma octets_value: "foldl (\<lambda>n b. n * 256 + b) 0 (octets_of ip) = unat ip"
proof -
  have "unat ip < 2 ^ 32" using unsigned_less [of ip] by simp
  then show ?thesis using digits_of_base [of 256 "unat ip" 0 4] by (simp add: octets_unat foldl_map)
qed

lemma octets_ok: "length (octets_of ip) = 4" "list_all (\<lambda>b. b < 256) (octets_of ip)" "ipv4_of (octets_of ip) = ip"
proof -
  show "length (octets_of ip) = 4" "list_all (\<lambda>b. b < 256) (octets_of ip)" by (simp_all add: octets_unat list_all_iff)
  show "ipv4_of (octets_of ip) = ip" using of_nat_foldl [of 256 0 "octets_of ip", where 'a = 32] by (simp add: ipv4_of_def octets_value)
qed

lemma groups_ok: "length (groups_of ip) = 8" "list_all (\<lambda>g. g < 65536) (groups_of ip)" "ipv6_of (groups_of ip) = ip"
proof -
  show "length (groups_of ip) = 8" "list_all (\<lambda>g. g < 65536) (groups_of ip)" by (simp_all add: groups_unat list_all_iff)
  have "unat ip < 2 ^ 128" using unsigned_less [of ip] by simp
  then have "foldl (\<lambda>n b. n * 65536 + b) 0 (groups_of ip) = unat ip"
    using digits_of_base [of 65536 "unat ip" 0 8] by (simp add: groups_unat foldl_map)
  then show "ipv6_of (groups_of ip) = ip" using of_nat_foldl [of 65536 0 "groups_of ip", where 'a = 128] by (simp add: ipv6_of_def)
qed

lemma join_Cons: "join sep (x # xs) = x @ (if xs = [] then [] else sep @ join sep xs)"
  by (cases xs) auto

lemma read_octets_join:
  assumes "list_all (\<lambda>b. b < 256) bs" and "rest = [] \<or> \<not> is_ascii_digit (hd rest)" and "bs \<noteq> []"
  shows "read_octets (length bs) i ((if 0 < i then [0x2e] else []) @ join [0x2e] (map show_decimal bs) @ rest) = Some (bs, rest)"
  using assms
proof (induction bs arbitrary: i)
  case (Cons b bs)
  let ?more = "(if bs = [] then [] else [0x2e] @ join [0x2e] (map show_decimal bs)) @ rest"
  have "?more = [] \<or> \<not> is_ascii_digit (hd ?more)" using Cons.prems(2) by (auto simp: is_ascii_digit_def)
  then have "read_number False (Some 3) False 256 (show_decimal b @ ?more) = Some (b, ?more)" using Cons.prems(1) by (intro read_octet) auto
  then have first: "read_separator 0x2e i (read_number False (Some 3) False 256) ((if 0 < i then [0x2e] else []) @ show_decimal b @ ?more) = Some (b, ?more)"
    by (simp add: read_separator_def read_given_def)
  show ?case
  proof (cases "bs = []")
    case True
    then show ?thesis using first by simp
  next
    case False
    then have "read_octets (length bs) (Suc i) ?more = Some (bs, rest)" using Cons.IH [of "Suc i"] Cons.prems by simp
    then show ?thesis using first False by (simp add: join_Cons)
  qed
qed simp

lemma read_ipv4_show: "rest = [] \<or> \<not> is_ascii_digit (hd rest) \<Longrightarrow> read_ipv4 (show_ipv4 ip @ rest) = Some (octets_of ip, rest)"
  using read_octets_join [OF octets_ok(2), of rest ip 0] octets_ok(1) [of ip] by (force simp: read_ipv4_def show_ipv4_def)

text \<open>A group is not the start of a dotted address.\<close>

lemma read_ipv4_group:
  assumes "list_all is_hexdigit ds" and "rest = [] \<or> hd rest = 0x3a"
  shows "read_ipv4 (ds @ rest) = None"
proof -
  define left where "left = dropWhile is_ascii_digit (ds @ rest)"
  have "dropWhile is_ascii_digit rest = rest" using assms(2) by (cases rest) (auto simp: is_ascii_digit_def)
  then have "left = [] \<or> hd left \<in> set ds \<or> hd left = 0x3a"
    using assms(2) hd_in_set [of "dropWhile is_ascii_digit ds"] set_dropWhileD [of _ is_ascii_digit ds]
    by (cases "dropWhile is_ascii_digit ds = []") (auto simp: left_def dropWhile_append split: if_splits)
  then have "read_given 0x2e left = None" using assms(1)
    by (cases left) (auto simp: read_given_def list_all_iff is_hexdigit_def is_ascii_digit_def)
  then show ?thesis using read_octets.simps(2) [of 3 0 "ds @ rest"] read_octets.simps(2) [of 2 1 left]
    by (auto simp: left_def read_ipv4_def read_separator_def read_number_def Let_def split: option.splits)
qed

definition stops :: "bytes \<Rightarrow> bool" where
  "stops rest \<longleftrightarrow> rest = [] \<or> (\<exists>r. rest = 0x3a # 0x3a # r)"

lemma read_octets_fails: "read_number False (Some 3) False 256 bs = None \<Longrightarrow> read_ipv4 bs = None"
  using read_octets.simps(2) [of 3 0 bs] by (simp add: read_ipv4_def read_separator_def)

lemma read_nothing: "read_number hex width zeros bound [] = None" "read_number hex width zeros bound (0x3a # r) = None"
  by (simp_all add: read_number_def is_hexdigit_def is_ascii_digit_def)

lemma read_groups_stop: "stops rest \<Longrightarrow> read_groups n i rest = ([], False, rest)"
  by (cases n; cases i) (auto simp: stops_def read_separator_def read_given_def read_nothing read_octets_fails)

lemma read_groups_join:
  assumes "list_all (\<lambda>g. g < 65536) gs" and "stops rest" and "gs \<noteq> []" and "length gs \<le> n"
  shows "read_groups n i ((if 0 < i then [0x3a] else []) @ join [0x3a] (map show_hex gs) @ rest) = (gs, False, rest)"
  using assms
proof (induction gs arbitrary: i n)
  case (Cons g gs)
  obtain m where n: "n = Suc m" using Cons.prems(4) by (cases n) auto
  define left where "left = (if gs = [] then [] else [0x3a] @ join [0x3a] (map show_hex gs)) @ rest"
  have shown: "join [0x3a] (map show_hex (g # gs)) @ rest = show_hex g @ left" by (simp add: join_Cons left_def)
  have left: "left = [] \<or> hd left = 0x3a" using Cons.prems(2) by (auto simp: stops_def left_def)
  then have "read_number True (Some 4) True 65536 (show_hex g @ left) = Some (g, left)"
    using Cons.prems(1) by (intro read_hex) (auto simp: is_hexdigit_def is_ascii_digit_def)
  moreover have "read_ipv4 (show_hex g @ left) = None" using show_hex_ok [of g] left by (intro read_ipv4_group) auto
  moreover have "read_groups m (Suc i) left = (gs, False, rest)"
  proof (cases "gs = []")
    case True
    then show ?thesis using read_groups_stop [OF Cons.prems(2)] by (simp add: left_def)
  next
    case False
    then show ?thesis using Cons.IH [of m "Suc i"] Cons.prems n by (simp add: left_def)
  qed
  ultimately show ?case unfolding shown n by (cases i; cases m) (simp_all add: read_separator_def read_given_def)
qed simp

lemma read_groups_all:
  assumes "list_all (\<lambda>g. g < 65536) gs" and "stops rest" and "length gs \<le> n"
  shows "read_groups n 0 (join [0x3a] (map show_hex gs) @ rest) = (gs, False, rest)"
  using read_groups_join [OF assms(1,2) _ assms(3), of 0] read_groups_stop [OF assms(2)] by (cases "gs = []") auto

text \<open>A run of zeros in a list.\<close>

definition zero_run :: "nat list \<Rightarrow> nat \<times> nat \<Rightarrow> bool" where
  "zero_run xs r \<longleftrightarrow> snd r = 0 \<or> fst r + snd r \<le> length xs \<and> (\<forall>j < snd r. xs ! (fst r + j) = 0)"

lemma longest_zeros_run:
  assumes "zero_run pre longest" and "zero_run pre current" and "snd current = 0 \<or> fst current + snd current = length pre"
  shows "zero_run (pre @ gs) (longest_zeros (length pre) longest current gs)"
  using assms
proof (induction gs arbitrary: pre longest current)
  case (Cons g gs)
  have longer: "zero_run (pre @ [g]) r" if "zero_run pre r" for r using that by (auto simp: zero_run_def nth_append)
  show ?case
  proof (cases "g = 0")
    case True
    let ?c = "(if snd current = 0 then length pre else fst current, snd current + 1)"
    have c: "zero_run (pre @ [g]) ?c" using Cons.prems(2,3) True by (auto simp: zero_run_def nth_append less_Suc_eq)
    have "zero_run ((pre @ [g]) @ gs) (longest_zeros (length (pre @ [g])) (if snd longest < snd ?c then ?c else longest) ?c gs)"
      by (rule Cons.IH) (use c longer [OF Cons.prems(1)] Cons.prems(3) in auto)
    then show ?thesis using True unfolding longest_zeros.simps Let_def by simp
  next
    case False
    have "zero_run ((pre @ [g]) @ gs) (longest_zeros (length (pre @ [g])) longest (0, 0) gs)"
      by (rule Cons.IH) (use longer [OF Cons.prems(1)] in \<open>auto simp: zero_run_def\<close>)
    then show ?thesis using False by simp
  qed
qed simp

lemma zero_run_split: "zero_run xs (start, len) \<Longrightarrow> 0 < len \<Longrightarrow> start + len \<le> length xs \<and> xs = take start xs @ replicate len 0 @ drop (start + len) xs"
proof -
  assume run: "zero_run xs (start, len)" and len: "0 < len"
  then have le: "start + len \<le> length xs" and zeros: "\<forall>j < len. xs ! (start + j) = 0" by (auto simp: zero_run_def)
  have "take len (drop start xs) = replicate len 0" using le zeros by (intro nth_equalityI) auto
  then have "drop start xs = replicate len 0 @ drop len (drop start xs)" by (metis append_take_drop_id)
  then show ?thesis using le by (metis append_take_drop_id drop_drop add.commute)
qed

lemma read_ipv6_show: "map_option ipv6_of (whole (read_ipv6 (show_ipv6 ip))) = Some ip"
proof (cases "to_mapped ip")
  case None
  let ?gs = "groups_of ip" and ?shown = "\<lambda>gs. join [0x3a] (map show_hex gs)"
  obtain start len where run: "longest_zeros 0 (0, 0) (0, 0) ?gs = (start, len)" by fastforce
  have zeros: "zero_run ?gs (start, len)" using longest_zeros_run [of "[]" "(0, 0)" "(0, 0)" ?gs] by (simp add: zero_run_def run)
  have ok: "list_all (\<lambda>g. g < 65536) (take k ?gs)" "list_all (\<lambda>g. g < 65536) (drop k ?gs)" for k
    using groups_ok(2) [of ip] by (auto simp: list_all_iff dest: in_set_takeD in_set_dropD)
  have "read_ipv6 (show_ipv6 ip) = Some (?gs, [])"
  proof (cases "1 < len")
    case True
    then have split: "start + len \<le> 8" "?gs = take start ?gs @ replicate len 0 @ drop (start + len) ?gs"
      using zero_run_split [OF zeros] groups_ok(1) [of ip] by simp_all
    have head: "read_groups 8 0 (?shown (take start ?gs) @ as_bytes ''::'' @ ?shown (drop (start + len) ?gs)) =
        (take start ?gs, False, as_bytes ''::'' @ ?shown (drop (start + len) ?gs))"
      by (rule read_groups_all [OF ok(1)]) (use groups_ok(1) [of ip] in \<open>auto simp: stops_def as_bytes_def\<close>)
    have tail: "read_groups (8 - (start + 1)) 0 (?shown (drop (start + len) ?gs)) = (drop (start + len) ?gs, False, [])"
      using read_groups_all [OF ok(2) [of "start + len"], of "[]" "8 - (start + 1)"] True groups_ok(1) [of ip] split(1) by (simp add: stops_def)
    have "length (take start ?gs) = start" "length (drop (start + len) ?gs) = 8 - (start + len)" "start < 8" "8 - start - (8 - (start + len)) = len"
      using split(1) True groups_ok(1) [of ip] by auto
    then have "read_ipv6 (show_ipv6 ip) = Some (take start ?gs @ replicate len 0 @ drop (start + len) ?gs, [])"
      using None run True head tail by (simp add: show_ipv6_def read_ipv6_def as_bytes_def read_given_def Let_def)
    then show ?thesis by (simp only: split(2) [symmetric])
  next
    case False
    then show ?thesis using None run read_groups_all [of ?gs "[]" 8] groups_ok [of ip] by (simp add: show_ipv6_def read_ipv6_def stops_def)
  qed
  then show ?thesis by (simp add: whole_def groups_ok(3))
next
  case (Some v4)
  then have high: "drop_bit 32 ip = 0xffff" and v4: "v4 = ucast ip" by (auto simp: to_mapped_def split: if_splits)
  obtain a b c d where o: "octets_of v4 = [a, b, c, d]" by (simp add: octets_of_def)
  have hex: "show_hex 65535 = as_bytes ''ffff''" by (simp add: show_hex.simps hex_digit_def as_bytes_def)
  have g: "read_groups 7 0 (as_bytes ''ffff:'' @ show_ipv4 v4) = ([65535, a * 256 + b, c * 256 + d], True, [])"
  proof -
    have 1: "read_number True (Some 4) True 65536 (as_bytes ''ffff'' @ [0x3a] @ show_ipv4 v4) = Some (65535, [0x3a] @ show_ipv4 v4)"
      using read_hex [of 65535 "[0x3a] @ show_ipv4 v4"] by (simp add: hex is_hexdigit_def is_ascii_digit_def)
    have 2: "read_ipv4 (as_bytes ''ffff'' @ [0x3a] @ show_ipv4 v4) = None"
      using show_hex_ok [of 65535] by (intro read_ipv4_group) (auto simp: hex)
    have 3: "read_groups 6 1 ([0x3a] @ show_ipv4 v4) = ([a * 256 + b, c * 256 + d], True, [])"
      using read_groups.simps(2) [of 5 1 "[0x3a] @ show_ipv4 v4"] read_ipv4_show [of "[]" v4] by (simp add: read_separator_def read_given_def o)
    have "as_bytes ''ffff:'' = as_bytes ''ffff'' @ [0x3a]" by (simp add: as_bytes_def)
    then show ?thesis using read_groups.simps(2) [of 6 0 "as_bytes ''ffff'' @ [0x3a] @ show_ipv4 v4"] 1 2 3 by (simp add: read_separator_def)
  qed
  have text': "show_ipv6 ip = 0x3a # 0x3a # as_bytes ''ffff:'' @ show_ipv4 v4" using Some by (simp add: show_ipv6_def as_bytes_def)
  have "read_ipv6 (show_ipv6 ip) = Some (replicate 5 0 @ [65535, a * 256 + b, c * 256 + d], [])"
    unfolding read_ipv6_def text' using read_groups_stop [of "0x3a # 0x3a # as_bytes ''ffff:'' @ show_ipv4 v4" 8 0] g
    by (simp add: stops_def read_given_def)
  moreover have "ipv6_of (replicate 5 0 @ [65535, a * 256 + b, c * 256 + d]) = ip"
  proof -
    have "unat v4 = unat ip mod 2 ^ 32" using unat_cast [of ip, where 'b = 32] by (simp add: v4)
    then have low: "((a * 256 + b) * 256 + c) * 256 + d = unat ip mod 2 ^ 32" using octets_value [of v4] o by simp
    have "unat ip div 2 ^ 32 = 65535" using high unat_drop [of 32 ip] by simp
    then have "unat ip = 65535 * 2 ^ 32 + unat ip mod 2 ^ 32" by (metis div_mult_mod_eq)
    then have "unat ip = (65535 * 65536 + (a * 256 + b)) * 65536 + (c * 256 + d)" using low by simp
    then have "foldl (\<lambda>n b. n * 65536 + b) 0 (replicate 5 0 @ [65535, a * 256 + b, c * 256 + d]) = unat ip" by (simp only: foldl_zeros) simp
    then show ?thesis using of_nat_foldl [of 65536 0 "replicate 5 0 @ [65535, a * 256 + b, c * 256 + d]", where 'a = 128] by (simp add: ipv6_of_def)
  qed
  ultimately show ?thesis by (simp add: whole_def)
qed

subsection \<open>Hosts read back\<close>

text \<open>The bytes hosts are made of.\<close>

definition plain :: "u8 \<Rightarrow> bool" where
  "plain b \<longleftrightarrow> label_byte b \<or> b = 0x2e"

lemma plain_not: "plain b \<Longrightarrow> b \<noteq> 0x3a \<and> b \<noteq> 0x5b \<and> b \<noteq> 0x5d \<and> \<not> ends_authority b"
  by (auto simp: plain_def label_byte_def is_alphanumeric_def is_ascii_digit_def ends_authority_def)

lemma digit_plain: "is_ascii_digit b \<Longrightarrow> plain b" and hex_plain: "is_hexdigit b \<Longrightarrow> plain b"
  by (auto simp: plain_def label_byte_def is_alphanumeric_def is_hexdigit_def is_ascii_digit_def word_le_nat_alt)

lemma split_on_set: "set bs \<subseteq> insert sep (\<Union> (set ` set (split_on sep bs)))"
proof (induction bs)
  case (Cons b bs)
  then show ?case by (cases "split_on sep bs") (simp_all, (blast | force)+)
qed simp

lemma split_on_single: "sep \<notin> set x \<Longrightarrow> split_on sep x = [x]"
  by (induction x) auto

lemma split_on_append: "sep \<notin> set x \<Longrightarrow> split_on sep (x @ sep # rest) = x # split_on sep rest"
  by (induction x) auto

lemma split_on_join: "xs \<noteq> [] \<Longrightarrow> \<forall>x \<in> set xs. sep \<notin> set x \<Longrightarrow> split_on sep (join [sep] xs) = xs"
proof (induction xs)
  case (Cons x xs)
  then show ?case by (cases "xs = []") (auto simp: join_Cons split_on_single split_on_append)
qed simp

lemma ascii_lower_fixed: "ascii_lower (ascii_lower b) = ascii_lower b" "ascii_lower b = 0x2e \<longleftrightarrow> b = 0x2e"
  "label_byte (ascii_lower b) \<longleftrightarrow> label_byte b" "is_ascii_digit (ascii_lower b) \<longleftrightarrow> is_ascii_digit b" "is_hexdigit (ascii_lower b) \<longleftrightarrow> is_hexdigit b"
proof -
  let ?P = "\<lambda>b. ascii_lower (ascii_lower b) = ascii_lower b \<and> (ascii_lower b = 0x2e \<longleftrightarrow> b = 0x2e) \<and> (label_byte (ascii_lower b) \<longleftrightarrow> label_byte b) \<and>
    (is_ascii_digit (ascii_lower b) \<longleftrightarrow> is_ascii_digit b) \<and> (is_hexdigit (ascii_lower b) \<longleftrightarrow> is_hexdigit b)"
  have "?P b"
  proof (cases "0x41 \<le> b \<and> b \<le> 0x5a")
    case True
    then have "unat b + 32 < 2 ^ 8" "65 \<le> unat b" "unat b \<le> 90" by (simp_all add: word_le_nat_alt)
    then have "unat (b + 32) = unat b + 32" by (simp add: unat_word_ariths)
    then show ?thesis using True \<open>65 \<le> unat b\<close> \<open>unat b \<le> 90\<close>
      by (auto simp: ascii_lower_def label_byte_def is_alphanumeric_def is_ascii_digit_def is_hexdigit_def word_le_nat_alt word_unat_eq_iff)
  next
    case False
    then have "ascii_lower b = b" by (auto simp: ascii_lower_def)
    then show ?thesis by simp
  qed
  then show "ascii_lower (ascii_lower b) = ascii_lower b" "ascii_lower b = 0x2e \<longleftrightarrow> b = 0x2e"
    "label_byte (ascii_lower b) \<longleftrightarrow> label_byte b" "is_ascii_digit (ascii_lower b) \<longleftrightarrow> is_ascii_digit b" "is_hexdigit (ascii_lower b) \<longleftrightarrow> is_hexdigit b" by blast+
qed

lemma split_on_lower: "split_on 0x2e (map ascii_lower bs) = map (map ascii_lower) (split_on 0x2e bs)"
  by (induction bs) (auto simp: ascii_lower_fixed split: list.splits)

lemma is_numeric_lower: "is_numeric (map ascii_lower l) \<longleftrightarrow> is_numeric l"
proof -
  have "take 2 (map ascii_lower l) \<in> {as_bytes ''0x'', as_bytes ''0X''} \<longleftrightarrow> take 2 l \<in> {as_bytes ''0x'', as_bytes ''0X''}"
  proof (cases l rule: list.exhaust)
    case (Cons a k)
    have zero: "ascii_lower a = 0x30 \<longleftrightarrow> a = 0x30" for a
    proof (cases "0x41 \<le> a \<and> a \<le> 0x5a")
      case True
      then have "unat (a + 32) = unat a + 32" by (simp add: word_le_nat_alt unat_word_ariths)
      then show ?thesis using True by (auto simp: ascii_lower_def word_le_nat_alt word_unat_eq_iff)
    qed (auto simp: ascii_lower_def)
    have x: "ascii_lower a \<in> {0x78, 0x58} \<longleftrightarrow> a \<in> {0x78, 0x58}" for a
    proof (cases "0x41 \<le> a \<and> a \<le> 0x5a")
      case True
      then have "unat (a + 32) = unat a + 32" by (simp add: word_le_nat_alt unat_word_ariths)
      then show ?thesis using True by (auto simp: ascii_lower_def word_le_nat_alt word_unat_eq_iff)
    qed (auto simp: ascii_lower_def)
    show ?thesis using Cons zero [of a] x by (cases k) (auto simp: as_bytes_def)
  qed simp
  then show ?thesis by (auto simp: is_numeric_def list_all_iff ascii_lower_fixed drop_map)
qed

lemma host_parse_plain: "host_parse t = Some h \<Longrightarrow> t \<noteq> [] \<and> list_all plain t"
proof -
  assume "host_parse t = Some h"
  then have labels: "list_all (\<lambda>label. label \<noteq> [] \<and> list_all label_byte label) (split_on 0x2e (case strip_suffix 0x2e t of Some name \<Rightarrow> name | None \<Rightarrow> t))"
    by (auto simp: host_parse_def Let_def split: if_splits)
  let ?name = "case strip_suffix 0x2e t of Some name \<Rightarrow> name | None \<Rightarrow> t"
  have "set ?name \<subseteq> Collect plain" using split_on_set [of ?name "0x2e"] labels by (fastforce simp: list_all_iff plain_def)
  moreover have "set t \<subseteq> insert 0x2e (set ?name)"
  proof (cases "strip_suffix 0x2e t")
    case (Some name)
    then have "t = name @ [0x2e]" by (auto simp: strip_suffix_def split: if_splits) (metis append_butlast_last_id)
    then show ?thesis using Some by auto
  qed auto
  moreover have "t \<noteq> []" using labels by (auto simp: strip_suffix_def)
  ultimately show ?thesis by (auto simp: list_all_iff plain_def)
qed

lemma host_parse_name: "host_parse t = Some (Name n) \<Longrightarrow> host_parse n = Some (Name n) \<and> length n = length t"
proof -
  assume parsed: "host_parse t = Some (Name n)"
  then have n: "n = map ascii_lower t" by (auto simp: host_parse_def Let_def split: if_splits)
  let ?strip = "\<lambda>t. case strip_suffix 0x2e t of Some name \<Rightarrow> name | None \<Rightarrow> t"
  have "strip_suffix 0x2e n = map_option (map ascii_lower) (strip_suffix 0x2e t)"
    by (auto simp: n strip_suffix_def last_map ascii_lower_fixed map_butlast)
  then have strip: "?strip n = map ascii_lower (?strip t)" by (auto simp: n split: option.splits)
  have labels: "split_on 0x2e (?strip n) = map (map ascii_lower) (split_on 0x2e (?strip t))" unfolding strip by (rule split_on_lower)
  have some: "split_on 0x2e bs \<noteq> []" for bs by (cases bs) (auto split: list.splits)
  have "last (split_on 0x2e (?strip n)) = map ascii_lower (last (split_on 0x2e (?strip t)))" unfolding labels by (rule last_map [OF some])
  then show ?thesis using parsed labels n by (auto simp: host_parse_def Let_def is_numeric_lower list_all_iff ascii_lower_fixed split: if_splits)
qed

lemma join_set: "set (join sep xs) \<subseteq> set sep \<union> \<Union> (set ` set xs)"
  by (induction sep xs rule: join.induct) auto

lemma join_length: "length (join sep xs) \<le> sum_list (map (\<lambda>x. length x + length sep) xs)"
  by (induction sep xs rule: join.induct) auto

lemma show_ipv4_bytes: "set (show_ipv4 ip) \<subseteq> insert 0x2e (Collect is_ascii_digit)"
  using join_set [of "[0x2e]" "map show_decimal (octets_of ip)"] show_decimal_digits by (fastforce simp: show_ipv4_def list_all_iff)

lemma show_ipv4_length: "length (show_ipv4 ip) \<le> 15"
proof -
  have octet: "length (show_decimal n) \<le> 3" if "n < 256" for n using show_decimal_length [of n 2] that by simp
  obtain a b c d where o: "octets_of ip = [a, b, c, d]" by (simp add: octets_of_def)
  then have "a < 256 \<and> b < 256 \<and> c < 256 \<and> d < 256" using octets_ok(2) [of ip] by simp
  then show ?thesis using octet [of a] octet [of b] octet [of c] octet [of d] by (simp add: show_ipv4_def o)
qed

lemma shown_groups: "set (join [0x3a] (map show_hex gs)) \<subseteq> insert 0x3a (Collect is_hexdigit)"
  using join_set [of "[0x3a]" "map show_hex gs"] show_hex_ok by (fastforce simp: list_all_iff)

lemma shown_groups_length: "list_all (\<lambda>g. g < 65536) gs \<Longrightarrow> length (join [0x3a] (map show_hex gs)) \<le> 5 * length gs"
proof -
  assume "list_all (\<lambda>g. g < 65536) gs"
  then have "sum_list (map (\<lambda>x. length x + length [0x3a :: u8]) (map show_hex gs)) \<le> 5 * length gs"
  proof (induction gs)
    case (Cons g gs)
    then show ?case using show_hex_length [of g 3] by simp
  qed simp
  then show ?thesis using join_length [of "[0x3a]" "map show_hex gs"] by linarith
qed

lemma show_ipv6_bytes: "set (show_ipv6 ip) \<subseteq> {0x2e, 0x3a} \<union> Collect is_hexdigit"
proof (cases "to_mapped ip")
  case None
  then show ?thesis using shown_groups by (auto simp: show_ipv6_def Let_def as_bytes_def split: prod.splits)
next
  case (Some v4)
  then show ?thesis using show_ipv4_bytes [of v4] by (auto simp: show_ipv6_def as_bytes_def is_hexdigit_def is_ascii_digit_def)
qed

lemma show_ipv6_length: "length (show_ipv6 ip) \<le> 100"
proof (cases "to_mapped ip")
  case None
  let ?gs = "groups_of ip"
  have ok: "list_all (\<lambda>g. g < 65536) (take k ?gs)" "list_all (\<lambda>g. g < 65536) (drop k ?gs)" for k
    using groups_ok(2) [of ip] by (auto simp: list_all_iff dest: in_set_takeD in_set_dropD)
  obtain start len where run: "longest_zeros 0 (0, 0) (0, 0) ?gs = (start, len)" by fastforce
  have "length (join [0x3a] (map show_hex (take start ?gs))) \<le> 40" "length (join [0x3a] (map show_hex (drop (start + len) ?gs))) \<le> 40"
    "length (join [0x3a] (map show_hex ?gs)) \<le> 40"
    using shown_groups_length [OF ok(1) [of start]] shown_groups_length [OF ok(2) [of "start + len"]] shown_groups_length [OF groups_ok(2) [of ip]] groups_ok(1) [of ip]
    by auto
  then show ?thesis using None run by (simp add: show_ipv6_def Let_def as_bytes_def)
next
  case (Some v4)
  then show ?thesis using show_ipv4_length [of v4] by (simp add: show_ipv6_def as_bytes_def)
qed

lemma parse_ipv4_show: "parse_ipv4 (show_ipv4 ip) = Some ip"
  using read_ipv4_show [of "[]" ip] show_ipv4_length [of ip] by (simp add: parse_ipv4_def whole_def octets_ok(3))

lemma host_parse_ipv4: "host_parse (show_ipv4 ip) = Some (Ip (V4 ip))"
proof -
  let ?ds = "map show_decimal (octets_of ip)"
  have digits: "\<forall>x \<in> set ?ds. x \<noteq> [] \<and> list_all is_ascii_digit x" using show_decimal_digits by auto
  have nodot: "\<forall>x \<in> set ?ds. 0x2e \<notin> set x" using digits by (fastforce simp: list_all_iff is_ascii_digit_def)
  have some: "?ds \<noteq> []" using octets_ok(1) [of ip] by auto
  have parts: "split_on 0x2e (show_ipv4 ip) = ?ds" unfolding show_ipv4_def by (rule split_on_join [OF some nodot])
  obtain a b c d where o: "octets_of ip = [a, b, c, d]" by (simp add: octets_of_def)
  have d: "last (show_ipv4 ip) \<in> set (show_decimal d)" using show_decimal_digits [of d] by (simp add: show_ipv4_def o)
  then have "last (show_ipv4 ip) \<noteq> 0x2e" using nodot o by auto
  then have "strip_suffix 0x2e (show_ipv4 ip) = None" by (simp add: strip_suffix_def)
  moreover have "is_numeric (last ?ds)" using bspec [OF digits last_in_set [OF some]] unfolding is_numeric_def by blast
  moreover have "list_all (\<lambda>label. label \<noteq> [] \<and> list_all label_byte label) ?ds"
    using digits by (auto simp: list_all_iff label_byte_def is_alphanumeric_def)
  ultimately show ?thesis by (simp add: host_parse_def parts parse_ipv4_show)
qed

subsection \<open>Origins read back\<close>

definition port_show :: "origin \<Rightarrow> bytes" where
  "port_show og = (if og_port og = default_port (og_scheme og) then [] else [0x3a] @ show_decimal (og_port og))"

definition host_ok :: "host \<Rightarrow> bool" where
  "host_ok h \<longleftrightarrow> (case h of Name n \<Rightarrow> host_parse n = Some h | Ip _ \<Rightarrow> True)"

lemma split_once_at: "b \<notin> set x \<Longrightarrow> split_once b (x @ b # y) = Some (x, y)"
  by (induction x) auto

lemma port_parse_show: "0 < og_port og \<Longrightarrow> og_port og < 65536 \<Longrightarrow> port_parse (og_scheme og) (port_show og) = Some (og_port og)"
  using show_decimal_digits [of "og_port og"] show_decimal_length [of "og_port og" 4]
  by (auto simp: port_parse_def port_show_def decimal_def usize_max_def)

lemma authority_parse_show:
  assumes "host_ok h" and "port = [] \<or> hd port = 0x3a"
  shows "authority_parse (host_show h @ port) = Some (h, port)"
proof -
  have named: "authority_parse (t @ port) = Some (h, port)" if t: "host_parse t = Some h" for t
  proof -
    have plain: "t \<noteq> []" "list_all (\<lambda>b. b \<noteq> 0x3a) t" "hd t \<noteq> 0x5b" using host_parse_plain [OF t] plain_not by (auto simp: list_all_iff)
    have "takeWhile (\<lambda>b. b \<noteq> 0x3a) (t @ port) = t" "dropWhile (\<lambda>b. b \<noteq> 0x3a) (t @ port) = port" using while_split [OF plain(2), of port] assms(2) by auto
    then show ?thesis using plain t by (simp add: authority_parse_def)
  qed
  show ?thesis
  proof (cases h)
    case (Name n)
    then show ?thesis using assms(1) named [of n] by (simp add: host_ok_def host_show_def)
  next
    case (Ip ip)
    show ?thesis
    proof (cases ip)
      case (V4 a)
      then show ?thesis using Ip host_parse_ipv4 [of a] named by (simp add: host_show_def)
    next
      case (V6 a)
      have "0x5d \<notin> set (show_ipv6 a)" using show_ipv6_bytes [of a] by (auto simp: is_hexdigit_def is_ascii_digit_def)
      then have "split_once 0x5d (show_ipv6 a @ [0x5d] @ port) = Some (show_ipv6 a, port)" using split_once_at by simp
      then show ?thesis using Ip V6 read_ipv6_show [of a] by (simp add: host_show_def authority_parse_def parse_ipv6_def)
    qed
  qed
qed

lemma host_show_plain: "host_ok h \<Longrightarrow> list_all (\<lambda>b. \<not> ends_authority b) (host_show h)"
proof -
  assume ok: "host_ok h"
  have named: "list_all (\<lambda>b. \<not> ends_authority b) t" if "host_parse t = Some h" for t
    using host_parse_plain [OF that] plain_not by (auto simp: list_all_iff)
  show ?thesis
  proof (cases h)
    case (Name n)
    then show ?thesis using ok named by (simp add: host_ok_def host_show_def)
  next
    case (Ip ip)
    show ?thesis
    proof (cases ip)
      case (V4 a)
      then show ?thesis using Ip host_parse_ipv4 [of a] named by (simp add: host_show_def)
    next
      case (V6 a)
      then show ?thesis using Ip show_ipv6_bytes [of a] hex_plain plain_not
        by (fastforce simp: host_show_def list_all_iff ends_authority_def)
    qed
  qed
qed

lemma split_scheme: "split_text (as_bytes ''://'') (scheme_name s @ as_bytes ''://'' @ rest) = Some (scheme_name s, rest)"
  by (cases s) (simp_all add: scheme_name_def scheme_row_def as_bytes_def)

lemma find_scheme: "List.find (\<lambda>known. eq_ignore_case (scheme_name known) (scheme_name s)) [Http, Https] = Some s"
  by (cases s) (simp_all add: scheme_name_def scheme_row_def as_bytes_def eq_ignore_case_def)

lemma origin_parse_show:
  assumes "host_ok (og_host og)" and "0 < og_port og" and "og_port og < 65536" and "length (origin_show og) \<le> MAX_ORIGIN_BYTES"
  shows "origin_parse (origin_show og) = Some og"
proof -
  let ?authority = "host_show (og_host og) @ port_show og"
  have port: "port_show og = [] \<or> hd (port_show og) = 0x3a" by (simp add: port_show_def)
  have "list_all (\<lambda>b. \<not> ends_authority b) (port_show og)"
    using show_decimal_digits [of "og_port og"] by (auto simp: port_show_def list_all_iff is_ascii_digit_def ends_authority_def)
  then have "list_all (\<lambda>b. \<not> ends_authority b) ?authority" using host_show_plain [OF assms(1)] by simp
  then have whiles: "takeWhile (\<lambda>b. \<not> ends_authority b) ?authority = ?authority" "dropWhile (\<lambda>b. \<not> ends_authority b) ?authority = []"
    using while_split [of "\<lambda>b. \<not> ends_authority b" ?authority "[]"] by auto
  have shown: "origin_show og = scheme_name (og_scheme og) @ as_bytes ''://'' @ ?authority" by (simp add: origin_show_def port_show_def)
  have "origin_split (origin_show og) = Some (og, [])"
    unfolding origin_split_def shown split_scheme option.case prod.case find_scheme Let_def whiles
    by (simp add: authority_parse_show [OF assms(1) port] port_parse_show [OF assms(2,3)])
  then show ?thesis using assms(4) by (simp add: origin_parse_def)
qed

lemma split_text_eq: "split_text pat bs = Some (x, y) \<Longrightarrow> bs = x @ pat @ y"
proof (induction bs arbitrary: x)
  case (Cons b bs)
  show ?case
  proof (cases "take (length pat) (b # bs) = pat")
    case True
    then show ?thesis using Cons.prems append_take_drop_id [of "length pat" "b # bs"] by simp
  next
    case False
    then show ?thesis using Cons by auto
  qed
qed simp

lemma port_parse_bounds: "port_parse s port = Some n \<Longrightarrow> 0 < n \<and> n < 65536 \<and> (n = default_port s \<or> length ([0x3a] @ show_decimal n) \<le> length port)"
proof -
  assume parsed: "port_parse s port = Some n"
  show ?thesis
  proof (cases "port = [] \<or> port = [0x3a]")
    case True
    then show ?thesis using parsed by (cases s) (auto simp: port_parse_def default_port_def scheme_row_def)
  next
    case False
    then have n: "tl port \<noteq> []" "list_all is_ascii_digit (tl port)" "n = digits_value (tl port)" "0 < n" "n < 65536"
      using parsed by (auto simp: port_parse_def decimal_def split: if_splits option.splits)
    obtain k where k: "length (tl port) = Suc k" using n(1) by (cases "tl port") auto
    have "length (show_decimal n) \<le> Suc k" using show_decimal_length [of n k] digits_value_bound [OF n(2)] n(3) k by simp
    moreover have "length port = Suc (Suc k)" using k by (cases port) auto
    ultimately show ?thesis using n by simp
  qed
qed

lemma authority_parse_host:
  assumes "authority_parse authority = Some (h, port)"
  shows "host_ok h \<and> (length (host_show h) + length port \<le> length authority \<or> length (host_show h) \<le> 102)"
proof (cases "authority \<noteq> [] \<and> hd authority = 0x5b")
  case True
  then obtain a where "h = Ip (V6 a)" using assms by (auto simp: authority_parse_def split: option.splits)
  then show ?thesis using show_ipv6_length [of a] by (simp add: host_ok_def host_show_def)
next
  case False
  let ?t = "takeWhile (\<lambda>b. b \<noteq> 0x3a) authority" and ?p = "dropWhile (\<lambda>b. b \<noteq> 0x3a) authority"
  have h: "host_parse ?t = Some h" "port = ?p" using False assms by (auto simp: authority_parse_def)
  have len: "length ?t + length port = length authority" unfolding h(2) by (metis length_append takeWhile_dropWhile_id)
  show ?thesis
  proof (cases h)
    case (Name n)
    then show ?thesis using host_parse_name [of ?t n] h(1) len by (simp add: host_ok_def host_show_def)
  next
    case (Ip ip)
    then obtain a where "ip = V4 a" using h(1) by (auto simp: host_parse_def Let_def split: if_splits)
    then show ?thesis using Ip show_ipv4_length [of a] by (simp add: host_ok_def host_show_def)
  qed
qed

text \<open>
  C36. An origin is its canonical text: whatever spelling of it is accepted, the text it is shown as is accepted too, and is the same origin; so two accepted spellings are
  the same origin exactly if they are shown alike. Names, IPv4 and IPv6 hosts and ports are all covered.
\<close>

theorem origin_canonical:
  assumes "origin_parse t = Some og"
  shows "origin_parse (origin_show og) = Some og \<and> (\<forall>u og'. origin_parse u = Some og' \<longrightarrow> (origin_show og' = origin_show og \<longleftrightarrow> og' = og))"
proof -
  have canonical: "origin_parse (origin_show og) = Some og" if parsed: "origin_parse t = Some og" for t og
  proof -
    obtain scheme rest h port where t: "split_text (as_bytes ''://'') t = Some (scheme, rest)" "eq_ignore_case (scheme_name (og_scheme og)) scheme"
      "authority_parse (takeWhile (\<lambda>b. \<not> ends_authority b) rest) = Some (og_host og, port)" "port_parse (og_scheme og) port = Some (og_port og)"
      and len: "length t \<le> MAX_ORIGIN_BYTES"
      using parsed by (auto simp: origin_parse_def origin_split_def Let_def split: option.splits if_splits)
    note bounds = port_parse_bounds [OF t(4)]
    note host = authority_parse_host [OF t(3)]
    have "length scheme = length (scheme_name (og_scheme og))" using t(2) by (simp add: eq_ignore_case_def) (metis length_map)
    then have text': "length (scheme_name (og_scheme og)) + 3 + length (takeWhile (\<lambda>b. \<not> ends_authority b) rest) \<le> length t"
      using arg_cong [OF split_text_eq [OF t(1)], of length] length_takeWhile_le [of "\<lambda>b. \<not> ends_authority b" rest] by (simp add: as_bytes_def)
    have shown: "length (origin_show og) = length (scheme_name (og_scheme og)) + 3 + length (host_show (og_host og)) + length (port_show og)"
      by (simp add: origin_show_def port_show_def as_bytes_def)
    have names: "length (scheme_name (og_scheme og)) \<le> 5" by (cases "og_scheme og") (simp_all add: scheme_name_def scheme_row_def as_bytes_def)
    have digits: "length (port_show og) \<le> 6" using show_decimal_length [of "og_port og" 4] bounds by (simp add: port_show_def)
    have short: "length (port_show og) \<le> length port" using bounds by (auto simp: port_show_def)
    have "length (origin_show og) \<le> MAX_ORIGIN_BYTES"
      using host text' shown names digits short len by (auto simp: MAX_ORIGIN_BYTES_def)
    then show ?thesis using origin_parse_show host bounds by blast
  qed
  show ?thesis using canonical [OF assms] canonical by (metis option.inject)
qed

theorem origin_canonical_witness:
  "\<exists>og. origin_parse (as_bytes ''HTTPS://Meter.Example:'') = Some og \<and> origin_show og = as_bytes ''https://meter.example'' \<and>
     origin_parse (as_bytes ''https://meter.example'') = Some og"
proof -
  have "origin_parse (as_bytes ''HTTPS://Meter.Example:'') = Some \<lparr>og_scheme = Https, og_host = Name (as_bytes ''meter.example''), og_port = 443\<rparr>"
    by (simp add: origin_parse_def origin_split_def authority_parse_def host_parse_def strip_suffix_def port_parse_def is_numeric_def scheme_name_def scheme_row_def
        default_port_def eq_ignore_case_def ascii_lower_def ends_authority_def label_byte_def is_alphanumeric_def is_ascii_digit_def MAX_ORIGIN_BYTES_def as_bytes_def)
  moreover have "origin_show \<lparr>og_scheme = Https, og_host = Name (as_bytes ''meter.example''), og_port = 443\<rparr> = as_bytes ''https://meter.example''"
    by (simp add: origin_show_def scheme_name_def scheme_row_def host_show_def default_port_def as_bytes_def)
  ultimately show ?thesis using origin_canonical [of "as_bytes ''HTTPS://Meter.Example:''"] by metis
qed

end
