(* ===== verification/Lane.thy ===== *)
theory Lane
  imports Prelude
begin

text \<open>
  Lanes, \<^verbatim>\<open>rust/server/src/lane.rs\<close> with \<^verbatim>\<open>rust/proto/src/lane.rs\<close>: the time bounds of an admitted request and the one place its ending is
  decided, and the work running on a connection. Instants are nanoseconds. \<open>ended\<close> is an \<open>async\<close> function: \<open>lane_poll\<close> is one
  poll of its \<open>select\<close>, biased in the order of its branches. Whether the sign-in was revoked and whether the server shuts
  down are read of cancellation tokens, and are arguments.
\<close>

subsection \<open>The model\<close>

definition IDLE_BOUND :: nat where "IDLE_BOUND = 30 * 1000000000"

datatype lane_ending = Finished | Idle | Lifetime | Revoked | Shutdown

definition lane_ending_name :: "lane_ending \<Rightarrow> string" where
  "lane_ending_name e = (case e of Finished \<Rightarrow> ''finished'' | Idle \<Rightarrow> ''idle'' | Lifetime \<Rightarrow> ''lifetime'' | Revoked \<Rightarrow> ''revoked'' | Shutdown \<Rightarrow> ''shutdown'')"

definition websocket_code :: "lane_ending \<Rightarrow> u16" where
  "websocket_code e = (case e of Finished \<Rightarrow> 1000 | Idle \<Rightarrow> 4001 | Lifetime \<Rightarrow> 4002 | Revoked \<Rightarrow> 1008 | Shutdown \<Rightarrow> 1001)"

definition webtransport_code :: "lane_ending \<Rightarrow> u32" where
  "webtransport_code e = (case e of Finished \<Rightarrow> 0 | Idle \<Rightarrow> 1 | Lifetime \<Rightarrow> 2 | Revoked \<Rightarrow> 3 | Shutdown \<Rightarrow> 4)"

record lane =
  ln_start :: nat
  ln_deadline :: nat
  ln_moved :: u64
  ln_ending :: "lane_ending option"
  ln_decided :: bool

definition lane_start :: "nat \<Rightarrow> nat \<Rightarrow> lane" where
  "lane_start lifetime now = \<lparr>ln_start = now, ln_deadline = now + lifetime, ln_moved = 0, ln_ending = None, ln_decided = False\<rparr>"

definition lane_moved :: "lane \<Rightarrow> nat \<Rightarrow> lane" where
  "lane_moved l now = l\<lparr>ln_moved := of_nat (min (now - ln_start l) (2 ^ 64 - 1))\<rparr>"

definition lane_decide :: "lane \<Rightarrow> lane_ending \<Rightarrow> lane_ending \<times> lane" where
  "lane_decide l cause = (case ln_ending l of
       Some e \<Rightarrow> (e, l)
     | None \<Rightarrow> (cause, l\<lparr>ln_ending := Some cause, ln_decided := True\<rparr>))"

definition lane_finish :: "lane \<Rightarrow> lane_ending \<times> lane" where
  "lane_finish l = lane_decide l Finished"

definition lane_due :: "lane \<Rightarrow> bool \<Rightarrow> bool \<Rightarrow> nat \<Rightarrow> lane_ending option \<times> lane" where
  "lane_due l revoked shutdown now = (case ln_ending l of
       Some e \<Rightarrow> (Some e, l)
     | None \<Rightarrow>
         if revoked then map_prod Some id (lane_decide l Revoked)
         else if shutdown then map_prod Some id (lane_decide l Shutdown)
         else if now \<ge> ln_deadline l then map_prod Some id (lane_decide l Lifetime)
         else (None, l))"

text \<open>The instant the idle bound ends the lane.\<close>

definition lane_idle_at :: "lane \<Rightarrow> nat" where
  "lane_idle_at l = ln_start l + unat (ln_moved l) + IDLE_BOUND"

definition lane_poll :: "lane \<Rightarrow> bool \<Rightarrow> bool \<Rightarrow> nat \<Rightarrow> lane_ending option \<times> lane" where
  "lane_poll l revoked shutdown now =
     (if ln_decided l then map_prod Some id (lane_decide l Finished)
      else if revoked then map_prod Some id (lane_decide l Revoked)
      else if shutdown then map_prod Some id (lane_decide l Shutdown)
      else if now \<ge> ln_deadline l then map_prod Some id (lane_decide l Lifetime)
      else if now \<ge> lane_idle_at l then map_prod Some id (lane_decide l Idle)
      else (None, l))"

subsection \<open>Every caller sees the first ending\<close>

text \<open>
  The calls of a lane's holders in any order: the lane, the answers given so far, each with the call that got it (and what that
  call read of the two cancellation tokens), the last movement before it and its instant, and the last movement and the time.
\<close>

datatype lane_call = FinishCall | DueCall (saw_revoked: bool) (saw_shutdown: bool) | PollCall (saw_revoked: bool) (saw_shutdown: bool)

type_synonym lane_answer = "lane_ending \<times> lane_call \<times> nat \<times> nat"
type_synonym lane_world = "lane \<times> lane_answer list \<times> nat \<times> nat"

definition lane_answers :: "lane_ending option \<Rightarrow> lane_call \<Rightarrow> nat \<Rightarrow> nat \<Rightarrow> lane_answer list" where
  "lane_answers e c m t = (case e of None \<Rightarrow> [] | Some e \<Rightarrow> [(e, c, m, t)])"

inductive lane_step :: "lane_world \<Rightarrow> lane_world \<Rightarrow> bool" where
  moved: "now \<le> t \<Longrightarrow> t < ln_start l + 2 ^ 64 \<Longrightarrow> lane_step (l, as, m, now) (lane_moved l t, as, t, t)"
| finish: "now \<le> t \<Longrightarrow> lane_finish l = (e, l') \<Longrightarrow> lane_step (l, as, m, now) (l', as @ lane_answers (Some e) FinishCall m t, m, t)"
| due: "now \<le> t \<Longrightarrow> lane_due l revoked shutdown t = (e, l') \<Longrightarrow>
    lane_step (l, as, m, now) (l', as @ lane_answers e (DueCall revoked shutdown) m t, m, t)"
| poll: "now \<le> t \<Longrightarrow> lane_poll l revoked shutdown t = (e, l') \<Longrightarrow>
    lane_step (l, as, m, now) (l', as @ lane_answers e (PollCall revoked shutdown) m t, m, t)"

text \<open>What must hold when an ending is decided: the cause held, and none that goes before it.\<close>

definition ending_due :: "nat \<Rightarrow> lane_answer \<Rightarrow> bool" where
  "ending_due deadline answer = (case answer of (e, c, m, t) \<Rightarrow> (case e of
       Finished \<Rightarrow> c = FinishCall
     | Revoked \<Rightarrow> c \<noteq> FinishCall \<and> saw_revoked c
     | Shutdown \<Rightarrow> c \<noteq> FinishCall \<and> \<not> saw_revoked c \<and> saw_shutdown c
     | Lifetime \<Rightarrow> c \<noteq> FinishCall \<and> \<not> saw_revoked c \<and> \<not> saw_shutdown c \<and> deadline \<le> t
     | Idle \<Rightarrow> c = PollCall False False \<and> t < deadline \<and> m + IDLE_BOUND \<le> t))"

definition answers_agree :: "nat \<Rightarrow> lane_ending option \<Rightarrow> lane_answer list \<Rightarrow> bool" where
  "answers_agree deadline ending as \<longleftrightarrow> (case as of
       [] \<Rightarrow> ending = None
     | a # as \<Rightarrow> ending = Some (fst a) \<and> ending_due deadline a \<and> (\<forall>b \<in> set as. fst b = fst a))"

fun lane_inv :: "nat \<Rightarrow> nat \<Rightarrow> lane_world \<Rightarrow> bool" where
  "lane_inv start lifetime (l, as, m, now) \<longleftrightarrow> ln_start l = start \<and> ln_deadline l = start + lifetime \<and> start \<le> m \<and> m \<le> now \<and>
     unat (ln_moved l) = m - start \<and> ln_decided l = (ln_ending l \<noteq> None) \<and> answers_agree (start + lifetime) (ln_ending l) as"

lemma answers_agree_more:
  "answers_agree d (Some e) as \<Longrightarrow> answers_agree d (Some e) (as @ lane_answers (Some e) c m t)"
  by (auto simp: answers_agree_def lane_answers_def split: list.splits)

lemma lane_decide_inv:
  assumes "lane_inv start lifetime (l, as, m, now)" "now \<le> t" and "lane_decide l cause = (e, l')"
    and "ln_ending l = None \<Longrightarrow> ending_due (ln_deadline l) (cause, c, m, t)"
  shows "lane_inv start lifetime (l', as @ lane_answers (Some e) c m t, m, t)"
proof (cases "ln_ending l")
  case None
  then have "as = []" using assms(1) by (auto simp: answers_agree_def split: list.splits)
  then show ?thesis using assms None by (auto simp: lane_decide_def answers_agree_def lane_answers_def)
next
  case (Some f)
  then show ?thesis using assms answers_agree_more by (auto simp: lane_decide_def)
qed

text \<open>What a call that may answer does: nothing, or it decides for a cause that holds.\<close>

definition lane_decides :: "lane \<Rightarrow> lane_ending option \<Rightarrow> lane \<Rightarrow> lane_call \<Rightarrow> nat \<Rightarrow> nat \<Rightarrow> bool" where
  "lane_decides l e l' c m t \<longleftrightarrow> (e = None \<and> l' = l) \<or>
     (\<exists>cause f. lane_decide l cause = (f, l') \<and> e = Some f \<and> (ln_ending l = None \<longrightarrow> ending_due (ln_deadline l) (cause, c, m, t)))"

lemma lane_decides_inv:
  assumes "lane_inv start lifetime (l, as, m, now)" "now \<le> t" and "lane_decides l e l' c m t"
  shows "lane_inv start lifetime (l', as @ lane_answers e c m t, m, t)"
  using assms(3) unfolding lane_decides_def
proof
  assume "e = None \<and> l' = l"
  then show ?thesis using assms(1,2) by (auto simp: lane_answers_def)
next
  assume "\<exists>cause f. lane_decide l cause = (f, l') \<and> e = Some f \<and> (ln_ending l = None \<longrightarrow> ending_due (ln_deadline l) (cause, c, m, t))"
  then show ?thesis using lane_decide_inv [OF assms(1,2)] by auto
qed

lemma lane_step_inv:
  assumes "lane_step w w'" and "lane_inv start lifetime w"
  shows "lane_inv start lifetime w'"
  using assms
proof (induction rule: lane_step.induct)
  case (moved now t l as m)
  then have "t - start < 2 ^ 64" "ln_start l = start" by auto
  then have "unat (ln_moved (lane_moved l t)) = t - start" unfolding lane_moved_def by (simp add: min_def unat_of_small del: of_nat_diff)
  then show ?case using moved by (auto simp: lane_moved_def)
next
  case (finish now t l e l' as m)
  have "ending_due (ln_deadline l) (Finished, FinishCall, m, t)" by (simp add: ending_due_def)
  then show ?case using lane_decide_inv [OF finish(3,1), of Finished e l'] finish(2) by (simp add: lane_finish_def)
next
  case (due now t l revoked shutdown e l' as m)
  have "lane_decides l e l' (DueCall revoked shutdown) m t"
    using due(2) by (auto simp: lane_decides_def lane_due_def lane_decide_def ending_due_def split: if_splits option.splits)
  then show ?case by (rule lane_decides_inv [OF due(3,1)])
next
  case (poll now t l revoked shutdown e l' as m)
  have "lane_idle_at l = m + IDLE_BOUND" "ln_decided l = (ln_ending l \<noteq> None)" using poll(3) by (auto simp: lane_idle_at_def)
  then have "lane_decides l e l' (PollCall revoked shutdown) m t"
    using poll(2) by (auto simp: lane_decides_def lane_poll_def lane_decide_def ending_due_def split: if_splits option.splits)
  then show ?case by (rule lane_decides_inv [OF poll(3,1)])
qed

lemma lane_inv_reachable:
  assumes "lane_step\<^sup>*\<^sup>* (lane_start lifetime start, [], start, start) w"
  shows "lane_inv start lifetime w"
  using assms
proof (induction rule: rtranclp_induct)
  case base
  show ?case by (simp add: lane_start_def answers_agree_def)
qed (use lane_step_inv in blast)

text \<open>
  C31. A lane has one ending: all its holders, whatever they call and when, get the same one, which is its first. It was decided for a
  cause that held: as finished by a call of \<open>finish\<close>, as revoked by a call that saw the sign-in revoked, for the shutdown by one that saw the server
  shut down and no revocation, for its lifetime only when that was over and neither was seen, as idle only by a poll before the deadline and after the idle bound
  without traffic. A poll that sees a revocation or a shutdown, or comes at or after the deadline or the idle bound after the last movement, gets an ending; so does a
  \<open>due\<close>, but for the idle bound.
\<close>

theorem lane_ends_once:
  assumes "lane_step\<^sup>*\<^sup>* (lane_start lifetime start, [], start, start) (l, as, m, now)"
  shows "(case as of [] \<Rightarrow> ln_ending l = None
      | (e, c, m\<^sub>0, t\<^sub>0) # rest \<Rightarrow> ln_ending l = Some e \<and> (\<forall>(e', _) \<in> set rest. e' = e) \<and> (e = Finished \<longleftrightarrow> c = FinishCall) \<and>
          (e = Revoked \<longrightarrow> saw_revoked c) \<and> (e = Shutdown \<longrightarrow> saw_shutdown c \<and> \<not> saw_revoked c) \<and>
          (e = Lifetime \<longrightarrow> start + lifetime \<le> t\<^sub>0 \<and> \<not> saw_revoked c \<and> \<not> saw_shutdown c) \<and>
          (e = Idle \<longrightarrow> c = PollCall False False \<and> t\<^sub>0 < start + lifetime \<and> m\<^sub>0 + IDLE_BOUND \<le> t\<^sub>0)) \<and>
    (\<forall>revoked shutdown t. revoked \<or> shutdown \<or> min (start + lifetime) (m + IDLE_BOUND) \<le> t \<longrightarrow> fst (lane_poll l revoked shutdown t) \<noteq> None) \<and>
    (\<forall>revoked shutdown t. revoked \<or> shutdown \<or> start + lifetime \<le> t \<longrightarrow> fst (lane_due l revoked shutdown t) \<noteq> None)"
proof -
  have inv: "lane_inv start lifetime (l, as, m, now)" by (rule lane_inv_reachable [OF assms])
  have "fst (lane_poll l revoked shutdown t) \<noteq> None" if "revoked \<or> shutdown \<or> min (start + lifetime) (m + IDLE_BOUND) \<le> t" for revoked shutdown t
    using inv that by (auto simp: lane_poll_def lane_idle_at_def lane_decide_def split: option.splits)
  moreover have "fst (lane_due l revoked shutdown t) \<noteq> None" if "revoked \<or> shutdown \<or> start + lifetime \<le> t" for revoked shutdown t
    using inv that by (auto simp: lane_due_def lane_decide_def split: option.splits)
  moreover have "case as of [] \<Rightarrow> ln_ending l = None
      | (e, c, m\<^sub>0, t\<^sub>0) # rest \<Rightarrow> ln_ending l = Some e \<and> (\<forall>(e', _) \<in> set rest. e' = e) \<and> ending_due (start + lifetime) (e, c, m\<^sub>0, t\<^sub>0)"
    using inv by (auto simp: answers_agree_def split: list.splits)
  moreover have "(e = Finished \<longleftrightarrow> c = FinishCall) \<and> (e = Revoked \<longrightarrow> saw_revoked c) \<and> (e = Shutdown \<longrightarrow> saw_shutdown c \<and> \<not> saw_revoked c) \<and>
      (e = Lifetime \<longrightarrow> start + lifetime \<le> t\<^sub>0 \<and> \<not> saw_revoked c \<and> \<not> saw_shutdown c) \<and>
      (e = Idle \<longrightarrow> c = PollCall False False \<and> t\<^sub>0 < start + lifetime \<and> m\<^sub>0 + IDLE_BOUND \<le> t\<^sub>0)"
    if "ending_due (start + lifetime) (e, c, m\<^sub>0, t\<^sub>0)" for e c m\<^sub>0 t\<^sub>0
    using that by (cases e) (auto simp: ending_due_def)
  ultimately show ?thesis by (auto split: list.splits)
qed

theorem lane_ends_once_witness:
  "\<exists>l. lane_step\<^sup>*\<^sup>* (lane_start 5 0, [], 0, 0) (l, [(Shutdown, PollCall False True, 0, 6), (Shutdown, FinishCall, 0, 7)], 0, 7) \<and> ln_ending l = Some Shutdown"
proof -
  let ?l = "(lane_start 5 0)\<lparr>ln_ending := Some Shutdown, ln_decided := True\<rparr>"
  let ?a = "(Shutdown, PollCall False True, 0, 6)"
  have "lane_poll (lane_start 5 0) False True 6 = (Some Shutdown, ?l)" by (simp add: lane_poll_def lane_start_def lane_decide_def)
  from lane_step.poll [OF _ this, of 0 "[]" 0]
  have 1: "lane_step (lane_start 5 0, [], 0, 0) (?l, [?a], 0, 6)" by (simp add: lane_answers_def)
  have "lane_finish ?l = (Shutdown, ?l)" by (simp add: lane_finish_def lane_decide_def)
  from lane_step.finish [OF _ this, of 6 7 "[?a]" 0]
  have 2: "lane_step (?l, [?a], 0, 6) (?l, [?a, (Shutdown, FinishCall, 0, 7)], 0, 7)" by (simp add: lane_answers_def)
  have "lane_step\<^sup>*\<^sup>* (lane_start 5 0, [], 0, 0) (?l, [?a, (Shutdown, FinishCall, 0, 7)], 0, 7)" using 1 2 by auto
  from lane_ends_once [OF this] this show ?thesis by auto
qed

subsection \<open>Work on a connection\<close>

record work =
  wk_running :: nat
  wk_idle_since :: nat

definition work_default :: "nat \<Rightarrow> work" where
  "work_default now = \<lparr>wk_running = 0, wk_idle_since = now\<rparr>"

definition work_start :: "work \<Rightarrow> work" where
  "work_start w = w\<lparr>wk_running := wk_running w + 1\<rparr>"

definition work_idle_since :: "work \<Rightarrow> nat option" where
  "work_idle_since w = (if wk_running w = 0 then Some (wk_idle_since w) else None)"

definition work_drop :: "work \<Rightarrow> nat \<Rightarrow> work" where
  "work_drop w now =
     (let running = wk_running w - 1
      in if running = 0 then w\<lparr>wk_running := running, wk_idle_since := now\<rparr> else w\<lparr>wk_running := running\<rparr>)"

text \<open>While guards are held the connection is not idle; it is idle since the last of them was dropped.\<close>

lemma work_idle:
  "work_idle_since (work_start w) = None"
  "wk_running w = Suc n \<Longrightarrow> work_idle_since (work_drop w now) = (if n = 0 then Some now else None)"
  by (simp_all add: work_idle_since_def work_start_def work_drop_def)

end
