(* ===== verification/Retry.thy ===== *)
theory Retry
  imports Quota Lane Decimal
begin

text \<open>
  Failures of the client and what it does about them: \<^verbatim>\<open>rust/client/src/net/fault.rs\<close> (reasons, classes and the faults an answer means) with the tables
  of \<^verbatim>\<open>rust/proto/src/refusal.rs\<close> and \<^verbatim>\<open>reason.rs\<close>, and the retry rule of \<^verbatim>\<open>rust/client/src/net/retry.rs\<close>. Texts that only a view shows are
  left out of the faults; an origin is its text, a status its number, a duration and an instant are nanoseconds.
\<close>

subsection \<open>The model: faults\<close>

datatype failure_reason =
    PathFailed | ConnectionLost | FailureTimeout | SignInRequired | FailureClientLimit | FailureServerCapacity
  | ProtocolError | InsufficientEvidence | ServerStopped | InternalError

definition REFUSAL_HEADER :: bytes where "REFUSAL_HEADER = as_bytes ''graphite-meter-refusal''"
definition SIGN_IN_HEADER :: bytes where "SIGN_IN_HEADER = as_bytes ''graphite-meter-auth''"

definition REFUSALS :: "refusal list" where
  "REFUSALS = [InvalidId, OwnerMismatch, RefusalIdle, RefusalRevoked, ClientLimit, ServerCapacity, WrongProtocol]"

definition refusal_row :: "refusal \<Rightarrow> string \<times> nat \<times> failure_reason" where
  "refusal_row r = (case r of
       InvalidId \<Rightarrow> (''invalid'', 400, ProtocolError)
     | OwnerMismatch \<Rightarrow> (''owner-mismatch'', 403, ProtocolError)
     | RefusalIdle \<Rightarrow> (''idle'', 408, FailureTimeout)
     | RefusalRevoked \<Rightarrow> (''revoked'', 403, SignInRequired)
     | ClientLimit \<Rightarrow> (''client-limit'', 429, FailureClientLimit)
     | ServerCapacity \<Rightarrow> (''server-capacity'', 503, FailureServerCapacity)
     | WrongProtocol \<Rightarrow> (''wrong-protocol'', 409, PathFailed))"

definition refusal_code :: "refusal \<Rightarrow> bytes" where "refusal_code r = as_bytes (fst (refusal_row r))"
definition refusal_status :: "refusal \<Rightarrow> nat" where "refusal_status r = fst (snd (refusal_row r))"
definition refusal_reason :: "refusal \<Rightarrow> failure_reason" where "refusal_reason r = snd (snd (refusal_row r))"

definition find_refusal :: "bytes \<Rightarrow> refusal option" where
  "find_refusal code = find (\<lambda>r. refusal_code r = code) REFUSALS"

definition ending_refusal :: "lane_ending \<Rightarrow> refusal option" where
  "ending_refusal e = (case e of Idle \<Rightarrow> Some RefusalIdle | Revoked \<Rightarrow> Some RefusalRevoked | _ \<Rightarrow> None)"

datatype route =
    Preflight | Probe | RouteDownload | RouteUpload | UploadProgress | RouteLease | RoutePing | WsProgress | WtDownload | WtUpload | WtPing
  | Servers | UploadCheckpoint

datatype connect_error = Proxy | Unreachable | ConnectRefused | TargetUnreachable | Tls | ConnectIo

datatype fault =
    Connect connect_error
  | FaultLost
  | FaultTimedOut
  | Status nat route "nat option"
  | SignInAnswer nat
  | FaultRefused refusal
  | FaultEnded lane_ending
  | SignIn bytes
  | FaultMalformed
  | Incompatible
  | Internal

datatype fault_class = Redial | Busy nat | Final

definition upload_control :: "route \<Rightarrow> bool" where
  "upload_control r \<longleftrightarrow> r \<in> {RouteLease, UploadProgress, UploadCheckpoint}"

definition busy_status :: "nat \<Rightarrow> bool" where
  "busy_status status \<longleftrightarrow> status = 429 \<or> status = 503"

definition is_server_error :: "nat \<Rightarrow> bool" where
  "is_server_error status \<longleftrightarrow> 500 \<le> status \<and> status < 600"

definition status_reason :: "nat \<Rightarrow> failure_reason" where
  "status_reason status = (if status = 429 then FailureClientLimit else if busy_status status then FailureServerCapacity else ProtocolError)"

definition fault_reason :: "fault \<Rightarrow> failure_reason" where
  "fault_reason f = (case f of
       Connect e \<Rightarrow> if e = Proxy \<or> e = ConnectRefused \<or> e = Tls then PathFailed else ConnectionLost
     | FaultLost \<Rightarrow> ConnectionLost
     | FaultEnded e \<Rightarrow> (case e of Finished \<Rightarrow> ConnectionLost | Shutdown \<Rightarrow> ServerStopped | Revoked \<Rightarrow> SignInRequired | _ \<Rightarrow> FailureTimeout)
     | SignIn _ \<Rightarrow> SignInRequired
     | SignInAnswer status \<Rightarrow> if status = 410 then SignInRequired else status_reason status
     | FaultTimedOut \<Rightarrow> FailureTimeout
     | Status status _ _ \<Rightarrow> status_reason status
     | FaultMalformed \<Rightarrow> ProtocolError
     | Incompatible \<Rightarrow> PathFailed
     | Internal \<Rightarrow> InternalError
     | FaultRefused r \<Rightarrow> refusal_reason r)"

definition class_of :: "fault \<Rightarrow> fault_class" where
  "class_of f = (case f of
       Status status from retry_after \<Rightarrow>
         if busy_status status then Busy (case retry_after of None \<Rightarrow> 0 | Some d \<Rightarrow> d)
         else if is_server_error status \<and> upload_control from then Redial else Final
     | SignInAnswer status \<Rightarrow> if is_server_error status \<or> status = 408 then Redial else Final
     | Connect e \<Rightarrow> if e = Proxy \<or> e = ConnectRefused \<or> e = Tls then Final else Redial
     | FaultEnded e \<Rightarrow> if e = Revoked \<or> e = Shutdown then Final else Redial
     | FaultLost \<Rightarrow> Redial
     | FaultTimedOut \<Rightarrow> Redial
     | _ \<Rightarrow> Final)"

definition fault_refusal :: "refusal \<Rightarrow> route \<Rightarrow> nat option \<Rightarrow> bytes \<Rightarrow> fault" where
  "fault_refusal r from retry_after issuer = (case r of
       RefusalIdle \<Rightarrow> FaultEnded Idle
     | RefusalRevoked \<Rightarrow> SignIn issuer
     | ServerCapacity \<Rightarrow> Status (refusal_status r) from retry_after
     | ClientLimit \<Rightarrow> Status (refusal_status r) from retry_after
     | r \<Rightarrow> FaultRefused r)"

definition parse_retry_after :: "bytes \<Rightarrow> nat option" where
  "parse_retry_after val =
     (if list_all is_ascii_digit val \<and> val \<noteq> [] \<and> digits_value val < 2 ^ 32 then Some (digits_value val * 1000000000) else None)"

text \<open>\<open>headers\<close> looks up a header whose value is text.\<close>

definition fault_answer :: "nat \<Rightarrow> (bytes \<Rightarrow> bytes option) \<Rightarrow> route \<Rightarrow> bytes \<Rightarrow> fault option" where
  "fault_answer status headers from issuer =
     (if status = 200 then None
      else if status = 403 \<and> headers SIGN_IN_HEADER = Some (as_bytes ''required'') then Some (SignIn issuer)
      else let retry_after = Option.bind (headers (as_bytes ''retry-after'')) parse_retry_after
           in Some (case Option.bind (headers REFUSAL_HEADER) find_refusal of
                Some r \<Rightarrow> fault_refusal r from retry_after issuer
              | None \<Rightarrow> Status status from retry_after))"

subsection \<open>The model: retries\<close>

definition REDIAL_WINDOW :: nat where "REDIAL_WINDOW = 2000 * 1000000"
definition QUICK_FAILURE :: nat where "QUICK_FAILURE = 500 * 1000000"
definition BUSY_FIRST :: nat where "BUSY_FIRST = 300 * 1000000"
definition BUSY_CAP :: nat where "BUSY_CAP = 1200 * 1000000"

record attempt =
  at_started :: nat
  at_moved :: bool

record retry =
  rt_failing_since :: "nat option"
  rt_busy :: nat

definition retry_default :: retry where
  "retry_default = \<lparr>rt_failing_since = None, rt_busy = 0\<rparr>"

definition clamp :: "nat \<Rightarrow> nat \<Rightarrow> nat \<Rightarrow> nat" where
  "clamp low high n = (if n < low then low else if n > high then high else n)"

definition retry_after :: "retry \<Rightarrow> fault \<Rightarrow> attempt \<Rightarrow> nat \<Rightarrow> (fault + nat) \<times> retry" where
  "retry_after r fault a now =
     (let r = (if at_moved a then r\<lparr>rt_failing_since := None\<rparr> else r);
          (failing, r) = (if at_moved a then (None, r)
            else let since = (case rt_failing_since r of None \<Rightarrow> at_started a | Some since \<Rightarrow> since)
                 in (Some since, r\<lparr>rt_failing_since := Some since\<rparr>))
      in if class_of fault = Final \<or> (case failing of None \<Rightarrow> False | Some since \<Rightarrow> now - since \<ge> REDIAL_WINDOW)
         then (Inl fault, r)
         else (case class_of fault of
             Busy asked \<Rightarrow>
               let r = r\<lparr>rt_busy := clamp BUSY_FIRST BUSY_CAP (rt_busy r * 2)\<rparr>
               in (Inr (min (max (rt_busy r) asked) BUSY_CAP), r)
           | _ \<Rightarrow> (Inr (if now - at_started a < QUICK_FAILURE then QUICK_FAILURE else 0), r\<lparr>rt_busy := 0\<rparr>)))"

text \<open>
  The loop of \<open>retrying\<close>, with fuel. The attempts are an argument: what each answers, how long it takes, and how much later than asked the sleep
  after it ends.
\<close>

fun retrying :: "nat \<Rightarrow> (nat \<Rightarrow> (fault + 'a) \<times> nat \<times> nat) \<Rightarrow> nat \<Rightarrow> nat \<Rightarrow> retry \<Rightarrow> (fault + 'a) option" where
  "retrying 0 work i now r = None"
| "retrying (Suc fuel) work i now r = (case work i of
       (Inr val, _, _) \<Rightarrow> Some (Inr val)
     | (Inl fault, took, late) \<Rightarrow>
         (case retry_after r fault \<lparr>at_started = now, at_moved = False\<rparr> (now + took) of
            (Inl fault, _) \<Rightarrow> Some (Inl fault)
          | (Inr pause, r) \<Rightarrow> retrying fuel work (Suc i) (now + took + pause + late) r))"

subsection \<open>The retry rule\<close>

lemma clamp_bounds: "low \<le> high \<Longrightarrow> low \<le> clamp low high n \<and> clamp low high n \<le> high"
  by (simp add: clamp_def)

lemma busy_pause: "BUSY_FIRST \<le> min (max (clamp BUSY_FIRST BUSY_CAP n) asked) BUSY_CAP"
  using clamp_bounds [of BUSY_FIRST BUSY_CAP n] by (auto simp: BUSY_FIRST_def BUSY_CAP_def)

text \<open>What the rule answers when no bytes moved.\<close>

lemma retry_after_failed:
  assumes run: "retry_after r fault \<lparr>at_started = started, at_moved = False\<rparr> now = (res, r')"
    and since: "since = (case rt_failing_since r of None \<Rightarrow> started | Some since \<Rightarrow> since)"
  shows "(res = Inl fault \<and> (class_of fault = Final \<or> since + REDIAL_WINDOW \<le> now)) \<or>
    (\<exists>pause. res = Inr pause \<and> class_of fault \<noteq> Final \<and> now < since + REDIAL_WINDOW \<and> rt_failing_since r' = Some since \<and> pause \<le> BUSY_CAP \<and>
       (started \<le> now \<longrightarrow> started + BUSY_FIRST \<le> now + pause))"
proof -
  have window: "0 < REDIAL_WINDOW" by (simp add: REDIAL_WINDOW_def)
  show ?thesis
  proof (cases "class_of fault = Final \<or> now - since \<ge> REDIAL_WINDOW")
    case True
    then have "res = Inl fault" using run since by (cases "rt_failing_since r") (auto simp: retry_after_def Let_def)
    then show ?thesis using True window by auto
  next
    case False
    then have go: "retry_after r fault \<lparr>at_started = started, at_moved = False\<rparr> now = (case class_of fault of
        Busy asked \<Rightarrow> (Inr (min (max (clamp BUSY_FIRST BUSY_CAP (rt_busy r * 2)) asked) BUSY_CAP),
          r\<lparr>rt_failing_since := Some since, rt_busy := clamp BUSY_FIRST BUSY_CAP (rt_busy r * 2)\<rparr>)
      | _ \<Rightarrow> (Inr (if now - started < QUICK_FAILURE then QUICK_FAILURE else 0), r\<lparr>rt_failing_since := Some since, rt_busy := 0\<rparr>))"
      using since by (cases "rt_failing_since r") (auto simp: retry_after_def Let_def split: fault_class.splits)
    have before: "now < since + REDIAL_WINDOW" using False window by linarith
    show ?thesis
    proof (cases "class_of fault")
      case Redial
      let ?pause = "if now - started < QUICK_FAILURE then QUICK_FAILURE else 0"
      have "res = Inr ?pause" "rt_failing_since r' = Some since" using Redial run go by auto
      moreover have "?pause \<le> BUSY_CAP" "started \<le> now \<longrightarrow> started + BUSY_FIRST \<le> now + ?pause"
        by (auto simp: QUICK_FAILURE_def BUSY_FIRST_def BUSY_CAP_def)
      ultimately show ?thesis using Redial before by simp
    next
      case (Busy asked)
      then have "res = Inr (min (max (clamp BUSY_FIRST BUSY_CAP (rt_busy r * 2)) asked) BUSY_CAP)" "rt_failing_since r' = Some since" using run go by auto
      then show ?thesis using busy_pause [of "rt_busy r * 2" asked] Busy before by auto
    qed (use False in simp)
  qed
qed

lemma retrying_runs:
  assumes "8 \<le> i + fuel" "i \<le> 7" and "case rt_failing_since r of None \<Rightarrow> i = 0 | Some since \<Rightarrow> since + i * BUSY_FIRST \<le> now"
  shows "retrying fuel work i now r \<noteq> None"
  using assms
proof (induction fuel arbitrary: i now r)
  case (Suc fuel)
  obtain out took late where w: "work i = (out, took, late)" by (metis prod_cases3)
  show ?case
  proof (cases out)
    case (Inr val)
    then show ?thesis using w by simp
  next
    case (Inl fault)
    define since where "since = (case rt_failing_since r of None \<Rightarrow> now | Some since \<Rightarrow> since)"
    have start: "since + i * BUSY_FIRST \<le> now" using Suc.prems(3) by (auto simp: since_def split: option.splits)
    obtain res r' where run: "retry_after r fault \<lparr>at_started = now, at_moved = False\<rparr> (now + took) = (res, r')" by fastforce
    from retry_after_failed [OF run since_def] show ?thesis
    proof
      assume "res = Inl fault \<and> (class_of fault = Final \<or> since + REDIAL_WINDOW \<le> now + took)"
      then show ?thesis using w Inl run by simp
    next
      assume "\<exists>pause. res = Inr pause \<and> class_of fault \<noteq> Final \<and> now + took < since + REDIAL_WINDOW \<and> rt_failing_since r' = Some since \<and> pause \<le> BUSY_CAP \<and>
        (now \<le> now + took \<longrightarrow> now + BUSY_FIRST \<le> now + took + pause)"
      then obtain pause where p: "res = Inr pause" "now + took < since + REDIAL_WINDOW" "rt_failing_since r' = Some since" "now + BUSY_FIRST \<le> now + took + pause" by auto
      have "i * BUSY_FIRST < REDIAL_WINDOW" using start p(2) by linarith
      then have "i \<le> 6" by (simp add: BUSY_FIRST_def REDIAL_WINDOW_def)
      moreover have "since + Suc i * BUSY_FIRST \<le> now + took + pause + late" using start p(4) by simp
      ultimately have "retrying fuel work (Suc i) (now + took + pause + late) r' \<noteq> None" using Suc.prems(1) p(3) by (intro Suc.IH) simp_all
      then show ?thesis using w Inl run p(1) by simp
    qed
  qed
qed simp

lemma retrying_fault:
  assumes "retrying fuel work i now r = Some (Inl fault)"
  shows "\<exists>j \<ge> i. fst (work j) = Inl fault"
  using assms
proof (induction fuel arbitrary: i now r)
  case (Suc fuel)
  obtain out took late where w: "work i = (out, took, late)" by (metis prod_cases3)
  show ?case
  proof (cases out)
    case (Inl e)
    obtain res r' where run: "retry_after r e \<lparr>at_started = now, at_moved = False\<rparr> (now + took) = (res, r')" by fastforce
    show ?thesis
    proof (cases res)
      case stop: (Inl x)
      then have "x = e" using retry_after_failed [OF run refl] by auto
      then show ?thesis using Suc.prems w Inl run stop by auto
    next
      case (Inr pause)
      then have "retrying fuel work (Suc i) (now + took + pause + late) r' = Some (Inl fault)" using Suc.prems w Inl run by simp
      from Suc.IH [OF this] show ?thesis using Suc_leD by blast
    qed
  qed (use Suc.prems w in simp)
qed simp

subsection \<open>Properties\<close>

text \<open>
  C26. Retrying ends: whatever the attempts answer, however long they take and however late the sleeps end, the eighth attempt at the latest is the last, and the
  loop answers the value or a fault of one of its attempts. Each pause between two attempts is at most \<open>BUSY_CAP\<close>, and an attempt is repeated
  only while its fault is not final and work has failed for less than the redial window.
\<close>

theorem retrying_ends:
  "\<exists>res. retrying 8 work 0 now retry_default = Some res \<and> (\<forall>fault. res = Inl fault \<longrightarrow> (\<exists>j. fst (work j) = Inl fault)) \<and>
    (\<forall>r fault started t since pause r'. retry_after r fault \<lparr>at_started = started, at_moved = False\<rparr> t = (Inr pause, r') \<and>
       since = (case rt_failing_since r of None \<Rightarrow> started | Some since \<Rightarrow> since) \<longrightarrow>
       pause \<le> BUSY_CAP \<and> class_of fault \<noteq> Final \<and> t < since + REDIAL_WINDOW)"
proof -
  have "retrying 8 work 0 now retry_default \<noteq> None" by (rule retrying_runs) (simp_all add: retry_default_def)
  then obtain res where "retrying 8 work 0 now retry_default = Some res" by blast
  moreover from this have "\<forall>fault. res = Inl fault \<longrightarrow> (\<exists>j. fst (work j) = Inl fault)" using retrying_fault by blast
  moreover have "pause \<le> BUSY_CAP \<and> class_of fault \<noteq> Final \<and> t < since + REDIAL_WINDOW"
    if "retry_after r fault \<lparr>at_started = started, at_moved = False\<rparr> t = (Inr pause, r')" "since = (case rt_failing_since r of None \<Rightarrow> started | Some since \<Rightarrow> since)"
    for r fault started t since pause r' using retry_after_failed [OF that] by auto
  ultimately show ?thesis by blast
qed

theorem retrying_ends_witness:
  "\<exists>res. retrying 8 (\<lambda>i. (if i < 3 then Inl FaultLost else Inr i, 100, 0)) 0 0 retry_default = Some (res :: fault + nat)"
  using retrying_ends [of "\<lambda>i. (if i < 3 then Inl FaultLost else Inr i, 100, 0)" 0] by blast

text \<open>
  C35. Client and server agree on refusals: from the answer a server gives for a refusal, its status and code header, the client's fault has the
  reason the table names for that refusal. It redials after an idle ending, waits out a full quota for as long as it is told, and gives up on every other one.
\<close>

theorem refusals_understood:
  assumes "headers REFUSAL_HEADER = Some (refusal_code r)" and "refusal_status r = status"
  shows "\<exists>fault. fault_answer status headers from issuer = Some fault \<and>
    (headers SIGN_IN_HEADER \<noteq> Some (as_bytes ''required'') \<longrightarrow> fault_reason fault = refusal_reason r \<and>
      class_of fault = (case r of RefusalIdle \<Rightarrow> Redial
        | ClientLimit \<Rightarrow> Busy (case Option.bind (headers (as_bytes ''retry-after'')) parse_retry_after of None \<Rightarrow> 0 | Some d \<Rightarrow> d)
        | ServerCapacity \<Rightarrow> Busy (case Option.bind (headers (as_bytes ''retry-after'')) parse_retry_after of None \<Rightarrow> 0 | Some d \<Rightarrow> d)
        | _ \<Rightarrow> Final)) \<and>
    (headers SIGN_IN_HEADER = Some (as_bytes ''required'') \<and> status = 403 \<longrightarrow> fault = SignIn issuer)"
proof -
  have found: "find_refusal (refusal_code r) = Some r"
    by (cases r) (simp_all add: find_refusal_def REFUSALS_def refusal_code_def refusal_row_def as_bytes_def of_char_def)
  have status: "status \<noteq> 200" using assms(2) by (cases r) (simp_all add: refusal_status_def refusal_row_def)
  let ?after = "Option.bind (headers (as_bytes ''retry-after'')) parse_retry_after"
  show ?thesis
  proof (cases "status = 403 \<and> headers SIGN_IN_HEADER = Some (as_bytes ''required'')")
    case True
    then show ?thesis by (simp add: fault_answer_def)
  next
    case False
    then have "fault_answer status headers from issuer = Some (fault_refusal r from ?after issuer)"
      using assms(1) found status by (auto simp: fault_answer_def Let_def)
    moreover have "fault_reason (fault_refusal r from ?after issuer) = refusal_reason r"
      by (cases r) (simp_all add: fault_refusal_def fault_reason_def refusal_reason_def refusal_row_def refusal_status_def status_reason_def busy_status_def)
    moreover have "class_of (fault_refusal r from ?after issuer) = (case r of RefusalIdle \<Rightarrow> Redial
        | ClientLimit \<Rightarrow> Busy (case ?after of None \<Rightarrow> 0 | Some d \<Rightarrow> d) | ServerCapacity \<Rightarrow> Busy (case ?after of None \<Rightarrow> 0 | Some d \<Rightarrow> d) | _ \<Rightarrow> Final)"
      by (cases r) (simp_all add: fault_refusal_def class_of_def refusal_row_def refusal_status_def busy_status_def)
    ultimately show ?thesis using False by auto
  qed
qed

theorem refusals_understood_witness:
  "\<exists>fault. fault_answer 429 [REFUSAL_HEADER \<mapsto> refusal_code ClientLimit] RouteLease [] = Some fault \<and> fault_reason fault = FailureClientLimit"
proof -
  have "SIGN_IN_HEADER \<noteq> REFUSAL_HEADER" by (simp add: SIGN_IN_HEADER_def REFUSAL_HEADER_def as_bytes_def of_char_def)
  then show ?thesis
    using refusals_understood [of "[REFUSAL_HEADER \<mapsto> refusal_code ClientLimit]" ClientLimit 429 RouteLease "[]"]
    by (auto simp: refusal_status_def refusal_row_def refusal_reason_def)
qed

end
