(* ===== verification/Policy.thy ===== *)
theory Policy
  imports Auth_Store Origins Retry
begin

text \<open>
  Which requests pass under authentication, \<^verbatim>\<open>rust/server/src/auth/policy.rs\<close>, with the client's address of \<^verbatim>\<open>rust/server/src/peer.rs\<close>, the endpoints of
  \<^verbatim>\<open>rust/server/src/app/mod.rs\<close> and the routes of \<^verbatim>\<open>rust/proto/src/route.rs\<close>. A \<open>HeaderMap\<close> gives the values of a name in their order. What text a
  header value is and which texts are authorities belongs to the \<^verbatim>\<open>http\<close> crate, which prefixes hold an address to \<^verbatim>\<open>ipnet\<close>: they are parameters. An answer is
  its kind, with who may read it. The two times a request asks the store, for its credential and for its CSRF token, follow each other: the second sees what the first left.
\<close>

subsection \<open>Requests\<close>

type_synonym header_map = "bytes \<Rightarrow> bytes list"

record http_request =
  rq_method :: bytes
  rq_path :: bytes
  rq_authority :: "bytes option"
  rq_headers :: header_map

record head_lib =
  hl_to_str :: "bytes \<Rightarrow> bytes option"
  hl_authority :: "bytes \<Rightarrow> bytes option"

definition header_first :: "header_map \<Rightarrow> bytes \<Rightarrow> bytes option" where
  "header_first h name = (case h name of [] \<Rightarrow> None | val # _ \<Rightarrow> Some val)"

definition is_space :: "u8 \<Rightarrow> bool" where
  "is_space b \<longleftrightarrow> b = 0x20 \<or> 0x09 \<le> b \<and> b \<le> 0x0d"

definition trim_with :: "(u8 \<Rightarrow> bool) \<Rightarrow> bytes \<Rightarrow> bytes" where
  "trim_with P bs = rev (dropWhile P (rev (dropWhile P bs)))"

text \<open>\<open>str::trim\<close> of an ASCII text, and \<open>trim_ascii\<close>, which keeps vertical tabs.\<close>

definition trim_text :: "bytes \<Rightarrow> bytes" where "trim_text = trim_with is_space"
definition trim_ascii :: "bytes \<Rightarrow> bytes" where "trim_ascii = trim_with (\<lambda>b. is_space b \<and> b \<noteq> 0x0b)"

datatype endpoint = H1 | H1Tls | H2 | H3Companion | Quic

definition endpoint_ui :: "endpoint \<Rightarrow> bool" where
  "endpoint_ui e \<longleftrightarrow> e = H1 \<or> e = H1Tls"

definition request_named :: "head_lib \<Rightarrow> http_request \<Rightarrow> bytes option" where
  "request_named lib r =
     (let named = Option.bind (Option.bind (header_first (rq_headers r) (as_bytes ''host'')) (hl_to_str lib)) (hl_authority lib);
          authority = (case rq_authority r of Some a \<Rightarrow> Some a | None \<Rightarrow> named)
      in case authority of Some a \<Rightarrow> if 0x40 \<in> set a then None else Some a | None \<Rightarrow> None)"

subsection \<open>The client's address\<close>

datatype address = Socket ip_addr | Forwarded ip_addr | Ambiguous ip_addr





definition X_FORWARDED_PROTO :: bytes where "X_FORWARDED_PROTO = as_bytes ''x-forwarded-proto''"
definition X_FORWARDED_HOST :: bytes where "X_FORWARDED_HOST = as_bytes ''x-forwarded-host''"
definition SEC_FETCH_SITE :: bytes where "SEC_FETCH_SITE = as_bytes ''sec-fetch-site''"
definition X_CSRF_TOKEN :: bytes where "X_CSRF_TOKEN = as_bytes ''x-csrf-token''"


definition single :: "head_lib \<Rightarrow> header_map \<Rightarrow> bytes \<Rightarrow> bytes option" where
  "single lib h name = (case h name of
       [val] \<Rightarrow> (case hl_to_str lib val of Some t \<Rightarrow> if 0x2c \<in> set t then None else Some (trim_text t) | None \<Rightarrow> None)
     | _ \<Rightarrow> None)"


definition address_ip :: "address \<Rightarrow> ip_addr" where
  "address_ip a = (case a of Socket ip \<Rightarrow> ip | Forwarded ip \<Rightarrow> ip | Ambiguous ip \<Rightarrow> ip)"

definition forwarded_tls :: "head_lib \<Rightarrow> address \<Rightarrow> header_map \<Rightarrow> bool" where
  "forwarded_tls lib a h \<longleftrightarrow> (\<forall>ip. a \<noteq> Socket ip) \<and> single lib h X_FORWARDED_PROTO \<in> {Some (as_bytes ''https''), Some (as_bytes ''wss'')}"

lemma forwarded_tls_code [code]:
  "forwarded_tls lib a h \<longleftrightarrow> (case a of Socket _ \<Rightarrow> False | _ \<Rightarrow> single lib h X_FORWARDED_PROTO \<in> {Some (as_bytes ''https''), Some (as_bytes ''wss'')})"
  by (cases a) (simp_all add: forwarded_tls_def)

definition keys_address :: "ip_addr \<Rightarrow> client_keys" where
  "keys_address ip = (case to_canonical ip of V4 ip \<Rightarrow> KeysV4 ip | V6 ip \<Rightarrow> KeysV6 ip)"

definition keys_connection :: "(ip_addr \<Rightarrow> bool) \<Rightarrow> ip_addr \<Rightarrow> client_keys" where
  "keys_connection trusted socket = (if trusted (to_canonical socket) then Exempt else keys_address (to_canonical socket))"

subsection \<open>Routes\<close>

datatype route_kind = KindHttp | KindWebSocket | KindWebTransport

definition route_row :: "route \<Rightarrow> string \<times> route_kind \<times> string list" where
  "route_row r = (case r of
       Preflight \<Rightarrow> (''/preflight'', KindHttp, [''GET''])
     | Probe \<Rightarrow> (''/probe'', KindHttp, [''GET''])
     | RouteDownload \<Rightarrow> (''/download'', KindHttp, [''GET''])
     | RouteUpload \<Rightarrow> (''/upload'', KindHttp, [''POST''])
     | UploadProgress \<Rightarrow> (''/upload/progress'', KindHttp, [''GET'', ''DELETE''])
     | RouteLease \<Rightarrow> (''/lease'', KindHttp, [''POST'', ''DELETE''])
     | RoutePing \<Rightarrow> (''/ws/ping'', KindWebSocket, [''GET''])
     | WsProgress \<Rightarrow> (''/ws/progress'', KindWebSocket, [''GET''])
     | WtDownload \<Rightarrow> (''/wt/download'', KindWebTransport, [''CONNECT''])
     | WtUpload \<Rightarrow> (''/wt/upload'', KindWebTransport, [''CONNECT''])
     | WtPing \<Rightarrow> (''/wt/ping'', KindWebTransport, [''CONNECT''])
     | Servers \<Rightarrow> (''/servers'', KindHttp, [''GET''])
     | UploadCheckpoint \<Rightarrow> (''/upload/checkpoint'', KindHttp, [''POST'']))"

definition ROUTES :: "route list" where
  "ROUTES = [Preflight, Probe, RouteDownload, RouteUpload, UploadProgress, RouteLease, RoutePing, WsProgress, WtDownload, WtUpload, WtPing, Servers, UploadCheckpoint]"

definition route_path :: "route \<Rightarrow> bytes" where "route_path r = as_bytes (fst (route_row r))"
definition route_kind_of :: "route \<Rightarrow> route_kind" where "route_kind_of r = fst (snd (route_row r))"
definition route_methods :: "route \<Rightarrow> bytes list" where "route_methods r = map as_bytes (snd (snd (route_row r)))"

definition find_route :: "bytes \<Rightarrow> route option" where
  "find_route path = List.find (\<lambda>r. route_path r = path) ROUTES"

datatype auth_route =
  AuLogin | AuPassword | AuOidcStart | AuOidcCallback | AuSession | AuCli | AuBrowser | AuCliApprove | AuBrowserApprove | AuCliToken | AuBrowserToken | AuLogout

definition auth_route_row :: "auth_route \<Rightarrow> string \<times> string" where
  "auth_route_row r = (case r of
       AuLogin \<Rightarrow> (''/login'', ''GET'') | AuPassword \<Rightarrow> (''/auth/password'', ''POST'')
     | AuOidcStart \<Rightarrow> (''/auth/oidc/start'', ''POST'') | AuOidcCallback \<Rightarrow> (''/auth/oidc/callback'', ''GET'')
     | AuSession \<Rightarrow> (''/auth/session'', ''GET'') | AuCli \<Rightarrow> (''/auth/cli'', ''GET'') | AuBrowser \<Rightarrow> (''/auth/browser'', ''GET'')
     | AuCliApprove \<Rightarrow> (''/auth/cli/approve'', ''POST'') | AuBrowserApprove \<Rightarrow> (''/auth/browser/approve'', ''POST'')
     | AuCliToken \<Rightarrow> (''/auth/cli/token'', ''POST'') | AuBrowserToken \<Rightarrow> (''/auth/browser/token'', ''POST'') | AuLogout \<Rightarrow> (''/auth/logout'', ''POST''))"

definition AUTH_ROUTES :: "auth_route list" where
  "AUTH_ROUTES = [AuLogin, AuPassword, AuOidcStart, AuOidcCallback, AuSession, AuCli, AuBrowser, AuCliApprove, AuBrowserApprove, AuCliToken, AuBrowserToken, AuLogout]"

definition auth_route_path :: "auth_route \<Rightarrow> bytes" where "auth_route_path r = as_bytes (fst (auth_route_row r))"

definition find_auth_route :: "bytes \<Rightarrow> bytes \<Rightarrow> auth_route option" where
  "find_auth_route verb path = (case List.find (\<lambda>r. auth_route_path r = path) AUTH_ROUTES of
       Some r \<Rightarrow> if as_bytes (snd (auth_route_row r)) = verb then Some r else None
     | None \<Rightarrow> None)"

definition controls :: "bytes \<Rightarrow> bool" where
  "controls path \<longleftrightarrow> path = auth_route_path AuLogin \<or> strip_prefix (as_bytes ''/auth/'') path \<noteq> None"

subsection \<open>The policy\<close>

datatype trust = Foreign | Insecure | Secure | Canonical

definition trust_rank :: "trust \<Rightarrow> nat" where
  "trust_rank t = (case t of Foreign \<Rightarrow> 0 | Insecure \<Rightarrow> 1 | Secure \<Rightarrow> 2 | Canonical \<Rightarrow> 3)"

lemma trust_rank_inject: "trust_rank t = trust_rank u \<longleftrightarrow> t = u"
  by (cases t; cases u) (simp_all add: trust_rank_def)

text \<open>The derived order of the variants.\<close>

instantiation trust :: linorder
begin

definition less_eq_trust :: "trust \<Rightarrow> trust \<Rightarrow> bool" where "t \<le> u \<longleftrightarrow> trust_rank t \<le> trust_rank u"
definition less_trust :: "trust \<Rightarrow> trust \<Rightarrow> bool" where "t < u \<longleftrightarrow> trust_rank t < trust_rank u"

instance
  by standard (auto simp: less_eq_trust_def less_trust_def trust_rank_inject dest: le_antisym)

end

record policy =
  po_public :: origin
  po_origin :: bytes
  po_password :: bool
  po_oidc :: bool

definition policy_new :: "origin \<Rightarrow> bool \<Rightarrow> bool \<Rightarrow> policy" where
  "policy_new public password oidc = \<lparr>po_public = public, po_origin = origin_show public, po_password = password, po_oidc = oidc\<rparr>"

datatype access = AccessPublic | AccessCookie bytes | AccessBearer bytes

text \<open>The preflight's answer tells whether it is one for measurement; the sign-in answer whether it redirects to the login page.\<close>

datatype answer =
    Forbidden (hardened: bool)
  | PreflightAnswer access (measures: bool) (hardened: bool)
  | SignInRequired_answer (redirects: bool) "access option" (hardened: bool)

definition AUTHORIZATION :: bytes where "AUTHORIZATION = as_bytes ''authorization''"
definition ORIGIN :: bytes where "ORIGIN = as_bytes ''origin''"
definition LEASE_HEADER :: bytes where "LEASE_HEADER = as_bytes ''graphite-meter-lease''"
definition REQUEST_METHOD :: bytes where "REQUEST_METHOD = as_bytes ''access-control-request-method''"
definition REQUEST_HEADERS :: bytes where "REQUEST_HEADERS = as_bytes ''access-control-request-headers''"
definition COOKIE :: bytes where "COOKIE = as_bytes ''cookie''"
definition SESSION_COOKIE :: bytes where "SESSION_COOKIE = as_bytes ''__Host-gm_session''"

definition SINGLE :: "bytes list" where
  "SINGLE = [AUTHORIZATION, LEASE_HEADER, ORIGIN, SEC_FETCH_SITE, X_CSRF_TOKEN, REQUEST_METHOD, REQUEST_HEADERS]"

definition header_text :: "head_lib \<Rightarrow> header_map \<Rightarrow> bytes \<Rightarrow> bytes option" where
  "header_text lib h name = (case header_first h name of None \<Rightarrow> Some [] | Some val \<Rightarrow> hl_to_str lib val)"

definition text_or_empty :: "bytes option \<Rightarrow> bytes" where
  "text_or_empty t = (case t of None \<Rightarrow> [] | Some t \<Rightarrow> t)"

definition trim_dots :: "bytes \<Rightarrow> bytes" where
  "trim_dots bs = rev (dropWhile (\<lambda>b. b = 0x2e) (rev bs))"

definition same_host :: "bytes \<Rightarrow> bytes \<Rightarrow> bool" where
  "same_host x y \<longleftrightarrow> eq_ignore_case (trim_dots x) (trim_dots y)"

lemma strip_prefix_shorter: "strip_prefix pat bs = Some rest \<Longrightarrow> pat \<noteq> [] \<Longrightarrow> length rest < length bs"
  by (cases bs; cases pat) (auto simp: strip_prefix_def split: if_splits)


text \<open>\<open>trim_start_matches\<close>: the prefix is removed as often as it is there.\<close>

function trim_start_matches :: "bytes \<Rightarrow> bytes \<Rightarrow> bytes" where
  "trim_start_matches pat bs = (case strip_prefix pat bs of
       Some rest \<Rightarrow> if pat = [] then bs else trim_start_matches pat rest
     | None \<Rightarrow> bs)"
  by pat_completeness auto
termination
  by (relation "measure (\<lambda>(_, bs). length bs)") (auto dest: strip_prefix_shorter)

declare trim_start_matches.simps [simp del]

definition browser_origin :: "head_lib \<Rightarrow> bytes \<Rightarrow> bytes option" where
  "browser_origin lib val = (case hl_to_str lib val of
       None \<Rightarrow> None
     | Some t \<Rightarrow> (case origin_parse t of
           None \<Rightarrow> None
         | Some og \<Rightarrow> if og_scheme og = Https \<and> origin_show og = t then Some val else None))"

definition requested_headers :: "head_lib \<Rightarrow> header_map \<Rightarrow> bytes list \<Rightarrow> bytes list option" where
  "requested_headers lib h allowed =
     (let names = filter (\<lambda>name. name \<noteq> []) (map (\<lambda>name. map ascii_lower (trim_text name))
            (split_on 0x2c (text_or_empty (header_text lib h REQUEST_HEADERS))))
      in if list_all (\<lambda>name. name = as_bytes ''content-type'' \<or> name \<in> set allowed) names then Some names else None)"

definition cookie_pair :: "bytes \<Rightarrow> bytes \<times> bytes" where
  "cookie_pair pair =
     (let pair = trim_ascii pair;
          (key, val) = (if 0x3d \<in> set pair then (trim_ascii (takeWhile (\<lambda>b. b \<noteq> 0x3d) pair), tl (dropWhile (\<lambda>b. b \<noteq> 0x3d) pair)) else (pair, []));
          val = (if 2 \<le> length val \<and> hd val = 0x22 \<and> last val = 0x22 then butlast (tl val) else val)
      in (key, val))"

definition cookie_valid :: "bytes \<Rightarrow> bool" where
  "cookie_valid val \<longleftrightarrow> list_all (\<lambda>b. 0x20 \<le> b \<and> b < 0x7f \<and> b \<noteq> 0x22 \<and> b \<noteq> 0x3b \<and> b \<noteq> 0x5c) val"

fun find_cookie :: "bytes \<Rightarrow> nat \<Rightarrow> bytes option \<Rightarrow> bytes list \<Rightarrow> bytes option" where
  "find_cookie name i found [] = found"
| "find_cookie name i found (pair # pairs) =
     (if i = 3000 then None
      else case cookie_pair pair of
          (key, val) \<Rightarrow>
            if key = name \<and> cookie_valid val then (if found \<noteq> None then None else find_cookie name (Suc i) (Some val) pairs)
            else find_cookie name (Suc i) found pairs)"

definition cookie_value :: "header_map \<Rightarrow> bytes \<Rightarrow> bytes option" where
  "cookie_value h name = (case find_cookie name 0 None (concat (map (split_on 0x3b) (h COOKIE))) of
       Some val \<Rightarrow> if from_utf8 val then Some val else None
     | None \<Rightarrow> None)"

text \<open>What the policy uses of the store and of other packages; the two instants are those at which it asks the store.\<close>

record policy_env =
  pe_head :: head_lib
  pe_lib :: auth_lib
  pe_cancelled :: "cancel_token list \<Rightarrow> cancel_token \<Rightarrow> bool"
  pe_now :: nat
  pe_then :: nat

definition cookie_lease :: "policy_env \<Rightarrow> auth_state \<Rightarrow> header_map \<Rightarrow> auth_lease option \<times> auth_state" where
  "cookie_lease env s h = (case cookie_value h SESSION_COOKIE of
       None \<Rightarrow> (None, s)
     | Some token \<Rightarrow> store_cookie (pe_lib env) s token (pe_now env))"

definition bearer_lease :: "policy_env \<Rightarrow> auth_state \<Rightarrow> header_map \<Rightarrow> auth_lease option" where
  "bearer_lease env s h = (case Option.bind (header_first h AUTHORIZATION) (hl_to_str (pe_head env)) of
       None \<Rightarrow> None
     | Some credentials \<Rightarrow> Option.bind (strip_prefix (as_bytes ''Bearer '') credentials)
         (\<lambda>token. store_bearer (pe_lib env) (pe_cancelled env) s token (pe_now env)))"

definition authenticate :: "policy_env \<Rightarrow> auth_state \<Rightarrow> header_map \<Rightarrow> auth_lease option \<times> auth_state" where
  "authenticate env s h = (if h AUTHORIZATION \<noteq> [] then (bearer_lease env s h, s) else cookie_lease env s h)"

definition lease_browser :: "auth_lease \<Rightarrow> bytes option" where
  "lease_browser l = (case ll_via l of Bearer browser \<Rightarrow> browser | Cookie \<Rightarrow> None)"

definition policy_access :: "policy \<Rightarrow> auth_lease \<Rightarrow> header_map \<Rightarrow> access option" where
  "policy_access p l h = (case lease_browser l of
       Some browser \<Rightarrow> Some (AccessBearer browser)
     | None \<Rightarrow> if header_first h ORIGIN = Some (po_origin p) then Some (AccessCookie (po_origin p)) else None)"

definition policy_trust :: "head_lib \<Rightarrow> policy \<Rightarrow> http_request \<Rightarrow> endpoint \<Rightarrow> address \<Rightarrow> trust" where
  "policy_trust lib p r endpoint a =
     (let public = trim_start_matches (as_bytes ''https://'') (text_or_empty (hl_to_str lib (po_origin p)))
      in if endpoint \<noteq> H1
         then let named = text_or_empty (request_named lib r);
                  host = map_option og_host (origin_parse (as_bytes ''https://'' @ named))
              in if host \<noteq> Some (og_host (po_public p)) then Foreign else if same_host named public then Canonical else Secure
         else if forwarded_tls lib a (rq_headers r) \<and>
             (case single lib (rq_headers r) X_FORWARDED_HOST of Some host \<Rightarrow> same_host host public | None \<Rightarrow> False)
         then Canonical else Insecure)"

definition policy_public :: "policy \<Rightarrow> bytes \<Rightarrow> bytes \<Rightarrow> bool" where
  "policy_public p verb path \<longleftrightarrow>
     verb \<in> {as_bytes ''GET'', as_bytes ''HEAD''} \<and>
       path \<in> {as_bytes ''/fonts/ibm-plex-sans-var-latin1.woff2'', as_bytes ''/fonts/ibm-plex-mono-600-latin1.woff2''} \<or>
     (case find_auth_route verb path of
        None \<Rightarrow> False
      | Some r \<Rightarrow> (case r of
            AuPassword \<Rightarrow> po_password p
          | AuOidcStart \<Rightarrow> po_oidc p
          | AuOidcCallback \<Rightarrow> po_oidc p
          | r \<Rightarrow> r \<in> {AuLogin, AuCli, AuBrowser, AuCliToken, AuBrowserToken}))"

definition policy_required :: "head_lib \<Rightarrow> policy \<Rightarrow> http_request \<Rightarrow> endpoint \<Rightarrow> bool \<Rightarrow> answer" where
  "policy_required lib p r endpoint secure =
     (let origin = header_first (rq_headers r) ORIGIN;
          readable = (if origin = Some (po_origin p) then Some (AccessCookie (po_origin p))
            else (case Option.bind origin (browser_origin lib) of
                Some browser \<Rightarrow> if find_route (rq_path r) \<noteq> None then Some (AccessBearer browser) else None
              | None \<Rightarrow> None))
      in SignInRequired_answer (endpoint_ui endpoint \<and> rq_method r = as_bytes ''GET'' \<and> rq_path r = as_bytes ''/'') readable secure)"

definition policy_preflight :: "head_lib \<Rightarrow> policy \<Rightarrow> header_map \<Rightarrow> route option \<Rightarrow> trust \<Rightarrow> answer" where
  "policy_preflight lib p h r t =
     (let secure = t \<ge> Secure; origin = Option.bind (header_first h ORIGIN) (browser_origin lib);
          verb = text_or_empty (header_text lib h REQUEST_METHOD);
          allowed = (case r of Some r \<Rightarrow> verb \<in> set (route_methods r) | None \<Rightarrow> False)
      in case (r, origin) of
          (None, Some browser) \<Rightarrow>
            if t = Canonical \<and> verb = as_bytes ''POST'' \<and> requested_headers lib h [] \<noteq> None
            then PreflightAnswer (AccessBearer browser) False secure else Forbidden secure
        | (None, None) \<Rightarrow> Forbidden secure
        | (Some route, _) \<Rightarrow>
            if secure \<and> (case origin of Some browser \<Rightarrow> browser \<noteq> po_origin p | None \<Rightarrow> False) \<and> route \<noteq> Servers
            then (case requested_headers lib h [as_bytes ''authorization'', LEASE_HEADER] of
                    Some names \<Rightarrow>
                      if allowed \<and> as_bytes ''authorization'' \<in> set names
                      then PreflightAnswer (AccessBearer (the origin)) True secure else Forbidden secure
                  | None \<Rightarrow> Forbidden secure)
            else if secure \<and> header_first h ORIGIN = Some (po_origin p) \<and> allowed
            then (if requested_headers lib h [as_bytes ''authorization'', as_bytes ''x-csrf-token'', LEASE_HEADER] = None then Forbidden secure
                  else PreflightAnswer (AccessCookie (po_origin p)) True secure)
            else Forbidden secure)"

text \<open>The rules for the cookie of a login: \<open>ours\<close> tells whether the request names the public origin.\<close>

definition valid_cookie :: "policy_env \<Rightarrow> auth_state \<Rightarrow> http_request \<Rightarrow> route option \<Rightarrow> auth_lease \<Rightarrow> bool \<Rightarrow> bool" where
  "valid_cookie env s r route l ours =
     (let lib = pe_head env; h = rq_headers r; site = header_text lib h SEC_FETCH_SITE;
          read = rq_method r \<in> {as_bytes ''GET'', as_bytes ''HEAD''}; same_origin = (site = Some (as_bytes ''same-origin''))
      in if \<not> (site \<in> {Some [], Some (as_bytes ''same-origin''), Some (as_bytes ''none'')} \<or> site = Some (as_bytes ''same-site'') \<and> ours) then False
         else if route \<noteq> None \<and> read \<and> \<not> ours \<and> \<not> same_origin \<or>
             (case route of Some route \<Rightarrow> route_kind_of route = KindWebSocket | None \<Rightarrow> False) \<and> \<not> ours then False
         else if read \<or> rq_method r = as_bytes ''OPTIONS'' then True
         else ours \<and> (route = None \<or>
           (case header_text lib h X_CSRF_TOKEN of Some csrf \<Rightarrow> store_csrf s (ll_login l) csrf (pe_then env) | None \<Rightarrow> False)))"

definition valid_origin :: "policy_env \<Rightarrow> policy \<Rightarrow> auth_state \<Rightarrow> http_request \<Rightarrow> route option \<Rightarrow> auth_lease \<Rightarrow> bool" where
  "valid_origin env p s r route l =
     (let lib = pe_head env; public = text_or_empty (hl_to_str lib (po_origin p))
      in case header_text lib (rq_headers r) ORIGIN of
          None \<Rightarrow> False
        | Some origin \<Rightarrow>
            (case lease_browser l of
               Some browser \<Rightarrow> origin = browser \<and> (case route of Some route \<Rightarrow> route \<noteq> Servers | None \<Rightarrow> False)
             | None \<Rightarrow>
                 if origin \<noteq> [] \<and> origin \<noteq> public then False
                 else if ll_via l \<noteq> Cookie then True
                 else valid_cookie env s r route l (origin = public)))"

text \<open>The sign-in a request is made with.\<close>

definition request_lease :: "policy_env \<Rightarrow> auth_state \<Rightarrow> http_request \<Rightarrow> bool \<Rightarrow> auth_lease option \<Rightarrow> auth_lease option \<times> auth_state" where
  "request_lease env s r session leased =
     (if rq_method r = as_bytes ''CONNECT'' \<and> session
      then (case bearer_lease env s (rq_headers r) of Some l \<Rightarrow> Some l | None \<Rightarrow> leased, s)
      else (case leased of Some l \<Rightarrow> (Some l, s) | None \<Rightarrow> authenticate env s (rq_headers r)))"

definition misplaced :: "route option \<Rightarrow> auth_lease \<Rightarrow> bool" where
  "misplaced route l \<longleftrightarrow> (case ll_via l of Bearer browser \<Rightarrow> route = None \<or> browser \<noteq> None \<and> route = Some Servers | Cookie \<Rightarrow> False)"

definition policy_signed_in :: "policy_env \<Rightarrow> policy \<Rightarrow> auth_state \<Rightarrow> http_request \<Rightarrow> endpoint \<Rightarrow> auth_lease option \<Rightarrow> (answer + auth_lease option) \<times> auth_state" where
  "policy_signed_in env p s r endpoint leased =
     (let route = find_route (rq_path r);
          session = (endpoint = Quic \<and> (case route of Some route \<Rightarrow> route_kind_of route = KindWebTransport | None \<Rightarrow> False))
      in case request_lease env s r session leased of
          (None, s) \<Rightarrow> (Inl (policy_required (pe_head env) p r endpoint True), s)
        | (Some l, s) \<Rightarrow> if misplaced route l \<or> \<not> valid_origin env p s r route l then (Inl (Forbidden True), s) else (Inr (Some l), s))"

definition policy_authorize ::
    "policy_env \<Rightarrow> policy \<Rightarrow> auth_state \<Rightarrow> http_request \<Rightarrow> endpoint \<Rightarrow> address \<Rightarrow> auth_lease option \<Rightarrow> (answer + auth_lease option) \<times> auth_state" where
  "policy_authorize env p s r endpoint a leased =
     (let lib = pe_head env; h = rq_headers r
      in if list_ex (\<lambda>name. 2 \<le> length (h name)) SINGLE then (Inl (Forbidden False), s)
         else let t = policy_trust lib p r endpoint a; secure = t \<ge> Secure; verb = rq_method r; path = rq_path r; route = find_route path
              in if t = Foreign then (Inl (policy_required lib p r endpoint False), s)
                 else if verb = as_bytes ''OPTIONS'' \<and> (route \<noteq> None \<or> path = auth_route_path AuBrowserToken) then (Inl (policy_preflight lib p h route t), s)
                 else if controls path \<and> (\<not> endpoint_ui endpoint \<or> t \<noteq> Canonical) then (Inl (Forbidden secure), s)
                 else if endpoint_ui endpoint \<and> policy_public p verb path
                 then (if t = Canonical then Inr None else Inl (policy_required lib p r endpoint secure), s)
                 else if \<not> secure then (Inl (policy_required lib p r endpoint False), s)
                 else policy_signed_in env p s r endpoint leased)"

subsection \<open>What passes\<close>


lemma valid_cookie_site:
  "valid_cookie env s r route l ours \<Longrightarrow>
    header_text (pe_head env) (rq_headers r) SEC_FETCH_SITE \<in> {Some [], Some (as_bytes ''same-origin''), Some (as_bytes ''none''), Some (as_bytes ''same-site'')}"
  by (rule ccontr) (simp add: valid_cookie_def Let_def)

lemma valid_cookie_csrf:
  "valid_cookie env s r route l ours \<Longrightarrow> rq_method r \<notin> {as_bytes ''GET'', as_bytes ''HEAD'', as_bytes ''OPTIONS''} \<Longrightarrow>
    ours \<and> (route = None \<or> (case header_text (pe_head env) (rq_headers r) X_CSRF_TOKEN of Some csrf \<Rightarrow> store_csrf s (ll_login l) csrf (pe_then env) | None \<Rightarrow> False))"
  by (simp add: valid_cookie_def Let_def split: if_split_asm)

text \<open>What \<open>valid_origin\<close> lets pass, for a public origin that is text.\<close>

lemma valid_origin_cases:
  assumes "valid_origin env p s r route l" and "hl_to_str (pe_head env) (po_origin p) = Some (po_origin p)"
  obtains (browser) browser where "ll_via l = Bearer (Some browser)" and "header_text (pe_head env) (rq_headers r) ORIGIN = Some browser" and "route \<noteq> None" and "route \<noteq> Some Servers"
  | (native) origin where "ll_via l = Bearer None" and "header_text (pe_head env) (rq_headers r) ORIGIN = Some origin" and "origin = [] \<or> origin = po_origin p"
  | (cookie) origin site where "ll_via l = Cookie" and "header_text (pe_head env) (rq_headers r) ORIGIN = Some origin" and "origin = [] \<or> origin = po_origin p"
    and "header_text (pe_head env) (rq_headers r) SEC_FETCH_SITE = Some site" and "site \<in> {[], as_bytes ''same-origin'', as_bytes ''none'', as_bytes ''same-site''}"
    and "rq_method r \<notin> {as_bytes ''GET'', as_bytes ''HEAD'', as_bytes ''OPTIONS''} \<Longrightarrow> origin = po_origin p \<and> (route \<noteq> None \<longrightarrow>
      (\<exists>csrf. header_text (pe_head env) (rq_headers r) X_CSRF_TOKEN = Some csrf \<and> store_csrf s (ll_login l) csrf (pe_then env)))"
proof -
  obtain origin where origin: "header_text (pe_head env) (rq_headers r) ORIGIN = Some origin" using assms(1) by (auto simp: valid_origin_def Let_def split: option.splits)
  show ?thesis
  proof (cases "lease_browser l")
    case (Some b)
    then have "ll_via l = Bearer (Some b)" by (auto simp: lease_browser_def split: via.splits)
    moreover have "origin = b" "route \<noteq> None" "route \<noteq> Some Servers" using assms(1) Some origin by (auto simp: valid_origin_def split: option.splits)
    ultimately show ?thesis using browser origin by blast
  next
    case None
    have ours: "origin = [] \<or> origin = po_origin p" using assms None origin by (auto simp: valid_origin_def text_or_empty_def split: if_splits)
    show ?thesis
    proof (cases "ll_via l = Cookie")
      case True
      have valid: "valid_cookie env s r route l (origin = po_origin p)" using assms None origin ours True by (auto simp: valid_origin_def text_or_empty_def split: if_splits)
      obtain site where site: "header_text (pe_head env) (rq_headers r) SEC_FETCH_SITE = Some site" "site \<in> {[], as_bytes ''same-origin'', as_bytes ''none'', as_bytes ''same-site''}"
        using valid_cookie_site [OF valid] by auto
      have "origin = po_origin p \<and> (route \<noteq> None \<longrightarrow>
        (\<exists>csrf. header_text (pe_head env) (rq_headers r) X_CSRF_TOKEN = Some csrf \<and> store_csrf s (ll_login l) csrf (pe_then env)))"
        if "rq_method r \<notin> {as_bytes ''GET'', as_bytes ''HEAD'', as_bytes ''OPTIONS''}"
        using valid_cookie_csrf [OF valid that] by (auto split: option.split_asm)
      then show ?thesis using cookie [OF True origin ours site] by blast
    next
      case False
      then have "ll_via l = Bearer None" using None by (cases "ll_via l") (auto simp: lease_browser_def)
      then show ?thesis using native origin ours by blast
    qed
  qed
qed

text \<open>The steps of \<open>policy_authorize\<close> that pass.\<close>

lemma authorize_passes:
  assumes run: "policy_authorize env p s r endpoint a leased = (Inr res, s')"
  shows "\<not> list_ex (\<lambda>name. 2 \<le> length (rq_headers r name)) SINGLE \<and>
    (controls (rq_path r) \<longrightarrow> endpoint_ui endpoint \<and> policy_trust (pe_head env) p r endpoint a = Canonical) \<and>
    (case res of
       None \<Rightarrow> endpoint_ui endpoint \<and> policy_trust (pe_head env) p r endpoint a = Canonical \<and> policy_public p (rq_method r) (rq_path r)
     | Some l \<Rightarrow> Secure \<le> policy_trust (pe_head env) p r endpoint a \<and>
         (leased = Some l \<or> bearer_lease env s (rq_headers r) = Some l \<or> rq_headers r AUTHORIZATION = [] \<and> cookie_lease env s (rq_headers r) = (Some l, s')) \<and>
         valid_origin env p s' r (find_route (rq_path r)) l \<and> (ll_via l \<noteq> Cookie \<longrightarrow> find_route (rq_path r) \<noteq> None))"
proof -
  let ?t = "policy_trust (pe_head env) p r endpoint a"
  have many: "\<not> list_ex (\<lambda>name. 2 \<le> length (rq_headers r name)) SINGLE" and controlled: "controls (rq_path r) \<longrightarrow> endpoint_ui endpoint \<and> ?t = Canonical"
    using run by (auto simp: policy_authorize_def Let_def split: if_split_asm)
  consider (public) "res = None" "endpoint_ui endpoint" "?t = Canonical" "policy_public p (rq_method r) (rq_path r)"
    | (signed) "Secure \<le> ?t" "policy_signed_in env p s r endpoint leased = (Inr res, s')"
    using run by (auto simp: policy_authorize_def Let_def split: if_split_asm)
  then show ?thesis
  proof cases
    case public
    then show ?thesis using many by simp
  next
    case signed
    then obtain session l where l: "request_lease env s r session leased = (Some l, s')" "res = Some l"
      "\<not> misplaced (find_route (rq_path r)) l" "valid_origin env p s' r (find_route (rq_path r)) l"
      by (auto simp: policy_signed_in_def Let_def split: if_split_asm prod.split_asm option.split_asm)
    have "leased = Some l \<or> bearer_lease env s (rq_headers r) = Some l \<or> rq_headers r AUTHORIZATION = [] \<and> cookie_lease env s (rq_headers r) = (Some l, s')"
      using l(1) by (auto simp: request_lease_def authenticate_def split: if_split_asm option.split_asm)
    moreover have "ll_via l \<noteq> Cookie \<longrightarrow> find_route (rq_path r) \<noteq> None" using l(3) by (cases "ll_via l") (auto simp: misplaced_def)
    ultimately show ?thesis using many controlled signed(1) l(2,4) by simp
  qed
qed














definition sample_lib :: head_lib where
  "sample_lib = \<lparr>hl_to_str = Some, hl_authority = Some\<rparr>"

definition sample_policy :: policy where
  "sample_policy = policy_new \<lparr>og_scheme = Https, og_host = Name (as_bytes ''m.io''), og_port = 443\<rparr> True False"

definition sample_policy_env :: policy_env where
  "sample_policy_env = \<lparr>pe_head = sample_lib, pe_lib = \<lparr>sha256 = id, b64_encode = id, b64_decode = \<lambda>_. Some\<rparr>, pe_cancelled = (\<lambda>_ _. False), pe_now = 0, pe_then = 0\<rparr>"

definition sample_request :: http_request where
  "sample_request = \<lparr>rq_method = as_bytes ''POST'', rq_path = as_bytes ''/upload'', rq_authority = Some (as_bytes ''m.io''),
     rq_headers = (\<lambda>name. if name = ORIGIN then [as_bytes ''https://m.io''] else if name = X_CSRF_TOKEN then [[7]]
       else if name = COOKIE then [as_bytes ''a=b; __Host-gm_session=k''] else [])\<rparr>"

definition sample_cookie_lease :: auth_lease where
  "sample_cookie_lease = \<lparr>ll_holder = HolderLogin [1], ll_principal = ''operator'', ll_login = as_bytes ''k'', ll_via = Cookie, ll_revoked = Root 0, ll_expires = 10\<rparr>"

definition sample_store :: auth_state where
  "sample_store = auth_state_default\<lparr>st_logins := [(as_bytes ''k'', \<lparr>lo_id = [1], lo_principal = ''operator'', lo_name = [], lo_provider = [], lo_csrf = [7],
     lo_sequence = 1, lo_deadline = 10, lo_expires = 10, lo_revoked = Root 0\<rparr>)]\<rparr>"

lemma sample_trust: "policy_trust sample_lib sample_policy sample_request H2 (Socket (V4 1)) = Canonical"
  by code_simp

lemma sample_passes:
  "policy_authorize sample_policy_env sample_policy sample_store sample_request H2 (Socket (V4 1)) None = (Inr (Some sample_cookie_lease), sample_store)"
  by code_simp


subsection \<open>Who may read an answer\<close>

definition answer_access :: "answer \<Rightarrow> access option" where
  "answer_access x = (case x of Forbidden _ \<Rightarrow> None | PreflightAnswer who _ _ \<Rightarrow> Some who | SignInRequired_answer _ who _ \<Rightarrow> who)"

definition readable :: "policy \<Rightarrow> header_map \<Rightarrow> answer + auth_lease option \<Rightarrow> access option" where
  "readable p h x = (case x of Inl y \<Rightarrow> answer_access y | Inr None \<Rightarrow> None | Inr (Some l) \<Rightarrow> policy_access p l h)"

text \<open>Whether an access is only for the origin a request names, and with its cookies only if that is the public one.\<close>

definition access_named :: "head_lib \<Rightarrow> policy \<Rightarrow> header_map \<Rightarrow> access \<Rightarrow> bool" where
  "access_named lib p h who \<longleftrightarrow> (case who of
       AccessPublic \<Rightarrow> False
     | AccessCookie o' \<Rightarrow> o' = po_origin p \<and> header_first h ORIGIN = Some o'
     | AccessBearer o' \<Rightarrow> header_text lib h ORIGIN = Some o')"

lemma browser_origin_text: "browser_origin lib v = Some b \<Longrightarrow> (\<And>v t. hl_to_str lib v = Some t \<Longrightarrow> t = v) \<Longrightarrow> hl_to_str lib v = Some b"
  by (auto simp: browser_origin_def split: option.splits if_splits)

lemma required_named:
  assumes "answer_access (policy_required lib p r endpoint secure) = Some who" and "\<And>v t. hl_to_str lib v = Some t \<Longrightarrow> t = v"
  shows "access_named lib p (rq_headers r) who"
  using assms browser_origin_text [OF _ assms(2)]
  by (auto simp: policy_required_def answer_access_def access_named_def header_text_def Let_def bind_eq_Some_conv split: if_splits option.splits)

lemma preflight_named:
  assumes "answer_access (policy_preflight lib p h route t) = Some who" and "\<And>v t. hl_to_str lib v = Some t \<Longrightarrow> t = v"
  shows "access_named lib p h who"
  using assms browser_origin_text [OF _ assms(2)]
  by (auto simp: policy_preflight_def answer_access_def access_named_def header_text_def Let_def bind_eq_Some_conv split: if_splits option.splits)

text \<open>
  C19. No answer may be read by an origin the request does not come from: whatever the policy answers, refusals, preflights and the answers of requests that pass, the
  cross-origin access it gives names the request's own origin, with the cookies of a login only the public one, and is never for everyone. The answers of pages served without a sign-in get none here; the access the token
  exchange (\<^verbatim>\<open>approval.rs\<close>) adds to its own answer is outside the policy.
\<close>

theorem answers_readable:
  assumes run: "policy_authorize env p s r endpoint a leased = (res, s')" and str: "\<And>v t. hl_to_str (pe_head env) v = Some t \<Longrightarrow> t = v"
    and public: "hl_to_str (pe_head env) (po_origin p) = Some (po_origin p)" and who: "readable p (rq_headers r) res = Some who"
  shows "access_named (pe_head env) p (rq_headers r) who"
proof (cases res)
  case (Inr l)
  then obtain l' where l': "l = Some l'" "policy_access p l' (rq_headers r) = Some who" using who by (cases l) (auto simp: readable_def)
  have "valid_origin env p s' r (find_route (rq_path r)) l'" using authorize_passes [of env p s r endpoint a leased "Some l'" s'] run Inr l'(1) by simp
  from this public show ?thesis
    by (cases rule: valid_origin_cases) (use l'(2) in \<open>auto simp: policy_access_def lease_browser_def access_named_def split: if_splits\<close>)
next
  case (Inl y)
  then have y: "answer_access y = Some who" using who by (simp add: readable_def)
  have "(\<exists>b. y = Forbidden b) \<or> (\<exists>b. y = policy_required (pe_head env) p r endpoint b) \<or> (\<exists>route t. y = policy_preflight (pe_head env) p (rq_headers r) route t)"
    using run Inl by (auto simp: policy_authorize_def policy_signed_in_def Let_def split: if_split_asm prod.split_asm option.split_asm)
  then consider (forbidden) b where "y = Forbidden b" | (required) b where "y = policy_required (pe_head env) p r endpoint b"
    | (preflight) route t where "y = policy_preflight (pe_head env) p (rq_headers r) route t" by blast
  then show ?thesis
  proof cases
    case forbidden
    then show ?thesis using y by (simp add: answer_access_def)
  next
    case required
    then show ?thesis using required_named [OF _ str] y by blast
  next
    case preflight
    then show ?thesis using preflight_named [OF _ str] y by blast
  qed
qed

theorem answers_readable_witness:
  "access_named sample_lib sample_policy (rq_headers sample_request) (AccessCookie (as_bytes ''https://m.io''))"
proof -
  have "readable sample_policy (rq_headers sample_request) (Inr (Some sample_cookie_lease)) = Some (AccessCookie (as_bytes ''https://m.io''))" by code_simp
  from answers_readable [OF sample_passes _ _ this] show ?thesis by (simp add: sample_policy_env_def sample_lib_def)
qed

end
