(* ===== verification/Uploads.thy ===== *)
theory Uploads
  imports Quota Hash_Table
begin

unbundle bit_operations_syntax

text \<open>
  Upload aggregates, \<^verbatim>\<open>rust/server/src/engine/uploads.rs\<close>, with the counters of \<^verbatim>\<open>rust/proto/src/upload.rs\<close>. An \<open>Arc<Aggregate>\<close> is an
  address in the store's heap, so that an entry, its lanes and its readers share one aggregate and a lane or reader may outlive the entry.
  An operation maps the store to the new one; the instants it reads, in nanoseconds, are arguments in the order of the
  reads. HMAC and base64 are parameters. \<open>ag_notified\<close> counts the calls of \<open>notify_waiters\<close>.
\<close>

subsection \<open>Counters\<close>

definition MAX_COUNTER :: u64 where "MAX_COUNTER = push_bit 53 1 - 1"

record counters =
  co_bytes :: u64
  co_nanos :: u64

definition counters_new :: "u64 \<Rightarrow> u64 \<Rightarrow> counters" where
  "counters_new bytes nanos = \<lparr>co_bytes = min bytes MAX_COUNTER, co_nanos = min nanos MAX_COUNTER\<rparr>"

definition counters_follows :: "counters \<Rightarrow> counters \<Rightarrow> bool" where
  "counters_follows new prev \<longleftrightarrow> co_bytes new \<ge> co_bytes prev \<and> co_nanos new \<ge> co_nanos prev"

subsection \<open>IDs and aggregates\<close>

definition MAX_LIVE :: nat where "MAX_LIVE = 1000"
definition MAX_PER_CLIENT :: nat where "MAX_PER_CLIENT = 32"
definition ID_LIFETIME :: nat where "ID_LIFETIME = 2 * 60 * 1000000000"
definition ID_LIFETIME_NANOS :: u64 where "ID_LIFETIME_NANOS = of_nat ID_LIFETIME"
definition RETENTION :: nat where "RETENTION = ID_LIFETIME"
definition SWEEP_INTERVAL :: nat where "SWEEP_INTERVAL = 5 * 1000000000"
definition SWEEP_NANOS :: u64 where "SWEEP_NANOS = of_nat SWEEP_INTERVAL"

definition ID_PREFIX :: bytes where "ID_PREFIX = as_bytes ''gmu_''"
definition SIGNED_BYTES :: nat where "SIGNED_BYTES = 24"
definition ID_BYTES :: nat where "ID_BYTES = SIGNED_BYTES + 32"

record upload_lib =
  ub_sign :: "bytes \<Rightarrow> bytes \<Rightarrow> bytes"
  ub_verify :: "bytes \<Rightarrow> bytes \<Rightarrow> bytes \<Rightarrow> bool"
  ub_encode :: "bytes \<Rightarrow> bytes"
  ub_decode :: "nat \<Rightarrow> bytes \<Rightarrow> bytes option"

type_synonym upload_id = bytes

definition upload_id_parse :: "upload_lib \<Rightarrow> bytes \<Rightarrow> upload_id option" where
  "upload_id_parse lib text =
     (if take (length ID_PREFIX) text \<noteq> ID_PREFIX then None
      else let encoded = drop (length ID_PREFIX) text;
               exact = (length encoded = (ID_BYTES * 4 + 2) div 3)
           in if \<not> exact then None
              else case ub_decode lib ID_BYTES encoded of
                  None \<Rightarrow> None
                | Some raw \<Rightarrow> if length raw = ID_BYTES then Some raw else None)"

definition upload_id_text :: "upload_lib \<Rightarrow> upload_id \<Rightarrow> bytes" where
  "upload_id_text lib raw = ID_PREFIX @ ub_encode lib raw"

text \<open>The store's clock: the nanoseconds since its start.\<close>

definition clock_now :: "nat \<Rightarrow> nat \<Rightarrow> u64" where
  "clock_now start now = of_nat (min (now - start) (2 ^ 64 - 1))"

definition sub_saturating :: "u64 \<Rightarrow> u64 \<Rightarrow> u64" where
  "sub_saturating a b = (if b \<le> a then a - b else 0)"

datatype upload_phase = PhaseOpen | PhaseFinished | PhaseExpired

record aggregate =
  ag_owner :: client_key
  ag_bytes :: u64
  ag_first :: "u64 option"
  ag_lanes :: nat
  ag_touched :: nat
  ag_phase :: upload_phase
  ag_reader :: nat
  ag_notified :: nat

definition notify_waiters :: "aggregate \<Rightarrow> aggregate" where
  "notify_waiters a = a\<lparr>ag_notified := ag_notified a + 1\<rparr>"

definition aggregate_record :: "nat \<Rightarrow> u64 \<Rightarrow> nat \<Rightarrow> aggregate \<Rightarrow> aggregate" where
  "aggregate_record start bytes now a =
     a\<lparr>ag_first := (case ag_first a of None \<Rightarrow> Some (clock_now start now) | first \<Rightarrow> first), ag_bytes := ag_bytes a + bytes\<rparr>"

definition aggregate_counters :: "nat \<Rightarrow> nat \<Rightarrow> aggregate \<Rightarrow> counters" where
  "aggregate_counters start now a =
     counters_new (ag_bytes a) (case ag_first a of None \<Rightarrow> 0 | Some first \<Rightarrow> sub_saturating (clock_now start now) first)"

definition aggregate_next_tick :: "nat \<Rightarrow> nat \<Rightarrow> nat \<Rightarrow> aggregate \<Rightarrow> nat option" where
  "aggregate_next_tick start period now a = (case ag_first a of
       None \<Rightarrow> None
     | Some first \<Rightarrow>
         let period = (of_nat period :: u64);
             next = first + (sub_saturating (clock_now start now) first div period + 1) * period
         in Some (start + unat next))"

definition aggregate_ended :: "aggregate \<Rightarrow> bool" where
  "aggregate_ended a \<longleftrightarrow> ag_phase a \<noteq> PhaseOpen"

definition aggregate_leave :: "nat \<Rightarrow> aggregate \<Rightarrow> aggregate" where
  "aggregate_leave now a = notify_waiters (a\<lparr>ag_lanes := ag_lanes a - 1, ag_touched := now\<rparr>)"

definition aggregate_join :: "nat \<Rightarrow> aggregate \<Rightarrow> refusal + aggregate" where
  "aggregate_join now a =
     (if ag_phase a \<noteq> PhaseOpen then Inl InvalidId
      else Inr (a\<lparr>ag_lanes := ag_lanes a + 1, ag_touched := now\<rparr>))"

definition aggregate_expire :: "aggregate \<Rightarrow> aggregate" where
  "aggregate_expire a = notify_waiters (a\<lparr>ag_phase := PhaseExpired\<rparr>)"

subsection \<open>Entries\<close>

record upload_entry =
  ue_aggregate :: nat
  ue_capacity :: hold

record upload_store =
  up_key :: bytes
  up_start :: nat
  up_quota :: quota_state
  up_next_sweep :: u64
  up_live :: "(upload_id \<times> upload_entry) list"
  up_tombstones :: "(upload_id \<times> nat) list"
  up_heap :: "aggregate list"

definition upload_capacity :: quota_config where
  "upload_capacity = fst (quota_new MAX_LIVE MAX_PER_CLIENT)"

definition on_heap :: "nat \<Rightarrow> (aggregate \<Rightarrow> aggregate) \<Rightarrow> upload_store \<Rightarrow> upload_store" where
  "on_heap a f s = s\<lparr>up_heap := (up_heap s)[a := f (up_heap s ! a)]\<rparr>"

text \<open>An entry leaves the map: its aggregate expires and its share of the capacity is dropped.\<close>

definition entry_ended :: "quota_context \<Rightarrow> upload_store \<Rightarrow> upload_entry \<Rightarrow> upload_store" where
  "entry_ended x s e =
     on_heap (ue_aggregate e) aggregate_expire (s\<lparr>up_quota := fst (quota_drop x upload_capacity (up_quota s) (ue_capacity e))\<rparr>)"

definition entry_kept :: "upload_store \<Rightarrow> nat \<Rightarrow> upload_entry \<Rightarrow> bool" where
  "entry_kept s now e \<longleftrightarrow> (let life = up_heap s ! ue_aggregate e in ag_lanes life > 0 \<or> now - ag_touched life \<le> RETENTION)"

text \<open>\<open>live.retain\<close>: the entries kept, and the store once the others have ended.\<close>

fun retain_live :: "quota_context \<Rightarrow> nat \<Rightarrow> (upload_id \<times> upload_entry) list \<Rightarrow> upload_store \<Rightarrow> (upload_id \<times> upload_entry) list \<times> upload_store" where
  "retain_live x now [] s = ([], s)"
| "retain_live x now ((ident, e) # es) s =
     (if entry_kept s now e then (let (kept, s') = retain_live x now es s in ((ident, e) # kept, s'))
      else retain_live x now es (entry_ended x s e))"

definition entries_sweep :: "quota_context \<Rightarrow> upload_store \<Rightarrow> nat \<Rightarrow> upload_store" where
  "entries_sweep x s now =
     (let s = s\<lparr>up_tombstones := filter (\<lambda>(_, til). til \<ge> now) (up_tombstones s)\<rparr>;
          (kept, s) = retain_live x now (up_live s) s
      in s\<lparr>up_live := kept\<rparr>)"

definition entry_empty :: "upload_store \<Rightarrow> upload_entry \<Rightarrow> bool" where
  "entry_empty s e \<longleftrightarrow>
     (let a = up_heap s ! ue_aggregate e in ag_lanes a = 0 \<and> ag_phase a = PhaseOpen \<and> ag_bytes a = 0)"

definition entries_displace :: "quota_context \<Rightarrow> upload_store \<Rightarrow> nat \<Rightarrow> bool \<times> upload_store" where
  "entries_displace x s now =
     (if length (up_tombstones s) \<ge> MAX_LIVE then (False, s)
      else
        let empty = map (\<lambda>(ident, e). (ag_touched (up_heap s ! ue_aggregate e), ident)) (filter (\<lambda>(_, e). entry_empty s e) (up_live s))
        in case min_by_key fst empty of
            None \<Rightarrow> (False, s)
          | Some (_, ident) \<Rightarrow>
              let s = (case map_of (up_live s) ident of
                    None \<Rightarrow> s
                  | Some e \<Rightarrow> entry_ended x (s\<lparr>up_live := AList.delete ident (up_live s)\<rparr>) e)
              in (True, s\<lparr>up_tombstones := AList.update ident (now + ID_LIFETIME) (up_tombstones s)\<rparr>))"

datatype reach = ReachJoin | ReachWatch | ReachRead

subsection \<open>The store\<close>

definition uploads_new :: "bytes \<Rightarrow> nat \<Rightarrow> upload_store" where
  "uploads_new key now = \<lparr>up_key = key, up_start = now, up_quota = snd (quota_new MAX_LIVE MAX_PER_CLIENT),
     up_next_sweep = SWEEP_NANOS, up_live = [], up_tombstones = [], up_heap = []\<rparr>"

definition uploads_mint :: "upload_lib \<Rightarrow> upload_store \<Rightarrow> bytes \<Rightarrow> nat \<Rightarrow> bytes" where
  "uploads_mint lib s nonce now =
     (let signed = to_be_bytes (clock_now (up_start s) now) @ nonce
      in upload_id_text lib (signed @ ub_sign lib (up_key s) signed))"

definition uploads_entries :: "quota_context \<Rightarrow> upload_store \<Rightarrow> nat \<Rightarrow> nat \<Rightarrow> upload_store" where
  "uploads_entries x s t\<^sub>1 t\<^sub>2 =
     (let now = clock_now (up_start s) t\<^sub>1
      in if now \<ge> up_next_sweep s then (entries_sweep x s t\<^sub>2)\<lparr>up_next_sweep := now + SWEEP_NANOS\<rparr> else s)"

text \<open>The issue time an ID holds, \<open>u64::from_be_bytes\<close> of its first eight bytes.\<close>

definition id_issued :: "upload_id \<Rightarrow> u64" where
  "id_issued raw = foldl (\<lambda>v b. push_bit 8 v OR ucast b) 0 (take 8 raw)"

definition uploads_valid :: "upload_lib \<Rightarrow> upload_store \<Rightarrow> upload_id \<Rightarrow> nat \<Rightarrow> bool" where
  "uploads_valid lib s raw now \<longleftrightarrow>
     ub_verify lib (up_key s) (take SIGNED_BYTES raw) (drop SIGNED_BYTES raw) \<and>
     (let now = clock_now (up_start s) now in id_issued raw \<le> now \<and> now - id_issued raw \<le> ID_LIFETIME_NANOS)"

definition uploads_capacity :: "quota_context \<Rightarrow> upload_store \<Rightarrow> client_keys \<Rightarrow> nat \<Rightarrow> (refusal + hold) \<times> upload_store" where
  "uploads_capacity x s ks now =
     (let ks = keys_charged ks;
          first = quota_acquire x upload_capacity (up_quota s) ks 1;
          s = s\<lparr>up_quota := snd first\<rparr>
      in case fst first of
          Inr h \<Rightarrow> (Inr h, s)
        | Inl Client \<Rightarrow> (Inl (refusal_of Client), s)
        | Inl Total \<Rightarrow>
            (case entries_displace x s now of
               (False, s) \<Rightarrow> (Inl (refusal_of Total), s)
             | (True, s) \<Rightarrow>
                 let again = quota_acquire x upload_capacity (up_quota s) ks 1
                 in (case fst again of Inl e \<Rightarrow> Inl (refusal_of e) | Inr h \<Rightarrow> Inr h, s\<lparr>up_quota := snd again\<rparr>)))"

definition uploads_reach ::
    "upload_lib \<Rightarrow> quota_context \<Rightarrow> upload_store \<Rightarrow> bytes \<Rightarrow> client_keys option \<Rightarrow> reach \<Rightarrow>
     nat \<Rightarrow> nat \<Rightarrow> nat \<Rightarrow> nat \<Rightarrow> nat \<Rightarrow> (refusal + nat) \<times> upload_store" where
  "uploads_reach lib x s text owner reach t\<^sub>1 t\<^sub>2 t\<^sub>3 t\<^sub>4 t\<^sub>5 =
     (let narrowest = (case owner of None \<Rightarrow> None | Some ks \<Rightarrow> keys_narrowest (x_trunc x) ks)
      in if reach \<noteq> ReachRead \<and> narrowest = None then (Inl OwnerMismatch, s)
         else case upload_id_parse lib text of
             None \<Rightarrow> (Inl InvalidId, s)
           | Some ident \<Rightarrow>
               let s = uploads_entries x s t\<^sub>1 t\<^sub>2
               in case map_of (up_live s) ident of
                   Some e \<Rightarrow>
                     let a = ue_aggregate e
                     in if narrowest \<noteq> Some (ag_owner (up_heap s ! a)) then (Inl OwnerMismatch, s)
                        else if reach = ReachJoin
                        then (case aggregate_join t\<^sub>5 (up_heap s ! a) of
                                Inl refusal \<Rightarrow> (Inl refusal, s)
                              | Inr joined \<Rightarrow> (Inr a, on_heap a (\<lambda>_. joined) s))
                        else (Inr a, s)
                 | None \<Rightarrow>
                     (case (owner, narrowest) of
                        (Some ks, Some owner) \<Rightarrow>
                          if reach = ReachRead \<or> map_of (up_tombstones s) ident \<noteq> None \<or> \<not> uploads_valid lib s ident t\<^sub>3
                          then (Inl InvalidId, s)
                          else (case uploads_capacity x s ks t\<^sub>4 of
                                  (Inl refusal, s) \<Rightarrow> (Inl refusal, s)
                                | (Inr h, s) \<Rightarrow>
                                    let a = length (up_heap s);
                                        aggregate = \<lparr>ag_owner = owner, ag_bytes = 0, ag_first = None,
                                          ag_lanes = (if reach = ReachJoin then 1 else 0), ag_touched = t\<^sub>5,
                                          ag_phase = PhaseOpen, ag_reader = 0, ag_notified = 0\<rparr>
                                    in (Inr a, s\<lparr>up_heap := up_heap s @ [aggregate],
                                          up_live := AList.update ident \<lparr>ue_aggregate = a, ue_capacity = h\<rparr> (up_live s)\<rparr>))
                      | _ \<Rightarrow> (Inl InvalidId, s)))"

text \<open>\<open>begin\<close> answers the address of the aggregate its sink joins, \<open>subscribe\<close> that and the number of its reader.\<close>

definition uploads_begin ::
    "upload_lib \<Rightarrow> quota_context \<Rightarrow> upload_store \<Rightarrow> bytes \<Rightarrow> client_keys option \<Rightarrow>
     nat \<Rightarrow> nat \<Rightarrow> nat \<Rightarrow> nat \<Rightarrow> nat \<Rightarrow> (refusal + nat) \<times> upload_store" where
  "uploads_begin lib x s text owner t\<^sub>1 t\<^sub>2 t\<^sub>3 t\<^sub>4 t\<^sub>5 = uploads_reach lib x s text owner ReachJoin t\<^sub>1 t\<^sub>2 t\<^sub>3 t\<^sub>4 t\<^sub>5"

definition uploads_subscribe ::
    "upload_lib \<Rightarrow> quota_context \<Rightarrow> upload_store \<Rightarrow> bytes \<Rightarrow> client_keys option \<Rightarrow>
     nat \<Rightarrow> nat \<Rightarrow> nat \<Rightarrow> nat \<Rightarrow> nat \<Rightarrow> (refusal + nat \<times> nat) \<times> upload_store" where
  "uploads_subscribe lib x s text owner t\<^sub>1 t\<^sub>2 t\<^sub>3 t\<^sub>4 t\<^sub>5 =
     (case uploads_reach lib x s text owner ReachWatch t\<^sub>1 t\<^sub>2 t\<^sub>3 t\<^sub>4 t\<^sub>5 of
        (Inl refusal, s) \<Rightarrow> (Inl refusal, s)
      | (Inr a, s) \<Rightarrow>
          let s = on_heap a (\<lambda>g. g\<lparr>ag_reader := ag_reader g + 1\<rparr>) s; reader = ag_reader (up_heap s ! a)
          in (Inr (a, reader), on_heap a notify_waiters s))"

definition uploads_watchable ::
    "upload_lib \<Rightarrow> quota_context \<Rightarrow> upload_store \<Rightarrow> bytes \<Rightarrow> client_keys option \<Rightarrow> nat \<Rightarrow> nat \<Rightarrow> nat \<Rightarrow> refusal option \<times> upload_store" where
  "uploads_watchable lib x s text owner t\<^sub>1 t\<^sub>2 t\<^sub>3 =
     (case (case owner of None \<Rightarrow> None | Some ks \<Rightarrow> keys_narrowest (x_trunc x) ks) of
        None \<Rightarrow> (Some OwnerMismatch, s)
      | Some narrowest \<Rightarrow>
          (case upload_id_parse lib text of
             None \<Rightarrow> (Some InvalidId, s)
           | Some ident \<Rightarrow>
               let s = uploads_entries x s t\<^sub>1 t\<^sub>2
               in (case map_of (up_live s) ident of
                     Some e \<Rightarrow> if ag_owner (up_heap s ! ue_aggregate e) \<noteq> narrowest then Some OwnerMismatch else None
                   | None \<Rightarrow>
                       if map_of (up_tombstones s) ident \<noteq> None \<or> \<not> uploads_valid lib s ident t\<^sub>3 then Some InvalidId else None, s)))"

definition uploads_checkpoint ::
    "upload_lib \<Rightarrow> quota_context \<Rightarrow> upload_store \<Rightarrow> bytes \<Rightarrow> client_keys option \<Rightarrow> nat \<Rightarrow> nat \<Rightarrow> nat \<Rightarrow> (refusal + counters) \<times> upload_store" where
  "uploads_checkpoint lib x s text owner t\<^sub>1 t\<^sub>2 t\<^sub>3 =
     (case uploads_reach lib x s text owner ReachRead t\<^sub>1 t\<^sub>2 t\<^sub>2 t\<^sub>2 t\<^sub>2 of
        (Inl refusal, s) \<Rightarrow> (Inl refusal, s)
      | (Inr a, s) \<Rightarrow> (Inr (aggregate_counters (up_start s) t\<^sub>3 (up_heap s ! a)), s))"

definition aggregate_finish :: "aggregate \<Rightarrow> aggregate" where
  "aggregate_finish a = notify_waiters (if ag_phase a = PhaseOpen then a\<lparr>ag_phase := PhaseFinished\<rparr> else a)"

definition uploads_finish ::
    "upload_lib \<Rightarrow> quota_context \<Rightarrow> upload_store \<Rightarrow> bytes \<Rightarrow> client_keys option \<Rightarrow> nat \<Rightarrow> nat \<Rightarrow> refusal option \<times> upload_store" where
  "uploads_finish lib x s text owner t\<^sub>1 t\<^sub>2 =
     (case uploads_reach lib x s text owner ReachRead t\<^sub>1 t\<^sub>2 t\<^sub>2 t\<^sub>2 t\<^sub>2 of
        (Inl refusal, s) \<Rightarrow> (Some refusal, s)
      | (Inr a, s) \<Rightarrow> (None, on_heap a aggregate_finish s))"

definition uploads_sweep :: "quota_context \<Rightarrow> upload_store \<Rightarrow> nat \<Rightarrow> nat \<Rightarrow> nat \<Rightarrow> upload_store" where
  "uploads_sweep x s t\<^sub>0 t\<^sub>1 t\<^sub>2 =
     (if clock_now (up_start s) t\<^sub>0 \<ge> up_next_sweep s then uploads_entries x s t\<^sub>1 t\<^sub>2 else s)"

subsection \<open>The invariant\<close>

text \<open>When an ID stops being usable: its issue time on the server's clock, and the lifetime after it.\<close>

definition id_time :: "upload_store \<Rightarrow> upload_id \<Rightarrow> nat" where
  "id_time s ident = up_start s + unat (id_issued ident)"

definition caps :: "(upload_id \<times> upload_entry) list \<Rightarrow> hold multiset" where
  "caps live = mset (map (ue_capacity \<circ> snd) live)"

definition shape_ok :: "upload_store \<Rightarrow> bool" where
  "shape_ok s \<longleftrightarrow> table_wf (up_live s) \<and> table_wf (up_tombstones s) \<and> length (up_tombstones s) \<le> MAX_LIVE \<and>
     distinct (map (ue_aggregate \<circ> snd) (up_live s)) \<and>
     (\<forall>(ident, e) \<in> set (up_live s). h_weight (ue_capacity e) = 1 \<and> ue_aggregate e < length (up_heap s) \<and> map_of (up_tombstones s) ident = None)"

text \<open>Every aggregate counts the sinks that joined it and were not dropped.\<close>

definition lanes_ok :: "upload_store \<Rightarrow> nat multiset \<Rightarrow> bool" where
  "lanes_ok s sinks \<longleftrightarrow> (\<forall>a < length (up_heap s). ag_lanes (up_heap s ! a) = count sinks a) \<and> (\<forall>a \<in># sinks. a < length (up_heap s))"

text \<open>An ID that has no entry any more is refused: by its tombstone, or by its age.\<close>

definition id_dead :: "upload_store \<Rightarrow> nat \<Rightarrow> upload_id \<Rightarrow> bool" where
  "id_dead s now ident \<longleftrightarrow>
     (\<exists>til. map_of (up_tombstones s) ident = Some til \<and> id_time s ident + ID_LIFETIME \<le> til) \<or>
     id_time s ident + ID_LIFETIME < now"

text \<open>The answers given so far, an ID with the address of its aggregate each.\<close>

definition answer_ok :: "upload_lib \<Rightarrow> upload_store \<Rightarrow> nat \<Rightarrow> upload_id \<Rightarrow> nat \<Rightarrow> bool" where
  "answer_ok lib s now ident a \<longleftrightarrow> a < length (up_heap s) \<and> id_time s ident \<le> ag_touched (up_heap s ! a) \<and>
     ub_verify lib (up_key s) (take SIGNED_BYTES ident) (drop SIGNED_BYTES ident) \<and>
     (\<forall>e. map_of (up_live s) ident = Some e \<longrightarrow> ue_aggregate e = a) \<and> (map_of (up_live s) ident = None \<longrightarrow> id_dead s now ident)"

definition answers_ok :: "upload_lib \<Rightarrow> upload_store \<Rightarrow> (upload_id \<times> nat) set \<Rightarrow> nat \<Rightarrow> bool" where
  "answers_ok lib s ans now \<longleftrightarrow> (\<forall>(ident, a) \<in> ans. answer_ok lib s now ident a) \<and>
     (\<forall>(ident, e) \<in> set (up_live s). (ident, ue_aggregate e) \<in> ans) \<and>
     (\<forall>i j a. (i, a) \<in> ans \<longrightarrow> (j, a) \<in> ans \<longrightarrow> i = j) \<and> (\<forall>j til. map_of (up_tombstones s) j = Some til \<longrightarrow> j \<in> fst ` ans) \<and>
     (\<forall>g \<in> set (up_heap s). ag_touched g \<le> now)"

definition upload_frame :: "upload_lib \<Rightarrow> upload_store \<Rightarrow> nat multiset \<Rightarrow> (upload_id \<times> nat) set \<Rightarrow> nat \<Rightarrow> bool" where
  "upload_frame lib s sinks ans now \<longleftrightarrow> shape_ok s \<and> lanes_ok s sinks \<and> answers_ok lib s ans now"

lemma id_dead_later: "id_dead s now ident \<Longrightarrow> now \<le> now' \<Longrightarrow> id_dead s now' ident"
  by (auto simp: id_dead_def)

lemma frame_later:
  assumes "upload_frame lib s sinks ans now" and "now \<le> now'"
  shows "upload_frame lib s sinks ans now'"
proof -
  have "answers_ok lib s ans now'"
    using assms id_dead_later [OF _ assms(2)] unfolding upload_frame_def answers_ok_def answer_ok_def
    by fastforce
  with assms show ?thesis by (simp add: upload_frame_def)
qed

lemma id_dead_cong [simp]:
  "id_dead (s\<lparr>up_quota := q\<rparr>) now ident = id_dead s now ident" "id_dead (s\<lparr>up_next_sweep := n\<rparr>) now ident = id_dead s now ident"
  by (simp_all add: id_dead_def id_time_def)

lemma frame_quota [simp]: "upload_frame lib (s\<lparr>up_quota := q\<rparr>) sinks ans now = upload_frame lib s sinks ans now"
  by (simp add: upload_frame_def shape_ok_def lanes_ok_def answers_ok_def answer_ok_def id_time_def)

lemma frame_next_sweep [simp]: "upload_frame lib (s\<lparr>up_next_sweep := q\<rparr>) sinks ans now = upload_frame lib s sinks ans now"
  by (simp add: upload_frame_def shape_ok_def lanes_ok_def answers_ok_def answer_ok_def id_time_def)

text \<open>An update of one aggregate that counts its sinks and does not go back in time.\<close>

lemma frame_on_heap:
  assumes inv: "upload_frame lib s sinks ans now"
    and lanes: "a < length (up_heap s) \<Longrightarrow> ag_lanes (f (up_heap s ! a)) = count sinks' a"
    and others: "\<And>b. b \<noteq> a \<Longrightarrow> count sinks' b = count sinks b" and bound: "a < length (up_heap s) \<or> count sinks' a = 0"
    and touched: "a < length (up_heap s) \<Longrightarrow> ag_touched (up_heap s ! a) \<le> ag_touched (f (up_heap s ! a)) \<and> ag_touched (f (up_heap s ! a)) \<le> now"
  shows "upload_frame lib (on_heap a f s) sinks' ans now"
proof -
  let ?s = "on_heap a f s"
  have shape: "shape_ok ?s" using inv by (simp add: upload_frame_def shape_ok_def on_heap_def)
  have "b < length (up_heap s)" if "b \<in># sinks'" for b
    using that others [of b] bound inv by (cases "b = a") (auto simp: upload_frame_def lanes_ok_def simp flip: count_greater_zero_iff)
  moreover have "ag_lanes (up_heap ?s ! b) = count sinks' b" if "b < length (up_heap ?s)" for b
    using that inv lanes others [of b] by (cases "b = a") (simp_all add: on_heap_def upload_frame_def lanes_ok_def)
  ultimately have lanes_ok: "lanes_ok ?s sinks'" by (simp add: lanes_ok_def on_heap_def)
  have "answer_ok lib ?s now i b" if "answer_ok lib s now i b" for i b
    using that touched by (cases "b = a") (auto simp: answer_ok_def on_heap_def id_time_def id_dead_def)
  moreover have "ag_touched g \<le> now" if "g \<in> set (up_heap ?s)" for g
  proof (cases "a < length (up_heap s)")
    case True
    then show ?thesis using that inv touched set_update_subset_insert [of "up_heap s" a "f (up_heap s ! a)"]
      by (auto simp: on_heap_def upload_frame_def answers_ok_def)
  next
    case False
    then have "up_heap ?s = up_heap s" by (simp add: on_heap_def list_update_beyond)
    then show ?thesis using that inv by (simp add: upload_frame_def answers_ok_def)
  qed
  ultimately have "answers_ok lib ?s ans now"
    using inv by (fastforce simp: upload_frame_def answers_ok_def on_heap_def)
  with shape lanes_ok show ?thesis by (simp add: upload_frame_def)
qed

lemma frame_on_heap_same:
  assumes "upload_frame lib s sinks ans now" and "\<And>g. ag_lanes (f g) = ag_lanes g" "\<And>g. ag_touched (f g) = ag_touched g"
  shows "upload_frame lib (on_heap a f s) sinks ans now"
proof (rule frame_on_heap [OF assms(1)])
  show "a < length (up_heap s) \<or> count sinks a = 0"
    using assms(1) by (auto simp: upload_frame_def lanes_ok_def count_eq_zero_iff)
qed (use assms in \<open>auto simp: upload_frame_def lanes_ok_def answers_ok_def\<close>)

lemma aggregate_updates [simp]:
  "ag_lanes (aggregate_expire g) = ag_lanes g" "ag_touched (aggregate_expire g) = ag_touched g"
  "ag_lanes (notify_waiters g) = ag_lanes g" "ag_touched (notify_waiters g) = ag_touched g"
  "ag_lanes (aggregate_finish g) = ag_lanes g" "ag_touched (aggregate_finish g) = ag_touched g"
  "ag_lanes (aggregate_record start n now g) = ag_lanes g" "ag_touched (aggregate_record start n now g) = ag_touched g"
  by (simp_all add: aggregate_expire_def notify_waiters_def aggregate_finish_def aggregate_record_def)

text \<open>One entry ends, its ID refused from now on.\<close>

lemma frame_entry_ended:
  assumes inv: "upload_frame lib (s\<lparr>up_live := es\<^sub>1 @ (ident, e) # es\<^sub>2\<rparr>) sinks ans now"
    and t: "table_wf tombs" "length tombs \<le> MAX_LIVE" "\<And>j. j \<noteq> ident \<Longrightarrow> map_of tombs j = map_of (up_tombstones s) j"
    and dead: "id_dead (s\<lparr>up_tombstones := tombs\<rparr>) now ident"
  shows "upload_frame lib ((entry_ended x s e)\<lparr>up_live := es\<^sub>1 @ es\<^sub>2, up_tombstones := tombs\<rparr>) sinks ans now"
proof -
  let ?r = "s\<lparr>up_live := es\<^sub>1 @ es\<^sub>2, up_tombstones := tombs\<rparr>"
  have wf: "table_wf (es\<^sub>1 @ (ident, e) # es\<^sub>2)" using inv by (simp add: upload_frame_def shape_ok_def)
  then have fresh: "ident \<notin> fst ` set (es\<^sub>1 @ es\<^sub>2)" and wf': "table_wf (es\<^sub>1 @ es\<^sub>2)" by (auto simp: table_wf_def)
  have look: "map_of (es\<^sub>1 @ es\<^sub>2) j = (if j = ident then None else map_of (es\<^sub>1 @ (ident, e) # es\<^sub>2) j)" for j
  proof (cases "j = ident")
    case True
    then show ?thesis using fresh by (auto simp: map_add_None map_of_eq_None_iff image_Un)
  next
    case False
    then show ?thesis by (simp add: map_add_def split: option.splits)
  qed
  have "h_weight (ue_capacity e') = 1 \<and> ue_aggregate e' < length (up_heap s) \<and> map_of tombs j = None" if "(j, e') \<in> set (es\<^sub>1 @ es\<^sub>2)" for j e'
  proof -
    have "j \<noteq> ident" using that fresh by force
    then show ?thesis using that t(3) [of j] inv by (auto simp: upload_frame_def shape_ok_def)
  qed
  then have "\<forall>(j, e') \<in> set (es\<^sub>1 @ es\<^sub>2). h_weight (ue_capacity e') = 1 \<and> ue_aggregate e' < length (up_heap s) \<and> map_of tombs j = None" by blast
  then have shape: "shape_ok ?r" using inv wf' t(1,2) by (simp add: upload_frame_def shape_ok_def)
  have "id_dead ?r now j" if "id_dead s now j" for j
    using that dead t(3) [of j] by (cases "j = ident") (auto simp: id_dead_def id_time_def)
  moreover have "id_dead ?r now ident" using dead by (simp add: id_dead_def id_time_def)
  ultimately have "answer_ok lib ?r now j a" if "answer_ok lib (s\<lparr>up_live := es\<^sub>1 @ (ident, e) # es\<^sub>2\<rparr>) now j a" for j a
    using that look [of j] unfolding answer_ok_def id_time_def by (auto simp: id_dead_def id_time_def split: if_splits)
  moreover have "j \<in> fst ` ans" if "map_of tombs j = Some til" for j til
  proof (cases "j = ident")
    case True
    have "(ident, ue_aggregate e) \<in> ans" using inv by (auto simp: upload_frame_def answers_ok_def)
    then show ?thesis using True by force
  next
    case False
    then show ?thesis using that t(3) [of j] inv by (simp add: upload_frame_def answers_ok_def)
  qed
  ultimately have "answers_ok lib ?r ans now" using inv unfolding upload_frame_def answers_ok_def by auto
  with shape inv have "upload_frame lib ?r sinks ans now" by (simp add: upload_frame_def lanes_ok_def)
  then have "upload_frame lib (on_heap (ue_aggregate e) aggregate_expire ?r) sinks ans now" by (rule frame_on_heap_same) simp_all
  moreover have "(entry_ended x s e)\<lparr>up_live := es\<^sub>1 @ es\<^sub>2, up_tombstones := tombs\<rparr> =
      (on_heap (ue_aggregate e) aggregate_expire ?r)\<lparr>up_quota := fst (quota_drop x upload_capacity (up_quota s) (ue_capacity e))\<rparr>"
    by (simp add: entry_ended_def on_heap_def)
  ultimately show ?thesis by simp
qed

text \<open>The capacity counts the entries, with the holds of a caller beside them.\<close>

definition upload_quota :: "quota_context \<Rightarrow> upload_store \<Rightarrow> hold multiset \<Rightarrow> bool" where
  "upload_quota x s H \<longleftrightarrow> quota_inv (x_trunc x) upload_capacity (up_quota s) (caps (up_live s) + H)"

lemma quota_entry_ended:
  assumes "upload_quota x (s\<lparr>up_live := es\<^sub>1 @ (ident, e) # es\<^sub>2\<rparr>) H"
  shows "upload_quota x ((entry_ended x s e)\<lparr>up_live := es\<^sub>1 @ es\<^sub>2, up_tombstones := tombs\<rparr>) H"
proof -
  let ?H = "caps (es\<^sub>1 @ (ident, e) # es\<^sub>2) + H"
  have "quota_inv (x_trunc x) upload_capacity (fst (quota_drop x upload_capacity (up_quota s) (ue_capacity e))) (?H - {#ue_capacity e#})"
    using assms by (intro quota_drop_inv) (simp_all add: upload_quota_def caps_def)
  then show ?thesis by (simp add: upload_quota_def caps_def entry_ended_def on_heap_def)
qed

definition upload_inv :: "upload_lib \<Rightarrow> quota_context \<Rightarrow> upload_store \<Rightarrow> nat multiset \<Rightarrow> (upload_id \<times> nat) set \<Rightarrow> nat \<Rightarrow> bool" where
  "upload_inv lib x s sinks ans now \<longleftrightarrow> upload_frame lib s sinks ans now \<and> upload_quota x s {#}"

lemma retain_tombstones [simp]: "up_tombstones (entry_ended x s e) = up_tombstones s" "up_start (entry_ended x s e) = up_start s"
  "up_live (entry_ended x s e) = up_live s" "up_key (entry_ended x s e) = up_key s" "length (up_heap (entry_ended x s e)) = length (up_heap s)"
  by (simp_all add: entry_ended_def on_heap_def)

lemma retain_live_inv:
  "retain_live x now es s = (kept, s') \<Longrightarrow> upload_inv lib x (s\<lparr>up_live := done @ es\<rparr>) sinks ans now \<Longrightarrow>
     upload_inv lib x (s'\<lparr>up_live := done @ kept\<rparr>) sinks ans now"
proof (induction x now es s arbitrary: "done" kept rule: retain_live.induct)
  case (2 x now ident e es s)
  note inv = 2(4)
  show ?case
  proof (cases "entry_kept s now e")
    case True
    obtain kept' where k: "retain_live x now es s = (kept', s')" "kept = (ident, e) # kept'"
      using 2(3) True by (auto split: prod.splits)
    then show ?thesis using 2(1) [OF True k(1), of "done @ [(ident, e)]"] inv by simp
  next
    case False
    have ok: "answer_ok lib (s\<lparr>up_live := done @ (ident, e) # es\<rparr>) now ident (ue_aggregate e)"
      using inv by (auto simp: upload_inv_def upload_frame_def answers_ok_def)
    then have "id_time s ident + ID_LIFETIME < now"
      using False by (auto simp: answer_ok_def entry_kept_def Let_def RETENTION_def id_time_def)
    then have dead: "id_dead (s\<lparr>up_tombstones := up_tombstones s\<rparr>) now ident" by (simp add: id_dead_def)
    have "upload_frame lib ((entry_ended x s e)\<lparr>up_live := done @ es, up_tombstones := up_tombstones s\<rparr>) sinks ans now"
      using inv dead by (intro frame_entry_ended) (auto simp: upload_inv_def upload_frame_def shape_ok_def)
    moreover have "(entry_ended x s e)\<lparr>up_live := done @ es, up_tombstones := up_tombstones s\<rparr> = (entry_ended x s e)\<lparr>up_live := done @ es\<rparr>"
      by (simp add: entry_ended_def on_heap_def)
    moreover have "upload_quota x ((entry_ended x s e)\<lparr>up_live := done @ es, up_tombstones := up_tombstones s\<rparr>) {#}"
      using inv by (intro quota_entry_ended) (auto simp: upload_inv_def)
    ultimately have "upload_inv lib x ((entry_ended x s e)\<lparr>up_live := done @ es\<rparr>) sinks ans now" by (metis upload_inv_def)
    then show ?thesis using 2(2) [OF False, of kept "done"] 2(3) False by simp
  qed
qed simp

lemma inv_later: "upload_inv lib x s sinks ans now \<Longrightarrow> now \<le> now' \<Longrightarrow> upload_inv lib x s sinks ans now'"
  using frame_later by (auto simp: upload_inv_def)

lemma entries_sweep_inv:
  assumes inv: "upload_inv lib x s sinks ans now"
  shows "upload_inv lib x (entries_sweep x s now) sinks ans now"
proof -
  let ?s = "s\<lparr>up_tombstones := filter (\<lambda>(_, til). til \<ge> now) (up_tombstones s)\<rparr>"
  have wf: "table_wf (up_tombstones s)" using inv by (simp add: upload_inv_def upload_frame_def shape_ok_def)
  have look: "map_of (up_tombstones ?s) j = (case map_of (up_tombstones s) j of Some til \<Rightarrow> if til \<ge> now then Some til else None | None \<Rightarrow> None)" for j
    using wf by (simp add: lookup_filter split: option.splits)
  have "id_dead ?s now j" if "id_dead s now j" for j
    using that look [of j] by (fastforce simp: id_dead_def id_time_def)
  then have "answer_ok lib ?s now j a" if "answer_ok lib s now j a" for j a
    using that by (simp add: answer_ok_def id_time_def)
  moreover have "j \<in> fst ` ans" if "map_of (up_tombstones ?s) j = Some til" for j til
    using that look [of j] inv by (auto simp: upload_inv_def upload_frame_def answers_ok_def split: option.splits if_splits)
  ultimately have "answers_ok lib ?s ans now" using inv by (auto simp: upload_inv_def upload_frame_def answers_ok_def)
  moreover have "shape_ok ?s"
    using inv look by (auto simp: upload_inv_def upload_frame_def shape_ok_def intro: le_trans [OF length_filter_le])
  ultimately have "upload_inv lib x (?s\<lparr>up_live := [] @ up_live ?s\<rparr>) sinks ans now"
    using inv by (simp add: upload_inv_def upload_frame_def upload_quota_def lanes_ok_def)
  moreover obtain kept s' where "retain_live x now (up_live s) ?s = (kept, s')" by (metis prod.exhaust)
  ultimately show ?thesis using retain_live_inv [of x now "up_live s" ?s kept s' lib "[]"] by (simp add: entries_sweep_def)
qed

lemma uploads_entries_inv:
  assumes "upload_inv lib x s sinks ans now" and "now \<le> t\<^sub>2"
  shows "upload_inv lib x (uploads_entries x s t\<^sub>1 t\<^sub>2) sinks ans t\<^sub>2"
  using entries_sweep_inv [OF inv_later [OF assms]] inv_later [OF assms]
  by (simp add: uploads_entries_def Let_def upload_inv_def upload_quota_def)

lemma retain_live_same:
  "retain_live x now es s = (kept, s') \<Longrightarrow> up_start s' = up_start s \<and> up_key s' = up_key s \<and> length (up_heap s') = length (up_heap s)"
  by (induction x now es s arbitrary: kept rule: retain_live.induct) (auto split: if_splits prod.splits)

lemma uploads_entries_same [simp]:
  "up_start (uploads_entries x s t\<^sub>1 t\<^sub>2) = up_start s" "up_key (uploads_entries x s t\<^sub>1 t\<^sub>2) = up_key s"
proof -
  let ?s = "s\<lparr>up_tombstones := filter (\<lambda>(_, til). til \<ge> t\<^sub>2) (up_tombstones s)\<rparr>"
  obtain kept s' where r: "retain_live x t\<^sub>2 (up_live s) ?s = (kept, s')" by (metis prod.exhaust)
  from retain_live_same [OF r] show "up_start (uploads_entries x s t\<^sub>1 t\<^sub>2) = up_start s" "up_key (uploads_entries x s t\<^sub>1 t\<^sub>2) = up_key s"
    by (simp_all add: uploads_entries_def entries_sweep_def r Let_def)
qed

text \<open>Displacing makes a tombstone of an entry, before its first byte.\<close>

lemma entries_displace_inv:
  assumes run: "entries_displace x s now = (ok, s')" and inv: "upload_inv lib x s sinks ans now"
  shows "upload_inv lib x s' sinks ans now \<and> up_start s' = up_start s \<and> up_key s' = up_key s \<and>
    (\<forall>j e. map_of (up_live s') j = Some e \<longrightarrow> map_of (up_live s) j = Some e)"
proof (cases "s' = s")
  case True
  then show ?thesis using inv by simp
next
  case False
  let ?empty = "map (\<lambda>(ident, e). (ag_touched (up_heap s ! ue_aggregate e), ident)) (filter (\<lambda>(_, e). entry_empty s e) (up_live s))"
  have wf: "table_wf (up_live s)" using inv by (simp add: upload_inv_def upload_frame_def shape_ok_def)
  obtain t ident where m: "min_by_key fst ?empty = Some (t, ident)" and room: "\<not> length (up_tombstones s) \<ge> MAX_LIVE"
    using run False by (auto simp: entries_displace_def Let_def simp del: min_by_key_None split: if_splits option.splits)
  from min_by_key_Some [OF m] obtain e where e: "(ident, e) \<in> set (up_live s)" by auto
  then obtain es\<^sub>1 es\<^sub>2 where es: "up_live s = es\<^sub>1 @ (ident, e) # es\<^sub>2" by (metis split_list)
  have look: "map_of (up_live s) ident = Some e" using e wf by (simp add: in_table)
  let ?tombs = "AList.update ident (now + ID_LIFETIME) (up_tombstones s)"
  have del: "AList.delete ident (up_live s) = es\<^sub>1 @ es\<^sub>2" using wf delete_split by (simp add: es)
  then have s': "s' = (entry_ended x (s\<lparr>up_live := es\<^sub>1 @ es\<^sub>2\<rparr>) e)\<lparr>up_tombstones := ?tombs\<rparr>"
    using run room m look by (simp add: entries_displace_def Let_def)
  also have "\<dots> = (entry_ended x s e)\<lparr>up_live := es\<^sub>1 @ es\<^sub>2, up_tombstones := ?tombs\<rparr>"
    by (simp add: entry_ended_def on_heap_def)
  finally have eq: "s' = (entry_ended x s e)\<lparr>up_live := es\<^sub>1 @ es\<^sub>2, up_tombstones := ?tombs\<rparr>" .
  have ok: "answer_ok lib s now ident (ue_aggregate e)" and touched: "\<forall>g \<in> set (up_heap s). ag_touched g \<le> now"
    using inv e by (auto simp: upload_inv_def upload_frame_def answers_ok_def)
  then have "id_time s ident \<le> now" unfolding answer_ok_def by (meson le_trans nth_mem)
  then have "id_dead (s\<lparr>up_tombstones := ?tombs\<rparr>) now ident" by (simp add: id_dead_def id_time_def lookup_update)
  moreover have "map_of (up_tombstones s) ident = None" using inv e by (auto simp: upload_inv_def upload_frame_def shape_ok_def)
  moreover have whole: "s\<lparr>up_live := es\<^sub>1 @ (ident, e) # es\<^sub>2\<rparr> = s" by (simp flip: es)
  ultimately have "upload_frame lib s' sinks ans now" unfolding eq
    using inv room by (intro frame_entry_ended [where ident = ident]) (auto simp: upload_inv_def upload_frame_def shape_ok_def length_update lookup_update)
  moreover have "upload_quota x s' {#}" unfolding eq using inv whole by (intro quota_entry_ended [where ident = ident]) (simp add: upload_inv_def)
  moreover have "map_of (up_live s) j = Some e'" if "map_of (up_live s') j = Some e'" for j e'
    using that del [symmetric] by (simp add: eq lookup_delete split: if_splits)
  ultimately show ?thesis by (simp add: upload_inv_def eq)
qed

lemma entries_displace_tombs:
  assumes "entries_displace x s now = (ok, s')" and "map_of (up_live s) ident = None" and "table_wf (up_live s)"
  shows "map_of (up_tombstones s') ident = map_of (up_tombstones s) ident"
proof -
  have "i \<noteq> ident" if "min_by_key fst (map (\<lambda>(ident, e). (ag_touched (up_heap s ! ue_aggregate e), ident)) (filter (\<lambda>(_, e). entry_empty s e) (up_live s))) = Some (t, i)" for t i
    using min_by_key_Some [OF that] assms(2,3) by (auto simp: in_table)
  then show ?thesis using assms(1)
    by (auto simp: entries_displace_def Let_def lookup_update simp del: min_by_key_None split: if_splits option.splits)
qed

lemma uploads_capacity_inv:
  assumes run: "uploads_capacity x s ks now = (r, s')" and inv: "upload_inv lib x s sinks ans now"
  shows "upload_frame lib s' sinks ans now \<and> up_start s' = up_start s \<and> up_key s' = up_key s \<and>
    (\<forall>j e. map_of (up_live s') j = Some e \<longrightarrow> map_of (up_live s) j = Some e) \<and>
    (\<forall>j. map_of (up_live s) j = None \<longrightarrow> map_of (up_tombstones s') j = map_of (up_tombstones s) j) \<and>
    (case r of Inl _ \<Rightarrow> upload_quota x s' {#}
     | Inr h \<Rightarrow> upload_quota x s' {#h#} \<and> h_weight h = 1 \<and> h_keys h = keys_charged ks)"
proof -
  have q: "quota_inv (x_trunc x) upload_capacity q' (case r of Inl _ \<Rightarrow> caps live | Inr h \<Rightarrow> caps live + {#h#}) \<and>
      (case r of Inl _ \<Rightarrow> True | Inr h \<Rightarrow> h_weight h = 1 \<and> h_keys h = keys_charged ks)"
    if "quota_acquire x upload_capacity q (keys_charged ks) 1 = (r, q')" "quota_inv (x_trunc x) upload_capacity q (caps live)" for q q' r live
    using quota_acquire_inv [OF that(2,1)] that(1) by (auto simp: quota_acquire_def split: if_splits)
  obtain r1 q1 where first: "quota_acquire x upload_capacity (up_quota s) (keys_charged ks) 1 = (r1, q1)" by (metis prod.exhaust)
  let ?s1 = "s\<lparr>up_quota := q1\<rparr>"
  have wf: "table_wf (up_live s)" using inv by (simp add: upload_inv_def upload_frame_def shape_ok_def)
  have i1: "upload_frame lib ?s1 sinks ans now" using inv by (simp add: upload_inv_def)
  note q1 = q [OF first, of "up_live s"]
  show ?thesis
  proof (cases "r1 = Inl Total")
    case False
    then have "s' = ?s1" "r = (case r1 of Inl e \<Rightarrow> Inl (refusal_of e) | Inr h \<Rightarrow> Inr h)"
      using run first by (auto simp: uploads_capacity_def Let_def split: sum.splits full.splits)
    then show ?thesis using i1 q1 inv by (auto simp: upload_inv_def upload_quota_def split: sum.splits)
  next
    case True
    obtain ok s2 where d: "entries_displace x ?s1 now = (ok, s2)" by (metis prod.exhaust)
    have "upload_inv lib x ?s1 sinks ans now" using i1 q1 inv True by (simp add: upload_inv_def upload_quota_def)
    note i2 = entries_displace_inv [OF d this]
    have tombs: "\<forall>j. map_of (up_live s) j = None \<longrightarrow> map_of (up_tombstones s2) j = map_of (up_tombstones s) j"
      using entries_displace_tombs [OF d] wf by simp
    obtain r3 q3 where again: "quota_acquire x upload_capacity (up_quota s2) (keys_charged ks) 1 = (r3, q3)" by (metis prod.exhaust)
    show ?thesis
    proof (cases ok)
      case f: False
      then show ?thesis using run first True d i2 tombs by (auto simp: uploads_capacity_def Let_def upload_inv_def)
    next
      case t: True
      then have "s' = s2\<lparr>up_quota := q3\<rparr>" "r = (case r3 of Inl e \<Rightarrow> Inl (refusal_of e) | Inr h \<Rightarrow> Inr h)"
        using run first True d again by (auto simp: uploads_capacity_def Let_def split: sum.splits)
      then show ?thesis using i2 tombs q [OF again, of "up_live s2"] by (auto simp: upload_inv_def upload_quota_def split: sum.splits)
    qed
  qed
qed

subsection \<open>Reaching an aggregate\<close>

text \<open>A dead ID is not valid: the clock reaches its lifetime no later than its tombstone goes.\<close>

lemma unat_clock: "now - start < 2 ^ 64 \<Longrightarrow> unat (clock_now start now) = now - start"
  by (simp add: clock_now_def min_def unat_of_small)

lemma valid_times:
  assumes "uploads_valid lib s ident now" and "now < up_start s + 2 ^ 64"
  shows "unat (id_issued ident) \<le> now - up_start s \<and> now \<le> id_time s ident + ID_LIFETIME"
proof -
  let ?now = "clock_now (up_start s) now"
  have n: "unat ?now = now - up_start s" using assms(2) by (intro unat_clock) simp
  have le: "id_issued ident \<le> ?now" and age: "?now - id_issued ident \<le> ID_LIFETIME_NANOS"
    using assms(1) by (simp_all add: uploads_valid_def Let_def)
  have "unat (?now - id_issued ident) = now - up_start s - unat (id_issued ident)" using le n by (simp add: unat_sub word_le_nat_alt)
  moreover have "unat ID_LIFETIME_NANOS = ID_LIFETIME" by (simp add: ID_LIFETIME_NANOS_def ID_LIFETIME_def)
  ultimately show ?thesis using le age n by (auto simp: word_le_nat_alt id_time_def)
qed

lemma dead_not_valid:
  assumes "id_dead s now ident" and "now \<le> t" "t < up_start s + 2 ^ 64" and "map_of (up_tombstones s) ident = None"
  shows "\<not> uploads_valid lib s ident t"
proof
  assume "uploads_valid lib s ident t"
  from valid_times [OF this assms(3)] assms show False by (auto simp: id_dead_def)
qed

text \<open>A new aggregate takes the next address and an entry.\<close>

lemma frame_create:
  assumes inv: "upload_frame lib s sinks ans now"
    and new: "map_of (up_live s) ident = None" "map_of (up_tombstones s) ident = None" "\<And>b. (ident, b) \<notin> ans"
    and g: "ag_touched g = now" "id_time s ident \<le> now" and h: "h_weight h = 1"
    and valid: "ub_verify lib (up_key s) (take SIGNED_BYTES ident) (drop SIGNED_BYTES ident)"
    and sinks': "count sinks' (length (up_heap s)) = ag_lanes g" "\<And>b. b \<noteq> length (up_heap s) \<Longrightarrow> count sinks' b = count sinks b"
  shows "upload_frame lib (s\<lparr>up_heap := up_heap s @ [g], up_live := AList.update ident \<lparr>ue_aggregate = length (up_heap s), ue_capacity = h\<rparr> (up_live s)\<rparr>)
    sinks' (insert (ident, length (up_heap s)) ans) now"
proof -
  let ?a = "length (up_heap s)"
  let ?s = "s\<lparr>up_heap := up_heap s @ [g], up_live := AList.update ident \<lparr>ue_aggregate = ?a, ue_capacity = h\<rparr> (up_live s)\<rparr>"
  have fresh: "ident \<notin> fst ` set (up_live s)" using new(1) by (simp add: map_of_eq_None_iff)
  then have live: "up_live ?s = up_live s @ [(ident, \<lparr>ue_aggregate = ?a, ue_capacity = h\<rparr>)]" by (simp add: update_fresh)
  have below: "\<forall>(j, e) \<in> set (up_live s). h_weight (ue_capacity e) = 1 \<and> ue_aggregate e < ?a \<and> map_of (up_tombstones s) j = None"
    using inv by (auto simp: upload_frame_def shape_ok_def)
  have "shape_ok ?s"
    unfolding shape_ok_def live using inv below h new(2) fresh by (auto simp: upload_frame_def shape_ok_def table_wf_def)
  moreover have "lanes_ok ?s sinks'" unfolding lanes_ok_def
  proof (intro conjI allI impI ballI)
    fix b assume "b < length (up_heap ?s)"
    then show "ag_lanes (up_heap ?s ! b) = count sinks' b"
      using inv sinks' by (cases "b = ?a") (auto simp: upload_frame_def lanes_ok_def nth_append)
  next
    fix b assume "b \<in># sinks'"
    then show "b < length (up_heap ?s)"
      using inv sinks'(2) [of b] by (cases "b = ?a") (auto simp: upload_frame_def lanes_ok_def less_SucI simp flip: count_greater_zero_iff)
  qed
  moreover have "answers_ok lib ?s (insert (ident, ?a) ans) now"
  proof -
    have old: "answer_ok lib s now j b" if "(j, b) \<in> ans" for j b using inv that by (auto simp: upload_frame_def answers_ok_def)
    have "answer_ok lib ?s now j b" if "(j, b) \<in> ans" for j b
      using old [OF that] new(3) [of b] that
      by (auto simp: answer_ok_def lookup_update id_dead_def id_time_def nth_append)
    moreover have "answer_ok lib ?s now ident ?a" using g valid by (simp add: answer_ok_def lookup_update id_time_def)
    moreover have "b < ?a" if "(j, b) \<in> ans" for j b using old [OF that] by (simp add: answer_ok_def)
    ultimately show ?thesis unfolding answers_ok_def live using inv g(1) by (fastforce simp: upload_frame_def answers_ok_def)
  qed
  ultimately show ?thesis by (simp add: upload_frame_def)
qed

lemma reach_split:
  assumes "uploads_reach lib x s text owner reach t\<^sub>1 t\<^sub>2 t\<^sub>3 t\<^sub>4 t\<^sub>5 = (r, s')"
  obtains (refused) refusal where "r = Inl refusal" "s' = s"
    | (entered) refusal where "r = Inl refusal" "s' = uploads_entries x s t\<^sub>1 t\<^sub>2"
    | (found) ident e where "upload_id_parse lib text = Some ident" "map_of (up_live (uploads_entries x s t\<^sub>1 t\<^sub>2)) ident = Some e"
        "r = Inr (ue_aggregate e)" "reach \<noteq> ReachJoin" "s' = uploads_entries x s t\<^sub>1 t\<^sub>2"
        "Option.bind owner (keys_narrowest (x_trunc x)) = Some (ag_owner (up_heap s' ! ue_aggregate e))"
    | (joined) ident e g where "upload_id_parse lib text = Some ident" "map_of (up_live (uploads_entries x s t\<^sub>1 t\<^sub>2)) ident = Some e"
        "r = Inr (ue_aggregate e)" "reach = ReachJoin"
        "aggregate_join t\<^sub>5 (up_heap (uploads_entries x s t\<^sub>1 t\<^sub>2) ! ue_aggregate e) = Inr g"
        "s' = on_heap (ue_aggregate e) (\<lambda>_. g) (uploads_entries x s t\<^sub>1 t\<^sub>2)"
        "Option.bind owner (keys_narrowest (x_trunc x)) = Some (ag_owner (up_heap (uploads_entries x s t\<^sub>1 t\<^sub>2) ! ue_aggregate e))"
    | (full) ks refusal where "uploads_capacity x (uploads_entries x s t\<^sub>1 t\<^sub>2) ks t\<^sub>4 = (Inl refusal, s')" "r = Inl refusal"
    | (created) ident ks own h c where "upload_id_parse lib text = Some ident" "map_of (up_live (uploads_entries x s t\<^sub>1 t\<^sub>2)) ident = None"
        "map_of (up_tombstones (uploads_entries x s t\<^sub>1 t\<^sub>2)) ident = None" "uploads_valid lib (uploads_entries x s t\<^sub>1 t\<^sub>2) ident t\<^sub>3"
        "owner = Some ks" "keys_narrowest (x_trunc x) ks = Some own" "reach \<noteq> ReachRead"
        "uploads_capacity x (uploads_entries x s t\<^sub>1 t\<^sub>2) ks t\<^sub>4 = (Inr h, c)" "r = Inr (length (up_heap c))"
        "s' = c\<lparr>up_heap := up_heap c @ [\<lparr>ag_owner = own, ag_bytes = 0, ag_first = None, ag_lanes = (if reach = ReachJoin then 1 else 0),
           ag_touched = t\<^sub>5, ag_phase = PhaseOpen, ag_reader = 0, ag_notified = 0\<rparr>],
           up_live := AList.update ident \<lparr>ue_aggregate = length (up_heap c), ue_capacity = h\<rparr> (up_live c)\<rparr>"
proof -
  let ?s = "uploads_entries x s t\<^sub>1 t\<^sub>2" and ?n = "Option.bind owner (keys_narrowest (x_trunc x))"
  have n: "(case owner of None \<Rightarrow> None | Some ks \<Rightarrow> keys_narrowest (x_trunc x) ks) = ?n" by (cases owner) simp_all
  note run = assms [unfolded uploads_reach_def Let_def n]
  show thesis
  proof (cases "(reach \<noteq> ReachRead \<and> ?n = None) \<or> upload_id_parse lib text = None")
    case True
    then have "\<exists>refusal. r = Inl refusal \<and> s' = s" using run by (auto split: if_splits)
    then show thesis using refused by blast
  next
    case False
    then obtain ident where p: "upload_id_parse lib text = Some ident" and n2: "\<not> (reach \<noteq> ReachRead \<and> ?n = None)" by auto
    note run = run [unfolded if_not_P [OF n2] p option.case]
    show thesis
    proof (cases "map_of (up_live ?s) ident")
      case (Some e)
      note run = run [unfolded Some option.case]
      show thesis
      proof (cases "?n \<noteq> Some (ag_owner (up_heap ?s ! ue_aggregate e))")
        case True
        then show thesis using run entered [of OwnerMismatch] by simp
      next
        case own: False
        show thesis
        proof (cases "reach = ReachJoin")
          case True
          show thesis
          proof (cases "aggregate_join t\<^sub>5 (up_heap ?s ! ue_aggregate e)")
            case (Inl refusal)
            then show thesis using run own True entered [of refusal] by simp
          next
            case (Inr g)
            then show thesis using run own True p Some joined [of ident e g] by simp
          qed
        next
          case False
          then have "r = Inr (ue_aggregate e)" "s' = ?s" using run own by simp_all
          with own p Some False show thesis by (intro found [of ident e]) simp_all
        qed
      qed
    next
      case None
      note run = run [unfolded None option.case]
      show thesis
      proof (cases "\<exists>ks own. owner = Some ks \<and> keys_narrowest (x_trunc x) ks = Some own")
        case False
        then have "r = Inl InvalidId \<and> s' = ?s" using run by (auto split: option.splits)
        then show thesis using entered by simp
      next
        case True
        then obtain ks own where o: "owner = Some ks" "keys_narrowest (x_trunc x) ks = Some own" by blast
        show thesis
        proof (cases "reach = ReachRead \<or> map_of (up_tombstones ?s) ident \<noteq> None \<or> \<not> uploads_valid lib ?s ident t\<^sub>3")
          case True
          then show thesis using run o entered [of InvalidId] by simp
        next
          case ok: False
          obtain c s2 where c: "uploads_capacity x ?s ks t\<^sub>4 = (c, s2)" by (metis prod.exhaust)
          show thesis
          proof (cases c)
            case (Inl refusal)
            then show thesis using run o ok c full [of ks refusal] by simp
          next
            case (Inr h)
            have "r = Inr (length (up_heap s2))"
              "s' = s2\<lparr>up_heap := up_heap s2 @ [\<lparr>ag_owner = own, ag_bytes = 0, ag_first = None, ag_lanes = (if reach = ReachJoin then 1 else 0),
                ag_touched = t\<^sub>5, ag_phase = PhaseOpen, ag_reader = 0, ag_notified = 0\<rparr>],
                up_live := AList.update ident \<lparr>ue_aggregate = length (up_heap s2), ue_capacity = h\<rparr> (up_live s2)\<rparr>"
              using run o ok c Inr by simp_all
            with o ok c p None Inr show thesis by (intro created [of ident ks own h s2]) simp_all
          qed
        qed
      qed
    qed
  qed
qed

lemma uploads_reach_inv:
  assumes run: "uploads_reach lib x s text owner reach t\<^sub>1 t\<^sub>2 t\<^sub>3 t\<^sub>4 t\<^sub>5 = (r, s')" and inv: "upload_inv lib x s sinks ans now"
    and t: "now \<le> t\<^sub>2" "t\<^sub>2 \<le> t\<^sub>3" "t\<^sub>3 \<le> t\<^sub>4" "t\<^sub>4 \<le> t\<^sub>5" "t\<^sub>5 < up_start s + 2 ^ 64" "up_start s \<le> now"
  shows "up_start s' = up_start s \<and> up_key s' = up_key s \<and> (case r of
      Inl _ \<Rightarrow> upload_inv lib x s' sinks ans t\<^sub>5
    | Inr a \<Rightarrow> \<exists>ident. upload_id_parse lib text = Some ident \<and> (\<forall>b. (ident, b) \<in> ans \<longrightarrow> b = a) \<and> (reach = ReachRead \<longrightarrow> (ident, a) \<in> ans) \<and>
        upload_inv lib x s' (if reach = ReachJoin then add_mset a sinks else sinks) (insert (ident, a) ans) t\<^sub>5 \<and>
        Option.bind owner (keys_narrowest (x_trunc x)) = Some (ag_owner (up_heap s' ! a)) \<and>
        (reach = ReachJoin \<longrightarrow> ag_phase (up_heap s' ! a) = PhaseOpen))"
proof -
  let ?s = "uploads_entries x s t\<^sub>1 t\<^sub>2"
  have i2: "upload_inv lib x ?s sinks ans t\<^sub>2" by (rule uploads_entries_inv [OF inv t(1)])
  have i5: "upload_inv lib x ?s sinks ans t\<^sub>5" by (rule inv_later [OF i2]) (use t in linarith)
  have wf: "table_wf (up_live ?s)" using i2 by (simp add: upload_inv_def upload_frame_def shape_ok_def)
  have answered: "(ident, ue_aggregate e) \<in> ans \<and> ue_aggregate e < length (up_heap ?s) \<and> (\<forall>b. (ident, b) \<in> ans \<longrightarrow> b = ue_aggregate e)"
    if "map_of (up_live ?s) ident = Some e" for ident e
  proof -
    have "(ident, e) \<in> set (up_live ?s)" using that wf by (simp add: in_table)
    then have "(ident, ue_aggregate e) \<in> ans" using i2 by (auto simp: upload_inv_def upload_frame_def answers_ok_def)
    moreover have "answer_ok lib ?s t\<^sub>2 ident b" if "(ident, b) \<in> ans" for b
      using i2 that by (auto simp: upload_inv_def upload_frame_def answers_ok_def)
    ultimately show ?thesis using that unfolding answer_ok_def by blast
  qed
  from run show ?thesis
  proof (cases rule: reach_split)
    case (refused refusal)
    then show ?thesis using inv_later [OF inv, of t\<^sub>5] t by simp
  next
    case (entered refusal)
    then show ?thesis using i5 by simp
  next
    case (found ident e)
    then show ?thesis using i5 answered [OF found(2)] by (simp add: insert_absorb)
  next
    case (joined ident e g)
    note a = answered [OF joined(2)]
    have g: "ag_phase (up_heap ?s ! ue_aggregate e) = PhaseOpen"
      "g = (up_heap ?s ! ue_aggregate e)\<lparr>ag_lanes := ag_lanes (up_heap ?s ! ue_aggregate e) + 1, ag_touched := t\<^sub>5\<rparr>"
      using joined(5) by (auto simp: aggregate_join_def split: if_splits)
    have "upload_frame lib (on_heap (ue_aggregate e) (\<lambda>_. g) ?s) (add_mset (ue_aggregate e) sinks) ans t\<^sub>5"
      using i5 a by (intro frame_on_heap) (auto simp: g(2) upload_inv_def upload_frame_def lanes_ok_def answers_ok_def)
    moreover have "upload_quota x (on_heap (ue_aggregate e) (\<lambda>_. g) ?s) {#}" using i5 by (simp add: upload_inv_def upload_quota_def on_heap_def)
    moreover have "up_heap s' ! ue_aggregate e = g" using a by (simp add: joined(6) on_heap_def)
    ultimately show ?thesis using joined a g by (simp add: upload_inv_def insert_absorb on_heap_def)
  next
    case (full ks refusal)
    have i4: "upload_inv lib x ?s sinks ans t\<^sub>4" by (rule inv_later [OF i2]) (use t in linarith)
    from uploads_capacity_inv [OF full(1) i4] full(2) inv_later [of lib x s' sinks ans t\<^sub>4 t\<^sub>5] t(4) show ?thesis by (simp add: upload_inv_def)
  next
    case (created ident ks own h c)
    have i4: "upload_inv lib x ?s sinks ans t\<^sub>4" by (rule inv_later [OF i2]) (use t in linarith)
    note cap = uploads_capacity_inv [OF created(8) i4]
    have gone: "map_of (up_live c) ident = None" using cap created(2) by (metis option.exhaust option.simps(3))
    have tomb: "map_of (up_tombstones c) ident = None" using cap created(2,3) by simp
    have never: "(ident, b) \<notin> ans" for b
    proof
      assume "(ident, b) \<in> ans"
      then have "id_dead ?s t\<^sub>2 ident" using i2 created(2) by (auto simp: upload_inv_def upload_frame_def answers_ok_def answer_ok_def)
      from dead_not_valid [OF this t(2) _ created(3), of lib] t created(4) show False by simp
    qed
    have "unat (id_issued ident) \<le> t\<^sub>3 - up_start s" using valid_times [OF created(4)] t by simp
    then have time: "id_time c ident \<le> t\<^sub>5" using t cap by (simp add: id_time_def)
    let ?g = "\<lparr>ag_owner = own, ag_bytes = 0, ag_first = None, ag_lanes = (if reach = ReachJoin then 1 else 0),
           ag_touched = t\<^sub>5, ag_phase = PhaseOpen, ag_reader = 0, ag_notified = 0\<rparr>"
    have f5: "upload_frame lib c sinks ans t\<^sub>5" using cap frame_later t(4) by blast
    then have none: "count sinks (length (up_heap c)) = 0" by (auto simp: upload_frame_def lanes_ok_def count_eq_zero_iff)
    have "upload_frame lib s' (if reach = ReachJoin then add_mset (length (up_heap c)) sinks else sinks) (insert (ident, length (up_heap c)) ans) t\<^sub>5"
      unfolding created(10)
      by (rule frame_create [OF f5 gone tomb never])
        (use time cap created(4) none in \<open>auto simp: uploads_valid_def\<close>)
    moreover have "upload_quota x s' {#}"
      using cap gone unfolding created(10) by (simp add: upload_quota_def caps_def update_fresh map_of_eq_None_iff)
    moreover have "up_heap s' ! length (up_heap c) = ?g" by (simp add: created(10))
    ultimately show ?thesis using created never cap by (simp add: upload_inv_def)
  qed
qed

subsection \<open>All requests of a server\<close>

text \<open>
  The store, the sinks joined and not dropped, the answers given and the time. Any client calls any operation with any
  text; time does not go back, a server runs for less than \<open>2 ^ 64\<close> nanoseconds, 584 years, and an upload has fewer than \<open>2 ^ 64\<close> bytes.
\<close>

type_synonym upload_world = "upload_store \<times> nat multiset \<times> (upload_id \<times> nat) set \<times> nat"

definition answered :: "upload_lib \<Rightarrow> bytes \<Rightarrow> nat \<Rightarrow> (upload_id \<times> nat) set \<Rightarrow> (upload_id \<times> nat) set" where
  "answered lib text a ans = (case upload_id_parse lib text of None \<Rightarrow> ans | Some ident \<Rightarrow> insert (ident, a) ans)"

definition in_order :: "upload_store \<Rightarrow> nat list \<Rightarrow> bool" where
  "in_order s ts \<longleftrightarrow> sorted (up_start s # ts) \<and> (\<forall>t \<in> set ts. t < up_start s + 2 ^ 64)"

inductive upload_step :: "upload_lib \<Rightarrow> quota_context \<Rightarrow> upload_world \<Rightarrow> upload_world \<Rightarrow> bool" for lib x where
  join: "in_order s [now, t\<^sub>1, t\<^sub>2, t\<^sub>3, t\<^sub>4, t\<^sub>5] \<Longrightarrow> uploads_begin lib x s text owner t\<^sub>1 t\<^sub>2 t\<^sub>3 t\<^sub>4 t\<^sub>5 = (r, s') \<Longrightarrow>
    upload_step lib x (s, sinks, ans, now) (case r of
      Inl _ \<Rightarrow> (s', sinks, ans, t\<^sub>5) | Inr a \<Rightarrow> (s', add_mset a sinks, answered lib text a ans, t\<^sub>5))"
| subscribe: "in_order s [now, t\<^sub>1, t\<^sub>2, t\<^sub>3, t\<^sub>4, t\<^sub>5] \<Longrightarrow> uploads_subscribe lib x s text owner t\<^sub>1 t\<^sub>2 t\<^sub>3 t\<^sub>4 t\<^sub>5 = (f, s') \<Longrightarrow>
    upload_step lib x (s, sinks, ans, now) (case f of
      Inl _ \<Rightarrow> (s', sinks, ans, t\<^sub>5) | Inr (a, _) \<Rightarrow> (s', sinks, answered lib text a ans, t\<^sub>5))"
| watchable: "in_order s [now, t\<^sub>1, t\<^sub>2, t\<^sub>3] \<Longrightarrow> uploads_watchable lib x s text owner t\<^sub>1 t\<^sub>2 t\<^sub>3 = (w, s') \<Longrightarrow>
    upload_step lib x (s, sinks, ans, now) (s', sinks, ans, t\<^sub>3)"
| checkpoint: "in_order s [now, t\<^sub>1, t\<^sub>2, t\<^sub>3] \<Longrightarrow> uploads_checkpoint lib x s text owner t\<^sub>1 t\<^sub>2 t\<^sub>3 = (c, s') \<Longrightarrow>
    upload_step lib x (s, sinks, ans, now) (s', sinks, ans, t\<^sub>3)"
| finish: "in_order s [now, t\<^sub>1, t\<^sub>2] \<Longrightarrow> uploads_finish lib x s text owner t\<^sub>1 t\<^sub>2 = (w, s') \<Longrightarrow>
    upload_step lib x (s, sinks, ans, now) (s', sinks, ans, t\<^sub>2)"
| sweep: "in_order s [now, t\<^sub>0, t\<^sub>1, t\<^sub>2] \<Longrightarrow> upload_step lib x (s, sinks, ans, now) (uploads_sweep x s t\<^sub>0 t\<^sub>1 t\<^sub>2, sinks, ans, t\<^sub>2)"
| receive: "in_order s [now, t] \<Longrightarrow> a \<in># sinks \<Longrightarrow> unat (ag_bytes (up_heap s ! a)) + unat n < 2 ^ 64 \<Longrightarrow>
    upload_step lib x (s, sinks, ans, now) (on_heap a (aggregate_record (up_start s) n t) s, sinks, ans, t)"
| leave: "in_order s [now, t] \<Longrightarrow> a \<in># sinks \<Longrightarrow>
    upload_step lib x (s, sinks, ans, now) (on_heap a (aggregate_leave t) s, sinks - {#a#}, ans, t)"

inductive_cases upload_step_cases: "upload_step lib x (s, sinks, ans, now) w"

fun uploads_world :: "upload_lib \<Rightarrow> quota_context \<Rightarrow> upload_world \<Rightarrow> bool" where
  "uploads_world lib x (s, sinks, ans, now) \<longleftrightarrow> upload_inv lib x s sinks ans now \<and> up_start s \<le> now"

lemma uploads_read_inv:
  assumes run: "uploads_reach lib x s text owner ReachRead t\<^sub>1 t\<^sub>2 t\<^sub>2 t\<^sub>2 t\<^sub>2 = (r, s')" and inv: "upload_inv lib x s sinks ans now"
    and t: "now \<le> t\<^sub>2" "t\<^sub>2 < up_start s + 2 ^ 64" "up_start s \<le> now"
  shows "upload_inv lib x s' sinks ans t\<^sub>2 \<and> up_start s' = up_start s"
proof -
  note i = uploads_reach_inv [OF run inv t(1) le_refl le_refl le_refl t(2,3)]
  show ?thesis
  proof (cases r)
    case (Inl refusal)
    then show ?thesis using i by simp
  next
    case (Inr a)
    then obtain ident where "(ident, a) \<in> ans" "upload_inv lib x s' sinks (insert (ident, a) ans) t\<^sub>2" using i by auto
    then show ?thesis using i by (simp add: insert_absorb)
  qed
qed

lemma upload_inv_on_heap:
  assumes "upload_inv lib x s sinks ans now" and "\<And>g. ag_lanes (f g) = ag_lanes g" "\<And>g. ag_touched (f g) = ag_touched g"
  shows "upload_inv lib x (on_heap a f s) sinks ans now"
  using frame_on_heap_same [of lib s sinks ans now f a] assms by (simp add: upload_inv_def upload_quota_def on_heap_def)

lemma on_heap_start [simp]: "up_start (on_heap a f s) = up_start s" "up_key (on_heap a f s) = up_key s"
  by (simp_all add: on_heap_def)

lemma upload_step_inv:
  assumes "upload_step lib x w w'" and "uploads_world lib x w"
  shows "uploads_world lib x w'"
  using assms
proof (induction rule: upload_step.induct)
  case (join s now t\<^sub>1 t\<^sub>2 t\<^sub>3 t\<^sub>4 t\<^sub>5 tx owner r s' sinks ans)
  have "uploads_reach lib x s tx owner ReachJoin t\<^sub>1 t\<^sub>2 t\<^sub>3 t\<^sub>4 t\<^sub>5 = (r, s')" using join by (simp add: uploads_begin_def)
  from uploads_reach_inv [OF this] join show ?case
    by (fastforce simp: in_order_def answered_def split: sum.splits)
next
  case (subscribe s now t\<^sub>1 t\<^sub>2 t\<^sub>3 t\<^sub>4 t\<^sub>5 tx owner f s' sinks ans)
  obtain r s1 where r: "uploads_reach lib x s tx owner ReachWatch t\<^sub>1 t\<^sub>2 t\<^sub>3 t\<^sub>4 t\<^sub>5 = (r, s1)" by (metis prod.exhaust)
  have t: "up_start s \<le> t\<^sub>5" using subscribe(1) by (simp add: in_order_def)
  note inv = uploads_reach_inv [OF r, of sinks ans now]
  show ?case
  proof (cases r)
    case (Inl refusal)
    then show ?thesis using inv subscribe r t by (auto simp: in_order_def uploads_subscribe_def)
  next
    case (Inr a)
    let ?s = "on_heap a notify_waiters (on_heap a (\<lambda>g. g\<lparr>ag_reader := ag_reader g + 1\<rparr>) s1)"
    obtain ident where i: "upload_id_parse lib tx = Some ident" "upload_inv lib x s1 sinks (insert (ident, a) ans) t\<^sub>5" "up_start s1 = up_start s"
      using inv Inr subscribe by (auto simp: in_order_def)
    have "upload_inv lib x ?s sinks (insert (ident, a) ans) t\<^sub>5" by (intro upload_inv_on_heap i(2)) simp_all
    moreover have "s' = ?s" "\<exists>reader. f = Inr (a, reader)" using subscribe(2) r Inr by (auto simp: uploads_subscribe_def Let_def)
    ultimately show ?thesis using i t by (auto simp: answered_def)
  qed
next
  case (watchable s now t\<^sub>1 t\<^sub>2 t\<^sub>3 tx owner w s' sinks ans)
  have "s' = s \<or> s' = uploads_entries x s t\<^sub>1 t\<^sub>2" using watchable(2) by (auto simp: uploads_watchable_def Let_def split: option.splits)
  moreover have "upload_inv lib x s sinks ans t\<^sub>3" "upload_inv lib x (uploads_entries x s t\<^sub>1 t\<^sub>2) sinks ans t\<^sub>3" "up_start s \<le> t\<^sub>3"
    using watchable inv_later [of lib x s sinks ans now t\<^sub>3]
      inv_later [OF uploads_entries_inv [of lib x s sinks ans now t\<^sub>2 t\<^sub>1], of t\<^sub>3] by (simp_all add: in_order_def)
  ultimately show ?case by auto
next
  case (checkpoint s now t\<^sub>1 t\<^sub>2 t\<^sub>3 tx owner c s' sinks ans)
  obtain r where r: "uploads_reach lib x s tx owner ReachRead t\<^sub>1 t\<^sub>2 t\<^sub>2 t\<^sub>2 t\<^sub>2 = (r, s')"
    using checkpoint(2) by (auto simp: uploads_checkpoint_def split: prod.splits sum.splits)
  have "upload_inv lib x s' sinks ans t\<^sub>2 \<and> up_start s' = up_start s"
    using checkpoint by (intro uploads_read_inv [OF r]) (auto simp: in_order_def)
  then show ?case using checkpoint(1) inv_later [of lib x s' sinks ans t\<^sub>2 t\<^sub>3] by (simp add: in_order_def)
next
  case (finish s now t\<^sub>1 t\<^sub>2 tx owner w s' sinks ans)
  obtain r s1 where r: "uploads_reach lib x s tx owner ReachRead t\<^sub>1 t\<^sub>2 t\<^sub>2 t\<^sub>2 t\<^sub>2 = (r, s1)" by (metis prod.exhaust)
  have "upload_inv lib x s1 sinks ans t\<^sub>2 \<and> up_start s1 = up_start s"
    using finish by (intro uploads_read_inv [OF r]) (auto simp: in_order_def)
  then have i: "upload_inv lib x s1 sinks ans t\<^sub>2" "up_start s1 = up_start s" by simp_all
  have "upload_inv lib x (on_heap a aggregate_finish s1) sinks ans t\<^sub>2" for a by (intro upload_inv_on_heap i(1)) simp_all
  then show ?case using finish(1,2) r i by (auto simp: in_order_def uploads_finish_def split: sum.splits)
next
  case (sweep s now t\<^sub>0 t\<^sub>1 t\<^sub>2 sinks ans)
  then show ?case using uploads_entries_inv [of lib x s sinks ans now t\<^sub>2 t\<^sub>1] inv_later [of lib x s sinks ans now t\<^sub>2]
    by (simp add: in_order_def uploads_sweep_def)
next
  case (receive s now t a sinks n ans)
  then have "upload_inv lib x s sinks ans t" using inv_later by (auto simp: in_order_def)
  then show ?case using receive(1) upload_inv_on_heap by (simp add: in_order_def)
next
  case (leave s now t a sinks ans)
  then have i: "upload_inv lib x s sinks ans t" using inv_later by (auto simp: in_order_def)
  have "upload_frame lib (on_heap a (aggregate_leave t) s) (sinks - {#a#}) ans t"
    using i leave(2) by (intro frame_on_heap [of lib s sinks])
      (auto simp: upload_inv_def upload_frame_def lanes_ok_def answers_ok_def aggregate_leave_def notify_waiters_def)
  then show ?case using i leave(1) by (simp add: in_order_def upload_inv_def upload_quota_def on_heap_def)
qed

lemma uploads_world_start: "uploads_world lib x (uploads_new key start, {#}, {}, start)"
proof -
  have "upload_frame lib (uploads_new key start) {#} {} start"
    by (simp add: upload_frame_def shape_ok_def lanes_ok_def answers_ok_def uploads_new_def)
  moreover have "upload_quota x (uploads_new key start) {#}"
    by (simp add: upload_quota_def uploads_new_def caps_def quota_new_def quota_inv_start)
  ultimately show ?thesis by (simp add: upload_inv_def) (simp add: uploads_new_def)
qed

lemma uploads_world_reachable:
  assumes "(upload_step lib x)\<^sup>*\<^sup>* (uploads_new key start, {#}, {}, start) w"
  shows "uploads_world lib x w"
  using assms by (induction rule: rtranclp_induct) (use uploads_world_start upload_step_inv in blast)+

subsection \<open>Properties\<close>

lemma weights_length: "(\<forall>(i, e) \<in> set live. h_weight (ue_capacity e) = 1) \<Longrightarrow> weights (caps live) = length live"
  by (induction live) (auto simp: caps_def)

lemma key_weights_length:
  "(\<forall>(i, e) \<in> set live. h_weight (ue_capacity e) = 1) \<Longrightarrow>
     key_weights trunc c (caps live) k = length (filter (\<lambda>(_, e). k \<in> set (quota_keys trunc c (h_keys (ue_capacity e)))) live)"
  by (induction live) (auto simp: caps_def)

lemma upload_keys: "quota_keys trunc upload_capacity ks = keys_iter trunc ks"
  by (simp add: quota_keys_def quota_shares_def keys_shares_eq upload_capacity_def quota_new_def o_def)

lemma MAX_PER_CLIENT_share: "key_share MAX_PER_CLIENT k < usize_max"
  by (cases k) (auto simp: key_share_def saturating_mul_def usize_max_def MAX_PER_CLIENT_def)

text \<open>
  C25. Whatever clients send, the server holds at most 1000 aggregates and 1000 tombstones, a client key no more than its share of the aggregates,
  the capacity counts exactly the aggregates held, and each aggregate counts exactly the lanes that joined it and did not leave.
\<close>

theorem uploads_bounded:
  assumes "(upload_step lib x)\<^sup>*\<^sup>* (uploads_new key start, {#}, {}, start) (s, sinks, ans, now)"
  shows "length (up_live s) \<le> MAX_LIVE \<and> length (up_tombstones s) \<le> MAX_LIVE \<and> q_used (up_quota s) = length (up_live s) \<and>
    length (filter (\<lambda>(_, e). k \<in> set (keys_iter (x_trunc x) (h_keys (ue_capacity e)))) (up_live s)) \<le> key_share MAX_PER_CLIENT k \<and>
    (\<forall>a < length (up_heap s). ag_lanes (up_heap s ! a) = count sinks a)"
proof -
  have inv: "upload_inv lib x s sinks ans now" using uploads_world_reachable [OF assms] by simp
  have one: "\<forall>(i, e) \<in> set (up_live s). h_weight (ue_capacity e) = 1" using inv by (auto simp: upload_inv_def upload_frame_def shape_ok_def)
  have q: "quota_inv (x_trunc x) upload_capacity (up_quota s) (caps (up_live s))" using inv by (simp add: upload_inv_def upload_quota_def)
  have share: "qc_share upload_capacity = MAX_PER_CLIENT" "qc_total upload_capacity = Fixed MAX_LIVE"
    by (simp_all add: upload_capacity_def quota_new_def)
  have used: "q_used (up_quota s) = length (up_live s)" using q weights_length [OF one] by (simp add: quota_inv_def)
  have "q_peak (up_quota s) \<le> MAX_LIVE" "q_used (up_quota s) \<le> q_peak (up_quota s)"
    using q share(2) by (simp_all add: quota_inv_def MAX_LIVE_def usize_max_def)
  moreover have "held_of (up_quota s) k \<le> key_share MAX_PER_CLIENT k" "held_of (up_quota s) k = key_weights (x_trunc x) upload_capacity (caps (up_live s)) k"
    using q MAX_PER_CLIENT_share share(1) unfolding quota_inv_def by metis+
  ultimately show ?thesis
    using used inv key_weights_length [OF one, of "x_trunc x" upload_capacity k]
    by (simp add: upload_inv_def upload_frame_def shape_ok_def lanes_ok_def upload_keys)
qed

text \<open>
  C4. An upload ID names one aggregate for ever: an ID that was answered with an aggregate, and is answered again after any requests of any
  clients, displacements and expiries, is answered with the same one, only to the client that owns it, only if the server signed it;
  and a lane joins it only while it is open.
\<close>

theorem upload_id_one_aggregate:
  assumes "(upload_step lib x)\<^sup>*\<^sup>* (uploads_new key start, {#}, {}, start) (s, sinks, ans, now)"
    and "in_order s [now, t\<^sub>1, t\<^sub>2, t\<^sub>3, t\<^sub>4, t\<^sub>5]" and "upload_id_parse lib text = Some ident"
    and "uploads_reach lib x s text owner reach t\<^sub>1 t\<^sub>2 t\<^sub>3 t\<^sub>4 t\<^sub>5 = (Inr a, s')"
  shows "(\<forall>b. (ident, b) \<in> ans \<longrightarrow> b = a) \<and> (\<forall>other. (other, a) \<in> ans \<longrightarrow> other = ident) \<and>
    Option.bind owner (keys_narrowest (x_trunc x)) = Some (ag_owner (up_heap s' ! a)) \<and>
    ub_verify lib (up_key s') (take SIGNED_BYTES ident) (drop SIGNED_BYTES ident) \<and>
    (reach = ReachJoin \<longrightarrow> ag_phase (up_heap s' ! a) = PhaseOpen)"
proof -
  have inv: "upload_inv lib x s sinks ans now" "up_start s \<le> now" using uploads_world_reachable [OF assms(1)] by simp_all
  have t: "now \<le> t\<^sub>2" "t\<^sub>2 \<le> t\<^sub>3" "t\<^sub>3 \<le> t\<^sub>4" "t\<^sub>4 \<le> t\<^sub>5" "t\<^sub>5 < up_start s + 2 ^ 64" using assms(2) by (auto simp: in_order_def)
  note r = uploads_reach_inv [OF assms(4) inv(1) t inv(2)]
  let ?sinks = "if reach = ReachJoin then add_mset a sinks else sinks"
  have i: "upload_inv lib x s' ?sinks (insert (ident, a) ans) t\<^sub>5" using r assms(3) by simp
  then have "answer_ok lib s' t\<^sub>5 ident a" and inj: "\<forall>i j b. (i, b) \<in> insert (ident, a) ans \<longrightarrow> (j, b) \<in> insert (ident, a) ans \<longrightarrow> i = j"
    unfolding upload_inv_def upload_frame_def answers_ok_def by (blast, blast)
  moreover have "\<forall>other. (other, a) \<in> ans \<longrightarrow> other = ident" using inj by blast
  ultimately show ?thesis using r assms(3) by (simp add: answer_ok_def)
qed

subsection \<open>Minted IDs\<close>

text \<open>What the code relies on of base64 and HMAC: a text of 56 bytes is 75 characters and decodes to them, a tag of 32 bytes verifies.\<close>

definition upload_lib_ok :: "upload_lib \<Rightarrow> bool" where
  "upload_lib_ok lib \<longleftrightarrow>
     (\<forall>raw. length raw = ID_BYTES \<longrightarrow> length (ub_encode lib raw) = 75 \<and> ub_decode lib ID_BYTES (ub_encode lib raw) = Some raw) \<and>
     (\<forall>key m. length (ub_sign lib key m) = 32 \<and> ub_verify lib key m (ub_sign lib key m))"

lemma mint_parse:
  assumes "upload_lib_ok lib" and "length nonce = 16"
  shows "\<exists>ident. upload_id_parse lib (uploads_mint lib s nonce now) = Some ident \<and> id_issued ident = clock_now (up_start s) now \<and>
    ub_verify lib (up_key s) (take SIGNED_BYTES ident) (drop SIGNED_BYTES ident)"
proof -
  let ?signed = "to_be_bytes (clock_now (up_start s) now) @ nonce"
  let ?ident = "?signed @ ub_sign lib (up_key s) ?signed"
  have len: "length ?signed = SIGNED_BYTES" "length ?ident = ID_BYTES" using assms by (simp_all add: SIGNED_BYTES_def ID_BYTES_def upload_lib_ok_def)
  have "upload_id_parse lib (uploads_mint lib s nonce now) = Some ?ident"
    using assms(1) len(2) by (simp add: uploads_mint_def upload_id_text_def upload_id_parse_def upload_lib_ok_def Let_def) (simp add: ID_BYTES_def SIGNED_BYTES_def)
  moreover have "id_issued ?ident = clock_now (up_start s) now" using be_round by (simp add: id_issued_def)
  moreover have "take SIGNED_BYTES ?ident = ?signed" "drop SIGNED_BYTES ?ident = ub_sign lib (up_key s) ?signed"
    using len(1) by (simp_all add: take_append drop_append del: append_assoc)
  ultimately show ?thesis using assms(1) by (auto simp: upload_lib_ok_def)
qed

lemma capacity_refusal: "fst (uploads_capacity x s ks now) = Inl refusal \<Longrightarrow> refusal = ClientLimit \<or> refusal = ServerCapacity"
  by (auto simp: uploads_capacity_def refusal_of_def Let_def split: sum.splits full.splits prod.splits bool.splits)

text \<open>
  An ID the server minted is not refused as unknown or as another client's while it lives: the first lane to use it is
  refused only when the client's share or the capacity is used up, and otherwise joins an aggregate of its own.
\<close>

theorem minted_id_accepted:
  assumes "(upload_step lib x)\<^sup>*\<^sup>* (uploads_new key start, {#}, {}, start) (s, sinks, ans, now)" and "upload_lib_ok lib" "length nonce = 16"
    and "upload_id_parse lib (uploads_mint lib s nonce t) = Some ident" "\<forall>b. (ident, b) \<notin> ans"
    and "in_order s [now, t\<^sub>1, t\<^sub>2, t\<^sub>3, t\<^sub>4, t\<^sub>5]" "up_start s \<le> t" "t \<le> t\<^sub>3" "t\<^sub>3 \<le> t + ID_LIFETIME"
    and "keys_narrowest (x_trunc x) ks = Some own"
  shows "case uploads_begin lib x s (uploads_mint lib s nonce t) (Some ks) t\<^sub>1 t\<^sub>2 t\<^sub>3 t\<^sub>4 t\<^sub>5 of
      (Inl refusal, s') \<Rightarrow> refusal = ClientLimit \<or> refusal = ServerCapacity
    | (Inr a, s') \<Rightarrow> ag_lanes (up_heap s' ! a) = 1 \<and> ag_owner (up_heap s' ! a) = own \<and> ag_bytes (up_heap s' ! a) = 0"
proof -
  let ?s = "uploads_entries x s t\<^sub>1 t\<^sub>2"
  have t: "now \<le> t\<^sub>2" "t\<^sub>3 < up_start s + 2 ^ 64" "t < up_start s + 2 ^ 64" using assms(6,8) by (auto simp: in_order_def)
  have inv: "upload_inv lib x ?s sinks ans t\<^sub>2" using uploads_world_reachable [OF assms(1)] t(1) by (auto intro: uploads_entries_inv)
  have live: "map_of (up_live ?s) ident = None"
  proof (rule ccontr)
    assume "map_of (up_live ?s) ident \<noteq> None"
    then obtain e where "(ident, e) \<in> set (up_live ?s)" by (auto dest: map_of_SomeD)
    then show False using inv assms(5) by (auto simp: upload_inv_def upload_frame_def answers_ok_def)
  qed
  have "ident \<notin> fst ` ans" using assms(5) by force
  then have tomb: "map_of (up_tombstones ?s) ident = None" using inv unfolding upload_inv_def upload_frame_def answers_ok_def by (meson option.exhaust)
  have id: "id_issued ident = clock_now (up_start s) t" "ub_verify lib (up_key s) (take SIGNED_BYTES ident) (drop SIGNED_BYTES ident)"
    using mint_parse [OF assms(2,3), of s t] assms(4) by auto
  have n: "unat (clock_now (up_start s) t\<^sub>3) = t\<^sub>3 - up_start s" "unat (clock_now (up_start s) t) = t - up_start s"
    using t(2,3) by (simp_all add: unat_clock)
  then have le: "clock_now (up_start s) t \<le> clock_now (up_start s) t\<^sub>3" using assms(8) by (simp add: word_le_nat_alt)
  then have "unat (clock_now (up_start s) t\<^sub>3 - clock_now (up_start s) t) \<le> ID_LIFETIME" using n assms(7,9) by (simp add: unat_sub)
  moreover have "unat ID_LIFETIME_NANOS = ID_LIFETIME" by (simp add: ID_LIFETIME_NANOS_def ID_LIFETIME_def)
  ultimately have valid: "uploads_valid lib ?s ident t\<^sub>3" using id le by (simp add: uploads_valid_def Let_def word_le_nat_alt)
  obtain c s2 where c: "uploads_capacity x ?s ks t\<^sub>4 = (c, s2)" by (metis prod.exhaust)
  show ?thesis
  proof (cases c)
    case (Inl refusal)
    then show ?thesis using capacity_refusal [of x ?s ks t\<^sub>4] c assms(4,10) live tomb valid by (simp add: uploads_begin_def uploads_reach_def Let_def)
  next
    case (Inr h)
    then show ?thesis using c assms(4,10) live tomb valid by (simp add: uploads_begin_def uploads_reach_def Let_def)
  qed
qed

subsection \<open>Examples\<close>

definition plain_upload :: upload_lib where
  "plain_upload = \<lparr>ub_sign = (\<lambda>_ _. replicate 32 0), ub_verify = (\<lambda>_ _ tag. tag = replicate 32 0), ub_encode = (\<lambda>raw. raw @ replicate 19 0),
     ub_decode = (\<lambda>n text. Some (take n text))\<rparr>"

definition sample_context :: quota_context where
  "sample_context = \<lparr>x_trunc = (\<lambda>ip _. ip), x_budget = budget_new 0\<rparr>"

definition sample_text :: bytes where
  "sample_text = uploads_mint plain_upload (uploads_new [] 0) (replicate 16 0) 0"

lemma plain_upload_ok: "upload_lib_ok plain_upload"
  by (simp add: upload_lib_ok_def plain_upload_def ID_BYTES_def SIGNED_BYTES_def)

lemma sample_narrowest: "keys_narrowest (x_trunc sample_context) (KeysV4 7) = Some (KeyV4 7)"
  by (simp add: sample_context_def keys_narrowest_def keys_iter_def)

lemma sample_parse:
  obtains ident where "upload_id_parse plain_upload sample_text = Some ident" "id_issued ident = 0"
    "ub_verify plain_upload [] (take SIGNED_BYTES ident) (drop SIGNED_BYTES ident)"
  using mint_parse [OF plain_upload_ok, of "replicate 16 0" "uploads_new [] 0" 0]
  by (auto simp: sample_text_def uploads_new_def clock_now_def)

lemma sample_capacity:
  "uploads_capacity sample_context (uploads_new [] 0) (KeysV4 7) 0 = (Inr \<lparr>h_keys = KeysV4 7, h_weight = 1, h_linked = False\<rparr>,
     (uploads_new [] 0)\<lparr>up_quota := quota_take sample_context upload_capacity (up_quota (uploads_new [] 0)) (KeysV4 7) 1\<rparr>)"
  by (simp add: uploads_capacity_def Let_def quota_acquire_def over_share_def quota_shares_def keys_shares_def keys_iter_def keys_charged_def
      upload_capacity_def quota_new_def quota_limit_def held_of_def quota_state_default_def uploads_new_def saturating_add_def MAX_LIVE_def
      MAX_PER_CLIENT_def usize_max_def)

text \<open>The first lane of the sample ID, at the start of the server.\<close>

lemma sample_begin:
  obtains s ident where "uploads_begin plain_upload sample_context (uploads_new [] 0) sample_text (Some (KeysV4 7)) 0 0 0 0 0 = (Inr 0, s)"
    "upload_id_parse plain_upload sample_text = Some ident" "length (up_live s) = 1" "up_start s = 0" "up_next_sweep s = SWEEP_NANOS"
    "map_of (up_live s) ident = Some \<lparr>ue_aggregate = 0, ue_capacity = \<lparr>h_keys = KeysV4 7, h_weight = 1, h_linked = False\<rparr>\<rparr>"
    "up_heap s = [\<lparr>ag_owner = KeyV4 7, ag_bytes = 0, ag_first = None, ag_lanes = 1, ag_touched = 0, ag_phase = PhaseOpen, ag_reader = 0, ag_notified = 0\<rparr>]"
proof -
  obtain ident where i: "upload_id_parse plain_upload sample_text = Some ident" "id_issued ident = 0"
    "ub_verify plain_upload [] (take SIGNED_BYTES ident) (drop SIGNED_BYTES ident)" by (rule sample_parse)
  let ?s = "uploads_new [] 0"
  have e: "uploads_entries sample_context ?s 0 0 = ?s" by (simp add: uploads_entries_def uploads_new_def clock_now_def SWEEP_NANOS_def SWEEP_INTERVAL_def)
  have v: "uploads_valid plain_upload ?s ident 0" using i by (simp add: uploads_valid_def uploads_new_def clock_now_def)
  have "up_live ?s = []" "up_tombstones ?s = []" "up_heap ?s = []" "up_start ?s = 0" "up_next_sweep ?s = SWEEP_NANOS" by (simp_all add: uploads_new_def)
  then show thesis using that e v i sample_capacity sample_narrowest
    by (simp add: uploads_begin_def uploads_reach_def Let_def)
qed

lemma sample_step:
  obtains s ident where "(upload_step plain_upload sample_context)\<^sup>*\<^sup>* (uploads_new [] 0, {#}, {}, 0) (s, {#0#}, {(ident, 0)}, 0)"
    "upload_id_parse plain_upload sample_text = Some ident" "length (up_live s) = 1" "up_start s = 0" "up_next_sweep s = SWEEP_NANOS"
    "map_of (up_live s) ident = Some \<lparr>ue_aggregate = 0, ue_capacity = \<lparr>h_keys = KeysV4 7, h_weight = 1, h_linked = False\<rparr>\<rparr>"
    "up_heap s = [\<lparr>ag_owner = KeyV4 7, ag_bytes = 0, ag_first = None, ag_lanes = 1, ag_touched = 0, ag_phase = PhaseOpen, ag_reader = 0, ag_notified = 0\<rparr>]"
proof -
  obtain s ident where s: "uploads_begin plain_upload sample_context (uploads_new [] 0) sample_text (Some (KeysV4 7)) 0 0 0 0 0 = (Inr 0, s)"
    "upload_id_parse plain_upload sample_text = Some ident" "length (up_live s) = 1" "up_start s = 0" "up_next_sweep s = SWEEP_NANOS"
    "map_of (up_live s) ident = Some \<lparr>ue_aggregate = 0, ue_capacity = \<lparr>h_keys = KeysV4 7, h_weight = 1, h_linked = False\<rparr>\<rparr>"
    "up_heap s = [\<lparr>ag_owner = KeyV4 7, ag_bytes = 0, ag_first = None, ag_lanes = 1, ag_touched = 0, ag_phase = PhaseOpen, ag_reader = 0, ag_notified = 0\<rparr>]"
    by (rule sample_begin)
  have "in_order (uploads_new [] 0) [0, 0, 0, 0, 0, 0]" by (simp add: in_order_def uploads_new_def)
  from upload_step.join [OF this s(1), of "{#}" "{}"] s(2)
  have "upload_step plain_upload sample_context (uploads_new [] 0, {#}, {}, 0) (s, {#0#}, {(ident, 0)}, 0)" by (simp add: answered_def)
  then show thesis using that s(2-) by blast
qed

theorem uploads_bounded_witness:
  "\<exists>s ans. (upload_step plain_upload sample_context)\<^sup>*\<^sup>* (uploads_new [] 0, {#}, {}, 0) (s, {#0#}, ans, 0) \<and>
     length (up_live s) = 1 \<and> q_used (up_quota s) = 1 \<and> ag_lanes (up_heap s ! 0) = 1"
proof -
  obtain s ident where s: "(upload_step plain_upload sample_context)\<^sup>*\<^sup>* (uploads_new [] 0, {#}, {}, 0) (s, {#0#}, {(ident, 0)}, 0)"
    "length (up_live s) = 1" "length (up_heap s) = 1" by (rule sample_step) simp
  from uploads_bounded [OF s(1)] s show ?thesis by auto
qed

theorem upload_id_one_aggregate_witness:
  "\<exists>s ident s'. (upload_step plain_upload sample_context)\<^sup>*\<^sup>* (uploads_new [] 0, {#}, {}, 0) (s, {#0#}, {(ident, 0)}, 0) \<and>
     uploads_reach plain_upload sample_context s sample_text (Some (KeysV4 7)) ReachJoin 2 2 2 2 2 = (Inr 0, s') \<and> ag_owner (up_heap s' ! 0) = KeyV4 7"
proof -
  obtain s ident where s: "(upload_step plain_upload sample_context)\<^sup>*\<^sup>* (uploads_new [] 0, {#}, {}, 0) (s, {#0#}, {(ident, 0)}, 0)"
    "upload_id_parse plain_upload sample_text = Some ident" "length (up_live s) = 1" "up_start s = 0" "up_next_sweep s = SWEEP_NANOS"
    "map_of (up_live s) ident = Some \<lparr>ue_aggregate = 0, ue_capacity = \<lparr>h_keys = KeysV4 7, h_weight = 1, h_linked = False\<rparr>\<rparr>"
    "up_heap s = [\<lparr>ag_owner = KeyV4 7, ag_bytes = 0, ag_first = None, ag_lanes = 1, ag_touched = 0, ag_phase = PhaseOpen, ag_reader = 0, ag_notified = 0\<rparr>]"
    by (rule sample_step)
  have "uploads_entries sample_context s 2 2 = s" using s(4,5)
    by (simp add: uploads_entries_def clock_now_def SWEEP_NANOS_def SWEEP_INTERVAL_def)
  then obtain s' where r: "uploads_reach plain_upload sample_context s sample_text (Some (KeysV4 7)) ReachJoin 2 2 2 2 2 = (Inr 0, s')"
    using s(2,6,7) sample_narrowest by (simp add: uploads_reach_def Let_def aggregate_join_def)
  have "in_order s [0, 2, 2, 2, 2, 2]" using s(4) by (simp add: in_order_def)
  from upload_id_one_aggregate [OF s(1) this s(2) r] sample_narrowest have "ag_owner (up_heap s' ! 0) = KeyV4 7" by simp
  with s(1) r show ?thesis by blast
qed

theorem minted_id_accepted_witness:
  "\<exists>a s'. uploads_begin plain_upload sample_context (uploads_new [] 0) sample_text (Some (KeysV4 7)) 0 0 0 0 0 = (Inr a, s') \<and>
     ag_lanes (up_heap s' ! a) = 1 \<and> ag_owner (up_heap s' ! a) = KeyV4 7"
proof -
  obtain s ident where b: "uploads_begin plain_upload sample_context (uploads_new [] 0) sample_text (Some (KeysV4 7)) 0 0 0 0 0 = (Inr 0, s)"
    and i: "upload_id_parse plain_upload sample_text = Some ident" by (rule sample_begin)
  have o: "in_order (uploads_new [] 0) [0, 0, 0, 0, 0, 0]" "up_start (uploads_new [] 0) \<le> 0" by (simp_all add: in_order_def uploads_new_def)
  have "case uploads_begin plain_upload sample_context (uploads_new [] 0) (uploads_mint plain_upload (uploads_new [] 0) (replicate 16 0) 0) (Some (KeysV4 7)) 0 0 0 0 0 of
      (Inl refusal, s') \<Rightarrow> refusal = ClientLimit \<or> refusal = ServerCapacity
    | (Inr a, s') \<Rightarrow> ag_lanes (up_heap s' ! a) = 1 \<and> ag_owner (up_heap s' ! a) = KeyV4 7 \<and> ag_bytes (up_heap s' ! a) = 0"
    by (rule minted_id_accepted [OF rtranclp.rtrancl_refl plain_upload_ok _ i [unfolded sample_text_def] _ o(1)]) (use o sample_narrowest in auto)
  then show ?thesis using b by (simp add: sample_text_def)
qed

end
