(* ===== verification/Progress.thy ===== *)
theory Progress
  imports Uploads Lane
begin

text \<open>
  The lanes and progress feeds of an upload, \<^verbatim>\<open>rust/server/src/engine/mod.rs\<close>, with its meter. A sink and a feed hold the
  address of their aggregate in the store. \<open>ProgressFeed::next\<close> is an \<open>async\<close> loop: \<open>feed_turn\<close> is its body up to the
  \<open>select\<close>, \<open>feed_wait\<close> what it waits for and \<open>feed_wake\<close> the branch of the \<open>select\<close> that is taken. A record line is its record.
\<close>

subsection \<open>Meters\<close>

record counts =
  me_bytes :: u64
  me_transfers :: u64

definition meter_new :: "bool \<Rightarrow> counts option" where
  "meter_new enabled = (if enabled then Some \<lparr>me_bytes = 0, me_transfers = 0\<rparr> else None)"

text \<open>\<open>open\<close>: whether a transfer runs, and the meter.\<close>

definition meter_open :: "counts option \<Rightarrow> bool \<times> counts option" where
  "meter_open m = (case m of None \<Rightarrow> (False, None) | Some c \<Rightarrow> (True, Some (c\<lparr>me_transfers := me_transfers c + 1\<rparr>)))"

definition transfer_record :: "counts \<Rightarrow> u64 \<Rightarrow> counts" where
  "transfer_record c n = c\<lparr>me_bytes := me_bytes c + n\<rparr>"

definition transfer_drop :: "counts \<Rightarrow> counts" where
  "transfer_drop c = c\<lparr>me_transfers := me_transfers c - 1\<rparr>"

subsection \<open>Sinks\<close>

record upload_sink =
  si_aggregate :: nat
  si_bytes :: u64

definition sink_new :: "nat \<Rightarrow> upload_sink" where
  "sink_new a = \<lparr>si_aggregate = a, si_bytes = 0\<rparr>"

text \<open>\<open>record\<close>, on the sink, its lane, the store and the counts of its transfer.\<close>

definition sink_record ::
    "upload_sink \<Rightarrow> lane \<Rightarrow> upload_store \<Rightarrow> counts option \<Rightarrow> u64 \<Rightarrow> nat \<Rightarrow> nat \<Rightarrow> upload_sink \<times> lane \<times> upload_store \<times> counts option" where
  "sink_record k l s c n t\<^sub>1 t\<^sub>2 =
     (if n = 0 then (k, l, s, c)
      else (k\<lparr>si_bytes := si_bytes k + n\<rparr>, lane_moved l t\<^sub>1, on_heap (si_aggregate k) (aggregate_record (up_start s) n t\<^sub>2) s,
            map_option (\<lambda>c. transfer_record c n) c))"

definition sink_drop :: "upload_sink \<Rightarrow> upload_store \<Rightarrow> nat \<Rightarrow> upload_store" where
  "sink_drop k s now = on_heap (si_aggregate k) (aggregate_leave now) s"

text \<open>One poll of \<open>finished\<close>.\<close>

definition sink_finished :: "upload_sink \<Rightarrow> upload_store \<Rightarrow> bool" where
  "sink_finished k s \<longleftrightarrow> aggregate_ended (up_heap s ! si_aggregate k)"

subsection \<open>Progress feeds\<close>

definition PROGRESS_INTERVAL :: nat where "PROGRESS_INTERVAL = 100 * 1000000"
definition HEARTBEAT_AFTER :: nat where "HEARTBEAT_AFTER = 1000000000"

datatype record_line = Ready | Progressed counters | Completed counters | RefusalRecord refusal

record progress_feed =
  pf_aggregate :: nat
  pf_reader :: nat
  pf_ready :: bool
  pf_ended :: bool
  pf_next_tick :: "nat option"
  pf_last_line :: nat

datatype feed_outcome = Wait | FeedLine record_line | FeedLast record_line | Superseded

definition feed_new :: "upload_store \<Rightarrow> nat \<Rightarrow> nat \<Rightarrow> nat \<Rightarrow> nat \<Rightarrow> progress_feed" where
  "feed_new s a reader t\<^sub>1 t\<^sub>2 = \<lparr>pf_aggregate = a, pf_reader = reader, pf_ready = False, pf_ended = False,
     pf_next_tick = aggregate_next_tick (up_start s) PROGRESS_INTERVAL t\<^sub>1 (up_heap s ! a), pf_last_line = t\<^sub>2\<rparr>"

definition feed_step :: "nat \<Rightarrow> aggregate \<Rightarrow> progress_feed \<Rightarrow> bool \<Rightarrow> nat \<Rightarrow> feed_outcome \<times> progress_feed" where
  "feed_step start life f ticked now =
     (if ag_reader life \<noteq> pf_reader f then (Superseded, f)
      else if ag_phase life = PhaseExpired then (FeedLast (RefusalRecord InvalidId), f)
      else if \<not> pf_ready f then (FeedLine Ready, f\<lparr>pf_ready := True\<rparr>)
      else
        let counters = aggregate_counters start now life
        in (case ag_phase life of
              PhaseFinished \<Rightarrow> if ag_lanes life = 0 then FeedLast (Completed counters) else Wait
            | PhaseOpen \<Rightarrow> if ticked \<and> co_nanos counters > 0 then FeedLine (Progressed counters) else Wait
            | PhaseExpired \<Rightarrow> Wait, f))"

datatype feed_answer = Waits | Says record_line | Over

definition feed_turn ::
    "quota_context \<Rightarrow> upload_store \<Rightarrow> progress_feed \<Rightarrow> bool \<Rightarrow> nat \<Rightarrow> nat \<Rightarrow> nat \<Rightarrow> nat \<Rightarrow> nat \<Rightarrow> feed_answer \<times> progress_feed \<times> upload_store" where
  "feed_turn x s f ticked t\<^sub>0 t\<^sub>1 t\<^sub>2 t\<^sub>3 t\<^sub>4 =
     (if pf_ended f then (Over, f, s)
      else
        let s = uploads_sweep x s t\<^sub>0 t\<^sub>1 t\<^sub>2
        in case feed_step (up_start s) (up_heap s ! pf_aggregate f) f ticked t\<^sub>3 of
            (Wait, f) \<Rightarrow> (Waits, f, s)
          | (FeedLine r, f) \<Rightarrow> (Says r, f\<lparr>pf_last_line := t\<^sub>4\<rparr>, s)
          | (FeedLast r, f) \<Rightarrow> (Says r, f\<lparr>pf_ended := True, pf_last_line := t\<^sub>4\<rparr>, s)
          | (Superseded, f) \<Rightarrow> (Over, f\<lparr>pf_ended := True\<rparr>, s))"

text \<open>The tick waited for: on the grid once the first chunk was accepted, else one interval from now.\<close>

definition feed_wait :: "upload_store \<Rightarrow> progress_feed \<Rightarrow> nat \<Rightarrow> nat \<Rightarrow> nat \<times> progress_feed" where
  "feed_wait s f t\<^sub>1 t\<^sub>2 =
     (let tick = (case pf_next_tick f of
            None \<Rightarrow> aggregate_next_tick (up_start s) PROGRESS_INTERVAL t\<^sub>1 (up_heap s ! pf_aggregate f)
          | tick \<Rightarrow> tick)
      in (case tick of None \<Rightarrow> t\<^sub>2 + PROGRESS_INTERVAL | Some tick \<Rightarrow> tick, f\<lparr>pf_next_tick := tick\<rparr>))"

datatype feed_woken = Asleep | Again bool | Heartbeat

definition feed_wake :: "upload_store \<Rightarrow> progress_feed \<Rightarrow> nat \<Rightarrow> bool \<Rightarrow> nat \<Rightarrow> feed_woken \<times> progress_feed" where
  "feed_wake s f tick changed now =
     (if changed then (Again False, f)
      else if tick \<le> now
      then (Again (pf_next_tick f \<noteq> None),
            f\<lparr>pf_next_tick := aggregate_next_tick (up_start s) PROGRESS_INTERVAL now (up_heap s ! pf_aggregate f)\<rparr>)
      else if pf_last_line f + HEARTBEAT_AFTER \<le> now then (Heartbeat, f\<lparr>pf_last_line := now\<rparr>)
      else (Asleep, f))"

subsection \<open>How an aggregate changes\<close>

text \<open>
  What every operation of the store does to an aggregate: bytes, the first chunk and the end stay, and a change a
  waiting reader has to see is notified.
\<close>

definition evolves :: "aggregate \<Rightarrow> aggregate \<Rightarrow> bool" where
  "evolves g g' \<longleftrightarrow> ag_owner g' = ag_owner g \<and> ag_bytes g \<le> ag_bytes g' \<and> (\<forall>first. ag_first g = Some first \<longrightarrow> ag_first g' = Some first) \<and>
     (ag_phase g = PhaseExpired \<longrightarrow> ag_phase g' = PhaseExpired) \<and> (ag_phase g \<noteq> PhaseOpen \<longrightarrow> ag_phase g' \<noteq> PhaseOpen \<and> ag_lanes g' \<le> ag_lanes g) \<and>
     (ag_phase g \<noteq> PhaseOpen \<and> ag_lanes g = 0 \<longrightarrow> ag_bytes g' = ag_bytes g) \<and> ag_reader g \<le> ag_reader g' \<and> ag_notified g \<le> ag_notified g' \<and>
     (ag_notified g' = ag_notified g \<longrightarrow> ag_reader g' = ag_reader g \<and> ag_phase g' = ag_phase g \<and> (ag_phase g \<noteq> PhaseOpen \<longrightarrow> ag_lanes g' = ag_lanes g))"

definition heap_evolves :: "upload_store \<Rightarrow> upload_store \<Rightarrow> bool" where
  "heap_evolves s s' \<longleftrightarrow> up_start s' = up_start s \<and> length (up_heap s) \<le> length (up_heap s') \<and>
     (\<forall>a < length (up_heap s). evolves (up_heap s ! a) (up_heap s' ! a))"

lemma evolves_refl [simp]: "evolves g g"
  by (simp add: evolves_def)

lemma evolves_trans:
  assumes "evolves g h" and "evolves h k"
  shows "evolves g k"
proof -
  from assms(1) have a: "ag_owner h = ag_owner g" "ag_bytes g \<le> ag_bytes h" "\<And>first. ag_first g = Some first \<Longrightarrow> ag_first h = Some first"
    "ag_phase g = PhaseExpired \<Longrightarrow> ag_phase h = PhaseExpired" "ag_phase g \<noteq> PhaseOpen \<Longrightarrow> ag_phase h \<noteq> PhaseOpen \<and> ag_lanes h \<le> ag_lanes g"
    "ag_phase g \<noteq> PhaseOpen \<and> ag_lanes g = 0 \<Longrightarrow> ag_bytes h = ag_bytes g" "ag_reader g \<le> ag_reader h" "ag_notified g \<le> ag_notified h"
    "ag_notified h = ag_notified g \<Longrightarrow> ag_reader h = ag_reader g \<and> ag_phase h = ag_phase g \<and> (ag_phase g \<noteq> PhaseOpen \<longrightarrow> ag_lanes h = ag_lanes g)"
    unfolding evolves_def by blast+
  from assms(2) have b: "ag_owner k = ag_owner h" "ag_bytes h \<le> ag_bytes k" "\<And>first. ag_first h = Some first \<Longrightarrow> ag_first k = Some first"
    "ag_phase h = PhaseExpired \<Longrightarrow> ag_phase k = PhaseExpired" "ag_phase h \<noteq> PhaseOpen \<Longrightarrow> ag_phase k \<noteq> PhaseOpen \<and> ag_lanes k \<le> ag_lanes h"
    "ag_phase h \<noteq> PhaseOpen \<and> ag_lanes h = 0 \<Longrightarrow> ag_bytes k = ag_bytes h" "ag_reader h \<le> ag_reader k" "ag_notified h \<le> ag_notified k"
    "ag_notified k = ag_notified h \<Longrightarrow> ag_reader k = ag_reader h \<and> ag_phase k = ag_phase h \<and> (ag_phase h \<noteq> PhaseOpen \<longrightarrow> ag_lanes k = ag_lanes h)"
    unfolding evolves_def by blast+
  have le: "ag_bytes g \<le> ag_bytes k" "ag_reader g \<le> ag_reader k" "ag_notified g \<le> ag_notified k" using a(2,7,8) b(2,7,8) by auto
  have ended: "ag_phase k \<noteq> PhaseOpen \<and> ag_lanes k \<le> ag_lanes g" if "ag_phase g \<noteq> PhaseOpen" using a(5) b(5) that by auto
  have bytes: "ag_bytes k = ag_bytes g" if "ag_phase g \<noteq> PhaseOpen" "ag_lanes g = 0" using a(5,6) b(6) that by simp
  have quiet: "ag_reader k = ag_reader g \<and> ag_phase k = ag_phase g \<and> (ag_phase g \<noteq> PhaseOpen \<longrightarrow> ag_lanes k = ag_lanes g)" if "ag_notified k = ag_notified g"
  proof -
    have "ag_notified h = ag_notified g" "ag_notified k = ag_notified h" using a(8) b(8) that by linarith+
    then show ?thesis using a(9) b(9) by simp
  qed
  show ?thesis unfolding evolves_def using a(1,3,4) b(1,3,4) le ended bytes quiet by simp
qed

lemma heap_evolves_refl [simp]: "heap_evolves s s"
  by (simp add: heap_evolves_def)

lemma heap_evolves_trans: "heap_evolves s t \<Longrightarrow> heap_evolves t u \<Longrightarrow> heap_evolves s u"
  unfolding heap_evolves_def by (auto intro: evolves_trans)

lemma heap_evolves_same: "up_heap s' = up_heap s \<Longrightarrow> up_start s' = up_start s \<Longrightarrow> heap_evolves s s'"
  by (simp add: heap_evolves_def)

lemma heap_evolves_on_heap: "(a < length (up_heap s) \<Longrightarrow> evolves (up_heap s ! a) (f (up_heap s ! a))) \<Longrightarrow> heap_evolves s (on_heap a f s)"
proof -
  assume f: "a < length (up_heap s) \<Longrightarrow> evolves (up_heap s ! a) (f (up_heap s ! a))"
  have "evolves (up_heap s ! b) ((up_heap s)[a := f (up_heap s ! a)] ! b)" if "b < length (up_heap s)" for b
    using that f by (cases "b = a") simp_all
  then show ?thesis by (simp add: heap_evolves_def on_heap_def)
qed

lemma evolves_updates:
  "evolves g (aggregate_expire g)" "evolves g (aggregate_finish g)" "evolves g (aggregate_leave now g)"
  "evolves g (notify_waiters (g\<lparr>ag_reader := ag_reader g + 1\<rparr>))" "aggregate_join now g = Inr h \<Longrightarrow> evolves g h"
  by (auto simp: evolves_def aggregate_expire_def aggregate_finish_def aggregate_leave_def notify_waiters_def aggregate_join_def split: if_splits)

lemma evolves_record: "unat (ag_bytes g) + unat n < 2 ^ 64 \<Longrightarrow> 0 < ag_lanes g \<Longrightarrow> evolves g (aggregate_record start n now g)"
  by (auto simp: evolves_def aggregate_record_def word_le_nat_alt unat_add_lem [symmetric] unat_word_ariths split: option.splits)

lemma heap_evolves_entry_ended: "heap_evolves s (entry_ended x s e)"
proof -
  let ?s = "s\<lparr>up_quota := fst (quota_drop x upload_capacity (up_quota s) (ue_capacity e))\<rparr>"
  have "heap_evolves s ?s" by (rule heap_evolves_same) simp_all
  also have "heap_evolves ?s (entry_ended x s e)" unfolding entry_ended_def by (rule heap_evolves_on_heap) (simp add: evolves_updates)
  finally (heap_evolves_trans) show ?thesis .
qed

lemma heap_evolves_retain: "retain_live x now es s = (kept, s') \<Longrightarrow> heap_evolves s s'"
proof (induction x now es s arbitrary: kept rule: retain_live.induct)
  case (2 x now ident e es s)
  then show ?case using heap_evolves_trans [OF heap_evolves_entry_ended] by (auto split: if_splits prod.splits)
qed simp

lemma heap_evolves_entries: "heap_evolves s (uploads_entries x s t\<^sub>1 t\<^sub>2)"
proof -
  let ?s = "s\<lparr>up_tombstones := filter (\<lambda>(_, til). til \<ge> t\<^sub>2) (up_tombstones s)\<rparr>"
  obtain kept s' where r: "retain_live x t\<^sub>2 (up_live s) ?s = (kept, s')" by (metis prod.exhaust)
  have "heap_evolves s s'" by (rule heap_evolves_trans [OF heap_evolves_same heap_evolves_retain [OF r]]) simp_all
  then show ?thesis using r by (auto simp: uploads_entries_def entries_sweep_def Let_def heap_evolves_def)
qed

lemma heap_evolves_displace: "heap_evolves s (snd (entries_displace x s now))"
proof -
  have "heap_evolves s ((entry_ended x (s\<lparr>up_live := live\<rparr>) e)\<lparr>up_tombstones := tombs\<rparr>)" for live e tombs
    using heap_evolves_entry_ended [of "s\<lparr>up_live := live\<rparr>" x e] by (simp add: heap_evolves_def)
  moreover have "heap_evolves s (s\<lparr>up_tombstones := tombs\<rparr>)" for tombs by (simp add: heap_evolves_def)
  ultimately show ?thesis by (auto simp: entries_displace_def Let_def simp del: min_by_key_None split: option.splits)
qed

lemma heap_evolves_capacity: "heap_evolves s (snd (uploads_capacity x s ks now))"
proof -
  have "heap_evolves s (snd (entries_displace x (s\<lparr>up_quota := q\<rparr>) now))" for q
    using heap_evolves_displace [of "s\<lparr>up_quota := q\<rparr>" x now] by (simp add: heap_evolves_def)
  then have "heap_evolves s s2" if "entries_displace x (s\<lparr>up_quota := q\<rparr>) now = (ok, s2)" for q ok s2 using that by (metis snd_conv)
  then show ?thesis
    by (auto simp: uploads_capacity_def Let_def heap_evolves_def split: sum.splits full.splits prod.splits bool.splits)
qed

lemma heap_evolves_reach:
  assumes "uploads_reach lib x s text owner reach t\<^sub>1 t\<^sub>2 t\<^sub>3 t\<^sub>4 t\<^sub>5 = (r, s')"
  shows "heap_evolves s s'"
  using assms
proof (cases rule: reach_split)
  case (joined ident e g)
  then show ?thesis
    using heap_evolves_trans [OF heap_evolves_entries heap_evolves_on_heap] evolves_updates(5) [OF joined(5)] by simp
next
  case (full ks refusal)
  then show ?thesis using heap_evolves_trans [OF heap_evolves_entries heap_evolves_capacity] by (metis snd_conv)
next
  case (created ident ks own h c)
  have "heap_evolves s c" using heap_evolves_trans [OF heap_evolves_entries heap_evolves_capacity] created(8) by (metis snd_conv)
  then show ?thesis unfolding created(10) by (auto simp: heap_evolves_def nth_append)
qed (use heap_evolves_entries in auto)

lemma on_heap_on_heap: "on_heap a f (on_heap a g s) = on_heap a (f \<circ> g) s"
  by (cases "a < length (up_heap s)") (simp_all add: on_heap_def list_update_beyond)

lemma heap_evolves_step: "upload_step lib x w w' \<Longrightarrow> uploads_world lib x w \<Longrightarrow> heap_evolves (fst w) (fst w') \<and> snd (snd (snd w)) \<le> snd (snd (snd w'))"
proof (induction rule: upload_step.induct)
  case (join s now t\<^sub>1 t\<^sub>2 t\<^sub>3 t\<^sub>4 t\<^sub>5 tx owner r s' sinks ans)
  then show ?case using heap_evolves_reach by (auto simp: uploads_begin_def in_order_def split: sum.splits)
next
  case (subscribe s now t\<^sub>1 t\<^sub>2 t\<^sub>3 t\<^sub>4 t\<^sub>5 tx owner f s' sinks ans)
  obtain r s2 where r: "uploads_reach lib x s tx owner ReachWatch t\<^sub>1 t\<^sub>2 t\<^sub>3 t\<^sub>4 t\<^sub>5 = (r, s2)" by (metis prod.exhaust)
  have "heap_evolves s2 (on_heap a notify_waiters (on_heap a (\<lambda>g. g\<lparr>ag_reader := ag_reader g + 1\<rparr>) s2))" for a
    unfolding on_heap_on_heap by (rule heap_evolves_on_heap) (use evolves_updates(4) in simp)
  from heap_evolves_trans [OF heap_evolves_reach [OF r] this] have "heap_evolves s s'"
    using subscribe(2) r heap_evolves_reach [OF r] by (auto simp: uploads_subscribe_def Let_def split: sum.splits)
  then show ?case using subscribe(1) by (auto simp: in_order_def split: sum.splits)
next
  case (watchable s now t\<^sub>1 t\<^sub>2 t\<^sub>3 tx owner w s' sinks ans)
  then show ?case using heap_evolves_entries by (auto simp: uploads_watchable_def Let_def in_order_def split: option.splits)
next
  case (checkpoint s now t\<^sub>1 t\<^sub>2 t\<^sub>3 tx owner c s' sinks ans)
  then show ?case using heap_evolves_reach by (auto simp: uploads_checkpoint_def in_order_def split: prod.splits sum.splits)
next
  case (finish s now t\<^sub>1 t\<^sub>2 tx owner w s' sinks ans)
  obtain r s2 where r: "uploads_reach lib x s tx owner ReachRead t\<^sub>1 t\<^sub>2 t\<^sub>2 t\<^sub>2 t\<^sub>2 = (r, s2)" by (metis prod.exhaust)
  have "heap_evolves s2 (on_heap a aggregate_finish s2)" for a by (rule heap_evolves_on_heap) (simp add: evolves_updates)
  from heap_evolves_trans [OF heap_evolves_reach [OF r] this] have "heap_evolves s s'"
    using finish(2) r heap_evolves_reach [OF r] by (auto simp: uploads_finish_def split: sum.splits)
  then show ?case using finish(1) by (auto simp: in_order_def)
next
  case (sweep s now t\<^sub>0 t\<^sub>1 t\<^sub>2 sinks ans)
  then show ?case using heap_evolves_entries by (auto simp: uploads_sweep_def in_order_def)
next
  case (receive s now t a sinks n ans)
  then have "a < length (up_heap s) \<Longrightarrow> 0 < ag_lanes (up_heap s ! a)" by (simp add: upload_inv_def upload_frame_def lanes_ok_def)
  then show ?case using receive(1,3) heap_evolves_on_heap evolves_record by (simp add: in_order_def)
next
  case (leave s now t a sinks ans)
  then show ?case using heap_evolves_on_heap evolves_updates(3) by (simp add: in_order_def)
qed

lemma heap_evolves_sweep: "heap_evolves s (uploads_sweep x s t\<^sub>0 t\<^sub>1 t\<^sub>2)"
  using heap_evolves_entries by (simp add: uploads_sweep_def)

lemma follows_refl: "counters_follows c c"
  by (simp add: counters_follows_def)

lemma follows_trans: "counters_follows c b \<Longrightarrow> counters_follows b a \<Longrightarrow> counters_follows c a"
  by (auto simp: counters_follows_def)

lemma clock_mono: "t \<le> t' \<Longrightarrow> t' < start + 2 ^ 64 \<Longrightarrow> clock_now start t \<le> clock_now start t'"
proof -
  assume "t \<le> t'" "t' < start + 2 ^ 64"
  moreover from this have "t - start < 2 ^ 64" "t' - start < 2 ^ 64" by auto
  ultimately show ?thesis by (simp add: word_le_nat_alt unat_clock diff_le_mono)
qed

lemma sub_saturating_mono: "a \<le> b \<Longrightarrow> sub_saturating a first \<le> sub_saturating b first"
  by (auto simp: sub_saturating_def word_le_nat_alt unat_sub)

lemma counters_evolve:
  assumes "evolves g g'" and "t \<le> t'" and "t' < start + 2 ^ 64"
  shows "counters_follows (aggregate_counters start t' g') (aggregate_counters start t g)"
proof -
  have "(case ag_first g of None \<Rightarrow> 0 | Some first \<Rightarrow> sub_saturating (clock_now start t) first) \<le>
      (case ag_first g' of None \<Rightarrow> 0 | Some first \<Rightarrow> sub_saturating (clock_now start t') first)"
    using assms(1) sub_saturating_mono [OF clock_mono [OF assms(2,3)]] by (cases "ag_first g") (simp_all add: evolves_def)
  moreover have "ag_bytes g \<le> ag_bytes g'" using assms(1) by (simp add: evolves_def)
  ultimately show ?thesis unfolding counters_follows_def aggregate_counters_def counters_new_def by (simp add: min.coboundedI1 min_le_iff_disj)
qed

subsection \<open>What a reader sees\<close>

text \<open>
  A feed among the requests of all clients: the server, the feed, whether its last wait ended with a tick of the grid, and
  the records it sent. Heartbeats are no records. A wait may end for any tick.
\<close>

type_synonym feed_world = "upload_world \<times> progress_feed \<times> bool \<times> record_line list"

inductive feed_run :: "upload_lib \<Rightarrow> quota_context \<Rightarrow> feed_world \<Rightarrow> feed_world \<Rightarrow> bool" for lib x where
  others: "upload_step lib x w w' \<Longrightarrow> feed_run lib x (w, f, ticked, out) (w', f, ticked, out)"
| turn: "in_order s [now, t\<^sub>0, t\<^sub>1, t\<^sub>2, t\<^sub>3, t\<^sub>4] \<Longrightarrow> feed_turn x s f ticked t\<^sub>0 t\<^sub>1 t\<^sub>2 t\<^sub>3 t\<^sub>4 = (answer, f', s') \<Longrightarrow>
    feed_run lib x ((s, sinks, ans, now), f, ticked, out)
      ((s', sinks, ans, t\<^sub>4), f', answer = Waits \<and> ticked, out @ (case answer of Says r \<Rightarrow> [r] | _ \<Rightarrow> []))"
| wait: "feed_wait s f t\<^sub>1 t\<^sub>2 = (tick, f') \<Longrightarrow> feed_run lib x ((s, sinks, ans, now), f, ticked, out) ((s, sinks, ans, now), f', ticked, out)"
| wake: "feed_wake s f tick changed t = (w, f') \<Longrightarrow> feed_run lib x ((s, sinks, ans, now), f, ticked, out) ((s, sinks, ans, now), f', w = Again True, out)"

fun observed :: "record_line list \<Rightarrow> counters list" where
  "observed [] = []"
| "observed (Progressed c # out) = c # observed out"
| "observed (Completed c # out) = c # observed out"
| "observed (_ # out) = observed out"

lemma observed_append [simp]: "observed (out @ more') = observed out @ observed more'"
  by (induction out rule: observed.induct) simp_all

lemma observed_progressed [simp]: "observed (map Progressed ps) = ps"
  by (induction ps) simp_all

definition feed_tail :: "record_line list \<Rightarrow> bool" where
  "feed_tail tail \<longleftrightarrow> (\<exists>c. tail = [Completed c]) \<or> tail = [RefusalRecord InvalidId]"

definition feed_lines :: "progress_feed \<Rightarrow> record_line list \<Rightarrow> bool" where
  "feed_lines f out \<longleftrightarrow>
     (if pf_ready f then \<exists>ps tail. out = Ready # map Progressed ps @ tail \<and> (tail = [] \<or> pf_ended f \<and> feed_tail tail)
      else out = [] \<or> pf_ended f \<and> out = [RefusalRecord InvalidId])"

text \<open>A record that was sent holds no more than any later observation; the last one holds all bytes.\<close>

definition sent_ok :: "upload_store \<Rightarrow> nat \<Rightarrow> aggregate \<Rightarrow> record_line list \<Rightarrow> bool" where
  "sent_ok s now g out \<longleftrightarrow> sorted_wrt (\<lambda>c d. counters_follows d c) (observed out) \<and>
     (\<forall>c \<in> set (observed out). \<forall>t. now \<le> t \<and> t < up_start s + 2 ^ 64 \<longrightarrow> counters_follows (aggregate_counters (up_start s) t g) c) \<and>
     (\<forall>c. Completed c \<in> set out \<longrightarrow> ag_phase g \<noteq> PhaseOpen \<and> ag_lanes g = 0 \<and> co_bytes c = min (ag_bytes g) MAX_COUNTER)"

lemma sent_ok_evolves:
  assumes ok: "sent_ok s now g out" and g: "evolves g g'" and "up_start s' = up_start s" "now \<le> now'"
  shows "sent_ok s' now' g' out"
proof -
  have "counters_follows (aggregate_counters (up_start s) t g') c" if "c \<in> set (observed out)" "now' \<le> t" "t < up_start s + 2 ^ 64" for c t
    using counters_evolve [OF g le_refl that(3)] ok that assms(4) follows_trans unfolding sent_ok_def by (meson le_trans)
  moreover have "ag_phase g' \<noteq> PhaseOpen \<and> ag_lanes g' = 0 \<and> co_bytes c = min (ag_bytes g') MAX_COUNTER" if "Completed c \<in> set out" for c
    using ok that g unfolding sent_ok_def evolves_def by auto
  ultimately show ?thesis using ok assms(3) by (auto simp: sent_ok_def)
qed

lemma sent_ok_more:
  assumes ok: "sent_ok s now g out" and t: "now \<le> t\<^sub>3" "t\<^sub>3 \<le> t\<^sub>4" "t\<^sub>3 < up_start s + 2 ^ 64"
    and line: "r = Progressed c \<or> r = Completed c \<and> ag_phase g \<noteq> PhaseOpen \<and> ag_lanes g = 0" and c: "c = aggregate_counters (up_start s) t\<^sub>3 g"
  shows "sent_ok s t\<^sub>4 g (out @ [r])"
proof -
  have o: "observed [r] = [c]" using line by auto
  have "counters_follows c d" if "d \<in> set (observed out)" for d using ok that t c by (simp add: sent_ok_def)
  moreover have "counters_follows (aggregate_counters (up_start s) u g) c" if "t\<^sub>4 \<le> u" "u < up_start s + 2 ^ 64" for u
    using counters_evolve [OF evolves_refl _ that(2), of t\<^sub>3 g] that t(2) c by simp
  moreover have "co_bytes c = min (ag_bytes g) MAX_COUNTER" by (simp add: c aggregate_counters_def counters_new_def)
  ultimately show ?thesis using ok line o t unfolding sent_ok_def by (auto simp: sorted_wrt_append)
qed

lemma sent_ok_other: "sent_ok s now g out \<Longrightarrow> observed [r] = [] \<Longrightarrow> (\<And>c. r \<noteq> Completed c) \<Longrightarrow> sent_ok s now g (out @ [r])"
  unfolding sent_ok_def by auto

lemma sent_ok_later: "sent_ok s now g out \<Longrightarrow> now \<le> t \<Longrightarrow> sent_ok s t g out"
  using sent_ok_evolves [of s now g out g s t] by simp

fun feed_inv :: "upload_lib \<Rightarrow> quota_context \<Rightarrow> feed_world \<Rightarrow> bool" where
  "feed_inv lib x (w, f, ticked, out) \<longleftrightarrow> uploads_world lib x w \<and> pf_aggregate f < length (up_heap (fst w)) \<and> feed_lines f out \<and>
     sent_ok (fst w) (snd (snd (snd w))) (up_heap (fst w) ! pf_aggregate f) out"

lemma feed_lines_same: "pf_ready f' = pf_ready f \<Longrightarrow> pf_ended f \<longrightarrow> pf_ended f' \<Longrightarrow> feed_lines f out \<Longrightarrow> feed_lines f' out"
  by (auto simp: feed_lines_def split: if_splits)

lemma feed_lines_last:
  assumes "feed_lines f out" "\<not> pf_ended f" "pf_ready f" "feed_tail [l]"
  shows "feed_lines (f\<lparr>pf_ended := True\<rparr>) (out @ [l])"
proof -
  obtain ps where "out = Ready # map Progressed ps" using assms by (auto simp: feed_lines_def)
  then have "out @ [l] = Ready # map Progressed ps @ [l]" by simp
  then show ?thesis using assms(3,4) unfolding feed_lines_def by auto
qed

lemma feed_step_lines:
  assumes run: "feed_step start g f ticked t\<^sub>3 = (r, f')" and lines: "feed_lines f out" "\<not> pf_ended f"
    and ok: "sent_ok s now g out" and t: "now \<le> t\<^sub>3" "t\<^sub>3 \<le> t\<^sub>4" "t\<^sub>3 < up_start s + 2 ^ 64" and start: "start = up_start s"
  shows "case r of
      Wait \<Rightarrow> feed_lines f' out \<and> sent_ok s t\<^sub>4 g out
    | FeedLine l \<Rightarrow> feed_lines f' (out @ [l]) \<and> sent_ok s t\<^sub>4 g (out @ [l])
    | FeedLast l \<Rightarrow> feed_lines (f'\<lparr>pf_ended := True\<rparr>) (out @ [l]) \<and> sent_ok s t\<^sub>4 g (out @ [l])
    | Superseded \<Rightarrow> feed_lines (f'\<lparr>pf_ended := True\<rparr>) out \<and> sent_ok s t\<^sub>4 g out"
proof -
  let ?c = "aggregate_counters start t\<^sub>3 g"
  have later: "sent_ok s t\<^sub>4 g out" using sent_ok_later [OF ok, of t\<^sub>4] t by simp
  consider (superseded) "r = Superseded" "f' = f"
    | (expired) "r = FeedLast (RefusalRecord InvalidId)" "f' = f"
    | (ready) "r = FeedLine Ready" "f' = f\<lparr>pf_ready := True\<rparr>" "\<not> pf_ready f"
    | (complete) "r = FeedLast (Completed ?c)" "f' = f" "pf_ready f" "ag_phase g = PhaseFinished" "ag_lanes g = 0"
    | (progress) "r = FeedLine (Progressed ?c)" "f' = f" "pf_ready f"
    | (wait) "r = Wait" "f' = f"
    using run by (auto simp: feed_step_def Let_def split: if_splits upload_phase.splits)
  then show ?thesis
  proof cases
    case superseded
    then show ?thesis using later lines feed_lines_same [of "f\<lparr>pf_ended := True\<rparr>" f out] by simp
  next
    case expired
    have "feed_lines (f\<lparr>pf_ended := True\<rparr>) (out @ [RefusalRecord InvalidId])"
    proof (cases "pf_ready f")
      case True
      then show ?thesis using lines by (intro feed_lines_last) (simp_all add: feed_tail_def)
    next
      case False
      then show ?thesis using lines by (simp add: feed_lines_def)
    qed
    then show ?thesis using expired sent_ok_other [OF later] by simp
  next
    case ready
    then show ?thesis using lines sent_ok_other [OF later] by (auto simp: feed_lines_def)
  next
    case complete
    have "feed_lines (f\<lparr>pf_ended := True\<rparr>) (out @ [Completed ?c])" using lines complete(3) by (intro feed_lines_last) (simp_all add: feed_tail_def)
    then show ?thesis using complete sent_ok_more [OF ok t, of "Completed ?c" ?c] start by simp
  next
    case progress
    obtain ps where "out = Ready # map Progressed ps" using lines progress(3) by (auto simp: feed_lines_def)
    then have "out @ [Progressed ?c] = Ready # map Progressed (ps @ [?c]) @ []" by simp
    then have "feed_lines f (out @ [Progressed ?c])" using progress(3) unfolding feed_lines_def by (metis (no_types, lifting))
    then show ?thesis using progress sent_ok_more [OF ok t, of "Progressed ?c" ?c] start by simp
  next
    case wait
    then show ?thesis using later lines by simp
  qed
qed

lemma feed_run_inv:
  assumes "feed_run lib x v v'" and "feed_inv lib x v"
  shows "feed_inv lib x v'"
  using assms
proof (induction rule: feed_run.induct)
  case (others w w' f ticked out)
  have inv: "uploads_world lib x w" using others by simp
  have e: "heap_evolves (fst w) (fst w')" "snd (snd (snd w)) \<le> snd (snd (snd w'))" using heap_evolves_step [OF others(1) inv] by simp_all
  have ok: "sent_ok (fst w) (snd (snd (snd w))) (up_heap (fst w) ! pf_aggregate f) out" "pf_aggregate f < length (up_heap (fst w))" "feed_lines f out"
    using others(2) by simp_all
  have ev: "evolves (up_heap (fst w) ! pf_aggregate f) (up_heap (fst w') ! pf_aggregate f)" "up_start (fst w') = up_start (fst w)"
    "pf_aggregate f < length (up_heap (fst w'))" using e(1) ok(2) by (auto simp: heap_evolves_def)
  show ?case using sent_ok_evolves [OF ok(1) ev(1,2) e(2)] upload_step_inv [OF others(1) inv] ev(3) ok(3) by simp
next
  case (turn s now t\<^sub>0 t\<^sub>1 t\<^sub>2 t\<^sub>3 t\<^sub>4 f ticked answer f' s' sinks ans out)
  have t: "now \<le> t\<^sub>0" "t\<^sub>0 \<le> t\<^sub>1" "t\<^sub>1 \<le> t\<^sub>2" "t\<^sub>2 \<le> t\<^sub>3" "t\<^sub>3 \<le> t\<^sub>4" "t\<^sub>3 < up_start s + 2 ^ 64" "up_start s \<le> t\<^sub>4" "now \<le> t\<^sub>4"
    and o: "in_order s [now, t\<^sub>0, t\<^sub>1, t\<^sub>2]" using turn(1) by (auto simp: in_order_def)
  have w: "uploads_world lib x (s, sinks, ans, now)" using turn(3) by simp
  show ?case
  proof (cases "pf_ended f")
    case True
    then have "answer = Over" "f' = f" "s' = s" using turn(2) by (simp_all add: feed_turn_def)
    then show ?thesis using turn(3) t inv_later [of lib x s sinks ans now t\<^sub>4] sent_ok_later [OF _ t(8)] by simp
  next
    case False
    let ?s = "uploads_sweep x s t\<^sub>0 t\<^sub>1 t\<^sub>2" let ?g = "up_heap ?s ! pf_aggregate f"
    have "uploads_world lib x (?s, sinks, ans, t\<^sub>2)" using upload_step_inv [OF upload_step.sweep [OF o] w] .
    then have inv: "upload_inv lib x ?s sinks ans t\<^sub>4" using inv_later t(4,5) by (meson le_trans uploads_world.simps)
    have e: "heap_evolves s ?s" by (rule heap_evolves_sweep)
    have old: "sent_ok s now (up_heap s ! pf_aggregate f) out" "pf_aggregate f < length (up_heap s)" using turn(3) by simp_all
    have ev: "evolves (up_heap s ! pf_aggregate f) ?g" "up_start ?s = up_start s" "now \<le> t\<^sub>2" using e old(2) t by (auto simp: heap_evolves_def)
    have ok: "sent_ok ?s t\<^sub>2 ?g out" by (rule sent_ok_evolves [OF old(1) ev])
    obtain r f1 where r: "feed_step (up_start ?s) ?g f ticked t\<^sub>3 = (r, f1)" by (metis prod.exhaust)
    have start: "up_start ?s = up_start s" using e by (simp add: heap_evolves_def)
    have lines: "feed_lines f out" using turn(3) by simp
    note I = feed_step_lines [OF r lines False ok t(4,5) _ refl, unfolded start, OF t(6)]
    have same: "pf_aggregate f1 = pf_aggregate f" using r by (auto simp: feed_step_def Let_def split: if_splits)
    have addr: "pf_aggregate f < length (up_heap ?s)" using turn(3) e by (auto simp: heap_evolves_def)
    have s': "s' = ?s" using turn(2) False r by (auto simp: feed_turn_def Let_def split: feed_outcome.splits)
    have "feed_lines f' (out @ (case answer of Says r \<Rightarrow> [r] | _ \<Rightarrow> [])) \<and> sent_ok ?s t\<^sub>4 ?g (out @ (case answer of Says r \<Rightarrow> [r] | _ \<Rightarrow> [])) \<and> pf_aggregate f' = pf_aggregate f"
      using turn(2) False r I same feed_lines_same [of f' f1] feed_lines_same [of f' "f1\<lparr>pf_ended := True\<rparr>"]
      by (cases r) (auto simp: feed_turn_def Let_def)
    then show ?thesis using s' addr inv start t(7) by simp
  qed
next
  case (wait s f t\<^sub>1 t\<^sub>2 tick f' sinks ans now ticked out)
  have "pf_ready f' = pf_ready f" "pf_ended f' = pf_ended f" "pf_aggregate f' = pf_aggregate f"
    using wait(1) by (auto simp: feed_wait_def Let_def)
  then show ?case using wait(2) feed_lines_same [of f' f out] by simp
next
  case (wake s f tick changed t w f' sinks ans now ticked out)
  have "pf_ready f' = pf_ready f" "pf_ended f' = pf_ended f" "pf_aggregate f' = pf_aggregate f"
    using wake(1) by (auto simp: feed_wake_def split: if_splits)
  then show ?case using wake(2) feed_lines_same [of f' f out] by simp
qed

lemma feed_inv_reachable: "(feed_run lib x)\<^sup>*\<^sup>* v v' \<Longrightarrow> feed_inv lib x v \<Longrightarrow> feed_inv lib x v'"
  by (induction rule: rtranclp_induct) (use feed_run_inv in blast)+

lemma feed_inv_start:
  assumes "uploads_world lib x (s\<^sub>0, sinks, ans, now)" "in_order s\<^sub>0 [now, t\<^sub>1, t\<^sub>2, t\<^sub>3, t\<^sub>4, t\<^sub>5]"
    and "uploads_subscribe lib x s\<^sub>0 text owner t\<^sub>1 t\<^sub>2 t\<^sub>3 t\<^sub>4 t\<^sub>5 = (Inr (a, reader), s)"
  shows "feed_inv lib x ((s, sinks, answered lib text a ans, t\<^sub>5), feed_new s a reader t\<^sub>6 t\<^sub>7, False, [])"
proof -
  have inv: "uploads_world lib x (s, sinks, answered lib text a ans, t\<^sub>5)"
    using upload_step_inv [OF upload_step.subscribe [OF assms(2,3)] assms(1)] by simp
  obtain ident where "upload_id_parse lib text = Some ident"
    using assms(3) by (auto simp: uploads_subscribe_def uploads_reach_def Let_def split: if_splits option.splits prod.splits sum.splits)
  then have "(ident, a) \<in> answered lib text a ans" by (simp add: answered_def)
  then have "a < length (up_heap s)" using inv by (auto simp: upload_inv_def upload_frame_def answers_ok_def answer_ok_def)
  then show ?thesis using inv by (simp add: feed_new_def feed_lines_def sent_ok_def)
qed

text \<open>
  C10. A progress reader gets \<open>ready\<close>, then observations none of which falls behind an earlier one, and at last at most one \<open>complete\<close>
  or an error, whatever all clients do meanwhile; if the upload is gone before its first turn, the error alone. \<open>complete\<close> comes once the upload has ended and its lanes have left, and its
  bytes are all the upload ever receives.
\<close>

theorem feed_records_ordered:
  assumes "(upload_step lib x)\<^sup>*\<^sup>* (uploads_new key start, {#}, {}, start) (s\<^sub>0, sinks, ans, now)"
    and "in_order s\<^sub>0 [now, t\<^sub>1, t\<^sub>2, t\<^sub>3, t\<^sub>4, t\<^sub>5]" "uploads_subscribe lib x s\<^sub>0 text owner t\<^sub>1 t\<^sub>2 t\<^sub>3 t\<^sub>4 t\<^sub>5 = (Inr (a, reader), s)"
    and "(feed_run lib x)\<^sup>*\<^sup>* ((s, sinks, answered lib text a ans, t\<^sub>5), feed_new s a reader t\<^sub>6 t\<^sub>7, False, []) ((s', sinks', ans', now'), f, ticked, out)"
  shows "(out = [] \<or> out = [RefusalRecord InvalidId] \<or>
      (\<exists>ps tail. out = Ready # map Progressed ps @ tail \<and> (tail = [] \<or> (\<exists>c. tail = [Completed c]) \<or> tail = [RefusalRecord InvalidId]))) \<and>
    sorted_wrt (\<lambda>c d. counters_follows d c) (observed out) \<and>
    (\<forall>c. Completed c \<in> set out \<longrightarrow> ag_phase (up_heap s' ! pf_aggregate f) \<noteq> PhaseOpen \<and> ag_lanes (up_heap s' ! pf_aggregate f) = 0 \<and>
      co_bytes c = min (ag_bytes (up_heap s' ! pf_aggregate f)) MAX_COUNTER)"
proof -
  have "feed_inv lib x ((s', sinks', ans', now'), f, ticked, out)"
    by (rule feed_inv_reachable [OF assms(4) feed_inv_start [OF uploads_world_reachable [OF assms(1)] assms(2,3)]])
  then have lines: "feed_lines f out" and ok: "sent_ok s' now' (up_heap s' ! pf_aggregate f) out" by simp_all
  then have "out = [] \<or> out = [RefusalRecord InvalidId] \<or>
      (\<exists>ps tail. out = Ready # map Progressed ps @ tail \<and> (tail = [] \<or> (\<exists>c. tail = [Completed c]) \<or> tail = [RefusalRecord InvalidId]))"
    unfolding feed_lines_def feed_tail_def by (auto split: if_splits)
  then show ?thesis using ok by (simp add: sent_ok_def)
qed

text \<open>
  C33. A waiting reader misses nothing: when a turn found nothing to say, then after any requests that did not notify the waiters of
  the aggregate there is still nothing to say until a tick.
\<close>

theorem feed_no_lost_wakeup:
  assumes "(upload_step lib x)\<^sup>*\<^sup>* (uploads_new key start, {#}, {}, start) (s, sinks, ans, now)"
    and "a < length (up_heap s)" "feed_step (up_start s) (up_heap s ! a) f ticked t = (Wait, f)"
    and "(upload_step lib x)\<^sup>*\<^sup>* (s, sinks, ans, now) (s', sinks', ans', now')"
    and "ag_notified (up_heap s' ! a) = ag_notified (up_heap s ! a)"
  shows "feed_step (up_start s') (up_heap s' ! a) f False t' = (Wait, f)"
proof -
  have "heap_evolves (fst (s, sinks, ans, now)) (fst w') \<and> uploads_world lib x w'" if "(upload_step lib x)\<^sup>*\<^sup>* (s, sinks, ans, now) w'" for w'
    using that
  proof (induction rule: rtranclp_induct)
    case base
    show ?case using uploads_world_reachable [OF assms(1)] by simp
  next
    case (step y z)
    then show ?case using heap_evolves_step [OF step(2)] upload_step_inv [OF step(2)] heap_evolves_trans by blast
  qed
  from this [OF assms(4)] have "evolves (up_heap s ! a) (up_heap s' ! a)" using assms(2) by (simp add: heap_evolves_def)
  then have same: "ag_reader (up_heap s' ! a) = ag_reader (up_heap s ! a)" "ag_phase (up_heap s' ! a) = ag_phase (up_heap s ! a)"
    "ag_phase (up_heap s ! a) \<noteq> PhaseOpen \<Longrightarrow> ag_lanes (up_heap s' ! a) = ag_lanes (up_heap s ! a)"
    using assms(5) unfolding evolves_def by blast+
  show ?thesis using assms(3) same unfolding feed_step_def Let_def by (auto split: if_splits upload_phase.splits)
qed

theorem feed_records_ordered_witness:
  "\<exists>s\<^sub>0 s ident f. (upload_step plain_upload sample_context)\<^sup>*\<^sup>* (uploads_new [] 0, {#}, {}, 0) (s\<^sub>0, {#0#}, {(ident, 0)}, 0) \<and>
     uploads_subscribe plain_upload sample_context s\<^sub>0 sample_text (Some (KeysV4 7)) 2 2 2 2 2 = (Inr (0, 1), s) \<and>
     (feed_run plain_upload sample_context)\<^sup>*\<^sup>* ((s, {#0#}, answered plain_upload sample_text 0 {(ident, 0)}, 2), feed_new s 0 1 2 2, False, [])
       ((s, {#0#}, answered plain_upload sample_text 0 {(ident, 0)}, 2), f, False, [Ready]) \<and> sorted_wrt (\<lambda>c d. counters_follows d c) (observed [Ready])"
proof -
  obtain s ident where s: "(upload_step plain_upload sample_context)\<^sup>*\<^sup>* (uploads_new [] 0, {#}, {}, 0) (s, {#0#}, {(ident, 0)}, 0)"
    "upload_id_parse plain_upload sample_text = Some ident" "length (up_live s) = 1" "up_start s = 0" "up_next_sweep s = SWEEP_NANOS"
    "map_of (up_live s) ident = Some \<lparr>ue_aggregate = 0, ue_capacity = \<lparr>h_keys = KeysV4 7, h_weight = 1, h_linked = False\<rparr>\<rparr>"
    "up_heap s = [\<lparr>ag_owner = KeyV4 7, ag_bytes = 0, ag_first = None, ag_lanes = 1, ag_touched = 0, ag_phase = PhaseOpen, ag_reader = 0, ag_notified = 0\<rparr>]"
    by (rule sample_step)
  have e: "uploads_entries sample_context s 2 2 = s" using s(4,5) by (simp add: uploads_entries_def clock_now_def SWEEP_NANOS_def SWEEP_INTERVAL_def)
  let ?s = "on_heap 0 notify_waiters (on_heap 0 (\<lambda>g. g\<lparr>ag_reader := ag_reader g + 1\<rparr>) s)"
  have sub: "uploads_subscribe plain_upload sample_context s sample_text (Some (KeysV4 7)) 2 2 2 2 2 = (Inr (0, 1), ?s)"
    using e s(2,6,7) sample_narrowest by (simp add: uploads_subscribe_def uploads_reach_def Let_def on_heap_def)
  have h: "up_heap ?s = [\<lparr>ag_owner = KeyV4 7, ag_bytes = 0, ag_first = None, ag_lanes = 1, ag_touched = 0, ag_phase = PhaseOpen, ag_reader = 1, ag_notified = 1\<rparr>]"
    "up_start ?s = 0" "up_next_sweep ?s = SWEEP_NANOS" using s(4,5,7) by (simp_all add: on_heap_def notify_waiters_def)
  have o: "in_order s [0, 2, 2, 2, 2, 2]" "in_order ?s [2, 2, 2, 2, 2, 2]" using s(4) by (simp_all add: in_order_def)
  let ?f = "feed_new ?s 0 1 2 2"
  have "uploads_sweep sample_context ?s 2 2 2 = ?s" using h(2,3) by (simp add: uploads_sweep_def clock_now_def SWEEP_NANOS_def SWEEP_INTERVAL_def)
  then have "feed_turn sample_context ?s ?f False 2 2 2 2 2 = (Says Ready, ?f\<lparr>pf_ready := True, pf_last_line := 2\<rparr>, ?s)"
    using h by (simp add: feed_turn_def feed_step_def feed_new_def)
  from feed_run.turn [OF o(2) this, of plain_upload "{#0#}" "answered plain_upload sample_text 0 {(ident, 0)}" "[]"]
  have run: "(feed_run plain_upload sample_context)\<^sup>*\<^sup>* ((?s, {#0#}, answered plain_upload sample_text 0 {(ident, 0)}, 2), ?f, False, [])
      ((?s, {#0#}, answered plain_upload sample_text 0 {(ident, 0)}, 2), ?f\<lparr>pf_ready := True, pf_last_line := 2\<rparr>, False, [Ready])" by simp
  from feed_records_ordered [OF s(1) o(1) sub run] have "sorted_wrt (\<lambda>c d. counters_follows d c) (observed [Ready])" by blast
  with s(1) sub run show ?thesis by blast
qed

theorem feed_no_lost_wakeup_witness:
  "\<exists>s s'. (upload_step plain_upload sample_context)\<^sup>*\<^sup>* (uploads_new [] 0, {#}, {}, 0) s \<and> (upload_step plain_upload sample_context)\<^sup>*\<^sup>* s s' \<and> ag_bytes (up_heap (fst s') ! 0) = 5 \<and>
     (\<exists>f. fst (feed_step 0 (up_heap (fst s') ! 0) f False 9) = Wait)"
proof -
  obtain s ident where s: "(upload_step plain_upload sample_context)\<^sup>*\<^sup>* (uploads_new [] 0, {#}, {}, 0) (s, {#0#}, {(ident, 0)}, 0)" "up_start s = 0"
    "up_heap s = [\<lparr>ag_owner = KeyV4 7, ag_bytes = 0, ag_first = None, ag_lanes = 1, ag_touched = 0, ag_phase = PhaseOpen, ag_reader = 0, ag_notified = 0\<rparr>]"
    by (rule sample_step)
  let ?f = "\<lparr>pf_aggregate = 0, pf_reader = 0, pf_ready = True, pf_ended = False, pf_next_tick = None, pf_last_line = 0\<rparr>"
  let ?s = "on_heap 0 (aggregate_record (up_start s) 5 2) s"
  have "in_order s [0, 2]" using s(2) by (simp add: in_order_def)
  from upload_step.receive [OF this, of 0 "{#0#}" 5] s(3)
  have step: "(upload_step plain_upload sample_context)\<^sup>*\<^sup>* (s, {#0#}, {(ident, 0)}, 0) (?s, {#0#}, {(ident, 0)}, 2)" by (intro r_into_rtranclp) simp
  have w: "feed_step (up_start s) (up_heap s ! 0) ?f False 2 = (Wait, ?f)" using s(3) by (simp add: feed_step_def)
  have h: "ag_notified (up_heap ?s ! 0) = ag_notified (up_heap s ! 0)" "ag_bytes (up_heap ?s ! 0) = 5" "up_start ?s = 0"
    using s(2,3) by (simp_all add: on_heap_def aggregate_record_def)
  from feed_no_lost_wakeup [OF s(1) _ w step h(1), of 9] have "feed_step 0 (up_heap ?s ! 0) ?f False 9 = (Wait, ?f)" using s(3) h(3) by simp
  then show ?thesis using s(1) step h(2) by (metis fst_conv)
qed

end
