(* ===== verification/Download.thy ===== *)
theory Download
  imports Budget Progress
begin

text \<open>
  Download payloads, \<^verbatim>\<open>rust/server/src/engine/download.rs\<close>: one random block that every download repeats. A source is a value, as the
  code clones it; the counts of its transfer are the meter's. The random bytes are an argument.
\<close>

definition BLOCK_BYTES :: nat where "BLOCK_BYTES = 256 * 1024"

record block =
  bl_bytes :: bytes
  bl_lease :: lease

text \<open>\<open>new\<close>: \<open>None\<close> is the error, the budget refusing the block or the system giving no random bytes.\<close>

definition block_new :: "budget \<Rightarrow> bytes option \<Rightarrow> block option \<times> budget" where
  "block_new b random = (case budget_lease b (of_nat BLOCK_BYTES) of
       (None, b) \<Rightarrow> (None, b)
     | (Some lease, b) \<Rightarrow>
         (case random of
            None \<Rightarrow> (None, lease_drop b lease)
          | Some bytes \<Rightarrow> (Some \<lparr>bl_bytes = bytes, bl_lease = lease\<rparr>, b)))"

record download_source =
  ds_block :: bytes
  ds_remaining :: u64
  ds_transfer :: bool
  ds_until :: "nat option"

definition block_source :: "block \<Rightarrow> counts option \<Rightarrow> u64 \<Rightarrow> download_source \<times> counts option" where
  "block_source b m n =
     (let (transfer, m) = (if n > 0 then meter_open m else (False, m))
      in (\<lparr>ds_block = bl_bytes b, ds_remaining = n, ds_transfer = transfer, ds_until = None\<rparr>, m))"

definition source_ending_at :: "download_source \<Rightarrow> nat \<Rightarrow> download_source" where
  "source_ending_at d til = d\<lparr>ds_until := Some til\<rparr>"

definition source_ended :: "download_source \<Rightarrow> nat \<Rightarrow> bool" where
  "source_ended d now \<longleftrightarrow> ds_remaining d = 0 \<or> (case ds_until d of None \<Rightarrow> False | Some til \<Rightarrow> now \<ge> til)"

definition source_peek :: "download_source \<Rightarrow> nat \<Rightarrow> nat \<Rightarrow> bytes option" where
  "source_peek d limit now =
     (if source_ended d now then None
      else let len = min (min (unat (ds_remaining d)) limit) (length (ds_block d))
           in if len > 0 then Some (take len (ds_block d)) else None)"

definition source_sent :: "download_source \<Rightarrow> counts option \<Rightarrow> nat \<Rightarrow> counts option" where
  "source_sent d m n = (if ds_transfer d then map_option (\<lambda>c. transfer_record c (of_nat n)) m else m)"

definition source_next :: "download_source \<Rightarrow> counts option \<Rightarrow> nat \<Rightarrow> nat \<Rightarrow> bytes option \<times> download_source \<times> counts option" where
  "source_next d m limit now = (case source_peek d limit now of
       None \<Rightarrow> (None, d, m)
     | Some chunk \<Rightarrow>
         (Some chunk, d\<lparr>ds_remaining := ds_remaining d - of_nat (length chunk)\<rparr>, source_sent d m (length chunk)))"

definition source_length :: "download_source \<Rightarrow> u64 option" where
  "source_length d = (if ds_until d = None then Some (ds_remaining d) else None)"

subsection \<open>A download delivers exactly its bytes\<close>

text \<open>A transport that takes chunks until there are none: the limits and instants of its calls, in order.\<close>

fun source_drain :: "download_source \<Rightarrow> counts option \<Rightarrow> (nat \<times> nat) list \<Rightarrow> bytes list \<times> download_source \<times> counts option" where
  "source_drain d m [] = ([], d, m)"
| "source_drain d m ((limit, now) # calls) = (case source_next d m limit now of
       (None, d, m) \<Rightarrow> ([], d, m)
     | (Some chunk, d, m) \<Rightarrow> (case source_drain d m calls of (chunks, d, m) \<Rightarrow> (chunk # chunks, d, m)))"

lemma source_next_chunk:
  assumes "source_next d m limit now = (Some chunk, d', m')"
  shows "chunk = take (length chunk) (ds_block d) \<and> 0 < length chunk \<and> length chunk \<le> limit \<and> length chunk \<le> length (ds_block d) \<and>
    length chunk \<le> unat (ds_remaining d) \<and> d' = d\<lparr>ds_remaining := ds_remaining d - of_nat (length chunk)\<rparr> \<and>
    unat (ds_remaining d') = unat (ds_remaining d) - length chunk \<and> m' = source_sent d m (length chunk)"
proof -
  let ?len = "min (min (unat (ds_remaining d)) limit) (length (ds_block d))"
  have c: "chunk = take ?len (ds_block d)" "0 < ?len" and d': "d' = d\<lparr>ds_remaining := ds_remaining d - of_nat (length chunk)\<rparr>"
    and m': "m' = source_sent d m (length chunk)"
    using assms by (auto simp: source_next_def source_peek_def Let_def split: option.splits if_splits)
  then have len: "length chunk = ?len" by simp
  then have "length chunk < 2 ^ 64" using unat_lt64 [of "ds_remaining d"] by simp
  then have u: "unat (of_nat (length chunk) :: u64) = length chunk" by (simp add: unat_of_small)
  have "unat (ds_remaining d') = unat (ds_remaining d) - length chunk"
    using u len unfolding d' by (simp add: unat_sub word_le_nat_alt)
  moreover have "length chunk \<le> limit" "length chunk \<le> unat (ds_remaining d)" using len by linarith+
  moreover have "chunk = take (length chunk) (ds_block d)" using c(1) len by simp
  ultimately show ?thesis using c(2) len d' m' by simp
qed

text \<open>
  C39. However a transport asks, every chunk is a prefix of the block within the limit asked for, and the chunks and what remains add up to
  the bytes of the download. Without a deadline, a source that answers that there is nothing more has handed out
  all of them, if the transport asks for something each time; the meter counts exactly the bytes handed out, modulo \<open>2 ^ 64\<close>.
\<close>

theorem download_exact:
  assumes "source_drain d m calls = (chunks, d', m')"
  shows "length (concat chunks) + unat (ds_remaining d') = unat (ds_remaining d) \<and>
    (\<forall>i < length chunks. chunks ! i = take (length (chunks ! i)) (ds_block d) \<and> 0 < length (chunks ! i) \<and> length (chunks ! i) \<le> fst (calls ! i)) \<and>
    (length chunks < length calls \<longrightarrow> ds_until d = None \<longrightarrow> ds_block d \<noteq> [] \<longrightarrow> (\<forall>(limit, _) \<in> set calls. 0 < limit) \<longrightarrow> ds_remaining d' = 0) \<and>
    (ds_transfer d \<longrightarrow> map_option me_bytes m' = map_option (\<lambda>c. me_bytes c + of_nat (length (concat chunks))) m)"
  using assms
proof (induction calls arbitrary: d m chunks)
  case Nil
  then show ?case by (cases m) auto
next
  case (Cons call calls)
  obtain limit now where call: "call = (limit, now)" by (cases call)
  obtain r d1 m1 where n: "source_next d m limit now = (r, d1, m1)" by (metis prod_cases3)
  show ?case
  proof (cases r)
    case None
    then have "chunks = []" "d' = d" "m' = m" "source_peek d limit now = None" using Cons.prems n call by (auto simp: source_next_def split: option.splits)
    then show ?thesis using call by (cases m) (auto simp: source_peek_def source_ended_def Let_def unat_eq_zero split: if_splits)
  next
    case (Some chunk)
    note c = source_next_chunk [OF n [unfolded Some]]
    obtain cs where cs: "source_drain d1 m1 calls = (cs, d', m')" "chunks = chunk # cs" using Cons.prems n Some call by (auto split: prod.splits)
    have same: "ds_block d1 = ds_block d" "ds_until d1 = ds_until d" "ds_transfer d1 = ds_transfer d" using c by simp_all
    note IH = Cons.IH [OF cs(1)]
    have sum: "length (concat chunks) + unat (ds_remaining d') = unat (ds_remaining d)" 
    proof -
      have "length (concat cs) + unat (ds_remaining d') = unat (ds_remaining d1)" "unat (ds_remaining d1) = unat (ds_remaining d) - length chunk"
        "length chunk \<le> unat (ds_remaining d)" using IH c by blast+
      then show ?thesis unfolding cs(2) by simp
    qed
    have each: "chunks ! i = take (length (chunks ! i)) (ds_block d) \<and> 0 < length (chunks ! i) \<and> length (chunks ! i) \<le> fst ((call # calls) ! i)"
      if "i < length chunks" for i using that IH c cs(2) same call by (cases i) auto
    have meter: "map_option me_bytes m' = map_option (\<lambda>c. me_bytes c + of_nat (length (concat chunks))) m" if "ds_transfer d"
      using that IH c cs(2) same by (cases m) (auto simp: source_sent_def transfer_record_def add.assoc)
    show ?thesis using sum each meter IH same cs(2) call by auto
  qed
qed

theorem download_exact_witness:
  "\<exists>chunks d. source_drain \<lparr>ds_block = [1, 2, 3], ds_remaining = 5, ds_transfer = True, ds_until = None\<rparr> None [(9, 0), (9, 0), (9, 0)] = (chunks, d, None) \<and>
     chunks = [[1, 2, 3], [1, 2]] \<and> ds_remaining d = 0"
proof -
  let ?d = "\<lparr>ds_block = [1, 2, 3], ds_remaining = 5, ds_transfer = True, ds_until = None\<rparr>"
  have r: "source_drain ?d None [(9, 0), (9, 0), (9, 0)] = ([[1, 2, 3], [1, 2]], ?d\<lparr>ds_remaining := 0\<rparr>, None)"
    by (simp add: source_next_def source_peek_def source_ended_def source_sent_def)
  from download_exact [OF this] show ?thesis using r by simp
qed

text \<open>The block is charged to the budget once, and a budget that cannot cover it refuses it and keeps nothing.\<close>

lemma block_charged:
  "block_new b random = (r, b') \<Longrightarrow> b_used b' = (case r of None \<Rightarrow> b_used b | Some _ \<Rightarrow> b_used b + of_nat BLOCK_BYTES)"
  by (auto simp: block_new_def budget_lease_def charge_def lease_drop_def lease_release_def lease_count_def give_back_def split: option.splits if_splits prod.splits)

end
