(* ===== verification/Latency.thy ===== *)
theory Latency
  imports Main "HOL-Library.Multiset"
begin

text \<open>
  The latency statistics of the client, \<^verbatim>\<open>rust/client/src/measure/latency.rs\<close>: a population of probe outcomes, kept as a histogram of
  round trips, its summary, and the probe deadline of RFC 6298. A \<open>Duration\<close> is its nanoseconds, at most \<open>Duration::MAX\<close>; counters
  of outcomes are natural numbers. The \<open>BTreeMap\<close> is an association list in the order of its keys, as it iterates. The ratios in floating point are left out.
\<close>

subsection \<open>Durations\<close>

definition duration_MAX :: nat where
  "duration_MAX = 2 ^ 64 * 1000000000 - 1"

definition dur_add :: "nat \<Rightarrow> nat \<Rightarrow> nat" where
  "dur_add a b = min (a + b) duration_MAX"

definition dur_mul :: "nat \<Rightarrow> nat \<Rightarrow> nat" where
  "dur_mul a n = min (a * n) duration_MAX"

definition abs_diff :: "nat \<Rightarrow> nat \<Rightarrow> nat" where
  "abs_diff a b = (if a < b then b - a else a - b)"

definition div_ceil :: "nat \<Rightarrow> nat \<Rightarrow> nat" where
  "div_ceil a b = (a + b - 1) div b"

subsection \<open>The population\<close>

definition FAILED_MEDIAN_OUTCOMES :: nat where "FAILED_MEDIAN_OUTCOMES = 3"
definition DEADLINE_FLOOR :: nat where "DEADLINE_FLOOR = 250 * 1000000"
definition DEADLINE_CEILING :: nat where "DEADLINE_CEILING = 10 * 1000000000"
definition MIN_RTTVAR :: nat where "MIN_RTTVAR = 1000000"

datatype probe_outcome = Reply nat nat | Timeout | Unresolved | SendFailed

record spread =
  sp_min :: nat
  sp_p10 :: nat
  sp_p90 :: nat
  sp_max :: nat

record timing =
  ti_pairs :: nat
  ti_rtt :: nat
  ti_handling :: nat

record summary =
  su_replies :: nat
  su_timeouts :: nat
  su_unresolved :: nat
  su_send_failures :: nat
  su_p50 :: "nat option"
  su_p95 :: "nat option"
  su_jitter :: "nat option"
  su_jitter_pairs :: nat
  su_timing :: "timing option"
  su_spread :: "spread option"

record latency =
  la_rtts :: "(nat \<times> nat) list"
  la_counts :: summary
  la_previous :: "nat option"
  la_variation :: nat
  la_timed :: nat
  la_timed_rtt :: nat
  la_handling :: nat

definition latency_default :: latency where
  "latency_default = \<lparr>la_rtts = [],
     la_counts = \<lparr>su_replies = 0, su_timeouts = 0, su_unresolved = 0, su_send_failures = 0, su_p50 = None, su_p95 = None,
       su_jitter = None, su_jitter_pairs = 0, su_timing = None, su_spread = None\<rparr>,
     la_previous = None, la_variation = 0, la_timed = 0, la_timed_rtt = 0, la_handling = 0\<rparr>"

text \<open>A round trip to the microsecond.\<close>

definition micros :: "nat \<Rightarrow> nat" where
  "micros rtt = 1000 * min ((rtt + 500) div 1000) (2 ^ 64 - 1)"

text \<open>\<open>*rtts.entry(k).or_default() += 1\<close>.\<close>

fun hist_count :: "nat \<Rightarrow> (nat \<times> nat) list \<Rightarrow> (nat \<times> nat) list" where
  "hist_count k [] = [(k, 1)]"
| "hist_count k ((j, n) # hist) =
     (if k < j then (k, 1) # (j, n) # hist else if k = j then (j, n + 1) # hist else (j, n) # hist_count k hist)"

definition latency_reply :: "latency \<Rightarrow> nat \<Rightarrow> nat \<Rightarrow> latency" where
  "latency_reply l rtt handling =
     (let l = (case la_previous l of
            None \<Rightarrow> l\<lparr>la_previous := Some rtt\<rparr>
          | Some previous \<Rightarrow> l\<lparr>la_previous := Some rtt, la_variation := dur_add (la_variation l) (abs_diff rtt previous),
              la_counts := (la_counts l)\<lparr>su_jitter_pairs := su_jitter_pairs (la_counts l) + 1\<rparr>\<rparr>);
          l = l\<lparr>la_rtts := hist_count (micros rtt) (la_rtts l), la_counts := (la_counts l)\<lparr>su_replies := su_replies (la_counts l) + 1\<rparr>\<rparr>
      in if handling \<le> rtt
         then l\<lparr>la_timed := la_timed l + 1, la_timed_rtt := dur_add (la_timed_rtt l) rtt, la_handling := dur_add (la_handling l) handling\<rparr>
         else l)"

definition latency_record :: "latency \<Rightarrow> probe_outcome \<Rightarrow> latency" where
  "latency_record l outcome = (case outcome of
       Reply rtt handling \<Rightarrow> latency_reply l rtt handling
     | Timeout \<Rightarrow> l\<lparr>la_counts := (la_counts l)\<lparr>su_timeouts := su_timeouts (la_counts l) + 1\<rparr>\<rparr>
     | Unresolved \<Rightarrow> l\<lparr>la_counts := (la_counts l)\<lparr>su_unresolved := su_unresolved (la_counts l) + 1\<rparr>\<rparr>
     | SendFailed \<Rightarrow> l\<lparr>la_counts := (la_counts l)\<lparr>su_send_failures := su_send_failures (la_counts l) + 1\<rparr>\<rparr>)"

definition break_continuity :: "latency \<Rightarrow> latency" where
  "break_continuity l = l\<lparr>la_previous := None\<rparr>"

subsection \<open>The summary\<close>

text \<open>\<open>ranked\<close>: the inner loop over the ranks reached so far, and the walk over the histogram.\<close>

function fill_ranks :: "nat list \<Rightarrow> nat \<Rightarrow> nat \<Rightarrow> nat \<Rightarrow> nat list \<Rightarrow> nat \<times> nat list" where
  "fill_ranks ranks seen rtt next found =
     (if next < length ranks \<and> ranks ! next \<le> seen then fill_ranks ranks seen rtt (next + 1) (found[next := rtt]) else (next, found))"
  by pat_completeness auto
termination by (relation "measure (\<lambda>(ranks, seen, rtt, next, found). length ranks - next)") auto

declare fill_ranks.simps [simp del]

fun ranked_walk :: "nat list \<Rightarrow> (nat \<times> nat) list \<Rightarrow> nat \<Rightarrow> nat \<Rightarrow> nat list \<Rightarrow> nat list" where
  "ranked_walk ranks [] seen next found = found"
| "ranked_walk ranks ((rtt, num) # hist) seen next found =
     (let seen = seen + num; (next, found) = fill_ranks ranks seen rtt next found
      in if next = length ranks then found else ranked_walk ranks hist seen next found)"

definition latency_ranked :: "latency \<Rightarrow> nat list \<Rightarrow> nat list" where
  "latency_ranked l ranks = ranked_walk ranks (la_rtts l) 0 0 (replicate (length ranks) 0)"

definition mean :: "nat \<Rightarrow> nat \<Rightarrow> nat" where
  "mean all num = min (all div num) (2 ^ 64 - 1)"

definition percentile :: "nat \<Rightarrow> nat \<Rightarrow> nat" where
  "percentile replies share = max (div_ceil (share * replies) 100) 1"

definition summary_ranks :: "nat \<Rightarrow> nat list" where
  "summary_ranks replies = [1, percentile replies 10, div_ceil replies 2, replies div 2 + 1, percentile replies 90, percentile replies 95, replies]"

definition latency_summary :: "latency \<Rightarrow> summary" where
  "latency_summary l =
     (let replies = su_replies (la_counts l); pairs = su_jitter_pairs (la_counts l);
          ranked = (if replies > 0 then Some (latency_ranked l (summary_ranks replies)) else None)
      in (la_counts l)\<lparr>
           su_p50 := map_option (\<lambda>r. r ! 2 + (r ! 3 - r ! 2) div 2) ranked,
           su_p95 := map_option (\<lambda>r. r ! 5) ranked,
           su_jitter := (if pairs > 0 then Some (mean (la_variation l) pairs) else None),
           su_timing := (if la_timed l > 0
             then Some \<lparr>ti_pairs = la_timed l, ti_rtt = mean (la_timed_rtt l) (la_timed l), ti_handling = mean (la_handling l) (la_timed l)\<rparr>
             else None),
           su_spread := map_option (\<lambda>r. \<lparr>sp_min = r ! 0, sp_p10 = r ! 1, sp_p90 = r ! 4, sp_max = r ! 6\<rparr>) ranked\<rparr>)"

record population =
  po_summary :: summary
  po_complete :: bool

definition population_median :: "population \<Rightarrow> nat option" where
  "population_median p =
     (let counted = (po_complete p \<or> su_replies (po_summary p) + su_timeouts (po_summary p) \<ge> FAILED_MEDIAN_OUTCOMES)
      in case su_p50 (po_summary p) of Some median \<Rightarrow> if counted then Some median else None | None \<Rightarrow> None)"

subsection \<open>The deadline\<close>

type_synonym deadline = "(nat \<times> nat) option"

definition deadline_get :: "deadline \<Rightarrow> nat" where
  "deadline_get d = (case d of
       None \<Rightarrow> DEADLINE_FLOOR
     | Some (srtt, rttvar) \<Rightarrow> min (max (dur_add srtt (dur_mul (max rttvar MIN_RTTVAR) 4)) DEADLINE_FLOOR) DEADLINE_CEILING)"

definition deadline_observe :: "deadline \<Rightarrow> nat \<Rightarrow> deadline" where
  "deadline_observe d rtt = Some (case d of
       None \<Rightarrow> (rtt, rtt div 2)
     | Some (srtt, rttvar) \<Rightarrow> (dur_add (dur_mul srtt 7) rtt div 8, dur_add (dur_mul rttvar 3) (abs_diff srtt rtt) div 4))"

subsection \<open>The walk finds order statistics\<close>

text \<open>All replies of a histogram, in order.\<close>

definition hist_list :: "(nat \<times> nat) list \<Rightarrow> nat list" where
  "hist_list hist = concat (map (\<lambda>(rtt, num). replicate num rtt) hist)"

lemma hist_list_simps [simp]: "hist_list [] = []" "hist_list ((rtt, num) # hist) = replicate num rtt @ hist_list hist"
  by (simp_all add: hist_list_def)

lemma length_hist_list: "length (hist_list hist) = (\<Sum>(_, num) \<leftarrow> hist. num)"
  by (induction hist) auto

lemma fill_ranks_spec:
  assumes "sorted ranks" "length found = length ranks" "next \<le> length ranks"
  shows "\<exists>next'. fill_ranks ranks seen rtt next found = (next', take next found @ replicate (next' - next) rtt @ drop next' found) \<and>
    next \<le> next' \<and> next' \<le> length ranks \<and> (\<forall>i. next \<le> i \<and> i < next' \<longrightarrow> ranks ! i \<le> seen) \<and> (\<forall>i. next' \<le> i \<and> i < length ranks \<longrightarrow> seen < ranks ! i)"
  using assms
proof (induction ranks seen rtt "next" found rule: fill_ranks.induct)
  case (1 ranks seen rtt "next" found)
  show ?case
  proof (cases "next < length ranks \<and> ranks ! next \<le> seen")
    case True
    from 1 True obtain next' where n: "fill_ranks ranks seen rtt (next + 1) (found[next := rtt]) =
        (next', take (next + 1) (found[next := rtt]) @ replicate (next' - (next + 1)) rtt @ drop next' (found[next := rtt]))"
      "next + 1 \<le> next'" "next' \<le> length ranks" "\<forall>i. next + 1 \<le> i \<and> i < next' \<longrightarrow> ranks ! i \<le> seen" "\<forall>i. next' \<le> i \<and> i < length ranks \<longrightarrow> seen < ranks ! i"
      by (metis Suc_eq_plus1 Suc_leI length_list_update)
    have "take (next + 1) (found[next := rtt]) = take next found @ [rtt]" using True 1(3) by (simp add: take_Suc_conv_app_nth)
    moreover have "replicate (next' - next) rtt = rtt # replicate (next' - (next + 1)) rtt" using n(2) by (metis Suc_diff_le Suc_eq_plus1 diff_Suc_Suc replicate_Suc)
    moreover have "drop next' (found[next := rtt]) = drop next' found" using n(2) by simp
    ultimately have "fill_ranks ranks seen rtt next found = (next', take next found @ replicate (next' - next) rtt @ drop next' found)"
      using n(1) True by (simp add: fill_ranks.simps [of ranks seen rtt "next" found])
    moreover have "\<forall>i. next \<le> i \<and> i < next' \<longrightarrow> ranks ! i \<le> seen" using n(4) True by (metis Suc_eq_plus1 le_neq_implies_less Suc_leI)
    ultimately show ?thesis using n(2,3,5) by (intro exI [of _ next']) simp
  next
    case False
    have "seen < ranks ! i" if "next \<le> i" "i < length ranks" for i
      using False 1(2) that by (metis not_le le_trans sorted_nth_mono le_less_trans)
    moreover have "fill_ranks ranks seen rtt next found = (next, found)" using False by (simp add: fill_ranks.simps [of ranks seen rtt "next" found] split: if_splits) blast
    ultimately show ?thesis using 1(4) by (intro exI [of _ "next"]) simp
  qed
qed

lemma ranked_walk_spec:
  assumes "sorted ranks" "length found = length ranks" "next \<le> length ranks"
    and "\<forall>i. next \<le> i \<and> i < length ranks \<longrightarrow> seen < ranks ! i \<and> ranks ! i \<le> seen + length (hist_list hist)"
  shows "ranked_walk ranks hist seen next found = take next found @ map (\<lambda>k. hist_list hist ! (k - seen - 1)) (drop next ranks)"
  using assms
proof (induction hist arbitrary: seen "next" found)
  case Nil
  have "next = length ranks"
  proof (rule ccontr)
    assume "next \<noteq> length ranks"
    then have "seen < ranks ! next \<and> ranks ! next \<le> seen + length (hist_list [])" using Nil(3,4) by (metis le_neq_implies_less le_refl)
    then show False by auto
  qed
  then show ?case using Nil(2) by simp
next
  case (Cons h hist)
  obtain rtt num where h: "h = (rtt, num)" by (cases h)
  let ?seen = "seen + num" and ?all = "hist_list (h # hist)"
  obtain next' where f: "fill_ranks ranks ?seen rtt next found = (next', take next found @ replicate (next' - next) rtt @ drop next' found)"
    "next \<le> next'" "next' \<le> length ranks" "\<forall>i. next \<le> i \<and> i < next' \<longrightarrow> ranks ! i \<le> ?seen" "\<forall>i. next' \<le> i \<and> i < length ranks \<longrightarrow> ?seen < ranks ! i"
    using fill_ranks_spec [OF Cons(2-4), of ?seen rtt] by blast
  let ?found = "take next found @ replicate (next' - next) rtt @ drop next' found"
  have len: "length ?found = length ranks" using Cons.prems(2,3) f(2,3) by simp
  have part: "replicate (next' - next) rtt = map (\<lambda>k. ?all ! (k - seen - 1)) (take (next' - next) (drop next ranks))"
  proof (rule nth_equalityI)
    show "length (replicate (next' - next) rtt) = length (map (\<lambda>k. ?all ! (k - seen - 1)) (take (next' - next) (drop next ranks)))"
      using f(2,3) by simp
    fix i assume "i < length (replicate (next' - next) rtt)"
    then have i: "next + i < next'" "next + i < length ranks" using f(3) by simp_all
    then have "seen < ranks ! (next + i)" "ranks ! (next + i) \<le> ?seen" using Cons.prems(4) f(4) by simp_all
    then have "ranks ! (next + i) - seen - 1 < num" by linarith
    then have "?all ! (ranks ! (next + i) - seen - 1) = rtt" by (simp add: h nth_append)
    then show "replicate (next' - next) rtt ! i = map (\<lambda>k. ?all ! (k - seen - 1)) (take (next' - next) (drop next ranks)) ! i"
      using i less_diff_conv [of i "length ranks" "next"] less_diff_conv [of i next' "next"] by (simp add: add.commute)
  qed
  have rest: "map (\<lambda>k. hist_list hist ! (k - ?seen - 1)) (drop next' ranks) = map (\<lambda>k. ?all ! (k - seen - 1)) (drop next' ranks)"
  proof (rule map_cong [OF refl])
    fix k assume "k \<in> set (drop next' ranks)"
    then obtain j where j: "j < length (drop next' ranks)" "k = drop next' ranks ! j" by (metis in_set_conv_nth)
    then have "?seen < k" using f(5) by (simp add: less_diff_conv add.commute)
    then have "k - seen - 1 = length (replicate num rtt) + (k - ?seen - 1)" by simp
    then show "hist_list hist ! (k - ?seen - 1) = ?all ! (k - seen - 1)" by (simp only: h hist_list_simps nth_append_length_plus)
  qed
  have split: "drop next ranks = take (next' - next) (drop next ranks) @ drop next' ranks" using f(2) by (metis append_take_drop_id drop_drop le_add_diff_inverse2)
  have keep: "take next' ?found = take next found @ replicate (next' - next) rtt" using f(2,3) Cons.prems(2) by simp
  have "take next found @ map (\<lambda>k. ?all ! (k - seen - 1)) (drop next ranks) =
      (take next found @ replicate (next' - next) rtt) @ map (\<lambda>k. ?all ! (k - seen - 1)) (drop next' ranks)"
    unfolding part by (subst split) simp
  then have goal: "take next found @ map (\<lambda>k. ?all ! (k - seen - 1)) (drop next ranks) =
      take next' ?found @ map (\<lambda>k. hist_list hist ! (k - ?seen - 1)) (drop next' ranks)"
    by (simp only: keep rest)
  show ?case
  proof (cases "next' = length ranks")
    case True
    then show ?thesis using f(1) goal len by (simp add: h)
  next
    case False
    have "\<forall>i. next' \<le> i \<and> i < length ranks \<longrightarrow> ?seen < ranks ! i \<and> ranks ! i \<le> ?seen + length (hist_list hist)"
      using f(2,5) Cons.prems(4) by (simp add: h add.assoc)
    from Cons.IH [OF Cons.prems(1) len f(3) this] show ?thesis using f(1) goal False by (simp add: h)
  qed
qed

subsection \<open>The summary of a population\<close>

definition hist_ok :: "(nat \<times> nat) list \<Rightarrow> bool" where
  "hist_ok hist \<longleftrightarrow> sorted_wrt (<) (map fst hist)"

lemma hist_list_ge: "hist_ok ((j, n) # hist) \<Longrightarrow> x \<in> set (hist_list hist) \<Longrightarrow> j < x"
  by (induction hist arbitrary: n) (auto simp: hist_ok_def)

lemma hist_count_keys: "set (map fst (hist_count k hist)) \<subseteq> insert k (set (map fst hist))"
  by (induction k hist rule: hist_count.induct) auto

lemma hist_count_ok: "hist_ok hist \<Longrightarrow> hist_ok (hist_count k hist)"
proof (induction k hist rule: hist_count.induct)
  case (2 k j n hist)
  then show ?case using hist_count_keys [of k hist] by (fastforce simp: hist_ok_def)
qed (simp add: hist_ok_def)

lemma insort_replicate: "insort k (replicate n k @ xs) = replicate (Suc n) k @ xs" if "\<And>x. x \<in> set xs \<Longrightarrow> k < x" for k :: nat
  using that by (cases n; cases xs) (auto intro: less_imp_le)

lemma sort_snoc: "sort (xs @ [x]) = insort x (sort xs)" for x :: nat
  by (rule properties_for_sort) (simp_all add: sorted_insort)

lemma insort_past: "j < k \<Longrightarrow> insort k (replicate n j @ xs) = replicate n j @ insort k xs" for k :: nat
  by (induction n) auto

lemma hist_list_count: "hist_ok hist \<Longrightarrow> hist_list (hist_count k hist) = insort k (hist_list hist)"
proof (induction k hist rule: hist_count.induct)
  case (1 k)
  then show ?case by simp
next
  case (2 k j n hist)
  have above: "x \<in> set (hist_list hist) \<Longrightarrow> j < x" for x using hist_list_ge [OF 2(2)] .
  have ok: "hist_ok hist" using 2(2) by (simp add: hist_ok_def)
  consider "k < j" | "k = j" | "j < k" by linarith
  then show ?case
  proof cases
    case 1
    then have "\<forall>x \<in> set (replicate n j @ hist_list hist). k < x" using above by fastforce
    then have "insort k (replicate n j @ hist_list hist) = k # replicate n j @ hist_list hist" by (cases "replicate n j @ hist_list hist") auto
    then show ?thesis using 1 by simp
  next
    case 2
    then show ?thesis using insort_replicate [of "hist_list hist" j n] above by simp
  next
    case 3
    then show ?thesis using 2(1) ok insort_past [of j k n "hist_list hist"] by simp
  qed
qed

lemma sorted_hist_list: "hist_ok hist \<Longrightarrow> sorted (hist_list hist)"
proof (induction hist)
  case (Cons h hist)
  obtain j n where h: "h = (j, n)" by (cases h)
  have "sorted (hist_list hist)" using Cons by (simp add: hist_ok_def)
  moreover have "j \<le> x" if "x \<in> set (hist_list hist)" for x using hist_list_ge Cons.prems that unfolding h by (metis less_imp_le)
  ultimately show ?case by (simp add: h sorted_append)
qed simp

text \<open>What a population records, in order, and what the summary is to show of it.\<close>

datatype latency_event = Outcome probe_outcome | Broken

definition latency_event :: "latency \<Rightarrow> latency_event \<Rightarrow> latency" where
  "latency_event l e = (case e of Outcome outcome \<Rightarrow> latency_record l outcome | Broken \<Rightarrow> break_continuity l)"

fun replies :: "latency_event list \<Rightarrow> (nat \<times> nat) list" where
  "replies [] = []"
| "replies (Outcome (Reply rtt handling) # es) = (rtt, handling) # replies es"
| "replies (_ # es) = replies es"

fun variations :: "nat option \<Rightarrow> latency_event list \<Rightarrow> nat list" where
  "variations p [] = []"
| "variations p (Outcome (Reply rtt handling) # es) = (case p of None \<Rightarrow> [] | Some q \<Rightarrow> [abs_diff rtt q]) @ variations (Some rtt) es"
| "variations p (Broken # es) = variations None es"
| "variations p (_ # es) = variations p es"

fun previous :: "nat option \<Rightarrow> latency_event list \<Rightarrow> nat option" where
  "previous p [] = p"
| "previous p (Outcome (Reply rtt handling) # es) = previous (Some rtt) es"
| "previous p (Broken # es) = previous None es"
| "previous p (_ # es) = previous p es"

definition timed :: "latency_event list \<Rightarrow> (nat \<times> nat) list" where
  "timed es = filter (\<lambda>(rtt, handling). handling \<le> rtt) (replies es)"

lemma replies_append [simp]: "replies (es @ fs) = replies es @ replies fs"
  by (induction es rule: replies.induct) simp_all

lemma variations_append: "variations p (es @ fs) = variations p es @ variations (previous p es) fs"
  by (induction p es rule: variations.induct) (auto split: option.splits)

lemma previous_append: "previous p (es @ fs) = previous (previous p es) fs"
  by (induction p es rule: previous.induct) simp_all

lemma dur_add_sat: "dur_add (min a duration_MAX) b = min (a + b) duration_MAX"
  by (auto simp: dur_add_def)

definition latency_shows :: "latency_event list \<Rightarrow> latency \<Rightarrow> bool" where
  "latency_shows es l \<longleftrightarrow> hist_ok (la_rtts l) \<and> hist_list (la_rtts l) = sort (map (micros \<circ> fst) (replies es)) \<and>
     su_replies (la_counts l) = length (replies es) \<and> su_timeouts (la_counts l) = count_list es (Outcome Timeout) \<and>
     su_unresolved (la_counts l) = count_list es (Outcome Unresolved) \<and> su_send_failures (la_counts l) = count_list es (Outcome SendFailed) \<and>
     su_jitter_pairs (la_counts l) = length (variations None es) \<and> la_variation l = min (sum_list (variations None es)) duration_MAX \<and>
     la_previous l = previous None es \<and> la_timed l = length (timed es) \<and>
     la_timed_rtt l = min (sum_list (map fst (timed es))) duration_MAX \<and> la_handling l = min (sum_list (map snd (timed es))) duration_MAX"

lemma latency_shows_event:
  assumes "latency_shows es l"
  shows "latency_shows (es @ [e]) (latency_event l e)"
proof (cases e)
  case (Outcome outcome)
  show ?thesis
  proof (cases outcome)
    case (Reply rtt handling)
    have e: "e = Outcome (Reply rtt handling)" using Outcome Reply by simp
    have h: "hist_ok (hist_count (micros rtt) (la_rtts l))" "hist_list (hist_count (micros rtt) (la_rtts l)) = sort (map (micros \<circ> fst) (replies (es @ [e])))"
      using assms hist_count_ok hist_list_count [of "la_rtts l" "micros rtt"]
      by (simp_all add: latency_shows_def e sort_snoc)
    show ?thesis using assms h
      by (cases "previous None es"; cases "handling \<le> rtt")
        (simp_all add: latency_shows_def latency_event_def latency_record_def latency_reply_def Let_def e variations_append previous_append timed_def dur_add_sat)
  qed (use assms Outcome in \<open>auto simp: latency_shows_def latency_event_def latency_record_def variations_append previous_append timed_def\<close>)
next
  case Broken
  then show ?thesis using assms by (auto simp: latency_shows_def latency_event_def break_continuity_def variations_append previous_append timed_def)
qed

lemma latency_shows_all: "latency_shows es (foldl latency_event latency_default es)"
proof (induction es rule: rev_induct)
  case Nil
  show ?case by (simp add: latency_shows_def latency_default_def hist_ok_def timed_def)
next
  case (snoc e es)
  then show ?case using latency_shows_event by simp
qed

lemma percentile_range: "0 < n \<Longrightarrow> share \<le> 100 \<Longrightarrow> 1 \<le> percentile n share \<and> percentile n share \<le> n"
proof -
  assume "0 < n" "share \<le> 100"
  then have "share * n \<le> 100 * n" by simp
  then have "(share * n + 100 - 1) div 100 \<le> (100 * n + 99) div 100" by (intro div_le_mono) simp
  also have "\<dots> = n" by simp
  finally show ?thesis using \<open>0 < n\<close> by (simp add: percentile_def div_ceil_def)
qed

lemma summary_ranks_sorted: "0 < n \<Longrightarrow> sorted (summary_ranks n)"
  by (auto simp: summary_ranks_def percentile_def div_ceil_def)

lemma summary_ranks_range: "0 < n \<Longrightarrow> k \<in> set (summary_ranks n) \<Longrightarrow> 1 \<le> k \<and> k \<le> n"
  using percentile_range [of n 10] percentile_range [of n 90] percentile_range [of n 95]
  by (auto simp: summary_ranks_def div_ceil_def)

lemma latency_ranked_sorted:
  assumes "sorted ranks" and "\<forall>k \<in> set ranks. 1 \<le> k \<and> k \<le> length (hist_list (la_rtts l))"
  shows "latency_ranked l ranks = map (\<lambda>k. hist_list (la_rtts l) ! (k - 1)) ranks"
proof -
  have "\<forall>i. 0 \<le> i \<and> i < length ranks \<longrightarrow> 0 < ranks ! i \<and> ranks ! i \<le> 0 + length (hist_list (la_rtts l))"
    using assms(2) by (metis One_nat_def add_0 less_eq_Suc_le nth_mem)
  from ranked_walk_spec [OF assms(1) _ _ this, of "replicate (length ranks) 0"] show ?thesis by (simp add: latency_ranked_def)
qed

text \<open>
  C20. The summary of a population is that of the list of its round trips, each rounded to the microsecond, sorted: the median is the middle of the two middle
  replies, the percentiles are nearest ranks, the spread runs from the fastest to the slowest, the jitter is the mean difference
  of successive replies without a break between them, and the timing averages the replies whose handling time fits in their round trip.
\<close>

theorem latency_summary_exact:
  "let s = latency_summary (foldl latency_event latency_default es); xs = sort (map (micros \<circ> fst) (replies es)); n = length (replies es);
       ds = variations None es; ts = timed es
   in su_replies s = n \<and> su_timeouts s = count_list es (Outcome Timeout) \<and>
    su_p50 s = (if n = 0 then None else Some (xs ! (div_ceil n 2 - 1) + (xs ! (n div 2) - xs ! (div_ceil n 2 - 1)) div 2)) \<and>
    su_p95 s = (if n = 0 then None else Some (xs ! (percentile n 95 - 1))) \<and>
    su_spread s = (if n = 0 then None
      else Some \<lparr>sp_min = hd xs, sp_p10 = xs ! (percentile n 10 - 1), sp_p90 = xs ! (percentile n 90 - 1), sp_max = last xs\<rparr>) \<and>
    su_jitter s = (if ds = [] then None else Some (mean (min (sum_list ds) duration_MAX) (length ds))) \<and>
    su_timing s = (if ts = [] then None
      else Some \<lparr>ti_pairs = length ts, ti_rtt = mean (min (sum_list (map fst ts)) duration_MAX) (length ts),
        ti_handling = mean (min (sum_list (map snd ts)) duration_MAX) (length ts)\<rparr>)"
proof -
  let ?l = "foldl latency_event latency_default es"
  define xs where "xs = sort (map (micros \<circ> fst) (replies es))"
  define n where "n = length (replies es)"
  have l: "latency_shows es ?l" by (rule latency_shows_all)
  have hist: "hist_list (la_rtts ?l) = xs" and n: "su_replies (la_counts ?l) = n" and len: "length xs = n"
    using l by (simp_all add: latency_shows_def xs_def n_def)
  have r: "latency_ranked ?l (summary_ranks n) = map (\<lambda>k. xs ! (k - 1)) (summary_ranks n)" if "0 < n"
    using latency_ranked_sorted [OF summary_ranks_sorted [OF that], of ?l] summary_ranks_range [OF that] hist len by simp
  have ends: "xs ! 0 = hd xs" "xs ! (n - 1) = last xs" if "0 < n" using that len by (metis hd_conv_nth length_greater_0_conv, metis last_conv_nth length_greater_0_conv)
  let ?s = "latency_summary ?l"
  have "su_replies ?s = n" "su_timeouts ?s = count_list es (Outcome Timeout)"
    using l n by (simp_all add: latency_summary_def Let_def latency_shows_def)
  moreover have "su_jitter ?s = (if variations None es = [] then None else Some (mean (min (sum_list (variations None es)) duration_MAX) (length (variations None es))))"
    using l by (simp add: latency_summary_def Let_def latency_shows_def)
  moreover have "su_timing ?s = (if timed es = [] then None
      else Some \<lparr>ti_pairs = length (timed es), ti_rtt = mean (min (sum_list (map fst (timed es))) duration_MAX) (length (timed es)),
        ti_handling = mean (min (sum_list (map snd (timed es))) duration_MAX) (length (timed es))\<rparr>)"
    using l by (simp add: latency_summary_def Let_def latency_shows_def)
  moreover have "su_p50 ?s = (if n = 0 then None else Some (xs ! (div_ceil n 2 - 1) + (xs ! (n div 2) - xs ! (div_ceil n 2 - 1)) div 2))"
    "su_p95 ?s = (if n = 0 then None else Some (xs ! (percentile n 95 - 1)))"
    using n r by (simp_all add: latency_summary_def Let_def summary_ranks_def)
  moreover have "su_spread ?s = (if n = 0 then None
      else Some \<lparr>sp_min = hd xs, sp_p10 = xs ! (percentile n 10 - 1), sp_p90 = xs ! (percentile n 90 - 1), sp_max = last xs\<rparr>)"
    using n r ends by (simp add: latency_summary_def Let_def summary_ranks_def)
  ultimately show ?thesis unfolding Let_def xs_def [symmetric] n_def [symmetric] by blast
qed

text \<open>The deadline stays within its bounds whatever replies it learns from.\<close>

lemma deadline_bounds: "DEADLINE_FLOOR \<le> deadline_get d \<and> deadline_get d \<le> DEADLINE_CEILING"
  by (auto simp: deadline_get_def DEADLINE_FLOOR_def DEADLINE_CEILING_def split: option.splits)

text \<open>A steady round trip is learnt as it is, and its variation decays.\<close>

lemma deadline_steady: "deadline_observe (Some (rtt, v)) rtt = Some (rtt, 3 * v div 4)" if "8 * rtt \<le> duration_MAX" "3 * v \<le> duration_MAX"
  using that by (simp add: deadline_observe_def dur_add_def dur_mul_def abs_diff_def)

end
