(* ===== verification/Throughput.thy ===== *)
theory Throughput
  imports Uploads
begin

text \<open>
  A stage's throughput, \<^verbatim>\<open>rust/client/src/measure/aggregate.rs\<close>: boundaries of counters in, intervals with their evidence and a headline out. Instants and durations are
  nanoseconds. Rates are 64-bit floating point numbers; what the code does with them (a quotient, a sum, a maximum, zero) is the parameter \<open>rates\<close>, so everything about
  them holds whatever it answers. Servers are named by text.
\<close>

subsection \<open>The model: boundaries and windows\<close>

definition MIN_EVIDENCE :: nat where "MIN_EVIDENCE = 800 * 1000000"
definition MIN_PEAK :: nat where "MIN_PEAK = 500 * 1000000"
definition MAX_INTERVALS :: nat where "MAX_INTERVALS = 128"

datatype direction = Down | Up

record 'a dir =
  dr_down :: 'a
  dr_up :: 'a

definition dir_at :: "'a dir \<Rightarrow> direction \<Rightarrow> 'a" where
  "dir_at d x = (case x of Down \<Rightarrow> dr_down d | Up \<Rightarrow> dr_up d)"

definition dir_both :: "'a \<Rightarrow> 'a dir" where
  "dir_both a = \<lparr>dr_down = a, dr_up = a\<rparr>"

datatype meter_stage = LatencyStage | DownloadStage | UploadStage | Bidirectional

definition stage_moves :: "meter_stage \<Rightarrow> direction \<Rightarrow> bool" where
  "stage_moves stage x \<longleftrightarrow> x \<in> set (case stage of LatencyStage \<Rightarrow> [] | DownloadStage \<Rightarrow> [Down] | UploadStage \<Rightarrow> [Up] | Bidirectional \<Rightarrow> [Down, Up])"

record 'f rates =
  ra_quotient :: "nat \<Rightarrow> nat \<Rightarrow> 'f"
  ra_sum :: "'f list \<Rightarrow> 'f"
  ra_max :: "'f \<Rightarrow> 'f \<Rightarrow> 'f"
  ra_zero :: 'f

type_synonym server_id = string

record receiver =
  rc_id :: nat
  rc_counters :: counters

record fed =
  fd_id :: nat
  fd_bytes :: u64

record reading =
  rd_server :: server_id
  rd_down :: "u64 option"
  rd_up :: "receiver option"
  rd_fed :: "fed option"

record boundary =
  bd_at :: nat
  bd_stalled :: bool
  bd_last :: bool
  bd_readings :: "reading list"

definition boundary_reading :: "boundary \<Rightarrow> server_id \<Rightarrow> reading option" where
  "boundary_reading b server = find (\<lambda>r. rd_server r = server) (bd_readings b)"

datatype reason = StageStart | Dropout | EvidenceResumed

record 'f component =
  cp_bytes :: nat
  cp_duration :: nat
  cp_rate :: 'f

record 'f window =
  wd_start :: nat
  wd_end :: nat
  wd_components :: "'f component list dir"
  wd_rates :: "'f option dir"

definition window_all :: "'f window \<Rightarrow> 'f component list" where
  "window_all w = dr_down (wd_components w) @ dr_up (wd_components w)"

definition window_shortest :: "'f window \<Rightarrow> nat" where
  "window_shortest w = foldl min (wd_end w - wd_start w) (map cp_duration (dr_up (wd_components w)))"

datatype gap = StaleGap | BrokenGap

definition component_of :: "'f rates \<Rightarrow> nat \<Rightarrow> nat \<Rightarrow> 'f component" where
  "component_of fl n duration = \<lparr>cp_bytes = n, cp_duration = duration, cp_rate = ra_quotient fl n duration\<rparr>"

definition component_down :: "'f rates \<Rightarrow> nat \<Rightarrow> reading \<Rightarrow> reading \<Rightarrow> 'f component option" where
  "component_down fl elapsed first end = (case (rd_down first, rd_down end) of
       (Some a, Some b) \<Rightarrow> if b < a then None else Some (component_of fl (unat b - unat a) elapsed)
     | _ \<Rightarrow> None)"

definition component_up :: "'f rates \<Rightarrow> reading \<Rightarrow> reading \<Rightarrow> 'f component option" where
  "component_up fl first end = (case (rd_up first, rd_up end) of
       (Some a, Some b) \<Rightarrow>
         if rc_id a \<noteq> rc_id b \<or> \<not> counters_follows (rc_counters b) (rc_counters a) then None
         else Some (component_of fl (unat (co_bytes (rc_counters b)) - unat (co_bytes (rc_counters a)))
           (unat (co_nanos (rc_counters b)) - unat (co_nanos (rc_counters a))))
     | _ \<Rightarrow> None)"

text \<open>The components of the participants; \<open>None\<close> is a broken gap. The code marks a window stale where a receiver's clock stood still.\<close>

fun collect :: "('a \<Rightarrow> 'b option) \<Rightarrow> 'a list \<Rightarrow> 'b list option" where
  "collect f [] = Some []"
| "collect f (x # xs) = (case f x of None \<Rightarrow> None | Some y \<Rightarrow> map_option ((#) y) (collect f xs))"

definition pair_readings :: "boundary \<Rightarrow> boundary \<Rightarrow> server_id \<Rightarrow> (reading \<times> reading) option" where
  "pair_readings first end server = (case (boundary_reading first server, boundary_reading end server) of (Some a, Some b) \<Rightarrow> Some (a, b) | _ \<Rightarrow> None)"

definition window_rate :: "'f rates \<Rightarrow> 'f component list \<Rightarrow> 'f option" where
  "window_rate fl cs = (if cs = [] then None else Some (ra_sum fl (map cp_rate cs)))"

definition window_of :: "'f rates \<Rightarrow> meter_stage \<Rightarrow> server_id list \<Rightarrow> boundary \<Rightarrow> boundary \<Rightarrow> gap + 'f window" where
  "window_of fl stage participants first end =
     (let elapsed = bd_at end - bd_at first
      in if elapsed = 0 then Inl StaleGap
         else case collect (pair_readings first end) participants of
             None \<Rightarrow> Inl BrokenGap
           | Some pairs \<Rightarrow>
               (case (collect (\<lambda>(a, b). component_down fl elapsed a b) (if stage_moves stage Down then pairs else []),
                      collect (\<lambda>(a, b). component_up fl a b) (if stage_moves stage Up then pairs else [])) of
                  (Some downs, Some ups) \<Rightarrow>
                    if \<exists>c\<in>set ups. cp_duration c = 0 then Inl StaleGap
                    else Inr \<lparr>wd_start = bd_at first, wd_end = bd_at end, wd_components = \<lparr>dr_down = downs, dr_up = ups\<rparr>,
                      wd_rates = \<lparr>dr_down = window_rate fl downs, dr_up = window_rate fl ups\<rparr>\<rparr>
                | _ \<Rightarrow> Inl BrokenGap))"

subsection \<open>The model: intervals\<close>

record 'f peaks =
  pk_combined :: "'f dir"
  pk_servers :: "'f dir list"

definition peaks_default :: "'f rates \<Rightarrow> 'f peaks" where
  "peaks_default fl = \<lparr>pk_combined = dir_both (ra_zero fl), pk_servers = []\<rparr>"

definition dir_set :: "direction \<Rightarrow> 'a \<Rightarrow> 'a dir \<Rightarrow> 'a dir" where
  "dir_set x a d = (case x of Down \<Rightarrow> d\<lparr>dr_down := a\<rparr> | Up \<Rightarrow> d\<lparr>dr_up := a\<rparr>)"

fun raise_peaks :: "'f rates \<Rightarrow> direction \<Rightarrow> 'f dir list \<Rightarrow> 'f component list \<Rightarrow> 'f dir list" where
  "raise_peaks fl x (p # ps) (c # cs) = dir_set x (ra_max fl (dir_at p x) (cp_rate c)) p # raise_peaks fl x ps cs"
| "raise_peaks fl x ps cs = ps"

definition peaks_direction :: "'f rates \<Rightarrow> 'f window \<Rightarrow> direction \<Rightarrow> 'f peaks \<Rightarrow> 'f peaks" where
  "peaks_direction fl w x p =
     (let cs = dir_at (wd_components w) x;
          combined = (case dir_at (wd_rates w) x of None \<Rightarrow> pk_combined p | Some rate \<Rightarrow> dir_set x (ra_max fl (dir_at (pk_combined p) x) rate) (pk_combined p));
          servers = pk_servers p @ replicate (length cs - length (pk_servers p)) (dir_both (ra_zero fl))
      in \<lparr>pk_combined = combined, pk_servers = raise_peaks fl x servers cs\<rparr>)"

definition peaks_record :: "'f rates \<Rightarrow> 'f window \<Rightarrow> 'f peaks \<Rightarrow> 'f peaks" where
  "peaks_record fl w p = peaks_direction fl w Up (peaks_direction fl w Down p)"

record 'f interval =
  iv_reason :: reason
  iv_participants :: "server_id list"
  iv_start :: nat
  iv_end :: nat
  iv_complete :: bool
  iv_window :: "'f window option"
  iv_peaks :: "'f peaks"

record 'f mark =
  mk_boundary :: boundary
  mk_window :: "'f window option"
  mk_peaks :: "'f peaks"

definition mark_of :: "boundary \<Rightarrow> 'f interval \<Rightarrow> 'f mark" where
  "mark_of b iv = \<lparr>mk_boundary = b, mk_window = iv_window iv, mk_peaks = iv_peaks iv\<rparr>"

record 'f opened =
  op_first :: boundary
  op_last :: boundary
  op_peak_from :: boundary
  op_moved :: "'f mark option dir list"

record ledger =
  lg_server :: server_id
  lg_down :: "u64 option"
  lg_up :: "fed option"
  lg_bytes :: "nat dir"

text \<open>\<open>intervals\<close> is never empty: its last element, the running interval, is kept apart from the earlier ones.\<close>

record 'f measure =
  ms_stage :: meter_stage
  ms_earlier :: "'f interval list"
  ms_running :: "'f interval"
  ms_begun :: nat
  ms_ledgers :: "ledger list"
  ms_open :: "'f opened option"
  ms_latest :: "boundary option"

definition interval_new :: "'f rates \<Rightarrow> reason \<Rightarrow> server_id list \<Rightarrow> nat \<Rightarrow> 'f interval" where
  "interval_new fl reason participants at =
     \<lparr>iv_reason = reason, iv_participants = participants, iv_start = at, iv_end = at, iv_complete = True, iv_window = None, iv_peaks = peaks_default fl\<rparr>"

definition measure_intervals :: "'f measure \<Rightarrow> 'f interval list" where
  "measure_intervals m = ms_earlier m @ [ms_running m]"

definition measure_restart :: "'f rates \<Rightarrow> 'f measure \<Rightarrow> reason \<Rightarrow> server_id list \<Rightarrow> nat \<Rightarrow> 'f measure" where
  "measure_restart fl m reason participants at =
     (let intervals = measure_intervals m;
          earlier = (if length intervals = MAX_INTERVALS then tl intervals else intervals)
      in m\<lparr>ms_earlier := earlier, ms_begun := ms_begun m + 1, ms_running := interval_new fl reason participants at, ms_open := None\<rparr>)"

definition measure_new :: "'f rates \<Rightarrow> meter_stage \<Rightarrow> server_id list \<Rightarrow> nat \<Rightarrow> 'f measure" where
  "measure_new fl stage participants at =
     \<lparr>ms_stage = stage, ms_earlier = [], ms_running = interval_new fl StageStart participants at, ms_begun = 1,
      ms_ledgers = map (\<lambda>server. \<lparr>lg_server = server, lg_down = None, lg_up = None, lg_bytes = dir_both 0\<rparr>) participants,
      ms_open = None, ms_latest = None\<rparr>"

definition measure_start :: "'f measure \<Rightarrow> boundary \<Rightarrow> 'f measure" where
  "measure_start m b =
     (let iv = (ms_running m)\<lparr>iv_start := bd_at b, iv_end := bd_at b\<rparr>; mark = mark_of b iv;
          moved = \<lparr>dr_down = if stage_moves (ms_stage m) Down then Some mark else None, dr_up = if stage_moves (ms_stage m) Up then Some mark else None\<rparr>
      in m\<lparr>ms_running := iv, ms_open := Some \<lparr>op_first = b, op_last = b, op_peak_from = b, op_moved = replicate (length (iv_participants iv)) moved\<rparr>\<rparr>)"

definition measure_resume :: "'f rates \<Rightarrow> 'f measure \<Rightarrow> boundary \<Rightarrow> 'f measure" where
  "measure_resume fl m b =
     measure_restart fl (m\<lparr>ms_running := (ms_running m)\<lparr>iv_complete := False\<rparr>\<rparr>) EvidenceResumed (iv_participants (ms_running m)) (bd_at b)"

definition sat_add :: "nat \<Rightarrow> nat \<Rightarrow> nat" where
  "sat_add a b = min (a + b) (2 ^ 64 - 1)"

definition credit_fed :: "ledger \<Rightarrow> fed \<Rightarrow> ledger" where
  "credit_fed l fed =
     (let put = (\<lambda>added. l\<lparr>lg_bytes := dir_set Up (sat_add (dr_up (lg_bytes l)) added) (lg_bytes l), lg_up := Some fed\<rparr>)
      in case lg_up l of
          None \<Rightarrow> put 0
        | Some current \<Rightarrow>
            if fd_id fed < fd_id current \<or> fd_id fed = fd_id current \<and> fd_bytes fed \<le> fd_bytes current then l
            else if fd_id fed = fd_id current then put (unat (fd_bytes fed) - unat (fd_bytes current))
            else put (unat (fd_bytes fed)))"

definition credit_down :: "ledger \<Rightarrow> u64 \<Rightarrow> ledger" where
  "credit_down l n =
     (let high = (case lg_down l of Some high \<Rightarrow> high | None \<Rightarrow> n)
      in l\<lparr>lg_down := Some (max high n), lg_bytes := dir_set Down (sat_add (dr_down (lg_bytes l)) (unat n - unat high)) (lg_bytes l)\<rparr>)"

definition checkpoint_of :: "receiver \<Rightarrow> fed" where
  "checkpoint_of up = \<lparr>fd_id = rc_id up, fd_bytes = co_bytes (rc_counters up)\<rparr>"

definition reading_feds :: "reading \<Rightarrow> fed list" where
  "reading_feds r = (case rd_fed r of Some fed \<Rightarrow> [fed] | None \<Rightarrow> []) @ (case rd_up r of Some up \<Rightarrow> [checkpoint_of up] | None \<Rightarrow> [])"

definition credit_reading_to :: "ledger \<Rightarrow> reading \<Rightarrow> ledger" where
  "credit_reading_to l r = foldl credit_fed (case rd_down r of Some n \<Rightarrow> credit_down l n | None \<Rightarrow> l) (reading_feds r)"

text \<open>The reading is credited to the first ledger of its server, if there is one.\<close>

fun credit_first :: "ledger list \<Rightarrow> reading \<Rightarrow> ledger list" where
  "credit_first [] r = []"
| "credit_first (l # ls) r = (if lg_server l = rd_server r then credit_reading_to l r # ls else l # credit_first ls r)"

definition measure_credit :: "'f measure \<Rightarrow> boundary \<Rightarrow> 'f measure" where
  "measure_credit m b = m\<lparr>ms_ledgers := foldl credit_first (ms_ledgers m) (bd_readings b)\<rparr>"

definition boundary_complete :: "'f measure \<Rightarrow> boundary \<Rightarrow> bool" where
  "boundary_complete m b \<longleftrightarrow> iv_participants (ms_running m) \<noteq> [] \<and> list_all (\<lambda>server. case boundary_reading b server of
       None \<Rightarrow> False
     | Some r \<Rightarrow> (stage_moves (ms_stage m) Down \<longrightarrow> rd_down r \<noteq> None) \<and> (stage_moves (ms_stage m) Up \<longrightarrow> rd_up r \<noteq> None)) (iv_participants (ms_running m))"

fun mark_moved :: "direction \<Rightarrow> 'f mark \<Rightarrow> 'f mark option dir list \<Rightarrow> 'f component list \<Rightarrow> 'f mark option dir list" where
  "mark_moved x mark (d # ds) (c # cs) = (if cp_bytes c > 0 then dir_set x (Some mark) d else d) # mark_moved x mark ds cs"
| "mark_moved x mark ds cs = ds"

definition extend_peak :: "'f rates \<Rightarrow> 'f measure \<Rightarrow> 'f opened \<Rightarrow> boundary \<Rightarrow> 'f window option" where
  "extend_peak fl m op b = (case window_of fl (ms_stage m) (iv_participants (ms_running m)) (op_peak_from op) b of
       Inr w \<Rightarrow> if window_shortest w \<ge> MIN_PEAK then Some w else None
     | Inl _ \<Rightarrow> None)"

definition extend_interval :: "'f rates \<Rightarrow> 'f interval \<Rightarrow> boundary \<Rightarrow> 'f window option \<Rightarrow> 'f window \<Rightarrow> 'f interval" where
  "extend_interval fl iv b peak full = iv\<lparr>iv_end := bd_at b, iv_window := Some full,
     iv_peaks := (case peak of Some w \<Rightarrow> peaks_record fl w (iv_peaks iv) | None \<Rightarrow> iv_peaks iv)\<rparr>"

definition measure_extend :: "'f rates \<Rightarrow> 'f measure \<Rightarrow> 'f opened \<Rightarrow> boundary \<Rightarrow> 'f window \<Rightarrow> 'f window \<Rightarrow> 'f measure" where
  "measure_extend fl m op b sample full =
     (let peak = extend_peak fl m op b; iv = extend_interval fl (ms_running m) b peak full; mark = mark_of b iv;
          moved = mark_moved Up mark (mark_moved Down mark (op_moved op) (dr_down (wd_components sample))) (dr_up (wd_components sample))
      in m\<lparr>ms_running := iv, ms_open := Some (op\<lparr>op_last := b, op_peak_from := (if peak = None then op_peak_from op else b), op_moved := moved\<rparr>)\<rparr>)"

text \<open>\<open>observe\<close> with \<open>resume\<close>, which calls it again: the second call finds no open interval.\<close>

function observe :: "'f rates \<Rightarrow> 'f measure \<Rightarrow> boundary \<Rightarrow> 'f window option \<times> 'f measure" where
  "observe fl m b =
     (let m = (measure_credit m b)\<lparr>ms_latest := Some b\<rparr>; participants = iv_participants (ms_running m)
      in case ms_open m of
          None \<Rightarrow> (None, if boundary_complete m b then measure_start m b else m)
        | Some op \<Rightarrow>
            if bd_stalled b then observe fl (measure_resume fl m b) b
            else if \<not> boundary_complete m b then (None, m)
            else case window_of fl (ms_stage m) participants (op_last op) b of
                Inl BrokenGap \<Rightarrow> observe fl (measure_resume fl m b) b
              | Inl StaleGap \<Rightarrow> (None, m)
              | Inr sample \<Rightarrow>
                  if bd_last b \<and> \<not> list_all (\<lambda>c. cp_bytes c > 0) (window_all sample) then (None, m)
                  else case window_of fl (ms_stage m) participants (op_first op) b of
                      Inl _ \<Rightarrow> observe fl (measure_resume fl m b) b
                    | Inr full \<Rightarrow> (Some sample, measure_extend fl m op b sample full))"
  by pat_completeness auto

lemma resume_open [simp]: "ms_open (measure_resume fl m b) = None" "ms_open (measure_credit m b) = ms_open m"
  by (simp_all add: measure_resume_def measure_restart_def measure_credit_def Let_def)

termination observe
  by (relation "measure (\<lambda>(fl, m, b). if ms_open m = None then 0 else 1)") auto

declare observe.simps [simp del]

fun earliest :: "'f mark list \<Rightarrow> 'f mark option" where
  "earliest [] = None"
| "earliest (m # ms) = (case earliest ms of Some n \<Rightarrow> Some (if bd_at (mk_boundary n) < bd_at (mk_boundary m) then n else m) | None \<Rightarrow> Some m)"

definition departed_marks :: "'f measure \<Rightarrow> server_id list \<Rightarrow> 'f mark list" where
  "departed_marks m survivors =
     (let moved = (case ms_open m of Some op \<Rightarrow> op_moved op | None \<Rightarrow> [])
      in concat (map (\<lambda>(_, d). (case dr_down d of Some k \<Rightarrow> [k] | None \<Rightarrow> []) @ (case dr_up d of Some k \<Rightarrow> [k] | None \<Rightarrow> []))
           (filter (\<lambda>(server, _). server \<notin> set survivors) (zip (iv_participants (ms_running m)) moved))))"

definition measure_restore :: "'f measure \<Rightarrow> 'f mark \<Rightarrow> 'f measure" where
  "measure_restore m mark =
     m\<lparr>ms_running := (ms_running m)\<lparr>iv_end := bd_at (mk_boundary mark), iv_window := mk_window mark, iv_peaks := mk_peaks mark\<rparr>\<rparr>"

definition dropout :: "'f rates \<Rightarrow> 'f measure \<Rightarrow> server_id list \<Rightarrow> nat \<Rightarrow> 'f measure" where
  "dropout fl m survivors at =
     (if length survivors = length (iv_participants (ms_running m)) then m
      else case earliest (departed_marks m survivors) of
          None \<Rightarrow> if survivors = [] then m else measure_restart fl m Dropout survivors at
        | Some mark \<Rightarrow>
            if survivors = [] then measure_restore m mark
            else let m' = measure_start (measure_restart fl (measure_restore m mark) Dropout survivors (bd_at (mk_boundary mark))) (mk_boundary mark)
                 in case ms_latest m of
                     Some latest \<Rightarrow> if bd_at latest > bd_at (mk_boundary mark) then snd (observe fl m' latest) else m'
                   | None \<Rightarrow> m')"

subsection \<open>The model: headlines\<close>

record 'f rate =
  rt_mean :: 'f
  rt_peak :: 'f

definition evidence :: "'f component list \<Rightarrow> bool" where
  "evidence cs \<longleftrightarrow> cs \<noteq> [] \<and> list_all (\<lambda>c. cp_duration c \<ge> MIN_EVIDENCE) cs \<and> list_ex (\<lambda>c. cp_bytes c > 0) cs"

fun find_map :: "('a \<Rightarrow> 'b option) \<Rightarrow> 'a list \<Rightarrow> 'b option" where
  "find_map f [] = None"
| "find_map f (x # xs) = (case f x of Some y \<Rightarrow> Some y | None \<Rightarrow> find_map f xs)"

text \<open>The complete intervals that have a window, the latest first.\<close>

definition measure_counted :: "'f measure \<Rightarrow> ('f interval \<times> 'f window) list" where
  "measure_counted m = concat (map (\<lambda>iv. case iv_window iv of Some w \<Rightarrow> [(iv, w)] | None \<Rightarrow> []) (filter iv_complete (rev (measure_intervals m))))"

definition measure_result :: "'f rates \<Rightarrow> 'f measure \<Rightarrow> direction \<Rightarrow> 'f rate option" where
  "measure_result fl m x = find_map (\<lambda>(iv, w).
     let enough = iv_end iv - iv_start iv \<ge> MIN_EVIDENCE \<and> evidence (dir_at (wd_components w) x)
     in case dir_at (wd_rates w) x of
         Some mean \<Rightarrow> if enough then Some \<lparr>rt_mean = mean, rt_peak = ra_max fl (dir_at (pk_combined (iv_peaks iv)) x) mean\<rparr> else None
       | None \<Rightarrow> None) (measure_counted m)"

fun position :: "'a \<Rightarrow> 'a list \<Rightarrow> nat option" where
  "position a [] = None"
| "position a (x # xs) = (if x = a then Some 0 else map_option Suc (position a xs))"

definition measure_server :: "'f rates \<Rightarrow> 'f measure \<Rightarrow> server_id \<Rightarrow> direction \<Rightarrow> 'f rate option" where
  "measure_server fl m server x = find_map (\<lambda>(iv, w). case position server (iv_participants iv) of
       None \<Rightarrow> None
     | Some i \<Rightarrow>
         if i \<ge> length (dir_at (wd_components w) x) then None
         else let c = dir_at (wd_components w) x ! i;
                  peak = (if i < length (pk_servers (iv_peaks iv)) then dir_at (pk_servers (iv_peaks iv) ! i) x else ra_zero fl)
              in if evidence [c] then Some \<lparr>rt_mean = cp_rate c, rt_peak = ra_max fl peak (cp_rate c)\<rparr> else None) (measure_counted m)"

definition measure_bytes :: "'f measure \<Rightarrow> server_id \<Rightarrow> direction \<Rightarrow> nat" where
  "measure_bytes m server x = (case find (\<lambda>l. lg_server l = server) (ms_ledgers m) of Some l \<Rightarrow> dir_at (lg_bytes l) x | None \<Rightarrow> 0)"

definition measure_total :: "'f measure \<Rightarrow> direction \<Rightarrow> nat" where
  "measure_total m x = foldl sat_add 0 (map (\<lambda>l. dir_at (lg_bytes l) x) (ms_ledgers m))"

subsection \<open>Runs\<close>

datatype measure_op = Observed boundary | Departed "server_id list" nat

fun measure_step :: "'f rates \<Rightarrow> 'f measure \<Rightarrow> measure_op \<Rightarrow> 'f measure" where
  "measure_step fl m (Observed b) = snd (observe fl m b)"
| "measure_step fl m (Departed survivors at) = dropout fl m survivors at"

definition measure_run :: "'f rates \<Rightarrow> meter_stage \<Rightarrow> server_id list \<Rightarrow> nat \<Rightarrow> measure_op list \<Rightarrow> 'f measure" where
  "measure_run fl stage participants at ops = foldl (measure_step fl) (measure_new fl stage participants at) ops"

fun op_boundaries :: "measure_op list \<Rightarrow> boundary list" where
  "op_boundaries [] = []"
| "op_boundaries (Observed b # ops) = b # op_boundaries ops"
| "op_boundaries (Departed _ _ # ops) = op_boundaries ops"

lemma measure_run_snoc [simp]: "measure_run fl stage participants at (ops @ [x]) = measure_step fl (measure_run fl stage participants at ops) x"
  by (simp add: measure_run_def)

lemma op_boundaries_append [simp]: "op_boundaries (xs @ ys) = op_boundaries xs @ op_boundaries ys"
  by (induction xs rule: op_boundaries.induct) simp_all

definition noted :: "'f measure \<Rightarrow> boundary \<Rightarrow> 'f measure" where
  "noted m b = (measure_credit m b)\<lparr>ms_latest := Some b\<rparr>"

lemma noted_parts [simp]: "ms_open (noted m b) = ms_open m" "ms_stage (noted m b) = ms_stage m" "ms_running (noted m b) = ms_running m"
  "ms_earlier (noted m b) = ms_earlier m" "ms_latest (noted m b) = Some b"
  by (simp_all add: noted_def measure_credit_def)

lemma restart_parts [simp]:
  "ms_stage (measure_restart fl m reason participants at) = ms_stage m" "ms_latest (measure_restart fl m reason participants at) = ms_latest m"
  "ms_open (measure_restart fl m reason participants at) = None" "ms_running (measure_restart fl m reason participants at) = interval_new fl reason participants at"
  "ms_ledgers (measure_restart fl m reason participants at) = ms_ledgers m"
  by (simp_all add: measure_restart_def Let_def)

lemma observe_cases:
  assumes "ms_open m = None \<Longrightarrow> boundary_complete (noted m b) b \<Longrightarrow> P (None, measure_start (noted m b) b)" and "P (None, noted m b)"
    and "\<And>op. ms_open m = Some op \<Longrightarrow> P (observe fl (measure_resume fl (noted m b) b) b)"
    and "\<And>op sample full. ms_open m = Some op \<Longrightarrow> window_of fl (ms_stage m) (iv_participants (ms_running m)) (op_last op) b = Inr sample \<Longrightarrow>
      window_of fl (ms_stage m) (iv_participants (ms_running m)) (op_first op) b = Inr full \<Longrightarrow> P (Some sample, measure_extend fl (noted m b) op b sample full)"
  shows "P (observe fl m b)"
proof (cases "ms_open m")
  case None
  then show ?thesis using assms(1,2) by (subst observe.simps) (simp add: Let_def noted_def [symmetric])
next
  case (Some op)
  show ?thesis using assms(2) assms(3,4) [OF Some] Some
    by (subst observe.simps) (simp add: Let_def noted_def [symmetric] split: sum.split gap.split)
qed

text \<open>
  What an invariant of the measure has to withstand: the parts of \<open>observe\<close> and \<open>dropout\<close>. \<open>fits\<close> is what a boundary has to be like, \<open>stays\<close> what survivors have to be like.
\<close>

definition dir_marks :: "'f mark option dir \<Rightarrow> 'f mark set" where
  "dir_marks d = set_option (dr_down d) \<union> set_option (dr_up d)"

definition open_marks :: "'f opened \<Rightarrow> 'f mark set" where
  "open_marks op = \<Union> (dir_marks ` set (op_moved op))"

locale measure_invariant =
  fixes fl :: "'f rates" and keeps :: "'f measure \<Rightarrow> bool" and fits :: "'f measure \<Rightarrow> boundary \<Rightarrow> bool" and stays :: "server_id list \<Rightarrow> bool"
  assumes noting: "keeps m \<Longrightarrow> fits m b \<Longrightarrow> keeps (noted m b) \<and> fits (noted m b) b"
    and unopened: "keeps m \<Longrightarrow> ms_open m = None \<Longrightarrow> iv_window (ms_running m) = None"
    and start: "keeps m \<Longrightarrow> fits m b \<Longrightarrow> iv_window (ms_running m) = None \<Longrightarrow> keeps (measure_start m b)"
    and resume: "keeps m \<Longrightarrow> fits m b \<Longrightarrow> keeps (measure_resume fl m b) \<and> fits (measure_resume fl m b) b"
    and extend: "keeps m \<Longrightarrow> fits m b \<Longrightarrow> ms_open m = Some op \<Longrightarrow> window_of fl (ms_stage m) (iv_participants (ms_running m)) (op_first op) b = Inr full \<Longrightarrow>
      keeps (measure_extend fl m op b sample full)"
    and restore: "keeps m \<Longrightarrow> ms_open m = Some op \<Longrightarrow> k \<in> open_marks op \<Longrightarrow> keeps (measure_restore m k)"
    and restart: "keeps m \<Longrightarrow> ms_open m = Some op \<Longrightarrow> k \<in> open_marks op \<Longrightarrow> stays ps \<Longrightarrow>
      keeps (measure_restart fl (measure_restore m k) Dropout ps (bd_at (mk_boundary k))) \<and>
      fits (measure_restart fl (measure_restore m k) Dropout ps (bd_at (mk_boundary k))) (mk_boundary k)"
    and latest: "keeps m \<Longrightarrow> ms_latest m = Some b \<Longrightarrow> iv_end (ms_running m) \<le> bd_at b \<Longrightarrow> fits m b"
begin

lemma observe_keeps: "keeps m \<Longrightarrow> fits m b \<Longrightarrow> keeps (snd (observe fl m b))"
proof -
  have once: "keeps (snd (observe fl m b))" if "keeps m" "fits m b" "ms_open m = None" for m
    by (rule observe_cases [where m = m and b = b]) (use that noting [OF that(1,2)] unopened [of m] start [of "noted m b" b] in simp_all)
  assume m: "keeps m" "fits m b"
  note n = noting [OF m]
  show ?thesis
  proof (rule observe_cases [where m = m and b = b])
    show "ms_open m = None \<Longrightarrow> boundary_complete (noted m b) b \<Longrightarrow> keeps (snd (None, measure_start (noted m b) b))"
      using n unopened [OF m(1)] start [of "noted m b" b] by simp
    show "keeps (snd (observe fl (measure_resume fl (noted m b) b) b))" using resume [of "noted m b" b] n by (intro once) simp_all
  qed (use n extend in simp_all)
qed

lemma earliest_marks: "ms_open m = Some op \<Longrightarrow> earliest (departed_marks m survivors) = Some k \<Longrightarrow> k \<in> open_marks op"
proof -
  have some: "k \<in> set ks" if "earliest ks = Some k" for ks using that by (induction ks) (auto split: option.splits if_splits)
  show "ms_open m = Some op \<Longrightarrow> earliest (departed_marks m survivors) = Some k \<Longrightarrow> k \<in> open_marks op"
    by (drule some) (auto simp: departed_marks_def open_marks_def dir_marks_def split: option.splits dest!: set_zip_rightD)
qed

lemma dropout_keeps:
  assumes "keeps m" and "keeps (measure_restart fl m Dropout survivors at)" and "stays survivors"
  shows "keeps (dropout fl m survivors at)"
proof (cases "length survivors = length (iv_participants (ms_running m)) \<or> earliest (departed_marks m survivors) = None")
  case True
  then show ?thesis using assms by (auto simp: dropout_def)
next
  case False
  then obtain k where k: "earliest (departed_marks m survivors) = Some k" by auto
  obtain op where op: "ms_open m = Some op" using k by (cases "ms_open m") (simp_all add: departed_marks_def)
  note mark = earliest_marks [OF op k]
  let ?m = "measure_restart fl (measure_restore m k) Dropout survivors (bd_at (mk_boundary k))"
  have again: "keeps (measure_start ?m (mk_boundary k))" using restart [OF assms(1) op mark assms(3)] by (intro start) (simp_all add: interval_new_def)
  have "keeps (snd (observe fl (measure_start ?m (mk_boundary k)) b))" if "ms_latest m = Some b" "bd_at (mk_boundary k) < bd_at b" for b
    using that by (intro observe_keeps again latest) (simp_all add: measure_start_def measure_restore_def Let_def)
  then show ?thesis using False k again restore [OF assms(1) op mark] by (auto simp: dropout_def Let_def split: option.split)
qed

end

subsection \<open>Headlines are evidence\<close>

definition interval_ok :: "'f rates \<Rightarrow> meter_stage \<Rightarrow> boundary set \<Rightarrow> 'f interval \<Rightarrow> bool" where
  "interval_ok fl stage seen iv \<longleftrightarrow> (\<forall>w. iv_window iv = Some w \<longrightarrow> (\<exists>b1\<in>seen. \<exists>b2\<in>seen. bd_at b1 = iv_start iv \<and> bd_at b2 = iv_end iv \<and>
     window_of fl stage (iv_participants iv) b1 b2 = Inr w))"

definition mark_ok :: "'f rates \<Rightarrow> meter_stage \<Rightarrow> boundary set \<Rightarrow> server_id list \<Rightarrow> boundary \<Rightarrow> 'f mark \<Rightarrow> bool" where
  "mark_ok fl stage seen participants first k \<longleftrightarrow> mk_boundary k \<in> seen \<and> (\<forall>w. mk_window k = Some w \<longrightarrow> window_of fl stage participants first (mk_boundary k) = Inr w)"

definition open_ok :: "'f rates \<Rightarrow> meter_stage \<Rightarrow> boundary set \<Rightarrow> 'f interval \<Rightarrow> 'f opened \<Rightarrow> bool" where
  "open_ok fl stage seen iv op \<longleftrightarrow> op_first op \<in> seen \<and> bd_at (op_first op) = iv_start iv \<and>
     (\<forall>k\<in>open_marks op. mark_ok fl stage seen (iv_participants iv) (op_first op) k)"

definition measure_ok :: "'f rates \<Rightarrow> boundary set \<Rightarrow> 'f measure \<Rightarrow> bool" where
  "measure_ok fl seen m \<longleftrightarrow> (\<forall>iv\<in>set (measure_intervals m). interval_ok fl (ms_stage m) seen iv) \<and>
     (ms_open m = None \<longrightarrow> iv_window (ms_running m) = None) \<and> (\<forall>op. ms_open m = Some op \<longrightarrow> open_ok fl (ms_stage m) seen (ms_running m) op) \<and>
     (\<forall>b. ms_latest m = Some b \<longrightarrow> b \<in> seen)"

lemma measure_ok_mono: "measure_ok fl seen m \<Longrightarrow> seen \<subseteq> seen' \<Longrightarrow> measure_ok fl seen' m"
  unfolding measure_ok_def interval_ok_def open_ok_def mark_ok_def by (simp, meson subsetD)

lemma measure_ok_unopened: "measure_ok fl seen m \<Longrightarrow> ms_open m = None \<Longrightarrow> iv_window (ms_running m) = None"
  and measure_ok_latest: "measure_ok fl seen m \<Longrightarrow> ms_latest m = Some b \<Longrightarrow> b \<in> seen"
  by (simp_all add: measure_ok_def)

lemma new_ok: "measure_ok fl seen (measure_new fl stage participants at)"
  by (simp add: measure_ok_def measure_new_def measure_intervals_def interval_new_def interval_ok_def)

lemma noted_ok: "measure_ok fl seen m \<Longrightarrow> b \<in> seen \<Longrightarrow> measure_ok fl seen (noted m b)"
  by (simp add: measure_ok_def measure_intervals_def)

lemma restart_intervals: "set (measure_intervals (measure_restart fl m reason participants at)) \<subseteq> insert (interval_new fl reason participants at) (set (measure_intervals m))"
  by (cases "measure_intervals m") (auto simp: measure_restart_def Let_def measure_intervals_def)

lemma restart_ok:
  assumes "\<forall>iv\<in>set (measure_intervals m). interval_ok fl (ms_stage m) seen iv" and "\<forall>b. ms_latest m = Some b \<longrightarrow> b \<in> seen"
  shows "measure_ok fl seen (measure_restart fl m reason participants at)"
  using assms restart_intervals [of fl m reason participants at]
  by (auto simp: measure_ok_def interval_new_def interval_ok_def)

lemma start_ok: "measure_ok fl seen m \<Longrightarrow> b \<in> seen \<Longrightarrow> iv_window (ms_running m) = None \<Longrightarrow> measure_ok fl seen (measure_start m b)"
  by (auto simp: measure_ok_def measure_start_def measure_intervals_def interval_ok_def open_ok_def open_marks_def dir_marks_def mark_ok_def mark_of_def Let_def)

lemma resume_ok: "measure_ok fl seen m \<Longrightarrow> measure_ok fl seen (measure_resume fl m b)"
  unfolding measure_resume_def by (rule restart_ok) (auto simp: measure_ok_def measure_intervals_def interval_ok_def)

lemma mark_moved_marks: "d \<in> set (mark_moved x k ds cs) \<Longrightarrow> dir_marks d \<subseteq> insert k (\<Union> (dir_marks ` set ds))"
  by (induction x k ds cs rule: mark_moved.induct) (auto simp: dir_marks_def dir_set_def split: direction.splits if_splits)

lemma mark_moved_twice: "d \<in> set (mark_moved x k (mark_moved y k ds cs) cs') \<Longrightarrow> dir_marks d \<subseteq> insert k (\<Union> (dir_marks ` set ds))"
  using mark_moved_marks [of d x k "mark_moved y k ds cs" cs'] mark_moved_marks [of _ y k ds cs] by blast

lemma extend_ok:
  assumes ok: "measure_ok fl seen m" and op: "ms_open m = Some op" and b: "b \<in> seen"
    and full: "window_of fl (ms_stage m) (iv_participants (ms_running m)) (op_first op) b = Inr full"
  shows "measure_ok fl seen (measure_extend fl m op b sample full)"
proof -
  define iv where "iv = extend_interval fl (ms_running m) b (extend_peak fl m op b) full"
  define moved where "moved = mark_moved Up (mark_of b iv) (mark_moved Down (mark_of b iv) (op_moved op) (dr_down (wd_components sample))) (dr_up (wd_components sample))"
  have iv: "iv_start iv = iv_start (ms_running m)" "iv_end iv = bd_at b" "iv_window iv = Some full" "iv_participants iv = iv_participants (ms_running m)"
    by (simp_all add: iv_def extend_interval_def)
  have first: "op_first op \<in> seen" "bd_at (op_first op) = iv_start (ms_running m)" "\<forall>k\<in>open_marks op. mark_ok fl (ms_stage m) seen (iv_participants (ms_running m)) (op_first op) k"
    using ok op by (simp_all add: measure_ok_def open_ok_def)
  have marks: "\<Union> (dir_marks ` set moved) \<subseteq> insert (mark_of b iv) (open_marks op)"
    unfolding open_marks_def moved_def by (meson UN_least mark_moved_twice)
  have "mark_ok fl (ms_stage m) seen (iv_participants (ms_running m)) (op_first op) (mark_of b iv)"
    using full b iv(3) by (simp add: mark_ok_def mark_of_def)
  then have "open_ok fl (ms_stage m) seen iv (op\<lparr>op_last := b, op_peak_from := from, op_moved := moved\<rparr>)" for "from"
    using first iv marks by (auto simp: open_ok_def open_marks_def)
  moreover have "interval_ok fl (ms_stage m) seen iv" using full b iv first(1,2) by (auto simp: interval_ok_def)
  moreover have "\<exists>from. measure_extend fl m op b sample full = m\<lparr>ms_running := iv, ms_open := Some (op\<lparr>op_last := b, op_peak_from := from, op_moved := moved\<rparr>)\<rparr>"
    unfolding measure_extend_def Let_def iv_def moved_def by blast
  ultimately show ?thesis using ok by (auto simp: measure_ok_def measure_intervals_def)
qed

lemma restore_ok:
  assumes ok: "measure_ok fl seen m" and op: "ms_open m = Some op" and k: "k \<in> open_marks op"
  shows "measure_ok fl seen (measure_restore m k)"
proof -
  have first: "open_ok fl (ms_stage m) seen (ms_running m) op" using ok op by (simp add: measure_ok_def)
  then have "mark_ok fl (ms_stage m) seen (iv_participants (ms_running m)) (op_first op) k" using k by (simp add: open_ok_def)
  with first have "interval_ok fl (ms_stage m) seen (ms_running (measure_restore m k))"
    by (auto simp: interval_ok_def open_ok_def mark_ok_def measure_restore_def)
  then show ?thesis using ok op first by (simp add: measure_ok_def measure_restore_def measure_intervals_def open_ok_def)
qed

interpretation evidence: measure_invariant fl "measure_ok fl seen" "\<lambda>m b. b \<in> seen" "\<lambda>_. True" for fl seen
proof
  fix m op k ps
  assume ok: "measure_ok fl seen m" and op: "ms_open m = Some op" and k: "k \<in> open_marks op"
  have "mk_boundary k \<in> seen" using ok op k by (auto simp: measure_ok_def open_ok_def mark_ok_def)
  moreover have "measure_ok fl seen (measure_restart fl (measure_restore m k) Dropout ps (bd_at (mk_boundary k)))"
    using restore_ok [OF ok op k] by (intro restart_ok) (simp_all add: measure_ok_def)
  ultimately show "measure_ok fl seen (measure_restart fl (measure_restore m k) Dropout ps (bd_at (mk_boundary k))) \<and> mk_boundary k \<in> seen" by simp
qed (simp_all add: noted_ok start_ok resume_ok extend_ok restore_ok measure_ok_unopened measure_ok_latest)

lemma run_ok: "measure_ok fl (set (op_boundaries ops)) (measure_run fl stage participants at ops)"
proof (induction ops rule: rev_induct)
  case Nil
  then show ?case by (simp add: measure_run_def new_ok)
next
  case (snoc x ops)
  let ?m = "measure_run fl stage participants at ops"
  have ok: "measure_ok fl (set (op_boundaries (ops @ [x]))) ?m" by (rule measure_ok_mono [OF snoc]) auto
  show ?case
  proof (cases x)
    case (Observed b)
    then show ?thesis using evidence.observe_keeps [OF ok, of b] by simp
  next
    case (Departed survivors at)
    have "measure_ok fl (set (op_boundaries (ops @ [x]))) (measure_restart fl ?m Dropout survivors at)"
      by (rule restart_ok) (use ok in \<open>auto simp: measure_ok_def\<close>)
    then show ?thesis using evidence.dropout_keeps [OF ok _ TrueI] by (simp add: Departed)
  qed
qed

lemma collect_all: "collect f xs = Some ys \<Longrightarrow> list_all2 (\<lambda>x y. f x = Some y) xs ys"
  by (induction f xs arbitrary: ys rule: collect.induct) (auto split: option.splits)

text \<open>In one direction \<open>server\<close> moved \<open>n\<close> bytes between two boundaries, \<open>t\<close> nanoseconds apart: on the client's clock down, on the one receiver's clock up.\<close>

definition moved_between :: "direction \<Rightarrow> boundary \<Rightarrow> boundary \<Rightarrow> server_id \<Rightarrow> nat \<Rightarrow> nat \<Rightarrow> bool" where
  "moved_between x b1 b2 server n t \<longleftrightarrow> (\<exists>r1 r2. boundary_reading b1 server = Some r1 \<and> boundary_reading b2 server = Some r2 \<and>
     (case x of
        Down \<Rightarrow> \<exists>a b. rd_down r1 = Some a \<and> rd_down r2 = Some b \<and> unat a + n = unat b \<and> bd_at b1 + t = bd_at b2
      | Up \<Rightarrow> \<exists>a b. rd_up r1 = Some a \<and> rd_up r2 = Some b \<and> rc_id a = rc_id b \<and> unat (co_bytes (rc_counters a)) + n = unat (co_bytes (rc_counters b)) \<and>
          unat (co_nanos (rc_counters a)) + t = unat (co_nanos (rc_counters b))))"

lemma component_moved:
  assumes "pair_readings b1 b2 server = Some (r1, r2)"
  shows "bd_at b1 < bd_at b2 \<Longrightarrow> component_down fl (bd_at b2 - bd_at b1) r1 r2 = Some c \<Longrightarrow>
      moved_between Down b1 b2 server (cp_bytes c) (cp_duration c) \<and> cp_rate c = ra_quotient fl (cp_bytes c) (cp_duration c)"
    and "component_up fl r1 r2 = Some c \<Longrightarrow> moved_between Up b1 b2 server (cp_bytes c) (cp_duration c) \<and> cp_rate c = ra_quotient fl (cp_bytes c) (cp_duration c)"
proof -
  have r: "boundary_reading b1 server = Some r1" "boundary_reading b2 server = Some r2" using assms by (auto simp: pair_readings_def split: option.splits)
  show "bd_at b1 < bd_at b2 \<Longrightarrow> component_down fl (bd_at b2 - bd_at b1) r1 r2 = Some c \<Longrightarrow>
      moved_between Down b1 b2 server (cp_bytes c) (cp_duration c) \<and> cp_rate c = ra_quotient fl (cp_bytes c) (cp_duration c)"
    by (auto simp: r moved_between_def component_down_def component_of_def word_less_nat_alt split: option.splits if_splits)
  show "component_up fl r1 r2 = Some c \<Longrightarrow> moved_between Up b1 b2 server (cp_bytes c) (cp_duration c) \<and> cp_rate c = ra_quotient fl (cp_bytes c) (cp_duration c)"
    by (auto simp: r moved_between_def component_up_def component_of_def counters_follows_def word_le_nat_alt split: option.splits if_splits)
qed

lemma window_components:
  assumes w: "window_of fl stage ps b1 b2 = Inr w" and some: "dir_at (wd_components w) x \<noteq> []"
  shows "list_all2 (\<lambda>server c. moved_between x b1 b2 server (cp_bytes c) (cp_duration c) \<and> cp_rate c = ra_quotient fl (cp_bytes c) (cp_duration c)) ps (dir_at (wd_components w) x)"
    "dir_at (wd_rates w) x = Some (ra_sum fl (map cp_rate (dir_at (wd_components w) x)))"
proof -
  obtain pairs downs ups where p: "bd_at b1 < bd_at b2" "collect (pair_readings b1 b2) ps = Some pairs"
    "collect (\<lambda>(r1, r2). component_down fl (bd_at b2 - bd_at b1) r1 r2) (if stage_moves stage Down then pairs else []) = Some downs"
    "collect (\<lambda>(r1, r2). component_up fl r1 r2) (if stage_moves stage Up then pairs else []) = Some ups"
    and c: "wd_components w = \<lparr>dr_down = downs, dr_up = ups\<rparr>" "wd_rates w = \<lparr>dr_down = window_rate fl downs, dr_up = window_rate fl ups\<rparr>"
    using w by (auto simp: window_of_def Let_def split: option.splits if_splits)
  note pairs = collect_all [OF p(2)]
  have join: "list_all2 (\<lambda>server c. R server c) ps cs"
    if "list_all2 (\<lambda>p c. f p = Some c) pairs cs" "\<And>server p c. pair_readings b1 b2 server = Some p \<Longrightarrow> f p = Some c \<Longrightarrow> R server c" for f R and cs :: "'a component list"
    by (rule list_all2_trans [OF _ pairs that(1)]) (use that(2) in blast)
  show "list_all2 (\<lambda>server c. moved_between x b1 b2 server (cp_bytes c) (cp_duration c) \<and> cp_rate c = ra_quotient fl (cp_bytes c) (cp_duration c)) ps (dir_at (wd_components w) x)"
  proof (cases x)
    case Down
    then have "stage_moves stage Down" using p(3) some by (auto simp: c(1) dir_at_def split: if_splits)
    then have "list_all2 (\<lambda>p c. (case p of (r1, r2) \<Rightarrow> component_down fl (bd_at b2 - bd_at b1) r1 r2) = Some c) pairs (dir_at (wd_components w) x)"
      using collect_all [OF p(3)] by (simp add: Down c(1) dir_at_def)
    then show ?thesis unfolding Down by (rule join) (use component_moved(1) [OF _ p(1)] in \<open>fastforce split: prod.splits\<close>)
  next
    case Up
    then have "stage_moves stage Up" using p(4) some by (auto simp: c(1) dir_at_def split: if_splits)
    then have "list_all2 (\<lambda>p c. (case p of (r1, r2) \<Rightarrow> component_up fl r1 r2) = Some c) pairs (dir_at (wd_components w) x)"
      using collect_all [OF p(4)] by (simp add: Up c(1) dir_at_def)
    then show ?thesis unfolding Up by (rule join) (use component_moved(2) in \<open>fastforce split: prod.splits\<close>)
  qed
  show "dir_at (wd_rates w) x = Some (ra_sum fl (map cp_rate (dir_at (wd_components w) x)))"
    using some by (cases x) (auto simp: c dir_at_def window_rate_def)
qed

lemma find_map_some: "find_map f xs = Some y \<Longrightarrow> \<exists>x\<in>set xs. f x = Some y"
  by (induction f xs rule: find_map.induct) (auto split: option.splits)

lemma counted_ok:
  assumes "measure_ok fl seen m" and "(iv, w) \<in> set (measure_counted m)"
  obtains b1 b2 where "b1 \<in> seen" and "b2 \<in> seen" and "bd_at b1 = iv_start iv" and "bd_at b2 = iv_end iv" and "window_of fl (ms_stage m) (iv_participants iv) b1 b2 = Inr w"
proof -
  have "iv \<in> set (measure_intervals m)" "iv_window iv = Some w" using assms(2) by (auto simp: measure_counted_def split: option.splits)
  moreover have "interval_ok fl (ms_stage m) seen iv" using assms(1) calculation(1) by (simp add: measure_ok_def)
  ultimately show ?thesis using that unfolding interval_ok_def by blast
qed

lemma counted_kept: "(iv, w) \<in> set (measure_counted m) \<Longrightarrow> iv \<in> set (measure_intervals m)"
  "(iv, w) \<in> set (measure_counted m) \<Longrightarrow> iv_complete iv"
  by (auto simp: measure_counted_def split: option.splits)

lemma position_nth: "position a xs = Some i \<Longrightarrow> i < length xs \<and> xs ! i = a"
  by (induction a xs arbitrary: i rule: position.induct) (auto split: if_splits)

text \<open>The participants of every interval kept are those of the stage, or the survivors of a dropout.\<close>

definition named_ok :: "server_id list set \<Rightarrow> 'f measure \<Rightarrow> bool" where
  "named_ok known m \<longleftrightarrow> (\<forall>iv\<in>set (measure_intervals m). iv_participants iv \<in> known) \<and> (ms_open m = None \<longrightarrow> iv_window (ms_running m) = None)"

lemma named_restart: "named_ok known m \<Longrightarrow> ps \<in> known \<Longrightarrow> named_ok known (measure_restart fl m reason ps at)"
  using restart_intervals [of fl m reason ps at] by (auto simp: named_ok_def interval_new_def)

lemma named_running:
  "named_ok known m \<Longrightarrow> iv_participants iv = iv_participants (ms_running m) \<Longrightarrow> (open = None \<longrightarrow> iv_window iv = None) \<Longrightarrow> named_ok known (m\<lparr>ms_running := iv, ms_open := open\<rparr>)"
  by (auto simp: named_ok_def measure_intervals_def)

interpretation named: measure_invariant fl "named_ok known" "\<lambda>_ _. True" "\<lambda>ps. ps \<in> known" for fl known
proof
  fix m :: "'a measure" and b :: boundary and op k
  assume ok: "named_ok known m"
  show "named_ok known (noted m b) \<and> True" using ok by (simp add: named_ok_def measure_intervals_def)
  show "ms_open m = None \<Longrightarrow> iv_window (ms_running m) = None" using ok by (simp add: named_ok_def)
  show "named_ok known (measure_start m b)" using ok by (auto simp: named_ok_def measure_start_def measure_intervals_def Let_def)
  have "named_ok known (m\<lparr>ms_running := (ms_running m)\<lparr>iv_complete := False\<rparr>\<rparr>)" "iv_participants (ms_running m) \<in> known"
    using ok by (simp_all add: named_ok_def measure_intervals_def)
  then show "named_ok known (measure_resume fl m b) \<and> True" using named_restart unfolding measure_resume_def by blast
  show "named_ok known (measure_extend fl m op b sample full)" for sample full
    unfolding measure_extend_def Let_def by (rule named_running [OF ok]) (simp_all add: extend_interval_def)
  assume op: "ms_open m = Some op"
  show restored: "named_ok known (measure_restore m k)" using ok op by (auto simp: named_ok_def measure_restore_def measure_intervals_def)
  show "named_ok known (measure_restart fl (measure_restore m k) Dropout ps (bd_at (mk_boundary k))) \<and> True" if "ps \<in> known" for ps
    using named_restart [OF restored that] by simp
qed simp_all

lemma run_named: "named_ok (insert participants {survivors. \<exists>t. Departed survivors t \<in> set ops}) (measure_run fl stage participants at ops)"
proof (induction ops rule: rev_induct)
  case Nil
  then show ?case by (simp add: measure_run_def measure_new_def named_ok_def measure_intervals_def interval_new_def)
next
  case (snoc x ops)
  let ?m = "measure_run fl stage participants at ops" and ?known = "insert participants {survivors. \<exists>t. Departed survivors t \<in> set (ops @ [x])}"
  have ok: "named_ok ?known ?m" using snoc by (auto simp: named_ok_def)
  show ?case
  proof (cases x)
    case (Observed b)
    then show ?thesis using named.observe_keeps [OF ok TrueI, of fl b] by simp
  next
    case (Departed survivors t)
    have known: "survivors \<in> ?known" by (auto simp: Departed)
    then show ?thesis using named.dropout_keeps [OF ok named_restart [OF ok known] known] by (simp add: Departed)
  qed
qed

text \<open>
  C6. A headline is evidence. Whatever was observed, and whichever servers departed and however often evidence had to resume, the mean of a stage is the sum of the rates of
  exactly the participants of one complete interval that is kept, between the two observed boundaries it starts and ends at, at least 800 ms apart: for each of them the exact
  growth of its counter, of one receiver that never restarted, over at least 800 ms on its own clock, and some of them moved bytes. The participants are those of the stage, or the
  survivors of a dropout. A single server's mean is its own growth over such an interval that it took part in.
\<close>

theorem headline_is_evidence:
  assumes m: "m = measure_run fl stage participants at ops"
  shows "(measure_result fl m x = Some rate \<longrightarrow> (\<exists>iv\<in>set (measure_intervals m). \<exists>moved. \<exists>b1\<in>set (op_boundaries ops). \<exists>b2\<in>set (op_boundaries ops).
      iv_complete iv \<and> (iv_participants iv = participants \<or> (\<exists>t. Departed (iv_participants iv) t \<in> set ops)) \<and> bd_at b1 = iv_start iv \<and> bd_at b2 = iv_end iv \<and>
      bd_at b1 + MIN_EVIDENCE \<le> bd_at b2 \<and> list_all2 (\<lambda>server (n, t). moved_between x b1 b2 server n t \<and> MIN_EVIDENCE \<le> t) (iv_participants iv) moved \<and>
      (\<exists>(n, t)\<in>set moved. 0 < n) \<and> rt_mean rate = ra_sum fl (map (\<lambda>(n, t). ra_quotient fl n t) moved))) \<and>
    (measure_server fl m server x = Some rate \<longrightarrow> (\<exists>iv\<in>set (measure_intervals m). \<exists>n t. \<exists>b1\<in>set (op_boundaries ops). \<exists>b2\<in>set (op_boundaries ops).
      iv_complete iv \<and> server \<in> set (iv_participants iv) \<and> bd_at b1 = iv_start iv \<and> bd_at b2 = iv_end iv \<and>
      moved_between x b1 b2 server n t \<and> MIN_EVIDENCE \<le> t \<and> 0 < n \<and> rt_mean rate = ra_quotient fl n t))"
proof (intro conjI impI)
  note ok = run_ok [of fl ops stage participants at, folded m]
  assume "measure_result fl m x = Some rate"
  then obtain iv w mean where iv: "(iv, w) \<in> set (measure_counted m)" "iv_end iv - iv_start iv \<ge> MIN_EVIDENCE" "evidence (dir_at (wd_components w) x)"
    "dir_at (wd_rates w) x = Some mean" "rt_mean rate = mean"
    by (auto simp: measure_result_def Let_def split: option.splits if_splits dest!: find_map_some)
  note kept = counted_kept [OF iv(1)]
  have who: "iv_participants iv = participants \<or> (\<exists>t. Departed (iv_participants iv) t \<in> set ops)"
    using run_named [of participants ops fl stage at, folded m] kept(1) by (auto simp: named_ok_def)
  obtain b1 b2 where b: "b1 \<in> set (op_boundaries ops)" "b2 \<in> set (op_boundaries ops)" "bd_at b1 = iv_start iv" "bd_at b2 = iv_end iv"
    "window_of fl (ms_stage m) (iv_participants iv) b1 b2 = Inr w" by (rule counted_ok [OF ok iv(1)])
  let ?cs = "dir_at (wd_components w) x" and ?pair = "\<lambda>c. (cp_bytes c, cp_duration c)"
  have some: "?cs \<noteq> []" and long: "\<forall>c\<in>set ?cs. MIN_EVIDENCE \<le> cp_duration c" and moving: "\<exists>c\<in>set ?cs. 0 < cp_bytes c"
    using iv(3) by (auto simp: evidence_def list_all_iff list_ex_iff)
  note parts = window_components [OF b(5) some]
  have "list_all2 (\<lambda>server (n, t). moved_between x b1 b2 server n t \<and> MIN_EVIDENCE \<le> t) (iv_participants iv) (map ?pair ?cs)"
    using parts(1) long by (simp add: list_all2_conv_all_nth)
  moreover have same: "map cp_rate ?cs = map (\<lambda>(n, t). ra_quotient fl n t) (map ?pair ?cs)"
    using parts(1) by (auto simp: list_all2_conv_all_nth in_set_conv_nth)
  moreover have "bd_at b1 + MIN_EVIDENCE \<le> bd_at b2" using iv(2) b(3,4) by (simp add: MIN_EVIDENCE_def)
  moreover have "\<exists>(n, t)\<in>set (map ?pair ?cs). 0 < n" using moving by force
  moreover have "rt_mean rate = ra_sum fl (map (\<lambda>(n, t). ra_quotient fl n t) (map ?pair ?cs))" using iv(4,5) parts(2) unfolding same by simp
  ultimately show "\<exists>iv\<in>set (measure_intervals m). \<exists>moved. \<exists>b1\<in>set (op_boundaries ops). \<exists>b2\<in>set (op_boundaries ops).
      iv_complete iv \<and> (iv_participants iv = participants \<or> (\<exists>t. Departed (iv_participants iv) t \<in> set ops)) \<and> bd_at b1 = iv_start iv \<and> bd_at b2 = iv_end iv \<and>
      bd_at b1 + MIN_EVIDENCE \<le> bd_at b2 \<and> list_all2 (\<lambda>server (n, t). moved_between x b1 b2 server n t \<and> MIN_EVIDENCE \<le> t) (iv_participants iv) moved \<and>
      (\<exists>(n, t)\<in>set moved. 0 < n) \<and> rt_mean rate = ra_sum fl (map (\<lambda>(n, t). ra_quotient fl n t) moved)"
    using b(1-4) kept who by blast
next
  note ok = run_ok [of fl ops stage participants at, folded m]
  assume "measure_server fl m server x = Some rate"
  then obtain iv w i where iv: "(iv, w) \<in> set (measure_counted m)" "position server (iv_participants iv) = Some i" "i < length (dir_at (wd_components w) x)"
    "evidence [dir_at (wd_components w) x ! i]" "rt_mean rate = cp_rate (dir_at (wd_components w) x ! i)"
    by (auto simp: measure_server_def Let_def split: option.splits if_splits dest!: find_map_some)
  obtain b1 b2 where b: "b1 \<in> set (op_boundaries ops)" "b2 \<in> set (op_boundaries ops)" "bd_at b1 = iv_start iv" "bd_at b2 = iv_end iv"
    "window_of fl (ms_stage m) (iv_participants iv) b1 b2 = Inr w" by (rule counted_ok [OF ok iv(1)])
  have "dir_at (wd_components w) x \<noteq> []" using iv(3) by auto
  from list_all2_nthD2 [OF window_components(1) [OF b(5) this] iv(3)]
  have grown: "moved_between x b1 b2 server (cp_bytes (dir_at (wd_components w) x ! i)) (cp_duration (dir_at (wd_components w) x ! i))"
    "cp_rate (dir_at (wd_components w) x ! i) = ra_quotient fl (cp_bytes (dir_at (wd_components w) x ! i)) (cp_duration (dir_at (wd_components w) x ! i))"
    using position_nth [OF iv(2)] by auto
  have "server \<in> set (iv_participants iv)" using position_nth [OF iv(2)] by auto
  with grown show "\<exists>iv\<in>set (measure_intervals m). \<exists>n t. \<exists>b1\<in>set (op_boundaries ops). \<exists>b2\<in>set (op_boundaries ops).
      iv_complete iv \<and> server \<in> set (iv_participants iv) \<and> bd_at b1 = iv_start iv \<and> bd_at b2 = iv_end iv \<and>
      moved_between x b1 b2 server n t \<and> MIN_EVIDENCE \<le> t \<and> 0 < n \<and> rt_mean rate = ra_quotient fl n t"
    using iv(4,5) b(1-4) counted_kept [OF iv(1)] unfolding evidence_def by (intro bexI [of _ iv] exI [of _ "cp_bytes (dir_at (wd_components w) x ! i)"]
        exI [of _ "cp_duration (dir_at (wd_components w) x ! i)"] bexI [of _ b1] bexI [of _ b2]) simp_all
qed

subsection \<open>Bytes are counted once\<close>

definition ledger_of :: "'f measure \<Rightarrow> server_id \<Rightarrow> ledger option" where
  "ledger_of m server = find (\<lambda>l. lg_server l = server) (ms_ledgers m)"

definition fed_within :: "fed \<Rightarrow> fed \<Rightarrow> bool" where
  "fed_within f current \<longleftrightarrow> fd_id f < fd_id current \<or> fd_id f = fd_id current \<and> fd_bytes f \<le> fd_bytes current"

definition covers :: "ledger \<Rightarrow> reading \<Rightarrow> bool" where
  "covers l r \<longleftrightarrow> dr_down (lg_bytes l) < 2 ^ 64 \<and> (\<forall>n. rd_down r = Some n \<longrightarrow> (\<exists>high. lg_down l = Some high \<and> n \<le> high)) \<and>
     (\<forall>f\<in>set (reading_feds r). \<exists>current. lg_up l = Some current \<and> fed_within f current)"

lemma fed_within_trans: "fed_within a b \<Longrightarrow> fed_within b c \<Longrightarrow> fed_within a c"
  by (auto simp: fed_within_def)

lemma credit_fed_within: "lg_up l = Some current \<Longrightarrow> fed_within f current \<Longrightarrow> credit_fed l f = l"
  by (simp add: credit_fed_def fed_within_def Let_def)

lemma credit_fed_up: "\<exists>current. lg_up (credit_fed l f) = Some current \<and> fed_within f current \<and> (\<forall>g. lg_up l = Some g \<longrightarrow> fed_within g current)"
  by (cases "lg_up l") (auto simp: credit_fed_def fed_within_def Let_def)

lemma credit_fed_other [simp]: "lg_server (credit_fed l f) = lg_server l" "lg_down (credit_fed l f) = lg_down l" "dr_down (lg_bytes (credit_fed l f)) = dr_down (lg_bytes l)"
  by (simp_all add: credit_fed_def Let_def dir_set_def split: option.split)

lemma credit_feds_other [simp]: "lg_server (foldl credit_fed l fs) = lg_server l" "lg_down (foldl credit_fed l fs) = lg_down l"
  "dr_down (lg_bytes (foldl credit_fed l fs)) = dr_down (lg_bytes l)"
  by (induction fs arbitrary: l) simp_all

lemma credit_down_other [simp]: "lg_server (credit_down l n) = lg_server l" "lg_up (credit_down l n) = lg_up l" "dr_up (lg_bytes (credit_down l n)) = dr_up (lg_bytes l)"
  by (simp_all add: credit_down_def Let_def dir_set_def)

lemma credit_feds_up:
  "(\<forall>f\<in>set fs. \<exists>current. lg_up (foldl credit_fed l fs) = Some current \<and> fed_within f current) \<and>
   (\<forall>g. lg_up l = Some g \<longrightarrow> (\<exists>current. lg_up (foldl credit_fed l fs) = Some current \<and> fed_within g current))"
proof (induction fs rule: rev_induct)
  case Nil
  then show ?case by (simp add: fed_within_def)
next
  case (snoc f fs)
  then show ?case using credit_fed_up [of "foldl credit_fed l fs" f] by (auto dest: fed_within_trans) (metis fed_within_trans)+
qed

lemma credit_feds_within: "\<forall>f\<in>set fs. \<exists>current. lg_up l = Some current \<and> fed_within f current \<Longrightarrow> foldl credit_fed l fs = l"
  by (induction fs) (auto simp: credit_fed_within)

lemma credit_reading_covered: "covers l r \<Longrightarrow> credit_reading_to l r = l"
proof -
  assume c: "covers l r"
  have "credit_down l n = l" if n: "rd_down r = Some n" for n
  proof -
    obtain high where "lg_down l = Some high" "n \<le> high" using c n by (auto simp: covers_def)
    moreover have "sat_add (dr_down (lg_bytes l)) 0 = dr_down (lg_bytes l)" using c by (simp add: sat_add_def covers_def)
    ultimately show ?thesis by (simp add: credit_down_def dir_set_def word_le_nat_alt)
  qed
  then have "(case rd_down r of Some n \<Rightarrow> credit_down l n | None \<Rightarrow> l) = l" by (simp split: option.split)
  then show ?thesis using c by (simp add: credit_reading_to_def covers_def credit_feds_within)
qed

lemma credit_reading_covers: "dr_down (lg_bytes l) < 2 ^ 64 \<Longrightarrow> covers (credit_reading_to l r) r"
  using credit_feds_up [of "reading_feds r"]
  by (auto simp: covers_def credit_reading_to_def credit_down_def dir_set_def sat_add_def Let_def split: option.splits)

lemma credit_reading_keeps: "covers l q \<Longrightarrow> covers (credit_reading_to l r) q"
proof -
  assume c: "covers l q"
  let ?l = "case rd_down r of Some n \<Rightarrow> credit_down l n | None \<Rightarrow> l"
  have "lg_up ?l = lg_up l" "dr_down (lg_bytes ?l) < 2 ^ 64" using c by (auto simp: covers_def credit_down_def Let_def dir_set_def sat_add_def split: option.split)
  moreover have "\<exists>high. lg_down ?l = Some high \<and> n \<le> high" if "rd_down q = Some n" for n
    using c that by (fastforce simp: covers_def credit_down_def Let_def le_max_iff_disj split: option.split)
  ultimately show ?thesis using c credit_feds_up [of "reading_feds r" ?l]
    by (auto simp: covers_def credit_reading_to_def) (metis fed_within_trans)
qed

lemma credit_reading_bounded: "dr_down (lg_bytes l) < 2 ^ 64 \<Longrightarrow> dr_down (lg_bytes (credit_reading_to l r)) < 2 ^ 64"
  using credit_reading_covers [of l r] by (simp add: covers_def)

lemma credit_readings_bounded: "dr_down (lg_bytes l) < 2 ^ 64 \<Longrightarrow> dr_down (lg_bytes (foldl credit_reading_to l rs)) < 2 ^ 64"
  by (induction rs arbitrary: l) (simp_all add: credit_reading_bounded [simplified])

lemma credit_readings_covers: "dr_down (lg_bytes l) < 2 ^ 64 \<Longrightarrow> r \<in> set rs \<Longrightarrow> covers (foldl credit_reading_to l rs) r"
proof (induction rs rule: rev_induct)
  case (snoc q rs)
  then show ?case using credit_reading_covers [OF credit_readings_bounded [OF snoc(2)], of rs q] credit_reading_keeps by auto
qed simp

lemma credit_readings_again: "\<forall>r\<in>set rs. covers l r \<Longrightarrow> foldl credit_reading_to l rs = l"
  by (induction rs) (auto simp: credit_reading_covered)

definition server_readings :: "server_id \<Rightarrow> boundary \<Rightarrow> reading list" where
  "server_readings server b = filter (\<lambda>r. rd_server r = server) (bd_readings b)"

lemma credit_reading_server [simp]: "lg_server (credit_reading_to l r) = lg_server l"
  by (simp add: credit_reading_to_def split: option.split)

lemma find_credit_first: "find (\<lambda>l. lg_server l = server) (credit_first ls r) =
    (if rd_server r = server then map_option (\<lambda>l. credit_reading_to l r) (find (\<lambda>l. lg_server l = server) ls) else find (\<lambda>l. lg_server l = server) ls)"
  by (induction ls r rule: credit_first.induct) auto

lemma ledger_of_noted: "ledger_of (noted m b) server = map_option (\<lambda>l. foldl credit_reading_to l (server_readings server b)) (ledger_of m server)"
proof -
  have "find (\<lambda>l. lg_server l = server) (foldl credit_first ls rs) =
    map_option (\<lambda>l. foldl credit_reading_to l (filter (\<lambda>r. rd_server r = server) rs)) (find (\<lambda>l. lg_server l = server) ls)" for ls rs
    by (induction rs arbitrary: ls) (simp_all add: find_credit_first option.map_comp option.map_ident comp_def)
  then show ?thesis by (simp add: ledger_of_def noted_def measure_credit_def server_readings_def)
qed

lemma ledger_of_parts [simp]:
  "ledger_of (measure_restart fl m reason ps at) = ledger_of m" "ledger_of (measure_start m b) = ledger_of m" "ledger_of (measure_resume fl m b) = ledger_of m"
  "ledger_of (measure_extend fl m op b sample full) = ledger_of m" "ledger_of (measure_restore m k) = ledger_of m"
  by (simp_all add: ledger_of_def measure_start_def measure_resume_def measure_extend_def measure_restore_def Let_def fun_eq_iff)

text \<open>A ledger whose latest boundary was credited to it is not changed by that boundary again.\<close>

definition credited :: "server_id \<Rightarrow> 'f measure \<Rightarrow> bool" where
  "credited server m \<longleftrightarrow> (\<exists>l. ledger_of m server = Some l \<and> dr_down (lg_bytes l) < 2 ^ 64 \<and> (\<forall>b. ms_latest m = Some b \<longrightarrow> (\<forall>r\<in>set (server_readings server b). covers l r)))"

lemma credited_noted: "credited server m \<Longrightarrow> credited server (noted m b) \<and> (ms_latest m = Some b \<longrightarrow> ledger_of (noted m b) server = ledger_of m server)"
  unfolding credited_def by (auto simp: ledger_of_noted credit_readings_covers credit_readings_bounded [simplified] credit_readings_again)

lemma credited_cong: "ledger_of m' server = ledger_of m server \<Longrightarrow> ms_latest m' = ms_latest m \<Longrightarrow> credited server m' = credited server m"
  by (simp add: credited_def)

lemma latest_parts [simp]: "ms_latest (measure_start m b) = ms_latest m" "ms_latest (measure_resume fl m b) = ms_latest m"
  "ms_latest (measure_extend fl m op b sample full) = ms_latest m" "ms_latest (measure_restore m k) = ms_latest m"
  by (simp_all add: measure_start_def measure_resume_def measure_extend_def measure_restore_def Let_def)

lemma observe_ledger:
  assumes "credited server m"
  shows "ledger_of (snd (observe fl m b)) server = ledger_of (noted m b) server \<and> ms_latest (snd (observe fl m b)) = Some b"
proof -
  have once: "ledger_of (snd (observe fl m b)) server = ledger_of (noted m b) server \<and> ms_latest (snd (observe fl m b)) = Some b" if "ms_open m = None" for m
    by (rule observe_cases [where m = m and b = b]) (simp_all add: that)
  have n: "credited server (noted m b)" using credited_noted [OF assms] by simp
  let ?m = "measure_resume fl (noted m b) b"
  have "credited server ?m" using n by (subst credited_cong [of _ _ "noted m b"]) simp_all
  then have again: "ledger_of (noted ?m b) server = ledger_of (noted m b) server" using credited_noted [of server ?m b] by simp
  show ?thesis by (rule observe_cases [where m = m and b = b]) (simp_all add: once again)
qed

lemma dropout_ledger:
  assumes "credited server m"
  shows "ledger_of (dropout fl m survivors at) server = ledger_of m server \<and> ms_latest (dropout fl m survivors at) = ms_latest m"
proof (cases "earliest (departed_marks m survivors)")
  case None
  then show ?thesis by (simp add: dropout_def)
next
  case (Some k)
  define m' where "m' = measure_start (measure_restart fl (measure_restore m k) Dropout survivors (bd_at (mk_boundary k))) (mk_boundary k)"
  have same: "ledger_of m' = ledger_of m" "ms_latest m' = ms_latest m" by (simp_all add: m'_def)
  then have "credited server m'" using assms by (simp add: credited_def)
  then have "ledger_of (snd (observe fl m' b)) server = ledger_of m server \<and> ms_latest (snd (observe fl m' b)) = Some b" if "ms_latest m = Some b" for b
    using observe_ledger [of server m' fl b] credited_noted [of server m' b] that same by simp
  then show ?thesis by (simp add: dropout_def Some m'_def [symmetric] same Let_def split: option.split)
qed

lemma run_ledger:
  assumes "server \<in> set participants"
  shows "credited server (measure_run fl stage participants at ops) \<and>
    ledger_of (measure_run fl stage participants at ops) server =
      Some (foldl credit_reading_to \<lparr>lg_server = server, lg_down = None, lg_up = None, lg_bytes = dir_both 0\<rparr> (concat (map (server_readings server) (op_boundaries ops))))"
proof (induction ops rule: rev_induct)
  case Nil
  have "find (\<lambda>l. lg_server l = server) (map (\<lambda>server. \<lparr>lg_server = server, lg_down = None, lg_up = None, lg_bytes = dir_both 0\<rparr>) participants) =
      Some \<lparr>lg_server = server, lg_down = None, lg_up = None, lg_bytes = dir_both 0\<rparr>"
    using assms by (induction participants) auto
  then show ?case by (simp add: measure_run_def measure_new_def credited_def ledger_of_def dir_both_def)
next
  case (snoc x ops)
  let ?m = "measure_run fl stage participants at ops"
  show ?case
  proof (cases x)
    case (Observed b)
    have "credited server (snd (observe fl ?m b))"
      using snoc observe_ledger [of server ?m fl b] credited_noted [of server ?m b] by (subst credited_cong [of _ _ "noted ?m b"]) simp_all
    then show ?thesis using snoc observe_ledger [of server ?m fl b] by (simp add: Observed ledger_of_noted)
  next
    case (Departed survivors at)
    then show ?thesis using snoc dropout_ledger [of server ?m fl survivors at] credited_cong [of "dropout fl ?m survivors at" server ?m] by simp
  qed
qed

text \<open>What counts of the reports about receivers: those of the newest receiver so far.\<close>

fun newest_feds :: "nat \<Rightarrow> fed list \<Rightarrow> fed list" where
  "newest_feds k [] = []"
| "newest_feds k (f # fs) = (if fd_id f < k then newest_feds k fs else f # newest_feds (fd_id f) fs)"

definition fed_peak :: "fed list \<Rightarrow> nat \<Rightarrow> nat" where
  "fed_peak fs i = Max (insert 0 ((\<lambda>f. unat (fd_bytes f)) ` {f \<in> set fs. fd_id f = i}))"

definition fed_total :: "fed list \<Rightarrow> nat" where
  "fed_total fs = (\<Sum>i\<in>fd_id ` set fs. fed_peak fs i)"

lemma newest_feds_snoc: "newest_feds k (fs @ [f]) = newest_feds k fs @ (if fd_id f < Max (insert k (fd_id ` set (newest_feds k fs))) then [] else [f])"
proof (induction k fs rule: newest_feds.induct)
  case (2 k g fs)
  have ge: "\<forall>h\<in>set (newest_feds j fs). j \<le> fd_id h" for j fs
    by (induction j fs rule: newest_feds.induct) (auto intro: order_trans dest: leI)
  have "Max (insert k (insert (fd_id g) (fd_id ` set (newest_feds (fd_id g) fs)))) = Max (insert (fd_id g) (fd_id ` set (newest_feds (fd_id g) fs)))" if "\<not> fd_id g < k"
    using that by (subst Max_insert) (auto simp: max_def not_less Max_ge_iff)
  then show ?case using 2 by (auto simp: insert_commute)
qed auto

lemma fed_peak_snoc: "fed_peak (fs @ [f]) i = (if fd_id f = i then max (fed_peak fs i) (unat (fd_bytes f)) else fed_peak fs i)"
proof (cases "fd_id f = i")
  case True
  then have "insert 0 ((\<lambda>f. unat (fd_bytes f)) ` {g \<in> set (fs @ [f]). fd_id g = i}) = insert (unat (fd_bytes f)) (insert 0 ((\<lambda>f. unat (fd_bytes f)) ` {g \<in> set fs. fd_id g = i}))"
    by auto
  then show ?thesis unfolding fed_peak_def using True by (subst \<open>_ = insert _ _\<close>) (subst Max_insert; simp add: max.commute)
next
  case False
  then have "{g \<in> set (fs @ [f]). fd_id g = i} = {g \<in> set fs. fd_id g = i}" by auto
  then show ?thesis using False by (simp add: fed_peak_def)
qed

lemma fed_empty [simp]: "fed_peak [] i = 0" "fed_total [] = 0"
  by (simp_all add: fed_peak_def fed_total_def)

lemma fed_peak_none: "i \<notin> fd_id ` set fs \<Longrightarrow> fed_peak fs i = 0"
proof -
  assume "i \<notin> fd_id ` set fs"
  then have none: "{f \<in> set fs. fd_id f = i} = {}" by auto
  show ?thesis unfolding fed_peak_def none by simp
qed

lemma fed_total_snoc: "fed_total (fs @ [f]) = fed_total fs + (max (fed_peak fs (fd_id f)) (unat (fd_bytes f)) - fed_peak fs (fd_id f))"
proof (cases "fd_id f \<in> fd_id ` set fs")
  case True
  then have same: "fd_id ` set (fs @ [f]) = fd_id ` set fs" by auto
  have "(\<Sum>i\<in>fd_id ` set fs. fed_peak (fs @ [f]) i) = fed_peak (fs @ [f]) (fd_id f) + (\<Sum>i\<in>fd_id ` set fs - {fd_id f}. fed_peak (fs @ [f]) i)"
    using True by (intro sum.remove) auto
  also have "(\<Sum>i\<in>fd_id ` set fs - {fd_id f}. fed_peak (fs @ [f]) i) = (\<Sum>i\<in>fd_id ` set fs - {fd_id f}. fed_peak fs i)"
    by (rule sum.cong) (auto simp: fed_peak_snoc)
  finally show ?thesis using sum.remove [of "fd_id ` set fs" "fd_id f" "fed_peak fs"] True by (simp add: fed_total_def fed_peak_snoc insert_absorb)
next
  case False
  then have "fed_peak fs (fd_id f) = 0" by (rule fed_peak_none)
  moreover have "(\<Sum>i\<in>fd_id ` set fs. fed_peak (fs @ [f]) i) = fed_total fs" unfolding fed_total_def using False by (intro sum.cong) (auto simp: fed_peak_snoc)
  ultimately show ?thesis using False by (simp add: fed_total_def fed_peak_snoc)
qed

lemma credit_feds_total:
  assumes "lg_up l = None" and "dr_up (lg_bytes l) = 0" and "fs \<noteq> []"
  shows "(\<exists>current. lg_up (foldl credit_fed l fs) = Some current \<and> fd_id current = Max (fd_id ` set (newest_feds 0 fs)) \<and>
      unat (fd_bytes current) = fed_peak (newest_feds 0 fs) (fd_id current)) \<and> newest_feds 0 fs \<noteq> [] \<and> unat (fd_bytes (hd fs)) \<le> fed_total (newest_feds 0 fs) \<and>
    dr_up (lg_bytes (foldl credit_fed l fs)) = min (fed_total (newest_feds 0 fs) - unat (fd_bytes (hd fs))) (2 ^ 64 - 1)"
  using assms(3)
proof (induction fs rule: rev_induct)
  case (snoc f fs)
  show ?case
  proof (cases "fs = []")
    case True
    then show ?thesis using assms(1,2) fed_peak_snoc [of "[]" f] fed_total_snoc [of "[]" f]
      by (simp add: credit_fed_def dir_set_def sat_add_def Let_def)
  next
    case False
    define L where "L = newest_feds 0 fs"
    define h where "h = unat (fd_bytes (hd fs))"
    obtain c where c: "lg_up (foldl credit_fed l fs) = Some c" "fd_id c = Max (fd_id ` set L)" "unat (fd_bytes c) = fed_peak L (fd_id c)"
      and L: "L \<noteq> []" "h \<le> fed_total L" "dr_up (lg_bytes (foldl credit_fed l fs)) = min (fed_total L - h) (2 ^ 64 - 1)"
      using snoc.IH [OF False] by (auto simp: L_def h_def)
    have "Max (insert 0 (fd_id ` set L)) = fd_id c" using L(1) c(2) by simp
    then have L': "newest_feds 0 (fs @ [f]) = (if fd_id f < fd_id c then L else L @ [f])" by (simp add: newest_feds_snoc L_def [symmetric])
    have hd: "hd (fs @ [f]) = hd fs" using False by simp
    show ?thesis
    proof (cases "fd_id f < fd_id c")
      case True
      then show ?thesis using c L by (simp add: L' hd h_def [symmetric] credit_fed_within fed_within_def)
    next
      case ge: False
      have top: "Max (insert (fd_id f) (fd_id ` set L)) = fd_id f" using ge c(2) L(1) by (simp add: max_def)
      have step: "fed_total (L @ [f]) = fed_total L + (max (fed_peak L (fd_id f)) (unat (fd_bytes f)) - fed_peak L (fd_id f))" by (rule fed_total_snoc)
      have sat: "sat_add (min (fed_total L - h) (2 ^ 64 - 1)) n = min (fed_total L + n - h) (2 ^ 64 - 1)" for n using L(2) by (simp add: sat_add_def)
      define added where "added = (if fd_id f = fd_id c then unat (fd_bytes f) - unat (fd_bytes c) else unat (fd_bytes f))"
      have none: "fed_peak L (fd_id f) = 0" if "fd_id f \<noteq> fd_id c"
        using that ge c(2) by (intro fed_peak_none) (metis List.finite_set Max_ge finite_imageI le_antisym not_less)
      have grown: "fed_total (L @ [f]) = fed_total L + added"
        using step none c(3) by (cases "fd_id f = fd_id c") (auto simp: added_def max_def)
      have peak: "fed_peak (L @ [f]) (fd_id f) = (if fd_id f = fd_id c then max (unat (fd_bytes c)) (unat (fd_bytes f)) else unat (fd_bytes f))"
        using none c(3) by (auto simp: fed_peak_snoc)
      show ?thesis
      proof (cases "fed_within f c")
        case True
        then have "fd_id f = fd_id c" "unat (fd_bytes f) \<le> unat (fd_bytes c)" using ge by (auto simp: fed_within_def word_le_nat_alt)
        then show ?thesis using credit_fed_within [OF c(1) True] c(1) L top grown peak ge
          by (simp add: L' hd h_def [symmetric] added_def)
      next
        case False
        have "credit_fed (foldl credit_fed l fs) f = (foldl credit_fed l fs)\<lparr>lg_bytes := dir_set Up (sat_add (dr_up (lg_bytes (foldl credit_fed l fs))) added) (lg_bytes (foldl credit_fed l fs)), lg_up := Some f\<rparr>"
          using False c(1) by (auto simp: credit_fed_def fed_within_def added_def Let_def)
        moreover have "fed_peak (L @ [f]) (fd_id f) = unat (fd_bytes f)" using False ge peak by (auto simp: fed_within_def word_le_nat_alt)
        ultimately show ?thesis using L top grown ge sat [of added] by (simp add: L' hd h_def [symmetric] dir_set_def)
      qed
    qed
  qed
qed simp

definition up_part :: "ledger \<Rightarrow> fed option \<times> nat" where
  "up_part l = (lg_up l, dr_up (lg_bytes l))"

definition down_part :: "ledger \<Rightarrow> u64 option \<times> nat" where
  "down_part l = (lg_down l, dr_down (lg_bytes l))"

lemma credit_feds_up_part: "up_part l = up_part l' \<Longrightarrow> up_part (foldl credit_fed l fs) = up_part (foldl credit_fed l' fs)"
proof (induction fs arbitrary: l l')
  case (Cons f fs)
  have same: "lg_up l = lg_up l'" "dr_up (lg_bytes l) = dr_up (lg_bytes l')" using Cons(2) by (simp_all add: up_part_def)
  have "up_part (credit_fed l f) = up_part (credit_fed l' f)"
    by (cases "lg_up l'") (simp_all add: same up_part_def credit_fed_def Let_def dir_set_def)
  from Cons(1) [OF this] show ?case by simp
qed simp

lemma credit_readings_up: "up_part (foldl credit_reading_to l rs) = up_part (foldl credit_fed l (concat (map reading_feds rs)))"
proof (induction rs arbitrary: l)
  case (Cons r rs)
  let ?l = "case rd_down r of Some n \<Rightarrow> credit_down l n | None \<Rightarrow> l"
  have "up_part ?l = up_part l" by (simp add: up_part_def split: option.split)
  then have "up_part (credit_reading_to l r) = up_part (foldl credit_fed l (reading_feds r))" unfolding credit_reading_to_def by (rule credit_feds_up_part)
  from credit_feds_up_part [OF this, of "concat (map reading_feds rs)"] show ?case using Cons [of "credit_reading_to l r"] by (simp add: foldl_append)
qed simp

definition down_counts :: "reading list \<Rightarrow> u64 list" where
  "down_counts rs = concat (map (\<lambda>r. case rd_down r of Some n \<Rightarrow> [n] | None \<Rightarrow> []) rs)"

lemma credit_readings_down:
  assumes "lg_down l = None" and "dr_down (lg_bytes l) = 0"
  shows "down_part (foldl credit_reading_to l rs) = (if down_counts rs = [] then (None, 0)
    else (Some (Max (set (down_counts rs))), unat (Max (set (down_counts rs))) - unat (hd (down_counts rs))))"
proof (induction rs rule: rev_induct)
  case Nil
  then show ?case using assms by (simp add: down_part_def down_counts_def)
next
  case (snoc r rs)
  let ?l = "foldl credit_reading_to l rs"
  have part: "down_part (credit_reading_to ?l r) = (case rd_down r of Some n \<Rightarrow> down_part (credit_down ?l n) | None \<Rightarrow> down_part ?l)"
    by (simp add: credit_reading_to_def down_part_def split: option.split)
  show ?case
  proof (cases "rd_down r")
    case None
    then show ?thesis using snoc part by (simp add: down_counts_def)
  next
    case (Some n)
    then have counts: "down_counts (rs @ [r]) = down_counts rs @ [n]" by (simp add: down_counts_def)
    show ?thesis
    proof (cases "down_counts rs = []")
      case True
      then show ?thesis using snoc part Some by (simp add: counts down_part_def credit_down_def dir_set_def sat_add_def Let_def)
    next
      case False
      define high where "high = Max (set (down_counts rs))"
      have first: "unat (hd (down_counts rs)) \<le> unat high" using False by (simp add: high_def word_le_nat_alt [symmetric])
      have "unat (max high n) < 2 ^ 64" using unat_lt64 [of "max high n"] by simp
      moreover have "unat high - unat (hd (down_counts rs)) + (unat n - unat high) = unat (max high n) - unat (hd (down_counts rs))"
        using first by (auto simp: max_def word_le_nat_alt)
      ultimately have "sat_add (unat high - unat (hd (down_counts rs))) (unat n - unat high) = unat (max high n) - unat (hd (down_counts rs))"
        by (simp add: sat_add_def)
      moreover have "lg_down ?l = Some high" "dr_down (lg_bytes ?l) = unat high - unat (hd (down_counts rs))" using snoc False by (simp_all add: down_part_def high_def)
      ultimately have "down_part (credit_down ?l n) = (Some (max high n), unat (max high n) - unat (hd (down_counts rs)))"
        by (simp add: down_part_def credit_down_def dir_set_def Let_def)
      moreover have "Max (set (down_counts rs @ [n])) = max high n" using False by (simp add: high_def max.commute)
      ultimately show ?thesis using part Some False by (simp add: counts)
    qed
  qed
qed

text \<open>
  C23. Bytes are counted once. However often boundaries break, intervals restart, servers depart and boundaries are looked at again, a server's bytes down are its highest
  counter less its first, and its bytes up are the highest counts of its receivers, each reported while no newer receiver was known, less the first count; at most the
  largest 64-bit number.
\<close>

theorem bytes_counted_once:
  assumes "server \<in> set participants" and "rs = concat (map (server_readings server) (op_boundaries ops))" and "fs = concat (map reading_feds rs)"
  shows "measure_bytes (measure_run fl stage participants at ops) server Down =
      (if down_counts rs = [] then 0 else unat (Max (set (down_counts rs))) - unat (hd (down_counts rs))) \<and>
    measure_bytes (measure_run fl stage participants at ops) server Up =
      (if fs = [] then 0 else min (fed_total (newest_feds 0 fs) - unat (fd_bytes (hd fs))) (2 ^ 64 - 1))"
proof -
  define l where "l = \<lparr>lg_server = server, lg_down = None, lg_up = None, lg_bytes = dir_both (0 :: nat)\<rparr>"
  have l: "lg_up l = None" "lg_down l = None" "dr_up (lg_bytes l) = 0" "dr_down (lg_bytes l) = 0" by (simp_all add: l_def dir_both_def)
  have "ledger_of (measure_run fl stage participants at ops) server = Some (foldl credit_reading_to l rs)"
    using run_ledger [OF assms(1), of fl stage at ops] by (simp add: l_def assms(2))
  then have all: "measure_bytes (measure_run fl stage participants at ops) server x = dir_at (lg_bytes (foldl credit_reading_to l rs)) x" for x
    by (simp add: measure_bytes_def ledger_of_def)
  have "dr_up (lg_bytes (foldl credit_reading_to l rs)) = dr_up (lg_bytes (foldl credit_fed l fs))"
    using credit_readings_up [of l rs] by (simp add: up_part_def assms(3))
  then show ?thesis using credit_readings_down [OF l(2,4), of rs] credit_feds_total [OF l(1,3), of fs] l
    by (auto simp: all dir_at_def down_part_def)
qed

subsection \<open>Intervals follow each other\<close>

fun op_time :: "measure_op \<Rightarrow> nat" where
  "op_time (Observed b) = bd_at b"
| "op_time (Departed _ at) = at"

definition ordered :: "'f interval list \<Rightarrow> bool" where
  "ordered ivs \<longleftrightarrow> length ivs \<le> MAX_INTERVALS \<and> (\<forall>iv\<in>set ivs. iv_start iv \<le> iv_end iv) \<and> sorted_wrt (\<lambda>a b. iv_end a \<le> iv_start b) ivs"

definition time_ok :: "nat \<Rightarrow> 'f measure \<Rightarrow> bool" where
  "time_ok now m \<longleftrightarrow> ordered (measure_intervals m) \<and> iv_end (ms_running m) \<le> now \<and> (ms_open m = None \<longrightarrow> iv_window (ms_running m) = None) \<and>
     (\<forall>op. ms_open m = Some op \<longrightarrow> (\<forall>k\<in>open_marks op. iv_start (ms_running m) \<le> bd_at (mk_boundary k) \<and> bd_at (mk_boundary k) \<le> now)) \<and>
     (\<forall>b. ms_latest m = Some b \<longrightarrow> bd_at b \<le> now)"

lemma ordered_update:
  assumes "ordered (ivs @ [iv])" and "iv_start iv \<le> iv_start iv'" and "iv_start iv' \<le> iv_end iv'"
  shows "ordered (ivs @ [iv'])"
  using assms by (auto simp: ordered_def sorted_wrt_append)

lemma ordered_restart:
  assumes "ordered (measure_intervals m)" and "iv_end (ms_running m) \<le> at"
  shows "ordered (measure_intervals (measure_restart fl m reason ps at))"
proof -
  define ivs where "ivs = measure_intervals m"
  have before: "iv_end iv \<le> at" if "iv \<in> set ivs" for iv
    using that assms by (fastforce simp: ivs_def measure_intervals_def ordered_def sorted_wrt_append)
  have "ordered (drop n ivs)" for n using assms(1) by (auto simp: ivs_def [symmetric] ordered_def sorted_wrt_drop dest: in_set_dropD)
  from this [of 0] this [of 1] have parts: "ordered ivs" "ordered (tl ivs)" by (simp_all add: drop_Suc)
  define old where "old = (if length ivs = MAX_INTERVALS then tl ivs else ivs)"
  have "length old < MAX_INTERVALS" "set old \<subseteq> set ivs" "ordered old" using parts by (cases ivs; auto simp: old_def ordered_def MAX_INTERVALS_def)+
  then have "ordered (old @ [interval_new fl reason ps at])" using before by (auto simp: ordered_def sorted_wrt_append interval_new_def)
  moreover have "ms_earlier (measure_restart fl m reason ps at) = old" by (simp add: measure_restart_def Let_def old_def ivs_def)
  ultimately show ?thesis by (simp add: measure_intervals_def)
qed

interpretation order: measure_invariant fl "time_ok now" "\<lambda>m b. iv_end (ms_running m) \<le> bd_at b \<and> bd_at b \<le> now" "\<lambda>_. True" for fl now
proof
  fix m :: "'a measure" and b :: boundary
  assume ok: "time_ok now m" and b: "iv_end (ms_running m) \<le> bd_at b \<and> bd_at b \<le> now"
  note o = ok [unfolded time_ok_def]
  show "time_ok now (noted m b) \<and> iv_end (ms_running (noted m b)) \<le> bd_at b \<and> bd_at b \<le> now" using o b by (simp add: time_ok_def measure_intervals_def)
  have late: "iv_start (ms_running m) \<le> bd_at b" using o b by (auto simp: ordered_def measure_intervals_def)
  show "time_ok now (measure_start m b)" if "iv_window (ms_running m) = None"
    using o b late that ordered_update [of "ms_earlier m" "ms_running m" "(ms_running m)\<lparr>iv_start := bd_at b, iv_end := bd_at b\<rparr>"]
    by (auto simp: time_ok_def measure_start_def Let_def measure_intervals_def open_marks_def dir_marks_def mark_of_def)
  have "ordered (measure_intervals (m\<lparr>ms_running := (ms_running m)\<lparr>iv_complete := False\<rparr>\<rparr>))"
    using o ordered_update [of "ms_earlier m" "ms_running m" "(ms_running m)\<lparr>iv_complete := False\<rparr>"] by (simp add: measure_intervals_def ordered_def)
  then show "time_ok now (measure_resume fl m b) \<and> iv_end (ms_running (measure_resume fl m b)) \<le> bd_at b \<and> bd_at b \<le> now"
    using o b ordered_restart [of "m\<lparr>ms_running := (ms_running m)\<lparr>iv_complete := False\<rparr>\<rparr>" "bd_at b"]
    by (auto simp: time_ok_def measure_resume_def interval_new_def)
  show "time_ok now (measure_extend fl m op b sample full)" if op: "ms_open m = Some op" for op full sample
  proof -
    define iv where "iv = extend_interval fl (ms_running m) b (extend_peak fl m op b) full"
    define moved where "moved = mark_moved Up (mark_of b iv) (mark_moved Down (mark_of b iv) (op_moved op) (dr_down (wd_components sample))) (dr_up (wd_components sample))"
    have iv: "iv_start iv = iv_start (ms_running m)" "iv_end iv = bd_at b" by (simp_all add: iv_def extend_interval_def)
    have "\<Union> (dir_marks ` set moved) \<subseteq> insert (mark_of b iv) (open_marks op)"
      unfolding open_marks_def moved_def by (meson UN_least mark_moved_twice)
    then have "\<forall>k\<in>\<Union> (dir_marks ` set moved). iv_start iv \<le> bd_at (mk_boundary k) \<and> bd_at (mk_boundary k) \<le> now"
      using o b op late iv by (auto simp: mark_of_def)
    moreover have "\<exists>from. measure_extend fl m op b sample full = m\<lparr>ms_running := iv, ms_open := Some (op\<lparr>op_last := b, op_peak_from := from, op_moved := moved\<rparr>)\<rparr>"
      unfolding measure_extend_def Let_def iv_def moved_def by blast
    ultimately show ?thesis using o b iv late ordered_update [of "ms_earlier m" "ms_running m" iv] by (auto simp: time_ok_def measure_intervals_def open_marks_def)
  qed
next
  fix m :: "'a measure" and op k ps
  assume ok: "time_ok now m" and op: "ms_open m = Some op" and k: "k \<in> open_marks op"
  note o = ok [unfolded time_ok_def]
  have at: "iv_start (ms_running m) \<le> bd_at (mk_boundary k)" "bd_at (mk_boundary k) \<le> now" using o op k by auto
  then have restored: "ordered (measure_intervals (measure_restore m k))"
    using o ordered_update [of "ms_earlier m" "ms_running m" "ms_running (measure_restore m k)"] by (simp add: measure_intervals_def measure_restore_def)
  then show "time_ok now (measure_restore m k)" using o at op by (simp add: time_ok_def measure_restore_def)
  show "time_ok now (measure_restart fl (measure_restore m k) Dropout ps (bd_at (mk_boundary k))) \<and>
      iv_end (ms_running (measure_restart fl (measure_restore m k) Dropout ps (bd_at (mk_boundary k)))) \<le> bd_at (mk_boundary k) \<and> bd_at (mk_boundary k) \<le> now"
    using o at ordered_restart [OF restored, of "bd_at (mk_boundary k)"] by (simp add: time_ok_def interval_new_def measure_restore_def)
qed (auto simp: time_ok_def)

lemma time_ok_mono: "time_ok now m \<Longrightarrow> now \<le> later \<Longrightarrow> time_ok later m"
  by (fastforce simp: time_ok_def)

lemma run_time:
  assumes "sorted (at # map op_time ops)"
  shows "time_ok (last (at # map op_time ops)) (measure_run fl stage participants at ops)"
  using assms
proof (induction ops rule: rev_induct)
  case Nil
  then show ?case by (simp add: measure_run_def measure_new_def time_ok_def ordered_def measure_intervals_def interval_new_def MAX_INTERVALS_def)
next
  case (snoc x ops)
  let ?m = "measure_run fl stage participants at ops"
  have before: "last (at # map op_time ops) \<le> op_time x" using snoc(2) by (auto simp: sorted_append last_map split: if_splits)
  have old: "time_ok (last (at # map op_time ops)) ?m" using snoc by (auto simp: sorted_append)
  then have ok: "time_ok (op_time x) ?m" and ends: "iv_end (ms_running ?m) \<le> op_time x"
    using before time_ok_mono by (blast, auto simp: time_ok_def)
  show ?case
  proof (cases x)
    case (Observed b)
    then show ?thesis using order.observe_keeps [OF ok, of b] ends by simp
  next
    case (Departed survivors t)
    have "time_ok (op_time x) (measure_restart fl ?m Dropout survivors t)"
      using ok ends ordered_restart [of ?m t] by (auto simp: time_ok_def interval_new_def Departed)
    then show ?thesis using order.dropout_keeps [OF ok _ TrueI] by (simp add: Departed)
  qed
qed

text \<open>
  What becomes of the intervals that ended before \<open>m\<^sub>0\<close>: the intervals kept are the last of those, unchanged, and of the one that ran and those begun since.
\<close>

definition keep_last :: "nat \<Rightarrow> 'a list \<Rightarrow> 'a list" where
  "keep_last n xs = drop (length xs - n) xs"

definition continues :: "'f measure \<Rightarrow> 'f measure \<Rightarrow> bool" where
  "continues m\<^sub>0 m \<longleftrightarrow> ms_begun m\<^sub>0 \<le> ms_begun m \<and> length (ms_earlier m) < MAX_INTERVALS \<and>
     (\<exists>rest. length rest = ms_begun m - ms_begun m\<^sub>0 \<and> ms_earlier m = keep_last (MAX_INTERVALS - 1) (ms_earlier m\<^sub>0 @ rest)) \<and>
     (ms_open m = None \<longrightarrow> iv_window (ms_running m) = None)"

lemma keep_last_all: "length xs \<le> n \<Longrightarrow> keep_last n xs = xs"
  by (simp add: keep_last_def)

lemma length_keep_last [simp]: "length (keep_last n xs) = min (length xs) n"
  by (simp add: keep_last_def)

lemma keep_last_snoc: "keep_last (Suc n) (xs @ [x]) = keep_last n xs @ [x]"
  by (cases "length xs \<le> n") (simp_all add: keep_last_def Suc_diff_le)

lemma keep_last_again: "keep_last n (keep_last n xs @ [x]) = keep_last n (xs @ [x])"
  by (cases "length xs \<le> n"; cases n) (auto simp: keep_last_def Suc_diff_le Suc_diff_Suc)

lemma continues_same:
  "continues m\<^sub>0 m \<Longrightarrow> ms_earlier m' = ms_earlier m \<Longrightarrow> ms_begun m' = ms_begun m \<Longrightarrow> (ms_open m' = None \<longrightarrow> iv_window (ms_running m') = None) \<Longrightarrow> continues m\<^sub>0 m'"
  by (simp add: continues_def)

lemma continues_restart: "continues m\<^sub>0 m \<Longrightarrow> continues m\<^sub>0 (measure_restart fl m reason ps at)"
proof -
  assume ok: "continues m\<^sub>0 m"
  then obtain rest where rest: "length rest = ms_begun m - ms_begun m\<^sub>0" "ms_earlier m = keep_last (MAX_INTERVALS - 1) (ms_earlier m\<^sub>0 @ rest)"
    and short: "length (ms_earlier m) < MAX_INTERVALS" "ms_begun m\<^sub>0 \<le> ms_begun m" by (auto simp: continues_def)
  let ?m = "measure_restart fl m reason ps at"
  have "ms_earlier ?m = keep_last (MAX_INTERVALS - 1) (ms_earlier m @ [ms_running m])"
    using short(1) by (cases "ms_earlier m") (auto simp: measure_restart_def measure_intervals_def keep_last_def Let_def drop_Suc MAX_INTERVALS_def)
  then have "ms_earlier ?m = keep_last (MAX_INTERVALS - 1) (ms_earlier m\<^sub>0 @ rest @ [ms_running m])"
    unfolding rest(2) keep_last_again by simp
  moreover have "ms_begun ?m = ms_begun m + 1" by (simp add: measure_restart_def Let_def)
  moreover have "length (ms_earlier ?m) < MAX_INTERVALS" using calculation(1) by (simp add: MAX_INTERVALS_def)
  ultimately show ?thesis using rest(1) short(2) unfolding continues_def
    by (intro conjI exI [of _ "rest @ [ms_running m]"]) (simp_all add: interval_new_def)
qed

interpretation latest: measure_invariant fl "continues m\<^sub>0" "\<lambda>_ _. True" "\<lambda>_. True" for fl m\<^sub>0
proof
  fix m :: "'a measure" and b :: boundary and op k
  assume ok: "continues m\<^sub>0 m"
  show none: "ms_open m = None \<Longrightarrow> iv_window (ms_running m) = None" using ok by (simp add: continues_def)
  show "continues m\<^sub>0 (noted m b) \<and> True" using continues_same [OF ok, of "noted m b"] none by (simp add: noted_def measure_credit_def)
  show "continues m\<^sub>0 (measure_start m b)" by (rule continues_same [OF ok]) (simp_all add: measure_start_def Let_def)
  have "continues m\<^sub>0 (m\<lparr>ms_running := (ms_running m)\<lparr>iv_complete := False\<rparr>\<rparr>)" by (rule continues_same [OF ok]) (simp_all add: none)
  then show "continues m\<^sub>0 (measure_resume fl m b) \<and> True" unfolding measure_resume_def using continues_restart by blast
  show "continues m\<^sub>0 (measure_extend fl m op b sample full)" for sample full
    by (rule continues_same [OF ok]) (simp_all add: measure_extend_def Let_def)
  assume "ms_open m = Some op"
  then show restored: "continues m\<^sub>0 (measure_restore m k)" by (intro continues_same [OF ok]) (simp_all add: measure_restore_def)
  show "continues m\<^sub>0 (measure_restart fl (measure_restore m k) Dropout ps (bd_at (mk_boundary k))) \<and> True" for ps
    using continues_restart [OF restored] by simp
qed simp_all

lemma continues_run: "continues m\<^sub>0 m \<Longrightarrow> continues m\<^sub>0 (foldl (measure_step fl) m ops)"
proof (induction ops arbitrary: m)
  case (Cons x ops)
  have "continues m\<^sub>0 (measure_step fl m x)"
    using latest.observe_keeps [OF Cons.prems TrueI, of fl] latest.dropout_keeps [OF Cons.prems continues_restart [OF Cons.prems] TrueI, of fl]
    by (cases x) simp_all
  then show ?case using Cons.IH by simp
qed simp

lemma continues_refl: "length (ms_earlier m) < MAX_INTERVALS \<Longrightarrow> (ms_open m = None \<longrightarrow> iv_window (ms_running m) = None) \<Longrightarrow> continues m m"
  by (simp add: continues_def keep_last_all MAX_INTERVALS_def)

text \<open>
  C34. The intervals of a stage are kept in the order of time and never overlap, and none ends before it starts, whatever is observed and whoever departs as time goes on. They are
  the latest: as many as were begun up to 128, and at any point of the run the intervals that had ended before stay as they were, only the oldest ones beyond 128 being forgotten.
\<close>

theorem intervals_ordered:
  assumes "sorted (at # map op_time (ops @ since))" and "m = measure_run fl stage participants at ops" and "m' = measure_run fl stage participants at (ops @ since)"
    and "ivs = measure_intervals m'"
  shows "(\<forall>i < length ivs. iv_start (ivs ! i) \<le> iv_end (ivs ! i)) \<and> (\<forall>i j. i < j \<and> j < length ivs \<longrightarrow> iv_end (ivs ! i) \<le> iv_start (ivs ! j)) \<and>
    length ivs = min MAX_INTERVALS (ms_begun m') \<and>
    (\<exists>rest. length rest = ms_begun m' - ms_begun m + 1 \<and> ivs = keep_last MAX_INTERVALS (ms_earlier m @ rest))"
proof -
  have new: "continues (measure_new fl stage participants at) (measure_new fl stage participants at)"
    by (rule continues_refl) (simp_all add: measure_new_def interval_new_def MAX_INTERVALS_def)
  have first: "continues (measure_new fl stage participants at) m" and whole: "continues (measure_new fl stage participants at) m'"
    unfolding assms(2,3) measure_run_def by (rule continues_run [OF new])+
  have "continues m m'" unfolding assms(2,3) measure_run_def foldl_append
    by (intro continues_run continues_refl) (use first in \<open>simp_all add: continues_def assms(2) measure_run_def\<close>)
  then obtain rest where "length rest = ms_begun m' - ms_begun m" "ms_earlier m' = keep_last (MAX_INTERVALS - 1) (ms_earlier m @ rest)"
    by (auto simp: continues_def)
  then have "\<exists>rest. length rest = ms_begun m' - ms_begun m + 1 \<and> ivs = keep_last MAX_INTERVALS (ms_earlier m @ rest)"
    using keep_last_snoc [of "MAX_INTERVALS - 1" "ms_earlier m @ rest" "ms_running m'"]
    by (intro exI [of _ "rest @ [ms_running m']"]) (simp add: assms(4) measure_intervals_def MAX_INTERVALS_def)
  moreover have "length ivs = min MAX_INTERVALS (ms_begun m')"
    using whole by (auto simp: continues_def assms(4) measure_intervals_def measure_new_def MAX_INTERVALS_def)
  moreover have "ordered ivs" using run_time [OF assms(1), of fl stage participants] by (simp add: time_ok_def assms(3,4))
  ultimately show ?thesis by (auto simp: ordered_def sorted_wrt_iff_nth_less)
qed

subsection \<open>A sample run\<close>

definition sample_rates :: "nat rates" where
  "sample_rates = \<lparr>ra_quotient = (\<lambda>n t. n * 1000000000 div t), ra_sum = sum_list, ra_max = max, ra_zero = 0\<rparr>"

definition sample_boundary :: "nat \<Rightarrow> u64 \<Rightarrow> boundary" where
  "sample_boundary at n = \<lparr>bd_at = at, bd_stalled = False, bd_last = False, bd_readings = [\<lparr>rd_server = ''a'', rd_down = Some n, rd_up = None, rd_fed = None\<rparr>]\<rparr>"

definition sample_ops :: "measure_op list" where
  "sample_ops = [Observed (sample_boundary 0 5), Observed (sample_boundary 1000000000 1005)]"

lemmas sample_defs = sample_ops_def sample_boundary_def sample_rates_def measure_run_def observe.simps measure_new_def measure_credit_def credit_reading_to_def credit_down_def
  reading_feds_def interval_new_def boundary_complete_def boundary_reading_def stage_moves_def measure_start_def mark_of_def window_of_def pair_readings_def component_down_def
  component_of_def window_rate_def measure_extend_def extend_peak_def extend_interval_def window_shortest_def peaks_record_def peaks_direction_def peaks_default_def dir_both_def
  dir_set_def dir_at_def sat_add_def MIN_PEAK_def measure_intervals_def

lemma sample_run: "measure_result sample_rates (measure_run sample_rates DownloadStage [''a''] 0 sample_ops) Down = Some \<lparr>rt_mean = 1000, rt_peak = 1000\<rparr>"
  by (simp add: sample_defs Let_def measure_result_def measure_counted_def evidence_def MIN_EVIDENCE_def)

theorem headline_is_evidence_witness:
  "measure_result sample_rates (measure_run sample_rates DownloadStage [''a''] 0 sample_ops) Down = Some \<lparr>rt_mean = 1000, rt_peak = 1000\<rparr> \<and>
   (\<exists>iv \<in> set (measure_intervals (measure_run sample_rates DownloadStage [''a''] 0 sample_ops)). \<exists>moved.
     iv_participants iv = [''a''] \<and> length moved = 1 \<and> 1000 = ra_sum sample_rates (map (\<lambda>(n, t). ra_quotient sample_rates n t) moved))"
proof
  have none: "Departed ps t \<notin> set sample_ops" for ps t by (simp add: sample_ops_def)
  show "\<exists>iv \<in> set (measure_intervals (measure_run sample_rates DownloadStage [''a''] 0 sample_ops)). \<exists>moved.
     iv_participants iv = [''a''] \<and> length moved = 1 \<and> 1000 = ra_sum sample_rates (map (\<lambda>(n, t). ra_quotient sample_rates n t) moved)"
    using headline_is_evidence [OF refl, of sample_rates DownloadStage "[''a'']" 0 sample_ops Down "\<lparr>rt_mean = 1000, rt_peak = 1000\<rparr>" "''a''"] sample_run
    by (auto simp: none dest!: list_all2_lengthD)
qed (rule sample_run)

theorem bytes_counted_once_witness:
  "measure_bytes (measure_run sample_rates DownloadStage [''a''] 0 sample_ops) ''a'' Down = 1000 \<and>
   measure_bytes (measure_run sample_rates DownloadStage [''a''] 0 sample_ops) ''a'' Up = 0"
  using bytes_counted_once [of "''a''" "[''a'']" _ sample_ops, OF _ refl refl, of sample_rates DownloadStage 0]
  by (simp add: sample_ops_def sample_boundary_def server_readings_def down_counts_def reading_feds_def max_def)

text \<open>The same run with a second server, which departs, and a stalled boundary: three intervals.\<close>

definition sample_more :: "measure_op list" where
  "sample_more = [Departed [''a''] 2000000000, Observed (sample_boundary 2000000000 2005), Observed ((sample_boundary 3000000000 3005)\<lparr>bd_stalled := True\<rparr>)]"

theorem intervals_ordered_witness:
  "\<exists>ivs rest. ivs = measure_intervals (measure_run sample_rates DownloadStage [''a'', ''b''] 0 (sample_ops @ sample_more)) \<and>
     length ivs = 3 \<and> iv_end (ivs ! 0) \<le> iv_start (ivs ! 1) \<and> ivs = keep_last MAX_INTERVALS rest"
proof -
  let ?m = "measure_run sample_rates DownloadStage [''a'', ''b''] 0 sample_ops" and ?m' = "measure_run sample_rates DownloadStage [''a'', ''b''] 0 (sample_ops @ sample_more)"
  have "sorted (0 # map op_time (sample_ops @ sample_more))" by (simp add: sample_ops_def sample_more_def sample_boundary_def)
  note R = intervals_ordered [OF this refl refl refl, of sample_rates DownloadStage "[''a'', ''b'']"]
  have "ms_begun ?m' = 3"
    by (simp add: sample_defs sample_more_def Let_def dropout_def departed_marks_def measure_restart_def measure_resume_def)
  then have "length (measure_intervals ?m') = 3" using R by (simp add: MAX_INTERVALS_def)
  moreover have "iv_end (measure_intervals ?m' ! 0) \<le> iv_start (measure_intervals ?m' ! 1)"
    using R [THEN conjunct2, THEN conjunct1, rule_format, of 0 1] calculation by simp
  moreover obtain rest where "measure_intervals ?m' = keep_last MAX_INTERVALS (ms_earlier ?m @ rest)" using R by blast
  ultimately show ?thesis by (intro exI [of _ "measure_intervals ?m'"] exI [of _ "ms_earlier ?m @ rest"]) simp
qed

end
