(* ===== verification/Durations.thy ===== *)
theory Durations
  imports Decimal
begin

text \<open>
  Durations as flags and variables spell them, \<^verbatim>\<open>rust/proto/src/duration.rs\<close>. A text is its bytes and a \<open>Duration\<close> its nanoseconds; the
  sums are of type \<open>u128\<close>, with the checks of the source.
\<close>

subsection \<open>The model\<close>

datatype duration_error = InvalidDuration | DurationTooLong | NegativeDuration

definition UNITS :: "(bytes \<times> nat) list" where
  "UNITS = [(as_bytes ''ns'', 1), (as_bytes ''us'', 1000), (as_bytes ''ms'', 1000000), (as_bytes ''s'', 1000000000),
     (as_bytes ''m'', 60000000000), (as_bytes ''h'', 3600000000000)]"

definition FRACTION_DIGITS :: nat where "FRACTION_DIGITS = 20"

definition u128_max :: nat where "u128_max = 2 ^ 128 - 1"

definition checked :: "nat \<Rightarrow> nat option" where
  "checked n = (if n \<le> u128_max then Some n else None)"

definition is_ascii_alphabetic :: "u8 \<Rightarrow> bool" where
  "is_ascii_alphabetic b \<longleftrightarrow> 0x41 \<le> b \<and> b \<le> 0x5a \<or> 0x61 \<le> b \<and> b \<le> 0x7a"

definition digits_split :: "bytes \<Rightarrow> bytes \<times> bytes" where
  "digits_split bytes = (takeWhile is_ascii_digit bytes, dropWhile is_ascii_digit bytes)"

text \<open>\<open>decimal\<close>, a \<open>try_fold\<close>.\<close>

fun decimal_fold :: "nat \<Rightarrow> bytes \<Rightarrow> nat option" where
  "decimal_fold acc [] = Some acc"
| "decimal_fold acc (d # ds) = (case checked (acc * 10) of
       None \<Rightarrow> None
     | Some acc \<Rightarrow> (case checked (acc + (unat d - 48)) of None \<Rightarrow> None | Some acc \<Rightarrow> decimal_fold acc ds))"

definition find_unit :: "bytes \<Rightarrow> nat option" where
  "find_unit unit = map_option snd (find (\<lambda>(name, _). name = unit) UNITS)"

text \<open>One number with its unit: the new sum and the bytes after it.\<close>

definition duration_part :: "bytes \<Rightarrow> nat \<Rightarrow> duration_error + (nat \<times> bytes)" where
  "duration_part rest nanos =
     (let (whole, after) = digits_split rest;
          (fraction, after) = (if after \<noteq> [] \<and> hd after = 0x2e then digits_split (tl after) else ([], after));
          (unit, after) = (takeWhile is_ascii_alphabetic after, dropWhile is_ascii_alphabetic after)
      in case find_unit unit of
          None \<Rightarrow> Inl InvalidDuration
        | Some unit \<Rightarrow>
            if whole = [] \<and> fraction = [] then Inl InvalidDuration
            else let fraction = take FRACTION_DIGITS fraction
                 in (case decimal_fold 0 fraction of
                       None \<Rightarrow> Inl DurationTooLong
                     | Some fraction_value \<Rightarrow>
                         let fraction_nanos = fraction_value * unit div 10 ^ length fraction
                         in (case Option.bind (decimal_fold 0 whole) (\<lambda>whole. Option.bind (checked (whole * unit)) (\<lambda>sum.
                                  Option.bind (checked (sum + fraction_nanos)) (\<lambda>sum. checked (sum + nanos)))) of
                               None \<Rightarrow> Inl DurationTooLong
                             | Some nanos \<Rightarrow> Inr (nanos, after))))"

lemma UNITS_names: "(name, n) \<in> set UNITS \<Longrightarrow> name \<noteq> [] \<and> list_all is_ascii_alphabetic name \<and> 0 < n"
  by (auto simp: UNITS_def as_bytes_def is_ascii_alphabetic_def of_char_def)

lemma find_unit_Some: "find_unit unit = Some n \<Longrightarrow> unit \<noteq> []"
  using UNITS_names by (auto simp: find_unit_def find_Some_iff) (metis nth_mem)

lemma dropWhile_shorter: "takeWhile P xs \<noteq> [] \<Longrightarrow> length (dropWhile P xs) < length xs"
  by (cases xs) (auto simp: less_Suc_eq_le length_dropWhile_le split: if_splits)

lemma duration_part_shorter: "duration_part rest nanos = Inr (n, after) \<Longrightarrow> length after < length rest"
proof -
  assume run: "duration_part rest nanos = Inr (n, after)"
  let ?a = "dropWhile is_ascii_digit rest"
  let ?b = "if ?a \<noteq> [] \<and> hd ?a = 0x2e then dropWhile is_ascii_digit (tl ?a) else ?a"
  have "find_unit (takeWhile is_ascii_alphabetic ?b) \<noteq> None \<and> after = dropWhile is_ascii_alphabetic ?b"
    using run by (cases "?a \<noteq> [] \<and> hd ?a = 0x2e") (auto simp: duration_part_def digits_split_def Let_def split: option.splits if_splits)
  then have some: "takeWhile is_ascii_alphabetic ?b \<noteq> []" and after: "after = dropWhile is_ascii_alphabetic ?b" using find_unit_Some by blast+
  have "length after < length ?b" unfolding after by (rule dropWhile_shorter [OF some])
  also have "length ?b \<le> length ?a" using length_dropWhile_le [of is_ascii_digit "tl ?a"] by (auto intro: le_trans [OF _ diff_le_self])
  also have "length ?a \<le> length rest" by (rule length_dropWhile_le)
  finally show ?thesis .
qed

function duration_loop :: "bytes \<Rightarrow> nat \<Rightarrow> duration_error + nat" where
  "duration_loop rest nanos =
     (if rest = [] then Inr nanos
      else case duration_part rest nanos of Inl e \<Rightarrow> Inl e | Inr (nanos, after) \<Rightarrow> duration_loop after nanos)"
  by pat_completeness auto
termination by (relation "measure (\<lambda>(rest, _). length rest)") (auto dest: duration_part_shorter)

declare duration_loop.simps [simp del]

definition duration_parse :: "bytes \<Rightarrow> duration_error + nat" where
  "duration_parse text =
     (if text = as_bytes ''0'' then Inr 0
      else if text = [] then Inl InvalidDuration
      else if hd text = 0x2d then Inl NegativeDuration
      else case duration_loop text 0 of
          Inl e \<Rightarrow> Inl e
        | Inr nanos \<Rightarrow> if nanos < 2 ^ 64 then Inr nanos else Inl DurationTooLong)"

definition trim_zeros :: "bytes \<Rightarrow> bytes" where
  "trim_zeros ds = rev (dropWhile (\<lambda>b. b = 0x30) (rev ds))"

text \<open>\<open>ilog10\<close> counts the digits after the first.\<close>

definition ilog10 :: "nat \<Rightarrow> nat" where
  "ilog10 n = length (show_decimal n) - 1"

definition fixed :: "nat \<Rightarrow> nat \<Rightarrow> bytes" where
  "fixed val scale =
     (let whole = val div scale; fraction = val mod scale
      in if fraction = 0 then show_decimal whole
         else show_decimal whole @ as_bytes ''.'' @ trim_zeros (pad_decimal (ilog10 scale) fraction))"

definition duration_format :: "nat \<Rightarrow> bytes" where
  "duration_format nanos =
     (if nanos = 0 then as_bytes ''0s''
      else if nanos < 1000 then show_decimal nanos @ as_bytes ''ns''
      else if nanos < 1000000 then fixed nanos 1000 @ as_bytes ''us''
      else if nanos < 1000000000 then fixed nanos 1000000 @ as_bytes ''ms''
      else
        let hours = nanos div 3600000000000; minutes = nanos div 60000000000 mod 60; seconds = nanos mod 60000000000
        in (if hours > 0 then show_decimal hours @ as_bytes ''h'' else []) @
           (if minutes > 0 then show_decimal minutes @ as_bytes ''m'' else []) @
           (if seconds > 0 then fixed seconds 1000000000 @ as_bytes ''s'' else []))"

subsection \<open>One number with its unit\<close>

lemma takeWhile_prefix:
  assumes "list_all P xs" and "ys = [] \<or> \<not> P (hd ys)"
  shows "takeWhile P (xs @ ys) = xs" and "dropWhile P (xs @ ys) = ys"
proof -
  have "takeWhile P ys = []" and "dropWhile P ys = ys" using assms(2) by (cases ys; simp)+
  then show "takeWhile P (xs @ ys) = xs" and "dropWhile P (xs @ ys) = ys" using assms(1) by (simp_all add: list_all_iff)
qed

lemma decimal_fold_Some:
  "acc * 10 ^ length ds + digits_value ds \<le> u128_max \<Longrightarrow> decimal_fold acc ds = Some (acc * 10 ^ length ds + digits_value ds)"
proof (induction ds arbitrary: acc)
  case (Cons d ds)
  have val: "digits_value (d # ds) = (unat d - 48) * 10 ^ length ds + digits_value ds"
    using digits_value_append [of "[d]" ds] by (simp add: digits_value_def)
  let ?acc = "acc * 10 + (unat d - 48)"
  have sum: "acc * 10 ^ length (d # ds) + digits_value (d # ds) = ?acc * 10 ^ length ds + digits_value ds"
    by (simp add: val algebra_simps)
  then have le: "?acc * 10 ^ length ds + digits_value ds \<le> u128_max" using Cons.prems by simp
  have "?acc \<le> ?acc * 10 ^ length ds" by simp
  then have "?acc \<le> u128_max" using le by (meson le_add1 order_trans)
  then have "decimal_fold acc (d # ds) = decimal_fold ?acc ds" by (simp add: checked_def)
  then show ?case using Cons.IH [OF le] sum by simp
qed simp

definition point :: "bytes \<Rightarrow> bytes" where
  "point fraction = (if fraction = [] then [] else 0x2e # fraction)"

lemma UNITS_find: "(name, n) \<in> set UNITS \<Longrightarrow> find_unit name = Some n"
  by (auto simp: find_unit_def UNITS_def as_bytes_def of_char_def)

lemma alphabetic_not_digit: "is_ascii_alphabetic b \<Longrightarrow> \<not> is_ascii_digit b \<and> b \<noteq> 0x2e"
  by (auto simp: is_ascii_alphabetic_def is_ascii_digit_def word_le_nat_alt)

lemma duration_part_step:
  assumes whole: "whole \<noteq> []" "list_all is_ascii_digit whole" and fraction: "list_all is_ascii_digit fraction" "length fraction \<le> FRACTION_DIGITS"
    and unit: "(name, n) \<in> set UNITS" and rest: "rest = [] \<or> is_ascii_digit (hd rest)"
    and fits: "digits_value whole * n + digits_value fraction * n div 10 ^ length fraction + nanos \<le> u128_max"
  shows "duration_part (whole @ point fraction @ name @ rest) nanos =
           Inr (digits_value whole * n + digits_value fraction * n div 10 ^ length fraction + nanos, rest)"
proof -
  have name: "name \<noteq> []" "list_all is_ascii_alphabetic name" "1 \<le> n" using UNITS_names [OF unit] by auto
  then have first: "is_ascii_alphabetic (hd (name @ rest))" by (cases name) auto
  have rest': "rest = [] \<or> \<not> is_ascii_alphabetic (hd rest)" using rest alphabetic_not_digit by blast
  have notdigit: "\<not> is_ascii_digit (hd (name @ rest))" and nodot: "hd (name @ rest) \<noteq> 0x2e" using first alphabetic_not_digit by blast+
  have dot: "\<not> is_ascii_digit 0x2e" by (simp add: is_ascii_digit_def)
  have hd: "\<not> is_ascii_digit (hd (point fraction @ name @ rest))" using notdigit dot by (simp add: point_def)
  note split1 = takeWhile_prefix [OF whole(2) disjI2 [OF hd]]
  note split2 = takeWhile_prefix [OF fraction(1) disjI2 [OF notdigit]]
  note split3 = takeWhile_prefix [OF name(2) rest']
  let ?after = "point fraction @ name @ rest"
  have parts: "(if ?after \<noteq> [] \<and> hd ?after = 0x2e then digits_split (tl ?after) else ([], ?after)) = (fraction, name @ rest)"
    using nodot split2 by (simp add: point_def digits_split_def)
  have "digits_value fraction < 10 ^ length fraction" by (rule digits_value_bound [OF fraction(1)])
  also have "(10::nat) ^ length fraction \<le> 10 ^ FRACTION_DIGITS" using fraction(2) by (intro power_increasing) simp_all
  also have "(10::nat) ^ FRACTION_DIGITS \<le> u128_max" by (simp add: FRACTION_DIGITS_def u128_max_def)
  finally have fold1: "decimal_fold 0 fraction = Some (digits_value fraction)" using decimal_fold_Some [of 0 fraction] by simp
  have "digits_value whole * 1 \<le> digits_value whole * n" using name(3) by (intro mult_left_mono) simp_all
  then have "digits_value whole \<le> u128_max" using fits by linarith
  then have fold2: "decimal_fold 0 whole = Some (digits_value whole)" using decimal_fold_Some [of 0 whole] by simp
  have "digits_value whole * n + digits_value fraction * n div 10 ^ length fraction \<le> u128_max" and "digits_value whole * n \<le> u128_max"
    using fits by linarith+
  then show ?thesis using fits whole(1) fraction(2)
    by (simp add: duration_part_def digits_split_def [of "whole @ ?after"] split1 split3 parts [simplified] parts fold1 fold2 checked_def UNITS_find [OF unit])
qed

lemma show_part:
  assumes "(name, n) \<in> set UNITS" and "rest = [] \<or> is_ascii_digit (hd rest)" and "val * n + nanos \<le> u128_max"
  shows "duration_part (show_decimal val @ name @ rest) nanos = Inr (val * n + nanos, rest)"
  using duration_part_step [of "show_decimal val" "[]" name n rest nanos] show_decimal_digits [of val] assms by (simp add: point_def)

subsection \<open>Fractions\<close>

lemma trim_zeros_append: "\<exists>k. ds = trim_zeros ds @ replicate k (digit 0)"
proof -
  have "ds = rev (takeWhile (\<lambda>b. b = 0x30) (rev ds) @ dropWhile (\<lambda>b. b = 0x30) (rev ds))" by simp
  also have "\<dots> = trim_zeros ds @ rev (takeWhile (\<lambda>b. b = 0x30) (rev ds))" by (simp only: rev_append trim_zeros_def)
  finally have "ds = trim_zeros ds @ rev (takeWhile (\<lambda>b. b = 0x30) (rev ds))" .
  moreover have "rev (takeWhile (\<lambda>b. b = 0x30) (rev ds)) = replicate (length (takeWhile (\<lambda>b. b = 0x30) (rev ds))) (digit 0)"
    by (rule replicate_eqI) (auto simp: digit_def dest: set_takeWhileD)
  ultimately show ?thesis by metis
qed

lemma trim_zeros_value:
  assumes "list_all is_ascii_digit ds"
  shows "list_all is_ascii_digit (trim_zeros ds)" and "length (trim_zeros ds) \<le> length ds"
    and "digits_value ds = digits_value (trim_zeros ds) * 10 ^ (length ds - length (trim_zeros ds))"
proof -
  obtain k where k: "ds = trim_zeros ds @ replicate k (digit 0)" using trim_zeros_append by blast
  have len: "length ds = length (trim_zeros ds) + k" by (subst k) simp
  have "list_all is_ascii_digit (trim_zeros ds @ replicate k (digit 0))" using assms k by simp
  then show "list_all is_ascii_digit (trim_zeros ds)" by simp
  show "length (trim_zeros ds) \<le> length ds" using len by simp
  have "digits_value ds = digits_value (trim_zeros ds) * 10 ^ k"
    by (subst k) (use digits_value_zeros [of k "[]"] in \<open>simp add: digits_value_append\<close>)
  then show "digits_value ds = digits_value (trim_zeros ds) * 10 ^ (length ds - length (trim_zeros ds))" using len by simp
qed

lemma scaled_div: "l \<le> d \<Longrightarrow> (fr::nat) = x * 10 ^ (d - l) \<Longrightarrow> x * 10 ^ d div 10 ^ l = fr"
proof -
  assume "l \<le> d" and fr: "fr = x * 10 ^ (d - l)"
  then have "(10::nat) ^ d = 10 ^ (d - l) * 10 ^ l" by (simp add: power_add [symmetric])
  then show ?thesis using fr by (simp add: mult.assoc [symmetric])
qed

lemma ilog10_power [simp]: "ilog10 (10 ^ d) = d"
proof (induction d)
  case (Suc d)
  then show ?case using show_decimal_digits [of "10 ^ d"] by (cases d) (simp_all add: ilog10_def show_decimal.simps)
qed (simp add: ilog10_def show_decimal.simps)

lemma fixed_part:
  assumes unit: "(name, 10 ^ d) \<in> set UNITS" and d: "0 < d" "d \<le> FRACTION_DIGITS" and rest: "rest = [] \<or> is_ascii_digit (hd rest)"
    and fits: "val + nanos \<le> u128_max"
  shows "duration_part (fixed val (10 ^ d) @ name @ rest) nanos = Inr (val + nanos, rest)"
proof (cases "val mod 10 ^ d = 0")
  case True
  then have "val div 10 ^ d * 10 ^ d = val" by auto
  then show ?thesis using True show_part [OF unit rest, of "val div 10 ^ d" nanos] fits by (simp add: fixed_def)
next
  case False
  let ?ds = "pad_decimal d (val mod 10 ^ d)"
  let ?t = "trim_zeros ?ds"
  note t = trim_zeros_value [OF pad_decimal_digits, of d "val mod 10 ^ d"]
  have len: "length ?ds = d" by (rule pad_decimal_length) (use d in simp_all)
  have val: "val mod 10 ^ d = digits_value ?t * 10 ^ (d - length ?t)" using t(3) len by simp
  then have "?t \<noteq> []" using False by auto
  then have "fixed val (10 ^ d) = show_decimal (val div 10 ^ d) @ point ?t" using False by (simp add: fixed_def Let_def point_def as_bytes_def of_char_def)
  moreover have "digits_value ?t * 10 ^ d div 10 ^ length ?t = val mod 10 ^ d"
    by (rule scaled_div) (use t(2) len val in simp_all)
  moreover have "val div 10 ^ d * 10 ^ d + val mod 10 ^ d = val" by (rule div_mult_mod_eq)
  ultimately show ?thesis
    using duration_part_step [OF _ _ t(1) _ unit rest, of "show_decimal (val div 10 ^ d)" nanos] show_decimal_digits t(2) len d(2) fits by simp
qed

subsection \<open>Properties\<close>

lemma show_decimal_first: "is_ascii_digit (hd (show_decimal n @ ds))"
  using show_decimal_digits [of n] by (cases "show_decimal n") auto

lemma fixed_first: "is_ascii_digit (hd (fixed n d @ ds))" and fixed_some: "fixed n d \<noteq> []"
  using show_decimal_first show_decimal_digits by (auto simp: fixed_def Let_def)

lemma duration_loop_end [simp]: "duration_loop [] nanos = Inr nanos"
  by (simp add: duration_loop.simps)

lemma duration_loop_part: "duration_part rest nanos = Inr (n, after) \<Longrightarrow> rest \<noteq> [] \<Longrightarrow> duration_loop rest nanos = duration_loop after n"
  by (simp add: duration_loop.simps [of rest])

lemma units_listed:
  "(as_bytes ''ns'', 1) \<in> set UNITS" "(as_bytes ''us'', 10 ^ 3) \<in> set UNITS" "(as_bytes ''ms'', 10 ^ 6) \<in> set UNITS"
  "(as_bytes ''s'', 10 ^ 9) \<in> set UNITS" "(as_bytes ''m'', 60000000000) \<in> set UNITS" "(as_bytes ''h'', 3600000000000) \<in> set UNITS"
  by (simp_all add: UNITS_def)

lemma show_loop:
  assumes "(name, n) \<in> set UNITS" and "rest = [] \<or> is_ascii_digit (hd rest)" and "val * n + nanos < 2 ^ 64"
  shows "duration_loop (show_decimal val @ name @ rest) nanos = duration_loop rest (val * n + nanos)"
  by (rule duration_loop_part [OF show_part]) (use assms show_decimal_digits in \<open>simp_all add: u128_max_def\<close>)

lemma optional_loop:
  assumes "(name, n) \<in> set UNITS" and "rest = [] \<or> is_ascii_digit (hd rest)" and "val * n + nanos < 2 ^ 64"
  shows "duration_loop ((if val > 0 then show_decimal val @ name else []) @ rest) nanos = duration_loop rest (val * n + nanos)"
  using show_loop [OF assms] by (cases "val > 0") simp_all

lemma fixed_loop:
  assumes "(name, 10 ^ d) \<in> set UNITS" and "0 < d" "d \<le> FRACTION_DIGITS" and "val + nanos < 2 ^ 64"
  shows "duration_loop (fixed val (10 ^ d) @ name) nanos = Inr (val + nanos)"
proof -
  have "duration_part (fixed val (10 ^ d) @ name @ []) nanos = Inr (val + nanos, [])"
    by (rule fixed_part) (use assms in \<open>simp_all add: u128_max_def\<close>)
  then show ?thesis using duration_loop_part [of "fixed val (10 ^ d) @ name"] fixed_some by simp
qed

lemma format_large:
  assumes "1000000000 \<le> nanos" and "nanos < 2 ^ 64"
  shows "duration_loop (duration_format nanos) 0 = Inr nanos"
proof -
  let ?h = "nanos div 3600000000000" and ?m = "nanos div 60000000000 mod 60" and ?s = "nanos mod 60000000000"
  let ?S = "if ?s > 0 then fixed ?s 1000000000 @ as_bytes ''s'' else []"
  let ?M = "(if ?m > 0 then show_decimal ?m @ as_bytes ''m'' else []) @ ?S"
  have sum: "?s + (?m * 60000000000 + ?h * 3600000000000) = nanos"
    using div_mult_mod_eq [of nanos 60000000000] div_mult_mod_eq [of "nanos div 60000000000" 60]
    unfolding div_mult2_eq [of nanos 60000000000 60, simplified] by linarith
  then have small: "?h * 3600000000000 < 2 ^ 64" "?m * 60000000000 + ?h * 3600000000000 < 2 ^ 64" "?s + (?m * 60000000000 + ?h * 3600000000000) < 2 ^ 64"
    using assms(2) by linarith+
  have S: "?S = [] \<or> is_ascii_digit (hd ?S)" using fixed_first by simp
  have M: "?M = [] \<or> is_ascii_digit (hd ?M)" using S show_decimal_first by (cases "?m > 0") simp_all
  have "duration_format nanos = (if ?h > 0 then show_decimal ?h @ as_bytes ''h'' else []) @ ?M"
    using assms(1) by (simp only: duration_format_def Let_def) simp
  then have "duration_loop (duration_format nanos) 0 = duration_loop ?M (?h * 3600000000000)"
    using optional_loop [OF units_listed(6) M, of ?h 0] small(1) by (simp only: add_0_right)
  also have "\<dots> = duration_loop ?S (?m * 60000000000 + ?h * 3600000000000)"
    by (rule optional_loop [OF units_listed(5) S small(2)])
  also have "\<dots> = Inr (?s + (?m * 60000000000 + ?h * 3600000000000))"
    using fixed_loop [OF units_listed(4), of ?s "?m * 60000000000 + ?h * 3600000000000"] small(3) by (simp add: FRACTION_DIGITS_def)
  finally show ?thesis unfolding sum .
qed

lemma duration_format_loop:
  assumes "nanos < 2 ^ 64"
  shows "duration_loop (duration_format nanos) 0 = Inr nanos"
proof -
  consider "nanos = 0" | "0 < nanos" "nanos < 1000" | "1000 \<le> nanos" "nanos < 1000000"
    | "1000000 \<le> nanos" "nanos < 1000000000" | "1000000000 \<le> nanos" by linarith
  then show ?thesis
  proof cases
    case 1
    have "as_bytes ''0s'' = show_decimal 0 @ as_bytes ''s'' @ []" by (simp add: show_decimal.simps [of 0] digit_def as_bytes_def of_char_def)
    then show ?thesis using 1 show_loop [OF units_listed(4), of "[]" 0 0] by (simp add: duration_format_def)
  next
    case 2
    then show ?thesis using show_loop [OF units_listed(1), of "[]" nanos 0] assms by (simp add: duration_format_def)
  next
    case 3
    then show ?thesis using fixed_loop [OF units_listed(2), of nanos 0] assms by (simp add: duration_format_def FRACTION_DIGITS_def)
  next
    case 4
    then show ?thesis using fixed_loop [OF units_listed(3), of nanos 0] assms by (simp add: duration_format_def FRACTION_DIGITS_def)
  next
    case 5
    then show ?thesis using format_large assms by blast
  qed
qed

lemma duration_loop_unread: "duration_loop (as_bytes ''0'') 0 = Inl InvalidDuration"
  and duration_loop_minus: "hd bs = 0x2d \<Longrightarrow> bs \<noteq> [] \<Longrightarrow> duration_loop bs 0 = Inl InvalidDuration"
proof -
  show "duration_loop (as_bytes ''0'') 0 = Inl InvalidDuration"
    by (simp add: duration_loop.simps duration_part_def digits_split_def is_ascii_digit_def as_bytes_def of_char_def find_unit_def UNITS_def)
  assume "hd bs = 0x2d" "bs \<noteq> []"
  then have "takeWhile is_ascii_digit bs = []" "dropWhile is_ascii_digit bs = bs" "takeWhile is_ascii_alphabetic bs = []"
    by (cases bs; simp add: is_ascii_digit_def is_ascii_alphabetic_def)+
  moreover have "find_unit [] = None" using find_unit_Some by (cases "find_unit []") blast+
  ultimately show "duration_loop bs 0 = Inl InvalidDuration" using \<open>hd bs = 0x2d\<close> \<open>bs \<noteq> []\<close>
    by (simp add: duration_loop.simps [of bs] duration_part_def digits_split_def)
qed

text \<open>
  C40. A duration written by \<open>format\<close> is read back by \<open>parse\<close> to the nanosecond, for every duration that \<open>parse\<close> can answer: hours, minutes,
  the decimal fractions without their trailing zeros and the sums of the parts, which stay within \<open>u128\<close>.
\<close>

theorem duration_round_trip: "nanos < 2 ^ 64 \<Longrightarrow> duration_parse (duration_format nanos) = Inr nanos"
proof -
  assume nanos: "nanos < 2 ^ 64"
  note loop = duration_format_loop [OF nanos]
  have "duration_format nanos \<noteq> as_bytes ''0''" using loop duration_loop_unread by auto
  moreover have some: "duration_format nanos \<noteq> []" using loop by (cases "nanos = 0") (auto simp: duration_format_def as_bytes_def)
  moreover have "hd (duration_format nanos) \<noteq> 0x2d" using loop duration_loop_minus some by auto
  ultimately show ?thesis using loop nanos by (simp add: duration_parse_def)
qed

theorem duration_round_trip_witness: "duration_parse (duration_format 5400250000000) = Inr 5400250000000"
  by (rule duration_round_trip) simp

end
