(* ===== verification/Calendar.thy ===== *)
theory Calendar
  imports Main
begin

text \<open>
  Calendar time, \<^verbatim>\<open>rust/server/src/clock.rs\<close>: seconds since 1970 and the fields of a UTC date. A \<open>u64\<close> is an integer that is not negative; \<open>None\<close> of a
  \<open>checked_sub\<close> is a negative difference. Years are far below where the other sums would overflow.
\<close>

subsection \<open>The model\<close>

type_synonym date = "int \<times> int \<times> int \<times> int \<times> int \<times> int"

definition is_leap :: "int \<Rightarrow> bool" where
  "is_leap year \<longleftrightarrow> year mod 4 = 0 \<and> (year mod 100 \<noteq> 0 \<or> year mod 400 = 0)"

definition month_days :: "int \<Rightarrow> int \<Rightarrow> int" where
  "month_days year month = (if month = 2 then 28 + (if is_leap year then 1 else 0) else if month \<in> {4, 6, 9, 11} then 30 else 31)"

text \<open>The days before a year of an era, both starting in March.\<close>

definition year_days :: "int \<Rightarrow> int" where
  "year_days year_of_era = year_of_era * 365 + year_of_era div 4 - year_of_era div 100"

definition utc :: "date \<Rightarrow> int option" where
  "utc d = (case d of (year, month, day, hour, minute, sec) \<Rightarrow>
     if \<not> (1 \<le> month \<and> month \<le> 12 \<and> 1 \<le> day \<and> day \<le> month_days year month) \<or> hour > 23 \<or> minute > 59 \<or> sec > 59 then None
     else let year = year - (if month \<le> 2 then 1 else 0)
          in if year < 0 then None
             else let year_of_era = year mod 400; day_of_year = (153 * ((month + 9) mod 12) + 2) div 5 + day - 1;
                      days = year div 400 * 146097 + year_days year_of_era + day_of_year
                  in if days - 719468 < 0 then None
                     else Some ((days - 719468) * 86400 + hour * 3600 + minute * 60 + sec))"

definition era_year :: "int \<Rightarrow> int" where
  "era_year day_of_era = (day_of_era - day_of_era div 1460 + day_of_era div 36524 - day_of_era div 146096) div 365"

definition date_fields :: "int \<Rightarrow> date" where
  "date_fields seconds =
     (let shifted = seconds div 86400 + 719468; era = shifted div 146097; day_of_era = shifted mod 146097;
          year_of_era = era_year day_of_era; day_of_year = day_of_era - year_days year_of_era;
          month_index = (5 * day_of_year + 2) div 153; day = day_of_year - (153 * month_index + 2) div 5 + 1;
          month = (if month_index < 10 then month_index + 3 else month_index - 9);
          year = year_of_era + era * 400 + (if month \<le> 2 then 1 else 0)
      in (year, month, day, seconds div 3600 mod 24, seconds div 60 mod 60, seconds mod 60))"

subsection \<open>Years and days of an era\<close>

definition count_upto :: "int \<Rightarrow> (int \<Rightarrow> bool) \<Rightarrow> bool" where
  "count_upto n P \<longleftrightarrow> list_all P [0..n]"

lemma count_uptoD: "count_upto n P \<Longrightarrow> 0 \<le> k \<Longrightarrow> k \<le> n \<Longrightarrow> P k"
  by (simp add: count_upto_def list_all_iff)

text \<open>The first and the last day of each year of an era lie in that year.\<close>

lemma era_year_ends: "count_upto 399 (\<lambda>y. era_year (year_days y) = y \<and> era_year ((if y = 399 then 146097 else year_days (y + 1)) - 1) = y)"
  by code_simp

definition year_end :: "int \<Rightarrow> int" where
  "year_end y = (if y = 399 then 146097 else year_days (y + 1)) - 1"

lemma sub_div_mono: "0 < k \<Longrightarrow> x \<le> y \<Longrightarrow> x - x div k \<le> y - y div k" for x y k :: int
proof -
  assume k: "0 < k" and le: "x \<le> y"
  have "y - x \<le> k * (y - x)" using k le mult_right_mono [of 1 k "y - x"] by simp
  then have "y div k \<le> (x + k * (y - x)) div k" using k by (intro zdiv_mono1) simp_all
  also have "\<dots> = x div k + (y - x)" using k by simp
  finally show ?thesis by simp
qed

lemma era_year_mono: "a \<le> b \<Longrightarrow> era_year a \<le> era_year b"
proof -
  assume le: "a \<le> b"
  have four: "d div 146096 = d div 36524 div 4" for d :: int using zdiv_zmult2_eq [of 4 d 36524] by simp
  have "a div 36524 \<le> b div 36524" using le by (intro zdiv_mono1) simp_all
  then have "a div 36524 - a div 146096 \<le> b div 36524 - b div 146096" unfolding four by (intro sub_div_mono) simp_all
  moreover have "a - a div 1460 \<le> b - b div 1460" by (rule sub_div_mono [OF _ le]) simp
  ultimately show ?thesis unfolding era_year_def by (intro zdiv_mono1) simp_all
qed

lemma era_year_unique: "0 \<le> y \<Longrightarrow> y \<le> 399 \<Longrightarrow> year_days y \<le> d \<Longrightarrow> d \<le> year_end y \<Longrightarrow> era_year d = y"
  using count_uptoD [OF era_year_ends, of y] era_year_mono [of "year_days y" d] era_year_mono [of d "year_end y"] by (simp add: year_end_def)

lemma year_lengths: "count_upto 399 (\<lambda>y. year_end y = year_days y + 364 + (if is_leap (y + 1) then 1 else 0))"
  by code_simp

lemma era_year_exists:
  assumes "0 \<le> d" and "d < 146097"
  obtains y where "0 \<le> y" and "y \<le> 399" and "year_days y \<le> d" and "d \<le> year_end y"
proof -
  define years where "years = {y \<in> {0..399}. year_days y \<le> d}"
  have "0 \<in> years" using assms(1) by (simp add: years_def year_days_def)
  moreover have "finite years" unfolding years_def by (rule finite_subset [of _ "{0..399}"]) auto
  ultimately have max: "Max years \<in> years" "\<And>y. y \<in> years \<Longrightarrow> y \<le> Max years" by (auto intro: Max_in)
  have "d \<le> year_end (Max years)"
  proof (cases "Max years = 399")
    case True
    then show ?thesis using assms(2) by (simp add: year_end_def)
  next
    case False
    have "Max years + 1 \<notin> years" using max(2) [of "Max years + 1"] by auto
    then show ?thesis using False max(1) by (auto simp: years_def year_end_def)
  qed
  then show ?thesis using that [of "Max years"] max(1) by (simp add: years_def)
qed

lemma is_leap_era: "is_leap (year + era * 400) \<longleftrightarrow> is_leap year"
proof -
  have "(year + era * 400) mod 4 = year mod 4" using mod_mult_self1 [of year "era * 100" 4] by (simp add: mult.commute)
  moreover have "(year + era * 400) mod 100 = year mod 100" using mod_mult_self1 [of year "era * 4" 100] by (simp add: mult.commute)
  moreover have "(year + era * 400) mod 400 = year mod 400" by simp
  ultimately show ?thesis by (simp add: is_leap_def)
qed

subsection \<open>Months and days of a year\<close>

text \<open>The longest a month is, by its index from March; \<open>full\<close> tells whether the year ends with a leap day.\<close>

definition index_days :: "bool \<Rightarrow> int \<Rightarrow> int" where
  "index_days full i = (if i = 11 then 28 + (if full then 1 else 0) else if i \<in> {1, 3, 6, 8} then 30 else 31)"

definition year_day :: "int \<Rightarrow> int \<Rightarrow> int" where
  "year_day i day = (153 * i + 2) div 5 + day - 1"

definition month_of :: "int \<Rightarrow> int" where
  "month_of i = (if i < 10 then i + 3 else i - 9)"

lemma days_to_months: "count_upto 365 (\<lambda>n. let i = (5 * n + 2) div 153; day = n - (153 * i + 2) div 5 + 1
    in 0 \<le> i \<and> i \<le> 11 \<and> 1 \<le> day \<and> day \<le> index_days (n = 365) i \<and> year_day i day = n)"
  by code_simp

lemma months_to_days: "count_upto 11 (\<lambda>i. count_upto 30 (\<lambda>d. d + 1 \<le> index_days True i \<longrightarrow>
    0 \<le> year_day i (d + 1) \<and> year_day i (d + 1) \<le> 365 \<and> (d + 1 \<le> index_days False i \<longrightarrow> year_day i (d + 1) \<le> 364) \<and> (5 * year_day i (d + 1) + 2) div 153 = i))"
  by code_simp

lemma month_index: "count_upto 11 (\<lambda>i. 1 \<le> month_of i \<and> month_of i \<le> 12 \<and> (month_of i + 9) mod 12 = i)"
  "1 \<le> month \<Longrightarrow> month \<le> 12 \<Longrightarrow> month_of ((month + 9) mod 12) = month \<and> 0 \<le> (month + 9) mod 12 \<and> (month + 9) mod 12 \<le> 11"
proof -
  show "count_upto 11 (\<lambda>i. 1 \<le> month_of i \<and> month_of i \<le> 12 \<and> (month_of i + 9) mod 12 = i)" by code_simp
  have all: "count_upto 11 (\<lambda>m. month_of ((m + 1 + 9) mod 12) = m + 1 \<and> 0 \<le> (m + 1 + 9) mod 12 \<and> (m + 1 + 9) mod 12 \<le> 11)" by code_simp
  show "1 \<le> month \<Longrightarrow> month \<le> 12 \<Longrightarrow> month_of ((month + 9) mod 12) = month \<and> 0 \<le> (month + 9) mod 12 \<and> (month + 9) mod 12 \<le> 11"
    using count_uptoD [OF all, of "month - 1"] by simp
qed

lemma month_days_index: "1 \<le> month \<Longrightarrow> month \<le> 12 \<Longrightarrow> month_days year month = index_days (is_leap year) ((month + 9) mod 12)"
proof -
  have all: "count_upto 11 (\<lambda>m. month_days 4 (m + 1) = index_days True ((m + 1 + 9) mod 12) \<and> month_days 1 (m + 1) = index_days False ((m + 1 + 9) mod 12))" by code_simp
  have "month_days year month = month_days (if is_leap year then 4 else 1) month" by (simp add: month_days_def is_leap_def)
  then show "1 \<le> month \<Longrightarrow> month \<le> 12 \<Longrightarrow> month_days year month = index_days (is_leap year) ((month + 9) mod 12)"
    using count_uptoD [OF all, of "month - 1"] by (simp split: if_splits)
qed

subsection \<open>Dates and seconds\<close>

lemma time_of_day: "0 \<le> t \<Longrightarrow> t div 86400 * 86400 + t div 3600 mod 24 * 3600 + t div 60 mod 60 * 60 + t mod 60 = t" for t :: int
proof -
  have "t div 3600 = t div 60 div 60" "t div 86400 = t div 3600 div 24" using zdiv_zmult2_eq [of 60 t 60] zdiv_zmult2_eq [of 24 t 3600] by simp_all
  then show ?thesis using div_mult_mod_eq [of t 60] div_mult_mod_eq [of "t div 60" 60] div_mult_mod_eq [of "t div 3600" 24] by linarith
qed

lemma day_parts: "0 \<le> h \<Longrightarrow> h \<le> 23 \<Longrightarrow> 0 \<le> m \<Longrightarrow> m \<le> 59 \<Longrightarrow> 0 \<le> s \<Longrightarrow> s \<le> 59 \<Longrightarrow> t = d * 86400 + h * 3600 + m * 60 + s \<Longrightarrow>
    t div 86400 = d \<and> t div 3600 mod 24 = h \<and> t div 60 mod 60 = m \<and> t mod 60 = s" for t :: int
proof -
  assume x: "0 \<le> h" "h \<le> 23" "0 \<le> m" "m \<le> 59" "0 \<le> s" "s \<le> 59" "t = d * 86400 + h * 3600 + m * 60 + s"
  define hours where "hours = d * 24 + h"
  define minutes where "minutes = hours * 60 + m"
  have split: "(a * k + b) div k = a" "(a * k + b) mod k = b" if "0 \<le> b" "b < k" for a b k :: int
    using that by simp_all
  have "t = minutes * 60 + s" using x(7) by (simp add: minutes_def hours_def)
  then have "t div 60 = minutes" "t mod 60 = s" using split [of s 60 minutes] x(5,6) by simp_all
  moreover have "minutes div 60 = hours" "minutes mod 60 = m" unfolding minutes_def using split [of m 60 hours] x(3,4) by simp_all
  moreover have "hours div 24 = d" "hours mod 24 = h" unfolding hours_def using split [of h 24 d] x(1,2) by simp_all
  moreover have "t div 3600 = t div 60 div 60" "t div 86400 = t div 60 div 60 div 24"
    using zdiv_zmult2_eq [of 60 t 60] zdiv_zmult2_eq [of 24 t 3600] by simp_all
  ultimately show ?thesis by simp
qed

text \<open>A day by its era, the year of the era, the month from March on and the day of that month.\<close>

definition possible :: "int \<Rightarrow> int \<Rightarrow> int \<Rightarrow> int \<Rightarrow> bool" where
  "possible era y i day \<longleftrightarrow> 0 \<le> era \<and> 0 \<le> y \<and> y \<le> 399 \<and> 0 \<le> i \<and> i \<le> 11 \<and> 1 \<le> day \<and> day \<le> index_days (is_leap (y + 1)) i"

definition day_number :: "int \<Rightarrow> int \<Rightarrow> int \<Rightarrow> int \<Rightarrow> int" where
  "day_number era y i day = era * 146097 + (year_days y + year_day i day)"

definition calendar_year :: "int \<Rightarrow> int \<Rightarrow> int \<Rightarrow> int" where
  "calendar_year era y i = y + era * 400 + (if month_of i \<le> 2 then 1 else 0)"

lemma year_bounds: "count_upto 399 (\<lambda>y. 0 \<le> year_days y \<and> year_end y < 146097)"
  by code_simp

lemma index_days_le: "index_days full i \<le> index_days True i" "index_days True i \<le> 31"
  by (simp_all add: index_days_def)

lemma possible_day:
  assumes "possible era y i day"
  shows "0 \<le> year_day i day \<and> year_days y + year_day i day \<le> year_end y \<and> (5 * year_day i day + 2) div 153 = i"
proof -
  note p = assms [unfolded possible_def]
  have "count_upto 30 (\<lambda>d. d + 1 \<le> index_days True i \<longrightarrow>
    0 \<le> year_day i (d + 1) \<and> year_day i (d + 1) \<le> 365 \<and> (d + 1 \<le> index_days False i \<longrightarrow> year_day i (d + 1) \<le> 364) \<and> (5 * year_day i (d + 1) + 2) div 153 = i)"
    using count_uptoD [OF months_to_days, of i] p by simp
  from count_uptoD [OF this, of "day - 1"] have "0 \<le> year_day i day" "year_day i day \<le> 365" "day \<le> index_days False i \<longrightarrow> year_day i day \<le> 364"
      "(5 * year_day i day + 2) div 153 = i"
    using p index_days_le(1) [of "is_leap (y + 1)" i] index_days_le(2) [of i] by simp_all
  then show ?thesis using count_uptoD [OF year_lengths, of y] p by (cases "is_leap (y + 1)") simp_all
qed

lemma possible_leap: "possible era y i day \<Longrightarrow> month_days (calendar_year era y i) (month_of i) = index_days (is_leap (y + 1)) i"
proof -
  assume "possible era y i day"
  then have i: "0 \<le> i" "i \<le> 11" by (simp_all add: possible_def)
  have "month_days (calendar_year era y i) (month_of i) = index_days (is_leap (calendar_year era y i)) i"
    using count_uptoD [OF month_index(1) i] month_days_index [of "month_of i"] by simp
  also have "\<dots> = index_days (is_leap (y + 1)) i"
    using is_leap_era [of "y + 1" era] by (cases "i = 11") (simp_all add: index_days_def calendar_year_def month_of_def algebra_simps)
  finally show ?thesis .
qed

lemma date_fields_day:
  assumes "possible era y i day" and "t div 86400 + 719468 = day_number era y i day"
  shows "date_fields t = (calendar_year era y i, month_of i, day, t div 3600 mod 24, t div 60 mod 60, t mod 60)"
proof -
  have d: "0 \<le> year_day i day" "year_days y + year_day i day \<le> year_end y" "(5 * year_day i day + 2) div 153 = i" and y: "0 \<le> y" "y \<le> 399"
    using possible_day [OF assms(1)] assms(1) by (simp_all add: possible_def)
  have "era_year (year_days y + year_day i day) = y" using era_year_unique [OF y] d by simp
  moreover have "0 \<le> year_days y + year_day i day" "year_days y + year_day i day < 146097" using count_uptoD [OF year_bounds y] d by simp_all
  ultimately show ?thesis using d(3) assms(2)
    by (simp add: date_fields_def Let_def day_number_def calendar_year_def month_of_def) (simp add: year_day_def)
qed

lemma utc_day:
  assumes "possible era y i day" and "hour \<le> 23" and "minute \<le> 59" and "sec \<le> 59"
  shows "utc (calendar_year era y i, month_of i, day, hour, minute, sec) =
    (if day_number era y i day < 719468 then None else Some ((day_number era y i day - 719468) * 86400 + hour * 3600 + minute * 60 + sec))"
proof -
  have p: "0 \<le> era" "0 \<le> y" "y \<le> 399" "0 \<le> i" "i \<le> 11" "1 \<le> day" "day \<le> month_days (calendar_year era y i) (month_of i)"
    using assms(1) possible_leap [OF assms(1)] by (simp_all add: possible_def)
  have m: "1 \<le> month_of i" "month_of i \<le> 12" "(month_of i + 9) mod 12 = i" using count_uptoD [OF month_index(1) p(4,5)] by simp_all
  have start: "calendar_year era y i - (if month_of i \<le> 2 then 1 else 0) = y + era * 400" by (simp add: calendar_year_def)
  show ?thesis using p m assms(2-4) unfolding utc_def prod.case start Let_def
    by (simp add: day_number_def year_day_def algebra_simps)
qed

lemma seconds_possible:
  assumes "0 \<le> (t :: int)"
  obtains era y i day where "possible era y i day" and "t div 86400 + 719468 = day_number era y i day"
proof -
  define n where "n = t div 86400 + 719468"
  have n: "0 \<le> n" using assms by (simp add: n_def pos_imp_zdiv_nonneg_iff)
  obtain y where y: "0 \<le> y" "y \<le> 399" "year_days y \<le> n mod 146097" "n mod 146097 \<le> year_end y"
    by (rule era_year_exists [of "n mod 146097"]) simp_all
  define x where "x = n mod 146097 - year_days y"
  have x: "0 \<le> x" "x \<le> 365" "x = 365 \<longrightarrow> is_leap (y + 1)" using y count_uptoD [OF year_lengths y(1,2)] by (auto simp: x_def split: if_splits)
  define i where "i = (5 * x + 2) div 153"
  define day where "day = x - (153 * i + 2) div 5 + 1"
  have i: "0 \<le> i" "i \<le> 11" "1 \<le> day" "day \<le> index_days (x = 365) i" "year_day i day = x"
    using count_uptoD [OF days_to_months x(1,2)] unfolding Let_def i_def [symmetric] day_def [symmetric] by simp_all
  have "possible (n div 146097) y i day"
    using i y(1,2) n x(3) by (auto simp: possible_def pos_imp_zdiv_nonneg_iff index_days_def split: if_splits)
  moreover have "n = day_number (n div 146097) y i day" using div_mult_mod_eq [of n 146097] by (simp add: day_number_def i(5) x_def)
  ultimately show ?thesis using that n_def by simp
qed

lemma date_possible:
  assumes "utc (year, month, day, hour, minute, sec) = Some t"
  obtains era y i where "possible era y i day" and "year = calendar_year era y i" and "month = month_of i"
proof -
  have v: "1 \<le> month" "month \<le> 12" "1 \<le> day" "day \<le> month_days year month" "0 \<le> year - (if month \<le> 2 then 1 else 0)"
    using assms by (simp_all add: utc_def Let_def split: if_splits)
  define i where "i = (month + 9) mod 12"
  define y where "y = year - (if month \<le> 2 then 1 else 0)"
  have i: "month_of i = month" "0 \<le> i" "i \<le> 11" using month_index(2) [OF v(1,2)] by (simp_all add: i_def)
  have year: "year = calendar_year (y div 400) (y mod 400) i" using i(1) by (simp add: calendar_year_def y_def)
  have "is_leap year = is_leap (y mod 400 + 1)" if "month \<le> 2"
    using that is_leap_era [of "y mod 400 + 1" "y div 400"] by (simp add: y_def algebra_simps)
  moreover have "i \<noteq> 11" if "\<not> month \<le> 2" using that i(1) by (auto simp: month_of_def)
  ultimately have "index_days (is_leap year) i = index_days (is_leap (y mod 400 + 1)) i" by (cases "month \<le> 2") (simp_all add: index_days_def)
  moreover have "0 \<le> y div 400" "0 \<le> y mod 400" "y mod 400 \<le> 399" using v(5) pos_mod_bound [of 400 y] by (simp_all add: y_def [symmetric] pos_imp_zdiv_nonneg_iff)
  ultimately have "possible (y div 400) (y mod 400) i day"
    using v(3,4) i month_days_index [OF v(1,2), of year] by (simp add: possible_def i_def [symmetric])
  then show ?thesis using that year i(1) by simp
qed

text \<open>
  Dates and seconds are the same: every second since 1970 has the fields of a date that \<open>utc\<close> turns back into it, and every date it accepts is the one its second has.
  So each possible date from 1970 on is exactly one second, leap years included.
\<close>

theorem utc_round_trip:
  fixes t year :: int
  assumes "0 \<le> t" and "utc (year, month, day, hour, minute, sec) = Some u" and "0 \<le> hour" and "0 \<le> minute" and "0 \<le> sec"
  shows "utc (date_fields t) = Some t \<and> 0 \<le> u \<and> date_fields u = (year, month, day, hour, minute, sec)"
proof -
  obtain era y i d where a: "possible era y i d" "t div 86400 + 719468 = day_number era y i d" by (rule seconds_possible [OF assms(1)])
  have "utc (date_fields t) = Some (t div 86400 * 86400 + t div 3600 mod 24 * 3600 + t div 60 mod 60 * 60 + t mod 60)"
    unfolding date_fields_day [OF a] using utc_day [OF a(1), of "t div 3600 mod 24" "t div 60 mod 60" "t mod 60"] assms(1) a(2) [symmetric]
    by (simp add: pos_imp_zdiv_nonneg_iff)
  then have again: "utc (date_fields t) = Some t" using time_of_day [OF assms(1)] by simp
  obtain era2 y2 i2 where b: "possible era2 y2 i2 day" "year = calendar_year era2 y2 i2" "month = month_of i2" by (rule date_possible [OF assms(2)])
  have c: "hour \<le> 23" "minute \<le> 59" "sec \<le> 59" using assms(2) by (simp_all add: utc_def split: if_splits)
  have n: "719468 \<le> day_number era2 y2 i2 day" and u: "u = (day_number era2 y2 i2 day - 719468) * 86400 + hour * 3600 + minute * 60 + sec"
    using assms(2) utc_day [OF b(1) c] by (simp_all add: b(2,3) split: if_splits)
  have parts: "u div 86400 = day_number era2 y2 i2 day - 719468 \<and> u div 3600 mod 24 = hour \<and> u div 60 mod 60 = minute \<and> u mod 60 = sec"
    by (rule day_parts [OF assms(3) c(1) assms(4) c(2) assms(5) c(3) u])
  then have "date_fields u = (year, month, day, hour, minute, sec)" using date_fields_day [OF b(1), of u] b(2,3) by simp
  moreover have "0 \<le> u" using n u assms(3-5) by simp
  ultimately show ?thesis using again by simp
qed

theorem utc_round_trip_witness:
  "utc (date_fields 951825600) = Some 951825600 \<and> date_fields 1791158399 = (2026, 10, 4, 23, 59, 59)"
proof -
  have "utc (2026, 10, 4, 23, 59, 59) = Some 1791158399" by code_simp
  from utc_round_trip [OF _ this, of 951825600] show ?thesis by simp
qed

end
