(* ===== verification/Spec2Isabelle.thy ===== *)
theory Spec2Isabelle
  imports Prelude Varint Frame Codes Settings Huffman Qpack Message_Fields Message Capsule Sessions Routing Control Budget Quota Quotas Credit Shard Admission Hash_Table Rate Auth_Store
    Approvals Origins Policy Uploads Lane Progress Download Decimal Latency Throughput Bus Durations Calendar Retry
begin

text \<open>
  A verification library for graphite-meter, a self-hosted speed and latency test: a server, an HTTP/3 and WebTransport layer of its own, and a client for the
  terminal, all in Rust under \<^verbatim>\<open>rust/\<close>. The definitions translate the code that decides things: what bytes mean, what is admitted, what is counted, when
  something ends. The theorems say what callers rely on. Every definition stands at the top level of the theory of its component and is executable; the
  source file is named at the head of each theory, and definitions keep the names of the code, prefixed by their type where Rust's are methods.

  \<^bold>\<open>The program and its theories.\<close>

  \<^item> The HTTP/3 layer (\<^verbatim>\<open>rust/http3/src\<close>). Bytes of a stream go through \<open>Varint\<close> (\<^verbatim>\<open>varint.rs\<close>), \<open>Frame\<close> (\<^verbatim>\<open>frame.rs\<close>) and, on a request stream,
    \<open>Message\<close> (\<^verbatim>\<open>message.rs\<close>), which hands field sections to \<open>Qpack\<close> (\<^verbatim>\<open>qpack/mod.rs\<close>, \<^verbatim>\<open>qpack/table.rs\<close>), \<open>Huffman\<close> (\<^verbatim>\<open>qpack/huffman.rs\<close>) and
    \<open>Message_Fields\<close> (\<^verbatim>\<open>fields.rs\<close>). \<open>Codes\<close> are the error codes of \<^verbatim>\<open>code.rs\<close>. The control stream is \<open>Settings\<close> (\<^verbatim>\<open>settings.rs\<close>) and
    \<open>Control\<close> (\<^verbatim>\<open>driver.rs\<close>). A WebTransport session is \<open>Capsule\<close> (\<^verbatim>\<open>capsule.rs\<close>) and \<open>Sessions\<close> (\<^verbatim>\<open>webtransport.rs\<close>); \<open>Routing\<close> has the runs of its registry.
  \<^item> Admission to the server (\<^verbatim>\<open>rust/server/src\<close>). \<open>Budget\<close> (\<^verbatim>\<open>limits/budget.rs\<close>) counts memory, \<open>Quota\<close> and \<open>Quotas\<close> (\<^verbatim>\<open>limits/quota.rs\<close>,
    \<^verbatim>\<open>limits/mod.rs\<close>) count connections, handshakes, operations, sessions and window credit per client, and \<open>Admission\<close> (\<^verbatim>\<open>admission.rs\<close>) gives out leases on them.
    \<open>Credit\<close> (\<^verbatim>\<open>transport/quic/budget.rs\<close>, \<^verbatim>\<open>transport/window.rs\<close>) is what a QUIC connection holds of the budget for its windows;
    \<open>Shard\<close> (\<^verbatim>\<open>transport/quic/shard.rs\<close>) routes datagrams between the endpoints of one address.
  \<^item> Sign-in (\<^verbatim>\<open>rust/server/src/auth\<close>). \<open>Rate\<close> (\<^verbatim>\<open>rate.rs\<close>) limits attempts, \<open>Auth_Store\<close> (\<^verbatim>\<open>store.rs\<close>) keeps logins and grants, \<open>Approvals\<close>
    (\<^verbatim>\<open>approval.rs\<close>) lets a login approve a terminal or another browser, and \<open>Policy\<close> (\<^verbatim>\<open>policy.rs\<close>, with \<^verbatim>\<open>peer.rs\<close> and the routes of \<^verbatim>\<open>proto/src\<close>) decides
    on every request, by the addresses and origins of \<open>Origins\<close> (\<^verbatim>\<open>proto/src/origin.rs\<close>). \<open>Hash_Table\<close> is the \<open>HashMap\<close> these stores use.
  \<^item> Measurement in the server. \<open>Lane\<close> (\<^verbatim>\<open>lane.rs\<close>) bounds and ends a transfer, \<open>Download\<close> (\<^verbatim>\<open>engine/download.rs\<close>) hands out its bytes, \<open>Uploads\<close>
    (\<^verbatim>\<open>engine/uploads.rs\<close>) gathers the lanes of an upload, \<open>Progress\<close> (\<^verbatim>\<open>engine/mod.rs\<close>) tells its readers.
  \<^item> The client and what both sides share. \<open>Latency\<close> (\<^verbatim>\<open>client/src/measure/latency.rs\<close>) sums up round trips, \<open>Throughput\<close> (\<^verbatim>\<open>client/src/measure/aggregate.rs\<close>) turns counters into intervals and headlines, \<open>Retry\<close> (\<^verbatim>\<open>client/src/net/fault.rs\<close>,
    \<^verbatim>\<open>retry.rs\<close>, with the refusals of \<^verbatim>\<open>proto/src\<close>) decides what a failure means; \<open>Bus\<close> and \<open>Durations\<close> (\<^verbatim>\<open>proto/src/bus.rs\<close>, \<^verbatim>\<open>duration.rs\<close>) are texts, over
    the numbers of \<open>Decimal\<close>. \<open>Calendar\<close> (\<^verbatim>\<open>server/src/clock.rs\<close>) has the dates of seconds.

  \<open>Prelude\<close> has the machine integers, slices, results with events (\<open>outcome\<close>, \<open>seq_out\<close>) and the locale \<open>byte_reader\<close>: the contract of a reader that takes a
  stream in chunks and behaves like a function of one byte at a time. It is interpreted by the readers of frames, settings, messages, capsules and the QPACK decoder
  stream; that chunking changes nothing, and every round trip over chunks, comes from its lemmas. The locale \<open>pool\<close> of \<open>Quota\<close> is the contract of what takes
  and returns holds, interpreted by the operations and sessions of \<open>Quotas\<close>, which \<open>Admission\<close> uses. The locale
  \<open>measure_invariant\<close> of \<open>Throughput\<close> is what an invariant of an aggregate has to withstand, interpreted for the evidence, the participants, the order and the number of its intervals.

  \<^bold>\<open>State and interleaving.\<close> A struct is a record, an enum a datatype, a \<open>Result\<close> a sum with the error on the left. A \<open>HashMap\<close> is an association list with
  distinct keys. What a \<open>Mutex\<close> guards is mapped to the new state by one operation, which is one step; between two sections of a handler other requests may
  run. Atomics (\<open>Budget\<close>) are stepped access by access. Reachable states are inductive: \<open>Budget\<close>, \<open>Credit\<close>, \<open>Admission\<close>, \<open>Approvals\<close>, \<open>Uploads\<close>, \<open>Progress\<close>,
  \<open>Routing\<close>, \<open>Sessions\<close> and \<open>Control\<close> each have a relation of steps, and their invariants hold for every order of them. An \<open>async\<close> function is its polls: what a
  \<open>select\<close> finds ready is an argument. Instants and durations are natural numbers, in nanoseconds unless a theory says otherwise; time never runs backwards.

  \<^bold>\<open>What is shown.\<close>

  \<^item> Readers and writers: what is written is read back, in whatever chunks it comes (varints, frames, settings, Huffman, QPACK sections, requests, whole messages, CLOSE
    capsules, sessions, GOAWAY, bus messages, durations, origins, dates); what a reader accepts is well formed (Huffman padding, settings, requests, the order of a control stream and of
    a message); what it buffers is bounded.
  \<^item> Resources: the budget, quotas, window credit, leases, upload aggregates, sign-in stores, attempts and session queues stay within their bounds in every run, count exactly what is
    held, give it back, and are left as they were by a refusal.
  \<^item> Secrets: a request the policy serves is entitled to it, what the policy lets an origin read is for the origin that asked, a token needs an approval that proved the CSRF token, a sign-out revokes for good, an upload identifier names one aggregate of one owner for ever.
  \<^item> Routing: a batch of datagrams is routed in place as one by one, and the packets of a connection reach one endpoint.
  \<^item> Endings: lanes, sessions and progress feeds have one ending; a reader of progress misses no wake-up and its last record is complete; retrying ends.
  \<^item> Statistics: the histogram's summary is that of the sorted round trips; a headline is the growth of counters between two boundaries that were observed, and no byte is
    counted twice.

  \<^bold>\<open>Loops and fuel.\<close> Recursions that are not structural have a measure, for the readers the bytes left (\<open>reader_mass\<close>). The only fuel is that of \<open>retrying\<close>: 8 attempts are
  enough, as every failed attempt and the pause after it take at least \<open>BUSY_FIRST\<close>, 300 ms, and after \<open>REDIAL_WINDOW\<close>, 2 s, a fault stands.

  \<^bold>\<open>Parameters.\<close> Code of other packages is an argument, with what is relied on as hypotheses that the witnesses meet: the \<^verbatim>\<open>http\<close> crate's names and values
  (\<open>Message_Fields\<close>), the text of header values and the authority of a URI (\<open>Policy\<close>), SHA-256, HMAC and base64 (\<open>Auth_Store\<close>, \<open>Approvals\<close>, \<open>Uploads\<close>, \<open>Admission\<close>), the truncation of addresses and the prefixes of \<^verbatim>\<open>ipnet\<close> (\<open>Quota\<close>, \<open>Policy\<close>), random
  texts, cancellation tokens, and what polling the QUIC library answers (\<open>Sessions\<close>).

  \<^bold>\<open>Not modelled.\<close> The async input and output around these components (request streams, the select loop of the driver, listeners, TLS, proxies, hyper and
  tungstenite), start and stop of tasks, assets, configuration, pages, the sign-in providers (OpenID Connect, password hashes), JSON and command line texts: they call other
  packages and decide little of their own. The client's schedules and its live rate are floating point over the wall clock (in \<open>Throughput\<close> the operations on such numbers are a parameter), the terminal interface draws. The web client is not Rust.
\<close>

end
